(* ===== verification/Eve_Prelude.thy ===== *)
theory Eve_Prelude
  imports Main "HOL-Library.Sublist"
begin

text \<open>
  Shared ground of the development: JavaScript array and string helpers (first matching
  index, removal at an index, suffix stripping), lists keyed by an identifier and read
  as maps, and the generic machine interface (a step function that keeps an invariant)
  which the stateful components interpret.
\<close>

named_theorems js_list

section \<open>Array helpers\<close>

text \<open>\<open>Array.prototype.findIndex\<close>, with \<open>None\<close> for the value \<open>-1\<close>.\<close>

fun find_index :: "('a \<Rightarrow> bool) \<Rightarrow> 'a list \<Rightarrow> nat option" where
  "find_index P [] = None"
| "find_index P (x # xs) = (if P x then Some 0 else map_option Suc (find_index P xs))"

text \<open>\<open>Array.prototype.findLastIndex\<close>.\<close>

definition find_last_index :: "('a \<Rightarrow> bool) \<Rightarrow> 'a list \<Rightarrow> nat option" where
  "find_last_index P xs =
     (case find_index P (rev xs) of None \<Rightarrow> None | Some i \<Rightarrow> Some (length xs - Suc i))"

text \<open>\<open>xs.splice(i, 1)\<close>: the array without its element at index \<open>i\<close>.\<close>

definition remove_nth :: "nat \<Rightarrow> 'a list \<Rightarrow> 'a list" where
  "remove_nth i xs = take i xs @ drop (Suc i) xs"

lemma find_index_eq_Some_iff:
  "find_index P xs = Some i \<longleftrightarrow> i < length xs \<and> P (xs ! i) \<and> (\<forall>j<i. \<not> P (xs ! j))"
proof (induction xs arbitrary: i)
  case Nil
  then show ?case by simp
next
  case (Cons x xs)
  show ?case
    by (cases i) (auto simp: Cons.IH less_Suc_eq_0_disj)
qed

lemma find_index_eq_None_iff: "find_index P xs = None \<longleftrightarrow> (\<forall>x \<in> set xs. \<not> P x)"
  by (induction xs) auto

lemma find_index_SomeD [dest]:
  assumes "find_index P xs = Some i"
  shows "i < length xs" and "P (xs ! i)" and "xs ! i \<in> set xs"
  using assms by (auto simp: find_index_eq_Some_iff)

lemma find_last_index_SomeD:
  assumes "find_last_index P xs = Some i"
  shows "i < length xs" and "P (xs ! i)" and "\<And>j. i < j \<Longrightarrow> j < length xs \<Longrightarrow> \<not> P (xs ! j)"
proof -
  from assms obtain k where k: "find_index P (rev xs) = Some k" and i: "i = length xs - Suc k"
    by (auto simp: find_last_index_def split: option.splits)
  from k have kl: "k < length xs" and pk: "P (rev xs ! k)" and lo: "\<forall>j<k. \<not> P (rev xs ! j)"
    by (auto simp: find_index_eq_Some_iff)
  from kl i show "i < length xs" by simp
  from pk kl i show "P (xs ! i)" by (simp add: rev_nth)
  fix j assume ij: "i < j" and jl: "j < length xs"
  define m where "m = length xs - Suc j"
  from ij jl kl i have "m < k" by (simp add: m_def)
  with lo have "\<not> P (rev xs ! m)" by blast
  with jl show "\<not> P (xs ! j)" by (simp add: m_def rev_nth)
qed

lemma find_last_index_None_iff: "find_last_index P xs = None \<longleftrightarrow> (\<forall>x \<in> set xs. \<not> P x)"
proof -
  have "find_last_index P xs = None \<longleftrightarrow> find_index P (rev xs) = None"
    by (simp add: find_last_index_def split: option.splits)
  also have "\<dots> \<longleftrightarrow> (\<forall>x \<in> set xs. \<not> P x)" by (simp add: find_index_eq_None_iff)
  finally show ?thesis .
qed

lemma find_last_index_eq_Some_iff:
  "find_last_index P xs = Some i \<longleftrightarrow>
     i < length xs \<and> P (xs ! i) \<and> (\<forall>j. i < j \<longrightarrow> j < length xs \<longrightarrow> \<not> P (xs ! j))"
proof
  assume r: "i < length xs \<and> P (xs ! i) \<and> (\<forall>j. i < j \<longrightarrow> j < length xs \<longrightarrow> \<not> P (xs ! j))"
  then obtain k where k: "find_last_index P xs = Some k"
    using find_last_index_None_iff [of P xs] by (metis not_None_eq nth_mem)
  note f = find_last_index_SomeD [OF k]
  have "k = i" using r f by (metis linorder_neqE_nat)
  with k show "find_last_index P xs = Some i" by simp
qed (use find_last_index_SomeD in blast)

lemma find_last_index_snoc: "P x \<Longrightarrow> find_last_index P (xs @ [x]) = Some (length xs)"
  by (simp add: find_last_index_eq_Some_iff)

lemma find_last_index_update:
  "find_last_index P xs = Some i \<Longrightarrow> P x \<Longrightarrow> find_last_index P (xs[i := x]) = Some i"
  by (simp add: find_last_index_eq_Some_iff)

lemma find_last_index_append_other:
  "\<forall>y \<in> set ys. \<not> P y \<Longrightarrow> find_last_index P (xs @ ys) = find_last_index P xs"
proof (cases "find_last_index P xs")
  case None
  assume "\<forall>y \<in> set ys. \<not> P y"
  with None have "\<forall>y \<in> set (xs @ ys). \<not> P y" by (auto simp: find_last_index_None_iff)
  with None show ?thesis using find_last_index_None_iff by metis
next
  case (Some i)
  assume n: "\<forall>y \<in> set ys. \<not> P y"
  note f = find_last_index_SomeD [OF Some]
  have "\<not> P ((xs @ ys) ! j)" if "i < j" "j < length (xs @ ys)" for j
  proof (cases "j < length xs")
    case True
    with f(3) that show ?thesis by (simp add: nth_append)
  next
    case False
    with that have "(xs @ ys) ! j \<in> set ys" by (simp add: nth_append)
    with n show ?thesis by blast
  qed
  with f have "find_last_index P (xs @ ys) = Some i"
    by (simp add: find_last_index_eq_Some_iff nth_append)
  with Some show ?thesis by simp
qed

lemma find_append:
  "List.find P (xs @ ys) = (case List.find P xs of None \<Rightarrow> List.find P ys | Some x \<Rightarrow> Some x)"
  by (induction xs) auto

lemma find_splitD:
  assumes "List.find P xs = Some x"
  obtains pre post where "xs = pre @ x # post" and "P x" and "\<forall>y \<in> set pre. \<not> P y"
  using assms
proof (induction xs arbitrary: thesis)
  case (Cons y ys)
  show ?case
  proof (cases "P y")
    case True
    with Cons.prems show ?thesis by (intro Cons.prems(1) [of "[]" ys]) auto
  next
    case False
    with Cons.prems(2) have "List.find P ys = Some x" by simp
    then obtain pre post where "ys = pre @ x # post" "P x" "\<forall>y \<in> set pre. \<not> P y"
      using Cons.IH by blast
    with False show ?thesis by (intro Cons.prems(1) [of "y # pre" post]) auto
  qed
qed simp

text \<open>The sequencing of two steps of which the first may throw.\<close>

fun and_then :: "'e + 'a \<Rightarrow> ('a \<Rightarrow> 'e + 'b) \<Rightarrow> 'e + 'b" where
  "and_then (Inl e) f = Inl e"
| "and_then (Inr x) f = f x"

lemma and_then_eq_Inr_iff: "and_then m f = Inr y \<longleftrightarrow> (\<exists>x. m = Inr x \<and> f x = Inr y)"
  by (cases m) auto

text \<open>All results, or the first error.\<close>

fun those_sum :: "('e + 'a) list \<Rightarrow> 'e + 'a list" where
  "those_sum [] = Inr []"
| "those_sum (Inl e # xs) = Inl e"
| "those_sum (Inr x # xs) = map_sum id (Cons x) (those_sum xs)"

lemma those_sum_total: "\<forall>x \<in> set xs. \<exists>y. x = Inr y \<Longrightarrow> \<exists>ys. those_sum xs = Inr ys"
  by (induction xs) auto

lemma find_index_list_update:
  assumes "find_index P xs = Some i" "P x"
  shows "find_index P (xs[i := x]) = Some i"
  using assms by (auto simp: find_index_eq_Some_iff nth_list_update)

lemma find_index_snoc_new:
  assumes "find_index P xs = None" "P x"
  shows "find_index P (xs @ [x]) = Some (length xs)"
  using assms by (auto simp: find_index_eq_Some_iff find_index_eq_None_iff nth_append)

lemma find_index_split:
  "P x \<Longrightarrow> \<forall>y \<in> set pre. \<not> P y \<Longrightarrow> find_index P (pre @ x # post) = Some (length pre)"
  by (simp add: find_index_eq_Some_iff nth_append)

lemma length_remove_nth [simp]: "i < length xs \<Longrightarrow> length (remove_nth i xs) = length xs - 1"
  by (simp add: remove_nth_def)

lemma set_remove_nth_subset: "set (remove_nth i xs) \<subseteq> set xs"
  by (auto simp: remove_nth_def dest: in_set_takeD in_set_dropD)

lemma map_remove_nth [js_list]: "map f (remove_nth i xs) = remove_nth i (map f xs)"
  by (simp add: remove_nth_def take_map drop_map)

lemma distinct_remove_nth: "distinct xs \<Longrightarrow> distinct (remove_nth i xs)"
  by (auto simp: remove_nth_def dest: set_take_disj_set_drop_if_distinct [where i = i and j = "Suc i"])

lemma remove_nth_Cons [js_list]:
  "remove_nth 0 (x # xs) = xs" "remove_nth (Suc i) (x # xs) = x # remove_nth i xs"
  by (simp_all add: remove_nth_def)

lemma set_remove_nth_distinct:
  "distinct xs \<Longrightarrow> i < length xs \<Longrightarrow> set (remove_nth i xs) = set xs - {xs ! i}"
proof (induction xs arbitrary: i)
  case Nil
  then show ?case by simp
next
  case (Cons x xs)
  then show ?case by (cases i) (auto simp: js_list)
qed

lemma mset_like_remove_nth: "i < length xs \<Longrightarrow> set xs = insert (xs ! i) (set (remove_nth i xs))"
proof (induction xs arbitrary: i)
  case Nil
  then show ?case by simp
next
  case (Cons x xs)
  then show ?case by (cases i) (auto simp: js_list)
qed

section \<open>Subsequences and filtered images\<close>

lemma map_filter_subseq: "subseq xs ys \<Longrightarrow> subseq (List.map_filter f xs) (List.map_filter f ys)"
  by (induction rule: list_emb.induct) (auto simp: map_filter_simps split: option.split)

lemma set_map_filter: "set (List.map_filter f xs) = {y. \<exists>x \<in> set xs. f x = Some y}"
  by (induction xs) (auto simp: map_filter_simps split: option.splits)

lemma map_filter_append [simp]: "List.map_filter f (xs @ ys) = List.map_filter f xs @ List.map_filter f ys"
  by (induction xs) (simp_all add: map_filter_simps split: option.split)

lemma subseq_distinct: "subseq xs ys \<Longrightarrow> distinct ys \<Longrightarrow> distinct xs"
  by (induction rule: list_emb.induct) (auto dest: list_emb_set)

lemma subseq_set: "subseq xs ys \<Longrightarrow> set xs \<subseteq> set ys"
  by (auto dest: list_emb_set)

lemma map_same_update: "f x = f (xs ! i) \<Longrightarrow> map f (xs[i := x]) = map f xs"
  by (metis list_update_id map_update)

lemma map_filter_same_update: "f x = f (xs ! i) \<Longrightarrow> List.map_filter f (xs[i := x]) = List.map_filter f xs"
proof (induction xs arbitrary: i)
  case (Cons y ys)
  then show ?case by (cases i) (simp_all split: option.split)
qed simp

lemma set_takeI: "j < length xs \<Longrightarrow> j < k \<Longrightarrow> xs ! j \<in> set (take k xs)"
  by (metis in_set_conv_nth length_take min_less_iff_conj nth_take)

lemma sorted_wrt_subseq: "subseq xs ys \<Longrightarrow> sorted_wrt P ys \<Longrightarrow> sorted_wrt P xs"
proof (induction rule: list_emb.induct)
  case (list_emb_Cons2 x y xs ys)
  then show ?case by (auto dest: list_emb_set)
qed auto

section \<open>Lists keyed by an identifier\<close>

text \<open>
  Several stores of the program are arrays of records with a unique identifier. Read as
  a map, replacing at an index is a map update, removal at an index deletes a key, and
  appending a fresh record inserts one.
\<close>

definition keyed :: "('a \<Rightarrow> 'k) \<Rightarrow> 'a list \<Rightarrow> 'k \<Rightarrow> 'a option" where
  "keyed key xs k = List.find (\<lambda>x. key x = k) xs"

lemma keyed_Nil [simp]: "keyed key [] = Map.empty"
  by (simp add: keyed_def fun_eq_iff)

lemma keyed_Cons: "keyed key (x # xs) = (keyed key xs)(key x \<mapsto> x)"
  by (auto simp: keyed_def fun_eq_iff)

lemma keyed_eq_None_iff: "keyed key xs k = None \<longleftrightarrow> k \<notin> key ` set xs"
  by (auto simp: keyed_def find_None_iff)

lemma dom_keyed: "dom (keyed key xs) = key ` set xs"
  by (auto simp: dom_def keyed_eq_None_iff)

lemma keyed_SomeD: "keyed key xs k = Some x \<Longrightarrow> x \<in> set xs \<and> key x = k"
  by (auto simp: keyed_def find_Some_iff)

lemma keyed_in_set:
  "distinct (map key xs) \<Longrightarrow> x \<in> set xs \<Longrightarrow> keyed key xs (key x) = Some x"
  by (induction xs) (auto simp: keyed_Cons rev_image_eqI)

lemma keyed_nth:
  "distinct (map key xs) \<Longrightarrow> i < length xs \<Longrightarrow> keyed key xs (key (xs ! i)) = Some (xs ! i)"
  by (simp add: keyed_in_set)

lemma keyed_append_fresh:
  "key x \<notin> key ` set xs \<Longrightarrow> keyed key (xs @ [x]) = (keyed key xs)(key x \<mapsto> x)"
  by (induction xs) (auto simp: keyed_Cons fun_eq_iff)

lemma key_nth_neq:
  "key x \<notin> key ` set xs \<Longrightarrow> j < length xs \<Longrightarrow> key (xs ! j) \<noteq> key x"
  by (metis image_eqI nth_mem)

lemma keyed_update:
  "distinct (map key xs) \<Longrightarrow> i < length xs \<Longrightarrow> key y = key (xs ! i)
   \<Longrightarrow> keyed key (xs[i := y]) = (keyed key xs)(key y \<mapsto> y)"
proof (induction xs arbitrary: i)
  case Nil
  then show ?case by simp
next
  case (Cons x xs)
  then show ?case
    by (cases i) (auto simp: keyed_Cons fun_eq_iff key_nth_neq)
qed

lemma keyed_remove_nth:
  "distinct (map key xs) \<Longrightarrow> i < length xs
   \<Longrightarrow> keyed key (remove_nth i xs) = (keyed key xs)(key (xs ! i) := None)"
proof (induction xs arbitrary: i)
  case Nil
  then show ?case by simp
next
  case (Cons x xs)
  show ?case
  proof (cases i)
    case 0
    with Cons.prems have "keyed key xs (key x) = None"
      by (simp add: keyed_eq_None_iff)
    with 0 show ?thesis by (auto simp: keyed_Cons js_list fun_eq_iff)
  next
    case (Suc j)
    with Cons show ?thesis by (auto simp: keyed_Cons js_list fun_eq_iff key_nth_neq)
  qed
qed

lemma map_key_update:
  "i < length xs \<Longrightarrow> key y = key (xs ! i) \<Longrightarrow> map key (xs[i := y]) = map key xs"
  by (simp add: map_update list_update_same_conv)

lemma keyed_append_other:
  "\<forall>y \<in> set ys. key y \<noteq> k \<Longrightarrow> keyed key (ys @ zs) k = keyed key zs k"
  by (induction ys) (auto simp: keyed_Cons)

lemma keyed_map:
  assumes "\<And>x. x \<in> set xs \<Longrightarrow> key (f x) = key x"
  shows "keyed key (map f xs) k = map_option f (keyed key xs k)"
  using assms by (induction xs) (auto simp: keyed_Cons)

text \<open>A \<open>flatMap\<close> that keeps, rewrites or drops each record without changing its key.\<close>

lemma keyed_flat_map:
  assumes "distinct (map key xs)"
    and "\<And>x y. x \<in> set xs \<Longrightarrow> y \<in> set (f x) \<Longrightarrow> key y = key x"
  shows "keyed key (concat (map f xs)) k
       = (case keyed key xs k of None \<Rightarrow> None | Some x \<Rightarrow> (case f x of [] \<Rightarrow> None | y # _ \<Rightarrow> Some y))"
  using assms
proof (induction xs)
  case Nil
  then show ?case by simp
next
  case (Cons x xs)
  show ?case
  proof (cases "key x = k")
    case True
    with Cons.prems have "k \<notin> key ` set (concat (map f xs))" by fastforce
    then have none: "keyed key (concat (map f xs)) k = None" by (simp add: keyed_eq_None_iff)
    show ?thesis
    proof (cases "f x")
      case Nil
      with True none show ?thesis by (simp add: keyed_Cons)
    next
      case (Cons y ys)
      with Cons.prems(2) [of x y] True show ?thesis by (simp add: keyed_Cons)
    qed
  next
    case False
    have "\<forall>y \<in> set (f x). key y \<noteq> k" using Cons.prems(2) [of x] False by force
    with Cons False show ?thesis by (simp add: keyed_Cons keyed_append_other)
  qed
qed

section \<open>Default values\<close>

text \<open>\<open>value ?? fallback\<close>, where only a missing value takes the fallback.\<close>

definition given_or :: "'a \<Rightarrow> 'a option \<Rightarrow> 'a" where
  "given_or fallback value = (case value of None \<Rightarrow> fallback | Some x \<Rightarrow> x)"

section \<open>String helpers\<close>

text \<open>\<open>s.endsWith(suf)\<close> and \<open>s.slice(0, -suf.length)\<close> in one operation.\<close>

definition strip_suffix :: "string \<Rightarrow> string \<Rightarrow> string option" where
  "strip_suffix suf s = (if suffix suf s then Some (take (length s - length suf) s) else None)"

lemma strip_suffix_append [simp]: "strip_suffix suf (s @ suf) = Some s"
  by (simp add: strip_suffix_def suffix_def)

lemma strip_suffix_eq_Some_iff: "strip_suffix suf s = Some t \<longleftrightarrow> s = t @ suf"
  by (auto simp: strip_suffix_def suffix_def)

section \<open>Machines that keep an invariant\<close>

text \<open>
  The interface every stateful component of the development offers to its clients: a
  total step function on its state, and an invariant each step keeps. The client lemma
  is proved once: a run over any list of inputs keeps the invariant.
\<close>

locale invariant_machine =
  fixes step :: "'s \<Rightarrow> 'i \<Rightarrow> 's"
    and inv :: "'s \<Rightarrow> bool"
  assumes step_inv: "inv s \<Longrightarrow> inv (step s i)"
begin

lemma run_inv: "inv s \<Longrightarrow> inv (foldl step s is)"
  by (induction "is" arbitrary: s) (auto intro: step_inv)

lemma run_prefix_inv: "inv s \<Longrightarrow> inv (foldl step s (take n is))"
  by (rule run_inv)

end

end
