(* ===== verification/Json_Value.thy ===== *)
theory Json_Value
  imports Eve_Prelude
begin

text \<open>
  JSON values as they cross the workflow and step boundaries
  (packages/eve/src/shared/json.ts): structural comparison, and the normalisation of an
  arbitrary JavaScript value into a JSON value. JavaScript values are read out of a heap,
  because the normalisation tests object identity to refuse cycles. Numbers are
  integers; strings are lists of 8 bit code units.
\<close>

section \<open>JSON values\<close>

datatype json =
    JNull
  | JBool bool
  | JNum int
  | JStr string
  | JArr "json list"
  | JObj "(string \<times> json) list"

text \<open>Own keys of a JavaScript object are distinct, at every level.\<close>

fun json_wf :: "json \<Rightarrow> bool"
  and json_list_wf :: "json list \<Rightarrow> bool"
  and json_entries_wf :: "(string \<times> json) list \<Rightarrow> bool" where
  "json_wf (JArr xs) = json_list_wf xs"
| "json_wf (JObj es) = (distinct (map fst es) \<and> json_entries_wf es)"
| "json_wf _ = True"
| "json_list_wf [] = True"
| "json_list_wf (x # xs) = (json_wf x \<and> json_list_wf xs)"
| "json_entries_wf [] = True"
| "json_entries_wf ((k, v) # es) = (json_wf v \<and> json_entries_wf es)"

section \<open>Structural comparison\<close>

fun json_values_equal :: "json \<Rightarrow> json \<Rightarrow> bool"
  and json_items_equal :: "json list \<Rightarrow> json list \<Rightarrow> bool"
  and json_entries_equal :: "(string \<times> json) list \<Rightarrow> (string \<times> json) list \<Rightarrow> bool" where
  "json_values_equal (JArr xs) (JArr ys) = (length xs = length ys \<and> json_items_equal xs ys)"
| "json_values_equal (JObj es) (JObj fs) = (length es = length fs \<and> json_entries_equal es fs)"
| "json_values_equal JNull JNull = True"
| "json_values_equal (JBool a) (JBool b) = (a = b)"
| "json_values_equal (JNum a) (JNum b) = (a = b)"
| "json_values_equal (JStr a) (JStr b) = (a = b)"
| "json_values_equal _ _ = False"
| "json_items_equal [] ys = True"
| "json_items_equal (x # xs) ys =
     (case ys of [] \<Rightarrow> False | y # ys' \<Rightarrow> json_values_equal x y \<and> json_items_equal xs ys')"
| "json_entries_equal [] fs = True"
| "json_entries_equal ((k, v) # es) fs =
     ((case map_of fs k of None \<Rightarrow> False | Some w \<Rightarrow> json_values_equal v w)
      \<and> json_entries_equal es fs)"

text \<open>
  Comparison of two optional values, as the callers use it on fields that may be
  absent: \<open>undefined\<close> is equal to itself only.
\<close>

fun optional_json_equal :: "json option \<Rightarrow> json option \<Rightarrow> bool" where
  "optional_json_equal None None = True"
| "optional_json_equal (Some a) (Some b) = json_values_equal a b"
| "optional_json_equal _ _ = False"

lemma json_items_equal_iff:
  "json_items_equal xs ys \<longleftrightarrow>
     length xs \<le> length ys \<and> (\<forall>i<length xs. json_values_equal (xs ! i) (ys ! i))"
  by (induction xs arbitrary: ys) (auto split: list.splits simp: less_Suc_eq_0_disj)

lemma json_entries_equal_iff:
  "json_entries_equal es fs \<longleftrightarrow>
     (\<forall>(k, v) \<in> set es. \<exists>w. map_of fs k = Some w \<and> json_values_equal v w)"
  by (induction es) (auto split: option.splits)

lemma json_list_wf_iff: "json_list_wf xs \<longleftrightarrow> (\<forall>x \<in> set xs. json_wf x)"
  by (induction xs) auto

lemma json_entries_wf_iff: "json_entries_wf es \<longleftrightarrow> (\<forall>(k, v) \<in> set es. json_wf v)"
  by (induction es) auto

lemma json_values_equal_refl: "json_wf v \<Longrightarrow> json_values_equal v v"
proof (induction v)
  case (JArr xs)
  then show ?case by (auto simp: json_items_equal_iff json_list_wf_iff)
next
  case (JObj es)
  then show ?case
    by (fastforce simp: json_entries_equal_iff json_entries_wf_iff map_of_is_SomeI)
qed simp_all

lemma distinct_keys_subset_eq:
  assumes "distinct (map fst es)" and "distinct (map fst fs)"
    and "length es = length fs" and "set (map fst es) \<subseteq> set (map fst fs)"
  shows "set (map fst fs) = set (map fst es)"
  using assms by (metis List.finite_set card_subset_eq distinct_card length_map)

lemma json_entries_equal_sym:
  assumes "distinct (map fst es)" and "distinct (map fst fs)" and "length es = length fs"
    and eq: "json_entries_equal es fs"
    and sym: "\<And>k v w. (k, v) \<in> set es \<Longrightarrow> (k, w) \<in> set fs \<Longrightarrow> json_values_equal v w
              \<Longrightarrow> json_values_equal w v"
  shows "json_entries_equal fs es"
proof -
  have "set (map fst es) \<subseteq> set (map fst fs)"
    using eq by (force simp: json_entries_equal_iff dest: map_of_SomeD)
  with assms have keys: "set (map fst fs) = set (map fst es)"
    by (intro distinct_keys_subset_eq)
  show ?thesis
    unfolding json_entries_equal_iff
  proof clarify
    fix k w assume kw: "(k, w) \<in> set fs"
    with keys obtain v where kv: "(k, v) \<in> set es" by force
    with eq obtain w' where "map_of fs k = Some w'" and "json_values_equal v w'"
      by (auto simp: json_entries_equal_iff)
    with kw kv assms show "\<exists>v. map_of es k = Some v \<and> json_values_equal w v"
      by (metis map_of_is_SomeI option.inject)
  qed
qed

lemma json_values_equal_sym:
  "json_wf v \<Longrightarrow> json_wf w \<Longrightarrow> json_values_equal v w \<Longrightarrow> json_values_equal w v"
proof (induction v arbitrary: w)
  case (JArr xs)
  then show ?case by (cases w) (auto simp: json_items_equal_iff json_list_wf_iff)
next
  case (JObj es)
  then obtain fs where w: "w = JObj fs" by (cases w) auto
  have "json_entries_equal fs es"
    using JObj.prems unfolding w
    by (intro json_entries_equal_sym [of es fs])
      (auto simp: json_entries_wf_iff intro!: JObj.IH)
  with JObj.prems w show ?case by simp
qed (case_tac w; simp)+

lemma json_entries_equal_trans:
  assumes eq: "json_entries_equal es fs" "json_entries_equal fs gs"
    and trans: "\<And>k x y z. (k, x) \<in> set es \<Longrightarrow> json_values_equal x y \<Longrightarrow> json_values_equal y z
                \<Longrightarrow> json_values_equal x z"
  shows "json_entries_equal es gs"
  unfolding json_entries_equal_iff
proof clarify
  fix k x assume kx: "(k, x) \<in> set es"
  with eq(1) obtain y where y: "map_of fs k = Some y" "json_values_equal x y"
    by (auto simp: json_entries_equal_iff)
  from map_of_SomeD [OF y(1)] eq(2) obtain z where z: "map_of gs k = Some z" "json_values_equal y z"
    by (auto simp: json_entries_equal_iff)
  from trans [OF kx y(2) z(2)] z(1)
  show "\<exists>z. map_of gs k = Some z \<and> json_values_equal x z" by blast
qed

lemma json_items_equal_trans:
  assumes eq: "json_items_equal xs ys" "json_items_equal ys zs"
    and trans: "\<And>x y z. x \<in> set xs \<Longrightarrow> json_values_equal x y \<Longrightarrow> json_values_equal y z
                \<Longrightarrow> json_values_equal x z"
  shows "json_items_equal xs zs"
  using eq unfolding json_items_equal_iff
  by (meson trans nth_mem le_trans less_le_trans)

fun_cases json_arr_equalE: "json_values_equal (JArr xs) w"
fun_cases json_obj_equalE: "json_values_equal (JObj es) w"
fun_cases json_null_equalE: "json_values_equal JNull w"
fun_cases json_bool_equalE: "json_values_equal (JBool b) w"
fun_cases json_num_equalE: "json_values_equal (JNum n) w"
fun_cases json_str_equalE: "json_values_equal (JStr s) w"

lemmas json_equalEs =
  json_arr_equalE json_obj_equalE json_null_equalE json_bool_equalE json_num_equalE json_str_equalE

lemma json_values_equal_trans:
  "json_values_equal u v \<Longrightarrow> json_values_equal v w \<Longrightarrow> json_values_equal u w"
proof (induction u arbitrary: v w)
  case (JArr xs)
  from JArr.prems obtain ys zs where vw: "v = JArr ys" "w = JArr zs"
    by (auto elim!: json_arr_equalE)
  have "json_items_equal xs zs"
  proof (rule json_items_equal_trans [of xs ys zs])
    fix x y z
    assume "x \<in> set xs" "json_values_equal x y" "json_values_equal y z"
    then show "json_values_equal x z" by (rule JArr.IH)
  qed (use JArr.prems vw in simp_all)
  with JArr.prems vw show ?case by simp
next
  case (JObj es)
  from JObj.prems obtain fs gs where vw: "v = JObj fs" "w = JObj gs"
    by (auto elim!: json_obj_equalE)
  have "json_entries_equal es gs"
  proof (rule json_entries_equal_trans [of es fs gs])
    fix k x y z
    assume "(k, x) \<in> set es" and "json_values_equal x y" "json_values_equal y z"
    then show "json_values_equal x z" by (rule JObj.IH [of "(k, x)" x y z, simplified])
  qed (use JObj.prems vw in simp_all)
  with JObj.prems vw show ?case by simp
qed (blast elim!: json_equalEs)+

section \<open>Normalising a JavaScript value\<close>

text \<open>
  A runtime value: primitives, a value that is neither primitive nor object (function,
  symbol, bigint), or a reference into the heap. A heap cell is an array or an object;
  the flag of an object says whether \<open>isPlainObject\<close> holds of its prototype chain, and
  its entries are what \<open>Object.entries\<close> lists.
\<close>

datatype jsval =
    VUndefined
  | VNull
  | VBool bool
  | VNum int
  | VNonFinite
  | VStr string
  | VOpaque
  | VRef nat

datatype cell = CArr "jsval list" | CObj bool "(string \<times> jsval) list"

text \<open>
  The result of the normalisation. \<open>NDiverge\<close> is the recursion running out of the stack
  depth given as fuel.
\<close>

datatype 'a norm = NOk 'a | NInvalid | NDiverge

text \<open>
  The parameter \<open>seen\<close> holds the objects of the current path: the code adds an object
  before it visits the entries and deletes it again after, and every failure abandons the
  whole traversal. Arrays are not recorded. Assigning the key \<open>__proto__\<close> to the fresh
  object sets its prototype (or nothing), so that entry is no own key of the result.
\<close>

function norm_value :: "nat \<Rightarrow> (nat \<rightharpoonup> cell) \<Rightarrow> nat set \<Rightarrow> jsval \<Rightarrow> json norm"
  and norm_items :: "nat \<Rightarrow> (nat \<rightharpoonup> cell) \<Rightarrow> nat set \<Rightarrow> jsval list \<Rightarrow> json list norm"
  and norm_entries ::
    "nat \<Rightarrow> (nat \<rightharpoonup> cell) \<Rightarrow> nat set \<Rightarrow> (string \<times> jsval) list \<Rightarrow> (string \<times> json) list norm" where
  "norm_value 0 h seen v = NDiverge"
| "norm_value (Suc n) h seen v =
     (case v of
        VNull \<Rightarrow> NOk JNull
      | VBool b \<Rightarrow> NOk (JBool b)
      | VStr s \<Rightarrow> NOk (JStr s)
      | VNum i \<Rightarrow> NOk (JNum i)
      | VNonFinite \<Rightarrow> NInvalid
      | VUndefined \<Rightarrow> NInvalid
      | VOpaque \<Rightarrow> NInvalid
      | VRef a \<Rightarrow>
          (case h a of
             None \<Rightarrow> NInvalid
           | Some (CArr xs) \<Rightarrow>
               (case norm_items n h seen xs of
                  NOk ys \<Rightarrow> NOk (JArr ys) | NInvalid \<Rightarrow> NInvalid | NDiverge \<Rightarrow> NDiverge)
           | Some (CObj plain es) \<Rightarrow>
               if \<not> plain then NInvalid
               else if a \<in> seen then NInvalid
               else (case norm_entries n h (insert a seen) es of
                       NOk fs \<Rightarrow> NOk (JObj fs) | NInvalid \<Rightarrow> NInvalid | NDiverge \<Rightarrow> NDiverge)))"
| "norm_items n h seen [] = NOk []"
| "norm_items n h seen (x # xs) =
     (case norm_value n h seen x of
        NOk y \<Rightarrow> (case norm_items n h seen xs of
                    NOk ys \<Rightarrow> NOk (y # ys) | NInvalid \<Rightarrow> NInvalid | NDiverge \<Rightarrow> NDiverge)
      | NInvalid \<Rightarrow> NInvalid
      | NDiverge \<Rightarrow> NDiverge)"
| "norm_entries n h seen [] = NOk []"
| "norm_entries n h seen ((k, v) # es) =
     (if v = VUndefined then norm_entries n h seen es
      else (case norm_value n h seen v of
              NOk y \<Rightarrow>
                (case norm_entries n h seen es of
                   NOk fs \<Rightarrow> NOk (if k = ''__proto__'' then fs else (k, y) # fs)
                 | NInvalid \<Rightarrow> NInvalid
                 | NDiverge \<Rightarrow> NDiverge)
            | NInvalid \<Rightarrow> NInvalid
            | NDiverge \<Rightarrow> NDiverge))"
  by pat_completeness auto
termination
  by (relation "measures
       [\<lambda>x. case x of Inl (n, _) \<Rightarrow> n | Inr (Inl (n, _)) \<Rightarrow> n | Inr (Inr (n, _)) \<Rightarrow> n,
        \<lambda>x. case x of Inl _ \<Rightarrow> 0 | Inr (Inl (_, _, _, xs)) \<Rightarrow> Suc (length xs)
             | Inr (Inr (_, _, _, es)) \<Rightarrow> Suc (length es)]") auto

datatype json_error = JsonValueError | JsonObjectError | StackOverflow

definition parse_json_value ::
    "nat \<Rightarrow> (nat \<rightharpoonup> cell) \<Rightarrow> jsval \<Rightarrow> json_error + json" where
  "parse_json_value n h v =
     (case norm_value n h {} v of
        NOk j \<Rightarrow> Inr j | NInvalid \<Rightarrow> Inl JsonValueError | NDiverge \<Rightarrow> Inl StackOverflow)"

fun is_json_object_value :: "json option \<Rightarrow> bool" where
  "is_json_object_value (Some (JObj es)) = True"
| "is_json_object_value _ = False"

definition parse_json_object ::
    "nat \<Rightarrow> (nat \<rightharpoonup> cell) \<Rightarrow> jsval \<Rightarrow> json_error + json" where
  "parse_json_object n h v =
     (case parse_json_value n h v of
        Inl e \<Rightarrow> Inl e
      | Inr j \<Rightarrow> if is_json_object_value (Some j) then Inr j else Inl JsonObjectError)"

text \<open>A heap in which every object lists distinct own keys.\<close>

definition heap_wf :: "(nat \<rightharpoonup> cell) \<Rightarrow> bool" where
  "heap_wf h \<longleftrightarrow> (\<forall>a p es. h a = Some (CObj p es) \<longrightarrow> distinct (map fst es))"

lemma norm_wf:
  "heap_wf h \<Longrightarrow> norm_value n h seen v = NOk j \<Longrightarrow> json_wf j"
  "heap_wf h \<Longrightarrow> norm_items n h seen xs = NOk ys \<Longrightarrow> json_list_wf ys"
  "heap_wf h \<Longrightarrow> norm_entries n h seen es = NOk fs \<Longrightarrow> distinct (map fst es)
   \<Longrightarrow> json_entries_wf fs \<and> distinct (map fst fs) \<and> set (map fst fs) \<subseteq> set (map fst es)"
proof (induction n h seen v and n h seen xs and n h seen es arbitrary: j and ys and fs
    rule: norm_value_norm_items_norm_entries.induct)
  case (2 n h seen v)
  then show ?case
    by (auto simp: heap_wf_def split: jsval.splits option.splits cell.splits norm.splits if_splits)
next
  case (4 n h seen x xs)
  then show ?case by (auto split: norm.splits)
next
  case (6 n h seen k v es)
  show ?case
  proof (cases "v = VUndefined")
    case True
    with 6 show ?thesis by auto
  next
    case False
    with "6.prems" obtain y gs where y: "norm_value n h seen v = NOk y"
      and gs: "norm_entries n h seen es = NOk gs"
      and fs: "fs = (if k = ''__proto__'' then gs else (k, y) # gs)"
      by (auto split: norm.splits)
    have "json_wf y" by (rule "6.IH"(2) [OF False "6.prems"(1) y])
    moreover have "json_entries_wf gs \<and> distinct (map fst gs) \<and> set (map fst gs) \<subseteq> set (map fst es)"
      using "6.prems" by (intro "6.IH"(3) [OF False y _ gs]) simp_all
    ultimately show ?thesis using "6.prems"(3) fs by auto
  qed
qed auto

text \<open>
  Termination on acyclic data: where a rank strictly decreases along every reference,
  a stack deeper than the rank never runs out.
\<close>

fun refs_below :: "(nat \<Rightarrow> nat) \<Rightarrow> nat \<Rightarrow> jsval \<Rightarrow> bool" where
  "refs_below rank r (VRef a) = (rank a < r)"
| "refs_below rank r _ = True"

definition heap_ranked :: "(nat \<Rightarrow> nat) \<Rightarrow> (nat \<rightharpoonup> cell) \<Rightarrow> bool" where
  "heap_ranked rank h \<longleftrightarrow>
     (\<forall>a xs. h a = Some (CArr xs) \<longrightarrow> (\<forall>x \<in> set xs. refs_below rank (rank a) x))
     \<and> (\<forall>a p es. h a = Some (CObj p es) \<longrightarrow> (\<forall>(k, x) \<in> set es. refs_below rank (rank a) x))"

lemma norm_items_returns:
  "\<forall>x \<in> set xs. norm_value n h seen x \<noteq> NDiverge \<Longrightarrow> norm_items n h seen xs \<noteq> NDiverge"
  by (induction xs) (auto split: norm.splits)

lemma norm_entries_returns:
  "\<forall>(k, x) \<in> set es. norm_value n h seen x \<noteq> NDiverge \<Longrightarrow> norm_entries n h seen es \<noteq> NDiverge"
  by (induction es) (auto split: norm.splits if_splits)

lemma norm_value_ref:
  "norm_value (Suc n) h seen (VRef a) \<noteq> NDiverge \<longleftrightarrow>
     (case h a of
        None \<Rightarrow> True
      | Some (CArr xs) \<Rightarrow> norm_items n h seen xs \<noteq> NDiverge
      | Some (CObj p es) \<Rightarrow> p \<and> a \<notin> seen \<longrightarrow> norm_entries n h (insert a seen) es \<noteq> NDiverge)"
  by (auto split: option.splits cell.splits norm.splits)

lemma norm_value_primitive_returns: "(\<forall>a. v \<noteq> VRef a) \<Longrightarrow> norm_value (Suc n) h seen v \<noteq> NDiverge"
  by (cases v) auto

lemma norm_value_ranked_returns:
  assumes "heap_ranked rank h" and "refs_below rank n v"
  shows "norm_value (Suc n) h seen v \<noteq> NDiverge"
  using assms(2)
proof (induction n arbitrary: seen v)
  case 0
  then show ?case by (intro norm_value_primitive_returns) (cases v; simp)
next
  case (Suc n)
  have below: "refs_below rank n x" if "refs_below rank (rank a) x" and "rank a < Suc n" for a x
    using that by (cases x) auto
  show ?case
  proof (cases "\<exists>a. v = VRef a")
    case False
    then show ?thesis by (intro norm_value_primitive_returns) simp
  next
    case True
    then obtain a where v: "v = VRef a" by blast
    with Suc.prems have a: "rank a < Suc n" by simp
    have "norm_items (Suc n) h seen xs \<noteq> NDiverge" if "h a = Some (CArr xs)" for xs
      using that assms(1) below [OF _ a] Suc.IH
      by (intro norm_items_returns) (auto simp: heap_ranked_def)
    moreover have "norm_entries (Suc n) h (insert a seen) es \<noteq> NDiverge"
      if "h a = Some (CObj p es)" for p es
      using that assms(1) below [OF _ a] Suc.IH
      by (intro norm_entries_returns) (fastforce simp: heap_ranked_def)
    ultimately show ?thesis
      unfolding v norm_value_ref by (auto split: option.splits cell.splits)
  qed
qed

text \<open>
  Cyclic objects are refused by the set of visited objects: on a heap without arrays a
  stack deeper than the number of cells never runs out, whatever the cycles.
\<close>

lemma norm_value_objects_returns:
  assumes fin: "finite (dom h)" and noarr: "\<And>a xs. h a \<noteq> Some (CArr xs)"
    and "card (dom h - seen) \<le> n"
  shows "norm_value (Suc (Suc n)) h seen v \<noteq> NDiverge"
  using assms(3)
proof (induction n arbitrary: seen v)
  case 0
  then have none: "dom h - seen = {}" using fin by simp
  show ?case
  proof (cases "\<exists>a. v = VRef a")
    case False
    then show ?thesis by (intro norm_value_primitive_returns) simp
  next
    case True
    then obtain a where v: "v = VRef a" by blast
    show ?thesis
      unfolding v norm_value_ref using noarr none by (auto split: option.splits cell.splits)
  qed
next
  case (Suc n)
  show ?case
  proof (cases "\<exists>a. v = VRef a")
    case False
    then show ?thesis by (intro norm_value_primitive_returns) simp
  next
    case True
    then obtain a where v: "v = VRef a" by blast
    have "norm_entries (Suc (Suc n)) h (insert a seen) es \<noteq> NDiverge"
      if "h a = Some (CObj p es)" and "a \<notin> seen" for p es
    proof -
      have "dom h - insert a seen \<subset> dom h - seen" using that by auto
      with fin have "card (dom h - insert a seen) < card (dom h - seen)"
        by (intro psubset_card_mono) auto
      with Suc.prems have "card (dom h - insert a seen) \<le> n" by simp
      then show ?thesis using Suc.IH by (intro norm_entries_returns) auto
    qed
    then show ?thesis
      unfolding v norm_value_ref using noarr by (auto split: option.splits cell.splits)
  qed
qed

text \<open>An array that holds itself is not refused: the recursion never ends.\<close>

lemma norm_value_array_cycle: "h a = Some (CArr [VRef a]) \<Longrightarrow> norm_value n h seen (VRef a) = NDiverge"
proof (induction n)
  case (Suc n)
  then show ?case by (cases n) auto
qed simp

section \<open>Printing: JSON.stringify\<close>

text \<open>Decimal digits of an integer and the escapes of a JSON string literal.\<close>

definition digit_char :: "nat \<Rightarrow> char" where
  "digit_char d = char_of (48 + d)"

fun show_nat :: "nat \<Rightarrow> string" where
  "show_nat n = (if n < 10 then [digit_char n] else show_nat (n div 10) @ [digit_char (n mod 10)])"

declare show_nat.simps [simp del]

definition show_int :: "int \<Rightarrow> string" where
  "show_int i = (if i < 0 then CHR ''-'' # show_nat (nat (- i)) else show_nat (nat i))"

definition hex_char :: "nat \<Rightarrow> char" where
  "hex_char d = char_of (if d < 10 then 48 + d else 87 + d)"

definition escape_char :: "char \<Rightarrow> string" where
  "escape_char c =
     (let n = (of_char c :: nat) in
      if n = 34 then [CHR 0x5C, CHR 0x22]
      else if n = 92 then [CHR 0x5C, CHR 0x5C]
      else if n = 8 then [CHR 0x5C, CHR ''b'']
      else if n = 9 then [CHR 0x5C, CHR ''t'']
      else if n = 10 then [CHR 0x5C, CHR ''n'']
      else if n = 12 then [CHR 0x5C, CHR ''f'']
      else if n = 13 then [CHR 0x5C, CHR ''r'']
      else if n < 32 then [CHR 0x5C, CHR ''u'', CHR ''0'', CHR ''0'', hex_char (n div 16), hex_char (n mod 16)]
      else [c])"

definition quote_string :: "string \<Rightarrow> string" where
  "quote_string s = CHR 0x22 # concat (map escape_char s) @ [CHR 0x22]"

fun intercalate :: "string \<Rightarrow> string list \<Rightarrow> string" where
  "intercalate sep [] = []"
| "intercalate sep [x] = x"
| "intercalate sep (x # y # xs) = x @ sep @ intercalate sep (y # xs)"

fun json_stringify :: "json \<Rightarrow> string" where
  "json_stringify JNull = ''null''"
| "json_stringify (JBool b) = (if b then ''true'' else ''false'')"
| "json_stringify (JNum i) = show_int i"
| "json_stringify (JStr s) = quote_string s"
| "json_stringify (JArr xs) = ''['' @ intercalate '','' (map json_stringify xs) @ '']''"
| "json_stringify (JObj es) =
     ''{'' @ intercalate '','' (map (\<lambda>(k, v). quote_string k @ '':'' @ json_stringify v) es) @ ''}''"

section \<open>Properties\<close>

text \<open>\<open>jsonValuesEqual\<close> is an equivalence on well-formed JSON values: every value is
  equal to itself, the comparison is symmetric although the code only walks the entries of
  its left argument, and it is transitive.\<close>

lemma json_values_equal_equivalence:
  assumes "json_wf u" and "json_wf v"
  shows "json_values_equal u u
    \<and> (json_values_equal u v \<longleftrightarrow> json_values_equal v u)
    \<and> (json_values_equal u v \<longrightarrow> json_values_equal v w \<longrightarrow> json_values_equal u w)"
  using assms json_values_equal_refl json_values_equal_sym json_values_equal_trans by blast

theorem json_values_equal_equivalence_witness:
  "json_values_equal (JObj [(''a'', JNum 1), (''b'', JArr [JNull])])
                     (JObj [(''b'', JArr [JNull]), (''a'', JNum 1)])
   \<and> json_values_equal (JObj [(''b'', JArr [JNull]), (''a'', JNum 1)])
                       (JObj [(''a'', JNum 1), (''b'', JArr [JNull])])"
  using json_values_equal_equivalence
    [of "JObj [(''a'', JNum 1), (''b'', JArr [JNull])]"
        "JObj [(''b'', JArr [JNull]), (''a'', JNum 1)]" JNull]
  by simp

text \<open>
  What a JavaScript value means as JSON, apart from any traversal: the primitives but for undefined
  and the non-finite numbers, an array whose items all have a meaning, and a plain object whose
  defined properties all have one; undefined properties are omitted, and \<open>__proto__\<close> is no property
  of a fresh object. A value that refers back to itself has no meaning.
\<close>

inductive reads_as :: "(nat \<rightharpoonup> cell) \<Rightarrow> jsval \<Rightarrow> json \<Rightarrow> bool" for h :: "nat \<rightharpoonup> cell" where
  reads_null: "reads_as h VNull JNull"
| reads_bool: "reads_as h (VBool b) (JBool b)"
| reads_number: "reads_as h (VNum i) (JNum i)"
| reads_string: "reads_as h (VStr s) (JStr s)"
| reads_array: "h a = Some (CArr xs) \<Longrightarrow> list_all2 (reads_as h) xs ys \<Longrightarrow> reads_as h (VRef a) (JArr ys)"
| reads_object: "h a = Some (CObj True es)
    \<Longrightarrow> map fst fs = map fst (filter (\<lambda>(k, v). v \<noteq> VUndefined) es)
    \<Longrightarrow> list_all2 (reads_as h) (map snd (filter (\<lambda>(k, v). v \<noteq> VUndefined) es)) (map snd fs)
    \<Longrightarrow> reads_as h (VRef a) (JObj (filter (\<lambda>(k, j). k \<noteq> ''__proto__'') fs))"

inductive_cases reads_as_primitiveE:
  "reads_as h VUndefined j" "reads_as h VNull j" "reads_as h (VBool b) j" "reads_as h (VNum i) j"
  "reads_as h VNonFinite j" "reads_as h (VStr s) j" "reads_as h VOpaque j"

definition reads_entries :: "(nat \<rightharpoonup> cell) \<Rightarrow> (string \<times> jsval) list \<Rightarrow> (string \<times> json) list \<Rightarrow> bool" where
  "reads_entries h es fs \<longleftrightarrow>
     map fst fs = map fst (filter (\<lambda>(k, v). v \<noteq> VUndefined) es)
     \<and> list_all2 (reads_as h) (map snd (filter (\<lambda>(k, v). v \<noteq> VUndefined) es)) (map snd fs)"

lemma reads_entries_simps [simp]:
  "reads_entries h [] fs \<longleftrightarrow> fs = []"
  "reads_entries h ((k, VUndefined) # es) fs \<longleftrightarrow> reads_entries h es fs"
  "v \<noteq> VUndefined \<Longrightarrow> reads_entries h ((k, v) # es) fs
     \<longleftrightarrow> (\<exists>j gs. fs = (k, j) # gs \<and> reads_as h v j \<and> reads_entries h es gs)"
  by (cases fs; auto simp: reads_entries_def)+

lemma reads_refE:
  assumes "reads_as h (VRef a) j"
  obtains (array) xs ys where "j = JArr ys" "h a = Some (CArr xs)" "list_all2 (reads_as h) xs ys"
  | (plain) es fs where "j = JObj (filter (\<lambda>(k, j). k \<noteq> ''__proto__'') fs)" "h a = Some (CObj True es)"
      "reads_entries h es fs"
  using assms by (cases rule: reads_as.cases) (auto simp: reads_entries_def)

lemma reads_plain:
  "h a = Some (CObj True es) \<Longrightarrow> \<exists>gs. reads_entries h es gs \<and> fs = filter (\<lambda>(k, j). k \<noteq> ''__proto__'') gs
   \<Longrightarrow> reads_as h (VRef a) (JObj fs)"
  by (auto simp: reads_entries_def intro: reads_object)

lemma norm_sound:
  "norm_value n h seen v = NOk j \<Longrightarrow> reads_as h v j"
  "norm_items n h seen xs = NOk ys \<Longrightarrow> list_all2 (reads_as h) xs ys"
  "norm_entries n h seen es = NOk fs
   \<Longrightarrow> \<exists>gs. reads_entries h es gs \<and> fs = filter (\<lambda>(k, j). k \<noteq> ''__proto__'') gs"
proof (induction n h seen v and n h seen xs and n h seen es arbitrary: j and ys and fs
    rule: norm_value_norm_items_norm_entries.induct)
  case (2 n h seen v)
  then show ?case
    by (auto intro: reads_as.intros(1-5) reads_plain
        split: jsval.splits option.splits cell.splits norm.splits if_splits)
next
  case (4 n h seen x xs)
  then show ?case by (auto split: norm.splits)
next
  case (6 n h seen k v es)
  show ?case
  proof (cases "v = VUndefined")
    case True
    with 6 show ?thesis by auto
  next
    case False
    with "6.prems" obtain y gs where y: "norm_value n h seen v = NOk y"
      and gs: "norm_entries n h seen es = NOk gs"
      and fs: "fs = (if k = ''__proto__'' then gs else (k, y) # gs)"
      by (auto split: norm.splits)
    obtain gs' where "reads_entries h es gs'" "gs = filter (\<lambda>(k, j). k \<noteq> ''__proto__'') gs'"
      using "6.IH"(3) [OF False y gs] by blast
    with "6.IH"(2) [OF False y] fs False show ?thesis
      by (intro exI [of _ "(k, y) # gs'"]) simp
  qed
qed auto

text \<open>Below a rank no object of the current path is met again, so every meaning is found.\<close>

lemma norm_complete:
  "heap_ranked rank h \<Longrightarrow> refs_below rank r v \<Longrightarrow> \<forall>a \<in> seen. r \<le> rank a \<Longrightarrow> reads_as h v j
   \<Longrightarrow> norm_value n h seen v \<in> {NOk j, NDiverge}"
  "heap_ranked rank h \<Longrightarrow> \<forall>x \<in> set xs. refs_below rank r x \<Longrightarrow> \<forall>a \<in> seen. r \<le> rank a
   \<Longrightarrow> list_all2 (reads_as h) xs ys \<Longrightarrow> norm_items n h seen xs \<in> {NOk ys, NDiverge}"
  "heap_ranked rank h \<Longrightarrow> \<forall>(k, x) \<in> set es. refs_below rank r x \<Longrightarrow> \<forall>a \<in> seen. r \<le> rank a
   \<Longrightarrow> reads_entries h es gs
   \<Longrightarrow> norm_entries n h seen es \<in> {NOk (filter (\<lambda>(k, j). k \<noteq> ''__proto__'') gs), NDiverge}"
proof (induction n h seen v and n h seen xs and n h seen es arbitrary: r j and r ys and r gs
    rule: norm_value_norm_items_norm_entries.induct)
  case (2 n h seen v)
  show ?case
  proof (cases v)
    case (VRef a)
    have below: "rank a < r" and seen: "a \<notin> seen" using "2.prems" VRef by auto
    from "2.prems"(4) [unfolded VRef] show ?thesis
    proof (cases rule: reads_refE)
      case (array xs ys)
      have "norm_items n h seen xs \<in> {NOk ys, NDiverge}"
        using VRef array(2) "2.prems"(1,3) below array(3)
        by (intro "2.IH"(1) [of a "CArr xs" xs "rank a"]) (auto simp: heap_ranked_def)
      then show ?thesis using VRef array(1,2) by auto
    next
      case (plain es fs)
      have "norm_entries n h (insert a seen) es \<in> {NOk (filter (\<lambda>(k, j). k \<noteq> ''__proto__'') fs), NDiverge}"
        using VRef plain(2) "2.prems"(1,3) below seen plain(3)
        by (intro "2.IH"(2) [of a "CObj True es" True es "rank a"]) (auto simp: heap_ranked_def)
      then show ?thesis using VRef plain(1,2) seen by auto
    qed
  qed (use "2.prems"(4) in \<open>auto elim: reads_as_primitiveE\<close>)
next
  case (4 n h seen x xs)
  from "4.prems"(4) obtain y zs where ys: "ys = y # zs" "reads_as h x y" "list_all2 (reads_as h) xs zs"
    by (auto simp: list_all2_Cons1)
  have "norm_value n h seen x \<in> {NOk y, NDiverge}"
    using "4.prems" ys by (intro "4.IH"(1) [of r]) auto
  moreover have "norm_items n h seen xs \<in> {NOk zs, NDiverge}" if "norm_value n h seen x = NOk y"
    using "4.prems" ys that by (intro "4.IH"(2) [of y r]) auto
  ultimately show ?case using ys(1) by (auto split: norm.splits)
next
  case (6 n h seen k v es)
  show ?case
  proof (cases "v = VUndefined")
    case True
    with 6 show ?thesis by auto
  next
    case False
    with "6.prems"(4) obtain y zs where gs: "gs = (k, y) # zs" "reads_as h v y" "reads_entries h es zs"
      by auto
    have "norm_value n h seen v \<in> {NOk y, NDiverge}"
      using "6.prems" gs False by (intro "6.IH"(2) [of r]) auto
    moreover have "norm_entries n h seen es \<in> {NOk (filter (\<lambda>(k, j). k \<noteq> ''__proto__'') zs), NDiverge}"
      if "norm_value n h seen v = NOk y"
      using "6.prems" gs False that by (intro "6.IH"(3) [of y r]) auto
    ultimately show ?thesis using gs(1) False by (auto split: norm.splits)
  qed
qed auto

text \<open>C7: On acyclic data \<open>parseJsonValue\<close> computes what the value means as JSON: within a stack
  bounded by the nesting it returns the meaning of the value where it has one, and refuses exactly the
  values that have none; what it returns has distinct keys at every level. Whatever it accepts on any
  data is the meaning of that value.\<close>

theorem parse_json_value_reads:
  assumes "heap_wf h" and "heap_ranked rank h" and "refs_below rank n v"
  shows "(parse_json_value (Suc n) h v = Inr j \<longleftrightarrow> reads_as h v j)
    \<and> (parse_json_value (Suc n) h v = Inl JsonValueError \<longleftrightarrow> (\<nexists>j. reads_as h v j))
    \<and> (parse_json_value (Suc n) h v = Inr j \<longrightarrow> json_wf j)
    \<and> (parse_json_value m g w = Inr k \<longrightarrow> reads_as g w k)"
proof -
  let ?r = "norm_value (Suc n) h {} v"
  have returns: "?r \<noteq> NDiverge"
    by (rule norm_value_ranked_returns [OF assms(2,3)])
  have complete: "?r = NOk j" if "reads_as h v j" for j
    using norm_complete(1) [OF assms(2,3) _ that, of "{}" "Suc n"] returns by blast
  have sound: "reads_as h v j" if "?r = NOk j" for j
    by (rule norm_sound(1) [OF that])
  have wf: "json_wf j" if "?r = NOk j"
    by (rule norm_wf(1) [OF assms(1) that])
  have parsed: "parse_json_value (Suc n) h v = Inr i \<longleftrightarrow> ?r = NOk i" for i
    using returns by (auto simp: parse_json_value_def simp del: norm_value.simps split: norm.splits)
  have refused: "parse_json_value (Suc n) h v = Inl JsonValueError \<longleftrightarrow> (\<nexists>i. ?r = NOk i)"
    using returns by (cases ?r) (auto simp: parse_json_value_def simp del: norm_value.simps)
  have "norm_value m g {} w = NOk k" if "parse_json_value m g w = Inr k"
    using that by (auto simp: parse_json_value_def split: norm.splits)
  then have "reads_as g w k" if "parse_json_value m g w = Inr k"
    using that norm_sound(1) by blast
  then show ?thesis
    unfolding parsed refused using complete sound wf by blast
qed

theorem parse_json_value_reads_witness:
  "reads_as [0 \<mapsto> CObj True [(''a'', VRef 1), (''b'', VUndefined)], 1 \<mapsto> CArr [VNum 2]] (VRef 0)
     (JObj [(''a'', JArr [JNum 2])])"
proof -
  let ?h = "[0 \<mapsto> CObj True [(''a'', VRef 1), (''b'', VUndefined)], 1 \<mapsto> CArr [VNum 2]] :: nat \<rightharpoonup> cell"
  have "heap_wf ?h" by (auto simp: heap_wf_def)
  moreover have "heap_ranked (\<lambda>a. 1 - a) ?h" by (auto simp: heap_ranked_def)
  moreover have "refs_below (\<lambda>a. 1 - a) 2 (VRef 0)" by simp
  moreover have "parse_json_value (Suc 2) ?h (VRef 0) = Inr (JObj [(''a'', JArr [JNum 2])])"
    by (simp add: parse_json_value_def eval_nat_numeral)
  ultimately show ?thesis
    using parse_json_value_reads [of ?h "\<lambda>a. 1 - a" 2 "VRef 0" "JObj [(''a'', JArr [JNum 2])]"] by blast
qed

text \<open>Cycles through objects are refused with the JSON error within a stack bounded by
  the number of objects, but an array that contains itself is not detected: the recursion
  exhausts every stack.\<close>

lemma parse_json_value_cycles:
  "(finite (dom h) \<longrightarrow> (\<forall>a xs. h a \<noteq> Some (CArr xs))
      \<longrightarrow> parse_json_value (card (dom h) + 2) h v \<noteq> Inl StackOverflow)
   \<and> parse_json_value n [a \<mapsto> CArr [VRef a]] (VRef a) = Inl StackOverflow
   \<and> parse_json_value (Suc (Suc n)) [a \<mapsto> CObj True [(k, VRef a)]] (VRef a) = Inl JsonValueError"
proof (intro conjI impI)
  assume "finite (dom h)" and "\<forall>a xs. h a \<noteq> Some (CArr xs)"
  then have "norm_value (Suc (Suc (card (dom h)))) h {} v \<noteq> NDiverge"
    by (intro norm_value_objects_returns) auto
  then show "parse_json_value (card (dom h) + 2) h v \<noteq> Inl StackOverflow"
    by (auto simp: parse_json_value_def split: norm.splits)
qed (simp_all add: parse_json_value_def norm_value_array_cycle)

theorem parse_json_value_cycles_witness:
  "parse_json_value 3 [7 \<mapsto> CObj True [(''k'', VRef 7)]] (VRef 7) \<noteq> Inl StackOverflow"
  using parse_json_value_cycles [of "[7 \<mapsto> CObj True [(''k'', VRef 7)]]" "VRef 7" 0 7 "''k''"]
  by (simp add: eval_nat_numeral)

end
