(* ===== verification/Session_State.thy ===== *)
theory Session_State
  imports Json_Value
begin

text \<open>
  The durable session value the harness threads through its steps
  (packages/eve/src/harness/types.ts): only the part the modelled components read and
  write. The \<open>state\<close> field is a dictionary from namespaced keys to JSON values, absent
  when nothing was written; every component owns its keys and must leave the others alone.
\<close>

type_synonym session_state = "string \<rightharpoonup> json"

record harness_session =
  state :: "session_state option"

text \<open>\<open>state?.[key]\<close>.\<close>

definition state_get :: "session_state option \<Rightarrow> string \<Rightarrow> json option" where
  "state_get st key = (case st of None \<Rightarrow> None | Some m \<Rightarrow> m key)"

text \<open>The spread \<open>{ ...state, [key]: value }\<close>, where an absent state spreads to nothing.\<close>

definition state_put :: "session_state option \<Rightarrow> string \<Rightarrow> json \<Rightarrow> session_state" where
  "state_put st key v = (case st of None \<Rightarrow> [key \<mapsto> v] | Some m \<Rightarrow> m(key \<mapsto> v))"

text \<open>\<open>const state = { ...session.state }; delete state[key]\<close>.\<close>

definition state_delete :: "session_state option \<Rightarrow> string \<Rightarrow> session_state" where
  "state_delete st key = (case st of None \<Rightarrow> Map.empty | Some m \<Rightarrow> m(key := None))"

lemma state_get_None [simp]: "state_get None key = None"
  by (simp add: state_get_def)

lemma state_get_Some [simp]: "state_get (Some m) key = m key"
  by (simp add: state_get_def)

lemma state_put_apply [simp]:
  "state_put st key v k = (if k = key then Some v else state_get st k)"
  by (cases st) (auto simp: state_put_def)

lemma state_delete_apply [simp]:
  "state_delete st key k = (if k = key then None else state_get st k)"
  by (cases st) (auto simp: state_delete_def)

end
