(* ===== verification/Handle_Store.thy ===== *)
theory Handle_Store
  imports Session_State "HOL-Library.Monad_Syntax"
begin

text \<open>
  The store of delegated child agents (packages/eve/src/subagents/handles/store.ts): the
  handle types of the two ownership policies, the persistence schema each write and read
  passes through, the derived identifiers and the status line. A stored value is JSON;
  decoding is the schema, whose URL test (the schema library's own) is the parameter
  \<open>url_ok\<close>. Keys the schema does not name are dropped by the decoding.
\<close>

section \<open>Handle types\<close>

record agent_identity =
  identity_id :: string
  identity_name :: string
  identity_node_id :: string

record start_operation =
  operation_id :: string
  call_id :: string
  parent_turn_id :: string

record continue_operation = start_operation +
  previous_status :: string

datatype agent_operation = StartOp start_operation | ContinueOp continue_operation

fun op_id :: "agent_operation \<Rightarrow> string" where
  "op_id (StartOp p) = operation_id p"
| "op_id (ContinueOp p) = operation_id p"

fun op_call_id :: "agent_operation \<Rightarrow> string" where
  "op_call_id (StartOp p) = call_id p"
| "op_call_id (ContinueOp p) = call_id p"

text \<open>The optional credential resolver is an object whose one field is optional itself.\<close>

type_synonym credential_resolver = "string option option"

datatype agent_start_target =
    LocalTarget (target_token: string)
  | SelfTarget (target_token: string)
  | RemoteTarget (target_url: string) (target_callback: string) (target_resolver: credential_resolver)

datatype agent_address =
    LocalAddress (address_session: string) (address_token: string)
  | SelfAddress (address_session: string) (address_token: string)
  | RemoteAddress (address_session: string) (address_url: string) (address_callback: string)
      (address_resolver: credential_resolver)

definition is_remote_address :: "agent_address \<Rightarrow> bool" where
  "is_remote_address a = (case a of RemoteAddress _ _ _ _ \<Rightarrow> True | _ \<Rightarrow> False)"

text \<open>
  \<open>Starting\<close>, \<open>Running\<close> and \<open>Parked\<close> are owned by the parent's turn; \<open>Reserved\<close>,
  \<open>Claimed\<close> and \<open>Available\<close> by a workflow owner.
\<close>

datatype agent_handle =
    Starting (handle_identity: agent_identity) (start_op: start_operation) (start_target: agent_start_target)
  | Running (handle_identity: agent_identity) (running_op: agent_operation) (handle_address: agent_address)
  | Parked (handle_identity: agent_identity) (handle_address: agent_address) (last_status: string)
  | Reserved (handle_identity: agent_identity) (lease_op: string) (lease_call: "string option") (lease_owner: string)
  | Claimed (handle_identity: agent_identity) (lease_op: string) (lease_call: "string option")
      (handle_address: agent_address) (lease_owner: string)
  | Available (handle_identity: agent_identity) (handle_address: agent_address)

type_synonym handle_store = "agent_handle list"

abbreviation handle_id :: "agent_handle \<Rightarrow> string" where
  "handle_id h \<equiv> identity_id (handle_identity h)"

datatype expected_target = ExpectLocal | ExpectRemote

datatype store_command =
    ReadCmd
  | ReserveCmd agent_identity string "string option" string
  | ConfirmCmd agent_address string string
  | ClaimCmd string expected_target "string option" string string string
  | RemoveCmd string string
  | ReleaseOwnerCmd string

datatype command_result =
    ReadyResult "agent_handle option"
  | BusyResult agent_handle
  | MismatchResult agent_handle
  | UnknownResult

section \<open>The persistence schema\<close>

definition MAX_STATUS_LENGTH :: nat where
  "MAX_STATUS_LENGTH = 120"

text \<open>Fields of an object: required and optional non-empty strings, bounded strings, literals.\<close>

definition non_empty_string :: "(string \<times> json) list \<Rightarrow> string \<Rightarrow> string option" where
  "non_empty_string es k =
     (case map_of es k of Some (JStr s) \<Rightarrow> if s = [] then None else Some s | _ \<Rightarrow> None)"

definition optional_non_empty :: "(string \<times> json) list \<Rightarrow> string \<Rightarrow> string option option" where
  "optional_non_empty es k =
     (case map_of es k of None \<Rightarrow> Some None
      | Some (JStr s) \<Rightarrow> if s = [] then None else Some (Some s) | _ \<Rightarrow> None)"

definition bounded_status :: "(string \<times> json) list \<Rightarrow> string \<Rightarrow> string option" where
  "bounded_status es k =
     (case map_of es k of
        Some (JStr s) \<Rightarrow> if length s \<le> MAX_STATUS_LENGTH then Some s else None | _ \<Rightarrow> None)"

definition literal_field :: "(string \<times> json) list \<Rightarrow> string \<Rightarrow> string option" where
  "literal_field es k = (case map_of es k of Some (JStr s) \<Rightarrow> Some s | _ \<Rightarrow> None)"

definition url_field :: "(string \<Rightarrow> bool) \<Rightarrow> (string \<times> json) list \<Rightarrow> string \<Rightarrow> string option" where
  "url_field url_ok es k =
     (case map_of es k of Some (JStr s) \<Rightarrow> if url_ok s then Some s else None | _ \<Rightarrow> None)"

definition resolver_field :: "(string \<times> json) list \<Rightarrow> credential_resolver option" where
  "resolver_field es =
     (case map_of es ''credentialResolver'' of
        None \<Rightarrow> Some None
      | Some (JObj rs) \<Rightarrow> map_option Some (optional_non_empty rs ''resolverId'')
      | _ \<Rightarrow> None)"

fun decode_identity :: "json option \<Rightarrow> agent_identity option" where
  "decode_identity (Some (JObj es)) = do {
     i \<leftarrow> non_empty_string es ''id'';
     n \<leftarrow> non_empty_string es ''name'';
     d \<leftarrow> non_empty_string es ''nodeId'';
     Some \<lparr>identity_id = i, identity_name = n, identity_node_id = d\<rparr> }"
| "decode_identity _ = None"

fun decode_start_operation :: "json option \<Rightarrow> start_operation option" where
  "decode_start_operation (Some (JObj es)) = do {
     c \<leftarrow> non_empty_string es ''callId'';
     i \<leftarrow> non_empty_string es ''id'';
     k \<leftarrow> literal_field es ''kind'';
     t \<leftarrow> non_empty_string es ''parentTurnId'';
     if k = ''start'' then Some \<lparr>operation_id = i, call_id = c, parent_turn_id = t\<rparr> else None }"
| "decode_start_operation _ = None"

fun decode_continue_operation :: "json option \<Rightarrow> continue_operation option" where
  "decode_continue_operation (Some (JObj es)) = do {
     c \<leftarrow> non_empty_string es ''callId'';
     i \<leftarrow> non_empty_string es ''id'';
     k \<leftarrow> literal_field es ''kind'';
     t \<leftarrow> non_empty_string es ''parentTurnId'';
     p \<leftarrow> bounded_status es ''previousStatus'';
     if k = ''continue''
     then Some \<lparr>operation_id = i, call_id = c, parent_turn_id = t, previous_status = p\<rparr> else None }"
| "decode_continue_operation _ = None"

fun decode_operation :: "json option \<Rightarrow> agent_operation option" where
  "decode_operation (Some (JObj es)) = do {
     k \<leftarrow> literal_field es ''kind'';
     if k = ''start'' then map_option StartOp (decode_start_operation (Some (JObj es)))
     else if k = ''continue'' then map_option ContinueOp (decode_continue_operation (Some (JObj es)))
     else None }"
| "decode_operation _ = None"

fun decode_target :: "(string \<Rightarrow> bool) \<Rightarrow> json option \<Rightarrow> agent_start_target option" where
  "decode_target url_ok (Some (JObj es)) = do {
     k \<leftarrow> literal_field es ''kind'';
     if k = ''agent/local'' then map_option LocalTarget (non_empty_string es ''continuationToken'')
     else if k = ''agent/self'' then map_option SelfTarget (non_empty_string es ''continuationToken'')
     else if k = ''agent/remote'' then do {
       b \<leftarrow> url_field url_ok es ''callbackBaseUrl'';
       r \<leftarrow> resolver_field es;
       u \<leftarrow> url_field url_ok es ''url'';
       Some (RemoteTarget u b r) }
     else None }"
| "decode_target url_ok _ = None"

fun decode_address :: "(string \<Rightarrow> bool) \<Rightarrow> json option \<Rightarrow> agent_address option" where
  "decode_address url_ok (Some (JObj es)) = do {
     k \<leftarrow> literal_field es ''kind'';
     if k = ''agent/local'' then do {
       t \<leftarrow> non_empty_string es ''continuationToken'';
       s \<leftarrow> non_empty_string es ''sessionId'';
       Some (LocalAddress s t) }
     else if k = ''agent/self'' then do {
       t \<leftarrow> non_empty_string es ''continuationToken'';
       s \<leftarrow> non_empty_string es ''sessionId'';
       Some (SelfAddress s t) }
     else if k = ''agent/remote'' then do {
       b \<leftarrow> url_field url_ok es ''callbackBaseUrl'';
       r \<leftarrow> resolver_field es;
       s \<leftarrow> non_empty_string es ''sessionId'';
       u \<leftarrow> url_field url_ok es ''url'';
       Some (RemoteAddress s u b r) }
     else None }"
| "decode_address url_ok _ = None"

definition decode_turn_owned ::
    "(string \<Rightarrow> bool) \<Rightarrow> (string \<times> json) list \<Rightarrow> string \<Rightarrow> agent_handle option" where
  "decode_turn_owned url_ok es phase =
     (if phase = ''starting'' then do {
        i \<leftarrow> decode_identity (map_of es ''identity'');
        p \<leftarrow> decode_start_operation (map_of es ''operation'');
        t \<leftarrow> decode_target url_ok (map_of es ''target'');
        Some (Starting i p t) }
      else if phase = ''running'' then do {
        a \<leftarrow> decode_address url_ok (map_of es ''address'');
        i \<leftarrow> decode_identity (map_of es ''identity'');
        p \<leftarrow> decode_operation (map_of es ''operation'');
        Some (Running i p a) }
      else if phase = ''parked'' then do {
        a \<leftarrow> decode_address url_ok (map_of es ''address'');
        i \<leftarrow> decode_identity (map_of es ''identity'');
        s \<leftarrow> bounded_status es ''lastStatus'';
        Some (Parked i a s) }
      else None)"

definition decode_task_owned ::
    "(string \<Rightarrow> bool) \<Rightarrow> (string \<times> json) list \<Rightarrow> string \<Rightarrow> agent_handle option" where
  "decode_task_owned url_ok es phase =
     (if phase = ''reserved'' then do {
        c \<leftarrow> optional_non_empty es ''callId'';
        i \<leftarrow> decode_identity (map_of es ''identity'');
        p \<leftarrow> non_empty_string es ''operationId'';
        w \<leftarrow> non_empty_string es ''ownerId'';
        Some (Reserved i p c w) }
      else if phase = ''claimed'' then do {
        a \<leftarrow> decode_address url_ok (map_of es ''address'');
        c \<leftarrow> optional_non_empty es ''callId'';
        i \<leftarrow> decode_identity (map_of es ''identity'');
        p \<leftarrow> non_empty_string es ''operationId'';
        w \<leftarrow> non_empty_string es ''ownerId'';
        Some (Claimed i p c a w) }
      else if phase = ''available'' then do {
        a \<leftarrow> decode_address url_ok (map_of es ''address'');
        i \<leftarrow> decode_identity (map_of es ''identity'');
        Some (Available i a) }
      else None)"

text \<open>The union of the two schemas: the first alternative that accepts the value.\<close>

fun decode_handle :: "(string \<Rightarrow> bool) \<Rightarrow> json \<Rightarrow> agent_handle option" where
  "decode_handle url_ok (JObj es) = do {
     phase \<leftarrow> literal_field es ''phase'';
     (case decode_turn_owned url_ok es phase of
        Some h \<Rightarrow> Some h
      | None \<Rightarrow> decode_task_owned url_ok es phase) }"
| "decode_handle url_ok _ = None"

fun decode_store :: "(string \<Rightarrow> bool) \<Rightarrow> json \<Rightarrow> handle_store option" where
  "decode_store url_ok (JObj es) =
     (case map_of es ''handles'' of
        Some (JArr hs) \<Rightarrow> do {
          handles \<leftarrow> those (map (decode_handle url_ok) hs);
          if card (set (map handle_id handles)) = length handles then Some handles else None }
      | _ \<Rightarrow> None)"
| "decode_store url_ok _ = None"

section \<open>The JSON form of typed values\<close>

text \<open>
  How the object literals of the transitions read as JSON: absent optional fields are
  omitted keys.
\<close>

definition optional_entry :: "string \<Rightarrow> string option \<Rightarrow> (string \<times> json) list" where
  "optional_entry k v = (case v of None \<Rightarrow> [] | Some s \<Rightarrow> [(k, JStr s)])"

definition encode_identity :: "agent_identity \<Rightarrow> json" where
  "encode_identity i = JObj [(''id'', JStr (identity_id i)), (''name'', JStr (identity_name i)),
     (''nodeId'', JStr (identity_node_id i))]"

fun encode_operation :: "agent_operation \<Rightarrow> json" where
  "encode_operation (StartOp p) = JObj [(''kind'', JStr ''start''), (''id'', JStr (operation_id p)),
     (''callId'', JStr (call_id p)), (''parentTurnId'', JStr (parent_turn_id p))]"
| "encode_operation (ContinueOp p) = JObj [(''kind'', JStr ''continue''), (''id'', JStr (operation_id p)),
     (''callId'', JStr (call_id p)), (''parentTurnId'', JStr (parent_turn_id p)),
     (''previousStatus'', JStr (previous_status p))]"

definition resolver_entry :: "credential_resolver \<Rightarrow> (string \<times> json) list" where
  "resolver_entry r =
     (case r of None \<Rightarrow> [] | Some x \<Rightarrow> [(''credentialResolver'', JObj (optional_entry ''resolverId'' x))])"

fun encode_target :: "agent_start_target \<Rightarrow> json" where
  "encode_target (LocalTarget t) = JObj [(''kind'', JStr ''agent/local''), (''continuationToken'', JStr t)]"
| "encode_target (SelfTarget t) = JObj [(''kind'', JStr ''agent/self''), (''continuationToken'', JStr t)]"
| "encode_target (RemoteTarget u b r) = JObj ([(''kind'', JStr ''agent/remote''), (''url'', JStr u),
     (''callbackBaseUrl'', JStr b)] @ resolver_entry r)"

fun encode_address :: "agent_address \<Rightarrow> json" where
  "encode_address (LocalAddress s t) = JObj [(''kind'', JStr ''agent/local''), (''sessionId'', JStr s),
     (''continuationToken'', JStr t)]"
| "encode_address (SelfAddress s t) = JObj [(''kind'', JStr ''agent/self''), (''sessionId'', JStr s),
     (''continuationToken'', JStr t)]"
| "encode_address (RemoteAddress s u b r) = JObj ([(''kind'', JStr ''agent/remote''), (''sessionId'', JStr s),
     (''url'', JStr u), (''callbackBaseUrl'', JStr b)] @ resolver_entry r)"

fun encode_handle :: "agent_handle \<Rightarrow> json" where
  "encode_handle (Starting i p t) = JObj [(''phase'', JStr ''starting''), (''identity'', encode_identity i),
     (''operation'', encode_operation (StartOp p)), (''target'', encode_target t)]"
| "encode_handle (Running i p a) = JObj [(''phase'', JStr ''running''), (''identity'', encode_identity i),
     (''operation'', encode_operation p), (''address'', encode_address a)]"
| "encode_handle (Parked i a s) = JObj [(''phase'', JStr ''parked''), (''identity'', encode_identity i),
     (''address'', encode_address a), (''lastStatus'', JStr s)]"
| "encode_handle (Reserved i p c w) = JObj ([(''phase'', JStr ''reserved''), (''identity'', encode_identity i),
     (''operationId'', JStr p), (''ownerId'', JStr w)] @ optional_entry ''callId'' c)"
| "encode_handle (Claimed i p c a w) = JObj ([(''phase'', JStr ''claimed''), (''identity'', encode_identity i),
     (''operationId'', JStr p), (''address'', encode_address a), (''ownerId'', JStr w)]
     @ optional_entry ''callId'' c)"
| "encode_handle (Available i a) = JObj [(''phase'', JStr ''available''), (''identity'', encode_identity i),
     (''address'', encode_address a)]"

definition encode_store :: "handle_store \<Rightarrow> json" where
  "encode_store hs = JObj [(''handles'', JArr (map encode_handle hs))]"

text \<open>What the schema asks of a typed store.\<close>

definition identity_ok :: "agent_identity \<Rightarrow> bool" where
  "identity_ok i \<longleftrightarrow> identity_id i \<noteq> [] \<and> identity_name i \<noteq> [] \<and> identity_node_id i \<noteq> []"

definition start_operation_ok :: "start_operation \<Rightarrow> bool" where
  "start_operation_ok p \<longleftrightarrow> operation_id p \<noteq> [] \<and> call_id p \<noteq> [] \<and> parent_turn_id p \<noteq> []"

fun operation_ok :: "agent_operation \<Rightarrow> bool" where
  "operation_ok (StartOp p) = start_operation_ok p"
| "operation_ok (ContinueOp p) =
     (operation_id p \<noteq> [] \<and> call_id p \<noteq> [] \<and> parent_turn_id p \<noteq> []
      \<and> length (previous_status p) \<le> MAX_STATUS_LENGTH)"

definition resolver_ok :: "credential_resolver \<Rightarrow> bool" where
  "resolver_ok r \<longleftrightarrow> r \<noteq> Some (Some [])"

fun target_ok :: "(string \<Rightarrow> bool) \<Rightarrow> agent_start_target \<Rightarrow> bool" where
  "target_ok url_ok (LocalTarget t) = (t \<noteq> [])"
| "target_ok url_ok (SelfTarget t) = (t \<noteq> [])"
| "target_ok url_ok (RemoteTarget u b r) = (url_ok u \<and> url_ok b \<and> resolver_ok r)"

fun address_ok :: "(string \<Rightarrow> bool) \<Rightarrow> agent_address \<Rightarrow> bool" where
  "address_ok url_ok (LocalAddress s t) = (s \<noteq> [] \<and> t \<noteq> [])"
| "address_ok url_ok (SelfAddress s t) = (s \<noteq> [] \<and> t \<noteq> [])"
| "address_ok url_ok (RemoteAddress s u b r) = (s \<noteq> [] \<and> url_ok u \<and> url_ok b \<and> resolver_ok r)"

fun handle_ok :: "(string \<Rightarrow> bool) \<Rightarrow> agent_handle \<Rightarrow> bool" where
  "handle_ok url_ok (Starting i p t) = (identity_ok i \<and> start_operation_ok p \<and> target_ok url_ok t)"
| "handle_ok url_ok (Running i p a) = (identity_ok i \<and> operation_ok p \<and> address_ok url_ok a)"
| "handle_ok url_ok (Parked i a s) =
     (identity_ok i \<and> address_ok url_ok a \<and> length s \<le> MAX_STATUS_LENGTH)"
| "handle_ok url_ok (Reserved i p c w) = (identity_ok i \<and> p \<noteq> [] \<and> c \<noteq> Some [] \<and> w \<noteq> [])"
| "handle_ok url_ok (Claimed i p c a w) =
     (identity_ok i \<and> p \<noteq> [] \<and> c \<noteq> Some [] \<and> address_ok url_ok a \<and> w \<noteq> [])"
| "handle_ok url_ok (Available i a) = (identity_ok i \<and> address_ok url_ok a)"

definition store_ok :: "(string \<Rightarrow> bool) \<Rightarrow> handle_store \<Rightarrow> bool" where
  "store_ok url_ok hs \<longleftrightarrow> (\<forall>h \<in> set hs. handle_ok url_ok h) \<and> distinct (map handle_id hs)"

section \<open>Decoding inverts encoding\<close>

lemmas field_defs =
  non_empty_string_def optional_non_empty_def bounded_status_def literal_field_def
  url_field_def resolver_field_def optional_entry_def resolver_entry_def

lemma decode_encode_identity:
  "decode_identity (Some (encode_identity i)) = (if identity_ok i then Some i else None)"
  by (simp add: encode_identity_def identity_ok_def field_defs)

lemma decode_encode_start_operation:
  "decode_start_operation (Some (encode_operation (StartOp p))) =
     (if start_operation_ok p then Some p else None)"
  by (simp add: start_operation_ok_def field_defs)

lemma decode_encode_operation:
  "decode_operation (Some (encode_operation p)) = (if operation_ok p then Some p else None)"
  by (cases p) (simp_all add: start_operation_ok_def field_defs)

lemma decode_encode_target:
  "decode_target url_ok (Some (encode_target t)) = (if target_ok url_ok t then Some t else None)"
  by (cases t) (auto simp: resolver_ok_def field_defs split: option.splits)

lemma decode_encode_address:
  "decode_address url_ok (Some (encode_address a)) = (if address_ok url_ok a then Some a else None)"
  by (cases a) (auto simp: resolver_ok_def field_defs split: option.splits)

lemmas decode_encode_parts =
  decode_encode_identity decode_encode_start_operation decode_encode_operation
  decode_encode_target decode_encode_address

lemma decode_encode_handle:
  "decode_handle url_ok (encode_handle h) = (if handle_ok url_ok h then Some h else None)"
  by (cases h)
    (auto simp: decode_turn_owned_def decode_task_owned_def decode_encode_parts field_defs
       simp del: encode_operation.simps decode_start_operation.simps decode_identity.simps
         decode_operation.simps decode_target.simps decode_address.simps
       split: option.splits)

lemma those_eq_Some_iff: "those xs = Some ys \<longleftrightarrow> xs = map Some ys"
  by (induction xs arbitrary: ys) (auto split: option.splits simp: Cons_eq_map_conv)

lemma those_map_partial:
  "those (map (\<lambda>x. if P x then Some x else None) xs) = (if \<forall>x \<in> set xs. P x then Some xs else None)"
  by (induction xs) auto

lemma decode_store_distinct: "decode_store url_ok j = Some hs \<Longrightarrow> distinct (map handle_id hs)"
  by (cases "(url_ok, j)" rule: decode_store.cases)
    (auto split: option.splits json.splits bind_splits if_splits
      intro!: card_distinct [of "map handle_id hs"] simp: bind_eq_Some_conv)

lemma card_length_distinct: "card (set xs) = length xs \<longleftrightarrow> distinct xs"
  by (metis card_distinct distinct_card)

lemma decode_encode_store:
  "decode_store url_ok (encode_store hs) = (if store_ok url_ok hs then Some hs else None)"
proof -
  have "those (map (decode_handle url_ok) (map encode_handle hs))
      = (if \<forall>h \<in> set hs. handle_ok url_ok h then Some hs else None)"
    by (simp add: decode_encode_handle comp_def those_map_partial)
  then show ?thesis
    by (auto simp: encode_store_def store_ok_def card_length_distinct [of "map handle_id hs", simplified])
qed

text \<open>Conversely, what decodes satisfies the schema.\<close>

lemma decode_identity_ok: "decode_identity j = Some i \<Longrightarrow> identity_ok i"
  by (cases j rule: decode_identity.cases)
    (auto simp: identity_ok_def non_empty_string_def bind_eq_Some_conv
      split: option.splits json.splits if_splits)

lemma decode_start_operation_ok: "decode_start_operation j = Some p \<Longrightarrow> start_operation_ok p"
  by (cases j rule: decode_start_operation.cases)
    (auto simp: start_operation_ok_def non_empty_string_def bind_eq_Some_conv
      split: option.splits json.splits if_splits)

lemma decode_continue_operation_ok:
  "decode_continue_operation j = Some p \<Longrightarrow> operation_ok (ContinueOp p)"
  by (cases j rule: decode_continue_operation.cases)
    (auto simp: non_empty_string_def bounded_status_def bind_eq_Some_conv
      split: option.splits json.splits if_splits)

lemma decode_operation_ok: "decode_operation j = Some p \<Longrightarrow> operation_ok p"
  by (cases j rule: decode_operation.cases)
    (auto simp: bind_eq_Some_conv dest: decode_start_operation_ok decode_continue_operation_ok
      simp del: decode_start_operation.simps decode_continue_operation.simps operation_ok.simps(2)
      split: if_splits)

lemma optional_non_empty_ok: "optional_non_empty es k = Some v \<Longrightarrow> v \<noteq> Some []"
  by (auto simp: optional_non_empty_def split: option.splits json.splits if_splits)

lemma resolver_field_ok: "resolver_field es = Some r \<Longrightarrow> resolver_ok r"
  by (auto simp: resolver_field_def resolver_ok_def dest: optional_non_empty_ok
      split: option.splits json.splits)

lemma decode_target_ok: "decode_target url_ok j = Some t \<Longrightarrow> target_ok url_ok t"
  by (cases "(url_ok, j)" rule: decode_target.cases)
    (auto simp: bind_eq_Some_conv non_empty_string_def url_field_def dest: resolver_field_ok
      split: option.splits json.splits if_splits)

lemma decode_address_ok: "decode_address url_ok j = Some a \<Longrightarrow> address_ok url_ok a"
  by (cases "(url_ok, j)" rule: decode_address.cases)
    (auto simp: bind_eq_Some_conv non_empty_string_def url_field_def dest: resolver_field_ok
      split: option.splits json.splits if_splits)

lemmas decode_parts_ok =
  decode_identity_ok decode_start_operation_ok decode_operation_ok decode_target_ok
  decode_address_ok optional_non_empty_ok

lemma decode_turn_owned_ok: "decode_turn_owned url_ok es phase = Some h \<Longrightarrow> handle_ok url_ok h"
  unfolding decode_turn_owned_def
  by (auto simp: bind_eq_Some_conv bounded_status_def split: if_splits option.splits json.splits)
    (blast intro: decode_parts_ok dest: optional_non_empty_ok)+

lemma decode_task_owned_ok: "decode_task_owned url_ok es phase = Some h \<Longrightarrow> handle_ok url_ok h"
  unfolding decode_task_owned_def
  by (auto simp: bind_eq_Some_conv non_empty_string_def
      split: if_splits option.splits json.splits)
    (blast intro: decode_parts_ok dest: optional_non_empty_ok)+

lemma decode_handle_ok: "decode_handle url_ok j = Some h \<Longrightarrow> handle_ok url_ok h"
  by (cases "(url_ok, j)" rule: decode_handle.cases)
    (auto simp: bind_eq_Some_conv dest: decode_turn_owned_ok decode_task_owned_ok split: option.splits)

lemma decode_store_ok: "decode_store url_ok j = Some hs \<Longrightarrow> store_ok url_ok hs"
proof -
  assume d: "decode_store url_ok j = Some hs"
  then obtain es raw where "j = JObj es" and "those (map (decode_handle url_ok) raw) = Some hs"
    by (cases "(url_ok, j)" rule: decode_store.cases)
      (auto simp: bind_eq_Some_conv split: option.splits json.splits if_splits)
  then have "\<forall>h \<in> set hs. handle_ok url_ok h"
    by (auto simp: those_eq_Some_iff map_eq_conv dest!: arg_cong [where f = set] intro: decode_handle_ok)
      (metis decode_handle_ok imageE image_eqI)
  with decode_store_distinct [OF d] show ?thesis by (simp add: store_ok_def)
qed

section \<open>Reading and writing the store\<close>

definition AGENT_HANDLES_STATE_KEY :: string where
  "AGENT_HANDLES_STATE_KEY = ''eve.agent.handles''"

datatype handle_error =
    RefuseToPersist
  | CorruptStore
  | HandleExists string
  | NoPreparedHandle string

definition assert_persistable_agent_handle_store ::
    "(string \<Rightarrow> bool) \<Rightarrow> handle_store \<Rightarrow> handle_error + handle_store" where
  "assert_persistable_agent_handle_store url_ok hs =
     (case decode_store url_ok (encode_store hs) of
        None \<Rightarrow> Inl RefuseToPersist | Some parsed \<Rightarrow> Inr parsed)"

definition get_agent_handle_store ::
    "(string \<Rightarrow> bool) \<Rightarrow> session_state option \<Rightarrow> handle_error + handle_store option" where
  "get_agent_handle_store url_ok st =
     (case state_get st AGENT_HANDLES_STATE_KEY of
        None \<Rightarrow> Inr None
      | Some raw \<Rightarrow>
          (case decode_store url_ok raw of
             None \<Rightarrow> Inl CorruptStore | Some parsed \<Rightarrow> Inr (Some parsed)))"

definition set_agent_handle_store ::
    "(string \<Rightarrow> bool) \<Rightarrow> session_state option \<Rightarrow> handle_store \<Rightarrow> handle_error + session_state" where
  "set_agent_handle_store url_ok st hs =
     (case assert_persistable_agent_handle_store url_ok hs of
        Inl e \<Rightarrow> Inl e
      | Inr parsed \<Rightarrow> Inr (state_put st AGENT_HANDLES_STATE_KEY (encode_store parsed)))"

definition write_handles ::
    "(string \<Rightarrow> bool) \<Rightarrow> 'a harness_session_scheme \<Rightarrow> handle_store
     \<Rightarrow> handle_error + 'a harness_session_scheme" where
  "write_handles url_ok session hs =
     (case set_agent_handle_store url_ok (state session) hs of
        Inl e \<Rightarrow> Inl e | Inr st \<Rightarrow> Inr (session\<lparr>state := Some st\<rparr>))"

lemma assert_persistable_eq:
  "assert_persistable_agent_handle_store url_ok hs = (if store_ok url_ok hs then Inr hs else Inl RefuseToPersist)"
  by (simp add: assert_persistable_agent_handle_store_def decode_encode_store)

lemma write_handles_eq:
  "write_handles url_ok session hs =
     (if store_ok url_ok hs
      then Inr (session\<lparr>state := Some (state_put (state session) AGENT_HANDLES_STATE_KEY (encode_store hs))\<rparr>)
      else Inl RefuseToPersist)"
  by (simp add: write_handles_def set_agent_handle_store_def assert_persistable_eq)

lemma get_written_handles:
  "write_handles url_ok session hs = Inr session'
   \<Longrightarrow> get_agent_handle_store url_ok (state session') = Inr (Some hs)"
  by (auto simp: write_handles_eq get_agent_handle_store_def decode_encode_store split: if_splits)

text \<open>C22: Persisting the handle store loses nothing: a store that meets the schema is read back exactly as
  it was written and no other entry of the session state changes, and a store that does not is refused.
  What is read always meets the schema, so it can be written again.\<close>

theorem handle_store_round_trip:
  "(case write_handles url_ok session hs of
      Inl e \<Rightarrow> e = RefuseToPersist \<and> \<not> store_ok url_ok hs
    | Inr session' \<Rightarrow> store_ok url_ok hs \<and> get_agent_handle_store url_ok (state session') = Inr (Some hs)
        \<and> (\<forall>key. key \<noteq> AGENT_HANDLES_STATE_KEY \<longrightarrow> state_get (state session') key = state_get (state session) key))
   \<and> (\<forall>hs'. get_agent_handle_store url_ok (state session) = Inr (Some hs') \<longrightarrow> store_ok url_ok hs')"
proof
  show "case write_handles url_ok session hs of
      Inl e \<Rightarrow> e = RefuseToPersist \<and> \<not> store_ok url_ok hs
    | Inr session' \<Rightarrow> store_ok url_ok hs \<and> get_agent_handle_store url_ok (state session') = Inr (Some hs)
        \<and> (\<forall>key. key \<noteq> AGENT_HANDLES_STATE_KEY \<longrightarrow> state_get (state session') key = state_get (state session) key)"
  proof (cases "write_handles url_ok session hs")
    case (Inr s')
    with get_written_handles [OF Inr] show ?thesis by (auto simp: write_handles_eq split: if_splits)
  qed (auto simp: write_handles_eq split: if_splits)
  show "\<forall>hs'. get_agent_handle_store url_ok (state session) = Inr (Some hs') \<longrightarrow> store_ok url_ok hs'"
    by (auto simp: get_agent_handle_store_def dest: decode_store_ok split: option.splits)
qed

definition stored_handle :: agent_handle where
  "stored_handle = Parked \<lparr>identity_id = ''ag_1'', identity_name = ''research'', identity_node_id = ''node''\<rparr>
     (LocalAddress ''s'' ''t'') ''done''"

theorem handle_store_round_trip_witness:
  "\<exists>s'. write_handles (\<lambda>_. True) \<lparr>state = None\<rparr> [stored_handle] = Inr s'
     \<and> get_agent_handle_store (\<lambda>_. True) (state s') = Inr (Some [stored_handle])"
proof -
  have ok: "store_ok (\<lambda>_. True) [stored_handle]" by code_simp
  then have "\<exists>s'. write_handles (\<lambda>_. True) \<lparr>state = None\<rparr> [stored_handle] = Inr s'"
    by (simp add: write_handles_eq)
  then obtain s' where "write_handles (\<lambda>_. True) \<lparr>state = None\<rparr> [stored_handle] = Inr s'" by blast
  with handle_store_round_trip [where url_ok = "\<lambda>_. True" and session = "\<lparr>state = None\<rparr>"
      and hs = "[stored_handle]"] show ?thesis by simp
qed

section \<open>Identifiers and the status line\<close>

definition derive_agent_id :: "string \<Rightarrow> string \<Rightarrow> string" where
  "derive_agent_id name start_operation_id = ''ag_'' @ name @ '':'' @ take 12 start_operation_id"

text \<open>The preimage of the operation id; \<open>sha256_hex\<close> stands for the platform's hash.\<close>

definition operation_preimage :: "string \<Rightarrow> string \<Rightarrow> string \<Rightarrow> string" where
  "operation_preimage parent_session parent_turn call =
     parent_session @ [CHR 0x00] @ parent_turn @ [CHR 0x00] @ call"

definition derive_agent_operation_id :: "(string \<Rightarrow> string) \<Rightarrow> string \<Rightarrow> string \<Rightarrow> string \<Rightarrow> string" where
  "derive_agent_operation_id sha256_hex call parent_session parent_turn =
     sha256_hex (operation_preimage parent_session parent_turn call)"

text \<open>The characters of the regular expression class \<open>\s\<close> among 8 bit code units.\<close>

definition is_space :: "char \<Rightarrow> bool" where
  "is_space c = (let n = (of_char c :: nat) in (9 \<le> n \<and> n \<le> 13) \<or> n = 32 \<or> n = 160)"

text \<open>\<open>replaceAll(/\s+/g, " ")\<close>: each maximal run of white space becomes one space.\<close>

function collapse_spaces :: "string \<Rightarrow> string" where
  "collapse_spaces [] = []"
| "collapse_spaces (c # cs) =
     (if is_space c then CHR '' '' # collapse_spaces (dropWhile is_space cs)
      else c # collapse_spaces cs)"
  by pat_completeness auto
termination
  by (relation "measure length") (auto simp: le_imp_less_Suc length_dropWhile_le)

definition trim :: "string \<Rightarrow> string" where
  "trim s = rev (dropWhile is_space (rev (dropWhile is_space s)))"

definition format_agent_status :: "json option \<Rightarrow> string" where
  "format_agent_status output =
     (let text = (case output of None \<Rightarrow> [] | Some (JStr s) \<Rightarrow> s | Some j \<Rightarrow> json_stringify j)
      in take MAX_STATUS_LENGTH (trim (collapse_spaces text)))"

lemma format_agent_status_bound: "length (format_agent_status out) \<le> MAX_STATUS_LENGTH"
  by (simp add: format_agent_status_def Let_def)

lemma set_trim: "set (trim s) \<subseteq> set s"
  by (auto simp: trim_def dest!: set_dropWhileD)

lemma collapse_spaces_space: "c \<in> set (collapse_spaces s) \<Longrightarrow> is_space c \<Longrightarrow> c = CHR '' ''"
  by (induction s rule: collapse_spaces.induct) (auto split: if_splits)

lemma format_agent_status_one_line:
  "c \<in> set (format_agent_status out) \<Longrightarrow> is_space c \<Longrightarrow> c = CHR '' ''"
  unfolding format_agent_status_def Let_def
  using collapse_spaces_space set_trim in_set_takeD by (metis subsetD)

end
