(* ===== verification/Handle_Transitions.thy ===== *)
theory Handle_Transitions
  imports Handle_Store
begin

text \<open>
  The transitions of the agent handle store
  (packages/eve/src/subagents/handles/transitions.ts): starting, confirming, rejecting,
  settling and abandoning turn-owned children, and the owner lease commands. The arrays
  the code compares by object identity are freshly decoded, so a found handle is its
  position: replacing it is an update at its index, filtering it out a removal there.
\<close>

section \<open>Turn-owned transitions\<close>

definition read_handles ::
    "(string \<Rightarrow> bool) \<Rightarrow> 'a harness_session_scheme \<Rightarrow> handle_error + handle_store" where
  "read_handles url_ok session =
     (case get_agent_handle_store url_ok (state session) of
        Inl e \<Rightarrow> Inl e
      | Inr None \<Rightarrow> Inr []
      | Inr (Some hs) \<Rightarrow> Inr hs)"

definition prepare_agent_start ::
    "(string \<Rightarrow> bool) \<Rightarrow> 'a harness_session_scheme \<Rightarrow> agent_identity \<Rightarrow> start_operation
     \<Rightarrow> agent_start_target \<Rightarrow> handle_error + 'a harness_session_scheme" where
  "prepare_agent_start url_ok session ident operation target =
     (case read_handles url_ok session of
        Inl e \<Rightarrow> Inl e
      | Inr handles \<Rightarrow>
          if \<exists>h \<in> set handles. handle_id h = identity_id ident
          then Inl (HandleExists (identity_id ident))
          else write_handles url_ok session (handles @ [Starting ident operation target]))"

fun is_active_with :: "string \<Rightarrow> agent_handle \<Rightarrow> bool" where
  "is_active_with opid (Starting i p t) = (operation_id p = opid)"
| "is_active_with opid (Running i p a) = (op_id p = opid)"
| "is_active_with opid _ = False"

definition find_active_handle :: "handle_store \<Rightarrow> string \<Rightarrow> nat option" where
  "find_active_handle handles opid = find_index (is_active_with opid) handles"

definition confirm_agent_started ::
    "(string \<Rightarrow> bool) \<Rightarrow> 'a harness_session_scheme \<Rightarrow> string \<Rightarrow> agent_address
     \<Rightarrow> handle_error + 'a harness_session_scheme" where
  "confirm_agent_started url_ok session opid address =
     (case read_handles url_ok session of
        Inl e \<Rightarrow> Inl e
      | Inr handles \<Rightarrow>
          (case find_active_handle handles opid of
             None \<Rightarrow> Inl (NoPreparedHandle opid)
           | Some i \<Rightarrow>
               (case handles ! i of
                  Starting ident p t \<Rightarrow>
                    write_handles url_ok session (handles[i := Running ident (StartOp p) address])
                | _ \<Rightarrow> Inr session)))"

datatype disposition = Dead | Retryable

definition reject_agent_effect ::
    "(string \<Rightarrow> bool) \<Rightarrow> 'a harness_session_scheme \<Rightarrow> string \<Rightarrow> disposition
     \<Rightarrow> handle_error + 'a harness_session_scheme" where
  "reject_agent_effect url_ok session opid disp =
     (case read_handles url_ok session of
        Inl e \<Rightarrow> Inl e
      | Inr handles \<Rightarrow>
          (case find_active_handle handles opid of
             None \<Rightarrow> Inr session
           | Some i \<Rightarrow>
               (case (disp, handles ! i) of
                  (Retryable, Running ident (ContinueOp p) address) \<Rightarrow>
                    write_handles url_ok session (handles[i := Parked ident address (previous_status p)])
                | _ \<Rightarrow> write_handles url_ok session (remove_nth i handles))))"

fun is_running :: "agent_handle \<Rightarrow> bool" where
  "is_running (Running i p a) = True"
| "is_running _ = False"

fun park_running :: "agent_handle \<Rightarrow> agent_handle" where
  "park_running (Running i p a) = Parked i a ''(cancelled)''"
| "park_running h = h"

definition abandon_running_agent_turns ::
    "(string \<Rightarrow> bool) \<Rightarrow> 'a harness_session_scheme \<Rightarrow> handle_error + 'a harness_session_scheme" where
  "abandon_running_agent_turns url_ok session =
     (case read_handles url_ok session of
        Inl e \<Rightarrow> Inl e
      | Inr handles \<Rightarrow>
          if \<not> (\<exists>h \<in> set handles. is_running h) then Inr session
          else write_handles url_ok session (map park_running handles))"

text \<open>What a delegated child turn produced, and whether the child survived it.\<close>

datatype agent_turn_result = Succeeded json | FailedResult json | CancelledResult

datatype agent_turn_outcome = ParkedOutcome agent_turn_result | TerminalOutcome agent_turn_result

datatype 's settle_result = Settled 's | IgnoredUnknownOperation

fun is_running_with :: "string \<Rightarrow> agent_handle \<Rightarrow> bool" where
  "is_running_with opid (Running i p a) = (op_id p = opid)"
| "is_running_with opid _ = False"

fun settled_status :: "agent_turn_result \<Rightarrow> string" where
  "settled_status (Succeeded out) = format_agent_status (Some out)"
| "settled_status (FailedResult err) = format_agent_status (Some err)"
| "settled_status CancelledResult = ''(cancelled)''"

definition settle_agent_turn ::
    "(string \<Rightarrow> bool) \<Rightarrow> 'a harness_session_scheme \<Rightarrow> string \<Rightarrow> agent_turn_outcome
     \<Rightarrow> handle_error + 'a harness_session_scheme settle_result" where
  "settle_agent_turn url_ok session opid outcome =
     (case read_handles url_ok session of
        Inl e \<Rightarrow> Inl e
      | Inr handles \<Rightarrow>
          (case find_index (is_running_with opid) handles of
             None \<Rightarrow> Inr IgnoredUnknownOperation
           | Some i \<Rightarrow>
               (case outcome of
                  TerminalOutcome _ \<Rightarrow>
                    map_sum id Settled (write_handles url_ok session (remove_nth i handles))
                | ParkedOutcome result \<Rightarrow>
                    map_sum id Settled
                      (write_handles url_ok session
                        (handles[i := Parked (handle_identity (handles ! i))
                                        (handle_address (handles ! i)) (settled_status result)])))))"

section \<open>Owner lease commands\<close>

definition replace_handle ::
    "handle_store \<Rightarrow> nat \<Rightarrow> agent_handle \<Rightarrow> command_result \<times> handle_store" where
  "replace_handle store i h = (ReadyResult (Some h), store[i := h])"

fun leased_as :: "string \<Rightarrow> string \<Rightarrow> agent_handle \<Rightarrow> bool" where
  "leased_as opid owner (Reserved i p c w) = (p = opid \<and> w = owner)"
| "leased_as opid owner (Claimed i p c a w) = (p = opid \<and> w = owner)"
| "leased_as opid owner _ = False"

fun claimed_by_other :: "string \<Rightarrow> agent_handle \<Rightarrow> bool" where
  "claimed_by_other owner (Claimed i p c a w) = (w \<noteq> owner)"
| "claimed_by_other owner _ = False"

text \<open>The guard of the claim: wrong phase, wrong agent name, or wrong kind of address.\<close>

fun claim_mismatch :: "string \<Rightarrow> expected_target \<Rightarrow> agent_handle \<Rightarrow> bool" where
  "claim_mismatch invoked target (Starting i p t) = True"
| "claim_mismatch invoked target (Running i p a) = True"
| "claim_mismatch invoked target (Reserved i p c w) = (identity_name i \<noteq> invoked)"
| "claim_mismatch invoked target h =
     (identity_name (handle_identity h) \<noteq> invoked
      \<or> is_remote_address (handle_address h) \<noteq> (target = ExpectRemote))"

fun release_handle :: "string \<Rightarrow> agent_handle \<Rightarrow> agent_handle list" where
  "release_handle owner (Reserved i p c w) = (if w = owner then [] else [Reserved i p c w])"
| "release_handle owner (Claimed i p c a w) =
     (if w = owner then [Available i a] else [Claimed i p c a w])"
| "release_handle owner h = [h]"

definition has_id :: "string \<Rightarrow> agent_handle \<Rightarrow> bool" where
  "has_id k h \<longleftrightarrow> handle_id h = k"

fun apply_agent_handle_store_command ::
    "handle_store \<Rightarrow> store_command \<Rightarrow> command_result \<times> handle_store" where
  "apply_agent_handle_store_command store ReadCmd = (ReadyResult None, store)"
| "apply_agent_handle_store_command store (ReserveCmd ident opid call owner) =
     (case find_index (has_id (identity_id ident)) store of
        Some i \<Rightarrow>
          if leased_as opid owner (store ! i) then (ReadyResult (Some (store ! i)), store)
          else (BusyResult (store ! i), store)
      | None \<Rightarrow>
          (let h = Reserved ident opid call owner in (ReadyResult (Some h), store @ [h])))"
| "apply_agent_handle_store_command store (ConfirmCmd address opid owner) =
     (case find_index (leased_as opid owner) store of
        None \<Rightarrow> (UnknownResult, store)
      | Some i \<Rightarrow>
          (case store ! i of
             Reserved ident p call w \<Rightarrow> replace_handle store i (Claimed ident p call address w)
           | h \<Rightarrow> (ReadyResult (Some h), store)))"
| "apply_agent_handle_store_command store (ClaimCmd agent target call invoked opid owner) =
     (case find_index (has_id agent) store of
        None \<Rightarrow> (UnknownResult, store)
      | Some i \<Rightarrow>
          if claim_mismatch invoked target (store ! i) then (MismatchResult (store ! i), store)
          else
            (case store ! i of
               Claimed ident p c a w \<Rightarrow>
                 if p = opid \<and> w = owner then (ReadyResult (Some (store ! i)), store)
                 else (BusyResult (store ! i), store)
             | Reserved ident p c w \<Rightarrow> (BusyResult (store ! i), store)
             | h \<Rightarrow>
                 replace_handle store i
                   (Claimed (handle_identity h) opid call (handle_address h) owner)))"
| "apply_agent_handle_store_command store (RemoveCmd agent owner) =
     (case find_index (has_id agent) store of
        None \<Rightarrow> (ReadyResult None, store)
      | Some i \<Rightarrow>
          if claimed_by_other owner (store ! i) then (BusyResult (store ! i), store)
          else (ReadyResult None, remove_nth i store))"
| "apply_agent_handle_store_command store (ReleaseOwnerCmd owner) =
     (ReadyResult None, concat (map (release_handle owner) store))"

text \<open>
  The release branch and the two callers below keep the old object when nothing changed;
  a changed handle never equals the one it replaces, so the test reads as equality.
\<close>

definition handles_equal :: "handle_store \<Rightarrow> handle_store \<Rightarrow> bool" where
  "handles_equal left right \<longleftrightarrow>
     length left = length right \<and> (\<forall>(h, h') \<in> set (zip left right). h = h')"

fun abandon_owned :: "string set \<Rightarrow> agent_handle \<Rightarrow> agent_handle list" where
  "abandon_owned owners (Reserved i p c w) = (if w \<in> owners then [] else [Reserved i p c w])"
| "abandon_owned owners (Claimed i p c a w) =
     (if w \<in> owners then [Parked i a ''(cancelled)''] else [Claimed i p c a w])"
| "abandon_owned owners h = [h]"

definition abandon_agent_invocation_owners ::
    "(string \<Rightarrow> bool) \<Rightarrow> 'a harness_session_scheme \<Rightarrow> string set
     \<Rightarrow> handle_error + 'a harness_session_scheme" where
  "abandon_agent_invocation_owners url_ok session owners =
     (case read_handles url_ok session of
        Inl e \<Rightarrow> Inl e
      | Inr handles \<Rightarrow>
          (let abandoned = concat (map (abandon_owned owners) handles)
           in if handles_equal handles abandoned then Inr session
              else write_handles url_ok session abandoned))"

definition apply_task_agent_handle_command ::
    "(string \<Rightarrow> bool) \<Rightarrow> 'a harness_session_scheme \<Rightarrow> store_command
     \<Rightarrow> handle_error + command_result \<times> 'a harness_session_scheme" where
  "apply_task_agent_handle_command url_ok session command =
     (case read_handles url_ok session of
        Inl e \<Rightarrow> Inl e
      | Inr store \<Rightarrow>
          (case apply_agent_handle_store_command store command of (result, store') \<Rightarrow>
             if store' = store then Inr (result, session)
             else map_sum id (Pair result) (write_handles url_ok session store')))"

section \<open>Lifecycle of one handle\<close>

text \<open>
  The moves one handle, found by its identifier, can make in a single transition: absent
  is \<open>None\<close>. The relation is the abstract specification of the store.
\<close>

inductive handle_move :: "agent_handle option \<Rightarrow> agent_handle option \<Rightarrow> bool" where
  stay: "handle_move x x"
| start: "handle_move None (Some (Starting i p t))"
| confirm: "handle_move (Some (Starting i p t)) (Some (Running i (StartOp p) a))"
| fail_start: "handle_move (Some (Starting i p t)) None"
| finish: "handle_move (Some (Running i p' a)) None"
| park: "length s \<le> MAX_STATUS_LENGTH \<Longrightarrow> handle_move (Some (Running i p' a)) (Some (Parked i a s))"
| reserve: "handle_move None (Some (Reserved i q c w))"
| lease: "handle_move (Some (Reserved i q c w)) (Some (Claimed i q c a w))"
| claim_parked: "handle_move (Some (Parked i a s)) (Some (Claimed i q c a w))"
| claim_available: "handle_move (Some (Available i a)) (Some (Claimed i q c a w))"
| release: "handle_move (Some (Claimed i q c a w)) (Some (Available i a))"
| abandon: "handle_move (Some (Claimed i q c a w)) (Some (Parked i a ''(cancelled)''))"
| remove: "handle_move (Some h) None"

inductive_cases move_from_parkedE: "handle_move (Some (Parked i a s)) y"
inductive_cases move_from_claimedE: "handle_move (Some (Claimed i q c a w)) y"
inductive_simps move_to_running: "handle_move x (Some (Running i p a))"

definition store_moves :: "handle_store \<Rightarrow> handle_store \<Rightarrow> bool" where
  "store_moves hs hs' \<longleftrightarrow> (\<forall>k. handle_move (keyed handle_id hs k) (keyed handle_id hs' k))"

lemma store_moves_refl [simp]: "store_moves hs hs"
  by (simp add: store_moves_def handle_move.stay)

lemma store_moves_append:
  assumes "k = handle_id h" and "k \<notin> handle_id ` set hs" and "handle_move None (Some h)"
  shows "store_moves hs (hs @ [h])"
proof -
  from assms have "keyed handle_id hs (handle_id h) = None" by (simp add: keyed_eq_None_iff)
  with assms show ?thesis
    by (auto simp: store_moves_def keyed_append_fresh intro: handle_move.stay)
qed

lemma store_moves_update:
  assumes "distinct (map handle_id hs)" and "i < length hs"
    and "handle_id h = handle_id (hs ! i)" and "handle_move (Some (hs ! i)) (Some h)"
  shows "store_moves hs (hs[i := h])"
  using assms keyed_nth [of handle_id hs i]
  by (auto simp: store_moves_def keyed_update intro: handle_move.stay)

lemma store_moves_remove:
  assumes "distinct (map handle_id hs)" and "i < length hs"
  shows "store_moves hs (remove_nth i hs)"
  using assms keyed_nth [of handle_id hs i]
  by (auto simp: store_moves_def keyed_remove_nth intro: handle_move.stay handle_move.remove)

lemma store_moves_flat_map:
  assumes "distinct (map handle_id hs)"
    and "\<And>h h'. h' \<in> set (f h) \<Longrightarrow> handle_id h' = handle_id h"
    and "\<And>h. handle_move (Some h) (case f h of [] \<Rightarrow> None | y # _ \<Rightarrow> Some y)"
  shows "store_moves hs (concat (map f hs))"
  using assms by (auto simp: store_moves_def keyed_flat_map split: option.splits intro: handle_move.stay)

section \<open>Every operation is a set of moves\<close>

named_theorems store_op

lemma read_handles_distinct: "read_handles url_ok session = Inr hs \<Longrightarrow> distinct (map handle_id hs)"
  by (auto simp: read_handles_def get_agent_handle_store_def
      dest: decode_store_distinct split: option.splits sum.splits)

lemma read_written_handles [store_op]:
  "write_handles url_ok session hs = Inr session' \<Longrightarrow> read_handles url_ok session' = Inr hs"
  using get_written_handles [of url_ok session hs session'] by (simp add: read_handles_def)


text \<open>A session whose store moved: what every successful operation establishes.\<close>

definition session_moves ::
    "(string \<Rightarrow> bool) \<Rightarrow> 'a harness_session_scheme \<Rightarrow> 'a harness_session_scheme \<Rightarrow> bool" where
  "session_moves url_ok s s' \<longleftrightarrow>
     (\<exists>hs hs'. read_handles url_ok s = Inr hs \<and> read_handles url_ok s' = Inr hs' \<and> store_moves hs hs')
     \<and> (\<forall>k. k \<noteq> AGENT_HANDLES_STATE_KEY \<longrightarrow> state_get (state s') k = state_get (state s) k)"

lemma session_moves_refl: "read_handles url_ok s = Inr hs \<Longrightarrow> session_moves url_ok s s"
  by (simp add: session_moves_def)

lemma session_moves_write:
  assumes "read_handles url_ok s = Inr hs" and "write_handles url_ok s hs' = Inr s'"
    and "store_moves hs hs'"
  shows "session_moves url_ok s s'"
  using assms read_written_handles [OF assms(2)]
  by (auto simp: session_moves_def write_handles_eq split: if_splits)

lemma prepare_moves [store_op]:
  assumes "prepare_agent_start url_ok s ident p t = Inr s'"
  shows "session_moves url_ok s s'"
proof -
  from assms obtain hs where hs: "read_handles url_ok s = Inr hs"
    and ne: "\<forall>h \<in> set hs. handle_id h \<noteq> identity_id ident"
    and w: "write_handles url_ok s (hs @ [Starting ident p t]) = Inr s'"
    by (auto simp: prepare_agent_start_def split: sum.splits if_splits)
  from ne have fresh: "identity_id ident \<notin> handle_id ` set hs" by force
  from fresh have "store_moves hs (hs @ [Starting ident p t])"
    by (intro store_moves_append [of "identity_id ident"]) (simp_all add: handle_move.start)
  with hs w show ?thesis by (rule session_moves_write)
qed

lemma find_active_SomeD:
  "find_active_handle hs opid = Some i \<Longrightarrow> i < length hs \<and> is_active_with opid (hs ! i)"
  by (auto simp: find_active_handle_def)

lemma confirm_moves [store_op]:
  assumes "confirm_agent_started url_ok s opid a = Inr s'"
  shows "session_moves url_ok s s'"
proof -
  from assms obtain hs i where hs: "read_handles url_ok s = Inr hs"
    and i: "find_active_handle hs opid = Some i"
    by (auto simp: confirm_agent_started_def split: sum.splits option.splits)
  note d = read_handles_distinct [OF hs] and il = find_active_SomeD [OF i]
  show ?thesis
  proof (cases "hs ! i")
    case (Starting ident p t)
    with assms hs i have "write_handles url_ok s (hs[i := Running ident (StartOp p) a]) = Inr s'"
      by (simp add: confirm_agent_started_def)
    moreover have "store_moves hs (hs[i := Running ident (StartOp p) a])"
      using d il Starting by (intro store_moves_update) (auto intro: handle_move.confirm)
    ultimately show ?thesis using hs by (blast intro: session_moves_write)
  qed (use assms hs i in \<open>auto simp: confirm_agent_started_def intro: session_moves_refl\<close>)
qed

lemma map_sum_Inr_iff: "map_sum id f x = Inr y \<longleftrightarrow> (\<exists>z. x = Inr z \<and> y = f z)"
  by (cases x) auto

lemma write_handles_ok: "write_handles url_ok s hs = Inr s' \<Longrightarrow> store_ok url_ok hs"
  by (simp add: write_handles_eq split: if_splits)

lemma write_update_handle_ok:
  "write_handles url_ok s (hs[i := h]) = Inr s' \<Longrightarrow> i < length hs \<Longrightarrow> handle_ok url_ok h"
  using set_update_memI [of i hs h] by (auto simp: store_ok_def dest!: write_handles_ok)

lemma remove_moves:
  assumes "read_handles url_ok s = Inr hs" and "i < length hs"
    and "write_handles url_ok s (remove_nth i hs) = Inr s'"
  shows "session_moves url_ok s s'"
  using assms read_handles_distinct [OF assms(1)]
  by (intro session_moves_write [OF assms(1,3)] store_moves_remove)

lemma park_moves:
  assumes hs: "read_handles url_ok s = Inr hs" and i: "i < length hs" and h: "hs ! i = Running ident p a"
    and w: "write_handles url_ok s (hs[i := Parked ident a st]) = Inr s'"
  shows "session_moves url_ok s s'"
proof (rule session_moves_write [OF hs w])
  have "length st \<le> MAX_STATUS_LENGTH" using write_update_handle_ok [OF w i] by simp
  then show "store_moves hs (hs[i := Parked ident a st])"
    using i h read_handles_distinct [OF hs]
    by (intro store_moves_update) (auto intro: handle_move.park)
qed

lemma reject_moves [store_op]:
  assumes "reject_agent_effect url_ok s opid d = Inr s'"
  shows "session_moves url_ok s s'"
proof -
  from assms obtain hs where hs: "read_handles url_ok s = Inr hs"
    by (auto simp: reject_agent_effect_def split: sum.splits)
  show ?thesis
  proof (cases "find_active_handle hs opid")
    case None
    with assms hs show ?thesis by (auto simp: reject_agent_effect_def intro: session_moves_refl)
  next
    case (Some i)
    note il = find_active_SomeD [OF Some]
    show ?thesis
    proof (cases "\<exists>ident p a. d = Retryable \<and> hs ! i = Running ident (ContinueOp p) a")
      case True
      then obtain ident p a where h: "d = Retryable" "hs ! i = Running ident (ContinueOp p) a" by blast
      with assms hs Some
      have "write_handles url_ok s (hs[i := Parked ident a (previous_status p)]) = Inr s'"
        by (simp add: reject_agent_effect_def)
      with hs il h show ?thesis by (blast intro: park_moves)
    next
      case False
      with assms hs Some have "write_handles url_ok s (remove_nth i hs) = Inr s'"
        by (auto simp: reject_agent_effect_def split: disposition.splits agent_handle.splits agent_operation.splits)
      with hs il show ?thesis by (blast intro: remove_moves)
    qed
  qed
qed

lemma abandon_running_moves [store_op]:
  assumes "abandon_running_agent_turns url_ok s = Inr s'"
  shows "session_moves url_ok s s'"
proof -
  from assms obtain hs where hs: "read_handles url_ok s = Inr hs"
    by (auto simp: abandon_running_agent_turns_def split: sum.splits)
  show ?thesis
  proof (cases "\<exists>h \<in> set hs. is_running h")
    case False
    with assms hs show ?thesis
      by (auto simp: abandon_running_agent_turns_def intro: session_moves_refl)
  next
    case True
    with assms hs have w: "write_handles url_ok s (map park_running hs) = Inr s'"
      by (simp add: abandon_running_agent_turns_def)
    have ident: "handle_identity (park_running h) = handle_identity h" for h by (cases h) simp_all
    have "handle_move (Some h) (Some (park_running h))" for h
      by (cases h) (auto intro: handle_move.stay handle_move.park simp: MAX_STATUS_LENGTH_def)
    then have "store_moves hs (map park_running hs)"
      by (auto simp: store_moves_def keyed_map ident intro: handle_move.stay split: option.splits)
        (metis handle_move.stay not_None_eq option.simps(8,9))
    with hs w show ?thesis by (rule session_moves_write)
  qed
qed

lemma settle_moves [store_op]:
  assumes "settle_agent_turn url_ok s opid out = Inr (Settled s')"
  shows "session_moves url_ok s s'"
proof -
  from assms obtain hs i where hs: "read_handles url_ok s = Inr hs"
    and i: "find_index (is_running_with opid) hs = Some i"
    by (auto simp: settle_agent_turn_def split: sum.splits option.splits)
  from find_index_SomeD(1,2) [OF i] obtain ident p a
    where il: "i < length hs" and h: "hs ! i = Running ident p a"
    by (cases "hs ! i") auto
  show ?thesis
  proof (cases out)
    case (TerminalOutcome r)
    with assms hs i have "write_handles url_ok s (remove_nth i hs) = Inr s'"
      by (auto simp: settle_agent_turn_def map_sum_Inr_iff split: sum.splits)
    with hs il show ?thesis by (blast intro: remove_moves)
  next
    case (ParkedOutcome r)
    with assms hs i h have "write_handles url_ok s (hs[i := Parked ident a (settled_status r)]) = Inr s'"
      by (auto simp: settle_agent_turn_def map_sum_Inr_iff)
    with hs il h show ?thesis by (blast intro: park_moves)
  qed
qed

section \<open>The lease commands are moves\<close>

lemma release_handle_id: "h' \<in> set (release_handle owner h) \<Longrightarrow> handle_id h' = handle_id h"
  by (cases h) (auto split: if_splits)

lemma release_handle_move:
  "handle_move (Some h) (case release_handle owner h of [] \<Rightarrow> None | y # _ \<Rightarrow> Some y)"
  by (cases h) (auto intro: handle_move.intros)

lemma abandon_owned_id: "h' \<in> set (abandon_owned owners h) \<Longrightarrow> handle_id h' = handle_id h"
  by (cases h) (auto split: if_splits)

lemma abandon_owned_move:
  "handle_move (Some h) (case abandon_owned owners h of [] \<Rightarrow> None | y # _ \<Rightarrow> Some y)"
  by (cases h) (auto intro: handle_move.intros)

lemma find_has_id_SomeD:
  "find_index (has_id k) hs = Some i \<Longrightarrow> i < length hs \<and> handle_id (hs ! i) = k"
  by (auto simp: find_index_eq_Some_iff has_id_def)

lemma find_has_id_None: "find_index (has_id k) hs = None \<longleftrightarrow> k \<notin> handle_id ` set hs"
  by (auto simp: find_index_eq_None_iff has_id_def)

lemma command_moves:
  assumes d: "distinct (map handle_id hs)"
  shows "store_moves hs (snd (apply_agent_handle_store_command hs c))"
proof (cases c)
  case (ReserveCmd ident opid call owner)
  show ?thesis
  proof (cases "find_index (has_id (identity_id ident)) hs")
    case None
    then have "store_moves hs (hs @ [Reserved ident opid call owner])"
      by (intro store_moves_append [of "identity_id ident"])
        (simp_all add: find_has_id_None handle_move.reserve)
    with None ReserveCmd show ?thesis by (simp add: Let_def)
  qed (simp add: ReserveCmd)
next
  case (ConfirmCmd address opid owner)
  show ?thesis
  proof (cases "find_index (leased_as opid owner) hs")
    case (Some i)
    then have il: "i < length hs" by auto
    show ?thesis
    proof (cases "hs ! i")
      case (Reserved ident p call w)
      then have "store_moves hs (hs[i := Claimed ident p call address w])"
        using d il by (intro store_moves_update) (auto intro: handle_move.lease)
      with Some Reserved ConfirmCmd show ?thesis by (simp add: replace_handle_def)
    qed (use Some ConfirmCmd in simp_all)
  qed (simp add: ConfirmCmd)
next
  case (ClaimCmd agent target call invoked opid owner)
  show ?thesis
  proof (cases "find_index (has_id agent) hs")
    case (Some i)
    then have il: "i < length hs" by auto
    have "store_moves hs (hs[i := Claimed ident opid call a owner])"
      if "hs ! i = Parked ident a st \<or> hs ! i = Available ident a" for ident a st
      using that d il
      by (intro store_moves_update) (auto intro: handle_move.claim_parked handle_move.claim_available)
    with Some ClaimCmd show ?thesis
      by (cases "hs ! i") (auto simp: replace_handle_def)
  qed (simp add: ClaimCmd)
next
  case (RemoveCmd agent owner)
  show ?thesis
  proof (cases "find_index (has_id agent) hs")
    case (Some i)
    with d RemoveCmd show ?thesis by (auto intro: store_moves_remove)
  qed (simp add: RemoveCmd)
next
  case (ReleaseOwnerCmd owner)
  then show ?thesis
    by (simp add: store_moves_flat_map [OF d release_handle_id release_handle_move])
qed simp

lemma apply_task_moves [store_op]:
  assumes "apply_task_agent_handle_command url_ok s c = Inr (r, s')"
  shows "session_moves url_ok s s'"
proof -
  from assms obtain hs where hs: "read_handles url_ok s = Inr hs"
    by (auto simp: apply_task_agent_handle_command_def split: sum.splits)
  obtain r' hs' where step: "apply_agent_handle_store_command hs c = (r', hs')" by force
  show ?thesis
  proof (cases "hs' = hs")
    case True
    with assms hs step show ?thesis
      by (auto simp: apply_task_agent_handle_command_def intro: session_moves_refl)
  next
    case False
    with assms hs step have "write_handles url_ok s hs' = Inr s'"
      by (auto simp: apply_task_agent_handle_command_def map_sum_Inr_iff)
    moreover have "store_moves hs hs'"
      using command_moves [OF read_handles_distinct [OF hs], of c] step by simp
    ultimately show ?thesis using hs by (blast intro: session_moves_write)
  qed
qed

lemma abandon_owners_moves [store_op]:
  assumes "abandon_agent_invocation_owners url_ok s owners = Inr s'"
  shows "session_moves url_ok s s'"
proof -
  from assms obtain hs where hs: "read_handles url_ok s = Inr hs"
    by (auto simp: abandon_agent_invocation_owners_def split: sum.splits)
  let ?hs' = "concat (map (abandon_owned owners) hs)"
  have "store_moves hs ?hs'"
    by (rule store_moves_flat_map [OF read_handles_distinct [OF hs] abandon_owned_id abandon_owned_move])
  with assms hs show ?thesis
    by (auto simp: abandon_agent_invocation_owners_def Let_def
        intro: session_moves_refl session_moves_write split: if_splits)
qed

section \<open>The store as a machine\<close>

text \<open>
  All operations as the events of one machine; a throwing operation leaves the session
  its caller holds.
\<close>

datatype handle_event =
    PrepareEvent agent_identity start_operation agent_start_target
  | ConfirmEvent string agent_address
  | RejectEvent string disposition
  | AbandonRunningEvent
  | SettleEvent string agent_turn_outcome
  | AbandonOwnersEvent "string set"
  | CommandEvent store_command

definition or_else :: "'s \<Rightarrow> handle_error + 's \<Rightarrow> 's" where
  "or_else s r = (case r of Inl _ \<Rightarrow> s | Inr s' \<Rightarrow> s')"

fun handle_step ::
    "(string \<Rightarrow> bool) \<Rightarrow> 'a harness_session_scheme \<Rightarrow> handle_event \<Rightarrow> 'a harness_session_scheme" where
  "handle_step u s (PrepareEvent ident p t) = or_else s (prepare_agent_start u s ident p t)"
| "handle_step u s (ConfirmEvent opid a) = or_else s (confirm_agent_started u s opid a)"
| "handle_step u s (RejectEvent opid d) = or_else s (reject_agent_effect u s opid d)"
| "handle_step u s AbandonRunningEvent = or_else s (abandon_running_agent_turns u s)"
| "handle_step u s (SettleEvent opid out) =
     (case settle_agent_turn u s opid out of Inr (Settled s') \<Rightarrow> s' | _ \<Rightarrow> s)"
| "handle_step u s (AbandonOwnersEvent ws) = or_else s (abandon_agent_invocation_owners u s ws)"
| "handle_step u s (CommandEvent c) = or_else s (map_sum id snd (apply_task_agent_handle_command u s c))"

definition store_readable :: "(string \<Rightarrow> bool) \<Rightarrow> 'a harness_session_scheme \<Rightarrow> bool" where
  "store_readable u s \<longleftrightarrow> (\<exists>hs. read_handles u s = Inr hs)"

lemma session_moves_readable: "session_moves u s s' \<Longrightarrow> store_readable u s'"
  by (auto simp: session_moves_def store_readable_def)

lemma or_else_moves:
  "store_readable u s \<Longrightarrow> (\<And>s'. r = Inr s' \<Longrightarrow> session_moves u s s') \<Longrightarrow> session_moves u s (or_else s r)"
  by (auto simp: or_else_def store_readable_def intro: session_moves_refl split: sum.splits)

lemma handle_step_moves: "store_readable u s \<Longrightarrow> session_moves u s (handle_step u s e)"
proof (cases e)
  case (SettleEvent opid out)
  assume "store_readable u s"
  then have "session_moves u s s" by (auto simp: store_readable_def intro: session_moves_refl)
  with SettleEvent show ?thesis
    by (auto intro: settle_moves split: sum.splits settle_result.splits)
qed (auto intro!: or_else_moves intro: store_op simp: map_sum_Inr_iff)

interpretation handle_machine: invariant_machine "handle_step u" "store_readable u" for u
  by unfold_locales (rule session_moves_readable [OF handle_step_moves])

section \<open>Replays and exclusion\<close>

fun command_owner :: "store_command \<Rightarrow> string option" where
  "command_owner ReadCmd = None"
| "command_owner (ReserveCmd i q c w) = Some w"
| "command_owner (ConfirmCmd a q w) = Some w"
| "command_owner (ClaimCmd k t c n q w) = Some w"
| "command_owner (RemoveCmd k w) = Some w"
| "command_owner (ReleaseOwnerCmd w) = Some w"

lemma find_has_id_remove:
  "distinct (map handle_id hs) \<Longrightarrow> find_index (has_id k) hs = Some i
   \<Longrightarrow> find_index (has_id k) (remove_nth i hs) = None"
  by (auto simp: find_has_id_None keyed_remove_nth keyed_eq_None_iff [symmetric] dest: find_has_id_SomeD)

lemma release_released: "h' \<in> set (release_handle w h) \<Longrightarrow> release_handle w h' = [h']"
  by (cases h) (auto split: if_splits)

lemma concat_map_release_idem:
  "concat (map (release_handle w) (concat (map (release_handle w) hs))) = concat (map (release_handle w) hs)"
proof (induction hs)
  case (Cons h hs)
  have "concat (map (release_handle w) (release_handle w h)) = release_handle w h"
    by (cases h) auto
  with Cons show ?case by simp
qed simp

lemma command_replay:
  assumes d: "distinct (map handle_id hs)" and step: "apply_agent_handle_store_command hs c = (r, hs')"
  shows "apply_agent_handle_store_command hs' c = (r, hs')"
proof (cases c)
  case (ReserveCmd ident opid call owner)
  show ?thesis
  proof (cases "find_index (has_id (identity_id ident)) hs")
    case None
    from find_index_snoc_new [OF None, of "Reserved ident opid call owner"]
    show ?thesis using step None ReserveCmd by (auto simp: Let_def has_id_def)
  qed (use step ReserveCmd in \<open>auto split: if_splits\<close>)
next
  case (ConfirmCmd address opid owner)
  show ?thesis
  proof (cases "find_index (leased_as opid owner) hs")
    case (Some i)
    note at = find_index_SomeD(1,2) [OF Some]
    show ?thesis
    proof (cases "hs ! i")
      case (Reserved ident p call w)
      with at have "leased_as opid owner (Claimed ident p call address w)" by simp
      from find_index_list_update [OF Some this] at
      show ?thesis using step Some Reserved ConfirmCmd by (auto simp: replace_handle_def)
    qed (use step Some ConfirmCmd in auto)
  qed (use step ConfirmCmd in auto)
next
  case (ClaimCmd agent target call invoked opid owner)
  show ?thesis
  proof (cases "find_index (has_id agent) hs")
    case (Some i)
    note at = find_has_id_SomeD [OF Some]
    have again: "find_index (has_id agent) (hs[i := Claimed ident opid call a owner]) = Some i"
      if "identity_id ident = agent" for ident a
      using find_index_list_update [OF Some] that by (simp add: has_id_def)
    show ?thesis
      using step Some ClaimCmd at again
      by (cases "hs ! i") (auto simp: replace_handle_def split: if_splits)
  qed (use step ClaimCmd in auto)
next
  case (RemoveCmd agent owner)
  show ?thesis
  proof (cases "find_index (has_id agent) hs")
    case (Some i)
    with step RemoveCmd find_has_id_remove [OF d Some] show ?thesis by (auto split: if_splits)
  qed (use step RemoveCmd in auto)
next
  case (ReleaseOwnerCmd owner)
  with step show ?thesis by (auto simp: concat_map_release_idem)
qed (use step in auto)

lemma keyed_update_other:
  "distinct (map handle_id hs) \<Longrightarrow> i < length hs \<Longrightarrow> handle_id h = handle_id (hs ! i)
   \<Longrightarrow> k \<noteq> handle_id (hs ! i) \<Longrightarrow> keyed handle_id (hs[i := h]) k = keyed handle_id hs k"
  by (simp add: keyed_update)

lemma lease_exclusive:
  assumes d: "distinct (map handle_id hs)" and k: "keyed handle_id hs k = Some (Claimed i q c a w)"
    and other: "command_owner cmd \<noteq> Some w"
  shows "keyed handle_id (snd (apply_agent_handle_store_command hs cmd)) k = Some (Claimed i q c a w)"
proof -
  have here: "hs ! j = Claimed i q c a w" if "j < length hs" "handle_id (hs ! j) = k" for j
    using keyed_nth [OF d that(1)] that(2) k by simp
  have upd: "keyed handle_id (hs[j := h]) k = Some (Claimed i q c a w)"
    if "j < length hs" "handle_id h = handle_id (hs ! j)" "hs ! j \<noteq> Claimed i q c a w" for j h
    using that here [of j] k by (auto simp: keyed_update [OF d])
  show ?thesis
  proof (cases cmd)
    case (ReserveCmd ident opid call owner)
    then show ?thesis
      using k by (auto simp: Let_def keyed_append_fresh find_has_id_None keyed_eq_None_iff [symmetric]
          split: option.splits)
  next
    case (ConfirmCmd address opid owner)
    show ?thesis
    proof (cases "find_index (leased_as opid owner) hs")
      case (Some j)
      then have jl: "j < length hs" by auto
      show ?thesis
        using ConfirmCmd Some k upd [OF jl] by (cases "hs ! j") (auto simp: replace_handle_def)
    qed (use ConfirmCmd k in simp)
  next
    case (ClaimCmd agent target call invoked opid owner)
    show ?thesis
    proof (cases "find_index (has_id agent) hs")
      case (Some j)
      then have jl: "j < length hs" by auto
      show ?thesis
        using ClaimCmd Some k upd [OF jl] by (cases "hs ! j") (auto simp: replace_handle_def)
    qed (use ClaimCmd k in simp)
  next
    case (RemoveCmd agent owner)
    show ?thesis
    proof (cases "find_index (has_id agent) hs")
      case (Some j)
      note at = find_has_id_SomeD [OF Some]
      show ?thesis
      proof (cases "agent = k")
        case True
        with at here have "hs ! j = Claimed i q c a w" by simp
        with RemoveCmd Some other k show ?thesis by simp
      next
        case False
        with RemoveCmd Some at k show ?thesis by (auto simp: keyed_remove_nth [OF d])
      qed
    qed (use RemoveCmd k in simp)
  next
    case (ReleaseOwnerCmd owner)
    with other k show ?thesis
      by (simp add: keyed_flat_map [OF d release_handle_id])
  qed (use k in simp)
qed

section \<open>Properties\<close>

text \<open>C1: Lifecycle. From a session whose handle store can be read, every operation of the
  store leaves a readable store, moves each identifier only along the documented lifecycle
  relation, and leaves every other key of the session state alone.\<close>

theorem handle_store_lifecycle:
  assumes "store_readable url_ok session"
  shows "\<exists>hs hs'. read_handles url_ok session = Inr hs
      \<and> read_handles url_ok (handle_step url_ok session event) = Inr hs'
      \<and> (\<forall>k. handle_move (keyed handle_id hs k) (keyed handle_id hs' k))
      \<and> (\<forall>k. k \<noteq> AGENT_HANDLES_STATE_KEY \<longrightarrow>
            state_get (state (handle_step url_ok session event)) k = state_get (state session) k)"
  using handle_step_moves [OF assms, of event] by (auto simp: session_moves_def store_moves_def)

definition example_identity :: agent_identity where
  "example_identity = \<lparr>identity_id = ''ag_x:1'', identity_name = ''x'', identity_node_id = ''n''\<rparr>"

definition example_operation :: start_operation where
  "example_operation = \<lparr>operation_id = ''op'', call_id = ''c'', parent_turn_id = ''t''\<rparr>"

definition empty_session :: harness_session where
  "empty_session = \<lparr>state = None\<rparr>"

lemma empty_session_readable: "store_readable u empty_session"
  by (simp add: store_readable_def read_handles_def get_agent_handle_store_def empty_session_def)

theorem handle_store_lifecycle_witness:
  "\<exists>hs'. read_handles (\<lambda>_. True) (handle_step (\<lambda>_. True) empty_session
      (PrepareEvent example_identity example_operation (LocalTarget ''tok''))) = Inr hs'"
  using handle_store_lifecycle [OF empty_session_readable,
      of "\<lambda>_. True" "PrepareEvent example_identity example_operation (LocalTarget ''tok'')"]
  by blast

text \<open>Any sequence of store operations, started on a fresh session, ends in a session
  whose store decodes under the persistence schema: no reachable store is corrupt and its
  identifiers are distinct.\<close>

lemma reachable_store_valid:
  "\<exists>hs. read_handles url_ok (foldl (handle_step url_ok) empty_session events) = Inr hs
      \<and> store_ok url_ok hs"
proof -
  have "store_readable url_ok (foldl (handle_step url_ok) empty_session events)"
    by (rule handle_machine.run_inv) (rule empty_session_readable)
  then obtain hs where hs: "read_handles url_ok (foldl (handle_step url_ok) empty_session events) = Inr hs"
    by (auto simp: store_readable_def)
  then have "store_ok url_ok hs"
    by (auto simp: read_handles_def get_agent_handle_store_def store_ok_def
        dest: decode_store_ok split: sum.splits option.splits)
  with hs show ?thesis by blast
qed

text \<open>A parked child is never put back to running: one operation either keeps the parked
  handle as it is, leases it to a workflow owner with the same identity and address, or
  removes it.\<close>

lemma parked_never_runs_again:
  assumes "read_handles url_ok session = Inr hs"
    and "keyed handle_id hs k = Some (Parked i a s)"
    and "read_handles url_ok (handle_step url_ok session event) = Inr hs'"
  shows "keyed handle_id hs' k \<in> {None, Some (Parked i a s)}
       \<or> (\<exists>q c w. keyed handle_id hs' k = Some (Claimed i q c a w))"
proof -
  have "store_readable url_ok session" using assms(1) by (auto simp: store_readable_def)
  from handle_step_moves [OF this, of event] assms
  have "handle_move (Some (Parked i a s)) (keyed handle_id hs' k)"
    by (auto simp: session_moves_def store_moves_def dest: spec [of _ k])
  then show ?thesis by (rule move_from_parkedE) auto
qed

definition parked_session :: harness_session where
  "parked_session = \<lparr>state = Some [AGENT_HANDLES_STATE_KEY \<mapsto>
     encode_store [Parked example_identity (LocalAddress ''s'' ''tok'') ''done'']]\<rparr>"

lemma read_parked_session:
  "read_handles u parked_session = Inr [Parked example_identity (LocalAddress ''s'' ''tok'') ''done'']"
  by (simp add: read_handles_def get_agent_handle_store_def parked_session_def decode_encode_store
      store_ok_def identity_ok_def example_identity_def MAX_STATUS_LENGTH_def)

theorem parked_never_runs_again_witness:
  "keyed handle_id [Parked example_identity (LocalAddress ''s'' ''tok'') ''done''] ''ag_x:1''
     \<in> {None, Some (Parked example_identity (LocalAddress ''s'' ''tok'') ''done'')}
   \<or> (\<exists>q c w. keyed handle_id [Parked example_identity (LocalAddress ''s'' ''tok'') ''done''] ''ag_x:1''
        = Some (Claimed example_identity q c (LocalAddress ''s'' ''tok'') w))"
proof (rule parked_never_runs_again [where event = AbandonRunningEvent])
  show "read_handles (\<lambda>_. True) parked_session
      = Inr [Parked example_identity (LocalAddress ''s'' ''tok'') ''done'']"
    by (rule read_parked_session)
  then show "read_handles (\<lambda>_. True) (handle_step (\<lambda>_. True) parked_session AbandonRunningEvent)
      = Inr [Parked example_identity (LocalAddress ''s'' ''tok'') ''done'']"
    by (simp add: abandon_running_agent_turns_def or_else_def)
qed (simp add: keyed_Cons example_identity_def)

text \<open>C2: Lease exclusion. While an owner holds a claimed child, no command of any other owner
  changes that child's handle.\<close>

theorem lease_excludes_other_owners:
  assumes "distinct (map handle_id hs)"
    and "keyed handle_id hs k = Some (Claimed i q c a w)"
    and "command_owner cmd \<noteq> Some w"
  shows "keyed handle_id (snd (apply_agent_handle_store_command hs cmd)) k = Some (Claimed i q c a w)"
  using assms by (rule lease_exclusive)

theorem lease_excludes_other_owners_witness:
  "keyed handle_id (snd (apply_agent_handle_store_command
       [Claimed example_identity ''q'' None (LocalAddress ''s'' ''tok'') ''w1'']
       (RemoveCmd ''ag_x:1'' ''w2''))) ''ag_x:1''
     = Some (Claimed example_identity ''q'' None (LocalAddress ''s'' ''tok'') ''w1'')"
  by (rule lease_excludes_other_owners) (simp_all add: keyed_Cons example_identity_def)

text \<open>Replaying any lease command on the store it produced is a no-op with the same result,
  so a repeated delivery of a command is harmless.\<close>

lemma lease_command_replay:
  assumes "distinct (map handle_id hs)"
  shows "apply_agent_handle_store_command (snd (apply_agent_handle_store_command hs cmd)) cmd
       = apply_agent_handle_store_command hs cmd"
  using command_replay [OF assms, of cmd] by (cases "apply_agent_handle_store_command hs cmd") simp

theorem lease_command_replay_witness:
  "apply_agent_handle_store_command (snd (apply_agent_handle_store_command []
      (ReserveCmd example_identity ''q'' None ''w''))) (ReserveCmd example_identity ''q'' None ''w'')
   = (ReadyResult (Some (Reserved example_identity ''q'' None ''w'')), [Reserved example_identity ''q'' None ''w''])"
  by (subst lease_command_replay) (simp_all add: Let_def)

lemma park_running_ok: "handle_ok u h \<Longrightarrow> handle_ok u (park_running h)"
  by (cases h) (simp_all add: MAX_STATUS_LENGTH_def)

lemma settled_operation_gone:
  assumes "find_index (is_running_with opid) hs = Some i"
    and "length (filter (is_running_with opid) hs) \<le> 1"
  shows "find_index (is_running_with opid) (remove_nth i hs) = None"
    and "\<not> is_running_with opid h \<Longrightarrow> find_index (is_running_with opid) (hs[i := h]) = None"
proof -
  from assms(1) have i: "i < length hs" "is_running_with opid (hs ! i)" by auto
  have split: "filter P hs = filter P (take i hs) @ filter P [hs ! i] @ filter P (drop (Suc i) hs)" for P
    by (metis Cons_nth_drop_Suc append_Cons append_Nil append_take_drop_id filter_append i(1))
  from assms(2) i(2) have none: "filter (is_running_with opid) (take i hs) = []"
    "filter (is_running_with opid) (drop (Suc i) hs) = []"
    by (simp_all add: split [of "is_running_with opid"])
  then show "find_index (is_running_with opid) (remove_nth i hs) = None"
    by (auto simp: find_index_eq_None_iff remove_nth_def filter_empty_conv)
  assume "\<not> is_running_with opid h"
  with none i(1) show "find_index (is_running_with opid) (hs[i := h]) = None"
    by (auto simp: find_index_eq_None_iff upd_conv_take_nth_drop filter_empty_conv)
qed

text \<open>A settlement is applied at most once: when the operation is recorded on one running
  handle, settling it again is ignored, whatever outcome the second delivery carries.\<close>

lemma settlement_at_most_once:
  assumes "read_handles url_ok session = Inr hs"
    and "length (filter (is_running_with opid) hs) \<le> 1"
    and "settle_agent_turn url_ok session opid outcome = Inr (Settled session')"
  shows "settle_agent_turn url_ok session' opid outcome' = Inr IgnoredUnknownOperation"
proof -
  from assms obtain i where i: "find_index (is_running_with opid) hs = Some i"
    by (auto simp: settle_agent_turn_def split: option.splits)
  note gone = settled_operation_gone [OF i assms(2)]
  from assms(1,3) i obtain hs' where "write_handles url_ok session hs' = Inr session'"
    and "find_index (is_running_with opid) hs' = None"
    using gone by (cases outcome) (auto simp: settle_agent_turn_def map_sum_Inr_iff)
  then show ?thesis by (simp add: settle_agent_turn_def read_written_handles)
qed

definition running_session :: harness_session where
  "running_session = \<lparr>state = Some [AGENT_HANDLES_STATE_KEY \<mapsto>
     encode_store [Running example_identity (StartOp example_operation) (LocalAddress ''s'' ''tok'')]]\<rparr>"

lemma read_running_session:
  "read_handles u running_session
     = Inr [Running example_identity (StartOp example_operation) (LocalAddress ''s'' ''tok'')]"
  by (simp add: read_handles_def get_agent_handle_store_def running_session_def decode_encode_store
      store_ok_def identity_ok_def example_identity_def start_operation_ok_def example_operation_def)

lemma settle_running_session:
  "settle_agent_turn u running_session ''op'' (TerminalOutcome CancelledResult)
     = Inr (Settled \<lparr>state = Some (state_put (state running_session) AGENT_HANDLES_STATE_KEY (encode_store []))\<rparr>)"
  by (simp add: settle_agent_turn_def read_running_session write_handles_eq example_operation_def
      remove_nth_def store_ok_def)

theorem settlement_at_most_once_witness:
  "settle_agent_turn (\<lambda>_. True)
     \<lparr>state = Some (state_put (state running_session) AGENT_HANDLES_STATE_KEY (encode_store []))\<rparr>
     ''op'' (ParkedOutcome (Succeeded JNull)) = Inr IgnoredUnknownOperation"
  by (rule settlement_at_most_once [OF read_running_session _ settle_running_session]) simp

text \<open>Abandoning a cancelled turn always succeeds on a readable store, parks exactly the
  running children with the status of a cancellation at their confirmed address, and touches
  no other handle.\<close>

lemma abandon_running_parks_all:
  assumes "read_handles url_ok session = Inr hs"
  shows "\<exists>session' hs'. abandon_running_agent_turns url_ok session = Inr session'
      \<and> read_handles url_ok session' = Inr hs'
      \<and> (\<forall>k. keyed handle_id hs' k = map_option park_running (keyed handle_id hs k))
      \<and> \<not> (\<exists>h \<in> set hs'. is_running h)"
proof -
  have ident: "handle_identity (park_running h) = handle_identity h" for h by (cases h) simp_all
  have stopped: "\<not> is_running (park_running h)" for h by (cases h) simp_all
  have same: "map park_running hs = hs" if "\<not> (\<exists>h \<in> set hs. is_running h)"
  proof (rule map_idI)
    fix h assume "h \<in> set hs"
    with that show "park_running h = h" by (cases h) auto
  qed
  have "store_ok url_ok hs"
    using assms by (auto simp: read_handles_def get_agent_handle_store_def store_ok_def
        dest: decode_store_ok split: sum.splits option.splits)
  then have "store_ok url_ok (map park_running hs)"
    using ident by (auto simp: store_ok_def comp_def intro: park_running_ok)
  then obtain session' where w: "write_handles url_ok session (map park_running hs) = Inr session'"
    by (simp add: write_handles_eq)
  have keys: "keyed handle_id (map park_running hs) k = map_option park_running (keyed handle_id hs k)" for k
    by (simp add: keyed_map ident)
  show ?thesis
  proof (cases "\<exists>h \<in> set hs. is_running h")
    case True
    with assms w read_written_handles [OF w] keys stopped show ?thesis
      by (auto simp: abandon_running_agent_turns_def)
  next
    case False
    with assms same [OF False] keys show ?thesis
      by (auto simp: abandon_running_agent_turns_def)
  qed
qed

theorem abandon_running_parks_all_witness:
  "\<exists>session' hs'. abandon_running_agent_turns (\<lambda>_. True) running_session = Inr session'
      \<and> read_handles (\<lambda>_. True) session' = Inr hs' \<and> \<not> (\<exists>h \<in> set hs'. is_running h)"
  using abandon_running_parks_all [OF read_running_session, of "\<lambda>_. True"] by blast

text \<open>Starting a child refuses an identifier that is already in the store and otherwise
  records the start intent as a new handle, when the identity, operation and target satisfy
  the schema; confirming the start then turns that handle, and only it, into a running one.\<close>

lemma start_then_confirm:
  assumes "read_handles url_ok session = Inr hs"
    and "identity_ok ident" and "start_operation_ok p" and "target_ok url_ok t"
  shows "(identity_id ident \<in> handle_id ` set hs \<longrightarrow>
            prepare_agent_start url_ok session ident p t = Inl (HandleExists (identity_id ident)))
    \<and> (identity_id ident \<notin> handle_id ` set hs \<longrightarrow>
         (\<exists>s1. prepare_agent_start url_ok session ident p t = Inr s1
            \<and> read_handles url_ok s1 = Inr (hs @ [Starting ident p t])
            \<and> (find_active_handle hs (operation_id p) = None \<and> address_ok url_ok a \<longrightarrow>
                 (\<exists>s2. confirm_agent_started url_ok s1 (operation_id p) a = Inr s2
                    \<and> read_handles url_ok s2 = Inr (hs @ [Running ident (StartOp p) a])))))"
proof (intro conjI impI)
  assume "identity_id ident \<in> handle_id ` set hs"
  with assms(1) show "prepare_agent_start url_ok session ident p t = Inl (HandleExists (identity_id ident))"
    by (auto simp: prepare_agent_start_def)
next
  assume fresh: "identity_id ident \<notin> handle_id ` set hs"
  have ok: "store_ok url_ok hs"
    using assms(1) by (auto simp: read_handles_def get_agent_handle_store_def store_ok_def
        dest: decode_store_ok split: sum.splits option.splits)
  have okh: "store_ok url_ok (hs @ [h])" if "handle_ok url_ok h" "handle_identity h = ident" for h
    using ok that fresh by (auto simp: store_ok_def)
  obtain s1 where w: "write_handles url_ok session (hs @ [Starting ident p t]) = Inr s1"
    using okh [of "Starting ident p t"] assms by (simp add: write_handles_eq)
  have s1: "prepare_agent_start url_ok session ident p t = Inr s1"
    using assms(1) fresh w by (auto simp: prepare_agent_start_def) (metis imageI)
  have r1: "read_handles url_ok s1 = Inr (hs @ [Starting ident p t])"
    by (rule read_written_handles [OF w])
  have "\<exists>s2. confirm_agent_started url_ok s1 (operation_id p) a = Inr s2
          \<and> read_handles url_ok s2 = Inr (hs @ [Running ident (StartOp p) a])"
    if none: "find_active_handle hs (operation_id p) = None" and aok: "address_ok url_ok a"
  proof -
    have at: "find_active_handle (hs @ [Starting ident p t]) (operation_id p) = Some (length hs)"
      using none by (simp add: find_active_handle_def find_index_snoc_new)
    obtain s2 where w2: "write_handles url_ok s1 (hs @ [Running ident (StartOp p) a]) = Inr s2"
      using okh [of "Running ident (StartOp p) a"] assms aok by (simp add: write_handles_eq)
    have "confirm_agent_started url_ok s1 (operation_id p) a = Inr s2"
      by (simp add: confirm_agent_started_def r1 at w2)
    with read_written_handles [OF w2] show ?thesis by blast
  qed
  with s1 r1 show "\<exists>s1. prepare_agent_start url_ok session ident p t = Inr s1
            \<and> read_handles url_ok s1 = Inr (hs @ [Starting ident p t])
            \<and> (find_active_handle hs (operation_id p) = None \<and> address_ok url_ok a \<longrightarrow>
                 (\<exists>s2. confirm_agent_started url_ok s1 (operation_id p) a = Inr s2
                    \<and> read_handles url_ok s2 = Inr (hs @ [Running ident (StartOp p) a])))"
    by (intro exI [of _ s1]) simp
qed

theorem start_then_confirm_witness:
  "\<exists>s1. prepare_agent_start (\<lambda>_. True) empty_session example_identity example_operation (LocalTarget ''tok'') = Inr s1"
proof -
  have "read_handles (\<lambda>_. True) empty_session = Inr []"
    by (simp add: read_handles_def get_agent_handle_store_def empty_session_def)
  then show ?thesis
    using start_then_confirm [of "\<lambda>_. True" empty_session "[]" example_identity example_operation
        "LocalTarget ''tok''" "LocalAddress ''s'' ''tok''"]
    by (auto simp: identity_ok_def example_identity_def start_operation_ok_def example_operation_def)
qed

end
