(* ===== verification/Handle_Views.thy ===== *)
theory Handle_Views
  imports Handle_Transitions
begin

text \<open>
  The readers of the agent handle store: the schema-free lookup of the session owner
  (packages/eve/src/subagents/handles/query.ts), which walks the raw JSON, and the agent
  listing rendered into the conversation (packages/eve/src/subagents/handles/prompt.ts).
\<close>

section \<open>Schema-free lookup of the running handle\<close>

datatype js_type_error = TypeError

text \<open>Reading a property: \<open>null\<close> throws, other non-objects have none of these properties.\<close>

fun read_property :: "json \<Rightarrow> string \<Rightarrow> js_type_error + json option" where
  "read_property JNull k = Inl TypeError"
| "read_property (JObj es) k = Inr (map_of es k)"
| "read_property _ k = Inr None"

definition read_agent_handles :: "session_state option \<Rightarrow> js_type_error + json list" where
  "read_agent_handles st =
     (case state_get st AGENT_HANDLES_STATE_KEY of
        None \<Rightarrow> Inr []
      | Some raw \<Rightarrow>
          (case read_property raw ''handles'' of
             Inl e \<Rightarrow> Inl e
           | Inr (Some (JArr hs)) \<Rightarrow> Inr hs
           | Inr _ \<Rightarrow> Inr []))"

definition runs_call :: "string \<Rightarrow> json \<Rightarrow> js_type_error + bool" where
  "runs_call call h =
     (case read_property h ''phase'' of
        Inl e \<Rightarrow> Inl e
      | Inr phase \<Rightarrow>
          if phase \<noteq> Some (JStr ''running'') then Inr False
          else (case read_property h ''operation'' of
                  Inl e \<Rightarrow> Inl e
                | Inr None \<Rightarrow> Inl TypeError
                | Inr (Some op) \<Rightarrow>
                    (case read_property op ''callId'' of
                       Inl e \<Rightarrow> Inl e | Inr c \<Rightarrow> Inr (c = Some (JStr call)))))"

fun find_raw :: "('a \<Rightarrow> 'e + bool) \<Rightarrow> 'a list \<Rightarrow> 'e + 'a option" where
  "find_raw P [] = Inr None"
| "find_raw P (x # xs) =
     (case P x of Inl e \<Rightarrow> Inl e | Inr b \<Rightarrow> if b then Inr (Some x) else find_raw P xs)"

definition find_running_agent_handle ::
    "session_state option \<Rightarrow> string \<Rightarrow> js_type_error + json option" where
  "find_running_agent_handle st call =
     (case read_agent_handles st of Inl e \<Rightarrow> Inl e | Inr hs \<Rightarrow> find_raw (runs_call call) hs)"

text \<open>The part of a runtime action result the admission of results reads.\<close>

datatype action_result =
    SubagentResult (result_call: string) (from_dispatch: bool) (background_task: bool)
  | OtherResult

definition is_result_bound_to_running_handle ::
    "session_state option \<Rightarrow> action_result \<Rightarrow> js_type_error + bool" where
  "is_result_bound_to_running_handle st result =
     (case result of
        OtherResult \<Rightarrow> Inr True
      | SubagentResult call dispatch background \<Rightarrow>
          if dispatch \<or> background then Inr True
          else map_sum id (\<lambda>h. h \<noteq> None) (find_running_agent_handle st call))"

definition is_inbox_subagent_result_from_running_handle ::
    "session_state option \<Rightarrow> string \<Rightarrow> js_type_error + bool" where
  "is_inbox_subagent_result_from_running_handle st call =
     map_sum id (\<lambda>h. h \<noteq> None) (find_running_agent_handle st call)"

fun runs_typed_call :: "string \<Rightarrow> agent_handle \<Rightarrow> bool" where
  "runs_typed_call call (Running i p a) = (op_call_id p = call)"
| "runs_typed_call call _ = False"

lemma runs_call_encode: "runs_call call (encode_handle h) = Inr (runs_typed_call call h)"
proof (cases h)
  case (Running i p a)
  then show ?thesis by (cases p) (auto simp: runs_call_def)
qed (auto simp: runs_call_def)

lemma find_raw_encode:
  "find_raw (runs_call call) (map encode_handle hs)
     = Inr (map_option encode_handle (List.find (runs_typed_call call) hs))"
  by (induction hs) (simp_all add: runs_call_encode)

section \<open>The agent listing\<close>

definition AGENTS_SNIPPET_LABEL :: string where
  "AGENTS_SNIPPET_LABEL = ''[Agents]''"

text \<open>\<open>replaceAll\<close> with a one character pattern, and the four replacements in the code's order.\<close>

definition replace_char :: "char \<Rightarrow> string \<Rightarrow> string \<Rightarrow> string" where
  "replace_char c rep s = concat (map (\<lambda>x. if x = c then rep else [x]) s)"

definition escape_xml :: "string \<Rightarrow> string" where
  "escape_xml v =
     replace_char CHR ''>'' ''&gt;''
       (replace_char CHR ''<'' ''&lt;''
         (replace_char CHR 0x22 ''&quot;'' (replace_char CHR ''&'' ''&amp;'' v)))"

fun is_idle :: "agent_handle \<Rightarrow> bool" where
  "is_idle (Available i a) = True"
| "is_idle (Parked i a s) = True"
| "is_idle _ = False"

definition project_parked_agent_handles :: "handle_store \<Rightarrow> agent_handle list" where
  "project_parked_agent_handles store = filter is_idle store"

definition quoted :: "string \<Rightarrow> string" where
  "quoted s = CHR 0x22 # s @ [CHR 0x22]"

definition render_agent :: "agent_handle \<Rightarrow> string" where
  "render_agent h =
     (let status = (case h of Parked i a s \<Rightarrow> s | _ \<Rightarrow> ''(available)'')
      in ''<agent id='' @ quoted (escape_xml (handle_id h))
         @ '' name='' @ quoted (escape_xml (identity_name (handle_identity h))) @ ''>''
         @ escape_xml (if status = [] then ''(no status)'' else status) @ ''</agent>'')"

definition join_lines :: "string list \<Rightarrow> string" where
  "join_lines ls = intercalate [CHR 0x0A] ls"

definition render_agents_snippet :: "handle_store \<Rightarrow> string" where
  "render_agents_snippet store =
     join_lines ([AGENTS_SNIPPET_LABEL, ''<agents>'']
       @ map render_agent (project_parked_agent_handles store) @ [''</agents>''])"

datatype availability = IsAvailable | IsBusy
datatype view_status = ViewWorking | ViewInputRequired

record agent_view =
  view_availability :: availability
  view_id :: string
  view_name :: string
  view_status_line :: "string option"
  view_task_id :: "string option"
  view_task_status :: "view_status option"

fun availability_text :: "availability \<Rightarrow> string" where
  "availability_text IsAvailable = ''available''"
| "availability_text IsBusy = ''busy''"

fun view_status_text :: "view_status \<Rightarrow> string" where
  "view_status_text ViewWorking = ''working''"
| "view_status_text ViewInputRequired = ''input_required''"

definition render_agent_view :: "agent_view \<Rightarrow> string" where
  "render_agent_view v =
     (let task = (case (view_task_id v, view_task_status v) of
                    (Some t, Some st) \<Rightarrow>
                      '' taskId='' @ quoted (escape_xml t) @ '' taskStatus='' @ quoted (view_status_text st)
                  | _ \<Rightarrow> []);
          status = (case view_status_line v of
                      Some s \<Rightarrow> s
                    | None \<Rightarrow> if view_availability v = IsBusy then ''(busy)'' else ''(available)'')
      in ''<agent id='' @ quoted (escape_xml (view_id v)) @ '' name='' @ quoted (escape_xml (view_name v))
         @ '' availability='' @ quoted (availability_text (view_availability v)) @ task @ ''>''
         @ escape_xml status @ ''</agent>'')"

definition render_agent_views_snippet :: "agent_view list \<Rightarrow> string" where
  "render_agent_views_snippet views =
     join_lines ([AGENTS_SNIPPET_LABEL, ''<agents>''] @ map render_agent_view views @ [''</agents>''])"

text \<open>Model messages: their role, and a content that is a text or a list of parts.\<close>

datatype message_role = UserRole | AssistantRole | SystemRole | ToolRole
datatype message_content = TextContent string | PartsContent "json list"

record model_message =
  message_role :: message_role
  message_content :: message_content

fun is_announcement :: "model_message \<Rightarrow> bool" where
  "is_announcement msg =
     (message_role msg = UserRole
      \<and> (case message_content msg of
           TextContent t \<Rightarrow> prefix AGENTS_SNIPPET_LABEL t | PartsContent _ \<Rightarrow> False))"

definition resolve_agents_announcement ::
    "agent_view list option \<Rightarrow> model_message list \<Rightarrow> handle_store option \<Rightarrow> string option" where
  "resolve_agents_announcement views msgs store =
     (let latest = List.find is_announcement (rev msgs);
          hs = (case store of None \<Rightarrow> [] | Some s \<Rightarrow> s);
          visible = (case views of
                       Some vs \<Rightarrow> length vs | None \<Rightarrow> length (project_parked_agent_handles hs))
      in if latest = None \<and> visible = 0 then None
         else
           (let rendered = (case views of
                              None \<Rightarrow> render_agents_snippet hs
                            | Some vs \<Rightarrow> render_agent_views_snippet vs)
            in if map_option message_content latest = Some (TextContent rendered) then None
               else Some rendered))"

text \<open>Character-wise reading of the escaping.\<close>

definition escape_xml_char :: "char \<Rightarrow> string" where
  "escape_xml_char c =
     (if c = CHR ''&'' then ''&amp;'' else if c = CHR 0x22 then ''&quot;''
      else if c = CHR ''<'' then ''&lt;'' else if c = CHR ''>'' then ''&gt;'' else [c])"

lemma replace_char_append: "replace_char c rep (s @ t) = replace_char c rep s @ replace_char c rep t"
  by (simp add: replace_char_def)

lemma escape_xml_Nil [simp]: "escape_xml [] = []"
  by (simp add: escape_xml_def replace_char_def)

lemma escape_xml_append: "escape_xml (s @ t) = escape_xml s @ escape_xml t"
  by (simp add: escape_xml_def replace_char_append)

lemma escape_xml_single: "escape_xml [c] = escape_xml_char c"
  by (simp add: escape_xml_def replace_char_def escape_xml_char_def)

lemma escape_xml_Cons: "escape_xml (c # s) = escape_xml_char c @ escape_xml s"
  using escape_xml_append [of "[c]" s] by (simp add: escape_xml_single)

lemma escape_xml_safe:
  "CHR ''<'' \<notin> set (escape_xml s) \<and> CHR ''>'' \<notin> set (escape_xml s) \<and> CHR 0x22 \<notin> set (escape_xml s)"
  by (induction s) (auto simp: escape_xml_Cons escape_xml_char_def)

lemma escape_xml_char_prefix_free:
  "escape_xml_char c @ s = escape_xml_char d @ t \<Longrightarrow> c = d \<and> s = t"
  by (auto simp: escape_xml_char_def split: if_splits)

lemma escape_xml_char_nonempty [simp]: "escape_xml_char c \<noteq> []"
  by (simp add: escape_xml_char_def)

lemma escape_xml_injective: "escape_xml s = escape_xml t \<longleftrightarrow> s = t"
proof (induction s arbitrary: t)
  case Nil
  then show ?case by (cases t) (simp_all add: escape_xml_Cons)
next
  case (Cons c s)
  then show ?case
    by (cases t) (auto simp: escape_xml_Cons dest: escape_xml_char_prefix_free)
qed

lemma rendered_label:
  "prefix AGENTS_SNIPPET_LABEL (render_agents_snippet hs)"
  "prefix AGENTS_SNIPPET_LABEL (render_agent_views_snippet vs)"
  by (simp_all add: render_agents_snippet_def render_agent_views_snippet_def join_lines_def
      AGENTS_SNIPPET_LABEL_def)

section \<open>Properties\<close>

text \<open>The schema-free reader agrees with the typed store: on every session reached by
  store operations it never throws and finds exactly the first running handle whose recorded
  operation carries the call, so an inbox result is admitted iff such a handle exists.\<close>

lemma query_agrees_with_store:
  assumes "write_handles url_ok session hs = Inr session'"
  shows "find_running_agent_handle (state session') call
           = Inr (map_option encode_handle (List.find (runs_typed_call call) hs))
       \<and> is_inbox_subagent_result_from_running_handle (state session') call
           = Inr (\<exists>h \<in> set hs. runs_typed_call call h)"
proof -
  have "read_agent_handles (state session') = Inr (map encode_handle hs)"
    using assms by (auto simp: write_handles_eq read_agent_handles_def encode_store_def split: if_splits)
  then have "find_running_agent_handle (state session') call
      = Inr (map_option encode_handle (List.find (runs_typed_call call) hs))"
    by (simp add: find_running_agent_handle_def find_raw_encode)
  moreover have "(List.find (runs_typed_call call) hs \<noteq> None) = (\<exists>h \<in> set hs. runs_typed_call call h)"
    by (auto simp: find_None_iff)
  ultimately show ?thesis
    by (simp add: is_inbox_subagent_result_from_running_handle_def)
qed

theorem query_agrees_with_store_witness:
  "is_inbox_subagent_result_from_running_handle
     (Some (state_put None AGENT_HANDLES_STATE_KEY
        (encode_store [Running example_identity (StartOp example_operation) (LocalAddress ''s'' ''tok'')])))
     ''c'' = Inr True"
proof -
  have "write_handles (\<lambda>_. True) empty_session
      [Running example_identity (StartOp example_operation) (LocalAddress ''s'' ''tok'')]
    = Inr (empty_session\<lparr>state := Some (state_put None AGENT_HANDLES_STATE_KEY
        (encode_store [Running example_identity (StartOp example_operation) (LocalAddress ''s'' ''tok'')]))\<rparr>)"
    by (simp add: write_handles_eq store_ok_def identity_ok_def example_identity_def
        start_operation_ok_def example_operation_def empty_session_def)
  from query_agrees_with_store [OF this, of "''c''"] show ?thesis
    by (simp add: example_operation_def)
qed

text \<open>The announcement of the agent listing is stable: once the rendered listing has been
  appended as a user message, resolving again announces nothing, whatever assistant or tool
  messages follow it.\<close>

lemma announcement_idempotent:
  assumes "resolve_agents_announcement views msgs store = Some text"
    and "\<forall>msg \<in> set later. \<not> is_announcement msg"
  shows "resolve_agents_announcement views
           (msgs @ \<lparr>message_role = UserRole, message_content = TextContent text\<rparr> # later) store = None"
proof -
  let ?a = "\<lparr>message_role = UserRole, message_content = TextContent text\<rparr>"
  have shown: "text = (case views of None \<Rightarrow> render_agents_snippet (case store of None \<Rightarrow> [] | Some s \<Rightarrow> s)
                        | Some vs \<Rightarrow> render_agent_views_snippet vs)"
    using assms(1) by (auto simp: resolve_agents_announcement_def Let_def split: if_splits)
  then have "is_announcement ?a" by (auto simp: rendered_label split: option.splits)
  moreover have "List.find is_announcement (rev later @ ?a # rest) = Some ?a" if "is_announcement ?a" for rest
    using assms(2) that by (induction later rule: rev_induct) auto
  ultimately have "List.find is_announcement (rev (msgs @ ?a # later)) = Some ?a" by simp
  with shown show ?thesis
    by (simp add: resolve_agents_announcement_def Let_def del: is_announcement.simps)
qed

theorem announcement_idempotent_witness:
  "resolve_agents_announcement (Some []) 
     ([\<lparr>message_role = UserRole, message_content = TextContent ''[Agents] old''\<rparr>] @
      [\<lparr>message_role = UserRole, message_content = TextContent (render_agent_views_snippet [])\<rparr>]) None = None"
  by (rule announcement_idempotent)
    (simp_all add: resolve_agents_announcement_def AGENTS_SNIPPET_LABEL_def
      render_agent_views_snippet_def join_lines_def)

text \<open>Text taken from a child cannot inject markup into the listing: the escaped form holds
  no angle bracket and no quote, and escaping loses nothing because it is injective.\<close>

lemma escape_xml_no_markup:
  "CHR ''<'' \<notin> set (escape_xml s) \<and> CHR ''>'' \<notin> set (escape_xml s) \<and> CHR 0x22 \<notin> set (escape_xml s)
   \<and> (escape_xml s = escape_xml t \<longleftrightarrow> s = t)"
  using escape_xml_safe escape_xml_injective by blast

end
