(* ===== verification/Task_Lifecycle.thy ===== *)
theory Task_Lifecycle
  imports Json_Value Eve_Prelude
begin

text \<open>
  Background tasks (packages/eve/src/tasks/): the durable view and its commands (types.ts), the
  transition function (transitions.ts), the failure output it stores
  (execution/tools/workflow/owner-inbox.ts), the notification text (notification.ts), the
  delivery policy (delivery-policy.ts) and the derived identifiers (task-id.ts). The SHA-256
  digest is a parameter.
\<close>

section \<open>Views and commands (types.ts)\<close>

datatype task_status = WorkingStatus | InputRequiredStatus | CompletedStatus | FailedTask | CancelledStatus

fun task_status_text :: "task_status \<Rightarrow> string" where
  "task_status_text WorkingStatus = ''working''"
| "task_status_text InputRequiredStatus = ''input_required''"
| "task_status_text CompletedStatus = ''completed''"
| "task_status_text FailedTask = ''failed''"
| "task_status_text CancelledStatus = ''cancelled''"

text \<open>Metadata are the JSON object with at least \<open>kind\<close> and \<open>name\<close>.\<close>

record task_metadata =
  task_kind :: string
  task_name :: string
  task_other :: "(string \<times> json) list"

definition metadata_object :: "task_metadata \<Rightarrow> json" where
  "metadata_object m = JObj ((''kind'', JStr (task_kind m)) # (''name'', JStr (task_name m)) # task_other m)"

definition same_task_metadata :: "task_metadata \<Rightarrow> task_metadata \<Rightarrow> bool" where
  "same_task_metadata a b = json_values_equal (metadata_object a) (metadata_object b)"

record task_usage =
  task_cache_read :: int
  task_cache_write :: int
  task_cost :: "int option"
  task_input :: int
  task_output :: int

definition read_usage_axis :: "(string \<times> json) list \<Rightarrow> string \<Rightarrow> int option" where
  "read_usage_axis es key =
     (case map_of es key of Some (JNum n) \<Rightarrow> if 0 \<le> n then Some n else None | _ \<Rightarrow> None)"

fun read_task_usage :: "json \<Rightarrow> task_usage option" where
  "read_task_usage (JObj es) =
     (case (read_usage_axis es ''cacheReadTokens'', read_usage_axis es ''cacheWriteTokens'',
            read_usage_axis es ''inputTokens'', read_usage_axis es ''outputTokens'') of
        (Some r, Some w, Some i, Some out) \<Rightarrow>
          Some \<lparr>task_cache_read = r, task_cache_write = w, task_cost = read_usage_axis es ''costUsd'',
                task_input = i, task_output = out\<rparr>
      | _ \<Rightarrow> None)"
| "read_task_usage _ = None"

fun read_task_input_request_id :: "json \<Rightarrow> string option" where
  "read_task_input_request_id (JObj es) =
     (case map_of es ''requestId'' of Some (JStr i) \<Rightarrow> Some i | _ \<Rightarrow> None)"
| "read_task_input_request_id _ = None"

datatype task_progress =
    Working
  | InputRequired "json list"
  | TaskCompleted json
  | TaskFailed json
  | TaskCancelled

record task_view =
  task_id :: string
  task_metadata :: task_metadata
  task_usage_of :: "task_usage option"
  task_progress :: task_progress

fun progress_status :: "task_progress \<Rightarrow> task_status" where
  "progress_status Working = WorkingStatus"
| "progress_status (InputRequired rs) = InputRequiredStatus"
| "progress_status (TaskCompleted out) = CompletedStatus"
| "progress_status (TaskFailed out) = FailedTask"
| "progress_status TaskCancelled = CancelledStatus"

definition view_status :: "task_view \<Rightarrow> task_status" where
  "view_status v = progress_status (task_progress v)"

definition is_terminal_task_status :: "task_status \<Rightarrow> bool" where
  "is_terminal_task_status s \<longleftrightarrow> s = CompletedStatus \<or> s = FailedTask \<or> s = CancelledStatus"

definition is_ready_task_status :: "task_status \<Rightarrow> bool" where
  "is_ready_task_status s \<longleftrightarrow> s = InputRequiredStatus \<or> is_terminal_task_status s"

datatype authorization_event =
    CandidateEvent string
  | SettledEvent string
  | ChallengeEvent "string option" string

fun task_authorization_request_id :: "authorization_event \<Rightarrow> string" where
  "task_authorization_request_id (CandidateEvent r) = ''task:authorization:'' @ r"
| "task_authorization_request_id (SettledEvent r) = ''task:authorization:'' @ r"
| "task_authorization_request_id (ChallengeEvent attempt name) =
     ''task:authorization:'' @ (case attempt of Some a \<Rightarrow> a | None \<Rightarrow> name)"

section \<open>Failure output (owner-inbox.ts)\<close>

text \<open>
  The error of a failed run is an arbitrary value. The code observes it in three ways: its JSON
  normalisation, a string property \<open>message\<close>, and its conversion by \<open>String\<close>.
\<close>

record run_error =
  error_json :: "json option"
  error_message_property :: "string option"
  error_string :: string

datatype run_outcome =
    RunCompleted json
  | RunFailed run_error
  | RunCancelled "string option"

definition error_message_of :: "run_error \<Rightarrow> string" where
  "error_message_of e = (case error_message_property e of Some m \<Rightarrow> m | None \<Rightarrow> error_string e)"

definition workflow_tool_run_failure_output :: "run_error \<Rightarrow> json" where
  "workflow_tool_run_failure_output e =
     (case error_json e of
        Some (JObj es) \<Rightarrow>
          (case map_of es ''code'' of Some (JStr c) \<Rightarrow> JObj es | _ \<Rightarrow> JStr (error_message_of e))
      | _ \<Rightarrow> JStr (error_message_of e))"

record tool_result =
  tool_result_call :: string
  tool_result_error :: bool
  tool_result_output :: json
  tool_result_name :: string

definition workflow_tool_run_outcome_to_tool_result :: "string \<Rightarrow> string \<Rightarrow> run_outcome \<Rightarrow> tool_result" where
  "workflow_tool_run_outcome_to_tool_result call tool result =
     (case result of
        RunCompleted out \<Rightarrow>
          \<lparr>tool_result_call = call, tool_result_error = False, tool_result_output = out, tool_result_name = tool\<rparr>
      | RunFailed e \<Rightarrow>
          \<lparr>tool_result_call = call, tool_result_error = True,
           tool_result_output = workflow_tool_run_failure_output e, tool_result_name = tool\<rparr>
      | RunCancelled reason \<Rightarrow>
          \<lparr>tool_result_call = call, tool_result_error = True,
           tool_result_output = JStr (case reason of Some r \<Rightarrow> r | None \<Rightarrow> ''The workflow tool run was cancelled.''),
           tool_result_name = tool\<rparr>)"

section \<open>Transitions (transitions.ts)\<close>

datatype task_command =
    RejectDispatch json
  | CancelTask "task_usage option"
  | RequireInput "json list"
  | Ready
  | Answered "string list"
  | Outcome run_outcome

fun task_command_kind :: "task_command \<Rightarrow> string" where
  "task_command_kind (RejectDispatch d) = ''reject-dispatch''"
| "task_command_kind (CancelTask u) = ''cancel''"
| "task_command_kind (RequireInput rs) = ''require-input''"
| "task_command_kind Ready = ''ready''"
| "task_command_kind (Answered ids) = ''answered''"
| "task_command_kind (Outcome r) = ''outcome''"

datatype task_transition_result =
    Accepted (result_view: task_view)
  | Noop (result_view: task_view)
  | Rejected (result_view: task_view) string

definition is_valid_input_request_batch :: "json list \<Rightarrow> bool" where
  "is_valid_input_request_batch rs \<longleftrightarrow>
     rs \<noteq> []
     \<and> (\<forall>r \<in> set rs. case read_task_input_request_id r of None \<Rightarrow> False | Some i \<Rightarrow> i \<noteq> [])
     \<and> distinct (map read_task_input_request_id rs)"

definition in_quotes :: "string \<Rightarrow> string" where
  "in_quotes s = [CHR 0x22] @ s @ [CHR 0x22]"

definition terminal_reason :: "task_view \<Rightarrow> task_command \<Rightarrow> string" where
  "terminal_reason v c =
     ''Task '' @ in_quotes (task_id v) @ '' is already '' @ task_status_text (view_status v)
       @ ''; '' @ in_quotes (task_command_kind c) @ '' cannot change a terminal task.''"

definition base_view :: "task_view \<Rightarrow> task_progress \<Rightarrow> task_view" where
  "base_view v p = \<lparr>task_id = task_id v, task_metadata = task_metadata v, task_usage_of = None, task_progress = p\<rparr>"

definition is_unanswered :: "string list \<Rightarrow> json \<Rightarrow> bool" where
  "is_unanswered ids r \<longleftrightarrow>
     (case read_task_input_request_id r of None \<Rightarrow> True | Some i \<Rightarrow> i \<notin> set ids)"

definition apply_task_transition :: "task_view \<Rightarrow> task_command \<Rightarrow> task_transition_result" where
  "apply_task_transition v c =
     (if is_terminal_task_status (view_status v) then
        (case c of
           CancelTask u \<Rightarrow>
             if view_status v = CancelledStatus then Noop v else Rejected v (terminal_reason v c)
         | _ \<Rightarrow> Rejected v (terminal_reason v c))
      else
        (case c of
           Outcome (RunCompleted out) \<Rightarrow> Accepted (base_view v (TaskCompleted out))
         | Outcome (RunFailed e) \<Rightarrow> Accepted (base_view v (TaskFailed (workflow_tool_run_failure_output e)))
         | Outcome (RunCancelled reason) \<Rightarrow> Accepted (base_view v TaskCancelled)
         | RejectDispatch d \<Rightarrow> Accepted (base_view v (TaskFailed d))
         | CancelTask u \<Rightarrow> Accepted ((base_view v TaskCancelled)\<lparr>task_usage_of := u\<rparr>)
         | RequireInput rs \<Rightarrow>
             if \<not> is_valid_input_request_batch rs
             then Rejected v (''Task '' @ in_quotes (task_id v) @ '' received an invalid input request batch.'')
             else Accepted (base_view v (InputRequired rs))
         | Ready \<Rightarrow> Accepted v
         | Answered ids \<Rightarrow>
             (case task_progress v of
                InputRequired rs \<Rightarrow>
                  (let remaining = filter (is_unanswered ids) rs
                   in if length remaining = length rs then Noop v
                      else if remaining \<noteq> [] then Accepted (v\<lparr>task_progress := InputRequired remaining\<rparr>)
                      else Accepted (base_view v Working))
              | _ \<Rightarrow> Noop v)))"

section \<open>Notification (notification.ts)\<close>

fun format_task_output :: "json \<Rightarrow> string" where
  "format_task_output (JStr s) = s"
| "format_task_output v = json_stringify v"

definition line_break :: string where
  "line_break = [CHR 0x0A]"

definition format_task_notification :: "task_view \<Rightarrow> string" where
  "format_task_notification v =
     (let subject = ''Background task '' @ task_id v @ '' ('' @ task_name (task_metadata v) @ '')''
      in case task_progress v of
           InputRequired rs \<Rightarrow> subject @ '' needs input.''
         | TaskCompleted out \<Rightarrow>
             subject @ '' is completed.'' @ line_break @ line_break @ ''Result:'' @ line_break @ format_task_output out
         | TaskFailed out \<Rightarrow>
             subject @ '' failed.'' @ line_break @ line_break @ ''Error:'' @ line_break @ format_task_output out
         | _ \<Rightarrow> subject @ '' is cancelled.'')"

section \<open>Delivery policy (delivery-policy.ts)\<close>

text \<open>The instruction texts are constants of other files, named here.\<close>

datatype delivery_instruction = ConditionalInstruction | InitiatingInstruction | SettledInstruction

record delivery_response_policy =
  allows_empty_delivery :: bool
  policy_instruction :: "delivery_instruction option"

datatype task_delivery_phase = NoPhase | InitiatingPhase | PendingPhase | SettledPhase

definition resolve_delivery_policy ::
    "bool \<Rightarrow> bool \<Rightarrow> bool \<Rightarrow> bool \<Rightarrow> task_delivery_phase option \<Rightarrow> delivery_response_policy" where
  "resolve_delivery_policy has_output_schema is_child is_first_turn has_schedule_provenance phase =
     (let normal = \<lparr>allows_empty_delivery = False, policy_instruction = None\<rparr>
      in if has_output_schema \<or> is_child then normal
         else if phase = Some PendingPhase then \<lparr>allows_empty_delivery = True, policy_instruction = None\<rparr>
         else if phase = Some SettledPhase
           then \<lparr>allows_empty_delivery = False, policy_instruction = Some SettledInstruction\<rparr>
         else if is_first_turn \<and> has_schedule_provenance
           then \<lparr>allows_empty_delivery = True, policy_instruction = Some ConditionalInstruction\<rparr>
         else if phase = Some InitiatingPhase
           then \<lparr>allows_empty_delivery = False, policy_instruction = Some InitiatingInstruction\<rparr>
         else normal)"

section \<open>Identifiers (task-id.ts)\<close>

definition derive_task_id :: "(string \<Rightarrow> string) \<Rightarrow> string \<Rightarrow> string \<Rightarrow> string \<Rightarrow> string" where
  "derive_task_id sha256_hex call parent_session parent_turn =
     ''task_'' @ take 24 (sha256_hex (parent_session @ [CHR 0x00] @ parent_turn @ [CHR 0x00] @ call))"

definition derive_task_inbox_token :: "(string \<Rightarrow> string) \<Rightarrow> string \<Rightarrow> string \<Rightarrow> string" where
  "derive_task_inbox_token sha256_hex parent_token task =
     ''task:'' @ task @ '':'' @ take 32 (sha256_hex (task @ [CHR 0x00] @ parent_token))"

section \<open>What the lifecycle guarantees\<close>

text \<open>The task as its owner runs it: a rejected or idle command leaves the view.\<close>

definition task_step :: "task_view \<Rightarrow> task_command \<Rightarrow> task_view" where
  "task_step v c = result_view (apply_task_transition v c)"

definition task_ok :: "task_view \<Rightarrow> bool" where
  "task_ok v \<longleftrightarrow> (case task_progress v of InputRequired rs \<Rightarrow> is_valid_input_request_batch rs | _ \<Rightarrow> True)"

lemma valid_batch_filter:
  "is_valid_input_request_batch rs \<Longrightarrow> filter P rs \<noteq> [] \<Longrightarrow> is_valid_input_request_batch (filter P rs)"
  by (simp add: is_valid_input_request_batch_def distinct_map_filter)

lemma task_step_ok: "task_ok v \<Longrightarrow> task_ok (task_step v c)"
  by (auto simp: task_step_def apply_task_transition_def task_ok_def base_view_def Let_def
      valid_batch_filter split: task_command.split run_outcome.split task_progress.splits)

interpretation task_machine: invariant_machine task_step task_ok
  by unfold_locales (rule task_step_ok)

lemma task_step_identity: "task_id (task_step v c) = task_id v \<and> task_metadata (task_step v c) = task_metadata v"
  by (auto simp: task_step_def apply_task_transition_def base_view_def Let_def
      split: task_command.split run_outcome.split task_progress.splits)

lemma task_run_identity:
  "task_id (foldl task_step v cs) = task_id v \<and> task_metadata (foldl task_step v cs) = task_metadata v"
  by (induction cs arbitrary: v) (simp_all add: task_step_identity)

lemma terminal_step: "is_terminal_task_status (view_status v) \<Longrightarrow> task_step v c = v"
  by (auto simp: task_step_def apply_task_transition_def split: task_command.split)

lemma terminal_run: "is_terminal_task_status (view_status v) \<Longrightarrow> foldl task_step v cs = v"
  by (induction cs) (simp_all add: terminal_step)

text \<open>A settled task is final. Whatever commands arrive after the first that settled it, the view is
  the one of that moment, so its output is delivered unchanged; and over every run the task keeps
  its identity and metadata and, while it waits for input, a non-empty batch of requests with
  distinct identifiers.\<close>

lemma settled_task_is_final:
  "(is_terminal_task_status (view_status (foldl task_step v (take n cs)))
      \<longrightarrow> foldl task_step v cs = foldl task_step v (take n cs))
   \<and> task_id (foldl task_step v cs) = task_id v \<and> task_metadata (foldl task_step v cs) = task_metadata v
   \<and> (task_ok v \<longrightarrow> task_ok (foldl task_step v cs))"
proof -
  have "foldl task_step v cs = foldl task_step (foldl task_step v (take n cs)) (drop n cs)"
    by (metis append_take_drop_id foldl_append)
  then show ?thesis using terminal_run task_run_identity task_machine.run_inv by metis
qed

definition sample_view :: "task_progress \<Rightarrow> task_view" where
  "sample_view p = \<lparr>task_id = ''t'', task_metadata = \<lparr>task_kind = ''k'', task_name = ''n'', task_other = []\<rparr>,
     task_usage_of = None, task_progress = p\<rparr>"

theorem settled_task_is_final_witness:
  "foldl task_step (sample_view Working) [CancelTask None, Outcome (RunCompleted JNull)] = sample_view TaskCancelled"
proof -
  have t: "foldl task_step (sample_view Working) (take 1 [CancelTask None, Outcome (RunCompleted JNull)])
      = sample_view TaskCancelled" by code_simp
  have "is_terminal_task_status (view_status (sample_view TaskCancelled))" by code_simp
  with settled_task_is_final [of "sample_view Working" 1 "[CancelTask None, Outcome (RunCompleted JNull)]"] t
  show ?thesis by simp
qed

lemma answered_step:
  assumes "task_progress v = InputRequired rs" and "rs \<noteq> []"
  shows "task_step v (Answered ids) =
    (if filter (is_unanswered ids) rs = [] then base_view v Working
     else v\<lparr>task_progress := InputRequired (filter (is_unanswered ids) rs)\<rparr>)"
proof (cases "length (filter (is_unanswered ids) rs) = length rs")
  case True
  then have "filter (is_unanswered ids) rs = rs" by (metis filter_id_conv length_filter_less less_irrefl)
  with assms True show ?thesis
    by (simp add: task_step_def apply_task_transition_def view_status_def is_terminal_task_status_def)
next
  case False
  with assms show ?thesis
    by (simp add: task_step_def apply_task_transition_def view_status_def is_terminal_task_status_def Let_def)
qed

lemma working_answered: "task_progress v = Working \<Longrightarrow> task_step v (Answered ids) = v"
  by (simp add: task_step_def apply_task_transition_def view_status_def is_terminal_task_status_def)

lemma working_answered_run: "task_progress v = Working \<Longrightarrow> foldl task_step v (map Answered idss) = v"
  by (induction idss) (simp_all add: working_answered)

lemma unanswered_append: "is_unanswered (a @ b) r \<longleftrightarrow> is_unanswered a r \<and> is_unanswered b r"
  by (auto simp: is_unanswered_def split: option.split)

text \<open>C10: Answers are order-insensitive: however the answered identifiers of a waiting task are grouped,
  repeated and ordered over the commands, the task waits exactly for the requests no command
  answered, and it is working again as soon as none is left.\<close>

theorem answers_in_any_order:
  assumes "task_progress v = InputRequired rs" and "rs \<noteq> []"
  shows "task_progress (foldl task_step v (map Answered idss)) =
    (if filter (is_unanswered (concat idss)) rs = [] then Working
     else InputRequired (filter (is_unanswered (concat idss)) rs))"
  using assms
proof (induction idss arbitrary: v rs)
  case Nil
  have "filter (is_unanswered []) rs = rs"
    by (simp add: is_unanswered_def filter_id_conv split: option.split)
  with Nil show ?case by simp
next
  case (Cons ids idss)
  let ?rest = "filter (is_unanswered ids) rs"
  have split: "filter (is_unanswered (ids @ concat idss)) rs = filter (is_unanswered (concat idss)) ?rest"
    unfolding filter_filter by (rule filter_cong) (simp_all add: unanswered_append)
  show ?case
  proof (cases "?rest = []")
    case True
    then have "filter (is_unanswered (ids @ concat idss)) rs = []" unfolding split by simp
    with True Cons.prems show ?thesis
      by (simp add: answered_step working_answered_run base_view_def)
  next
    case False
    let ?v = "v\<lparr>task_progress := InputRequired ?rest\<rparr>"
    have "task_step v (Answered ids) = ?v" using False Cons.prems by (simp add: answered_step)
    with Cons.IH [of ?v ?rest] False show ?thesis unfolding concat.simps split by simp
  qed
qed

definition sample_request :: "string \<Rightarrow> json" where
  "sample_request i = JObj [(''requestId'', JStr i)]"

theorem answers_in_any_order_witness:
  "task_progress (foldl task_step (sample_view (InputRequired [sample_request ''a'', sample_request ''b'']))
     (map Answered [[''b''], [''a'', ''b'']])) = Working"
proof -
  let ?v = "sample_view (InputRequired [sample_request ''a'', sample_request ''b''])"
  have p: "task_progress ?v = InputRequired [sample_request ''a'', sample_request ''b'']"
    and "[sample_request ''a'', sample_request ''b''] \<noteq> []" by (simp_all add: sample_view_def)
  from answers_in_any_order [OF this, of "[[''b''], [''a'', ''b'']]"] show ?thesis
    by (simp add: is_unanswered_def sample_request_def)
qed

end
