(* ===== verification/Workflow_Runs.thy ===== *)
theory Workflow_Runs
  imports Task_Lifecycle Handle_Store
begin

text \<open>
  The registry of workflow tool runs a session keeps in its state
  (packages/eve/src/harness/workflow-tool-runs.ts), the cohorts of its background tasks
  (tasks/session-task-cohorts.ts) and the model context a task delivery gets
  (tasks/delivery-context.ts). The registry is a JSON value that every read validates. Runs are
  typed; the keys the code does not name, which its copies retain, are not modelled. A checkpoint
  holds JSON only, so the constructor test of \<open>isRecord\<close> is the test for an object.
\<close>

section \<open>Runs and their schema\<close>

record workflow_task =
  wt_id :: string
  wt_metadata :: task_metadata
  wt_dispatch :: json
  wt_activity :: "json option"
  wt_cohort :: "string option"
  wt_outcome :: "json option"

datatype run_lifetime = TurnLifetime | SessionLifetime workflow_task

record workflow_run =
  wr_call :: string
  wr_tool :: string
  wr_turn :: string
  wr_step :: nat
  wr_run_id :: string
  wr_hook :: string
  wr_lifetime :: run_lifetime

definition is_string :: "json option \<Rightarrow> bool" where
  "is_string v = (case v of Some (JStr s) \<Rightarrow> True | _ \<Rightarrow> False)"

definition is_optional_string :: "json option \<Rightarrow> bool" where
  "is_optional_string v \<longleftrightarrow> v = None \<or> is_string v"

definition is_optional_object :: "json option \<Rightarrow> bool" where
  "is_optional_object v \<longleftrightarrow> v = None \<or> is_json_object_value v"

definition only_keys :: "(string \<times> json) list \<Rightarrow> string list \<Rightarrow> bool" where
  "only_keys es ks \<longleftrightarrow> list_all (\<lambda>(k, v). List.member ks k) es"

fun is_attribute :: "json \<Rightarrow> bool" where
  "is_attribute (JStr s) = True"
| "is_attribute (JArr vs) = list_all (\<lambda>v. is_string (Some v)) vs"
| "is_attribute _ = False"

fun is_session_auth_context :: "json option \<Rightarrow> bool" where
  "is_session_auth_context (Some JNull) = True"
| "is_session_auth_context (Some (JObj es)) =
     (only_keys es [''attributes'', ''authenticator'', ''issuer'', ''principalId'', ''principalType'', ''subject'']
      \<and> (case map_of es ''attributes'' of Some (JObj as) \<Rightarrow> list_all (\<lambda>(k, v). is_attribute v) as | _ \<Rightarrow> False)
      \<and> is_string (map_of es ''authenticator'') \<and> is_string (map_of es ''principalId'')
      \<and> is_string (map_of es ''principalType'')
      \<and> is_optional_string (map_of es ''issuer'') \<and> is_optional_string (map_of es ''subject''))"
| "is_session_auth_context _ = False"

fun is_task_agent_dispatch_context :: "json \<Rightarrow> bool" where
  "is_task_agent_dispatch_context (JObj es) =
     (only_keys es [''auth'', ''sessionDynamicSubagentSelections'', ''turnDynamicSubagentSelections'']
      \<and> (case map_of es ''auth'' of
           Some (JObj as) \<Rightarrow> only_keys as [''current'', ''initiator'']
             \<and> is_session_auth_context (map_of as ''current'') \<and> is_session_auth_context (map_of as ''initiator'')
         | _ \<Rightarrow> False)
      \<and> is_optional_object (map_of es ''sessionDynamicSubagentSelections'')
      \<and> is_optional_object (map_of es ''turnDynamicSubagentSelections''))"
| "is_task_agent_dispatch_context _ = False"

text \<open>\<open>parseActivityWorkIdentityV1(value) !== undefined\<close> (protocol/activity.ts).\<close>

definition bounded_text :: "nat \<Rightarrow> json option \<Rightarrow> bool" where
  "bounded_text n v = (case v of Some (JStr s) \<Rightarrow> s \<noteq> [] \<and> length s \<le> n | _ \<Rightarrow> False)"

definition optional_text :: "nat \<Rightarrow> json option \<Rightarrow> bool" where
  "optional_text n v \<longleftrightarrow> v = None \<or> bounded_text n v"

fun is_activity_work_identity :: "json \<Rightarrow> bool" where
  "is_activity_work_identity (JObj es) =
     ((case map_of es ''kind'' of
         Some (JStr k) \<Rightarrow> List.member [''root-turn'', ''subagent'', ''remote-agent'', ''task''] k | _ \<Rightarrow> False)
      \<and> bounded_text 1000 (map_of es ''id'') \<and> bounded_text 1000 (map_of es ''rootSessionId'')
      \<and> bounded_text 1000 (map_of es ''rootTurnId'') \<and> optional_text 1000 (map_of es ''callId'')
      \<and> optional_text 500 (map_of es ''label'') \<and> optional_text 500 (map_of es ''name'')
      \<and> optional_text 1000 (map_of es ''parentId'') \<and> optional_text 1000 (map_of es ''sessionId'')
      \<and> optional_text 1000 (map_of es ''turnId''))"
| "is_activity_work_identity _ = False"

definition decode_metadata :: "json option \<Rightarrow> task_metadata option" where
  "decode_metadata v =
     (case v of
        Some (JObj es) \<Rightarrow> do {
          k \<leftarrow> non_empty_string es ''kind'';
          n \<leftarrow> non_empty_string es ''name'';
          Some \<lparr>task_kind = k, task_name = n, task_other = filter (\<lambda>(k, v). k \<noteq> ''kind'' \<and> k \<noteq> ''name'') es\<rparr> }
      | _ \<Rightarrow> None)"

definition MAX_SAFE_INTEGER :: int where "MAX_SAFE_INTEGER = 2 ^ 53 - 1"

definition safe_index :: "(string \<times> json) list \<Rightarrow> string \<Rightarrow> nat option" where
  "safe_index es k =
     (case map_of es k of Some (JNum n) \<Rightarrow> if 0 \<le> n \<and> n \<le> MAX_SAFE_INTEGER then Some (nat n) else None | _ \<Rightarrow> None)"

definition decode_task :: "json option \<Rightarrow> workflow_task option" where
  "decode_task v =
     (case v of
        Some (JObj es) \<Rightarrow> do {
          i \<leftarrow> non_empty_string es ''taskId'';
          md \<leftarrow> decode_metadata (map_of es ''metadata'');
          d \<leftarrow> map_of es ''dispatchContext'';
          c \<leftarrow> optional_non_empty es ''cohortId'';
          if is_task_agent_dispatch_context d
             \<and> (case map_of es ''activityWorkIdentity'' of None \<Rightarrow> True | Some a \<Rightarrow> is_activity_work_identity a)
          then Some \<lparr>wt_id = i, wt_metadata = md, wt_dispatch = d, wt_activity = map_of es ''activityWorkIdentity'',
                     wt_cohort = c, wt_outcome = map_of es ''outcome''\<rparr>
          else None }
      | _ \<Rightarrow> None)"

definition decode_lifetime :: "(string \<times> json) list \<Rightarrow> run_lifetime option" where
  "decode_lifetime es = do {
     l \<leftarrow> literal_field es ''lifetime'';
     if l = ''turn'' then (if map_of es ''task'' = None then Some TurnLifetime else None)
     else if l = ''session'' then map_option SessionLifetime (decode_task (map_of es ''task''))
     else None }"

text \<open>\<open>isWorkflowToolRun\<close>, with the run it accepts.\<close>

fun decode_run :: "json \<Rightarrow> workflow_run option" where
  "decode_run (JObj es) =
     (case (map_of es ''origin'', map_of es ''address'') of
        (Some (JObj os), Some (JObj as)) \<Rightarrow> do {
          c \<leftarrow> non_empty_string es ''callId'';
          t \<leftarrow> non_empty_string es ''toolName'';
          turn \<leftarrow> non_empty_string os ''turnId'';
          step \<leftarrow> safe_index os ''stepIndex'';
          r \<leftarrow> non_empty_string as ''runId'';
          h \<leftarrow> non_empty_string as ''hookToken'';
          l \<leftarrow> decode_lifetime es;
          Some \<lparr>wr_call = c, wr_tool = t, wr_turn = turn, wr_step = step, wr_run_id = r, wr_hook = h,
                wr_lifetime = l\<rparr> }
      | _ \<Rightarrow> None)"
| "decode_run _ = None"

text \<open>The object literals of typed runs.\<close>

definition optional_json :: "string \<Rightarrow> json option \<Rightarrow> (string \<times> json) list" where
  "optional_json k v = (case v of None \<Rightarrow> [] | Some j \<Rightarrow> [(k, j)])"

definition encode_task :: "workflow_task \<Rightarrow> json" where
  "encode_task t = JObj ([(''taskId'', JStr (wt_id t)), (''metadata'', metadata_object (wt_metadata t)),
     (''dispatchContext'', wt_dispatch t)] @ optional_json ''activityWorkIdentity'' (wt_activity t)
     @ optional_entry ''cohortId'' (wt_cohort t) @ optional_json ''outcome'' (wt_outcome t))"

fun lifetime_entries :: "run_lifetime \<Rightarrow> (string \<times> json) list" where
  "lifetime_entries TurnLifetime = [(''lifetime'', JStr ''turn'')]"
| "lifetime_entries (SessionLifetime t) = [(''lifetime'', JStr ''session''), (''task'', encode_task t)]"

definition encode_run :: "workflow_run \<Rightarrow> json" where
  "encode_run r = JObj ([(''callId'', JStr (wr_call r)), (''toolName'', JStr (wr_tool r)),
     (''origin'', JObj [(''turnId'', JStr (wr_turn r)), (''stepIndex'', JNum (int (wr_step r)))]),
     (''address'', JObj [(''runId'', JStr (wr_run_id r)), (''hookToken'', JStr (wr_hook r))])]
     @ lifetime_entries (wr_lifetime r))"

section \<open>The registry\<close>

definition WORKFLOW_TOOL_RUNS_STATE_KEY :: string where
  "WORKFLOW_TOOL_RUNS_STATE_KEY = ''eve.workflowTool''"

definition WORKFLOW_TOOL_RUNS_VERSION :: int where "WORKFLOW_TOOL_RUNS_VERSION = 3"

datatype registry_error =
    UnsupportedState
  | InvalidVersionOrRun
  | RunIdentityTwice
  | TaskIdTwice
  | ReplayChangedIdentity
  | ReplayChangedTask
  | CorruptTaskResult string
  | InvalidTerminalView
  | ViewMetadataMismatch string

text \<open>The loop over the entries: run identities first, task ids of background runs second.\<close>

fun check_unique :: "(string \<times> string) list \<Rightarrow> string list \<Rightarrow> workflow_run list \<Rightarrow> registry_error option" where
  "check_unique identities tasks [] = None"
| "check_unique identities tasks (r # rs) =
     (if List.member identities (wr_turn r, wr_call r) then Some RunIdentityTwice
      else case wr_lifetime r of
             TurnLifetime \<Rightarrow> check_unique ((wr_turn r, wr_call r) # identities) tasks rs
           | SessionLifetime t \<Rightarrow>
               if List.member tasks (wt_id t) then Some TaskIdTwice
               else check_unique ((wr_turn r, wr_call r) # identities) (wt_id t # tasks) rs)"

definition parse_registry :: "json \<Rightarrow> registry_error + workflow_run list" where
  "parse_registry v =
     (case v of
        JObj es \<Rightarrow>
          (case (map_of es ''version'', map_of es ''runs'') of
             (Some (JNum n), Some (JArr rs)) \<Rightarrow>
               (case those (map decode_run rs) of
                  None \<Rightarrow> Inl InvalidVersionOrRun
                | Some runs \<Rightarrow>
                    if n \<noteq> WORKFLOW_TOOL_RUNS_VERSION then Inl InvalidVersionOrRun
                    else (case check_unique [] [] runs of Some e \<Rightarrow> Inl e | None \<Rightarrow> Inr runs))
           | _ \<Rightarrow> Inl InvalidVersionOrRun)
      | _ \<Rightarrow> Inl InvalidVersionOrRun)"

definition registry_object :: "workflow_run list \<Rightarrow> json" where
  "registry_object runs =
     JObj [(''version'', JNum WORKFLOW_TOOL_RUNS_VERSION), (''runs'', JArr (map encode_run runs))]"

definition read_registry :: "session_state option \<Rightarrow> registry_error + workflow_run list" where
  "read_registry st =
     (if state_get st ''eve.tasks'' \<noteq> None \<or> state_get st ''eve.runtime.workflowToolRuns'' \<noteq> None
      then Inl UnsupportedState
      else case state_get st WORKFLOW_TOOL_RUNS_STATE_KEY of
             None \<Rightarrow> Inr []
           | Some raw \<Rightarrow> parse_registry raw)"

text \<open>A state that loses its last key becomes undefined.\<close>

definition none_if_empty :: "session_state \<Rightarrow> session_state option" where
  "none_if_empty m = (if m = Map.empty then None else Some m)"

declare none_if_empty_def [code del]

definition write_registry :: "session_state option \<Rightarrow> workflow_run list \<Rightarrow> registry_error + session_state option" where
  "write_registry st runs =
     (if runs = [] then Inr (none_if_empty (state_delete st WORKFLOW_TOOL_RUNS_STATE_KEY))
      else case parse_registry (registry_object runs) of
             Inl e \<Rightarrow> Inl e
           | Inr parsed \<Rightarrow> Inr (Some (state_put st WORKFLOW_TOOL_RUNS_STATE_KEY (registry_object parsed))))"

section \<open>Outcomes\<close>

definition is_count :: "json option \<Rightarrow> bool" where
  "is_count v = (case v of Some (JNum n) \<Rightarrow> 0 \<le> n | _ \<Rightarrow> False)"

fun usage_counts_ok :: "json \<Rightarrow> bool" where
  "usage_counts_ok (JObj us) =
     (list_all (\<lambda>k. is_count (map_of us k)) [''cacheReadTokens'', ''cacheWriteTokens'', ''inputTokens'', ''outputTokens'']
      \<and> (map_of us ''costUsd'' = None \<or> is_count (map_of us ''costUsd'')))"
| "usage_counts_ok _ = False"

fun output_type :: "json option \<Rightarrow> string option" where
  "output_type (Some (JObj es)) = literal_field es ''type''"
| "output_type _ = None"

text \<open>The copy of an accepted outcome is the outcome.\<close>

fun parse_task_outcome :: "json \<Rightarrow> json option" where
  "parse_task_outcome (JObj es) =
     (if map_of es ''inputRequests'' \<noteq> None then None
      else if (case map_of es ''usage'' of None \<Rightarrow> False | Some u \<Rightarrow> \<not> usage_counts_ok u) then None
      else case literal_field es ''status'' of
             None \<Rightarrow> None
           | Some s \<Rightarrow>
               if s = ''cancelled'' then (if map_of es ''lastOutput'' \<noteq> None then None else Some (JObj es))
               else if s \<noteq> ''completed'' \<and> s \<noteq> ''failed'' then None
               else if output_type (map_of es ''lastOutput'')
                       \<noteq> Some (if s = ''completed'' then ''result'' else ''error'') then None
               else Some (JObj es))"
| "parse_task_outcome _ = None"

record workflow_view =
  wv_id :: string
  wv_metadata :: task_metadata
  wv_outcome :: json

definition read_workflow_task_view :: "workflow_task \<Rightarrow> registry_error + workflow_view option" where
  "read_workflow_task_view t =
     (case wt_outcome t of
        None \<Rightarrow> Inr None
      | Some v \<Rightarrow>
          (case parse_task_outcome v of
             None \<Rightarrow> Inl (CorruptTaskResult (wt_id t))
           | Some out \<Rightarrow> Inr (Some \<lparr>wv_id = wt_id t, wv_metadata = wt_metadata t, wv_outcome = out\<rparr>)))"

section \<open>Reads\<close>

fun background_task :: "workflow_run \<Rightarrow> workflow_task option" where
  "background_task r = (case wr_lifetime r of TurnLifetime \<Rightarrow> None | SessionLifetime t \<Rightarrow> Some t)"

definition get_workflow_tool_runs :: "session_state option \<Rightarrow> registry_error + workflow_run list" where
  "get_workflow_tool_runs st = read_registry st"

definition background_runs :: "workflow_run list \<Rightarrow> workflow_run list" where
  "background_runs runs = filter (\<lambda>r. background_task r \<noteq> None) runs"

definition get_background_workflow_tool_runs :: "session_state option \<Rightarrow> registry_error + workflow_run list" where
  "get_background_workflow_tool_runs st = map_sum id background_runs (get_workflow_tool_runs st)"

definition blocking_runs :: "string option \<Rightarrow> workflow_run list \<Rightarrow> workflow_run list" where
  "blocking_runs turn runs = filter (\<lambda>r. background_task r = None \<and> (turn = None \<or> turn = Some (wr_turn r))) runs"

definition get_blocking_workflow_tool_runs ::
    "session_state option \<Rightarrow> string option \<Rightarrow> registry_error + workflow_run list" where
  "get_blocking_workflow_tool_runs st turn = map_sum id (blocking_runs turn) (get_workflow_tool_runs st)"

definition has_task :: "string \<Rightarrow> workflow_run \<Rightarrow> bool" where
  "has_task i r = (case background_task r of None \<Rightarrow> False | Some t \<Rightarrow> wt_id t = i)"

definition find_background_workflow_tool_run ::
    "session_state option \<Rightarrow> string \<Rightarrow> registry_error + workflow_run option" where
  "find_background_workflow_tool_run st i = map_sum id (List.find (has_task i)) (get_background_workflow_tool_runs st)"

definition find_blocking_workflow_tool_run ::
    "session_state option \<Rightarrow> string \<Rightarrow> string option \<Rightarrow> registry_error + workflow_run option" where
  "find_blocking_workflow_tool_run st call turn =
     map_sum id (\<lambda>rs. case filter (\<lambda>r. wr_call r = call) rs of [r] \<Rightarrow> Some r | _ \<Rightarrow> None)
       (get_blocking_workflow_tool_runs st turn)"

definition is_inbox_tool_result_from_recorded_workflow_tool_run ::
    "session_state option \<Rightarrow> string \<Rightarrow> string \<Rightarrow> registry_error + bool" where
  "is_inbox_tool_result_from_recorded_workflow_tool_run st call tool =
     map_sum id (\<lambda>r. case r of None \<Rightarrow> False | Some x \<Rightarrow> wr_tool x = tool)
       (find_blocking_workflow_tool_run st call None)"

section \<open>Registration\<close>

text \<open>\<open>{ ...base, ...over }\<close>: the keys of \<open>base\<close> keep their place.\<close>

definition spread_entries :: "(string \<times> json) list \<Rightarrow> (string \<times> json) list \<Rightarrow> (string \<times> json) list" where
  "spread_entries base over =
     map (\<lambda>(k, v). (k, case map_of over k of None \<Rightarrow> v | Some w \<Rightarrow> w)) base
       @ filter (\<lambda>(k, v). map_of base k = None) over"

definition merge_metadata :: "task_metadata \<Rightarrow> task_metadata \<Rightarrow> task_metadata" where
  "merge_metadata p e = e\<lparr>task_other := spread_entries (task_other p) (task_other e)\<rparr>"

fun entries_of :: "json option \<Rightarrow> (string \<times> json) list" where
  "entries_of (Some (JObj es)) = es"
| "entries_of _ = []"

definition merge_activity :: "json option \<Rightarrow> json option \<Rightarrow> json option" where
  "merge_activity p e =
     (case e of None \<Rightarrow> p | Some x \<Rightarrow> Some (JObj (spread_entries (entries_of p) (entries_of e))))"

text \<open>\<open>a ?? b\<close> also passes over null.\<close>

definition non_null :: "json option \<Rightarrow> json option \<Rightarrow> json option" where
  "non_null a b = (case a of None \<Rightarrow> b | Some JNull \<Rightarrow> b | Some j \<Rightarrow> Some j)"

definition merge_replayed_task :: "workflow_task \<Rightarrow> workflow_task \<Rightarrow> workflow_task" where
  "merge_replayed_task p e =
     e\<lparr>wt_metadata := merge_metadata (wt_metadata p) (wt_metadata e),
       wt_activity := merge_activity (wt_activity p) (wt_activity e),
       wt_cohort := wt_cohort p, wt_dispatch := wt_dispatch p,
       wt_outcome := non_null (wt_outcome p) (wt_outcome e)\<rparr>"

definition is_pending_run :: "workflow_run \<Rightarrow> bool" where
  "is_pending_run r = (case background_task r of None \<Rightarrow> False | Some t \<Rightarrow> wt_outcome t = None)"

definition get_task_cohort_id :: "workflow_task \<Rightarrow> string" where
  "get_task_cohort_id t = (case wt_cohort t of Some c \<Rightarrow> c | None \<Rightarrow> wt_id t)"

text \<open>The cohort a new background task joins.\<close>

definition joined_cohort :: "workflow_run list \<Rightarrow> string option" where
  "joined_cohort runs = Option.bind (List.find is_pending_run runs) (\<lambda>r. map_option get_task_cohort_id (background_task r))"

definition same_identity :: "workflow_run \<Rightarrow> workflow_run \<Rightarrow> bool" where
  "same_identity e r \<longleftrightarrow> wr_turn r = wr_turn e \<and> wr_call r = wr_call e"

text \<open>The entry after the lifetime branch, or the error it raises.\<close>

definition resolve_entry ::
    "workflow_run list \<Rightarrow> workflow_run option \<Rightarrow> workflow_run \<Rightarrow> registry_error + workflow_run" where
  "resolve_entry runs previous e =
     (case background_task e of
        None \<Rightarrow> Inr e
      | Some t \<Rightarrow>
          (case Option.bind previous background_task of
             Some p \<Rightarrow>
               if wt_id t \<noteq> wt_id p then Inl ReplayChangedTask
               else Inr (e\<lparr>wr_lifetime := SessionLifetime (merge_replayed_task p t)\<rparr>)
           | None \<Rightarrow> Inr (e\<lparr>wr_lifetime := SessionLifetime (t\<lparr>wt_cohort := joined_cohort runs\<rparr>)\<rparr>)))"

definition check_outcome :: "workflow_run \<Rightarrow> registry_error + unit" where
  "check_outcome e =
     (case background_task e of None \<Rightarrow> Inr () | Some t \<Rightarrow> map_sum id (\<lambda>_. ()) (read_workflow_task_view t))"

definition register_workflow_tool_run ::
    "session_state option \<Rightarrow> workflow_run \<Rightarrow> registry_error + session_state option" where
  "register_workflow_tool_run st e =
     (case read_registry st of
        Inl err \<Rightarrow> Inl err
      | Inr runs \<Rightarrow>
          (let index = find_index (same_identity e) runs;
               previous = map_option (\<lambda>i. runs ! i) index
           in if (case previous of None \<Rightarrow> False
                  | Some p \<Rightarrow> (background_task p = None) \<noteq> (background_task e = None) \<or> wr_tool p \<noteq> wr_tool e)
              then Inl ReplayChangedIdentity
              else case resolve_entry runs previous e of
                     Inl err \<Rightarrow> Inl err
                   | Inr e' \<Rightarrow>
                       (case check_outcome e' of
                          Inl err \<Rightarrow> Inl err
                        | Inr _ \<Rightarrow>
                            write_registry st
                              (case index of
                                 None \<Rightarrow> runs @ [e']
                               | Some i \<Rightarrow> runs[i := e'\<lparr>wr_step := wr_step (runs ! i)\<rparr>]))))"

section \<open>Settlement and removal\<close>

definition metadata_ok :: "task_metadata \<Rightarrow> bool" where
  "metadata_ok md \<longleftrightarrow> task_kind md \<noteq> [] \<and> task_name md \<noteq> []"

definition record_workflow_task_view ::
    "session_state option \<Rightarrow> string \<Rightarrow> task_metadata \<Rightarrow> json \<Rightarrow> registry_error + session_state option" where
  "record_workflow_task_view st i md result =
     (case parse_task_outcome result of
        None \<Rightarrow> Inl InvalidTerminalView
      | Some out \<Rightarrow>
          if i = [] \<or> \<not> metadata_ok md then Inl InvalidTerminalView
          else case read_registry st of
                 Inl err \<Rightarrow> Inl err
               | Inr runs \<Rightarrow>
                   (case find_index (has_task i) runs of
                      None \<Rightarrow> Inr st
                    | Some k \<Rightarrow>
                        (case background_task (runs ! k) of
                           None \<Rightarrow> Inr st
                         | Some t \<Rightarrow>
                             if \<not> same_task_metadata (wt_metadata t) md then Inl (ViewMetadataMismatch i)
                             else case read_workflow_task_view t of
                                    Inl err \<Rightarrow> Inl err
                                  | Inr (Some previous) \<Rightarrow> Inr st
                                  | Inr None \<Rightarrow>
                                      write_registry st
                                        (runs[k := (runs ! k)\<lparr>wr_lifetime := SessionLifetime (t\<lparr>wt_outcome := Some out\<rparr>)\<rparr>]))))"

definition kept_after_turn :: "string \<Rightarrow> string option \<Rightarrow> workflow_run \<Rightarrow> bool" where
  "kept_after_turn turn call r \<longleftrightarrow>
     background_task r \<noteq> None \<or> wr_turn r \<noteq> turn \<or> (call \<noteq> None \<and> call \<noteq> Some (wr_call r))"

definition remove_blocking_workflow_tool_runs ::
    "session_state option \<Rightarrow> string \<Rightarrow> string option \<Rightarrow> registry_error + session_state option" where
  "remove_blocking_workflow_tool_runs st turn call =
     (case read_registry st of
        Inl err \<Rightarrow> Inl err
      | Inr runs \<Rightarrow>
          (let remaining = filter (kept_after_turn turn call) runs
           in if length remaining = length runs then Inr st else write_registry st remaining))"

section \<open>Cohorts and delivery context\<close>

text \<open>A map of later entries over earlier ones.\<close>

definition get_session_task_cohorts :: "session_state option \<Rightarrow> registry_error + (string \<rightharpoonup> string)" where
  "get_session_task_cohorts st =
     map_sum id (\<lambda>rs. map_of (rev (List.map_filter (\<lambda>r. map_option (\<lambda>t. (wt_id t, get_task_cohort_id t)) (background_task r)) rs)))
       (get_background_workflow_tool_runs st)"

definition TASK_DELIVERY_CONTEXT_LABEL :: string where
  "TASK_DELIVERY_CONTEXT_LABEL = ''[Task state]''"

definition outcome_status :: "workflow_view \<Rightarrow> json" where
  "outcome_status v =
     (case map_of (entries_of (Some (wv_outcome v))) ''status'' of Some s \<Rightarrow> s | None \<Rightarrow> JStr ''pending'')"

definition project_task :: "bool \<Rightarrow> workflow_task \<Rightarrow> registry_error + json" where
  "project_task settled t =
     map_sum id
       (\<lambda>view. JObj ([(''name'', JStr (task_name (wt_metadata t)))]
          @ (if settled then optional_json ''output''
               (Option.bind view (\<lambda>v. map_of (entries_of (Some (wv_outcome v))) ''lastOutput'')) else [])
          @ [(''status'', case view of None \<Rightarrow> JStr ''pending'' | Some v \<Rightarrow> outcome_status v),
             (''taskId'', JStr (wt_id t))]))
       (read_workflow_task_view t)"

record cohort_projection =
  projected_context :: string
  projected_settled :: bool

definition project_task_cohort :: "workflow_task list \<Rightarrow> registry_error + cohort_projection" where
  "project_task_cohort ts =
     (let settled = list_all (\<lambda>t. wt_outcome t \<noteq> None) ts in
      map_sum id
        (\<lambda>js. \<lparr>projected_context = TASK_DELIVERY_CONTEXT_LABEL @ [CHR 0x0A] @ json_stringify (JObj [(''tasks'', JArr js)]),
               projected_settled = settled\<rparr>)
        (those_sum (map (project_task settled) ts)))"

definition tasks_of :: "workflow_run list \<Rightarrow> workflow_task list" where
  "tasks_of runs = List.map_filter background_task runs"

definition resolve_task_delivery_context ::
    "session_state option \<Rightarrow> string \<Rightarrow> registry_error + (cohort_projection \<times> string) option" where
  "resolve_task_delivery_context st delivery =
     (case get_background_workflow_tool_runs st of
        Inl e \<Rightarrow> Inl e
      | Inr entries \<Rightarrow>
          (case List.find (\<lambda>r. case background_task r of None \<Rightarrow> False | Some t \<Rightarrow> prefix (wt_id t @ '':'') delivery) entries of
             None \<Rightarrow> Inr None
           | Some d \<Rightarrow>
               map_sum id (\<lambda>p. Some (p, wr_turn d))
                 (project_task_cohort (filter (\<lambda>t. Some (get_task_cohort_id t) = map_option get_task_cohort_id (background_task d))
                    (tasks_of entries)))))"

definition resolve_initiating_task_context ::
    "session_state option \<Rightarrow> string \<Rightarrow> registry_error + string option" where
  "resolve_initiating_task_context st turn =
     (case get_background_workflow_tool_runs st of
        Inl e \<Rightarrow> Inl e
      | Inr entries \<Rightarrow>
          (let cohort = tasks_of (filter (\<lambda>r. wr_turn r = turn) entries) in
           if \<not> list_ex (\<lambda>t. wt_outcome t = None) cohort then Inr None
           else map_sum id (\<lambda>p. Some (projected_context p)) (project_task_cohort cohort)))"

section \<open>Encoding and decoding\<close>

text \<open>
  A typed run stands for an object when the further metadata keys are not the named ones and no
  object has a key twice, which no JavaScript object has.
\<close>

definition metadata_wf :: "task_metadata \<Rightarrow> bool" where
  "metadata_wf md \<longleftrightarrow> distinct (map fst (task_other md)) \<and> ''kind'' \<notin> fst ` set (task_other md)
     \<and> ''name'' \<notin> fst ` set (task_other md)"

definition task_wf :: "workflow_task \<Rightarrow> bool" where
  "task_wf t \<longleftrightarrow> metadata_wf (wt_metadata t) \<and> distinct (map fst (entries_of (wt_activity t)))"

definition run_wf :: "workflow_run \<Rightarrow> bool" where
  "run_wf r \<longleftrightarrow> (case background_task r of None \<Rightarrow> True | Some t \<Rightarrow> task_wf t)"

text \<open>Reading back a schema-valid run needs the named keys only.\<close>

definition metadata_keys_ok :: "task_metadata \<Rightarrow> bool" where
  "metadata_keys_ok md \<longleftrightarrow> ''kind'' \<notin> fst ` set (task_other md) \<and> ''name'' \<notin> fst ` set (task_other md)"

definition keys_ok :: "workflow_run \<Rightarrow> bool" where
  "keys_ok r \<longleftrightarrow> (case background_task r of None \<Rightarrow> True | Some t \<Rightarrow> metadata_keys_ok (wt_metadata t))"

definition workflow_task_ok :: "workflow_task \<Rightarrow> bool" where
  "workflow_task_ok t \<longleftrightarrow> wt_id t \<noteq> [] \<and> metadata_ok (wt_metadata t) \<and> wt_cohort t \<noteq> Some []
     \<and> is_task_agent_dispatch_context (wt_dispatch t)
     \<and> (case wt_activity t of None \<Rightarrow> True | Some a \<Rightarrow> is_activity_work_identity a)"

definition run_ok :: "workflow_run \<Rightarrow> bool" where
  "run_ok r \<longleftrightarrow> wr_call r \<noteq> [] \<and> wr_tool r \<noteq> [] \<and> wr_turn r \<noteq> [] \<and> int (wr_step r) \<le> MAX_SAFE_INTEGER
     \<and> wr_run_id r \<noteq> [] \<and> wr_hook r \<noteq> []
     \<and> (case background_task r of None \<Rightarrow> True | Some t \<Rightarrow> workflow_task_ok t)"

lemma run_wf_keys: "run_wf r \<Longrightarrow> keys_ok r"
  by (auto simp: run_wf_def keys_ok_def task_wf_def metadata_wf_def metadata_keys_ok_def split: option.splits)

lemma background_task_simps [simp]:
  "background_task r = None \<longleftrightarrow> wr_lifetime r = TurnLifetime"
  "background_task r = Some t \<longleftrightarrow> wr_lifetime r = SessionLifetime t"
  by (auto split: run_lifetime.splits)

lemma filter_other_keys:
  assumes "metadata_keys_ok md"
  shows "filter (\<lambda>(k, v). k \<noteq> ''kind'' \<and> k \<noteq> ''name'') (task_other md) = task_other md"
  using assms by (force simp: metadata_keys_ok_def filter_id_conv)

lemma decode_encode_metadata:
  assumes "metadata_keys_ok md"
  shows "decode_metadata (Some (metadata_object md)) = (if metadata_ok md then Some md else None)"
  using filter_other_keys [OF assms]
  by (simp add: decode_metadata_def metadata_object_def non_empty_string_def metadata_ok_def)

lemma decode_encode_task:
  assumes "metadata_keys_ok (wt_metadata t)"
  shows "decode_task (Some (encode_task t)) = (if workflow_task_ok t then Some t else None)"
proof -
  let ?es = "[(''taskId'', JStr (wt_id t)), (''metadata'', metadata_object (wt_metadata t)),
     (''dispatchContext'', wt_dispatch t)] @ optional_json ''activityWorkIdentity'' (wt_activity t)
     @ optional_entry ''cohortId'' (wt_cohort t) @ optional_json ''outcome'' (wt_outcome t)"
  have f: "non_empty_string ?es ''taskId'' = (if wt_id t = [] then None else Some (wt_id t))"
    "map_of ?es ''metadata'' = Some (metadata_object (wt_metadata t))"
    "map_of ?es ''dispatchContext'' = Some (wt_dispatch t)"
    by (simp_all add: non_empty_string_def)
  have c: "optional_non_empty ?es ''cohortId'' = (if wt_cohort t = Some [] then None else Some (wt_cohort t))"
    by (cases "wt_cohort t"; cases "wt_activity t"; cases "wt_outcome t")
      (simp_all add: optional_non_empty_def optional_json_def optional_entry_def)
  have a: "map_of ?es ''activityWorkIdentity'' = wt_activity t" "map_of ?es ''outcome'' = wt_outcome t"
    by (cases "wt_cohort t"; cases "wt_activity t"; cases "wt_outcome t";
        simp add: optional_json_def optional_entry_def)+
  show ?thesis
    unfolding decode_task_def encode_task_def option.case json.case f c a decode_encode_metadata [OF assms]
    by (simp add: workflow_task_ok_def)
qed

lemma decode_encode_run:
  assumes "keys_ok r"
  shows "decode_run (encode_run r) = (if run_ok r then Some r else None)"
proof (cases "wr_lifetime r")
  case TurnLifetime
  then show ?thesis
    by (simp add: encode_run_def non_empty_string_def safe_index_def decode_lifetime_def literal_field_def run_ok_def)
next
  case (SessionLifetime t)
  with assms have "decode_task (Some (encode_task t)) = (if workflow_task_ok t then Some t else None)"
    by (intro decode_encode_task) (simp add: keys_ok_def)
  with SessionLifetime show ?thesis
    by (simp add: encode_run_def non_empty_string_def safe_index_def decode_lifetime_def literal_field_def run_ok_def)
qed

lemma decode_metadata_ok: "decode_metadata v = Some md \<Longrightarrow> metadata_ok md \<and> metadata_keys_ok md"
  by (auto simp: decode_metadata_def metadata_ok_def metadata_keys_ok_def non_empty_string_def bind_eq_Some_conv
      split: option.splits json.splits if_splits)

lemma decode_task_ok: "decode_task v = Some t \<Longrightarrow> workflow_task_ok t \<and> metadata_keys_ok (wt_metadata t)"
  by (auto simp: decode_task_def workflow_task_ok_def bind_eq_Some_conv
      dest: decode_metadata_ok optional_non_empty_ok split: option.splits json.splits if_splits)
    (auto simp: non_empty_string_def split: option.splits json.splits if_splits)

lemma decode_run_ok: "decode_run j = Some r \<Longrightarrow> run_ok r \<and> keys_ok r"
proof -
  assume d: "decode_run j = Some r"
  then obtain es os as l where "j = JObj es" and l: "decode_lifetime es = Some (wr_lifetime r)"
    and f: "non_empty_string es ''callId'' = Some (wr_call r)" "non_empty_string es ''toolName'' = Some (wr_tool r)"
      "non_empty_string os ''turnId'' = Some (wr_turn r)" "safe_index os ''stepIndex'' = Some (wr_step r)"
      "non_empty_string as ''runId'' = Some (wr_run_id r)" "non_empty_string as ''hookToken'' = Some (wr_hook r)"
    by (cases j) (auto simp: bind_eq_Some_conv split: option.splits json.splits)
  have n: "non_empty_string xs k = Some s \<Longrightarrow> s \<noteq> []" for xs k s
    by (auto simp: non_empty_string_def split: option.splits json.splits if_splits)
  have i: "safe_index xs k = Some n \<Longrightarrow> int n \<le> MAX_SAFE_INTEGER" for xs k n
    by (auto simp: safe_index_def split: option.splits json.splits if_splits)
  have "case wr_lifetime r of TurnLifetime \<Rightarrow> True | SessionLifetime t \<Rightarrow> workflow_task_ok t \<and> metadata_keys_ok (wt_metadata t)"
  proof (cases "wr_lifetime r")
    case (SessionLifetime t)
    with l have "decode_task (map_of es ''task'') = Some t"
      by (auto simp: decode_lifetime_def bind_eq_Some_conv split: if_splits)
    with SessionLifetime decode_task_ok show ?thesis by simp
  qed simp
  with n [OF f(1)] n [OF f(2)] n [OF f(3)] i [OF f(4)] n [OF f(5)] n [OF f(6)] show ?thesis
    by (auto simp: run_ok_def keys_ok_def split: run_lifetime.splits)
qed

section \<open>Reading what was written\<close>

definition run_identity :: "workflow_run \<Rightarrow> string \<times> string" where
  "run_identity r = (wr_turn r, wr_call r)"

definition registry_ok :: "workflow_run list \<Rightarrow> bool" where
  "registry_ok runs \<longleftrightarrow> (\<forall>r \<in> set runs. run_ok r \<and> keys_ok r) \<and> distinct (map run_identity runs)
     \<and> distinct (map wt_id (tasks_of runs))"

lemma tasks_of_simps [simp]:
  "tasks_of [] = []"
  "tasks_of (r # rs) = (case wr_lifetime r of TurnLifetime \<Rightarrow> tasks_of rs | SessionLifetime t \<Rightarrow> t # tasks_of rs)"
  "tasks_of (rs @ ss) = tasks_of rs @ tasks_of ss"
  by (simp_all add: tasks_of_def map_filter_append split: run_lifetime.split)

lemma set_tasks_of: "t \<in> set (tasks_of runs) \<longleftrightarrow> (\<exists>r \<in> set runs. wr_lifetime r = SessionLifetime t)"
  by (induction runs) (auto split: run_lifetime.splits)

lemma check_unique_None:
  "check_unique is ts runs = None \<longleftrightarrow>
     distinct (map run_identity runs) \<and> set (map run_identity runs) \<inter> set is = {}
     \<and> distinct (map wt_id (tasks_of runs)) \<and> set (map wt_id (tasks_of runs)) \<inter> set ts = {}"
proof (induction runs arbitrary: "is" ts)
  case (Cons r rs)
  have r: "run_identity r = (wr_turn r, wr_call r)" by (simp add: run_identity_def)
  show ?case
    unfolding check_unique.simps
    by (cases "wr_lifetime r") (auto simp: Cons.IH r)
qed simp

lemma parse_registry_ok: "parse_registry v = Inr runs \<Longrightarrow> registry_ok runs"
proof -
  assume p: "parse_registry v = Inr runs"
  then obtain rs where d: "those (map decode_run rs) = Some runs" and u: "check_unique [] [] runs = None"
    by (auto simp: parse_registry_def split: json.splits option.splits if_splits)
  from d have "map decode_run rs = map Some runs" by (simp add: those_eq_Some_iff)
  then have "\<forall>r \<in> set runs. run_ok r \<and> keys_ok r"
    using decode_run_ok by (metis ex_map_conv image_eqI list.set_map imageE)
  with u show ?thesis by (simp add: registry_ok_def check_unique_None)
qed

lemma parse_registry_object:
  assumes "\<forall>r \<in> set runs. keys_ok r"
  shows "parse_registry (registry_object runs) = Inr parsed \<longleftrightarrow> parsed = runs \<and> registry_ok runs"
proof -
  have "map decode_run (map encode_run runs) = map (\<lambda>r. if run_ok r then Some r else None) runs"
    using assms by (simp add: decode_encode_run)
  then have t: "those (map decode_run (map encode_run runs)) = (if \<forall>r \<in> set runs. run_ok r then Some runs else None)"
    by (simp only: those_map_partial)
  have "parse_registry (registry_object runs) =
     (case (if \<forall>r \<in> set runs. run_ok r then Some runs else None) of
        None \<Rightarrow> Inl InvalidVersionOrRun
      | Some rs \<Rightarrow> (case check_unique [] [] rs of Some e \<Rightarrow> Inl e | None \<Rightarrow> Inr rs))"
    unfolding t [symmetric] by (simp add: parse_registry_def registry_object_def cong: option.case_cong)
  then show ?thesis using assms check_unique_None [of "[]" "[]" runs]
    by (auto simp: registry_ok_def split: option.split)
qed

lemma read_registry_ok: "read_registry st = Inr runs \<Longrightarrow> registry_ok runs"
  by (auto simp: read_registry_def registry_ok_def intro: parse_registry_ok
      dest: parse_registry_ok [unfolded registry_ok_def] split: option.splits if_splits)

lemma state_get_none_if_empty [simp]: "state_get (none_if_empty m) k = m k"
  by (simp add: none_if_empty_def)

lemma write_read:
  assumes k: "\<forall>r \<in> set runs. keys_ok r" and w: "write_registry st runs = Inr st'" and r: "read_registry st = Inr old"
  shows "read_registry st' = Inr runs \<and> registry_ok runs
    \<and> (\<forall>k. k \<noteq> WORKFLOW_TOOL_RUNS_STATE_KEY \<longrightarrow> state_get st' k = state_get st k)"
proof -
  have l: "state_get st ''eve.tasks'' = None" "state_get st ''eve.runtime.workflowToolRuns'' = None"
    using r by (auto simp: read_registry_def split: if_splits)
  have n: "WORKFLOW_TOOL_RUNS_STATE_KEY \<noteq> ''eve.tasks''" "WORKFLOW_TOOL_RUNS_STATE_KEY \<noteq> ''eve.runtime.workflowToolRuns''"
    by (simp_all add: WORKFLOW_TOOL_RUNS_STATE_KEY_def)
  show ?thesis
  proof (cases "runs = []")
    case True
    with w have "st' = none_if_empty (state_delete st WORKFLOW_TOOL_RUNS_STATE_KEY)" by (simp add: write_registry_def)
    with True l n show ?thesis by (auto simp: read_registry_def registry_ok_def)
  next
    case False
    with w obtain parsed where p: "parse_registry (registry_object runs) = Inr parsed"
      "st' = Some (state_put st WORKFLOW_TOOL_RUNS_STATE_KEY (registry_object parsed))"
      by (auto simp: write_registry_def split: sum.splits)
    with parse_registry_object [OF k] have q: "parsed = runs" "registry_ok runs" by auto
    with p l n show ?thesis by (auto simp: read_registry_def)
  qed
qed

lemma write_same:
  assumes "read_registry st = Inr runs" "state_get st WORKFLOW_TOOL_RUNS_STATE_KEY = Some (registry_object runs)"
    "runs \<noteq> []"
  shows "write_registry st runs = Inr st"
proof -
  obtain m where m: "st = Some m" using assms(2) by (cases st) auto
  from assms(1,2) have "parse_registry (registry_object runs) = Inr runs"
    by (auto simp: read_registry_def split: if_splits)
  with assms(2,3) m show ?thesis by (auto simp: write_registry_def state_put_def)
qed

section \<open>The registry over its history\<close>

definition outcomes_ok :: "workflow_run list \<Rightarrow> bool" where
  "outcomes_ok runs \<longleftrightarrow> (\<forall>t \<in> set (tasks_of runs). \<forall>v. wt_outcome t = Some v \<longrightarrow> parse_task_outcome v = Some v)"

definition cohorts_ok :: "workflow_run list \<Rightarrow> bool" where
  "cohorts_ok runs \<longleftrightarrow>
     (\<forall>t \<in> set (tasks_of runs). \<forall>u \<in> set (tasks_of runs).
        wt_outcome t = None \<and> wt_outcome u = None \<longrightarrow> get_task_cohort_id t = get_task_cohort_id u)
     \<and> (\<forall>t \<in> set (tasks_of runs). get_task_cohort_id t \<in> wt_id ` set (tasks_of runs))"

definition runs_ok :: "workflow_run list \<Rightarrow> bool" where
  "runs_ok runs \<longleftrightarrow> outcomes_ok runs \<and> cohorts_ok runs"

text \<open>What later operations keep of a task: its identity, cohort, dispatch context and outcome.\<close>

definition same_task :: "workflow_task \<Rightarrow> workflow_task \<Rightarrow> bool" where
  "same_task t u \<longleftrightarrow> wt_id u = wt_id t \<and> get_task_cohort_id u = get_task_cohort_id t \<and> wt_dispatch u = wt_dispatch t
     \<and> (\<forall>v. wt_outcome t = Some v \<longrightarrow> wt_outcome u = Some v)"

definition keeps_tasks :: "workflow_run list \<Rightarrow> workflow_run list \<Rightarrow> bool" where
  "keeps_tasks old new \<longleftrightarrow> (\<forall>t \<in> set (tasks_of old). \<exists>u \<in> set (tasks_of new). same_task t u)"

lemma same_task_refl [simp]: "same_task t t"
  by (simp add: same_task_def)

lemma same_task_trans: "same_task t u \<Longrightarrow> same_task u v \<Longrightarrow> same_task t v"
  by (auto simp: same_task_def)

lemma keeps_tasks_trans: "keeps_tasks a b \<Longrightarrow> keeps_tasks b c \<Longrightarrow> keeps_tasks a c"
  unfolding keeps_tasks_def by (meson same_task_trans)

lemma keeps_tasks_refl [simp]: "keeps_tasks a a"
  unfolding keeps_tasks_def using same_task_refl by blast

text \<open>Replacing the task of one run by a later version of it.\<close>

lemma tasks_of_split: "i < length runs \<Longrightarrow> wr_lifetime (runs ! i) = SessionLifetime t \<Longrightarrow>
    tasks_of runs = tasks_of (take i runs) @ t # tasks_of (drop (Suc i) runs)"
  by (subst id_take_nth_drop [of i]) simp_all

lemma tasks_of_update: "i < length runs \<Longrightarrow> wr_lifetime r = SessionLifetime u \<Longrightarrow>
    tasks_of (runs[i := r]) = tasks_of (take i runs) @ u # tasks_of (drop (Suc i) runs)"
  by (simp add: upd_conv_take_nth_drop)

lemma later_version:
  assumes i: "i < length runs" and t: "wr_lifetime (runs ! i) = SessionLifetime t"
    and r: "wr_lifetime r = SessionLifetime u" and s: "same_task t u" and ok: "runs_ok runs"
    and v: "\<forall>v. wt_outcome u = Some v \<longrightarrow> parse_task_outcome v = Some v"
  shows "runs_ok (runs[i := r]) \<and> keeps_tasks runs (runs[i := r])"
proof -
  note old = tasks_of_split [OF i t] and new = tasks_of_update [OF i r]
  from s have e: "wt_id u = wt_id t" "get_task_cohort_id u = get_task_cohort_id t"
    "wt_outcome u = None \<Longrightarrow> wt_outcome t = None"
    by (auto simp: same_task_def)
  define R where "R = set (tasks_of (take i runs)) \<union> set (tasks_of (drop (Suc i) runs))"
  have sets: "set (tasks_of runs) = insert t R" "set (tasks_of (runs[i := r])) = insert u R"
    unfolding old new R_def by auto
  have "outcomes_ok (runs[i := r])"
    using ok v unfolding runs_ok_def outcomes_ok_def sets by simp
  moreover have "cohorts_ok (runs[i := r])"
  proof -
    from ok have c: "x \<in> insert t R \<Longrightarrow> y \<in> insert t R \<Longrightarrow> wt_outcome x = None \<Longrightarrow> wt_outcome y = None \<Longrightarrow>
        get_task_cohort_id x = get_task_cohort_id y"
      for x y unfolding runs_ok_def cohorts_ok_def sets by blast
    from ok have m: "x \<in> insert t R \<Longrightarrow> get_task_cohort_id x \<in> wt_id ` insert t R" for x
      unfolding runs_ok_def cohorts_ok_def sets by blast
    have prev: "\<exists>x' \<in> insert t R. get_task_cohort_id x' = get_task_cohort_id x \<and> (wt_outcome x = None \<longrightarrow> wt_outcome x' = None)"
      if x: "x \<in> insert u R" for x
      using x e by (cases "x = u") auto
    have ids: "wt_id ` insert u R = wt_id ` insert t R" using e(1) by simp
    show ?thesis unfolding cohorts_ok_def sets
    proof (intro conjI ballI impI)
      fix x y assume "x \<in> insert u R" "y \<in> insert u R" "wt_outcome x = None \<and> wt_outcome y = None"
      with prev [of x] prev [of y] show "get_task_cohort_id x = get_task_cohort_id y" using c by metis
    next
      fix x assume "x \<in> insert u R"
      with prev [of x] show "get_task_cohort_id x \<in> wt_id ` insert u R" unfolding ids using m by metis
    qed
  qed
  moreover have "keeps_tasks runs (runs[i := r])"
    unfolding keeps_tasks_def sets using s same_task_refl by blast
  ultimately show ?thesis by (simp add: runs_ok_def)
qed

lemma parse_task_outcome_same: "parse_task_outcome v = Some w \<Longrightarrow> w = v"
  by (cases v) (auto split: option.splits if_splits)

lemma check_outcome_ok:
  "check_outcome r = Inr u \<Longrightarrow> wr_lifetime r = SessionLifetime t \<Longrightarrow> wt_outcome t = Some v \<Longrightarrow>
   parse_task_outcome v = Some v"
  by (auto simp: check_outcome_def read_workflow_task_view_def dest: parse_task_outcome_same split: option.splits)

lemma tasks_of_same_lifetime:
  "i < length runs \<Longrightarrow> wr_lifetime (runs ! i) = TurnLifetime \<Longrightarrow> wr_lifetime r = TurnLifetime \<Longrightarrow>
   tasks_of (runs[i := r]) = tasks_of runs"
  by (subst (2) id_take_nth_drop [of i runs]) (simp_all add: upd_conv_take_nth_drop)

lemma runs_ok_same_tasks: "tasks_of b = tasks_of a \<Longrightarrow> runs_ok b = runs_ok a \<and> keeps_tasks a b"
  by (auto simp: runs_ok_def outcomes_ok_def cohorts_ok_def keeps_tasks_def intro: same_task_refl)

text \<open>The cohort a new task joins is that of every pending task; with none pending it is its own.\<close>

lemma is_pending_run_iff: "is_pending_run r \<longleftrightarrow> (\<exists>t. wr_lifetime r = SessionLifetime t \<and> wt_outcome t = None)"
  by (auto simp: is_pending_run_def split: run_lifetime.splits)

lemma joined_cohort_None: "joined_cohort runs = None \<longleftrightarrow> (\<forall>t \<in> set (tasks_of runs). wt_outcome t \<noteq> None)"
proof (cases "List.find is_pending_run runs")
  case None
  then have "\<forall>r \<in> set runs. \<not> is_pending_run r" by (simp add: find_None_iff)
  then have "\<forall>t \<in> set (tasks_of runs). wt_outcome t \<noteq> None"
    by (auto simp: is_pending_run_iff set_tasks_of)
  with None show ?thesis by (simp add: joined_cohort_def)
next
  case (Some r)
  then have r: "r \<in> set runs" "is_pending_run r" by (auto simp: find_Some_iff)
  then obtain t where t: "wr_lifetime r = SessionLifetime t" "wt_outcome t = None"
    by (auto simp: is_pending_run_iff)
  with r have "t \<in> set (tasks_of runs)" by (auto simp: set_tasks_of)
  with t Some show ?thesis by (auto simp: joined_cohort_def)
qed

lemma joined_cohort_Some:
  assumes "joined_cohort runs = Some c"
  obtains t where "t \<in> set (tasks_of runs)" "wt_outcome t = None" "c = get_task_cohort_id t"
proof -
  from assms obtain r where "List.find is_pending_run runs = Some r"
    and c: "map_option get_task_cohort_id (background_task r) = Some c"
    by (auto simp: joined_cohort_def bind_eq_Some_conv)
  then have "r \<in> set runs" "is_pending_run r" by (auto simp: find_Some_iff)
  then obtain t where t: "wr_lifetime r = SessionLifetime t" "wt_outcome t = None"
    by (auto simp: is_pending_run_iff)
  with \<open>r \<in> set runs\<close> have "t \<in> set (tasks_of runs)" by (auto simp: set_tasks_of)
  with t c that [of t] show thesis by simp
qed

lemma cohorts_ok_insert:
  assumes ok: "cohorts_ok runs" and ts: "set (tasks_of new) = insert u (set (tasks_of runs))"
    and join: "\<And>x. x \<in> set (tasks_of runs) \<Longrightarrow> wt_outcome x = None \<Longrightarrow> wt_outcome u = None \<Longrightarrow>
      get_task_cohort_id x = get_task_cohort_id u"
    and mem: "get_task_cohort_id u = wt_id u \<or> get_task_cohort_id u \<in> get_task_cohort_id ` set (tasks_of runs)"
  shows "cohorts_ok new"
proof -
  note all = ok [unfolded cohorts_ok_def]
  have eq: "get_task_cohort_id x = get_task_cohort_id y"
    if "x \<in> set (tasks_of runs)" "y \<in> set (tasks_of runs)" "wt_outcome x = None" "wt_outcome y = None" for x y
    using that by (intro conjunct1 [OF all, rule_format]) simp_all
  have ids: "get_task_cohort_id x \<in> wt_id ` set (tasks_of runs)" if "x \<in> set (tasks_of runs)" for x
    by (rule conjunct2 [OF all, rule_format, OF that])
  show ?thesis unfolding cohorts_ok_def ts
  proof (intro conjI ballI impI)
    fix x y assume x: "x \<in> insert u (set (tasks_of runs))" and y: "y \<in> insert u (set (tasks_of runs))"
      and p: "wt_outcome x = None \<and> wt_outcome y = None"
    show "get_task_cohort_id x = get_task_cohort_id y"
    proof (cases "x = u"; cases "y = u")
      assume "x = u" "y \<noteq> u"
      with y p join [of y] show ?thesis by simp
    next
      assume "x \<noteq> u" "y = u"
      with x p join [of x] show ?thesis by simp
    next
      assume "x \<noteq> u" "y \<noteq> u"
      with x y p eq [of x y] show ?thesis by simp
    qed simp
  next
    fix x assume x: "x \<in> insert u (set (tasks_of runs))"
    have "get_task_cohort_id u \<in> insert (wt_id u) (wt_id ` set (tasks_of runs))"
      using mem
    proof
      assume "get_task_cohort_id u \<in> get_task_cohort_id ` set (tasks_of runs)"
      then obtain y where "y \<in> set (tasks_of runs)" "get_task_cohort_id u = get_task_cohort_id y" by (rule imageE) simp
      with ids [of y] show ?thesis by simp
    qed simp
    with x ids [of x] show "get_task_cohort_id x \<in> wt_id ` insert u (set (tasks_of runs))"
      by (cases "x = u") auto
  qed
qed

lemma new_task_ok:
  assumes ok: "runs_ok runs" and r: "wr_lifetime r = SessionLifetime (t\<lparr>wt_cohort := joined_cohort runs\<rparr>)"
    and v: "\<forall>v. wt_outcome t = Some v \<longrightarrow> parse_task_outcome v = Some v"
  shows "runs_ok (runs @ [r]) \<and> keeps_tasks runs (runs @ [r])"
proof -
  define u where "u = t\<lparr>wt_cohort := joined_cohort runs\<rparr>"
  have ts: "set (tasks_of (runs @ [r])) = insert u (set (tasks_of runs))"
    using r by (simp add: u_def)
  have out: "outcomes_ok (runs @ [r])"
    using ok v unfolding runs_ok_def outcomes_ok_def ts by (simp add: u_def)
  have keeps: "keeps_tasks runs (runs @ [r])"
    unfolding keeps_tasks_def ts using same_task_refl by blast
  from ok have c: "cohorts_ok runs" by (simp add: runs_ok_def)
  have "cohorts_ok (runs @ [r])"
  proof (cases "joined_cohort runs")
    case None
    then have "get_task_cohort_id u = wt_id u" by (simp add: get_task_cohort_id_def u_def)
    then show ?thesis using None by (intro cohorts_ok_insert [OF c ts]) (auto simp: joined_cohort_None)
  next
    case (Some k)
    then obtain p where p: "p \<in> set (tasks_of runs)" "wt_outcome p = None" "k = get_task_cohort_id p"
      by (rule joined_cohort_Some)
    from Some have u: "get_task_cohort_id u = k" by (simp add: get_task_cohort_id_def u_def)
    have "get_task_cohort_id x = k" if "x \<in> set (tasks_of runs)" "wt_outcome x = None" for x
      using c p that unfolding cohorts_ok_def by metis
    with u p show ?thesis by (intro cohorts_ok_insert [OF c ts]) blast+
  qed
  with out keeps show ?thesis by (simp add: runs_ok_def)
qed

lemma merged_same_task:
  assumes "wt_id t = wt_id p" "\<forall>v. wt_outcome p = Some v \<longrightarrow> parse_task_outcome v = Some v"
  shows "same_task p (merge_replayed_task p t)"
proof -
  have "wt_outcome p \<noteq> Some JNull" using assms(2) by auto
  then have "non_null (wt_outcome p) b = (case wt_outcome p of None \<Rightarrow> b | Some j \<Rightarrow> Some j)" for b
    by (auto simp: non_null_def split: option.split json.split)
  with assms(1) show ?thesis
    by (auto simp: same_task_def merge_replayed_task_def get_task_cohort_id_def split: option.split)
qed

section \<open>The registry as a machine\<close>

datatype registry_op =
    RegisterRun workflow_run
  | RecordTaskView string task_metadata json
  | RemoveBlocking string "string option"

fun registry_result :: "session_state option \<Rightarrow> registry_op \<Rightarrow> registry_error + session_state option" where
  "registry_result st (RegisterRun e) = register_workflow_tool_run st e"
| "registry_result st (RecordTaskView i md v) = record_workflow_task_view st i md v"
| "registry_result st (RemoveBlocking turn call) = remove_blocking_workflow_tool_runs st turn call"

text \<open>An operation that throws leaves the session as it was.\<close>

definition registry_step :: "session_state option \<Rightarrow> registry_op \<Rightarrow> session_state option" where
  "registry_step st x = (case registry_result st x of Inl e \<Rightarrow> st | Inr st' \<Rightarrow> st')"

fun op_wf :: "registry_op \<Rightarrow> bool" where
  "op_wf (RegisterRun e) = run_wf e"
| "op_wf _ = True"

definition registry_inv :: "session_state option \<Rightarrow> bool" where
  "registry_inv st = (case read_registry st of Inl e \<Rightarrow> False | Inr runs \<Rightarrow> runs_ok runs)"

text \<open>From one state to the next: the tasks stay, and so does all state outside the registry.\<close>

definition registry_grows :: "session_state option \<Rightarrow> session_state option \<Rightarrow> bool" where
  "registry_grows st st' \<longleftrightarrow>
     (case (read_registry st, read_registry st') of (Inr a, Inr b) \<Rightarrow> keeps_tasks a b | _ \<Rightarrow> False)
     \<and> (\<forall>k. k \<noteq> WORKFLOW_TOOL_RUNS_STATE_KEY \<longrightarrow> state_get st' k = state_get st k)"

lemma registry_grows_refl: "registry_inv st \<Longrightarrow> registry_grows st st"
  by (auto simp: registry_inv_def registry_grows_def split: sum.splits)

lemma registry_grows_trans: "registry_grows a b \<Longrightarrow> registry_grows b c \<Longrightarrow> registry_grows a c"
  by (auto simp: registry_grows_def split: sum.splits intro: keeps_tasks_trans)

lemma registry_invE:
  assumes "registry_inv st"
  obtains runs where "read_registry st = Inr runs" "runs_ok runs" "registry_ok runs"
  using assms by (auto simp: registry_inv_def split: sum.splits dest: read_registry_ok)

lemma written_grows:
  assumes r: "read_registry st = Inr runs" and w: "write_registry st new = Inr st'"
    and k: "\<forall>r \<in> set new. keys_ok r" and ok: "runs_ok new \<and> keeps_tasks runs new"
  shows "registry_inv st' \<and> registry_grows st st'"
  using write_read [OF k w r] r ok by (auto simp: registry_inv_def registry_grows_def)

lemma keys_ok_update:
  "\<forall>r \<in> set runs. keys_ok r \<Longrightarrow> keys_ok x \<Longrightarrow> \<forall>r \<in> set (runs[i := x]). keys_ok r"
  using set_update_subset_insert [of runs i x] by blast

lemma keys_ok_step [simp]: "keys_ok (r\<lparr>wr_step := n\<rparr>) = keys_ok r"
  by (simp add: keys_ok_def split: run_lifetime.split)

lemma spread_keys: "fst ` set (spread_entries base over) \<subseteq> fst ` set base \<union> fst ` set over"
  by (force simp: spread_entries_def)

lemma merge_keys_ok:
  assumes "metadata_keys_ok (wt_metadata p)" "metadata_keys_ok (wt_metadata t)"
  shows "metadata_keys_ok (wt_metadata (merge_replayed_task p t))"
  using assms spread_keys [of "task_other (wt_metadata p)" "task_other (wt_metadata t)"]
  by (auto simp: metadata_keys_ok_def merge_replayed_task_def merge_metadata_def)

lemma check_read_view:
  assumes "check_outcome r = Inr x" "wr_lifetime r = SessionLifetime t"
  shows "\<forall>v. wt_outcome t = Some v \<longrightarrow> parse_task_outcome v = Some v"
  using check_outcome_ok [OF assms] by blast

lemma registry_task_keys:
  "registry_ok runs \<Longrightarrow> r \<in> set runs \<Longrightarrow> wr_lifetime r = SessionLifetime t \<Longrightarrow> metadata_keys_ok (wt_metadata t)"
  by (auto simp: registry_ok_def keys_ok_def)

lemma registered_run_ok:
  assumes inv: "runs_ok runs" "registry_ok runs" and e: "keys_ok e"
    and idx: "index = find_index (same_identity e) runs" "previous = map_option (\<lambda>i. runs ! i) index"
    and same: "\<not> (case previous of None \<Rightarrow> False
                  | Some p \<Rightarrow> (background_task p = None) \<noteq> (background_task e = None) \<or> wr_tool p \<noteq> wr_tool e)"
    and res: "resolve_entry runs previous e = Inr e'" and chk: "check_outcome e' = Inr x"
    and new: "new = (case index of None \<Rightarrow> runs @ [e'] | Some i \<Rightarrow> runs[i := e'\<lparr>wr_step := wr_step (runs ! i)\<rparr>])"
  shows "(\<forall>r \<in> set new. keys_ok r) \<and> runs_ok new \<and> keeps_tasks runs new"
proof -
  have k: "\<forall>r \<in> set runs. keys_ok r" using inv(2) by (simp add: registry_ok_def)
  show ?thesis
  proof (cases "wr_lifetime e")
    case TurnLifetime
    then have e': "e' = e" using res by (simp add: resolve_entry_def)
    have "tasks_of new = tasks_of runs"
    proof (cases index)
      case None
      with new e' TurnLifetime show ?thesis by simp
    next
      case (Some i)
      with idx have i: "i < length runs" by (metis find_index_SomeD(1))
      from Some same idx(2) TurnLifetime have "wr_lifetime (runs ! i) = TurnLifetime"
        by (simp del: background_task.simps)
      with Some new e' TurnLifetime i show ?thesis by (simp add: tasks_of_same_lifetime)
    qed
    moreover have "\<forall>r \<in> set new. keys_ok r"
      using k e new e' by (cases index) (auto dest: keys_ok_update [OF k, rule_format, rotated])
    ultimately show ?thesis using runs_ok_same_tasks [of new runs] inv(1) by simp
  next
    case (SessionLifetime t)
    have kt: "metadata_keys_ok (wt_metadata t)" using e SessionLifetime by (simp add: keys_ok_def)
    show ?thesis
    proof (cases index)
      case None
      then have e': "e' = e\<lparr>wr_lifetime := SessionLifetime (t\<lparr>wt_cohort := joined_cohort runs\<rparr>)\<rparr>"
        using res SessionLifetime idx(2) by (simp add: resolve_entry_def)
      then have l: "wr_lifetime e' = SessionLifetime (t\<lparr>wt_cohort := joined_cohort runs\<rparr>)" by simp
      have "\<forall>v. wt_outcome t = Some v \<longrightarrow> parse_task_outcome v = Some v"
        using check_read_view [OF chk l] by simp
      from new_task_ok [OF inv(1) l this] kt k None new e' show ?thesis
        by (simp add: keys_ok_def)
    next
      case (Some i)
      with idx(1) have i: "i < length runs" "runs ! i \<in> set runs" by (metis find_index_SomeD)+
      from Some same idx(2) SessionLifetime obtain p where p: "wr_lifetime (runs ! i) = SessionLifetime p"
        by (cases "wr_lifetime (runs ! i)") simp_all
      with res SessionLifetime idx(2) Some
      have id: "wt_id t = wt_id p"
        and e': "e' = e\<lparr>wr_lifetime := SessionLifetime (merge_replayed_task p t)\<rparr>"
        by (auto simp: resolve_entry_def split: if_splits)
      have out: "\<forall>v. wt_outcome p = Some v \<longrightarrow> parse_task_outcome v = Some v"
        using inv(1) i(2) p by (auto simp: runs_ok_def outcomes_ok_def set_tasks_of)
      let ?r = "e'\<lparr>wr_step := wr_step (runs ! i)\<rparr>"
      have l: "wr_lifetime e' = SessionLifetime (merge_replayed_task p t)" using e' by simp
      have "runs_ok (runs[i := ?r]) \<and> keeps_tasks runs (runs[i := ?r])"
        using later_version [OF i(1) p _ merged_same_task [OF id out] inv(1) check_read_view [OF chk l], of ?r] l
        by simp
      moreover have "keys_ok ?r"
        using merge_keys_ok [OF registry_task_keys [OF inv(2) i(2) p] kt] e' by (simp add: keys_ok_def)
      from keys_ok_update [OF k this] have "\<forall>r \<in> set (runs[i := ?r]). keys_ok r" .
      ultimately show ?thesis using new Some by simp
    qed
  qed
qed

lemma register_step_ok:
  assumes "registry_inv st" "keys_ok e" "register_workflow_tool_run st e = Inr st'"
  shows "registry_inv st' \<and> registry_grows st st'"
proof -
  from assms(1) obtain runs where r: "read_registry st = Inr runs" "runs_ok runs" "registry_ok runs"
    by (rule registry_invE)
  define index where "index = find_index (same_identity e) runs"
  define previous where "previous = map_option (\<lambda>i. runs ! i) index"
  from assms(3) r(1) obtain e' x where
    same: "\<not> (case previous of None \<Rightarrow> False
                  | Some p \<Rightarrow> (background_task p = None) \<noteq> (background_task e = None) \<or> wr_tool p \<noteq> wr_tool e)"
    and res: "resolve_entry runs previous e = Inr e'" and chk: "check_outcome e' = Inr x"
    and w: "write_registry st (case index of None \<Rightarrow> runs @ [e'] | Some i \<Rightarrow> runs[i := e'\<lparr>wr_step := wr_step (runs ! i)\<rparr>])
      = Inr st'"
    unfolding register_workflow_tool_run_def r(1) sum.case Let_def index_def [symmetric] previous_def [symmetric]
    by (auto simp del: background_task_simps background_task.simps split: if_splits sum.splits)
  from registered_run_ok [OF r(2,3) assms(2) index_def previous_def same res chk refl] w
  show ?thesis by (intro written_grows [OF r(1) w]) blast+
qed

lemma record_step_ok:
  assumes "registry_inv st" "record_workflow_task_view st i md v = Inr st'"
  shows "registry_inv st' \<and> registry_grows st st'"
proof -
  from assms(1) obtain runs where r: "read_registry st = Inr runs" "runs_ok runs" "registry_ok runs"
    by (rule registry_invE)
  have stay: "registry_inv st \<and> registry_grows st st" using assms(1) by (simp add: registry_grows_refl)
  from assms(2) obtain out where out: "parse_task_outcome v = Some out"
    by (auto simp: record_workflow_task_view_def split: option.splits)
  show ?thesis
  proof (cases "find_index (has_task i) runs")
    case None
    with assms(2) r(1) out have "st' = st" by (auto simp: record_workflow_task_view_def split: if_splits)
    with stay show ?thesis by simp
  next
    case (Some k)
    then have k: "k < length runs" "has_task i (runs ! k)" "runs ! k \<in> set runs" by auto
    then obtain t where t: "wr_lifetime (runs ! k) = SessionLifetime t"
      by (auto simp: has_task_def split: run_lifetime.splits)
    show ?thesis
    proof (cases "wt_outcome t")
      case None
      let ?r = "(runs ! k)\<lparr>wr_lifetime := SessionLifetime (t\<lparr>wt_outcome := Some out\<rparr>)\<rparr>"
      have w: "write_registry st (runs[k := ?r]) = Inr st'"
        using assms(2) r(1) out Some t None
        by (simp add: record_workflow_task_view_def read_workflow_task_view_def split: if_splits)
      have s: "same_task t (t\<lparr>wt_outcome := Some out\<rparr>)"
        using None by (simp add: same_task_def get_task_cohort_id_def split: option.split)
      have "parse_task_outcome out = Some out" using out parse_task_outcome_same by metis
      then have "runs_ok (runs[k := ?r]) \<and> keeps_tasks runs (runs[k := ?r])"
        by (intro later_version [OF k(1) t _ s r(2)]) simp_all
      moreover have "\<forall>r \<in> set runs. keys_ok r" using r(3) by (simp add: registry_ok_def)
      moreover have "keys_ok ?r" using registry_task_keys [OF r(3) k(3) t] by (simp add: keys_ok_def)
      ultimately show ?thesis using written_grows [OF r(1) w] keys_ok_update by blast
    next
      case (Some w)
      with r(2) k(3) t have "parse_task_outcome w = Some w"
        by (auto simp: runs_ok_def outcomes_ok_def set_tasks_of)
      with assms(2) r(1) out \<open>find_index (has_task i) runs = Some k\<close> t Some have "st' = st"
        by (simp add: record_workflow_task_view_def read_workflow_task_view_def split: if_splits)
      with stay show ?thesis by simp
    qed
  qed
qed

lemma tasks_of_kept: "tasks_of (filter (kept_after_turn turn call) runs) = tasks_of runs"
  by (induction runs) (auto simp: kept_after_turn_def split: run_lifetime.splits)

lemma remove_step_ok:
  assumes "registry_inv st" "remove_blocking_workflow_tool_runs st turn call = Inr st'"
  shows "registry_inv st' \<and> registry_grows st st'"
proof -
  from assms(1) obtain runs where r: "read_registry st = Inr runs" "runs_ok runs" "registry_ok runs"
    by (rule registry_invE)
  let ?new = "filter (kept_after_turn turn call) runs"
  show ?thesis
  proof (cases "length ?new = length runs")
    case True
    with assms r(1) registry_grows_refl show ?thesis by (simp add: remove_blocking_workflow_tool_runs_def)
  next
    case False
    with assms(2) r(1) have "write_registry st ?new = Inr st'" by (simp add: remove_blocking_workflow_tool_runs_def)
    then show ?thesis
      using r runs_ok_same_tasks [OF tasks_of_kept [of turn call runs]]
      by (intro written_grows [OF r(1)]) (auto simp: registry_ok_def)
  qed
qed

lemma registry_step_ok:
  assumes "registry_inv st" "op_wf x"
  shows "registry_inv (registry_step st x) \<and> registry_grows st (registry_step st x)"
proof (cases "registry_result st x")
  case (Inl e)
  with assms show ?thesis by (simp add: registry_step_def registry_grows_refl)
next
  case (Inr st')
  then have "registry_inv st' \<and> registry_grows st st'"
  proof (cases x)
    case (RegisterRun e)
    with Inr assms(2) show ?thesis by (intro register_step_ok [OF assms(1)]) (simp_all add: run_wf_keys)
  next
    case (RecordTaskView i md v)
    with Inr show ?thesis by (intro record_step_ok [OF assms(1)]) simp
  next
    case (RemoveBlocking turn call)
    with Inr show ?thesis by (intro remove_step_ok [OF assms(1)]) simp
  qed
  with Inr show ?thesis by (simp add: registry_step_def)
qed

text \<open>Operations on typed runs, as the machine takes them.\<close>

definition typed_step :: "session_state option \<Rightarrow> registry_op \<Rightarrow> session_state option" where
  "typed_step st x = (if op_wf x then registry_step st x else st)"

interpretation registry_machine: invariant_machine typed_step registry_inv
  by unfold_locales (simp add: typed_step_def registry_step_ok)

lemma run_typed: "list_all op_wf xs \<Longrightarrow> foldl typed_step st xs = foldl registry_step st xs"
  by (induction xs arbitrary: st) (simp_all add: typed_step_def)

lemma registry_run_inv: "registry_inv st \<Longrightarrow> list_all op_wf xs \<Longrightarrow> registry_inv (foldl registry_step st xs)"
  using registry_machine.run_inv [of st xs] by (simp add: run_typed)

lemma registry_run_grows:
  "registry_inv st \<Longrightarrow> list_all op_wf xs \<Longrightarrow> registry_grows st (foldl registry_step st xs)"
proof (induction xs arbitrary: st)
  case (Cons x xs)
  then have "registry_inv (registry_step st x)" "registry_grows st (registry_step st x)"
    using registry_step_ok by simp_all
  with Cons show ?case by (auto intro: registry_grows_trans)
qed (simp add: registry_grows_refl)

lemma registry_inv_None [simp]: "registry_inv None"
  by (simp add: registry_inv_def read_registry_def runs_ok_def outcomes_ok_def cohorts_ok_def)

section \<open>Registering again\<close>

lemma spread_over_again:
  assumes "\<And>k v. (k, v) \<in> set xs \<Longrightarrow> map_of over k = None \<or> map_of over k = Some v" "fst ` set over \<subseteq> fst ` set xs"
  shows "spread_entries xs over = xs"
proof -
  have "map (\<lambda>(k, v). (k, case map_of over k of None \<Rightarrow> v | Some w \<Rightarrow> w)) xs = xs"
    using assms(1) by (intro map_idI) (fastforce split: option.split)
  moreover have "filter (\<lambda>(k, v). map_of xs k = None) over = []"
    using assms(2) by (force simp: filter_empty_conv map_of_eq_None_iff)
  ultimately show ?thesis by (simp add: spread_entries_def)
qed

lemma spread_idem:
  assumes "distinct (map fst over)"
  shows "spread_entries (spread_entries base over) over = spread_entries base over"
proof (rule spread_over_again)
  fix k v assume "(k, v) \<in> set (spread_entries base over)"
  then show "map_of over k = None \<or> map_of over k = Some v"
    using assms by (auto simp: spread_entries_def split: option.splits)
next
  show "fst ` set over \<subseteq> fst ` set (spread_entries base over)"
  proof
    fix k assume "k \<in> fst ` set over"
    then obtain v where v: "(k, v) \<in> set over" by auto
    show "k \<in> fst ` set (spread_entries base over)"
    proof (cases "map_of base k")
      case None
      with v have "(k, v) \<in> set (spread_entries base over)" by (simp add: spread_entries_def)
      then show ?thesis by force
    next
      case (Some w)
      then have "(k, w) \<in> set base" by (rule map_of_SomeD)
      then show ?thesis by (force simp: spread_entries_def)
    qed
  qed
qed

lemma spread_self: "distinct (map fst xs) \<Longrightarrow> spread_entries xs xs = xs"
  by (rule spread_over_again) simp_all

lemma non_null_idem: "non_null (non_null a b) b = non_null a b"
  by (auto simp: non_null_def split: option.split json.split)

lemma merge_idem:
  assumes "task_wf t"
  shows "merge_replayed_task (merge_replayed_task p t) t = merge_replayed_task p t"
proof -
  from assms have d: "distinct (map fst (task_other (wt_metadata t)))" "distinct (map fst (entries_of (wt_activity t)))"
    by (auto simp: task_wf_def metadata_wf_def)
  have "merge_activity (merge_activity a (wt_activity t)) (wt_activity t) = merge_activity a (wt_activity t)" for a
    using spread_idem [OF d(2)] by (cases "wt_activity t") (simp_all add: merge_activity_def)
  with spread_idem [OF d(1)] show ?thesis
    by (simp add: merge_replayed_task_def merge_metadata_def non_null_idem)
qed

lemma merge_self:
  assumes "task_wf t" "case wt_activity t of None \<Rightarrow> True | Some a \<Rightarrow> is_activity_work_identity a"
  shows "merge_replayed_task (t\<lparr>wt_cohort := c\<rparr>) t = t\<lparr>wt_cohort := c\<rparr>"
proof -
  from assms have d: "distinct (map fst (task_other (wt_metadata t)))" "distinct (map fst (entries_of (wt_activity t)))"
    by (auto simp: task_wf_def metadata_wf_def)
  have "merge_activity (wt_activity t) (wt_activity t) = wt_activity t"
    using assms(2) spread_self [OF d(2)]
    by (cases "wt_activity t"; cases "the (wt_activity t)") (simp_all add: merge_activity_def)
  moreover have "non_null (wt_outcome t) (wt_outcome t) = wt_outcome t"
    by (auto simp: non_null_def split: option.split json.split)
  ultimately show ?thesis
    using spread_self [OF d(1)] by (simp add: merge_replayed_task_def merge_metadata_def)
qed


text \<open>The entry a registration leaves is the one a second registration computes.\<close>

lemma resolve_again:
  assumes res: "resolve_entry runs previous e = Inr e'" and wf: "run_wf e" and ok: "run_ok (e'\<lparr>wr_step := n\<rparr>)"
    and r: "wr_lifetime r = wr_lifetime e'"
  shows "resolve_entry new (Some r) e = Inr e'"
proof (cases "wr_lifetime e")
  case TurnLifetime
  with res show ?thesis by (simp add: resolve_entry_def)
next
  case (SessionLifetime t)
  then have t: "task_wf t" using wf by (simp add: run_wf_def)
  show ?thesis
  proof (cases "Option.bind previous background_task")
    case None
    with res SessionLifetime
    have e': "e' = e\<lparr>wr_lifetime := SessionLifetime (t\<lparr>wt_cohort := joined_cohort runs\<rparr>)\<rparr>"
      by (simp add: resolve_entry_def)
    with ok have "case wt_activity t of None \<Rightarrow> True | Some a \<Rightarrow> is_activity_work_identity a"
      by (simp add: run_ok_def workflow_task_ok_def)
    from merge_self [OF t this] show ?thesis
      using r e' SessionLifetime by (simp add: resolve_entry_def)
  next
    case (Some p)
    with res SessionLifetime
    have e': "e' = e\<lparr>wr_lifetime := SessionLifetime (merge_replayed_task p t)\<rparr>"
      by (auto simp: resolve_entry_def split: if_splits)
    have "wt_id (merge_replayed_task p t) = wt_id t" by (simp add: merge_replayed_task_def)
    with merge_idem [OF t, of p] show ?thesis
      using r e' SessionLifetime by (simp add: resolve_entry_def)
  qed
qed

lemma resolve_entry_fields:
  "resolve_entry runs previous e = Inr e' \<Longrightarrow> wr_tool e' = wr_tool e \<and> same_identity e e'
    \<and> (background_task e' = None) = (background_task e = None)"
  by (auto simp: resolve_entry_def same_identity_def split: option.splits if_splits run_lifetime.splits)

lemma register_with:
  assumes "read_registry st = Inr runs" "find_index (same_identity e) runs = Some i"
    and "(background_task (runs ! i) = None) = (background_task e = None)" "wr_tool (runs ! i) = wr_tool e"
    and "resolve_entry runs (Some (runs ! i)) e = Inr e'" and "check_outcome e' = Inr x"
    and "e'\<lparr>wr_step := wr_step (runs ! i)\<rparr> = runs ! i"
  shows "register_workflow_tool_run st e = write_registry st runs"
  using assms
  by (cases "background_task e"; cases "background_task (runs ! i)")
    (simp_all del: background_task.simps background_task_simps add: register_workflow_tool_run_def Let_def)

lemma read_written:
  assumes "write_registry st runs = Inr st'" "runs \<noteq> []"
    and "\<forall>r \<in> set runs. keys_ok r"
  shows "state_get st' WORKFLOW_TOOL_RUNS_STATE_KEY = Some (registry_object runs)"
proof -
  from assms(1,2) obtain parsed where p: "parse_registry (registry_object runs) = Inr parsed"
    "st' = Some (state_put st WORKFLOW_TOOL_RUNS_STATE_KEY (registry_object parsed))"
    by (auto simp: write_registry_def split: sum.splits)
  with parse_registry_object [OF assms(3)] have "parsed = runs" by blast
  with p show ?thesis by simp
qed

lemma registry_ok_nth: "registry_ok runs \<Longrightarrow> i < length runs \<Longrightarrow> run_ok (runs ! i)"
  by (simp add: registry_ok_def)

text \<open>
  Registering a run is idempotent: a replay of the same entry finds the run it left and changes
  nothing, whatever was recorded before the first registration.
\<close>

lemma registration_idempotent:
  assumes inv: "registry_inv st" and wf: "run_wf e" and reg: "register_workflow_tool_run st e = Inr st'"
  shows "register_workflow_tool_run st' e = Inr st'"
proof -
  from inv obtain runs where r: "read_registry st = Inr runs" "runs_ok runs" "registry_ok runs"
    by (rule registry_invE)
  define index where "index = find_index (same_identity e) runs"
  define previous where "previous = map_option (\<lambda>i. runs ! i) index"
  from reg r(1) obtain e' x where
    same: "\<not> (case previous of None \<Rightarrow> False
                  | Some p \<Rightarrow> (background_task p = None) \<noteq> (background_task e = None) \<or> wr_tool p \<noteq> wr_tool e)"
    and res: "resolve_entry runs previous e = Inr e'" and chk: "check_outcome e' = Inr x"
    and w: "write_registry st (case index of None \<Rightarrow> runs @ [e'] | Some i \<Rightarrow> runs[i := e'\<lparr>wr_step := wr_step (runs ! i)\<rparr>])
      = Inr st'"
    unfolding register_workflow_tool_run_def r(1) sum.case Let_def index_def [symmetric] previous_def [symmetric]
    by (auto simp del: background_task_simps background_task.simps split: if_splits sum.splits)
  note f = resolve_entry_fields [OF res]
  define new where "new = (case index of None \<Rightarrow> runs @ [e'] | Some i \<Rightarrow> runs[i := e'\<lparr>wr_step := wr_step (runs ! i)\<rparr>])"
  from registered_run_ok [OF r(2,3) run_wf_keys [OF wf] index_def previous_def same res chk new_def]
  have k: "\<forall>r \<in> set new. keys_ok r" by blast
  from w have w: "write_registry st new = Inr st'" by (simp add: new_def)
  from write_read [OF k w r(1)] have rd: "read_registry st' = Inr new" "registry_ok new" by blast+
  obtain i n where i: "find_index (same_identity e) new = Some i" "new ! i = e'\<lparr>wr_step := n\<rparr>" "i < length new"
  proof (cases index)
    case None
    then have "find_index (same_identity e) (runs @ [e']) = Some (length runs)"
      using f index_def by (intro find_index_snoc_new) simp_all
    with None that [of "length runs" "wr_step e'"] show thesis by (simp add: new_def)
  next
    case (Some j)
    let ?r = "e'\<lparr>wr_step := wr_step (runs ! j)\<rparr>"
    have j: "find_index (same_identity e) runs = Some j" using Some index_def by simp
    have "same_identity e ?r" using f by (simp add: same_identity_def)
    then have "find_index (same_identity e) (runs[j := ?r]) = Some j"
      by (rule find_index_list_update [OF j])
    moreover have "j < length runs" using j by (rule find_index_SomeD(1))
    ultimately show thesis using Some that [of j "wr_step (runs ! j)"] by (simp add: new_def)
  qed
  have l: "wr_lifetime (new ! i) = wr_lifetime e'" "wr_tool (new ! i) = wr_tool e"
    using i(2) f by simp_all
  have "run_ok (new ! i)" by (rule registry_ok_nth [OF rd(2) i(3)])
  then have ok: "run_ok (e'\<lparr>wr_step := n\<rparr>)" using i(2) by simp
  note again = resolve_again [OF res wf ok l(1), of new]
  have b: "(background_task (new ! i) = None) = (background_task e = None)"
    using i(2) f by simp
  have s: "e'\<lparr>wr_step := wr_step (new ! i)\<rparr> = new ! i" using i(2) by simp
  have ne: "new \<noteq> []" using i(3) by auto
  from register_with [OF rd(1) i(1) b l(2) again chk s]
    write_same [OF rd(1) read_written [OF w ne k] ne]
  show ?thesis by simp
qed

definition sample_dispatch :: json where
  "sample_dispatch = JObj [(''auth'', JObj [(''current'', JNull), (''initiator'', JNull)])]"

definition sample_task :: "string \<Rightarrow> workflow_task" where
  "sample_task i = \<lparr>wt_id = i, wt_metadata = \<lparr>task_kind = ''agent'', task_name = ''research'', task_other = []\<rparr>,
     wt_dispatch = sample_dispatch, wt_activity = None, wt_cohort = None, wt_outcome = None\<rparr>"

definition sample_run :: "string \<Rightarrow> string \<Rightarrow> workflow_run" where
  "sample_run call i = \<lparr>wr_call = call, wr_tool = ''research'', wr_turn = ''turn_1'', wr_step = 0, wr_run_id = ''run'',
     wr_hook = ''hook'', wr_lifetime = SessionLifetime (sample_task i)\<rparr>"

definition sample_result :: json where
  "sample_result = JObj [(''status'', JStr ''completed''), (''lastOutput'', JObj [(''type'', JStr ''result'')])]"

definition sample_ops :: "registry_op list" where
  "sample_ops = [RegisterRun (sample_run ''c1'' ''t1''), RegisterRun (sample_run ''c2'' ''t2''),
     RecordTaskView ''t1'' \<lparr>task_kind = ''agent'', task_name = ''research'', task_other = []\<rparr> sample_result]"

lemma sample_wf [simp]: "run_wf (sample_run call i)" "list_all op_wf sample_ops"
  by (simp_all add: sample_run_def sample_task_def run_wf_def task_wf_def metadata_wf_def sample_ops_def)

lemma registration_idempotent_witness:
  "\<exists>st. register_workflow_tool_run None (sample_run ''c1'' ''t1'') = Inr st
     \<and> register_workflow_tool_run st (sample_run ''c1'' ''t1'') = Inr st"
proof -
  have "case register_workflow_tool_run None (sample_run ''c1'' ''t1'') of Inl e \<Rightarrow> False | Inr st \<Rightarrow> True"
    by code_simp
  then obtain st where "register_workflow_tool_run None (sample_run ''c1'' ''t1'') = Inr st"
    by (auto split: sum.splits)
  with registration_idempotent [of None "sample_run ''c1'' ''t1''" st] show ?thesis by simp
qed

section \<open>What holds of every registry\<close>

text \<open>C15: Whatever runs are registered, settled and removed, in any order, the registry stays readable,
  the tasks still running are all of one cohort, and a cohort is named after one of its session's tasks.\<close>

theorem one_open_cohort:
  assumes "list_all op_wf xs"
  shows "\<exists>runs. read_registry (foldl registry_step None xs) = Inr runs
    \<and> (\<forall>t \<in> set (tasks_of runs). \<forall>u \<in> set (tasks_of runs).
         wt_outcome t = None \<and> wt_outcome u = None \<longrightarrow> get_task_cohort_id t = get_task_cohort_id u)
    \<and> (\<forall>t \<in> set (tasks_of runs). get_task_cohort_id t \<in> wt_id ` set (tasks_of runs))"
proof -
  from registry_run_inv [OF registry_inv_None assms] obtain runs
    where r: "read_registry (foldl registry_step None xs) = Inr runs" and "runs_ok runs"
    by (rule registry_invE)
  then have "cohorts_ok runs" by (simp add: runs_ok_def)
  with r show ?thesis unfolding cohorts_ok_def by (rule exI [of _ runs, OF conjI])
qed

lemma one_open_cohort_witness:
  "\<exists>runs. read_registry (foldl registry_step None sample_ops) = Inr runs \<and> length runs = 2"
proof -
  have "case read_registry (foldl registry_step None sample_ops) of Inl e \<Rightarrow> False | Inr runs \<Rightarrow> length runs = 2"
    by code_simp
  with one_open_cohort [of sample_ops] show ?thesis by auto
qed

text \<open>
  A registered background task stays in the registry for the session, under its id, cohort and
  dispatch context, and once it has an outcome no later operation changes it.
\<close>

lemma task_kept_for_session:
  assumes "list_all op_wf (xs @ ys)" and "read_registry (foldl registry_step None xs) = Inr runs"
    and "t \<in> set (tasks_of runs)"
  shows "\<exists>later u. read_registry (foldl registry_step None (xs @ ys)) = Inr later \<and> u \<in> set (tasks_of later)
    \<and> wt_id u = wt_id t \<and> get_task_cohort_id u = get_task_cohort_id t \<and> wt_dispatch u = wt_dispatch t
    \<and> (\<forall>v. wt_outcome t = Some v \<longrightarrow> wt_outcome u = Some v)"
proof -
  let ?st = "foldl registry_step None xs"
  have "registry_inv ?st" using assms(1) by (intro registry_run_inv) simp_all
  moreover have "list_all op_wf ys" using assms(1) by simp
  ultimately have "registry_grows ?st (foldl registry_step ?st ys)" by (rule registry_run_grows)
  with assms(2) obtain later where l: "read_registry (foldl registry_step ?st ys) = Inr later" "keeps_tasks runs later"
    by (auto simp: registry_grows_def split: sum.splits)
  with assms(3) obtain u where "u \<in> set (tasks_of later)" "same_task t u"
    by (auto simp: keeps_tasks_def)
  with l(1) show ?thesis by (auto simp: same_task_def)
qed

lemma task_kept_for_session_witness:
  "\<exists>later. read_registry (foldl registry_step None (sample_ops @ [RemoveBlocking ''turn_1'' None])) = Inr later
     \<and> (\<exists>u \<in> set (tasks_of later). wt_id u = ''t1'' \<and> wt_outcome u = Some sample_result)"
proof -
  have "case read_registry (foldl registry_step None sample_ops) of Inl e \<Rightarrow> False
    | Inr runs \<Rightarrow> list_ex (\<lambda>t. wt_id t = ''t1'' \<and> wt_outcome t = Some sample_result) (tasks_of runs)"
    by code_simp
  then obtain runs t where "read_registry (foldl registry_step None sample_ops) = Inr runs" "t \<in> set (tasks_of runs)"
    "wt_id t = ''t1''" "wt_outcome t = Some sample_result"
    by (auto simp: list_ex_iff split: sum.splits)
  with task_kept_for_session [of sample_ops "[RemoveBlocking ''turn_1'' None]" runs t] show ?thesis by auto
qed

section \<open>The context of a delivery\<close>

lemma colon_prefix:
  assumes "CHR '':'' \<notin> set a" "CHR '':'' \<notin> set b"
  shows "prefix (a @ '':'') (b @ '':'' @ rest) \<longleftrightarrow> a = b"
proof
  assume "prefix (a @ '':'') (b @ '':'' @ rest)"
  then obtain zs where "b @ CHR '':'' # rest = a @ CHR '':'' # zs" by (auto simp: prefix_def)
  then have "takeWhile (\<lambda>c. c \<noteq> CHR '':'') (b @ CHR '':'' # rest) = takeWhile (\<lambda>c. c \<noteq> CHR '':'') (a @ CHR '':'' # zs)"
    by simp
  with assms show "a = b" by (subst (asm) (1 2) takeWhile_append2) auto
qed simp

lemma project_task_total:
  "\<forall>v. wt_outcome t = Some v \<longrightarrow> parse_task_outcome v = Some v \<Longrightarrow> \<exists>j. project_task s t = Inr j"
  by (auto simp: project_task_def read_workflow_task_view_def split: option.split)

lemma project_cohort_total:
  assumes "\<forall>t \<in> set ts. \<forall>v. wt_outcome t = Some v \<longrightarrow> parse_task_outcome v = Some v"
  shows "\<exists>p. project_task_cohort ts = Inr p \<and> projected_settled p = list_all (\<lambda>t. wt_outcome t \<noteq> None) ts"
proof -
  let ?s = "list_all (\<lambda>t. wt_outcome t \<noteq> None) ts"
  have "\<exists>js. those_sum (map (project_task ?s) ts) = Inr js"
    using assms project_task_total by (intro those_sum_total) auto
  then show ?thesis by (auto simp: project_task_cohort_def Let_def)
qed

lemma tasks_of_background: "tasks_of (background_runs runs) = tasks_of runs"
  by (induction runs) (auto simp: background_runs_def split: run_lifetime.splits)

lemma unique_task:
  "distinct (map wt_id (tasks_of runs)) \<Longrightarrow> t \<in> set (tasks_of runs) \<Longrightarrow> u \<in> set (tasks_of runs) \<Longrightarrow>
   wt_id t = wt_id u \<Longrightarrow> t = u"
  by (metis distinct_map inj_onD)

text \<open>
  A delivery from a registered task never meets a corrupt registry: its context is that of the
  task's cohort, in the phase settled exactly when no task of the cohort is still running. Task ids
  hold no colon, as \<open>deriveTaskId\<close> makes them.
\<close>

lemma delivery_context_phase:
  assumes "list_all op_wf xs" and "read_registry (foldl registry_step None xs) = Inr runs"
    and "\<forall>u \<in> set (tasks_of runs). CHR '':'' \<notin> set (wt_id u)" and "t \<in> set (tasks_of runs)"
  shows "\<exists>p turn. resolve_task_delivery_context (foldl registry_step None xs) (wt_id t @ '':'' @ rest) = Inr (Some (p, turn))
    \<and> (projected_settled p \<longleftrightarrow>
        (\<forall>u \<in> set (tasks_of runs). get_task_cohort_id u = get_task_cohort_id t \<longrightarrow> wt_outcome u \<noteq> None))"
proof -
  let ?st = "foldl registry_step None xs" and ?d = "wt_id t @ '':'' @ rest"
  have "registry_inv ?st" by (rule registry_run_inv [OF registry_inv_None assms(1)])
  then have ok: "runs_ok runs" "registry_ok runs"
    using assms(2) by (auto simp: registry_inv_def dest: read_registry_ok)
  let ?hit = "\<lambda>r. case background_task r of None \<Rightarrow> False | Some t \<Rightarrow> prefix (wt_id t @ '':'') ?d"
  have hit: "?hit r \<longleftrightarrow> wr_lifetime r = SessionLifetime t" if r: "r \<in> set runs" for r
  proof (cases "wr_lifetime r")
    case (SessionLifetime u)
    with r have u: "u \<in> set (tasks_of runs)" by (auto simp: set_tasks_of)
    with assms(3,4) have "prefix (wt_id u @ '':'') ?d \<longleftrightarrow> wt_id u = wt_id t" by (intro colon_prefix) simp_all
    moreover have "wt_id u = wt_id t \<longleftrightarrow> u = t"
      using unique_task [OF _ u assms(4)] ok(2) by (auto simp: registry_ok_def)
    ultimately show ?thesis using SessionLifetime by simp
  qed simp
  from assms(4) obtain r where r: "r \<in> set (background_runs runs)" "wr_lifetime r = SessionLifetime t"
    by (auto simp: set_tasks_of background_runs_def)
  then have "\<exists>x \<in> set (background_runs runs). ?hit x"
    using hit [of r] by (auto simp: background_runs_def)
  then obtain d where d: "List.find ?hit (background_runs runs) = Some d"
    by (metis (no_types, lifting) find_None_iff option.exhaust)
  then have "d \<in> set runs" "?hit d" by (auto simp: find_Some_iff background_runs_def dest: nth_mem)
  with hit have l: "wr_lifetime d = SessionLifetime t" by blast
  let ?c = "filter (\<lambda>u. get_task_cohort_id u = get_task_cohort_id t) (tasks_of runs)"
  have "\<forall>u \<in> set ?c. \<forall>v. wt_outcome u = Some v \<longrightarrow> parse_task_outcome v = Some v"
    using ok(1) by (auto simp: runs_ok_def outcomes_ok_def)
  from project_cohort_total [OF this] obtain p where p: "project_task_cohort ?c = Inr p"
    "projected_settled p = list_all (\<lambda>t. wt_outcome t \<noteq> None) ?c" by blast
  have "resolve_task_delivery_context ?st ?d = Inr (Some (p, wr_turn d))"
    unfolding resolve_task_delivery_context_def get_background_workflow_tool_runs_def get_workflow_tool_runs_def
      assms(2) map_sum.simps sum.case d option.case tasks_of_background
    using l p(1) by simp
  with p(2) show ?thesis by (auto simp: list_all_iff)
qed

lemma delivery_context_phase_witness:
  "\<exists>p turn. resolve_task_delivery_context (foldl registry_step None sample_ops) (''t1'' @ '':'' @ ''ready:completed'')
     = Inr (Some (p, turn)) \<and> \<not> projected_settled p"
proof -
  have "case read_registry (foldl registry_step None sample_ops) of Inl e \<Rightarrow> False
    | Inr runs \<Rightarrow> map wt_id (tasks_of runs) = [''t1'', ''t2''] \<and> map wt_outcome (tasks_of runs) = [Some sample_result, None]
        \<and> map get_task_cohort_id (tasks_of runs) = [''t1'', ''t1'']"
    by code_simp
  then obtain runs where r: "read_registry (foldl registry_step None sample_ops) = Inr runs"
    and m: "map wt_id (tasks_of runs) = [''t1'', ''t2'']" "map wt_outcome (tasks_of runs) = [Some sample_result, None]"
      "map get_task_cohort_id (tasks_of runs) = [''t1'', ''t1'']"
    by (auto split: sum.splits)
  from m obtain t u where ts: "tasks_of runs = [t, u]" by (auto simp: Cons_eq_map_conv)
  with m have f: "wt_id t = ''t1''" "wt_id u = ''t2''" "wt_outcome u = None" "get_task_cohort_id u = get_task_cohort_id t"
    by simp_all
  with r ts delivery_context_phase [of sample_ops runs t "''ready:completed''"] show ?thesis by simp
qed

end
