(* ===== verification/Message_Parts.thy ===== *)
theory Message_Parts
  imports Json_Value
begin

text \<open>
  The client message projection (packages/eve/src/client/): its data
  (message-reducer-types.ts), and the helpers that build parts: message-reducer-primitives.ts,
  message-run-parts.ts, message-action-parts.ts and authorization-message-parts.ts.
  A property typed \<open>unknown\<close> holds a JSON value; an optional property is an option.
\<close>

section \<open>Actions and input requests (shared/action-types.ts, shared/input.ts)\<close>

record tool_call_action =
  tca_call_id :: string
  tca_input :: json
  tca_tool_name :: string

record subagent_call_action =
  sca_call_id :: string
  sca_description :: string
  sca_input :: json
  sca_name :: string
  sca_node_id :: string
  sca_subagent_name :: string

record remote_agent_call_action =
  rca_call_id :: string
  rca_description :: string
  rca_input :: json
  rca_name :: string
  rca_node_id :: string
  rca_remote_agent_name :: string

record workflow_tool_call_action =
  wca_call_id :: string
  wca_input :: json
  wca_tool_name :: string
  wca_workflow_id :: string

record load_skill_action =
  lsa_call_id :: string
  lsa_input :: json

datatype action_request =
    LoadSkill load_skill_action
  | RemoteAgentCall remote_agent_call_action
  | SubagentCall subagent_call_action
  | ToolCall tool_call_action
  | WorkflowToolCall workflow_tool_call_action

fun action_call_id :: "action_request \<Rightarrow> string" where
  "action_call_id (LoadSkill a) = lsa_call_id a"
| "action_call_id (RemoteAgentCall a) = rca_call_id a"
| "action_call_id (SubagentCall a) = sca_call_id a"
| "action_call_id (ToolCall a) = tca_call_id a"
| "action_call_id (WorkflowToolCall a) = wca_call_id a"

text \<open>Every schema of the union has an \<open>input\<close> property.\<close>

fun action_input :: "action_request \<Rightarrow> json option" where
  "action_input (LoadSkill a) = Some (lsa_input a)"
| "action_input (RemoteAgentCall a) = Some (rca_input a)"
| "action_input (SubagentCall a) = Some (sca_input a)"
| "action_input (ToolCall a) = Some (tca_input a)"
| "action_input (WorkflowToolCall a) = Some (wca_input a)"

datatype reducer_result =
    LoadSkillResult (result_call_id: string) (result_output: json) (result_skill: "string option")
  | SubagentResult (result_call_id: string) (result_output: json) (result_subagent: string)
  | ToolResult (result_call_id: string) (result_output: json) (result_tool: string)

datatype option_style = Primary | Danger | DefaultStyle
datatype input_display = Confirmation | Select | TextDisplay
datatype input_request_kind = Question | SessionLimit | ToolApproval

record input_option =
  option_description :: "string option"
  option_id :: string
  option_label :: string
  option_style :: "option_style option"

record input_request =
  ir_action :: tool_call_action
  ir_allow_freeform :: "bool option"
  ir_display :: "input_display option"
  ir_kind :: input_request_kind
  ir_options :: "input_option list option"
  ir_prompt :: string
  ir_request_id :: string

record input_response =
  response_option_id :: "string option"
  response_request_id :: string
  response_text :: "string option"

section \<open>Messages\<close>

record message_input_request =
  mir_allow_freeform :: "bool option"
  mir_display :: "input_display option"
  mir_kind :: input_request_kind
  mir_options :: "input_option list option"
  mir_prompt :: string
  mir_request_id :: string

datatype tool_kind = LoadSkillKind | SubagentCallKind | ToolCallKind | UnknownKind

record eve_metadata =
  em_input_request :: "message_input_request option"
  em_input_response :: "input_response option"
  em_kind :: tool_kind
  em_name :: string

text \<open>The object with the optional property \<open>eve\<close>.\<close>

type_synonym tool_metadata = "eve_metadata option"

record approval =
  approval_id :: string
  approved :: "bool option"
  approval_reason :: "string option"
  is_automatic :: "bool option"

datatype tool_state =
    InputStreaming (input_text: string)
  | InputAvailable
  | ApprovalRequested
  | ApprovalResponded
  | OutputAvailable (tool_output: json) (is_partial: bool)
  | OutputError (error_text: string)
  | OutputDenied

record tool_part =
  tool_step :: "nat option"
  tool_call_id :: string
  part_metadata :: "tool_metadata option"
  tool_name :: string
  tool_input :: "json option"
  tool_approval :: "approval option"
  part_state :: tool_state

record auth_challenge =
  challenge_display_name :: "string option"
  challenge_expires_at :: "string option"
  challenge_instructions :: "string option"
  challenge_url :: "string option"
  challenge_user_code :: "string option"

datatype auth_outcome = Authorized | Declined | FailedOutcome | TimedOut

datatype auth_state = Required | Completed auth_outcome "string option"

record auth_part =
  auth_challenge :: "auth_challenge option"
  auth_description :: string
  auth_display_name :: string
  auth_name :: string
  auth_step :: nat
  auth_turn :: string
  auth_state :: auth_state

datatype run_type = TextRun | ReasoningRun
datatype run_state = Done | Streaming

record run_part =
  run_provider_metadata :: "json option"
  run_state :: "run_state option"
  run_step :: "nat option"
  run_text :: string

record file_part =
  file_name :: "string option"
  file_media_type :: string
  file_size :: "nat option"
  file_step :: "nat option"
  file_url :: "string option"

datatype message_part =
    Run run_type run_part
  | File file_part
  | StepStart
  | Auth auth_part
  | Tool tool_part

datatype message_status = CompleteStatus | FailedStatus | StreamingStatus | SubmittedStatus

record message_metadata =
  meta_optimistic :: bool
  meta_result :: "json option"
  meta_status :: "message_status option"
  meta_turn :: "string option"

datatype role = Assistant | User

record message =
  message_id :: string
  metadata :: "message_metadata option"
  parts :: "message_part list"
  role :: role

type_synonym message_data = "message list"

definition no_metadata :: message_metadata where
  "no_metadata = \<lparr>meta_optimistic = False, meta_result = None, meta_status = None, meta_turn = None\<rparr>"

text \<open>The spread \<open>...message.metadata\<close> of an absent object contributes nothing.\<close>

definition spread_metadata :: "message \<Rightarrow> message_metadata" where
  "spread_metadata m = (case metadata m of None \<Rightarrow> no_metadata | Some x \<Rightarrow> x)"

definition metadata_turn :: "message \<Rightarrow> string option" where
  "metadata_turn m = (case metadata m of None \<Rightarrow> None | Some x \<Rightarrow> meta_turn x)"

section \<open>Primitives (message-reducer-primitives.ts)\<close>

datatype received_part =
    ReceivedText string
  | ReceivedFile "string option" string "nat option" "string option"

fun project_received_part :: "received_part \<Rightarrow> message_part" where
  "project_received_part (ReceivedText t) =
     Run TextRun \<lparr>run_provider_metadata = None, run_state = Some Done, run_step = None, run_text = t\<rparr>"
| "project_received_part (ReceivedFile name media bytes url) =
     File \<lparr>file_name = name, file_media_type = media, file_size = bytes, file_step = None, file_url = url\<rparr>"

definition project_received_parts :: "received_part list option \<Rightarrow> string \<Rightarrow> message_part list" where
  "project_received_parts ps message =
     (case ps of
        Some xs \<Rightarrow> map project_received_part xs
      | None \<Rightarrow> [project_received_part (ReceivedText message)])"

definition step_or_zero :: "nat option \<Rightarrow> string" where
  "step_or_zero s = show_nat (case s of None \<Rightarrow> 0 | Some n \<Rightarrow> n)"

fun part_key :: "message_part \<Rightarrow> string" where
  "part_key (Run TextRun r) = ''text:'' @ step_or_zero (run_step r)"
| "part_key (Run ReasoningRun r) = ''reasoning:'' @ step_or_zero (run_step r)"
| "part_key (File f) =
     ''file:'' @ step_or_zero (file_step f) @ '':''
       @ (case file_name f of Some n \<Rightarrow> n
          | None \<Rightarrow> (case file_url f of Some u \<Rightarrow> u | None \<Rightarrow> file_media_type f))"
| "part_key StepStart = ''step-start''"
| "part_key (Auth a) = ''authorization:'' @ auth_turn a @ '':'' @ show_nat (auth_step a) @ '':'' @ auth_name a"
| "part_key (Tool t) = ''dynamic-tool:'' @ tool_call_id t"

definition replace_or_append :: "('a \<Rightarrow> bool) \<Rightarrow> 'a \<Rightarrow> 'a list \<Rightarrow> 'a list" where
  "replace_or_append P x xs =
     (case find_index P xs of None \<Rightarrow> xs @ [x] | Some i \<Rightarrow> take i xs @ [x] @ drop (Suc i) xs)"

definition upsert_message :: "message_data \<Rightarrow> message \<Rightarrow> message_data" where
  "upsert_message data next = replace_or_append (\<lambda>m. message_id m = message_id next) next data"

fun is_input_streaming :: "message_part \<Rightarrow> bool" where
  "is_input_streaming (Tool t) = (case part_state t of InputStreaming x \<Rightarrow> True | _ \<Rightarrow> False)"
| "is_input_streaming _ = False"

definition is_assistant_of :: "string \<Rightarrow> message \<Rightarrow> bool" where
  "is_assistant_of turn m \<longleftrightarrow> role m = Assistant \<and> metadata_turn m = Some turn"

definition remove_streaming_tool_parts :: "message_part list \<Rightarrow> message_part list" where
  "remove_streaming_tool_parts ps = filter (\<lambda>p. \<not> is_input_streaming p) ps"

definition remove_streaming_tool_parts_for_turn :: "message_data \<Rightarrow> string \<Rightarrow> message_data" where
  "remove_streaming_tool_parts_for_turn data turn =
     (case find_index (is_assistant_of turn) data of
        None \<Rightarrow> data
      | Some i \<Rightarrow> upsert_message data
          ((data ! i)\<lparr>parts := filter (\<lambda>p. \<not> is_input_streaming p) (parts (data ! i))\<rparr>))"

definition optimistic_user_message_id :: "string \<Rightarrow> string" where
  "optimistic_user_message_id s = ''optimistic:'' @ s @ '':user''"

section \<open>Runs of text and reasoning (message-run-parts.ts)\<close>

fun is_run_at :: "run_type \<Rightarrow> nat option \<Rightarrow> message_part \<Rightarrow> bool" where
  "is_run_at t s (Run t' r) = (t' = t \<and> run_step r = s)"
| "is_run_at t s _ = False"

fun is_open_run :: "message_part \<Rightarrow> bool" where
  "is_open_run (Run t r) = (run_state r = Some Streaming)"
| "is_open_run _ = False"

definition latest_streaming_run :: "message \<Rightarrow> run_type \<Rightarrow> nat \<Rightarrow> run_part option" where
  "latest_streaming_run m t step =
     (case find_last_index (is_run_at t (Some step)) (parts m) of
        None \<Rightarrow> None
      | Some i \<Rightarrow>
          (case parts m ! i of
             Run t' r \<Rightarrow> if run_state r = Some Streaming then Some r else None
           | _ \<Rightarrow> None))"

definition with_status :: "message \<Rightarrow> message_status \<Rightarrow> message_part list \<Rightarrow> message" where
  "with_status m s ps = m\<lparr>metadata := Some ((spread_metadata m)\<lparr>meta_status := Some s\<rparr>), parts := ps\<rparr>"

definition run_upsert :: "message \<Rightarrow> run_type \<Rightarrow> run_part \<Rightarrow> message" where
  "run_upsert m t next =
     (let last_index = find_last_index (is_run_at t (run_step next)) (parts m);
          ps = (case last_index of
                  None \<Rightarrow> parts m @ [Run t next]
                | Some i \<Rightarrow>
                    if is_open_run (parts m ! i)
                    then take i (parts m) @ [Run t next] @ drop (Suc i) (parts m)
                    else parts m @ [Run t next])
      in with_status m (if t = TextRun \<and> run_state next = Some Done then CompleteStatus else StreamingStatus) ps)"

definition run_append :: "message \<Rightarrow> run_type \<Rightarrow> nat \<Rightarrow> string \<Rightarrow> message" where
  "run_append m t step delta =
     (let current = latest_streaming_run m t step
      in run_upsert m t
           \<lparr>run_provider_metadata = None, run_state = Some Streaming, run_step = Some step,
            run_text = (case current of None \<Rightarrow> [] | Some r \<Rightarrow> run_text r) @ delta\<rparr>)"

section \<open>Tool parts (message-action-parts.ts)\<close>

record action_descriptor =
  descriptor_kind :: tool_kind
  descriptor_name :: string
  descriptor_tool :: string

definition to_message_input_request :: "input_request \<Rightarrow> message_input_request" where
  "to_message_input_request r =
     \<lparr>mir_allow_freeform = ir_allow_freeform r, mir_display = ir_display r, mir_kind = ir_kind r,
      mir_options = ir_options r, mir_prompt = ir_prompt r, mir_request_id = ir_request_id r\<rparr>"

definition create_tool_metadata :: "action_descriptor \<Rightarrow> message_input_request option \<Rightarrow> tool_metadata" where
  "create_tool_metadata d request =
     Some \<lparr>em_input_request = request, em_input_response = None,
           em_kind = descriptor_kind d, em_name = descriptor_name d\<rparr>"

definition eve_of :: "tool_metadata option \<Rightarrow> eve_metadata option" where
  "eve_of m = (case m of None \<Rightarrow> None | Some x \<Rightarrow> x)"

text \<open>\<open>a ?? b\<close> on optional values.\<close>

definition coalesce :: "'a option \<Rightarrow> 'a option \<Rightarrow> 'a option" where
  "coalesce a b = (case a of None \<Rightarrow> b | Some x \<Rightarrow> Some x)"

definition merge_tool_metadata :: "tool_metadata option \<Rightarrow> tool_metadata \<Rightarrow> tool_metadata" where
  "merge_tool_metadata current next =
     Some \<lparr>em_input_request = coalesce (Option.bind next em_input_request) (Option.bind (eve_of current) em_input_request),
           em_input_response = coalesce (Option.bind next em_input_response) (Option.bind (eve_of current) em_input_response),
           em_kind = (case coalesce (map_option em_kind next) (map_option em_kind (eve_of current)) of
                        None \<Rightarrow> UnknownKind | Some k \<Rightarrow> k),
           em_name = (case coalesce (map_option em_name next) (map_option em_name (eve_of current)) of
                        None \<Rightarrow> ''unknown'' | Some n \<Rightarrow> n)\<rparr>"

text \<open>The guard \<open>!part?.approval?.id\<close> is also true of the empty identifier.\<close>

definition approved_approval :: "tool_part option \<Rightarrow> approval option" where
  "approved_approval p =
     (case Option.bind p tool_approval of
        None \<Rightarrow> None
      | Some a \<Rightarrow>
          if approval_id a = [] then None
          else Some \<lparr>approval_id = approval_id a, approved = Some True,
                     approval_reason = approval_reason a, is_automatic = is_automatic a\<rparr>)"

fun normalize_action_request :: "action_request \<Rightarrow> action_descriptor" where
  "normalize_action_request (LoadSkill a) =
     \<lparr>descriptor_kind = LoadSkillKind, descriptor_name = ''load_skill'', descriptor_tool = ''eve:load-skill''\<rparr>"
| "normalize_action_request (ToolCall a) =
     \<lparr>descriptor_kind = ToolCallKind, descriptor_name = tca_tool_name a, descriptor_tool = tca_tool_name a\<rparr>"
| "normalize_action_request (WorkflowToolCall a) =
     \<lparr>descriptor_kind = ToolCallKind, descriptor_name = wca_tool_name a, descriptor_tool = wca_tool_name a\<rparr>"
| "normalize_action_request (SubagentCall a) =
     \<lparr>descriptor_kind = SubagentCallKind, descriptor_name = sca_subagent_name a,
      descriptor_tool = ''eve:subagent:'' @ sca_subagent_name a\<rparr>"
| "normalize_action_request (RemoteAgentCall a) =
     \<lparr>descriptor_kind = SubagentCallKind, descriptor_name = rca_remote_agent_name a,
      descriptor_tool = ''eve:subagent:'' @ rca_remote_agent_name a\<rparr>"

fun normalize_action_result :: "reducer_result \<Rightarrow> action_descriptor" where
  "normalize_action_result (LoadSkillResult i out skill) =
     \<lparr>descriptor_kind = LoadSkillKind,
      descriptor_name = (case skill of None \<Rightarrow> ''load_skill'' | Some n \<Rightarrow> n),
      descriptor_tool = ''eve:load-skill''\<rparr>"
| "normalize_action_result (ToolResult i out name) =
     \<lparr>descriptor_kind = ToolCallKind, descriptor_name = name, descriptor_tool = name\<rparr>"
| "normalize_action_result (SubagentResult i out name) =
     \<lparr>descriptor_kind = SubagentCallKind, descriptor_name = name,
      descriptor_tool = ''eve:subagent:'' @ name\<rparr>"

text \<open>The result outputs are JSON values, so the serialisation neither throws nor is undefined.\<close>

fun stringify_unknown :: "json \<Rightarrow> string" where
  "stringify_unknown (JStr s) = s"
| "stringify_unknown v = json_stringify v"

section \<open>Authorization parts (authorization-message-parts.ts)\<close>

text \<open>\<open>toUpperCase\<close> on a one-character ASCII string.\<close>

definition upper_char :: "char \<Rightarrow> char" where
  "upper_char c = (if 97 \<le> (of_char c :: nat) \<and> (of_char c :: nat) \<le> 122 then char_of ((of_char c :: nat) - 32) else c)"

fun format_authorization_display_name :: "string \<Rightarrow> string" where
  "format_authorization_display_name [] = []"
| "format_authorization_display_name (c # cs) = upper_char c # cs"

definition normalize_authorization_description :: "string \<Rightarrow> string \<Rightarrow> string \<Rightarrow> string" where
  "normalize_authorization_description description name display_name =
     (if description = ''Authorization required for '' @ name
      then ''Authorization required for '' @ display_name else description)"

fun auth_outcome_text :: "auth_outcome \<Rightarrow> string" where
  "auth_outcome_text Authorized = ''authorized''"
| "auth_outcome_text Declined = ''declined''"
| "auth_outcome_text FailedOutcome = ''failed''"
| "auth_outcome_text TimedOut = ''timed-out''"

definition build_completed_authorization_description ::
    "string \<Rightarrow> auth_outcome \<Rightarrow> string option \<Rightarrow> string" where
  "build_completed_authorization_description display_name outcome reason =
     (if outcome = Authorized then display_name @ '' connected.''
      else display_name @ '' authorization '' @ auth_outcome_text outcome
        @ (case reason of None \<Rightarrow> [] | Some r \<Rightarrow> '' ('' @ r @ '')'') @ ''.'')"

record auth_required_event =
  are_authorization :: "auth_challenge option"
  are_description :: string
  are_name :: string
  are_step :: nat
  are_turn :: string

record auth_completed_event =
  ace_authorization :: "auth_challenge option"
  ace_name :: string
  ace_outcome :: auth_outcome
  ace_reason :: "string option"
  ace_step :: nat
  ace_turn :: string

definition create_authorization_required_part :: "auth_required_event \<Rightarrow> auth_part" where
  "create_authorization_required_part e =
     (let display_name =
        (case Option.bind (are_authorization e) challenge_display_name of
           Some n \<Rightarrow> n | None \<Rightarrow> format_authorization_display_name (are_name e))
      in \<lparr>auth_challenge = are_authorization e,
          auth_description = normalize_authorization_description (are_description e) (are_name e) display_name,
          auth_display_name = display_name, auth_name = are_name e, auth_step = are_step e,
          auth_turn = are_turn e, auth_state = Required\<rparr>)"

text \<open>\<open>{ ...existing, ...update }\<close> on challenges: a present field of the update wins.\<close>

definition spread_challenge :: "auth_challenge \<Rightarrow> auth_challenge \<Rightarrow> auth_challenge" where
  "spread_challenge a b =
     \<lparr>challenge_display_name = coalesce (challenge_display_name b) (challenge_display_name a),
      challenge_expires_at = coalesce (challenge_expires_at b) (challenge_expires_at a),
      challenge_instructions = coalesce (challenge_instructions b) (challenge_instructions a),
      challenge_url = coalesce (challenge_url b) (challenge_url a),
      challenge_user_code = coalesce (challenge_user_code b) (challenge_user_code a)\<rparr>"

definition create_authorization_completed_part :: "auth_completed_event \<Rightarrow> auth_part option \<Rightarrow> auth_part" where
  "create_authorization_completed_part e existing =
     (let display_name =
        (case Option.bind (ace_authorization e) challenge_display_name of
           Some n \<Rightarrow> n
         | None \<Rightarrow> (case existing of Some p \<Rightarrow> auth_display_name p
                    | None \<Rightarrow> format_authorization_display_name (ace_name e)))
      in \<lparr>auth_challenge =
            (case (Option.bind existing auth_challenge, ace_authorization e) of
               (Some a, Some b) \<Rightarrow> Some (spread_challenge a b)
             | (a, b) \<Rightarrow> coalesce a b),
          auth_description =
            (case existing of Some p \<Rightarrow> auth_description p
             | None \<Rightarrow> build_completed_authorization_description display_name (ace_outcome e) (ace_reason e)),
          auth_display_name = display_name, auth_name = ace_name e,
          auth_step = (case existing of Some p \<Rightarrow> auth_step p | None \<Rightarrow> ace_step e),
          auth_turn = (case existing of Some p \<Rightarrow> auth_turn p | None \<Rightarrow> ace_turn e),
          auth_state = Completed (ace_outcome e) (ace_reason e)\<rparr>)"

end
