(* ===== verification/Message_Reducer.thy ===== *)
theory Message_Reducer
  imports Message_Parts Eve_Prelude
begin

text \<open>
  The default message reducer (packages/eve/src/client/message-reducer.ts): one definition per
  case of the switch over the event type, the lookups they share, and what the projection
  guarantees: message identity and order, the life of a tool call, streamed text, and the end of
  a turn.
\<close>

section \<open>Lookups and updates\<close>

definition received_message_event_id :: "string option \<Rightarrow> string \<Rightarrow> nat \<Rightarrow> string" where
  "received_message_event_id event_id turn seq =
     (case event_id of Some i \<Rightarrow> i | None \<Rightarrow> turn @ '':'' @ show_nat seq)"

definition create_assistant_message :: "string \<Rightarrow> message" where
  "create_assistant_message turn =
     \<lparr>message_id = turn @ '':assistant'',
      metadata = Some \<lparr>meta_optimistic = False, meta_result = None, meta_status = Some StreamingStatus,
                       meta_turn = Some turn\<rparr>,
      parts = [], role = Assistant\<rparr>"

definition update_assistant_message ::
    "message_data \<Rightarrow> string \<Rightarrow> (message \<Rightarrow> message) \<Rightarrow> message_data" where
  "update_assistant_message data turn update =
     upsert_message data
       (update (case List.find (is_assistant_of turn) data of
                  Some m \<Rightarrow> m | None \<Rightarrow> create_assistant_message turn))"

definition update_assistant_result :: "message_data \<Rightarrow> string \<Rightarrow> json \<Rightarrow> message_data" where
  "update_assistant_result data turn result =
     update_assistant_message data turn
       (\<lambda>m. m\<lparr>metadata := Some ((spread_metadata m)\<lparr>meta_result := Some result\<rparr>)\<rparr>)"

definition step_start_count :: "message_part list \<Rightarrow> nat" where
  "step_start_count ps = length (filter (\<lambda>p. p = StepStart) ps)"

definition ensure_step_start_part :: "message \<Rightarrow> nat \<Rightarrow> message" where
  "ensure_step_start_part m step =
     (let count = step_start_count (parts m)
      in if step < count then m
         else m\<lparr>parts := parts m @ replicate (step - count + 1) StepStart\<rparr>)"

text \<open>Only a text part that is done would complete the message; the reducer never passes one.\<close>

fun part_status :: "message_part \<Rightarrow> message_status" where
  "part_status (Run t r) = (if t = TextRun \<and> run_state r = Some Done then CompleteStatus else StreamingStatus)"
| "part_status _ = StreamingStatus"

definition upsert_part :: "message \<Rightarrow> message_part \<Rightarrow> message" where
  "upsert_part m next =
     with_status m (part_status next)
       (replace_or_append (\<lambda>p. part_key p = part_key next) next (parts m))"

definition remove_text_part :: "message \<Rightarrow> nat \<Rightarrow> message" where
  "remove_text_part m step =
     (let ps = filter (\<lambda>p. \<not> is_run_at TextRun (Some step) p) (parts m)
      in if length ps = length (parts m) then m else with_status m CompleteStatus ps)"

fun is_tool_call :: "string \<Rightarrow> message_part \<Rightarrow> bool" where
  "is_tool_call i (Tool t) = (tool_call_id t = i)"
| "is_tool_call i _ = False"

fun is_approval :: "string \<Rightarrow> message_part \<Rightarrow> bool" where
  "is_approval i (Tool t) = (map_option approval_id (tool_approval t) = Some i)"
| "is_approval i _ = False"

fun the_tool :: "message_part \<Rightarrow> tool_part option" where
  "the_tool (Tool t) = Some t"
| "the_tool _ = None"

definition find_part :: "(message_part \<Rightarrow> bool) \<Rightarrow> message_data \<Rightarrow> message_part option" where
  "find_part P data = List.find P (concat (map parts data))"

definition find_tool_part :: "message_data \<Rightarrow> string \<Rightarrow> tool_part option" where
  "find_tool_part data i = Option.bind (find_part (is_tool_call i) data) the_tool"

definition find_tool_part_by_approval_id :: "message_data \<Rightarrow> string \<Rightarrow> tool_part option" where
  "find_tool_part_by_approval_id data i = Option.bind (find_part (is_approval i) data) the_tool"

definition update_tool_part :: "message_data \<Rightarrow> string \<Rightarrow> tool_part \<Rightarrow> message_data" where
  "update_tool_part data i next =
     (case List.find (\<lambda>m. role m = Assistant \<and> (\<exists>p \<in> set (parts m). is_tool_call i p)) data of
        None \<Rightarrow> data
      | Some m \<Rightarrow> upsert_message data (upsert_part m (Tool next)))"

definition is_settled_tool_part :: "tool_part \<Rightarrow> bool" where
  "is_settled_tool_part t =
     (case part_state t of
        OutputDenied \<Rightarrow> True
      | OutputError e \<Rightarrow> True
      | OutputAvailable out partial \<Rightarrow> \<not> partial
      | _ \<Rightarrow> False)"

fun is_pending_authorization :: "string \<Rightarrow> message_part \<Rightarrow> bool" where
  "is_pending_authorization name (Auth a) = (auth_state a = Required \<and> auth_name a = name)"
| "is_pending_authorization name _ = False"

text \<open>
  The search returns the part object, and \<open>updateAuthorizationPart\<close> finds the message that holds
  this object by reference. A part object is created by one event and put into one message, so
  the search here returns the message together with the part.
\<close>

definition find_latest_pending_authorization_part ::
    "message_data \<Rightarrow> string \<Rightarrow> (message \<times> auth_part) option" where
  "find_latest_pending_authorization_part data name =
     (case find_last_index (\<lambda>m. role m = Assistant \<and> (\<exists>p \<in> set (parts m). is_pending_authorization name p)) data of
        None \<Rightarrow> None
      | Some i \<Rightarrow>
          (case find_last_index (is_pending_authorization name) (parts (data ! i)) of
             None \<Rightarrow> None
           | Some j \<Rightarrow> (case parts (data ! i) ! j of Auth a \<Rightarrow> Some (data ! i, a) | _ \<Rightarrow> None)))"

definition update_authorization_part :: "message_data \<Rightarrow> message \<Rightarrow> auth_part \<Rightarrow> message_data" where
  "update_authorization_part data m next = upsert_message data (upsert_part m (Auth next))"

definition complete_authorization :: "message_data \<Rightarrow> auth_completed_event \<Rightarrow> message_data" where
  "complete_authorization data e =
     (case find_latest_pending_authorization_part data (ace_name e) of
        Some (m, a) \<Rightarrow>
          update_authorization_part data m (create_authorization_completed_part e (Some a))
      | None \<Rightarrow>
          update_assistant_message data (ace_turn e)
            (\<lambda>m. upsert_part (ensure_step_start_part m (ace_step e))
                   (Auth (create_authorization_completed_part e None))))"

definition put_tool_part :: "message_data \<Rightarrow> string \<Rightarrow> nat \<Rightarrow> tool_part option \<Rightarrow> tool_part \<Rightarrow> message_data" where
  "put_tool_part data turn step existing next =
     (if existing \<noteq> None then update_tool_part data (tool_call_id next) next
      else update_assistant_message data turn
             (\<lambda>m. upsert_part (ensure_step_start_part m step) (Tool next)))"

section \<open>Input requests and responses\<close>

definition respond_to_input_request :: "message_data \<Rightarrow> input_response \<Rightarrow> message_data" where
  "respond_to_input_request data r =
     (case find_tool_part_by_approval_id data (response_request_id r) of
        None \<Rightarrow> data
      | Some t \<Rightarrow>
          update_tool_part data (tool_call_id t)
            \<lparr>tool_step = tool_step t, tool_call_id = tool_call_id t,
             part_metadata = Some (merge_tool_metadata (part_metadata t)
               (Some \<lparr>em_input_request = None, em_input_response = Some r,
                      em_kind = (case eve_of (part_metadata t) of None \<Rightarrow> UnknownKind | Some e \<Rightarrow> em_kind e),
                      em_name = (case eve_of (part_metadata t) of None \<Rightarrow> tool_name t | Some e \<Rightarrow> em_name e)\<rparr>)),
             tool_name = tool_name t, tool_input = tool_input t,
             tool_approval = Some \<lparr>approval_id = response_request_id r, approved = None,
               approval_reason = response_text r, is_automatic = None\<rparr>,
             part_state = ApprovalResponded\<rparr>)"

datatype input_resolution_outcome = Answered | ApprovedOutcome | DeniedOutcome | Ignored | Invalid

fun resolution_outcome_text :: "input_resolution_outcome \<Rightarrow> string" where
  "resolution_outcome_text Answered = ''answered''"
| "resolution_outcome_text ApprovedOutcome = ''approved''"
| "resolution_outcome_text DeniedOutcome = ''denied''"
| "resolution_outcome_text Ignored = ''ignored''"
| "resolution_outcome_text Invalid = ''invalid''"

record input_resolution =
  resolution_kind :: input_request_kind
  resolution_outcome :: input_resolution_outcome
  resolution_request_id :: string
  resolution_response :: "input_response option"

definition resolve_input_request :: "message_data \<Rightarrow> input_resolution \<Rightarrow> message_data" where
  "resolve_input_request data r =
     (case resolution_response r of
        Some response \<Rightarrow> respond_to_input_request data response
      | None \<Rightarrow>
          (case find_tool_part_by_approval_id data (resolution_request_id r) of
             None \<Rightarrow> data
           | Some t \<Rightarrow>
               update_tool_part data (tool_call_id t)
                 \<lparr>tool_step = tool_step t, tool_call_id = tool_call_id t, part_metadata = part_metadata t,
                  tool_name = tool_name t, tool_input = tool_input t, tool_approval = None,
                  part_state = OutputAvailable
                    (JObj [(''status'', JStr (resolution_outcome_text (resolution_outcome r)))]) False\<rparr>))"

section \<open>The cases of the reducer\<close>

definition user_text :: "string \<Rightarrow> message_part" where
  "user_text t = Run TextRun \<lparr>run_provider_metadata = None, run_state = None, run_step = None, run_text = t\<rparr>"

definition reduce_optimistic :: "message_data \<Rightarrow> string \<Rightarrow> string \<Rightarrow> message_status \<Rightarrow> message_data" where
  "reduce_optimistic data submission body status =
     upsert_message data
       \<lparr>message_id = optimistic_user_message_id submission,
        metadata = Some \<lparr>meta_optimistic = True, meta_result = None, meta_status = Some status, meta_turn = None\<rparr>,
        parts = [user_text body], role = User\<rparr>"

record received_event =
  received_background :: bool
  received_event_id :: "string option"
  received_turn :: string
  received_sequence :: nat
  received_message :: string
  received_parts :: "received_part list option"

definition reduce_message_received :: "message_data \<Rightarrow> received_event \<Rightarrow> message_data" where
  "reduce_message_received data e =
     (if received_background e then data
      else upsert_message data
        \<lparr>message_id = received_message_event_id (received_event_id e) (received_turn e) (received_sequence e) @ '':user'',
         metadata = Some \<lparr>meta_optimistic = False, meta_result = None, meta_status = Some CompleteStatus,
                          meta_turn = Some (received_turn e)\<rparr>,
         parts = project_received_parts (received_parts e) (received_message e), role = User\<rparr>)"

definition reduce_append :: "message_data \<Rightarrow> string \<Rightarrow> nat \<Rightarrow> run_type \<Rightarrow> string \<Rightarrow> message_data" where
  "reduce_append data turn step t delta =
     update_assistant_message data turn (\<lambda>m. run_append (ensure_step_start_part m step) t step delta)"

definition done_run :: "nat \<Rightarrow> string \<Rightarrow> run_part" where
  "done_run step s = \<lparr>run_provider_metadata = None, run_state = Some Done, run_step = Some step, run_text = s\<rparr>"

definition reduce_run_completed :: "message_data \<Rightarrow> string \<Rightarrow> nat \<Rightarrow> run_type \<Rightarrow> string \<Rightarrow> message_data" where
  "reduce_run_completed data turn step t s =
     update_assistant_message data turn (\<lambda>m. run_upsert (ensure_step_start_part m step) t (done_run step s))"

definition reduce_message_completed :: "message_data \<Rightarrow> string \<Rightarrow> nat \<Rightarrow> string option \<Rightarrow> message_data" where
  "reduce_message_completed data turn step s =
     (case s of
        None \<Rightarrow> update_assistant_message data turn (\<lambda>m. remove_text_part m step)
      | Some x \<Rightarrow> reduce_run_completed data turn step TextRun x)"

fun is_streaming_tool :: "tool_part \<Rightarrow> bool" where
  "is_streaming_tool t = is_input_streaming (Tool t)"

definition reduce_input_appended ::
    "message_data \<Rightarrow> string \<Rightarrow> nat \<Rightarrow> string \<Rightarrow> string \<Rightarrow> string \<Rightarrow> message_data" where
  "reduce_input_appended data turn step call name delta =
     (let existing = find_tool_part data call
      in case existing of
           Some t \<Rightarrow>
             (case part_state t of
                InputStreaming sofar \<Rightarrow>
                  put_tool_part data turn step existing
                    \<lparr>tool_step = Some step, tool_call_id = call,
                     part_metadata = coalesce (part_metadata t)
                       (Some (Some \<lparr>em_input_request = None, em_input_response = None,
                          em_kind = UnknownKind, em_name = name\<rparr>)),
                     tool_name = name, tool_input = None, tool_approval = None,
                     part_state = InputStreaming (sofar @ delta)\<rparr>
              | _ \<Rightarrow> data)
         | None \<Rightarrow>
             put_tool_part data turn step existing
               \<lparr>tool_step = Some step, tool_call_id = call,
                part_metadata = Some (Some \<lparr>em_input_request = None, em_input_response = None,
                          em_kind = UnknownKind, em_name = name\<rparr>),
                tool_name = name, tool_input = None, tool_approval = None,
                part_state = InputStreaming delta\<rparr>)"

definition reduce_action :: "string \<Rightarrow> nat \<Rightarrow> action_request \<Rightarrow> message_data \<Rightarrow> message_data" where
  "reduce_action turn step action data =
     (let d = normalize_action_request action
      in update_assistant_message data turn
           (\<lambda>m. upsert_part (ensure_step_start_part m step)
              (Tool \<lparr>tool_step = Some step, tool_call_id = action_call_id action,
                     part_metadata = Some (create_tool_metadata d None), tool_name = descriptor_tool d,
                     tool_input = action_input action, tool_approval = None, part_state = InputAvailable\<rparr>)))"

definition reduce_input_request :: "string \<Rightarrow> nat \<Rightarrow> input_request \<Rightarrow> message_data \<Rightarrow> message_data" where
  "reduce_input_request turn step r data =
     (let d = normalize_action_request (ToolCall (ir_action r))
      in update_assistant_message data turn
           (\<lambda>m. upsert_part (ensure_step_start_part m step)
              (Tool \<lparr>tool_step = Some step, tool_call_id = tca_call_id (ir_action r),
                     part_metadata = Some (create_tool_metadata d (Some (to_message_input_request r))),
                     tool_name = descriptor_tool d, tool_input = Some (tca_input (ir_action r)),
                     tool_approval = Some \<lparr>approval_id = ir_request_id r, approved = None,
                       approval_reason = None, is_automatic = None\<rparr>,
                     part_state = ApprovalRequested\<rparr>)))"

definition reduce_approval_settled :: "message_data \<Rightarrow> string \<Rightarrow> bool \<Rightarrow> message_data" where
  "reduce_approval_settled data request granted =
     (case find_tool_part_by_approval_id data request of
        None \<Rightarrow> data
      | Some t \<Rightarrow>
          update_tool_part data (tool_call_id t)
            \<lparr>tool_step = tool_step t, tool_call_id = tool_call_id t, part_metadata = part_metadata t,
             tool_name = tool_name t, tool_input = tool_input t,
             tool_approval = Some \<lparr>approval_id = request, approved = Some granted,
               approval_reason = (if granted then None else Some ''Tool execution was cancelled.''),
               is_automatic = None\<rparr>,
             part_state = (if granted then ApprovalResponded else OutputDenied)\<rparr>)"

datatype action_status = CompletedAction | FailedAction | RejectedAction

record action_error =
  error_code :: string
  error_message :: string

definition result_part ::
    "tool_part option \<Rightarrow> nat \<Rightarrow> reducer_result \<Rightarrow> approval option \<Rightarrow> tool_state \<Rightarrow> tool_part" where
  "result_part existing step result appr state =
     (let d = normalize_action_result result
      in \<lparr>tool_step = Some step, tool_call_id = result_call_id result,
          part_metadata = Some (merge_tool_metadata (Option.bind existing part_metadata) (create_tool_metadata d None)),
          tool_name = (case existing of None \<Rightarrow> descriptor_tool d | Some t \<Rightarrow> tool_name t),
          tool_input = Option.bind existing tool_input,
          tool_approval = appr, part_state = state\<rparr>)"

definition reduce_action_result ::
    "message_data \<Rightarrow> string \<Rightarrow> nat \<Rightarrow> reducer_result \<Rightarrow> action_status \<Rightarrow> action_error option \<Rightarrow> message_data" where
  "reduce_action_result data turn step result status err =
     (let existing = find_tool_part data (result_call_id result);
          denied = map_option error_code err = Some ''TOOL_EXECUTION_DENIED'';
          failed = (status = FailedAction \<and> \<not> denied);
          appr_id = (case map_option approval_id (Option.bind existing tool_approval) of
                       Some i \<Rightarrow> i | None \<Rightarrow> result_call_id result);
          next = (if denied then
                    result_part existing step result
                      (Some \<lparr>approval_id = appr_id, approved = Some False,
                             approval_reason = map_option error_message err, is_automatic = None\<rparr>)
                      OutputDenied
                  else if failed then
                    result_part existing step result (approved_approval existing)
                      (OutputError (case err of Some e \<Rightarrow> error_message e
                                    | None \<Rightarrow> stringify_unknown (result_output result)))
                  else
                    result_part existing step result (approved_approval existing)
                      (OutputAvailable (result_output result) False))
      in put_tool_part data turn step existing next)"

definition reduce_action_partial ::
    "message_data \<Rightarrow> string \<Rightarrow> nat \<Rightarrow> reducer_result \<Rightarrow> message_data" where
  "reduce_action_partial data turn step result =
     (let existing = find_tool_part data (result_call_id result)
      in if (case existing of None \<Rightarrow> False | Some t \<Rightarrow> is_settled_tool_part t) then data
         else put_tool_part data turn step existing
                (result_part existing step result (approved_approval existing)
                   (OutputAvailable (result_output result) True)))"

fun close_run :: "message_part \<Rightarrow> message_part" where
  "close_run (Run t r) = Run t (if run_state r = Some Streaming then r\<lparr>run_state := Some Done\<rparr> else r)"
| "close_run p = p"

definition finish_turn :: "message \<Rightarrow> message_part list \<Rightarrow> message" where
  "finish_turn m ps = with_status m CompleteStatus (remove_streaming_tool_parts ps)"

datatype reducer_event =
    ClientMessageSubmitted string string
  | ClientMessageFailed string string
  | ClientInputResponded "input_response list"
  | InputResolved "input_resolution list"
  | MessageReceived received_event
  | StepStarted string nat
  | ReasoningAppended string nat string
  | ReasoningCompleted string nat string
  | ActionInputAppended string nat string string string
  | ActionsRequested string nat "action_request list"
  | InputRequested string nat "input_request list"
  | ApprovalCandidate
  | ApprovalSettled string bool
  | ActionResult string nat reducer_result action_status "action_error option"
  | ActionPartial string nat reducer_result
  | AuthorizationRequired auth_required_event
  | AuthorizationCompleted auth_completed_event
  | MessageAppended string nat string
  | MessageCompleted string nat "string option"
  | ResultCompleted string json
  | TurnCompleted string
  | TurnCancelled string
  | TurnFailed string
  | SessionFailed
  | OtherEvent

fun reduce_message_data :: "message_data \<Rightarrow> reducer_event \<Rightarrow> message_data" where
  "reduce_message_data data (ClientMessageSubmitted i t) = reduce_optimistic data i t SubmittedStatus"
| "reduce_message_data data (ClientMessageFailed i t) = reduce_optimistic data i t FailedStatus"
| "reduce_message_data data (ClientInputResponded rs) = foldl respond_to_input_request data rs"
| "reduce_message_data data (InputResolved rs) = foldl resolve_input_request data rs"
| "reduce_message_data data (MessageReceived e) = reduce_message_received data e"
| "reduce_message_data data (StepStarted turn step) =
     update_assistant_message data turn (\<lambda>m. ensure_step_start_part m step)"
| "reduce_message_data data (ReasoningAppended turn step d) = reduce_append data turn step ReasoningRun d"
| "reduce_message_data data (ReasoningCompleted turn step s) = reduce_run_completed data turn step ReasoningRun s"
| "reduce_message_data data (ActionInputAppended turn step call name d) =
     reduce_input_appended data turn step call name d"
| "reduce_message_data data (ActionsRequested turn step actions) = fold (reduce_action turn step) actions data"
| "reduce_message_data data (InputRequested turn step rs) = fold (reduce_input_request turn step) rs data"
| "reduce_message_data data ApprovalCandidate = data"
| "reduce_message_data data (ApprovalSettled request granted) = reduce_approval_settled data request granted"
| "reduce_message_data data (ActionResult turn step result status err) =
     reduce_action_result data turn step result status err"
| "reduce_message_data data (ActionPartial turn step result) = reduce_action_partial data turn step result"
| "reduce_message_data data (AuthorizationRequired e) =
     update_assistant_message data (are_turn e)
       (\<lambda>m. upsert_part (ensure_step_start_part m (are_step e)) (Auth (create_authorization_required_part e)))"
| "reduce_message_data data (AuthorizationCompleted e) = complete_authorization data e"
| "reduce_message_data data (MessageAppended turn step d) = reduce_append data turn step TextRun d"
| "reduce_message_data data (MessageCompleted turn step s) = reduce_message_completed data turn step s"
| "reduce_message_data data (ResultCompleted turn r) = update_assistant_result data turn r"
| "reduce_message_data data (TurnCompleted turn) =
     update_assistant_message data turn (\<lambda>m. finish_turn m (parts m))"
| "reduce_message_data data (TurnCancelled turn) =
     update_assistant_message data turn (\<lambda>m. finish_turn m (map close_run (parts m)))"
| "reduce_message_data data (TurnFailed turn) = remove_streaming_tool_parts_for_turn data turn"
| "reduce_message_data data SessionFailed = data"
| "reduce_message_data data OtherEvent = data"

section \<open>Identity and order of the messages\<close>

fun part_tool_id :: "message_part \<Rightarrow> string option" where
  "part_tool_id (Tool t) = Some (tool_call_id t)"
| "part_tool_id _ = None"

lemma is_tool_call_iff: "is_tool_call c p \<longleftrightarrow> part_tool_id p = Some c"
  by (cases p) auto

lemma part_key_tool_id: "part_key p = part_key q \<Longrightarrow> part_tool_id p = part_tool_id q"
  by (cases p rule: part_key.cases; cases q rule: part_key.cases) auto

lemma part_key_of_tool: "part_tool_id p = Some i \<Longrightarrow> part_key p = ''dynamic-tool:'' @ i"
  by (cases p) auto

definition message_ok :: "message \<Rightarrow> bool" where
  "message_ok m \<longleftrightarrow>
     (role m = Assistant \<longrightarrow> (\<exists>t. metadata_turn m = Some t \<and> message_id m = t @ '':assistant''))
     \<and> (role m = User \<longrightarrow> (\<exists>i. message_id m = i @ '':user'') \<and> (\<forall>p \<in> set (parts m). part_tool_id p = None))
     \<and> distinct (List.map_filter part_tool_id (parts m))"

definition data_ok :: "message_data \<Rightarrow> bool" where
  "data_ok data \<longleftrightarrow> distinct (map message_id data) \<and> (\<forall>m \<in> set data. message_ok m)"

lemma replace_or_append_update:
  "replace_or_append P x xs = (case find_index P xs of None \<Rightarrow> xs @ [x] | Some i \<Rightarrow> xs[i := x])"
proof (cases "find_index P xs")
  case (Some i)
  then have "i < length xs" by (simp add: find_index_eq_Some_iff)
  with Some show ?thesis by (simp add: replace_or_append_def upd_conv_take_nth_drop)
qed (simp add: replace_or_append_def)

lemma upsert_message_ids:
  "map message_id (upsert_message data m) =
     (if message_id m \<in> message_id ` set data then map message_id data else map message_id data @ [message_id m])"
proof (cases "find_index (\<lambda>x. message_id x = message_id m) data")
  case None
  then have "message_id m \<notin> message_id ` set data" by (auto simp: find_index_eq_None_iff)
  with None show ?thesis by (simp add: upsert_message_def replace_or_append_def)
next
  case (Some i)
  then have i: "i < length data" "message_id (data ! i) = message_id m" by (auto simp: find_index_eq_Some_iff)
  then have "message_id m \<in> message_id ` set data" by (metis imageI nth_mem)
  moreover have "map message_id (data[i := m]) = map message_id data"
    using i(2) by (metis list_update_id map_update)
  ultimately show ?thesis using Some by (simp add: upsert_message_def replace_or_append_update)
qed

lemma upsert_message_set: "set (upsert_message data m) \<subseteq> insert m (set data)"
  by (cases "find_index (\<lambda>x. message_id x = message_id m) data")
    (simp_all add: upsert_message_def replace_or_append_update set_update_subset_insert)

lemma upsert_message_ok: "data_ok data \<Longrightarrow> message_ok m \<Longrightarrow> data_ok (upsert_message data m)"
  using upsert_message_set [of data m] unfolding data_ok_def upsert_message_ids by auto

lemma upsert_message_split:
  assumes "distinct (map message_id (pre @ m # post))" and "message_id m' = message_id m"
  shows "upsert_message (pre @ m # post) m' = pre @ m' # post"
proof -
  have "find_index (\<lambda>x. message_id x = message_id m') (pre @ m # post) = Some (length pre)"
  proof (rule find_index_split)
    show "\<forall>y \<in> set pre. message_id y \<noteq> message_id m'" using assms by (auto simp: image_iff)
  qed (simp add: assms)
  then show ?thesis by (simp add: upsert_message_def replace_or_append_update)
qed

text \<open>An update of a message that keeps its identity.\<close>

definition keeps_identity :: "(message \<Rightarrow> message) \<Rightarrow> bool" where
  "keeps_identity f \<longleftrightarrow>
     (\<forall>m. message_id (f m) = message_id m \<and> role (f m) = role m \<and> metadata_turn (f m) = metadata_turn m)"

named_theorems keeps

lemma with_status_keeps:
  "message_id (with_status m s ps) = message_id m" "role (with_status m s ps) = role m"
  "metadata_turn (with_status m s ps) = metadata_turn m" "parts (with_status m s ps) = ps"
  by (simp_all add: with_status_def metadata_turn_def spread_metadata_def no_metadata_def split: option.split)

lemma ensure_keeps:
  "message_id (ensure_step_start_part m s) = message_id m" "role (ensure_step_start_part m s) = role m"
  "metadata_turn (ensure_step_start_part m s) = metadata_turn m"
  by (simp_all add: ensure_step_start_part_def Let_def metadata_turn_def)

lemma keeps_identity_simps [keeps]:
  "keeps_identity (\<lambda>m. ensure_step_start_part m s)"
  "keeps_identity (\<lambda>m. upsert_part (ensure_step_start_part m s) p)"
  "keeps_identity (\<lambda>m. upsert_part m p)"
  "keeps_identity (\<lambda>m. run_append (ensure_step_start_part m s) t n d)"
  "keeps_identity (\<lambda>m. run_upsert (ensure_step_start_part m s) t r)"
  "keeps_identity (\<lambda>m. remove_text_part m s)"
  "keeps_identity (\<lambda>m. finish_turn m (g m))"
  by (simp_all add: keeps_identity_def ensure_keeps upsert_part_def with_status_keeps run_append_def
      run_upsert_def Let_def remove_text_part_def finish_turn_def)

text \<open>Its effect on the tool calls of a message.\<close>

lemma tool_ids_replace_or_append:
  assumes "distinct (List.map_filter part_tool_id ps)"
  shows "distinct (List.map_filter part_tool_id (replace_or_append (\<lambda>p. part_key p = part_key q) q ps))"
proof (cases "find_index (\<lambda>p. part_key p = part_key q) ps")
  case None
  have "part_key p \<noteq> part_key q" if "p \<in> set ps" for p
    using None that by (simp add: find_index_eq_None_iff)
  then have "part_tool_id q = Some i \<Longrightarrow> p \<in> set ps \<Longrightarrow> part_tool_id p \<noteq> Some i" for i p
    by (metis part_key_of_tool)
  then have "part_tool_id q = Some i \<Longrightarrow> i \<notin> set (List.map_filter part_tool_id ps)" for i
    by (auto simp: map_filter_def)
  with assms None show ?thesis
    by (cases "part_tool_id q") (simp_all add: replace_or_append_def map_filter_def)
next
  case (Some i)
  then have "part_tool_id q = part_tool_id (ps ! i)"
    using part_key_tool_id by (metis (mono_tags, lifting) find_index_eq_Some_iff)
  then have "List.map_filter part_tool_id (ps[i := q]) = List.map_filter part_tool_id ps"
    by (rule map_filter_same_update)
  with assms Some show ?thesis by (simp add: replace_or_append_update)
qed

text \<open>Updates that keep the identity of a message and the distinctness of its tool calls.\<close>

definition keeps_ok :: "(message \<Rightarrow> message) \<Rightarrow> bool" where
  "keeps_ok f \<longleftrightarrow> keeps_identity f
     \<and> (\<forall>m. distinct (List.map_filter part_tool_id (parts m)) \<longrightarrow>
            distinct (List.map_filter part_tool_id (parts (f m))))"

lemma keeps_ok_message: "keeps_ok f \<Longrightarrow> message_ok m \<Longrightarrow> role m = Assistant \<Longrightarrow> message_ok (f m)"
  by (simp add: keeps_ok_def keeps_identity_def message_ok_def)

lemma tool_ids_snoc_other:
  "\<forall>p \<in> set qs. part_tool_id p = None
   \<Longrightarrow> List.map_filter part_tool_id (ps @ qs) = List.map_filter part_tool_id ps"
  by (induction qs) (auto simp: map_filter_def)

lemma tool_ids_ensure:
  "List.map_filter part_tool_id (parts (ensure_step_start_part m s)) = List.map_filter part_tool_id (parts m)"
  unfolding ensure_step_start_part_def Let_def
  by (cases "s < step_start_count (parts m)") (simp_all add: tool_ids_snoc_other del: map_filter_append)

lemma is_run_at_no_tool: "is_run_at t s p \<Longrightarrow> part_tool_id p = None"
  by (cases p) auto

lemma tool_ids_run_upsert:
  "List.map_filter part_tool_id (parts (run_upsert m t r)) = List.map_filter part_tool_id (parts m)"
proof (cases "find_last_index (is_run_at t (run_step r)) (parts m)")
  case None
  then show ?thesis by (simp add: run_upsert_def with_status_keeps map_filter_def)
next
  case (Some i)
  note f = find_last_index_SomeD [OF Some]
  have "part_tool_id (Run t r) = part_tool_id (parts m ! i)" using is_run_at_no_tool [OF f(2)] by simp
  then have "List.map_filter part_tool_id ((parts m)[i := Run t r]) = List.map_filter part_tool_id (parts m)"
    by (rule map_filter_same_update)
  with Some f(1) show ?thesis
    by (simp add: run_upsert_def with_status_keeps upd_conv_take_nth_drop tool_ids_snoc_other
        del: map_filter_append)
qed

lemma tool_ids_filter_distinct:
  "distinct (List.map_filter part_tool_id ps) \<Longrightarrow> distinct (List.map_filter part_tool_id (filter P ps))"
  by (rule subseq_distinct [OF map_filter_subseq [OF subseq_filter_left]])

lemma part_tool_id_close [simp]: "part_tool_id (close_run p) = part_tool_id p"
  by (cases p) auto

lemma tool_ids_close: "List.map_filter part_tool_id (map close_run ps) = List.map_filter part_tool_id ps"
  by (induction ps) (simp_all split: option.split)

lemma keeps_okI:
  "keeps_identity f
   \<Longrightarrow> (\<And>m. distinct (List.map_filter part_tool_id (parts m)) \<Longrightarrow>
           distinct (List.map_filter part_tool_id (parts (f m)))) \<Longrightarrow> keeps_ok f"
  by (simp add: keeps_ok_def)

lemma keeps_ok_ensure [keeps]: "keeps_ok (\<lambda>m. ensure_step_start_part m s)"
  by (rule keeps_okI [OF keeps_identity_simps(1)]) (simp add: tool_ids_ensure)

lemma keeps_ok_upsert_part [keeps]: "keeps_ok (\<lambda>m. upsert_part (ensure_step_start_part m s) p)"
  "keeps_ok (\<lambda>m. upsert_part m p)"
  by (rule keeps_okI [OF keeps_identity_simps(2)]
        keeps_okI [OF keeps_identity_simps(3)];
      simp add: upsert_part_def with_status_keeps tool_ids_replace_or_append tool_ids_ensure)+

lemma keeps_ok_run [keeps]: "keeps_ok (\<lambda>m. run_append (ensure_step_start_part m s) t n d)"
  "keeps_ok (\<lambda>m. run_upsert (ensure_step_start_part m s) t r)"
  by (rule keeps_okI [OF keeps_identity_simps(4)]
        keeps_okI [OF keeps_identity_simps(5)];
      simp add: run_append_def Let_def tool_ids_run_upsert tool_ids_ensure)+

lemma keeps_ok_remove [keeps]: "keeps_ok (\<lambda>m. remove_text_part m s)"
  by (rule keeps_okI [OF keeps_identity_simps(6)])
    (simp add: remove_text_part_def Let_def with_status_keeps tool_ids_filter_distinct)

lemma keeps_ok_finish [keeps]:
  "keeps_ok (\<lambda>m. finish_turn m (parts m))" "keeps_ok (\<lambda>m. finish_turn m (map close_run (parts m)))"
  by (rule keeps_okI [OF keeps_identity_simps(7)];
      simp add: finish_turn_def with_status_keeps remove_streaming_tool_parts_def
        tool_ids_filter_distinct tool_ids_close)+

lemma keeps_ok_result [keeps]:
  "keeps_ok (\<lambda>m. m\<lparr>metadata := Some ((spread_metadata m)\<lparr>meta_result := Some r\<rparr>)\<rparr>)"
  by (simp add: keeps_ok_def keeps_identity_def metadata_turn_def spread_metadata_def no_metadata_def
      split: option.split)

lemma create_assistant_ok: "message_ok (create_assistant_message turn)"
  "is_assistant_of turn (create_assistant_message turn)"
  by (simp_all add: message_ok_def create_assistant_message_def metadata_turn_def is_assistant_of_def)

definition assistant_of :: "message_data \<Rightarrow> string \<Rightarrow> message" where
  "assistant_of data turn =
     (case List.find (is_assistant_of turn) data of Some m \<Rightarrow> m | None \<Rightarrow> create_assistant_message turn)"

lemma assistant_of_ok:
  assumes "data_ok data"
  shows "message_ok (assistant_of data turn)" and "is_assistant_of turn (assistant_of data turn)"
proof -
  have "message_ok (assistant_of data turn) \<and> is_assistant_of turn (assistant_of data turn)"
  proof (cases "List.find (is_assistant_of turn) data")
    case None
    then show ?thesis by (simp add: assistant_of_def create_assistant_ok)
  next
    case (Some m)
    then have "m \<in> set data \<and> is_assistant_of turn m" by (auto simp: find_Some_iff)
    with Some assms show ?thesis by (simp add: assistant_of_def data_ok_def)
  qed
  then show "message_ok (assistant_of data turn)" and "is_assistant_of turn (assistant_of data turn)" by auto
qed

lemma update_assistant_message_alt:
  "update_assistant_message data turn f = upsert_message data (f (assistant_of data turn))"
  by (simp add: update_assistant_message_def assistant_of_def)

lemma update_assistant_ok: "data_ok data \<Longrightarrow> keeps_ok f \<Longrightarrow> data_ok (update_assistant_message data turn f)"
  unfolding update_assistant_message_alt
  using assistant_of_ok [of data turn] keeps_ok_message [of f "assistant_of data turn"]
  by (intro upsert_message_ok) (auto simp: is_assistant_of_def)

lemma update_tool_part_ok: "data_ok data \<Longrightarrow> data_ok (update_tool_part data i next)"
proof (cases "List.find (\<lambda>m. role m = Assistant \<and> (\<exists>p \<in> set (parts m). is_tool_call i p)) data")
  case (Some m)
  assume ok: "data_ok data"
  from Some have "m \<in> set data" "role m = Assistant" by (auto simp: find_Some_iff)
  with ok have "message_ok (upsert_part m (Tool next))"
    using keeps_ok_message [OF keeps_ok_upsert_part(2)] by (simp add: data_ok_def)
  with ok Some show ?thesis by (simp add: update_tool_part_def upsert_message_ok)
qed (simp add: update_tool_part_def)

lemma put_tool_part_ok: "data_ok data \<Longrightarrow> data_ok (put_tool_part data turn step existing next)"
  by (simp add: put_tool_part_def update_tool_part_ok update_assistant_ok keeps)

lemma respond_ok: "data_ok data \<Longrightarrow> data_ok (respond_to_input_request data r)"
  by (simp add: respond_to_input_request_def update_tool_part_ok split: option.split)

lemma resolve_ok: "data_ok data \<Longrightarrow> data_ok (resolve_input_request data r)"
  by (simp add: resolve_input_request_def respond_ok update_tool_part_ok split: option.split)

lemma complete_authorization_ok: "data_ok data \<Longrightarrow> data_ok (complete_authorization data e)"
proof (cases "find_latest_pending_authorization_part data (ace_name e)")
  case None
  assume "data_ok data"
  with None show ?thesis by (simp add: complete_authorization_def update_assistant_ok keeps)
next
  case (Some x)
  assume ok: "data_ok data"
  obtain m a where x: "x = (m, a)" by force
  from Some x have "m \<in> set data" "role m = Assistant"
    by (auto simp: find_latest_pending_authorization_part_def find_last_index_eq_Some_iff
        split: option.splits message_part.splits)
  with ok have "message_ok (upsert_part m p)" for p
    using keeps_ok_message [OF keeps_ok_upsert_part(2)] by (simp add: data_ok_def)
  with ok Some x show ?thesis by (simp add: complete_authorization_def update_authorization_part_def upsert_message_ok)
qed

lemma project_received_no_tool: "\<forall>p \<in> set (project_received_parts ps s). part_tool_id p = None"
proof -
  have "part_tool_id (project_received_part r) = None" for r by (cases r) auto
  then show ?thesis by (auto simp: project_received_parts_def split: option.split)
qed

lemma reduce_ok: "data_ok data \<Longrightarrow> data_ok (reduce_message_data data e)"
proof (induction data e rule: reduce_message_data.induct)
  case (1 data i t)
  then show ?case
    by (auto simp: reduce_optimistic_def message_ok_def optimistic_user_message_id_def user_text_def
        intro!: upsert_message_ok)
next
  case (2 data i t)
  then show ?case
    by (auto simp: reduce_optimistic_def message_ok_def optimistic_user_message_id_def user_text_def
        intro!: upsert_message_ok)
next
  case (3 data rs)
  then show ?case by (induction rs arbitrary: data) (simp_all add: respond_ok)
next
  case (4 data rs)
  then show ?case by (induction rs arbitrary: data) (simp_all add: resolve_ok)
next
  case (5 data e)
  have "List.map_filter part_tool_id (project_received_parts (received_parts e) (received_message e)) = []"
    using tool_ids_snoc_other [OF project_received_no_tool, of "[]"] by simp
  with 5 show ?case
    by (auto simp: reduce_message_received_def message_ok_def project_received_no_tool
        intro!: upsert_message_ok)
next
  case (9 data turn step call name d)
  then show ?case
    by (auto simp: reduce_input_appended_def Let_def put_tool_part_ok split: option.split tool_state.split)
next
  case (10 data turn step actions)
  then show ?case
    by (induction actions arbitrary: data) (simp_all add: reduce_action_def Let_def update_assistant_ok keeps)
next
  case (11 data turn step rs)
  then show ?case
    by (induction rs arbitrary: data) (simp_all add: reduce_input_request_def Let_def update_assistant_ok keeps)
next
  case (19 data turn step s)
  then show ?case
    by (cases s) (simp_all add: reduce_message_completed_def reduce_run_completed_def update_assistant_ok keeps)
next
  case (23 data turn)
  show ?case
  proof (cases "find_index (is_assistant_of turn) data")
    case (Some i)
    then have i: "i < length data" by (simp add: find_index_eq_Some_iff)
    with 23 have "message_ok (data ! i)" by (simp add: data_ok_def)
    then have "message_ok ((data ! i)\<lparr>parts := filter (\<lambda>p. \<not> is_input_streaming p) (parts (data ! i))\<rparr>)"
      by (simp add: message_ok_def tool_ids_filter_distinct metadata_turn_def)
    with Some 23 show ?thesis by (simp add: remove_streaming_tool_parts_for_turn_def upsert_message_ok)
  qed (use 23 in \<open>simp add: remove_streaming_tool_parts_for_turn_def\<close>)
qed (simp_all add: update_assistant_ok keeps reduce_append_def reduce_run_completed_def
    reduce_approval_settled_def update_tool_part_ok reduce_action_result_def reduce_action_partial_def
    Let_def put_tool_part_ok complete_authorization_ok update_assistant_result_def split: option.split)

interpretation reducer: invariant_machine reduce_message_data data_ok
  by unfold_locales (rule reduce_ok)

text \<open>No event removes or reorders a message.\<close>

definition extends :: "message_data \<Rightarrow> message_data \<Rightarrow> bool" where
  "extends data data' \<longleftrightarrow> prefix (map message_id data) (map message_id data')"

lemma extends_refl [simp]: "extends data data"
  by (simp add: extends_def)

lemma extends_trans: "extends a b \<Longrightarrow> extends b c \<Longrightarrow> extends a c"
  unfolding extends_def by (rule prefix_order.trans)

lemma upsert_message_extends [simp]: "extends data (upsert_message data m)"
  by (simp add: extends_def upsert_message_ids)

lemma update_extends [simp]:
  "extends data (update_assistant_message data turn f)"
  "extends data (update_tool_part data i next)"
  "extends data (put_tool_part data turn step existing next)"
  "extends data (respond_to_input_request data r)"
  "extends data (resolve_input_request data r')"
  by (auto simp: update_assistant_message_def update_tool_part_def put_tool_part_def
      respond_to_input_request_def resolve_input_request_def split: option.split)

lemma foldl_extends: "(\<And>d x. extends d (f d x)) \<Longrightarrow> extends data (foldl f data xs)"
  by (induction xs arbitrary: data) (auto intro: extends_trans)

lemma fold_extends: "(\<And>x d. extends d (f x d)) \<Longrightarrow> extends data (fold f xs data)"
  by (induction xs arbitrary: data) (auto intro: extends_trans)

lemma reduce_extends: "extends data (reduce_message_data data e)"
proof (cases e)
  case (ActionInputAppended turn step call name d)
  then show ?thesis
    by (auto simp: reduce_input_appended_def Let_def split: option.split tool_state.split)
next
  case (ActionsRequested turn step actions)
  then show ?thesis
    by (simp add: fold_extends reduce_action_def Let_def)
next
  case (InputRequested turn step rs)
  then show ?thesis
    by (simp add: fold_extends reduce_input_request_def Let_def)
qed (simp_all add: foldl_extends reduce_optimistic_def reduce_message_received_def reduce_append_def
    reduce_run_completed_def reduce_message_completed_def reduce_approval_settled_def reduce_action_result_def
    reduce_action_partial_def Let_def complete_authorization_def update_authorization_part_def update_assistant_result_def
    remove_streaming_tool_parts_for_turn_def split: option.split)

lemma run_extends: "extends data (foldl reduce_message_data data es)"
  by (rule foldl_extends [OF reduce_extends])

text \<open>C8: Over any event stream the projection has one message per identifier and one part per tool
  call within a message, every assistant message belongs to exactly one turn, and a message once
  shown is never removed nor moved: the identifiers after a prefix of the stream are a prefix of
  those at its end.\<close>

theorem projection_stable:
  "data_ok (foldl reduce_message_data [] es)
   \<and> prefix (map message_id (foldl reduce_message_data [] (take n es)))
       (map message_id (foldl reduce_message_data [] es))"
proof
  show "data_ok (foldl reduce_message_data [] es)"
    by (rule reducer.run_inv) (simp add: data_ok_def)
  have "foldl reduce_message_data [] es
      = foldl reduce_message_data (foldl reduce_message_data [] (take n es)) (drop n es)"
    by (metis append_take_drop_id foldl_append)
  then show "prefix (map message_id (foldl reduce_message_data [] (take n es)))
       (map message_id (foldl reduce_message_data [] es))"
    using run_extends unfolding extends_def by metis
qed

section \<open>Streamed text\<close>

text \<open>Which assistant message an update of a turn changes.\<close>

lemma assistant_of_update:
  assumes ok: "data_ok data" and f: "keeps_identity f"
  shows "assistant_of (update_assistant_message data turn f) turn = f (assistant_of data turn)"
proof (cases "List.find (is_assistant_of turn) data")
  case (Some m)
  then obtain pre post where d: "data = pre @ m # post" and m: "is_assistant_of turn m"
    and pre: "\<forall>y \<in> set pre. \<not> is_assistant_of turn y" by (rule find_splitD)
  have "distinct (map message_id (pre @ m # post))" using ok d by (simp add: data_ok_def)
  then have u: "upsert_message data (f m) = pre @ f m # post"
    unfolding d using f by (intro upsert_message_split) (auto simp: keeps_identity_def)
  have "is_assistant_of turn (f m)" using m f by (simp add: is_assistant_of_def keeps_identity_def)
  moreover have "List.find (is_assistant_of turn) pre = None" using pre by (simp add: find_None_iff)
  ultimately show ?thesis using Some u
    by (simp add: update_assistant_message_alt assistant_of_def find_append)
next
  case None
  let ?m = "f (create_assistant_message turn)"
  have id: "message_id ?m = turn @ '':assistant''" and a: "is_assistant_of turn ?m"
    using f create_assistant_ok(2) by (simp_all add: keeps_identity_def create_assistant_message_def is_assistant_of_def)
  have "message_id m \<noteq> turn @ '':assistant''" if m: "m \<in> set data" for m
  proof
    assume eq: "message_id m = turn @ '':assistant''"
    from ok m have mo: "message_ok m" by (simp add: data_ok_def)
    show False
    proof (cases "role m")
      case Assistant
      with mo eq have "is_assistant_of turn m" by (auto simp: message_ok_def is_assistant_of_def)
      with None m show False by (auto simp: find_None_iff)
    next
      case User
      with mo obtain i where "turn @ '':assistant'' = i @ '':user''" using eq by (auto simp: message_ok_def)
      then have "rev (turn @ '':assistant'') = rev (i @ '':user'')" by simp
      then show False by simp
    qed
  qed
  then have "find_index (\<lambda>x. message_id x = message_id ?m) data = None"
    by (auto simp: find_index_eq_None_iff id)
  then have "upsert_message data ?m = data @ [?m]"
    by (simp add: upsert_message_def replace_or_append_def)
  with None a show ?thesis
    by (simp add: update_assistant_message_alt assistant_of_def find_append)
qed

lemma ensure_parts: "\<exists>n. parts (ensure_step_start_part m s) = parts m @ replicate n StepStart"
proof (cases "s < step_start_count (parts m)")
  case True
  then show ?thesis by (auto simp: ensure_step_start_part_def intro: exI [of _ 0])
next
  case False
  then show ?thesis
    by (auto simp: ensure_step_start_part_def Let_def simp del: replicate_Suc
        intro: exI [of _ "s - step_start_count (parts m) + 1"])
qed

lemma latest_run_ensure:
  "latest_streaming_run (ensure_step_start_part m s) t n = latest_streaming_run m t n"
proof -
  obtain k where k: "parts (ensure_step_start_part m s) = parts m @ replicate k StepStart"
    using ensure_parts by blast
  have "find_last_index (is_run_at t (Some n)) (parts m @ replicate k StepStart)
      = find_last_index (is_run_at t (Some n)) (parts m)"
    by (rule find_last_index_append_other) simp
  moreover have "(parts m @ replicate k StepStart) ! i = parts m ! i"
    if "find_last_index (is_run_at t (Some n)) (parts m) = Some i" for i
    using find_last_index_SomeD(1) [OF that] by (simp add: nth_append)
  ultimately show ?thesis
    unfolding latest_streaming_run_def k by (cases "find_last_index (is_run_at t (Some n)) (parts m)") simp_all
qed

definition open_text :: "message \<Rightarrow> run_type \<Rightarrow> nat \<Rightarrow> string" where
  "open_text m t n = (case latest_streaming_run m t n of None \<Rightarrow> [] | Some r \<Rightarrow> run_text r)"

text \<open>The run written last at a step is the one found next.\<close>

lemma last_run_upsert:
  assumes "run_step r = Some n"
  shows "\<exists>i < length (parts (run_upsert m t r)). parts (run_upsert m t r) ! i = Run t r
    \<and> find_last_index (is_run_at t (Some n)) (parts (run_upsert m t r)) = Some i"
proof (cases "find_last_index (is_run_at t (Some n)) (parts m)")
  case None
  then show ?thesis
    using assms by (simp add: run_upsert_def with_status_keeps find_last_index_snoc)
next
  case (Some i)
  note f = find_last_index_SomeD [OF Some]
  show ?thesis
  proof (cases "is_open_run (parts m ! i)")
    case True
    with Some f(1) assms have "parts (run_upsert m t r) = (parts m)[i := Run t r]"
      by (simp add: run_upsert_def with_status_keeps upd_conv_take_nth_drop)
    with find_last_index_update [OF Some, of "Run t r"] f(1) assms show ?thesis by auto
  next
    case False
    with Some assms show ?thesis
      by (simp add: run_upsert_def with_status_keeps find_last_index_snoc)
  qed
qed

lemma latest_run_upsert:
  assumes "run_step r = Some n"
  shows "latest_streaming_run (run_upsert m t r) t n = (if run_state r = Some Streaming then Some r else None)"
  using last_run_upsert [OF assms, of m t] by (auto simp: latest_streaming_run_def)

lemma latest_run_append:
  "\<exists>r. latest_streaming_run (run_append m t n d) t n = Some r \<and> run_text r = open_text m t n @ d"
  by (simp add: run_append_def Let_def latest_run_upsert open_text_def)

lemma open_text_append: "open_text (run_append m t n d) t n = open_text m t n @ d"
  using latest_run_append [of m t n d] by (auto simp: open_text_def)

lemma stream_text:
  "data_ok data \<Longrightarrow>
   open_text (assistant_of (foldl (\<lambda>dt d. reduce_append dt turn n t d) data deltas) turn) t n
     = open_text (assistant_of data turn) t n @ concat deltas"
proof (induction deltas arbitrary: data)
  case (Cons d deltas)
  have ok: "data_ok (reduce_append data turn n t d)"
    using Cons.prems by (simp add: reduce_append_def update_assistant_ok keeps)
  have "open_text (assistant_of (reduce_append data turn n t d) turn) t n
      = open_text (assistant_of data turn) t n @ d"
    using assistant_of_update [OF Cons.prems keeps_identity_simps(4)]
    by (simp add: reduce_append_def open_text_append) (simp add: open_text_def latest_run_ensure)
  with Cons.IH [OF ok] show ?case by simp
qed simp

fun append_event :: "run_type \<Rightarrow> string \<Rightarrow> nat \<Rightarrow> string \<Rightarrow> reducer_event" where
  "append_event TextRun turn n d = MessageAppended turn n d"
| "append_event ReasoningRun turn n d = ReasoningAppended turn n d"

fun completed_event :: "run_type \<Rightarrow> string \<Rightarrow> nat \<Rightarrow> string \<Rightarrow> reducer_event" where
  "completed_event TextRun turn n s = MessageCompleted turn n (Some s)"
| "completed_event ReasoningRun turn n s = ReasoningCompleted turn n s"

lemma append_event_reduce: "reduce_message_data data (append_event t turn n d) = reduce_append data turn n t d"
  by (cases t) simp_all

lemma completed_event_reduce:
  "reduce_message_data data (completed_event t turn n s) = reduce_run_completed data turn n t s"
  by (cases t) (simp_all add: reduce_message_completed_def)

text \<open>Streaming loses no text: the open run of a step holds the concatenation of the deltas that
  arrived since the run was opened, the completion event replaces it by the final text and closes
  it, and the next delta of the same step opens a new run that starts empty.\<close>

lemma streamed_text_concatenates:
  assumes "data_ok data"
  shows "let streamed = foldl reduce_message_data data (map (append_event t turn n) deltas) in
     open_text (assistant_of streamed turn) t n = open_text (assistant_of data turn) t n @ concat deltas
     \<and> (let m = assistant_of (reduce_message_data streamed (completed_event t turn n s)) turn
        in latest_streaming_run m t n = None
           \<and> (\<exists>i. find_last_index (is_run_at t (Some n)) (parts m) = Some i
                \<and> parts m ! i = Run t (done_run n s))
           \<and> open_text (assistant_of (foldl reduce_message_data streamed
                 [completed_event t turn n s, append_event t turn n d]) turn) t n = d)"
proof -
  define streamed where "streamed = foldl reduce_message_data data (map (append_event t turn n) deltas)"
  have e: "foldl reduce_message_data x (map (append_event t turn n) ds)
      = foldl (\<lambda>dt d. reduce_append dt turn n t d) x ds" for x ds
    by (induction ds arbitrary: x) (simp_all add: append_event_reduce)
  have ok: "data_ok streamed" unfolding streamed_def by (rule reducer.run_inv [OF assms(1)])
  let ?c = "reduce_message_data streamed (completed_event t turn n s)"
  have okc: "data_ok ?c" by (rule reduce_ok [OF ok])
  let ?m = "assistant_of ?c turn"
  have m: "?m = run_upsert (ensure_step_start_part (assistant_of streamed turn) n) t (done_run n s)"
    using assistant_of_update [OF ok keeps_identity_simps(5)]
    by (simp add: completed_event_reduce reduce_run_completed_def)
  have closed: "latest_streaming_run ?m t n = None"
    unfolding m by (simp add: latest_run_upsert done_run_def)
  have "open_text (assistant_of (reduce_append ?c turn n t d) turn) t n = open_text ?m t n @ d"
    using stream_text [OF okc, where deltas = "[d]"] by simp
  then have "open_text (assistant_of (reduce_append ?c turn n t d) turn) t n = d"
    using closed by (simp add: open_text_def)
  moreover have "\<exists>i. find_last_index (is_run_at t (Some n)) (parts ?m) = Some i
                \<and> parts ?m ! i = Run t (done_run n s)"
    using last_run_upsert [of "done_run n s" n] unfolding m by (auto simp: done_run_def)
  moreover have "open_text (assistant_of streamed turn) t n
      = open_text (assistant_of data turn) t n @ concat deltas"
    unfolding streamed_def e by (rule stream_text [OF assms(1)])
  ultimately show ?thesis using closed
    unfolding streamed_def [symmetric] by (simp add: Let_def append_event_reduce)
qed

theorem streamed_text_concatenates_witness:
  "open_text (assistant_of (foldl reduce_message_data []
     (map (append_event TextRun ''t'' 0) [''Hel'', ''lo''])) ''t'') TextRun 0 = ''Hello''"
proof -
  have "data_ok []" by (simp add: data_ok_def)
  from streamed_text_concatenates [OF this, of TextRun "''t''" 0 "[''Hel'', ''lo'']" "[]" "[]"]
  show ?thesis unfolding Let_def by (simp add: assistant_of_def create_assistant_message_def open_text_def
        latest_streaming_run_def find_last_index_def)
qed

section \<open>The life of a tool call\<close>

lemma find_tool_part_split:
  assumes ok: "data_ok data" and f: "find_tool_part data c = Some t"
  obtains pre m post p1 p2 where "data = pre @ m # post" and "parts m = p1 @ Tool t # p2"
    and "\<forall>x \<in> set pre. \<forall>p \<in> set (parts x). \<not> is_tool_call c p" and "\<forall>p \<in> set p1. \<not> is_tool_call c p"
    and "tool_call_id t = c" and "role m = Assistant"
proof -
  from f have "List.find (is_tool_call c) (concat (map parts data)) = Some (Tool t)"
    unfolding find_tool_part_def find_part_def by (auto simp: bind_eq_Some_conv elim: the_tool.elims)
  then show ?thesis using ok that
  proof (induction data arbitrary: thesis)
    case (Cons m ms)
    show ?case
    proof (cases "List.find (is_tool_call c) (parts m)")
      case (Some p)
      with Cons.prems(1) have p: "p = Tool t" by (simp add: find_append)
      from Some obtain p1 p2 where s: "parts m = p1 @ p # p2" "is_tool_call c p" "\<forall>y \<in> set p1. \<not> is_tool_call c y"
        by (rule find_splitD)
      have "role m = Assistant"
        using Cons.prems(2) s p by (cases "role m") (auto simp: data_ok_def message_ok_def)
      with s p show ?thesis by (intro Cons.prems(3) [of "[]" m ms p1 p2]) simp_all
    next
      case None
      with Cons.prems(1) have f: "List.find (is_tool_call c) (concat (map parts ms)) = Some (Tool t)"
        by (simp add: find_append)
      have "data_ok ms" using Cons.prems(2) by (simp add: data_ok_def)
      then obtain pre x post p1 p2 where "ms = pre @ x # post" "parts x = p1 @ Tool t # p2"
        "\<forall>x \<in> set pre. \<forall>p \<in> set (parts x). \<not> is_tool_call c p" "\<forall>p \<in> set p1. \<not> is_tool_call c p"
        "tool_call_id t = c" "role x = Assistant" using Cons.IH [OF f] by blast
      with None show ?thesis
        by (intro Cons.prems(3) [of "m # pre" x post p1 p2]) (simp_all add: find_None_iff)
    qed
  qed simp
qed

lemma find_tool_here:
  assumes "\<forall>x \<in> set pre. \<forall>p \<in> set (parts x). \<not> is_tool_call c p"
    and "\<forall>p \<in> set p1. \<not> is_tool_call c p" and "parts m = p1 @ Tool t # p2" and "tool_call_id t = c"
  shows "find_tool_part (pre @ m # post) c = Some t"
proof -
  have "List.find (is_tool_call c) (concat (map parts pre)) = None" "List.find (is_tool_call c) p1 = None"
    using assms(1,2) by (auto simp: find_None_iff)
  then show ?thesis using assms(3,4) by (simp add: find_tool_part_def find_part_def find_append)
qed

lemma find_tool_after_update:
  assumes ok: "data_ok data" and f: "find_tool_part data c = Some t" and n: "tool_call_id next = c"
  shows "find_tool_part (update_tool_part data c next) c = Some next
    \<and> map message_id (update_tool_part data c next) = map message_id data"
proof -
  obtain pre m post p1 p2 where d: "data = pre @ m # post" and m: "parts m = p1 @ Tool t # p2"
    and pre: "\<forall>x \<in> set pre. \<forall>p \<in> set (parts x). \<not> is_tool_call c p"
    and p1: "\<forall>p \<in> set p1. \<not> is_tool_call c p" and t: "tool_call_id t = c" and r: "role m = Assistant"
    by (rule find_tool_part_split [OF ok f])
  let ?Q = "\<lambda>m. role m = Assistant \<and> (\<exists>p \<in> set (parts m). is_tool_call c p)"
  have "List.find ?Q pre = None" using pre by (auto simp: find_None_iff)
  moreover have "?Q m" using m t r by simp
  ultimately have "List.find ?Q data = Some m" by (simp add: d find_append)
  then have u: "update_tool_part data c next = upsert_message data (upsert_part m (Tool next))"
    by (simp add: update_tool_part_def)
  have "find_index (\<lambda>p. part_key p = part_key (Tool next)) (parts m) = Some (length p1)"
    unfolding m
  proof (rule find_index_split)
    show "\<forall>y \<in> set p1. part_key y \<noteq> part_key (Tool next)"
      using p1 n part_key_tool_id by (metis is_tool_call_iff part_tool_id.simps(1))
  qed (simp add: t n)
  then have parts: "parts (upsert_part m (Tool next)) = p1 @ Tool next # p2"
    by (simp add: upsert_part_def with_status_keeps replace_or_append_def m)
  have id: "message_id (upsert_part m (Tool next)) = message_id m"
    by (simp add: upsert_part_def with_status_keeps)
  have "distinct (map message_id (pre @ m # post))" using ok d by (simp add: data_ok_def)
  then have "upsert_message data (upsert_part m (Tool next)) = pre @ upsert_part m (Tool next) # post"
    unfolding d by (rule upsert_message_split [OF _ id])
  with u have "update_tool_part data c next = pre @ upsert_part m (Tool next) # post" by simp
  with find_tool_here [OF pre p1 parts n] d id show ?thesis by simp
qed

lemma upsert_message_in: "m \<in> set (upsert_message data m)"
proof (cases "find_index (\<lambda>x. message_id x = message_id m) data")
  case (Some i)
  then have "i < length data" by (simp add: find_index_eq_Some_iff)
  with Some show ?thesis by (simp add: upsert_message_def replace_or_append_update set_update_memI)
qed (simp add: upsert_message_def replace_or_append_def)

text \<open>A tool call that is the only one of its identifier is found.\<close>

lemma find_tool_unique:
  assumes "m \<in> set data" and "Tool t \<in> set (parts m)" and "tool_call_id t = c"
    and "\<forall>x \<in> set data. \<forall>p \<in> set (parts x). is_tool_call c p \<longrightarrow> p = Tool t"
  shows "find_tool_part data c = Some t"
proof -
  have "Tool t \<in> set (concat (map parts data))" using assms(1,2) by auto
  then have "List.find (is_tool_call c) (concat (map parts data)) \<noteq> None"
    using assms(3) by (auto simp: find_None_iff)
  then obtain p where p: "List.find (is_tool_call c) (concat (map parts data)) = Some p" by blast
  then have "p \<in> set (concat (map parts data)) \<and> is_tool_call c p" by (metis find_Some_iff nth_mem)
  then have "p = Tool t" using assms(4) by auto
  with p show ?thesis by (simp add: find_tool_part_def find_part_def)
qed

lemma find_tool_None: "find_tool_part data c = None \<Longrightarrow> x \<in> set data \<Longrightarrow> p \<in> set (parts x) \<Longrightarrow> \<not> is_tool_call c p"
proof
  assume n: "find_tool_part data c = None" and x: "x \<in> set data" "p \<in> set (parts x)" "is_tool_call c p"
  then have "List.find (is_tool_call c) (concat (map parts data)) \<noteq> None" by (auto simp: find_None_iff)
  then obtain q where q: "List.find (is_tool_call c) (concat (map parts data)) = Some q" by blast
  then have "is_tool_call c q" by (auto simp: find_Some_iff)
  with n q show False by (cases q) (auto simp: find_tool_part_def find_part_def)
qed

lemma assistant_of_parts: "p \<in> set (parts (assistant_of data turn)) \<Longrightarrow> \<exists>x \<in> set data. p \<in> set (parts x)"
  by (cases "List.find (is_assistant_of turn) data")
    (auto simp: assistant_of_def create_assistant_message_def find_Some_iff)

lemma find_tool_after_insert:
  assumes none: "find_tool_part data c = None" and n: "tool_call_id next = c"
  shows "find_tool_part (update_assistant_message data turn
           (\<lambda>m. upsert_part (ensure_step_start_part m step) (Tool next))) c = Some next"
proof -
  define m where "m = ensure_step_start_part (assistant_of data turn) step"
  have no: "\<not> is_tool_call c p" if p: "p \<in> set (parts m)" for p
  proof -
    obtain k where "parts m = parts (assistant_of data turn) @ replicate k StepStart"
      unfolding m_def using ensure_parts by blast
    with p consider "p \<in> set (parts (assistant_of data turn))" | "p = StepStart" by auto
    then show ?thesis
    proof cases
      case 1
      with find_tool_None [OF none] assistant_of_parts show ?thesis by blast
    qed simp
  qed
  then have "find_index (\<lambda>p. part_key p = part_key (Tool next)) (parts m) = None"
    using n part_key_tool_id unfolding find_index_eq_None_iff by (metis is_tool_call_iff part_tool_id.simps(1))
  then have parts: "parts (upsert_part m (Tool next)) = parts m @ [Tool next]"
    by (simp add: upsert_part_def with_status_keeps replace_or_append_def)
  let ?d = "upsert_message data (upsert_part m (Tool next))"
  have "find_tool_part ?d c = Some next"
  proof (rule find_tool_unique [OF upsert_message_in _ n])
    show "Tool next \<in> set (parts (upsert_part m (Tool next)))" by (simp add: parts)
    show "\<forall>x \<in> set ?d. \<forall>p \<in> set (parts x). is_tool_call c p \<longrightarrow> p = Tool next"
    proof (intro ballI impI)
      fix x p assume x: "x \<in> set ?d" and p: "p \<in> set (parts x)" "is_tool_call c p"
      from x upsert_message_set consider "x = upsert_part m (Tool next)" | "x \<in> set data" by blast
      then show "p = Tool next"
      proof cases
        case 1
        with p no show ?thesis by (auto simp: parts)
      next
        case 2
        with find_tool_None [OF none] p show ?thesis by blast
      qed
    qed
  qed
  then show ?thesis by (simp add: update_assistant_message_alt m_def)
qed

lemma find_tool_after_put:
  assumes ok: "data_ok data" and n: "tool_call_id next = c"
  shows "find_tool_part (put_tool_part data turn step (find_tool_part data c) next) c = Some next"
proof (cases "find_tool_part data c")
  case None
  with find_tool_after_insert [OF None n] show ?thesis by (simp add: put_tool_part_def)
next
  case (Some t)
  with find_tool_after_update [OF ok Some n] n show ?thesis by (simp add: put_tool_part_def)
qed

lemma result_part_id [simp]: "tool_call_id (result_part e step r a st) = result_call_id r"
  "part_state (result_part e step r a st) = st"
  by (simp_all add: result_part_def Let_def)

lemma action_result_shape:
  "\<exists>a s. reduce_action_result data turn step r st err
      = put_tool_part data turn step (find_tool_part data (result_call_id r))
          (result_part (find_tool_part data (result_call_id r)) step r a s)
    \<and> (s = OutputDenied \<or> (\<exists>e. s = OutputError e) \<or> (\<exists>v. s = OutputAvailable v False))"
proof (cases "map_option error_code err = Some ''TOOL_EXECUTION_DENIED''")
  case True
  then show ?thesis unfolding reduce_action_result_def Let_def by (simp only: if_True simp_thms) blast
next
  case False
  then show ?thesis
    by (cases "st = FailedAction") (simp only: reduce_action_result_def Let_def if_False if_True simp_thms, blast)+
qed

text \<open>A tool call settles once: its result is recorded on the part of the original call, with no
  new message when the call is already shown, whatever turn the result arrives in; and after that
  neither a late preliminary snapshot nor a late input delta of the call changes the projection.\<close>

lemma action_result_settles:
  assumes ok: "data_ok data"
  shows "let c = result_call_id r; data' = reduce_message_data data (ActionResult turn step r st err) in
     (\<exists>t. find_tool_part data' c = Some t \<and> is_settled_tool_part t)
     \<and> (find_tool_part data c \<noteq> None \<longrightarrow> map message_id data' = map message_id data)
     \<and> (\<forall>turn' step' r'. result_call_id r' = c \<longrightarrow> reduce_message_data data' (ActionPartial turn' step' r') = data')
     \<and> (\<forall>turn' step' name d. reduce_message_data data' (ActionInputAppended turn' step' c name d) = data')"
proof -
  define data' where "data' = reduce_message_data data (ActionResult turn step r st err)"
  from action_result_shape obtain a s where p: "data' = put_tool_part data turn step (find_tool_part data (result_call_id r))
        (result_part (find_tool_part data (result_call_id r)) step r a s)"
    and s: "s = OutputDenied \<or> (\<exists>e. s = OutputError e) \<or> (\<exists>v. s = OutputAvailable v False)"
    unfolding data'_def reduce_message_data.simps by blast
  let ?t = "result_part (find_tool_part data (result_call_id r)) step r a s"
  have f: "find_tool_part data' (result_call_id r) = Some ?t"
    unfolding p by (rule find_tool_after_put [OF ok]) simp
  have settled: "is_settled_tool_part ?t" using s by (auto simp: is_settled_tool_part_def)
  have ids: "map message_id data' = map message_id data" if e: "find_tool_part data (result_call_id r) \<noteq> None"
  proof -
    from e obtain t where "find_tool_part data (result_call_id r) = Some t" by blast
    from find_tool_after_update [OF ok this] e show ?thesis unfolding p by (simp add: put_tool_part_def)
  qed
  have "\<forall>turn' step' r'. result_call_id r' = result_call_id r \<longrightarrow>
      reduce_message_data data' (ActionPartial turn' step' r') = data'"
    using f settled by (simp add: reduce_action_partial_def)
  moreover have "reduce_message_data data' (ActionInputAppended turn' step' (result_call_id r) name d) = data'"
    for turn' step' name d
    using f s by (auto simp: reduce_input_appended_def)
  ultimately show ?thesis
    unfolding data'_def [symmetric] Let_def using f settled ids by blast
qed

theorem action_result_settles_witness:
  "find_tool_part (reduce_message_data [] (ActionResult ''t'' 0 (ToolResult ''c'' JNull ''f'') CompletedAction None)) ''c'' \<noteq> None"
proof -
  have "data_ok []" by (simp add: data_ok_def)
  from action_result_settles [OF this, of "ToolResult ''c'' JNull ''f''" "''t''" 0 CompletedAction None]
  show ?thesis by (auto simp: Let_def)
qed

section \<open>The end of a turn\<close>

fun is_streaming_run :: "message_part \<Rightarrow> bool" where
  "is_streaming_run (Run t r) = (run_state r = Some Streaming)"
| "is_streaming_run _ = False"

lemma close_run_closed: "\<not> is_streaming_run (close_run p)"
  by (cases p) auto

lemma assistant_of_failed:
  assumes ok: "data_ok data"
  shows "assistant_of (remove_streaming_tool_parts_for_turn data turn) turn
    = (assistant_of data turn)\<lparr>parts := remove_streaming_tool_parts (parts (assistant_of data turn))\<rparr>"
proof (cases "find_index (is_assistant_of turn) data")
  case None
  then have "List.find (is_assistant_of turn) data = None" by (simp add: find_index_eq_None_iff find_None_iff)
  with None show ?thesis
    by (simp add: remove_streaming_tool_parts_for_turn_def assistant_of_def create_assistant_message_def
        remove_streaming_tool_parts_def)
next
  case (Some i)
  then have i: "i < length data" and f: "List.find (is_assistant_of turn) data = Some (data ! i)"
    by (auto simp: find_index_eq_Some_iff find_Some_iff)
  let ?f = "\<lambda>m. m\<lparr>parts := remove_streaming_tool_parts (parts m)\<rparr>"
  have "remove_streaming_tool_parts_for_turn data turn = update_assistant_message data turn ?f"
    using Some f by (simp add: remove_streaming_tool_parts_for_turn_def update_assistant_message_def
        remove_streaming_tool_parts_def)
  moreover have "keeps_identity ?f" by (simp add: keeps_identity_def metadata_turn_def)
  ultimately show ?thesis using assistant_of_update [OF ok] by simp
qed

text \<open>When a turn ends, its message shows no half-streamed tool input. A completed turn is marked
  complete, and a cancelled turn is marked complete with every streamed run closed; a failed turn
  keeps its status and its open runs, so a message that was streaming stays so.\<close>

lemma turn_end_closes_message:
  assumes ok: "data_ok data"
  shows "\<forall>e \<in> {TurnCompleted turn, TurnCancelled turn, TurnFailed turn}.
       let m = assistant_of data turn; m' = assistant_of (reduce_message_data data e) turn in
         (\<forall>p \<in> set (parts m'). \<not> is_input_streaming p)
         \<and> (e \<noteq> TurnFailed turn \<longrightarrow> map_option meta_status (metadata m') = Some (Some CompleteStatus))
         \<and> (e = TurnCancelled turn \<longrightarrow> (\<forall>p \<in> set (parts m'). \<not> is_streaming_run p))
         \<and> (e = TurnFailed turn \<longrightarrow> metadata m' = metadata m
              \<and> filter is_streaming_run (parts m') = filter is_streaming_run (parts m))"
proof -
  have completed: "assistant_of (reduce_message_data data (TurnCompleted turn)) turn
      = finish_turn (assistant_of data turn) (parts (assistant_of data turn))"
    using assistant_of_update [OF ok keeps_identity_simps(7)] by simp
  have cancelled: "assistant_of (reduce_message_data data (TurnCancelled turn)) turn
      = finish_turn (assistant_of data turn) (map close_run (parts (assistant_of data turn)))"
    using assistant_of_update [OF ok keeps_identity_simps(7)] by simp
  have failed: "assistant_of (reduce_message_data data (TurnFailed turn)) turn
      = (assistant_of data turn)\<lparr>parts := remove_streaming_tool_parts (parts (assistant_of data turn))\<rparr>"
    using assistant_of_failed [OF ok] by simp
  have runs: "filter is_streaming_run (remove_streaming_tool_parts ps) = filter is_streaming_run ps" for ps
    unfolding remove_streaming_tool_parts_def filter_filter
    by (rule filter_cong [OF refl]) (rename_tac p, case_tac p; simp)
  have st: "map_option meta_status (metadata (finish_turn m ps)) = Some (Some CompleteStatus)" for m ps
    by (simp add: finish_turn_def with_status_def)
  have "\<forall>p \<in> set (parts (finish_turn m ps)). \<not> is_input_streaming p" for m ps
    by (simp add: finish_turn_def with_status_keeps remove_streaming_tool_parts_def)
  moreover have "\<forall>p \<in> set (parts (finish_turn m (map close_run ps))). \<not> is_streaming_run p" for m ps
    by (auto simp: finish_turn_def with_status_keeps remove_streaming_tool_parts_def close_run_closed)
  moreover have "\<forall>p \<in> set (remove_streaming_tool_parts ps). \<not> is_input_streaming p" for ps
    by (simp add: remove_streaming_tool_parts_def)
  ultimately show ?thesis
    using st runs by (simp add: completed cancelled failed Let_def del: reduce_message_data.simps)
qed

theorem turn_end_closes_message_witness:
  "map_option meta_status (metadata (assistant_of (reduce_message_data [] (TurnCancelled ''t'')) ''t''))
     = Some (Some CompleteStatus)"
proof -
  have "data_ok []" by (simp add: data_ok_def)
  from turn_end_closes_message [OF this, of "''t''"] show ?thesis by (simp add: Let_def)
qed

end
