(* ===== verification/Ordered_Emitter.thy ===== *)
theory Ordered_Emitter
  imports Message_Reducer
begin

text \<open>
  The emitter between the model stream and the durable event sink
  (packages/eve/src/harness/ordered-stream-emitter.ts): the buffer with its two capacity counters,
  the folding of adjacent append events and of snapshots of one tool call, the pump that keeps one
  write in flight, and the calls that wait for capacity or for the drain. The sink is asynchronous
  and not modelled: when a write ends, and whether it fails, are steps of the environment, and
  \<open>dispatched\<close> is what the sink was handed so far. A call is named by its caller; the
  continuation of a resolved promise is a step of its own, so every interleaving of continuations
  with other calls is a list of steps.
\<close>

section \<open>Events and their folding\<close>

record coordinates =
  at_sequence :: nat
  at_step :: nat
  at_turn :: string

text \<open>Every event that is neither an append nor a snapshot is a barrier.\<close>

datatype stream_event =
    MessageAppend coordinates string
  | ReasoningAppend coordinates string
  | InputAppend coordinates string string string
  | PartialSnapshot coordinates "json option" reducer_result
  | Barrier reducer_event

fun append_key :: "stream_event \<Rightarrow> string option" where
  "append_key (MessageAppend _ _) = Some ''message.appended''"
| "append_key (ReasoningAppend _ _) = Some ''reasoning.appended''"
| "append_key (InputAppend _ call _ _) = Some (''action.input.appended'' @ '':'' @ call)"
| "append_key _ = None"

definition is_append_event :: "stream_event \<Rightarrow> bool" where
  "is_append_event e \<longleftrightarrow> append_key e \<noteq> None"

fun append_delta :: "stream_event \<Rightarrow> string option" where
  "append_delta (MessageAppend _ d) = Some d"
| "append_delta (ReasoningAppend _ d) = Some d"
| "append_delta (InputAppend _ _ _ d) = Some d"
| "append_delta _ = None"

fun append_coordinates :: "stream_event \<Rightarrow> coordinates option" where
  "append_coordinates (MessageAppend c _) = Some c"
| "append_coordinates (ReasoningAppend c _) = Some c"
| "append_coordinates (InputAppend c _ _ _) = Some c"
| "append_coordinates _ = None"

definition same_coordinates :: "stream_event \<Rightarrow> stream_event \<Rightarrow> bool" where
  "same_coordinates l r \<longleftrightarrow> append_coordinates l = append_coordinates r"

definition delta_text :: "stream_event \<Rightarrow> string" where
  "delta_text e = (case append_delta e of None \<Rightarrow> [] | Some d \<Rightarrow> d)"

text \<open>Lengths count characters, JavaScript counts UTF-16 code units.\<close>

definition delta_length :: "stream_event \<Rightarrow> int" where
  "delta_length e = int (length (delta_text e))"

record 'm pending_emission =
  delta_characters :: int
  delta_parts :: "string list option"
  emission_event :: stream_event
  emission_messages :: "'m option"
  source_events :: int

text \<open>\<open>None\<close>: the events do not merge.\<close>

definition merge_adjacent_emissions ::
    "'m pending_emission \<Rightarrow> stream_event \<Rightarrow> 'm option \<Rightarrow> 'm pending_emission option" where
  "merge_adjacent_emissions l r msgs =
     (let left_key = append_key (emission_event l); right_key = append_key r in
      if left_key \<noteq> None \<or> right_key \<noteq> None then
        (if left_key = None \<or> left_key \<noteq> right_key \<or> \<not> is_append_event (emission_event l)
            \<or> \<not> is_append_event r \<or> \<not> same_coordinates (emission_event l) r
         then None
         else Some (l\<lparr>delta_parts := Some
                 ((case delta_parts l of None \<Rightarrow> [delta_text (emission_event l)] | Some ps \<Rightarrow> ps) @ [delta_text r]),
               emission_event := r, emission_messages := msgs\<rparr>))
      else (case (emission_event l, r) of
              (PartialSnapshot _ _ a, PartialSnapshot _ _ b) \<Rightarrow>
                if result_call_id a \<noteq> result_call_id b then None
                else Some (l\<lparr>emission_event := r, emission_messages := msgs\<rparr>)
            | _ \<Rightarrow> None))"

fun with_delta :: "stream_event \<Rightarrow> string \<Rightarrow> stream_event" where
  "with_delta (MessageAppend c _) d = MessageAppend c d"
| "with_delta (ReasoningAppend c _) d = ReasoningAppend c d"
| "with_delta (InputAppend c call tool _) d = InputAppend c call tool d"
| "with_delta e _ = e"

definition materialize_event :: "'m pending_emission \<Rightarrow> stream_event" where
  "materialize_event p =
     (case delta_parts p of
        None \<Rightarrow> emission_event p
      | Some ps \<Rightarrow> with_delta (emission_event p) (concat ps))"

section \<open>State and operations\<close>

definition MAX_PENDING_EVENTS :: int where "MAX_PENDING_EVENTS = 64"

definition MAX_PENDING_DELTA_CHARACTERS :: int where "MAX_PENDING_DELTA_CHARACTERS = 64 * 1024"

text \<open>
  \<open>in_flight\<close>: the pump awaits the sink. \<open>pumping\<close> of the code is true outside the pump's own
  synchronous run exactly then. \<open>resumable\<close> and \<open>drain_resumable\<close> are the calls whose promise is
  resolved and whose continuation has not run.
\<close>

record ('m, 'e) emitter =
  max_pending :: int
  pending :: "'m pending_emission list"
  capacity_waiters :: "nat list"
  idle_waiters :: "nat list"
  close_requested :: bool
  pending_delta_characters :: int
  pending_source_events :: int
  failure :: "'e option"
  in_flight :: bool
  resumable :: "nat list"
  drain_resumable :: "nat list"
  dispatched :: "(stream_event \<times> 'm option) list"

datatype creation_error = MaxPendingNotPositive

definition create_ordered_stream_emitter :: "int option \<Rightarrow> creation_error + ('m, 'e) emitter" where
  "create_ordered_stream_emitter limit =
     (let m = (case limit of None \<Rightarrow> MAX_PENDING_EVENTS | Some l \<Rightarrow> l) in
      if m < 1 then Inl MaxPendingNotPositive
      else Inr \<lparr>max_pending = m, pending = [], capacity_waiters = [], idle_waiters = [],
             close_requested = False, pending_delta_characters = 0, pending_source_events = 0,
             failure = None, in_flight = False, resumable = [], drain_resumable = [], dispatched = []\<rparr>)"

definition has_capacity :: "('m, 'e) emitter \<Rightarrow> bool" where
  "has_capacity s \<longleftrightarrow> pending_source_events s < max_pending s
     \<and> pending_delta_characters s < MAX_PENDING_DELTA_CHARACTERS"

definition settle_capacity_waiters :: "('m, 'e) emitter \<Rightarrow> ('m, 'e) emitter" where
  "settle_capacity_waiters s =
     (if \<not> has_capacity s then s
      else s\<lparr>resumable := resumable s @ capacity_waiters s, capacity_waiters := []\<rparr>)"

definition settle_idle_waiters :: "('m, 'e) emitter \<Rightarrow> ('m, 'e) emitter" where
  "settle_idle_waiters s = s\<lparr>drain_resumable := drain_resumable s @ idle_waiters s, idle_waiters := []\<rparr>"

text \<open>One round of the pump's loop, up to its next \<open>await\<close> or its end.\<close>

definition pump_round :: "('m, 'e) emitter \<Rightarrow> ('m, 'e) emitter" where
  "pump_round s =
     (case pending s of
        [] \<Rightarrow> settle_idle_waiters (s\<lparr>in_flight := False\<rparr>)
      | next # rest \<Rightarrow>
          (settle_capacity_waiters
             (s\<lparr>pending := rest,
                pending_delta_characters := pending_delta_characters s - delta_characters next,
                pending_source_events := pending_source_events s - source_events next\<rparr>))
          \<lparr>in_flight := True, dispatched := dispatched s @ [(materialize_event next, emission_messages next)]\<rparr>)"

definition pump :: "('m, 'e) emitter \<Rightarrow> ('m, 'e) emitter" where
  "pump s = (if in_flight s \<or> failure s \<noteq> None then s else pump_round s)"

definition sink_succeeds :: "('m, 'e) emitter \<Rightarrow> ('m, 'e) emitter" where
  "sink_succeeds s = (if in_flight s then pump_round s else s)"

definition sink_fails :: "('m, 'e) emitter \<Rightarrow> 'e \<Rightarrow> ('m, 'e) emitter" where
  "sink_fails s e =
     (if \<not> in_flight s then s
      else settle_idle_waiters
        ((settle_capacity_waiters
           (s\<lparr>failure := (case failure s of None \<Rightarrow> Some e | Some f \<Rightarrow> Some f),
              pending := [], pending_delta_characters := 0, pending_source_events := 0\<rparr>))
         \<lparr>in_flight := False\<rparr>))"

datatype 'e call_result = Returned | Threw 'e | ThrewClosed | Waiting

text \<open>\<open>throwIfFailed\<close> at the end of a call.\<close>

definition throw_if_failed :: "('m, 'e) emitter \<Rightarrow> 'e call_result" where
  "throw_if_failed s = (case failure s of None \<Rightarrow> Returned | Some e \<Rightarrow> Threw e)"

definition buffer_event :: "('m, 'e) emitter \<Rightarrow> stream_event \<Rightarrow> 'm option \<Rightarrow> 'm pending_emission list" where
  "buffer_event s e msgs =
     (let fresh = \<lparr>delta_characters = delta_length e, delta_parts = None, emission_event = e,
                   emission_messages = msgs, source_events = 1\<rparr> in
      case rev (pending s) of
        [] \<Rightarrow> [fresh]
      | l # earlier \<Rightarrow>
          (case merge_adjacent_emissions l e msgs of
             None \<Rightarrow> pending s @ [fresh]
           | Some l' \<Rightarrow> rev earlier @ [l'\<lparr>delta_characters := delta_characters l' + delta_length e,
                                       source_events := source_events l' + 1\<rparr>]))"

definition emit :: "('m, 'e) emitter \<Rightarrow> nat \<Rightarrow> stream_event \<Rightarrow> 'm option \<Rightarrow> 'e call_result \<times> ('m, 'e) emitter" where
  "emit s caller e msgs =
     (case failure s of
        Some f \<Rightarrow> (Threw f, s)
      | None \<Rightarrow>
          if close_requested s then (ThrewClosed, s)
          else
            (let s' = pump (s\<lparr>pending := buffer_event s e msgs,
                     pending_delta_characters := pending_delta_characters s + delta_length e,
                     pending_source_events := pending_source_events s + 1\<rparr>)
             in if \<not> has_capacity s' then (Waiting, s'\<lparr>capacity_waiters := capacity_waiters s' @ [caller]\<rparr>)
                else (throw_if_failed s', s')))"

definition close_and_drain :: "('m, 'e) emitter \<Rightarrow> nat \<Rightarrow> 'e call_result \<times> ('m, 'e) emitter" where
  "close_and_drain s caller =
     (let s' = pump (s\<lparr>close_requested := True\<rparr>) in
      if \<not> in_flight s' \<and> pending s' = [] then (throw_if_failed s', s')
      else (Waiting, s'\<lparr>idle_waiters := idle_waiters s' @ [caller]\<rparr>))"

text \<open>The continuations after the two promises: both end in \<open>throwIfFailed\<close>.\<close>

definition resume_emit :: "('m, 'e) emitter \<Rightarrow> nat \<Rightarrow> 'e call_result \<times> ('m, 'e) emitter" where
  "resume_emit s caller =
     (if caller \<in> set (resumable s)
      then (throw_if_failed s, s\<lparr>resumable := remove1 caller (resumable s)\<rparr>) else (Waiting, s))"

definition resume_drain :: "('m, 'e) emitter \<Rightarrow> nat \<Rightarrow> 'e call_result \<times> ('m, 'e) emitter" where
  "resume_drain s caller =
     (if caller \<in> set (drain_resumable s)
      then (throw_if_failed s, s\<lparr>drain_resumable := remove1 caller (drain_resumable s)\<rparr>) else (Waiting, s))"

section \<open>Histories\<close>

datatype ('m, 'e) emitter_op =
    Emit nat stream_event "'m option"
  | CloseAndDrain nat
  | SinkSucceeds
  | SinkFails 'e
  | ResumeEmit nat
  | ResumeDrain nat

fun emitter_step :: "('m, 'e) emitter \<Rightarrow> ('m, 'e) emitter_op \<Rightarrow> ('m, 'e) emitter" where
  "emitter_step s (Emit c e m) = snd (emit s c e m)"
| "emitter_step s (CloseAndDrain c) = snd (close_and_drain s c)"
| "emitter_step s SinkSucceeds = sink_succeeds s"
| "emitter_step s (SinkFails e) = sink_fails s e"
| "emitter_step s (ResumeEmit c) = snd (resume_emit s c)"
| "emitter_step s (ResumeDrain c) = snd (resume_drain s c)"

text \<open>The events an emitter took: those whose call neither threw the failure nor found it closed.\<close>

fun accepted_events :: "('m, 'e) emitter \<Rightarrow> ('m, 'e) emitter_op list \<Rightarrow> stream_event list" where
  "accepted_events s [] = []"
| "accepted_events s (Emit c e m # ops) =
     (if failure s = None \<and> \<not> close_requested s then [e] else [])
       @ accepted_events (emitter_step s (Emit c e m)) ops"
| "accepted_events s (op # ops) = accepted_events (emitter_step s op) ops"

section \<open>The invariant of the buffer\<close>

definition emission_ok :: "'m pending_emission \<Rightarrow> bool" where
  "emission_ok p \<longleftrightarrow> 1 \<le> source_events p \<and> 0 \<le> delta_characters p"

definition emitter_inv :: "('m, 'e) emitter \<Rightarrow> bool" where
  "emitter_inv s \<longleftrightarrow>
     1 \<le> max_pending s
     \<and> pending_source_events s = sum_list (map source_events (pending s))
     \<and> pending_delta_characters s = sum_list (map delta_characters (pending s))
     \<and> (\<forall>p \<in> set (pending s). emission_ok p)
     \<and> (pending s \<noteq> [] \<longrightarrow> in_flight s)
     \<and> (failure s \<noteq> None \<longrightarrow> \<not> in_flight s)
     \<and> (capacity_waiters s \<noteq> [] \<longrightarrow> \<not> has_capacity s)
     \<and> (\<not> in_flight s \<longrightarrow> idle_waiters s = [])
     \<and> pending_source_events s \<le> max_pending s - 1 + int (length (capacity_waiters s))"

lemma delta_length_nonneg: "0 \<le> delta_length e"
  by (simp add: delta_length_def)

lemma merge_keeps_counts:
  "merge_adjacent_emissions l e msgs = Some l' \<Longrightarrow>
     delta_characters l' = delta_characters l \<and> source_events l' = source_events l"
  by (auto simp: merge_adjacent_emissions_def Let_def split: if_splits stream_event.splits)

lemma buffer_event_counts:
  "sum_list (map source_events (buffer_event s e msgs)) = sum_list (map source_events (pending s)) + 1"
  "sum_list (map delta_characters (buffer_event s e msgs)) = sum_list (map delta_characters (pending s)) + delta_length e"
  "buffer_event s e msgs \<noteq> []"
proof -
  have "sum_list (map source_events (buffer_event s e msgs)) = sum_list (map source_events (pending s)) + 1
    \<and> sum_list (map delta_characters (buffer_event s e msgs)) = sum_list (map delta_characters (pending s)) + delta_length e
    \<and> buffer_event s e msgs \<noteq> []"
  proof (cases "rev (pending s)")
    case Nil
    then show ?thesis by (simp add: buffer_event_def Let_def)
  next
    case (Cons l earlier)
    then have p: "pending s = rev earlier @ [l]" by (simp add: rev_eq_Cons_iff)
    show ?thesis
    proof (cases "merge_adjacent_emissions l e msgs")
      case None
      with Cons p show ?thesis by (simp add: buffer_event_def Let_def)
    next
      case (Some l')
      from merge_keeps_counts [OF this] Some Cons p show ?thesis by (simp add: buffer_event_def Let_def)
    qed
  qed
  then show "sum_list (map source_events (buffer_event s e msgs)) = sum_list (map source_events (pending s)) + 1"
    "sum_list (map delta_characters (buffer_event s e msgs)) = sum_list (map delta_characters (pending s)) + delta_length e"
    "buffer_event s e msgs \<noteq> []" by blast+
qed

lemma buffer_event_ok:
  assumes "\<forall>p \<in> set (pending s). emission_ok p"
  shows "\<forall>p \<in> set (buffer_event s e msgs). emission_ok p"
proof (cases "rev (pending s)")
  case Nil
  then show ?thesis by (simp add: buffer_event_def Let_def emission_ok_def delta_length_nonneg)
next
  case (Cons l earlier)
  then have p: "pending s = rev earlier @ [l]" by (simp add: rev_eq_Cons_iff)
  show ?thesis
  proof (cases "merge_adjacent_emissions l e msgs")
    case None
    with assms Cons p show ?thesis by (simp add: buffer_event_def Let_def emission_ok_def delta_length_nonneg)
  next
    case (Some l')
    from merge_keeps_counts [OF this] Some assms Cons p delta_length_nonneg [of e] show ?thesis
      by (simp add: buffer_event_def Let_def emission_ok_def)
  qed
qed

lemma settle_capacity_fields [simp]:
  "max_pending (settle_capacity_waiters s) = max_pending s"
  "pending (settle_capacity_waiters s) = pending s"
  "idle_waiters (settle_capacity_waiters s) = idle_waiters s"
  "close_requested (settle_capacity_waiters s) = close_requested s"
  "pending_delta_characters (settle_capacity_waiters s) = pending_delta_characters s"
  "pending_source_events (settle_capacity_waiters s) = pending_source_events s"
  "failure (settle_capacity_waiters s) = failure s"
  "in_flight (settle_capacity_waiters s) = in_flight s"
  "drain_resumable (settle_capacity_waiters s) = drain_resumable s"
  "dispatched (settle_capacity_waiters s) = dispatched s"
  "capacity_waiters (settle_capacity_waiters s) = (if has_capacity s then [] else capacity_waiters s)"
  "resumable (settle_capacity_waiters s) = (if has_capacity s then resumable s @ capacity_waiters s else resumable s)"
  by (simp_all add: settle_capacity_waiters_def)

lemma settle_idle_fields [simp]:
  "max_pending (settle_idle_waiters s) = max_pending s"
  "pending (settle_idle_waiters s) = pending s"
  "idle_waiters (settle_idle_waiters s) = []"
  "close_requested (settle_idle_waiters s) = close_requested s"
  "pending_delta_characters (settle_idle_waiters s) = pending_delta_characters s"
  "pending_source_events (settle_idle_waiters s) = pending_source_events s"
  "failure (settle_idle_waiters s) = failure s"
  "in_flight (settle_idle_waiters s) = in_flight s"
  "drain_resumable (settle_idle_waiters s) = drain_resumable s @ idle_waiters s"
  "dispatched (settle_idle_waiters s) = dispatched s"
  "capacity_waiters (settle_idle_waiters s) = capacity_waiters s"
  "resumable (settle_idle_waiters s) = resumable s"
  by (simp_all add: settle_idle_waiters_def)

lemma has_capacity_updates [simp]:
  "has_capacity (s\<lparr>in_flight := b\<rparr>) = has_capacity s"
  "has_capacity (s\<lparr>dispatched := d\<rparr>) = has_capacity s"
  "has_capacity (s\<lparr>close_requested := b\<rparr>) = has_capacity s"
  "has_capacity (s\<lparr>idle_waiters := w\<rparr>) = has_capacity s"
  "has_capacity (s\<lparr>capacity_waiters := w\<rparr>) = has_capacity s"
  "has_capacity (s\<lparr>resumable := w\<rparr>) = has_capacity s"
  "has_capacity (s\<lparr>drain_resumable := w\<rparr>) = has_capacity s"
  by (simp_all add: has_capacity_def)

lemma has_capacity_cong:
  "max_pending s = max_pending t \<Longrightarrow> pending_source_events s = pending_source_events t \<Longrightarrow>
   pending_delta_characters s = pending_delta_characters t \<Longrightarrow> has_capacity s = has_capacity t"
  by (simp add: has_capacity_def)

lemma emission_sums_nonneg:
  assumes "\<forall>p \<in> set ps. emission_ok p"
  shows "0 \<le> sum_list (map source_events ps)" "0 \<le> sum_list (map delta_characters ps)"
  using assms by (induction ps) (auto simp: emission_ok_def)

lemma no_capacity_pending:
  assumes "emitter_inv s" "\<not> has_capacity s"
  shows "pending s \<noteq> []" "in_flight s"
proof -
  show "pending s \<noteq> []"
    using assms by (auto simp: emitter_inv_def has_capacity_def MAX_PENDING_DELTA_CHARACTERS_def)
  with assms show "in_flight s" by (simp add: emitter_inv_def)
qed

lemma pump_round_inv:
  assumes "emitter_inv s" "in_flight s"
  shows "emitter_inv (pump_round s)"
proof (cases "pending s")
  case Nil
  with assms have "has_capacity s" "capacity_waiters s = []"
    by (auto simp: emitter_inv_def has_capacity_def MAX_PENDING_DELTA_CHARACTERS_def)
  with Nil assms show ?thesis
    by (simp add: pump_round_def emitter_inv_def has_capacity_def)
next
  case (Cons p ps)
  let ?t = "s\<lparr>pending := ps, pending_delta_characters := pending_delta_characters s - delta_characters p,
    pending_source_events := pending_source_events s - source_events p\<rparr>"
  have t: "pump_round s = (settle_capacity_waiters ?t)\<lparr>in_flight := True,
      dispatched := dispatched s @ [(materialize_event p, emission_messages p)]\<rparr>"
    by (simp add: pump_round_def Cons)
  from assms Cons have ok: "emission_ok p" "\<forall>q \<in> set ps. emission_ok q" by (auto simp: emitter_inv_def)
  have c: "has_capacity (pump_round s) = has_capacity ?t"
    unfolding t by (rule has_capacity_cong) simp_all
  have bound: "pending_source_events (pump_round s) \<le> max_pending s - 1 + int (length (capacity_waiters (pump_round s)))"
  proof (cases "has_capacity ?t")
    case True
    then show ?thesis unfolding t by (simp add: has_capacity_def)
  next
    case False
    with assms Cons ok show ?thesis unfolding t by (simp add: emitter_inv_def emission_ok_def)
  qed
  show ?thesis
    unfolding emitter_inv_def c using assms Cons ok bound
    by (simp add: t emitter_inv_def)
qed

lemma sink_fails_inv: "emitter_inv s \<Longrightarrow> emitter_inv (sink_fails s e)"
  by (auto simp: sink_fails_def emitter_inv_def has_capacity_def MAX_PENDING_DELTA_CHARACTERS_def split: option.split)

text \<open>What \<open>emit\<close> does to the state, by the state the pump is in.\<close>

lemma emit_busy:
  assumes "failure s = None" "\<not> close_requested s" "in_flight s"
  shows "emit s c e msgs =
     (let s' = s\<lparr>pending := buffer_event s e msgs,
             pending_delta_characters := pending_delta_characters s + delta_length e,
             pending_source_events := pending_source_events s + 1\<rparr>
      in if \<not> has_capacity s' then (Waiting, s'\<lparr>capacity_waiters := capacity_waiters s' @ [c]\<rparr>)
         else (Returned, s'))"
  using assms by (simp add: emit_def pump_def Let_def throw_if_failed_def)

lemma emit_idle:
  assumes "emitter_inv s" "failure s = None" "\<not> close_requested s" "\<not> in_flight s"
  shows "emit s c e msgs = (Returned, s\<lparr>in_flight := True, dispatched := dispatched s @ [(e, msgs)]\<rparr>)"
proof -
  from assms have p: "pending s = []" "pending_source_events s = 0" "pending_delta_characters s = 0"
    "capacity_waiters s = []" "1 \<le> max_pending s"
    by (auto simp: emitter_inv_def has_capacity_def MAX_PENDING_DELTA_CHARACTERS_def)
  have b: "buffer_event s e msgs = [\<lparr>delta_characters = delta_length e, delta_parts = None, emission_event = e,
      emission_messages = msgs, source_events = 1\<rparr>]"
    by (simp add: buffer_event_def p Let_def)
  show ?thesis
    using assms p by (simp add: emit_def b pump_def pump_round_def Let_def settle_capacity_waiters_def
        has_capacity_def MAX_PENDING_DELTA_CHARACTERS_def materialize_event_def throw_if_failed_def)
qed

lemma emit_refused:
  assumes "failure s \<noteq> None \<or> close_requested s"
  shows "snd (emit s c e msgs) = s"
  using assms by (auto simp: emit_def split: option.split)

lemma emit_inv:
  assumes inv: "emitter_inv s"
  shows "emitter_inv (snd (emit s c e msgs))"
proof (cases "failure s \<noteq> None \<or> close_requested s")
  case True
  with inv show ?thesis by (simp add: emit_refused)
next
  case acc: False
  show ?thesis
  proof (cases "in_flight s")
    case False
    with inv acc show ?thesis unfolding emitter_inv_def by (simp add: emit_idle [OF inv])
  next
    case busy: True
    let ?s = "s\<lparr>pending := buffer_event s e msgs,
             pending_delta_characters := pending_delta_characters s + delta_length e,
             pending_source_events := pending_source_events s + 1\<rparr>"
    from inv have ok: "\<forall>p \<in> set (buffer_event s e msgs). emission_ok p"
      by (intro buffer_event_ok) (simp add: emitter_inv_def)
    have cap: "\<not> has_capacity s \<Longrightarrow> \<not> has_capacity ?s"
      using delta_length_nonneg [of e] unfolding has_capacity_def by auto
    have base: "1 \<le> max_pending ?s" "pending_source_events ?s = sum_list (map source_events (pending ?s))"
      "pending_delta_characters ?s = sum_list (map delta_characters (pending ?s))"
      using inv by (simp_all add: emitter_inv_def buffer_event_counts)
    show ?thesis
    proof (cases "has_capacity ?s")
      case True
      with cap inv have w: "capacity_waiters s = []" by (auto simp: emitter_inv_def)
      have "snd (emit s c e msgs) = ?s" using acc busy True by (simp add: emit_busy Let_def)
      moreover have "pending_source_events ?s \<le> max_pending ?s - 1 + int (length (capacity_waiters ?s))"
        using True by (simp add: has_capacity_def)
      ultimately show ?thesis
        using inv base ok busy w acc by (simp add: emitter_inv_def)
    next
      case False
      let ?w = "?s\<lparr>capacity_waiters := capacity_waiters ?s @ [c]\<rparr>"
      have "snd (emit s c e msgs) = ?w" using acc busy False by (simp add: emit_busy Let_def)
      moreover have "\<not> has_capacity ?w" using False by (simp add: has_capacity_def)
      moreover have "pending_source_events ?w \<le> max_pending ?w - 1 + int (length (capacity_waiters ?w))"
        using inv by (simp add: emitter_inv_def)
      ultimately show ?thesis
        using inv base ok busy acc by (simp add: emitter_inv_def)
    qed
  qed
qed

lemma close_and_drain_eq:
  assumes "emitter_inv s"
  shows "close_and_drain s c =
     (if in_flight s then (Waiting, s\<lparr>close_requested := True, idle_waiters := idle_waiters s @ [c]\<rparr>)
      else (throw_if_failed s, s\<lparr>close_requested := True\<rparr>))"
proof (cases "in_flight s")
  case True
  then show ?thesis by (simp add: close_and_drain_def pump_def Let_def)
next
  case False
  with assms have "pending s = []" "idle_waiters s = []" by (auto simp: emitter_inv_def)
  with False show ?thesis
    by (simp add: close_and_drain_def pump_def pump_round_def Let_def settle_idle_waiters_def throw_if_failed_def)
qed

lemma emitter_inv_frame:
  assumes "emitter_inv s" and eqs: "max_pending t = max_pending s" "pending t = pending s"
    "pending_source_events t = pending_source_events s" "pending_delta_characters t = pending_delta_characters s"
    "in_flight t = in_flight s" "failure t = failure s" "capacity_waiters t = capacity_waiters s"
    and idle: "\<not> in_flight s \<Longrightarrow> idle_waiters t = []"
  shows "emitter_inv t"
proof -
  have c: "has_capacity t = has_capacity s" by (rule has_capacity_cong) (simp_all add: eqs)
  from assms(1) idle show ?thesis unfolding emitter_inv_def eqs c by blast
qed

lemma emitter_step_inv:
  assumes inv: "emitter_inv s"
  shows "emitter_inv (emitter_step s op)"
proof (cases op)
  case (CloseAndDrain c)
  from inv have idle: "\<not> in_flight s \<Longrightarrow> idle_waiters s = []" by (simp add: emitter_inv_def)
  show ?thesis unfolding CloseAndDrain emitter_step.simps close_and_drain_eq [OF inv]
    by (rule emitter_inv_frame [OF inv]) (use idle in \<open>simp_all split: if_split\<close>)
next
  case SinkSucceeds
  with inv show ?thesis by (simp add: sink_succeeds_def pump_round_inv)
next
  case (ResumeEmit c)
  from inv have idle: "\<not> in_flight s \<Longrightarrow> idle_waiters s = []" by (simp add: emitter_inv_def)
  show ?thesis unfolding ResumeEmit emitter_step.simps resume_emit_def
    by (rule emitter_inv_frame [OF inv]) (use idle in \<open>simp_all split: if_split\<close>)
next
  case (ResumeDrain c)
  from inv have idle: "\<not> in_flight s \<Longrightarrow> idle_waiters s = []" by (simp add: emitter_inv_def)
  show ?thesis unfolding ResumeDrain emitter_step.simps resume_drain_def
    by (rule emitter_inv_frame [OF inv]) (use idle in \<open>simp_all split: if_split\<close>)
qed (use inv in \<open>simp_all add: emit_inv sink_fails_inv\<close>)

interpretation emitter_machine: invariant_machine emitter_step "emitter_inv :: ('m, 'e) emitter \<Rightarrow> bool"
  by unfold_locales (rule emitter_step_inv)

lemma created_inv: "create_ordered_stream_emitter limit = Inr s \<Longrightarrow> emitter_inv s"
  by (auto simp: create_ordered_stream_emitter_def emitter_inv_def Let_def split: if_splits)

section \<open>What reaches the sink\<close>

text \<open>
  The specification of the folding, free of buffers and interleavings: adjacent events that may be
  folded form a group, a group is sent as its last event with the deltas of all, and a sequence of
  sent events covers a sequence of source events when it is the folding of consecutive groups.
\<close>

definition folds_with :: "stream_event \<Rightarrow> stream_event \<Rightarrow> bool" where
  "folds_with l r =
     (if append_key l \<noteq> None \<or> append_key r \<noteq> None
      then append_key l = append_key r \<and> append_coordinates l = append_coordinates r
      else (case (l, r) of
              (PartialSnapshot _ _ a, PartialSnapshot _ _ b) \<Rightarrow> result_call_id a = result_call_id b
            | _ \<Rightarrow> False))"

definition is_group :: "stream_event list \<Rightarrow> bool" where
  "is_group g \<longleftrightarrow> g \<noteq> [] \<and> successively folds_with g"

definition group_text :: "stream_event list \<Rightarrow> string" where
  "group_text g = concat (map delta_text g)"

definition fold_group :: "stream_event list \<Rightarrow> stream_event" where
  "fold_group g = with_delta (List.last g) (group_text g)"

inductive covers :: "stream_event list \<Rightarrow> stream_event list \<Rightarrow> bool" where
  covers_nil: "covers [] []"
| covers_group: "is_group g \<Longrightarrow> covers es ds \<Longrightarrow> covers (g @ es) (fold_group g # ds)"

lemma covers_groups: "\<forall>g \<in> set gs. is_group g \<Longrightarrow> covers (concat gs) (map fold_group gs)"
  by (induction gs) (auto intro: covers.intros)

definition parts_text :: "'m pending_emission \<Rightarrow> string" where
  "parts_text p = (case delta_parts p of None \<Rightarrow> delta_text (emission_event p) | Some ps \<Rightarrow> concat ps)"

definition represents :: "'m pending_emission \<Rightarrow> stream_event list \<Rightarrow> bool" where
  "represents p g \<longleftrightarrow> is_group g \<and> emission_event p = List.last g \<and> parts_text p = group_text g"

lemma with_own_delta: "with_delta e (delta_text e) = e"
  by (cases e) (simp_all add: delta_text_def)

lemma materialize_represents: "represents p g \<Longrightarrow> materialize_event p = fold_group g"
  by (auto simp: represents_def materialize_event_def fold_group_def parts_text_def with_own_delta
      split: option.splits)
    (metis with_own_delta)

lemma append_key_delta: "append_key e = None \<Longrightarrow> delta_text e = []"
  by (cases e) (simp_all add: delta_text_def)

lemma merge_folds:
  assumes "merge_adjacent_emissions l e msgs = Some l'"
  shows "folds_with (emission_event l) e \<and> emission_event l' = e \<and> parts_text l' = parts_text l @ delta_text e"
proof (cases "append_key (emission_event l) \<noteq> None \<or> append_key e \<noteq> None")
  case True
  with assms show ?thesis
    by (auto simp: merge_adjacent_emissions_def Let_def folds_with_def same_coordinates_def parts_text_def
        split: if_splits option.splits)
next
  case False
  with assms show ?thesis
    by (auto simp: merge_adjacent_emissions_def Let_def folds_with_def parts_text_def append_key_delta
        split: if_splits option.splits stream_event.splits)
qed

lemma represents_merge:
  assumes "represents l g" "merge_adjacent_emissions l e msgs = Some l'"
  shows "represents (l'\<lparr>delta_characters := n, source_events := k\<rparr>) (g @ [e])"
  using assms(1) merge_folds [OF assms(2)]
  by (auto simp: represents_def is_group_def group_text_def parts_text_def successively_append_iff
      split: option.splits)

lemma represents_fresh:
  "represents \<lparr>delta_characters = n, delta_parts = None, emission_event = e, emission_messages = m,
     source_events = k\<rparr> [e]"
  by (simp add: represents_def is_group_def group_text_def parts_text_def)

lemma buffer_event_represents:
  assumes "list_all2 represents (pending s) gs"
  shows "\<exists>gs'. list_all2 represents (buffer_event s e msgs) gs' \<and> concat gs' = concat gs @ [e]"
proof (cases "rev (pending s)")
  case Nil
  with assms have "gs = []" by simp
  with Nil have "list_all2 represents (buffer_event s e msgs) [[e]] \<and> concat [[e]] = concat gs @ [e]"
    by (simp add: buffer_event_def Let_def represents_fresh)
  then show ?thesis by blast
next
  case (Cons l earlier)
  then have p: "pending s = rev earlier @ [l]" by (simp add: rev_eq_Cons_iff)
  with assms obtain hs g where g: "gs = hs @ [g]" "list_all2 represents (rev earlier) hs" "represents l g"
    by (auto simp: list_all2_append1 list_all2_Cons1)
  show ?thesis
  proof (cases "merge_adjacent_emissions l e msgs")
    case None
    with Cons have "buffer_event s e msgs = pending s @ [\<lparr>delta_characters = delta_length e,
        delta_parts = None, emission_event = e, emission_messages = msgs, source_events = 1\<rparr>]"
      by (simp add: buffer_event_def Let_def)
    then have "list_all2 represents (buffer_event s e msgs) (gs @ [[e]])"
      using assms by (simp add: list_all2_appendI represents_fresh)
    moreover have "concat (gs @ [[e]]) = concat gs @ [e]" by simp
    ultimately show ?thesis by blast
  next
    case (Some l')
    with Cons g have "list_all2 represents (buffer_event s e msgs) (hs @ [g @ [e]])"
      by (auto simp: buffer_event_def Let_def intro: list_all2_appendI represents_merge)
    moreover have "concat (hs @ [g @ [e]]) = concat gs @ [e]" using g(1) by simp
    ultimately show ?thesis by blast
  qed
qed

definition emitter_rel :: "('m, 'e) emitter \<Rightarrow> stream_event list \<Rightarrow> bool" where
  "emitter_rel s acc \<longleftrightarrow> (\<exists>gd gp.
     map fst (dispatched s) = map fold_group gd \<and> (\<forall>g \<in> set gd. is_group g)
     \<and> list_all2 represents (pending s) gp
     \<and> (if failure s = None then concat gd @ concat gp = acc else (\<exists>dropped. concat gd @ dropped = acc)))"

lemma emitter_rel_frame:
  assumes "emitter_rel s acc" "dispatched t = dispatched s" "pending t = pending s" "failure t = failure s"
  shows "emitter_rel t acc"
  using assms(1) unfolding emitter_rel_def assms(2-4) .

lemma pump_round_rel:
  assumes "emitter_rel s acc" "failure s = None"
  shows "emitter_rel (pump_round s) acc"
proof (cases "pending s")
  case Nil
  with assms show ?thesis by (intro emitter_rel_frame [OF assms(1)]) (simp_all add: pump_round_def)
next
  case (Cons p ps)
  from assms obtain gd gp where r: "map fst (dispatched s) = map fold_group gd" "\<forall>g \<in> set gd. is_group g"
    "list_all2 represents (pending s) gp" "concat gd @ concat gp = acc"
    by (auto simp: emitter_rel_def)
  from r(3) Cons obtain g gs where g: "gp = g # gs" "represents p g" "list_all2 represents ps gs"
    by (auto simp: list_all2_Cons1)
  have "map fst (dispatched (pump_round s)) = map fold_group (gd @ [g])"
    using r(1) g(2) by (simp add: pump_round_def Cons materialize_represents)
  moreover have "\<forall>h \<in> set (gd @ [g]). is_group h" using r(2) g(2) by (simp add: represents_def)
  moreover have "list_all2 represents (pending (pump_round s)) gs" using g(3) by (simp add: pump_round_def Cons)
  moreover have "failure (pump_round s) = None" using assms(2) by (simp add: pump_round_def Cons)
  moreover have "concat (gd @ [g]) @ concat gs = acc" using r(4) g(1) by simp
  ultimately show ?thesis unfolding emitter_rel_def
    by - (rule exI [of _ "gd @ [g]"], rule exI [of _ gs], simp)
qed

lemma sink_fails_rel:
  assumes "emitter_rel s acc"
  shows "emitter_rel (sink_fails s e) acc"
proof (cases "in_flight s")
  case True
  from assms obtain gd gp where r: "map fst (dispatched s) = map fold_group gd" "\<forall>g \<in> set gd. is_group g"
    "if failure s = None then concat gd @ concat gp = acc else (\<exists>dropped. concat gd @ dropped = acc)"
    by (auto simp: emitter_rel_def)
  from r(3) have "\<exists>dropped. concat gd @ dropped = acc" by (auto split: if_splits)
  moreover have "failure (sink_fails s e) \<noteq> None" using True by (simp add: sink_fails_def split: option.split)
  moreover have "map fst (dispatched (sink_fails s e)) = map fold_group gd" "pending (sink_fails s e) = []"
    using True r(1) by (simp_all add: sink_fails_def)
  ultimately show ?thesis using r(2)
    unfolding emitter_rel_def by - (rule exI [of _ gd], rule exI [of _ "[]"], auto)
qed (use assms in \<open>simp add: sink_fails_def\<close>)

lemma emit_rel:
  assumes inv: "emitter_inv s" and rel: "emitter_rel s acc"
  shows "emitter_rel (snd (emit s c e msgs)) (acc @ (if failure s = None \<and> \<not> close_requested s then [e] else []))"
proof (cases "failure s = None \<and> \<not> close_requested s")
  case False
  then have "snd (emit s c e msgs) = s" by (intro emit_refused) auto
  moreover have "acc @ (if failure s = None \<and> \<not> close_requested s then [e] else []) = acc"
    using False by (simp only: if_False append_Nil2)
  ultimately show ?thesis using rel by (simp only:)
next
  case acc: True
  from acc rel obtain gd gp where r: "map fst (dispatched s) = map fold_group gd" "\<forall>g \<in> set gd. is_group g"
    "list_all2 represents (pending s) gp" "concat gd @ concat gp = acc"
    by (auto simp: emitter_rel_def)
  show ?thesis
  proof (cases "in_flight s")
    case False
    with inv have p: "pending s = []" by (auto simp: emitter_inv_def)
    with r have gp: "gp = []" by simp
    have f: "fold_group [e] = e" "is_group [e]"
      by (simp_all add: fold_group_def group_text_def with_own_delta is_group_def)
    have e: "emit s c e msgs = (Returned, s\<lparr>in_flight := True, dispatched := dispatched s @ [(e, msgs)]\<rparr>)"
      using inv acc False by (intro emit_idle) simp_all
    show ?thesis unfolding emitter_rel_def e
      by (rule exI [of _ "gd @ [[e]]"], rule exI [of _ "[]"]) (use r acc p f gp in simp)
  next
    case True
    from buffer_event_represents [OF r(3)] obtain gs' where
      gs: "list_all2 represents (buffer_event s e msgs) gs'" "concat gs' = concat gp @ [e]" by blast
    have "pending (snd (emit s c e msgs)) = buffer_event s e msgs" "dispatched (snd (emit s c e msgs)) = dispatched s"
      "failure (snd (emit s c e msgs)) = None"
      using acc True by (simp_all add: emit_busy Let_def)
    then show ?thesis unfolding emitter_rel_def
      by - (rule exI [of _ gd], rule exI [of _ gs'], use r gs acc in simp)
  qed
qed

lemma emitter_step_rel:
  assumes inv: "emitter_inv s" and rel: "emitter_rel s acc"
  shows "emitter_rel (emitter_step s op) (acc @ accepted_events s [op])"
proof (cases op)
  case (Emit c e m)
  with emit_rel [OF inv rel] show ?thesis by simp
next
  case (CloseAndDrain c)
  have "emitter_rel (snd (close_and_drain s c)) acc"
    unfolding close_and_drain_eq [OF inv] by (rule emitter_rel_frame [OF rel]) (simp_all split: if_split)
  with CloseAndDrain show ?thesis by simp
next
  case SinkSucceeds
  have "emitter_rel (sink_succeeds s) acc"
    using inv pump_round_rel [OF rel] rel by (auto simp: sink_succeeds_def emitter_inv_def)
  with SinkSucceeds show ?thesis by simp
next
  case (SinkFails e)
  with sink_fails_rel [OF rel] show ?thesis by simp
next
  case (ResumeEmit c)
  have "emitter_rel (snd (resume_emit s c)) acc"
    unfolding resume_emit_def by (rule emitter_rel_frame [OF rel]) (simp_all split: if_split)
  with ResumeEmit show ?thesis by simp
next
  case (ResumeDrain c)
  have "emitter_rel (snd (resume_drain s c)) acc"
    unfolding resume_drain_def by (rule emitter_rel_frame [OF rel]) (simp_all split: if_split)
  with ResumeDrain show ?thesis by simp
qed

lemma accepted_events_Cons: "accepted_events s (op # ops) = accepted_events s [op] @ accepted_events (emitter_step s op) ops"
  by (cases op) simp_all

lemma emitter_run_rel:
  "emitter_inv s \<Longrightarrow> emitter_rel s acc \<Longrightarrow>
     emitter_rel (foldl emitter_step s ops) (acc @ accepted_events s ops)"
proof (induction ops arbitrary: s acc)
  case (Cons op ops)
  from Cons.IH [OF emitter_step_inv [OF Cons.prems(1)] emitter_step_rel [OF Cons.prems]] show ?case
    unfolding accepted_events_Cons [of s op ops] foldl_Cons append_assoc .
qed simp

lemma created_rel: "create_ordered_stream_emitter limit = Inr s \<Longrightarrow> emitter_rel s []"
  by (auto simp: create_ordered_stream_emitter_def emitter_rel_def Let_def split: if_splits)

section \<open>Properties\<close>

lemma emitter_run_covers:
  assumes "create_ordered_stream_emitter limit = Inr s0"
  shows "let s = foldl emitter_step s0 ops; acc = accepted_events s0 ops in
     \<exists>n \<le> length acc. covers (take n acc) (map fst (dispatched s))
       \<and> (failure s = None \<and> pending s = [] \<longrightarrow> n = length acc)"
proof -
  let ?s = "foldl emitter_step s0 ops" and ?acc = "accepted_events s0 ops"
  from emitter_run_rel [OF created_inv [OF assms] created_rel [OF assms]]
  have "emitter_rel ?s ?acc" by simp
  then obtain gd gp where r: "map fst (dispatched ?s) = map fold_group gd" "\<forall>g \<in> set gd. is_group g"
    "list_all2 represents (pending ?s) gp"
    "if failure ?s = None then concat gd @ concat gp = ?acc else (\<exists>dropped. concat gd @ dropped = ?acc)"
    by (auto simp: emitter_rel_def)
  let ?n = "length (concat gd)"
  from r(4) obtain rest where rest: "concat gd @ rest = ?acc" by (auto split: if_splits)
  then have take: "take ?n ?acc = concat gd" "?n \<le> length ?acc" by (metis append_eq_conv_conj, metis length_append le_add1)
  have "?n = length ?acc" if "failure ?s = None \<and> pending ?s = []"
    using that r(3,4) by (metis append_Nil2 concat.simps(1) list_all2_Nil)
  with take covers_groups [OF r(2)] r(1) show ?thesis unfolding Let_def by metis
qed

text \<open>C11: Over every interleaving of emits, write completions and continuations, the sink is handed
  exactly a folding of a prefix of the accepted events: in order, each event once, each sent event
  one group of adjacent events with all their deltas. When nothing failed and nothing is buffered
  the prefix is everything accepted.\<close>

theorem emitter_sends_folded_prefix:
  assumes "create_ordered_stream_emitter limit = Inr s0"
  shows "let s = foldl emitter_step s0 ops; acc = accepted_events s0 ops in
     \<exists>n \<le> length acc. covers (take n acc) (map fst (dispatched s))
       \<and> (failure s = None \<and> pending s = [] \<longrightarrow> n = length acc)"
  by (rule emitter_run_covers [OF assms])

text \<open>Callers that await each \<open>emit\<close> before the next.\<close>

fun disciplined :: "nat \<Rightarrow> ('m, 'e) emitter \<Rightarrow> ('m, 'e) emitter_op list \<Rightarrow> bool" where
  "disciplined k s [] = True"
| "disciplined k s (Emit c e m # ops) =
     (c < k \<and> c \<notin> set (capacity_waiters s) \<and> disciplined k (emitter_step s (Emit c e m)) ops)"
| "disciplined k s (op # ops) = disciplined k (emitter_step s op) ops"

definition waiters_ok :: "nat \<Rightarrow> ('m, 'e) emitter \<Rightarrow> bool" where
  "waiters_ok k s \<longleftrightarrow> distinct (capacity_waiters s) \<and> set (capacity_waiters s) \<subseteq> {..<k}"

lemma pump_round_waiters: "capacity_waiters (pump_round s) = capacity_waiters s \<or> capacity_waiters (pump_round s) = []"
  by (auto simp: pump_round_def split: list.split)

lemma waiters_okI: "waiters_ok k s \<Longrightarrow> capacity_waiters t = capacity_waiters s \<or> capacity_waiters t = [] \<Longrightarrow> waiters_ok k t"
  by (auto simp: waiters_ok_def)

lemma other_waiters:
  assumes "\<And>c e m. op \<noteq> Emit c e m"
  shows "capacity_waiters (emitter_step s op) = capacity_waiters s \<or> capacity_waiters (emitter_step s op) = []"
proof (cases op)
  case (CloseAndDrain c)
  have "capacity_waiters (pump (s\<lparr>close_requested := True\<rparr>)) = capacity_waiters s
      \<or> capacity_waiters (pump (s\<lparr>close_requested := True\<rparr>)) = []"
    using pump_round_waiters [of "s\<lparr>close_requested := True\<rparr>"] by (auto simp: pump_def)
  with CloseAndDrain show ?thesis by (simp add: close_and_drain_def Let_def)
qed (use assms pump_round_waiters [of s] in \<open>auto simp: sink_succeeds_def sink_fails_def resume_emit_def resume_drain_def\<close>)

lemma emit_waiters:
  assumes "emitter_inv s" "waiters_ok k s" "c < k" "c \<notin> set (capacity_waiters s)"
  shows "waiters_ok k (snd (emit s c e m))"
proof (cases "failure s \<noteq> None \<or> close_requested s")
  case True
  with assms show ?thesis by (simp add: emit_refused)
next
  case False
  then have acc: "failure s = None" "\<not> close_requested s" by auto
  show ?thesis
  proof (cases "in_flight s")
    case True
    with acc assms show ?thesis by (simp add: emit_busy Let_def waiters_ok_def)
  next
    case False
    with acc assms show ?thesis by (simp add: emit_idle waiters_ok_def)
  qed
qed

lemma disciplined_step: "disciplined k s (op # ops) \<Longrightarrow> disciplined k (emitter_step s op) ops"
  by (cases op) simp_all

lemma step_waiters:
  assumes "emitter_inv s" "waiters_ok k s" "disciplined k s (op # ops)"
  shows "waiters_ok k (emitter_step s op)"
proof (cases "\<exists>c e m. op = Emit c e m")
  case True
  then obtain c e m where op: "op = Emit c e m" by blast
  with assms(3) have "c < k" "c \<notin> set (capacity_waiters s)" by simp_all
  from emit_waiters [OF assms(1,2) this] show ?thesis by (simp add: op)
next
  case False
  then show ?thesis by (intro waiters_okI [OF assms(2)] other_waiters) blast
qed

lemma disciplined_run:
  "emitter_inv s \<Longrightarrow> waiters_ok k s \<Longrightarrow> disciplined k s ops \<Longrightarrow> waiters_ok k (foldl emitter_step s ops)"
proof (induction ops arbitrary: s)
  case (Cons op ops)
  from Cons.IH [OF emitter_step_inv [OF Cons.prems(1)] step_waiters [OF Cons.prems]
      disciplined_step [OF Cons.prems(3)]]
  show ?case by simp
qed simp

lemma created_waiters: "create_ordered_stream_emitter limit = Inr s \<Longrightarrow> waiters_ok k s"
  by (auto simp: create_ordered_stream_emitter_def waiters_ok_def Let_def split: if_splits)

lemma emission_ok_length: "\<forall>p \<in> set ps. emission_ok p \<Longrightarrow> int (length ps) \<le> sum_list (map source_events ps)"
  by (induction ps) (auto simp: emission_ok_def)

lemma pump_round_max: "max_pending (pump_round s) = max_pending s"
  by (simp add: pump_round_def split: list.split)

lemma step_max_pending: "max_pending (emitter_step s op) = max_pending s"
  by (cases op) (simp_all add: emit_def close_and_drain_def pump_def sink_succeeds_def sink_fails_def
      resume_emit_def resume_drain_def Let_def pump_round_max split: option.split)

lemma run_max_pending: "max_pending (foldl emitter_step s ops) = max_pending s"
  by (induction ops arbitrary: s) (simp_all add: step_max_pending)

text \<open>C12: The buffer is bounded: with k callers that await each emit, at most max - 1 + k source
  events are buffered, a single producer never more than max, and the two counters are exactly
  what the buffered events add up to, so they never drift or go negative.\<close>

theorem emitter_buffer_bounded:
  assumes "create_ordered_stream_emitter limit = Inr s0" "disciplined k s0 ops"
  shows "let s = foldl emitter_step s0 ops in
     int (length (pending s)) \<le> pending_source_events s
     \<and> pending_source_events s \<le> max_pending s0 - 1 + int k
     \<and> pending_source_events s = sum_list (map source_events (pending s))
     \<and> pending_delta_characters s = sum_list (map delta_characters (pending s))
     \<and> 0 \<le> pending_delta_characters s"
proof -
  let ?s = "foldl emitter_step s0 ops"
  have inv: "emitter_inv ?s" by (rule emitter_machine.run_inv [OF created_inv [OF assms(1)]])
  from disciplined_run [OF created_inv [OF assms(1)] created_waiters [OF assms(1)] assms(2)]
  have "length (capacity_waiters ?s) \<le> k"
    by (metis waiters_ok_def distinct_card card_lessThan card_mono finite_lessThan)
  with inv emission_ok_length [of "pending ?s"] emission_sums_nonneg [of "pending ?s"]
  show ?thesis unfolding Let_def by (simp add: emitter_inv_def run_max_pending)
qed

text \<open>Completions of the write in flight, one after the other: \<open>None\<close> succeeds, \<open>Some e\<close> fails.\<close>

definition sink_ops :: "'e option list \<Rightarrow> ('m, 'e) emitter_op list" where
  "sink_ops outs = map (\<lambda>r. case r of None \<Rightarrow> SinkSucceeds | Some e \<Rightarrow> SinkFails e) outs"

definition released :: "('m, 'e) emitter \<Rightarrow> ('m, 'e) emitter \<Rightarrow> bool" where
  "released s t \<longleftrightarrow> \<not> in_flight t \<and> pending t = [] \<and> capacity_waiters t = [] \<and> idle_waiters t = []
     \<and> set (resumable s @ capacity_waiters s) \<subseteq> set (resumable t)
     \<and> set (drain_resumable s @ idle_waiters s) \<subseteq> set (drain_resumable t)"

lemma idle_sink_ops: "\<not> in_flight s \<Longrightarrow> foldl emitter_step s (sink_ops outs) = s"
  by (induction outs) (auto simp: sink_ops_def sink_succeeds_def sink_fails_def split: option.split)

lemma idle_released:
  assumes "emitter_inv s" "\<not> in_flight s"
  shows "released s s"
proof -
  from assms(1) no_capacity_pending [OF assms(1)] assms(2)
  have "capacity_waiters s = []" "idle_waiters s = []" "pending s = []"
    by (auto simp: emitter_inv_def)
  with assms(2) show ?thesis by (simp add: released_def)
qed

lemma released_trans:
  assumes "set (resumable s @ capacity_waiters s) \<subseteq> set (resumable u @ capacity_waiters u)"
    and "set (drain_resumable s @ idle_waiters s) \<subseteq> set (drain_resumable u @ idle_waiters u)"
    and "released u t"
  shows "released s t"
  using assms by (auto simp: released_def)

lemma pump_round_waiting:
  "set (resumable (pump_round s) @ capacity_waiters (pump_round s)) = set (resumable s @ capacity_waiters s)"
  "set (drain_resumable (pump_round s) @ idle_waiters (pump_round s)) = set (drain_resumable s @ idle_waiters s)"
  by (auto simp: pump_round_def split: list.split if_splits)

lemma sink_fails_idle:
  assumes "emitter_inv s" "in_flight s"
  shows "released s (sink_fails s e)"
  using assms by (auto simp: released_def sink_fails_def emitter_inv_def has_capacity_def MAX_PENDING_DELTA_CHARACTERS_def)

lemma sink_ops_release:
  "emitter_inv s \<Longrightarrow> length (pending s) < length outs \<Longrightarrow> released s (foldl emitter_step s (sink_ops outs))"
proof (induction outs arbitrary: s)
  case (Cons r outs)
  show ?case
  proof (cases "in_flight s")
    case False
    then show ?thesis unfolding idle_sink_ops [OF False] by (rule idle_released [OF Cons.prems(1)])
  next
    case True
    have e: "foldl emitter_step s (sink_ops (r # outs)) =
        foldl emitter_step (case r of None \<Rightarrow> pump_round s | Some e \<Rightarrow> sink_fails s e) (sink_ops outs)"
      using True by (simp add: sink_ops_def sink_succeeds_def split: option.split)
    show ?thesis
    proof (cases r)
      case (Some x)
      have f: "\<not> in_flight (sink_fails s x)" using True by (simp add: sink_fails_def)
      show ?thesis unfolding e using Some idle_sink_ops [OF f] sink_fails_idle [OF Cons.prems(1) True] by simp
    next
      case None
      note inv = pump_round_inv [OF Cons.prems(1) True]
      have e': "foldl emitter_step s (sink_ops (r # outs)) = foldl emitter_step (pump_round s) (sink_ops outs)"
        unfolding e using None by simp
      show ?thesis
      proof (cases "pending s")
        case Nil
        then have f: "\<not> in_flight (pump_round s)" by (simp add: pump_round_def)
        show ?thesis unfolding e' idle_sink_ops [OF f]
          by (rule released_trans [OF _ _ idle_released [OF inv f]]) (simp_all only: pump_round_waiting subset_refl)
      next
        case (Cons q qs)
        with Cons.prems(2) have "length (pending (pump_round s)) < length outs" by (simp add: pump_round_def)
        from Cons.IH [OF inv this] show ?thesis unfolding e'
          by (rule released_trans [rotated 2]) (simp_all only: pump_round_waiting subset_refl)
      qed
    qed
  qed
qed simp

lemma all_succeed_dispatch:
  "in_flight s \<Longrightarrow> failure s = None \<Longrightarrow> length (pending s) < n \<Longrightarrow>
     failure (foldl emitter_step s (sink_ops (replicate n None))) = None
     \<and> dispatched (foldl emitter_step s (sink_ops (replicate n None)))
       = dispatched s @ map (\<lambda>p. (materialize_event p, emission_messages p)) (pending s)"
proof (induction n arbitrary: s)
  case (Suc n)
  have e: "foldl emitter_step s (sink_ops (replicate (Suc n) None)) =
      foldl emitter_step (pump_round s) (sink_ops (replicate n None))"
    using Suc.prems(1) by (simp add: sink_ops_def sink_succeeds_def)
  show ?case
  proof (cases "pending s")
    case Nil
    then have f: "\<not> in_flight (pump_round s)" by (simp add: pump_round_def)
    show ?thesis unfolding e idle_sink_ops [OF f] using Nil Suc.prems by (simp add: pump_round_def)
  next
    case (Cons q qs)
    then have "in_flight (pump_round s)" "failure (pump_round s) = None" "length (pending (pump_round s)) < n"
      using Suc.prems by (simp_all add: pump_round_def)
    from Suc.IH [OF this] show ?thesis unfolding e using Cons by (simp add: pump_round_def)
  qed
qed simp

text \<open>C13: No caller is stranded: whenever a call waits, for capacity or for the drain, a write is in
  flight; and once the sink has ended as many writes as are buffered plus the one in flight,
  whether they succeed or not, the emitter is idle and every waiting call can continue. If they all
  succeed, everything buffered was sent, in order.\<close>

theorem emitter_releases_every_caller:
  assumes "create_ordered_stream_emitter limit = Inr s0"
  shows "let s = foldl emitter_step s0 ops in
     (capacity_waiters s \<noteq> [] \<or> idle_waiters s \<noteq> [] \<longrightarrow> in_flight s)
     \<and> (\<forall>outs. length (pending s) < length outs \<longrightarrow> released s (foldl emitter_step s (sink_ops outs)))
     \<and> (in_flight s \<longrightarrow>
          dispatched (foldl emitter_step s (sink_ops (replicate (Suc (length (pending s))) None)))
            = dispatched s @ map (\<lambda>p. (materialize_event p, emission_messages p)) (pending s))"
proof -
  let ?s = "foldl emitter_step s0 ops"
  have inv: "emitter_inv ?s" by (rule emitter_machine.run_inv [OF created_inv [OF assms]])
  from inv no_capacity_pending(2) [OF inv] have "capacity_waiters ?s \<noteq> [] \<or> idle_waiters ?s \<noteq> [] \<longrightarrow> in_flight ?s"
    by (auto simp: emitter_inv_def)
  moreover have "in_flight ?s \<Longrightarrow> failure ?s = None" using inv by (auto simp: emitter_inv_def)
  ultimately show ?thesis
    unfolding Let_def using sink_ops_release [OF inv] all_succeed_dispatch [of ?s "Suc (length (pending ?s))"] by blast
qed

section \<open>Witnesses\<close>

definition fresh_emitter :: "(unit, string) emitter" where
  "fresh_emitter = \<lparr>max_pending = MAX_PENDING_EVENTS, pending = [], capacity_waiters = [], idle_waiters = [],
     close_requested = False, pending_delta_characters = 0, pending_source_events = 0,
     failure = None, in_flight = False, resumable = [], drain_resumable = [], dispatched = []\<rparr>"

definition text_delta :: "string \<Rightarrow> stream_event" where
  "text_delta d = MessageAppend \<lparr>at_sequence = 0, at_step = 0, at_turn = ''t''\<rparr> d"

definition sample_history :: "(unit, string) emitter_op list" where
  "sample_history = [Emit 0 (text_delta ''a'') None, Emit 0 (text_delta ''b'') None, Emit 0 (text_delta ''c'') None]"

lemma fresh_emitter_created: "create_ordered_stream_emitter None = Inr fresh_emitter"
  by (simp add: create_ordered_stream_emitter_def fresh_emitter_def Let_def MAX_PENDING_EVENTS_def)

theorem emitter_sends_folded_prefix_witness:
  "\<exists>n \<le> 3. covers (take n [text_delta ''a'', text_delta ''b'', text_delta ''c'']) [text_delta ''a'', text_delta ''bc'']"
proof -
  let ?ops = "sample_history @ [SinkSucceeds]"
  have d: "map fst (dispatched (foldl emitter_step fresh_emitter ?ops)) = [text_delta ''a'', text_delta ''bc'']"
    "accepted_events fresh_emitter ?ops = [text_delta ''a'', text_delta ''b'', text_delta ''c'']"
    by (code_simp, code_simp)
  from emitter_sends_folded_prefix [OF fresh_emitter_created, of ?ops, unfolded d Let_def]
  show ?thesis by (auto simp: numeral_3_eq_3)
qed

theorem emitter_buffer_bounded_witness:
  "pending_source_events (foldl emitter_step fresh_emitter sample_history) = 2 \<and>
   pending_source_events (foldl emitter_step fresh_emitter sample_history) \<le> 64"
proof -
  have d: "disciplined 1 fresh_emitter sample_history" by code_simp
  have e: "pending_source_events (foldl emitter_step fresh_emitter sample_history) = 2" by code_simp
  have m: "max_pending fresh_emitter = 64" by code_simp
  from emitter_buffer_bounded [OF fresh_emitter_created d, unfolded Let_def m] e show ?thesis by simp
qed

theorem emitter_releases_every_caller_witness:
  "in_flight (foldl emitter_step fresh_emitter (sample_history @ [CloseAndDrain 7]))
   \<and> 7 \<in> set (drain_resumable (foldl emitter_step fresh_emitter
          (sample_history @ [CloseAndDrain 7, SinkSucceeds, SinkFails ''gone''])))"
proof -
  let ?s = "foldl emitter_step fresh_emitter (sample_history @ [CloseAndDrain 7])"
  let ?outs = "[None, Some ''gone'']"
  have w: "idle_waiters ?s = [7]" "length (pending ?s) < length ?outs" by (code_simp, code_simp)
  have o: "foldl emitter_step ?s (sink_ops ?outs)
      = foldl emitter_step fresh_emitter (sample_history @ [CloseAndDrain 7, SinkSucceeds, SinkFails ''gone''])"
    by (simp add: sink_ops_def)
  note t = emitter_releases_every_caller [OF fresh_emitter_created, of "sample_history @ [CloseAndDrain 7]", unfolded Let_def]
  from t [THEN conjunct1] w(1) have f: "in_flight ?s" by simp
  from t [THEN conjunct2, THEN conjunct1, rule_format, OF w(2)] have "released ?s (foldl emitter_step ?s (sink_ops ?outs))" .
  then have "7 \<in> set (drain_resumable (foldl emitter_step ?s (sink_ops ?outs)))"
    unfolding released_def using w(1) by simp
  with f show ?thesis unfolding o by blast
qed

end
