(* ===== verification/Stream_Projection.thy ===== *)
theory Stream_Projection
  imports Ordered_Emitter
begin

text \<open>
  The emitter and the client projection together: the events the sink is handed are folded, and the
  reducer of the client (packages/eve/src/client/message-reducer.ts) computes from them the same
  messages as from the events the harness emitted.
\<close>

fun to_reducer :: "stream_event \<Rightarrow> reducer_event" where
  "to_reducer (MessageAppend c d) = MessageAppended (at_turn c) (at_step c) d"
| "to_reducer (ReasoningAppend c d) = ReasoningAppended (at_turn c) (at_step c) d"
| "to_reducer (InputAppend c call tool d) = ActionInputAppended (at_turn c) (at_step c) call tool d"
| "to_reducer (PartialSnapshot c _ r) = ActionPartial (at_turn c) (at_step c) r"
| "to_reducer (Barrier e) = e"

text \<open>
  What the harness keeps of one tool call: its name, and for snapshots its turn and step. The
  emitter compares the call identifier only and sends what the last event says.
\<close>

definition agrees :: "stream_event \<Rightarrow> stream_event \<Rightarrow> bool" where
  "agrees a b =
     (case (a, b) of
        (InputAppend _ c t _, InputAppend _ c' t' _) \<Rightarrow> (c = c' \<longrightarrow> t = t')
      | (PartialSnapshot k _ r, PartialSnapshot k' _ r') \<Rightarrow>
          (result_call_id r = result_call_id r' \<longrightarrow>
             at_turn k = at_turn k' \<and> at_step k = at_step k'
             \<and> descriptor_tool (normalize_action_result r) = descriptor_tool (normalize_action_result r'))
      | _ \<Rightarrow> True)"

section \<open>Writing the same part or message twice\<close>

lemma replace_or_append_twice:
  assumes "P x"
  shows "replace_or_append P y (replace_or_append P x xs) = replace_or_append P y xs"
  using assms find_index_list_update [of P xs _ x] find_index_snoc_new [of P xs x]
  by (cases "find_index P xs") (simp_all add: replace_or_append_update)

lemma upsert_message_twice:
  assumes "message_id x = message_id y"
  shows "upsert_message (upsert_message data x) y = upsert_message data y"
  unfolding upsert_message_def assms by (rule replace_or_append_twice) (rule assms)

lemma with_status_twice: "with_status (with_status m s ps) s' qs = with_status m s' qs"
  by (simp add: with_status_def spread_metadata_def)

lemma upsert_part_twice:
  assumes "part_key p = part_key q"
  shows "upsert_part (upsert_part m p) q = upsert_part m q"
proof -
  have "replace_or_append (\<lambda>x. part_key x = part_key q) q (replace_or_append (\<lambda>x. part_key x = part_key q) p (parts m))
      = replace_or_append (\<lambda>x. part_key x = part_key q) q (parts m)"
    by (rule replace_or_append_twice) (rule assms)
  then show ?thesis using assms by (simp add: upsert_part_def with_status_twice with_status_keeps)
qed

lemma update_assistant_twice:
  assumes "data_ok data" "keeps_identity f" "keeps_identity g"
  shows "update_assistant_message (update_assistant_message data turn f) turn g
    = update_assistant_message data turn (\<lambda>m. g (f m))"
proof -
  have "message_id (f (assistant_of data turn)) = message_id (g (f (assistant_of data turn)))"
    using assms(3) by (simp add: keeps_identity_def)
  with assistant_of_update [OF assms(1,2), of turn] upsert_message_twice show ?thesis
    unfolding update_assistant_message_alt by metis
qed

section \<open>Two deltas of one run\<close>

lemma step_start_count_run: "step_start_count (parts (run_upsert m t r)) = step_start_count (parts m)"
proof (cases "find_last_index (is_run_at t (run_step r)) (parts m)")
  case (Some i)
  note f = find_last_index_SomeD [OF Some]
  show ?thesis
  proof (cases "is_open_run (parts m ! i)")
    case True
    have "filter (\<lambda>p. p = StepStart) (parts m)
        = filter (\<lambda>p. p = StepStart) (take i (parts m)) @ filter (\<lambda>p. p = StepStart) (drop i (parts m))"
      by (metis append_take_drop_id filter_append)
    moreover have "drop i (parts m) = parts m ! i # drop (Suc i) (parts m)" using f(1) by (simp add: Cons_nth_drop_Suc)
    moreover have "parts m ! i \<noteq> StepStart" using True by auto
    ultimately show ?thesis using Some True by (simp add: run_upsert_def with_status_keeps step_start_count_def)
  qed (use Some in \<open>simp add: run_upsert_def with_status_keeps step_start_count_def\<close>)
qed (simp add: run_upsert_def with_status_keeps step_start_count_def)

lemma ensure_count: "n < step_start_count (parts (ensure_step_start_part m n))"
  by (simp add: ensure_step_start_part_def Let_def step_start_count_def)

lemma ensure_idle: "n < step_start_count (parts m) \<Longrightarrow> ensure_step_start_part m n = m"
  by (simp add: ensure_step_start_part_def Let_def)

lemma ensure_after_run: "ensure_step_start_part (run_append (ensure_step_start_part m n) t k d) n
    = run_append (ensure_step_start_part m n) t k d"
  using ensure_count [of n m] by (intro ensure_idle) (simp add: run_append_def Let_def step_start_count_run)

lemma run_upsert_parts:
  "parts (run_upsert m t q) =
     (case find_last_index (is_run_at t (run_step q)) (parts m) of
        None \<Rightarrow> parts m @ [Run t q]
      | Some i \<Rightarrow> if is_open_run (parts m ! i) then (parts m)[i := Run t q] else parts m @ [Run t q])"
proof (cases "find_last_index (is_run_at t (run_step q)) (parts m)")
  case (Some i)
  then show ?thesis using find_last_index_SomeD(1) [OF Some]
    by (simp add: run_upsert_def with_status_keeps upd_conv_take_nth_drop)
qed (simp add: run_upsert_def with_status_keeps)

lemma run_upsert_streaming:
  "run_state q = Some Streaming \<Longrightarrow> run_upsert m t q = with_status m StreamingStatus (parts (run_upsert m t q))"
  by (simp add: run_upsert_def Let_def with_status_keeps)

lemma run_upsert_twice:
  assumes s: "run_step r = run_step q" and r: "run_state r = Some Streaming" and q: "run_state q = Some Streaming"
  shows "run_upsert (run_upsert m t r) t q = run_upsert m t q"
proof -
  let ?P = "is_run_at t (run_step q)"
  have "parts (run_upsert (run_upsert m t r) t q) = parts (run_upsert m t q)"
  proof (cases "\<exists>i. find_last_index ?P (parts m) = Some i \<and> is_open_run (parts m ! i)")
    case True
    then obtain i where i: "find_last_index ?P (parts m) = Some i" "is_open_run (parts m ! i)" by blast
    then have p: "parts (run_upsert m t r) = (parts m)[i := Run t r]" by (simp add: run_upsert_parts s)
    have "find_last_index ?P ((parts m)[i := Run t r]) = Some i"
      by (rule find_last_index_update [OF i(1)]) (simp add: s)
    with i p r find_last_index_SomeD(1) [OF i(1)] show ?thesis by (simp add: run_upsert_parts [of "run_upsert m t r"]
          run_upsert_parts [of m t q])
  next
    case False
    then have p: "parts (run_upsert m t k) = parts m @ [Run t k]" if "run_step k = run_step q" for k
      using that by (auto simp: run_upsert_parts split: option.split)
    have "find_last_index ?P (parts m @ [Run t r]) = Some (length (parts m))"
      by (simp add: find_last_index_snoc s)
    with r p [OF s] p [OF refl] show ?thesis by (simp add: run_upsert_parts [of "run_upsert m t r"])
  qed
  then show ?thesis
    using run_upsert_streaming [OF q, of "run_upsert m t r" t] run_upsert_streaming [OF q, of m t]
      run_upsert_streaming [OF r, of m t] with_status_twice by metis
qed

lemma run_append_twice: "run_append (run_append m t n d) t n d' = run_append m t n (d @ d')"
proof -
  obtain r where r: "run_append m t n d = run_upsert m t r" "run_step r = Some n" "run_state r = Some Streaming"
    "run_text r = open_text m t n @ d" "run_provider_metadata r = None"
    by (simp add: run_append_def open_text_def)
  from latest_run_upsert [OF r(2), of m t] r(3,4)
  have o: "open_text (run_append m t n d) t n = open_text m t n @ d" by (simp add: open_text_def r(1))
  let ?q = "\<lparr>run_provider_metadata = None, run_state = Some Streaming, run_step = Some n,
      run_text = open_text m t n @ d @ d'\<rparr>"
  have "run_append (run_append m t n d) t n d' = run_upsert (run_append m t n d) t ?q"
    using o by (simp add: run_append_def [of "run_append m t n d"] open_text_def)
  also have "\<dots> = run_upsert m t ?q"
    unfolding r(1) by (rule run_upsert_twice) (simp_all add: r(2,3))
  also have "\<dots> = run_append m t n (d @ d')" by (simp add: run_append_def open_text_def)
  finally show ?thesis .
qed

lemma reduce_append_twice:
  assumes "data_ok data"
  shows "reduce_append (reduce_append data turn n t d) turn n t d' = reduce_append data turn n t (d @ d')"
  unfolding reduce_append_def update_assistant_twice [OF assms keeps_identity_simps(4) keeps_identity_simps(4)]
    ensure_after_run run_append_twice ..

section \<open>Two writes of one tool call\<close>

lemma find_only:
  assumes "x \<in> set xs" "P x" "\<And>y. y \<in> set xs \<Longrightarrow> P y \<Longrightarrow> y = x"
  shows "List.find P xs = Some x"
proof (cases "List.find P xs")
  case None
  with assms(1,2) show ?thesis by (auto simp: find_None_iff)
next
  case (Some y)
  then have "P y" "y \<in> set xs" by (auto simp: find_Some_iff)
  with assms(3) Some show ?thesis by blast
qed

lemma tool_in_upsert_part:
  "Tool n \<in> set (parts (upsert_part m (Tool n)))"
proof (cases "find_index (\<lambda>p. part_key p = part_key (Tool n)) (parts m)")
  case (Some i)
  then have "i < length (parts m)" by (simp add: find_index_eq_Some_iff)
  with Some show ?thesis by (simp add: upsert_part_def with_status_keeps replace_or_append_update set_update_memI)
qed (simp add: upsert_part_def with_status_keeps replace_or_append_update)

lemma role_upsert_part [simp]: "role (upsert_part m p) = role m" "message_id (upsert_part m p) = message_id m"
  by (simp_all add: upsert_part_def with_status_keeps)

lemma same_tool_key: "tool_call_id n = tool_call_id k \<Longrightarrow> part_key (Tool n) = part_key (Tool k)"
  by simp

lemma update_tool_twice:
  assumes ok: "data_ok data" and f: "find_tool_part data c = Some t" and n: "tool_call_id n = c" and k: "tool_call_id k = c"
  shows "update_tool_part (update_tool_part data c n) c k = update_tool_part data c k"
proof -
  let ?Q = "\<lambda>m. role m = Assistant \<and> (\<exists>p \<in> set (parts m). is_tool_call c p)"
  obtain pre m post p1 p2 where d: "data = pre @ m # post" and m: "parts m = p1 @ Tool t # p2"
    and pre: "\<forall>x \<in> set pre. \<forall>p \<in> set (parts x). \<not> is_tool_call c p" and t: "tool_call_id t = c" and r: "role m = Assistant"
    by (rule find_tool_part_split [OF ok f])
  have none: "List.find ?Q pre = None" using pre by (auto simp: find_None_iff)
  have "?Q m" using m t r by simp
  with none have "List.find ?Q data = Some m" by (simp add: d find_append)
  then have u: "update_tool_part data c x = upsert_message data (upsert_part m (Tool x))" for x
    by (simp add: update_tool_part_def)
  have "distinct (map message_id (pre @ m # post))" using ok d by (simp add: data_ok_def)
  then have s: "update_tool_part data c n = pre @ upsert_part m (Tool n) # post"
    unfolding u unfolding d by (rule upsert_message_split) simp
  have "?Q (upsert_part m (Tool n))" using tool_in_upsert_part [of n m] r n by (auto intro!: bexI [of _ "Tool n"])
  with none have "List.find ?Q (update_tool_part data c n) = Some (upsert_part m (Tool n))"
    by (simp add: s find_append)
  then have "update_tool_part (update_tool_part data c n) c k
      = upsert_message (update_tool_part data c n) (upsert_part (upsert_part m (Tool n)) (Tool k))"
    by (simp add: update_tool_part_def [of "update_tool_part data c n"])
  also have "upsert_part (upsert_part m (Tool n)) (Tool k) = upsert_part m (Tool k)"
    by (rule upsert_part_twice, rule same_tool_key) (simp add: n k)
  finally show ?thesis unfolding u by (simp add: upsert_message_twice)
qed

lemma insert_tool_twice:
  assumes ok: "data_ok data" and none: "find_tool_part data c = None" and n: "tool_call_id n = c" and k: "tool_call_id k = c"
  shows "update_tool_part (update_assistant_message data turn (\<lambda>m. upsert_part (ensure_step_start_part m step) (Tool n))) c k
    = update_assistant_message data turn (\<lambda>m. upsert_part (ensure_step_start_part m step) (Tool k))"
proof -
  let ?Q = "\<lambda>m. role m = Assistant \<and> (\<exists>p \<in> set (parts m). is_tool_call c p)"
  let ?a = "ensure_step_start_part (assistant_of data turn) step"
  let ?M = "upsert_part ?a (Tool n)"
  have u: "update_assistant_message data turn (\<lambda>m. upsert_part (ensure_step_start_part m step) (Tool x))
      = upsert_message data (upsert_part ?a (Tool x))" for x
    by (simp add: update_assistant_message_alt)
  have "role ?a = Assistant"
    using assistant_of_ok(2) [OF ok, of turn] by (simp add: is_assistant_of_def ensure_keeps)
  then have q: "?Q ?M" using tool_in_upsert_part [of n ?a] n by (auto intro!: bexI [of _ "Tool n"])
  have "List.find ?Q (upsert_message data ?M) = Some ?M"
  proof (rule find_only [of ?M, OF upsert_message_in])
    show "?Q ?M" by (rule q)
  next
    fix y assume y: "y \<in> set (upsert_message data ?M)" "?Q y"
    with upsert_message_set have "y = ?M \<or> y \<in> set data" by blast
    with y(2) find_tool_None [OF none] show "y = ?M" by blast
  qed
  then have "update_tool_part (upsert_message data ?M) c k
      = upsert_message (upsert_message data ?M) (upsert_part ?M (Tool k))"
    by (simp add: update_tool_part_def)
  also have "upsert_part ?M (Tool k) = upsert_part ?a (Tool k)"
    by (rule upsert_part_twice, rule same_tool_key) (simp add: n k)
  finally show ?thesis unfolding u by (simp add: upsert_message_twice)
qed

lemma put_tool_twice:
  assumes ok: "data_ok data" and n: "tool_call_id n = c" and k: "tool_call_id k = c"
  shows "put_tool_part (put_tool_part data turn step (find_tool_part data c) n) turn' step' (Some n) k
    = put_tool_part data turn step (find_tool_part data c) k"
proof (cases "find_tool_part data c")
  case None
  with insert_tool_twice [OF ok None n k] k show ?thesis by (simp add: put_tool_part_def)
next
  case (Some t)
  with update_tool_twice [OF ok Some n k] n k show ?thesis by (simp add: put_tool_part_def)
qed

definition input_part :: "tool_part option \<Rightarrow> nat \<Rightarrow> string \<Rightarrow> string \<Rightarrow> string \<Rightarrow> tool_part" where
  "input_part existing step call name s =
     \<lparr>tool_step = Some step, tool_call_id = call,
      part_metadata = coalesce (Option.bind existing part_metadata)
        (Some (Some \<lparr>em_input_request = None, em_input_response = None, em_kind = UnknownKind, em_name = name\<rparr>)),
      tool_name = name, tool_input = None, tool_approval = None, part_state = InputStreaming s\<rparr>"

lemma reduce_input_appended_alt:
  "reduce_input_appended data turn step call name d =
     (case find_tool_part data call of
        None \<Rightarrow> put_tool_part data turn step (find_tool_part data call) (input_part None step call name d)
      | Some t \<Rightarrow> (case part_state t of
          InputStreaming s \<Rightarrow> put_tool_part data turn step (find_tool_part data call)
             (input_part (Some t) step call name (s @ d))
        | _ \<Rightarrow> data))"
  by (simp add: reduce_input_appended_def Let_def input_part_def coalesce_def split: option.split tool_state.split)

lemma reduce_input_twice:
  assumes ok: "data_ok data"
  shows "reduce_input_appended (reduce_input_appended data turn step call name d) turn step call name d'
    = reduce_input_appended data turn step call name (d @ d')"
proof -
  have put: "reduce_input_appended (put_tool_part data turn step (find_tool_part data call) (input_part e step call name s))
        turn step call name d'
      = put_tool_part data turn step (find_tool_part data call) (input_part e step call name (s @ d'))" for e s
  proof -
    let ?n = "input_part e step call name s"
    have id: "tool_call_id ?n = call" "part_state ?n = InputStreaming s"
      "input_part (Some ?n) step call name (s @ d') = input_part e step call name (s @ d')"
      by (simp_all add: input_part_def coalesce_def split: option.split)
    from find_tool_after_put [OF ok id(1)]
    have "find_tool_part (put_tool_part data turn step (find_tool_part data call) ?n) call = Some ?n" .
    then have "reduce_input_appended (put_tool_part data turn step (find_tool_part data call) ?n) turn step call name d'
        = put_tool_part (put_tool_part data turn step (find_tool_part data call) ?n) turn step (Some ?n)
            (input_part e step call name (s @ d'))"
      unfolding reduce_input_appended_alt by (simp only: option.case id(2,3) tool_state.case)
    also have "\<dots> = put_tool_part data turn step (find_tool_part data call) (input_part e step call name (s @ d'))"
      by (rule put_tool_twice [OF ok id(1)]) (simp add: input_part_def)
    finally show ?thesis .
  qed
  show ?thesis
  proof (cases "find_tool_part data call")
    case None
    with put [of None d] show ?thesis by (simp add: reduce_input_appended_alt [of data])
  next
    case (Some t)
    show ?thesis
    proof (cases "\<exists>s. part_state t = InputStreaming s")
      case True
      then obtain s where s: "part_state t = InputStreaming s" by blast
      from put [of "Some t" "s @ d"] Some s show ?thesis by (simp add: reduce_input_appended_alt [of data])
    next
      case False
      then have "reduce_input_appended data turn step call name x = data" for x
        using Some by (auto simp: reduce_input_appended_alt split: tool_state.split)
      then show ?thesis by simp
    qed
  qed
qed

lemma reduce_partial_twice:
  assumes ok: "data_ok data" and id: "result_call_id r = result_call_id r'"
    and tool: "descriptor_tool (normalize_action_result r) = descriptor_tool (normalize_action_result r')"
  shows "reduce_action_partial (reduce_action_partial data turn step r) turn step r'
    = reduce_action_partial data turn step r'"
proof (cases "case find_tool_part data (result_call_id r) of None \<Rightarrow> False | Some t \<Rightarrow> is_settled_tool_part t")
  case True
  then show ?thesis by (simp add: reduce_action_partial_def Let_def id)
next
  case False
  let ?e = "find_tool_part data (result_call_id r)"
  let ?n = "result_part ?e step r (approved_approval ?e) (OutputAvailable (result_output r) True)"
  let ?k = "result_part ?e step r' (approved_approval ?e) (OutputAvailable (result_output r') True)"
  have a: "reduce_action_partial data turn step r = put_tool_part data turn step ?e ?n"
    "reduce_action_partial data turn step r' = put_tool_part data turn step ?e ?k"
    using False by (simp_all add: reduce_action_partial_def Let_def id)
  have f: "find_tool_part (put_tool_part data turn step ?e ?n) (result_call_id r') = Some ?n"
    unfolding id [symmetric] by (rule find_tool_after_put [OF ok]) simp
  have appr: "approved_approval (Some ?n) = approved_approval ?e"
    by (simp add: approved_approval_def result_part_def Let_def split: option.split)
  have same: "result_part (Some ?n) step r' (approved_approval ?e) (OutputAvailable (result_output r') True) = ?k"
    by (simp add: result_part_def Let_def tool merge_tool_metadata_def create_tool_metadata_def eve_of_def
        coalesce_def split: option.split)
  have "reduce_action_partial (put_tool_part data turn step ?e ?n) turn step r'
      = put_tool_part (put_tool_part data turn step ?e ?n) turn step (Some ?n) ?k"
    unfolding reduce_action_partial_def Let_def f appr same by (simp add: is_settled_tool_part_def)
  also have "\<dots> = put_tool_part data turn step ?e ?k"
    by (rule put_tool_twice [OF ok]) (simp_all add: id)
  finally show ?thesis unfolding a .
qed

section \<open>A folded group\<close>

definition fold_pair :: "stream_event \<Rightarrow> stream_event \<Rightarrow> stream_event" where
  "fold_pair a b = with_delta b (delta_text a @ delta_text b)"

lemma append_key_cases:
  assumes "append_key a = append_key b" "append_key a \<noteq> None"
  obtains c d c' d' where "a = MessageAppend c d" "b = MessageAppend c' d'"
  | c d c' d' where "a = ReasoningAppend c d" "b = ReasoningAppend c' d'"
  | c call tool d c' tool' d' where "a = InputAppend c call tool d" "b = InputAppend c' call tool' d'"
  using assms by (cases a; cases b) auto

lemma reduce_fold_pair:
  assumes ok: "data_ok data" and f: "folds_with a b" and g: "agrees a b"
  shows "reduce_message_data (reduce_message_data data (to_reducer a)) (to_reducer b)
    = reduce_message_data data (to_reducer (fold_pair a b))"
proof (cases "append_key a \<noteq> None \<or> append_key b \<noteq> None")
  case True
  with f have k: "append_key a = append_key b" "append_key a \<noteq> None" "append_coordinates a = append_coordinates b"
    by (auto simp: folds_with_def)
  from k(1,2) show ?thesis
  proof (cases rule: append_key_cases)
    case (1 c d c' d')
    with k(3) show ?thesis by (simp add: fold_pair_def delta_text_def reduce_append_twice [OF ok])
  next
    case (2 c d c' d')
    with k(3) show ?thesis by (simp add: fold_pair_def delta_text_def reduce_append_twice [OF ok])
  next
    case (3 c call tool d c' tool' d')
    with k(3) g show ?thesis by (simp add: fold_pair_def delta_text_def agrees_def reduce_input_twice [OF ok])
  qed
next
  case False
  with f obtain c p r c' p' r' where ab: "a = PartialSnapshot c p r" "b = PartialSnapshot c' p' r'"
    and id: "result_call_id r = result_call_id r'"
    by (auto simp: folds_with_def split: stream_event.splits)
  with g have "at_turn c = at_turn c'" "at_step c = at_step c'"
    "descriptor_tool (normalize_action_result r) = descriptor_tool (normalize_action_result r')"
    by (simp_all add: agrees_def)
  with ab reduce_partial_twice [OF ok id] show ?thesis by (simp add: fold_pair_def)
qed

lemma with_delta_keeps [simp]:
  "append_key (with_delta e d) = append_key e" "append_coordinates (with_delta e d) = append_coordinates e"
  "agrees (with_delta e d) b = agrees e b"
  by (cases e; simp add: agrees_def)+

lemma folds_with_delta [simp]: "folds_with (with_delta e d) b = folds_with e b"
  by (cases e; cases b) (simp_all add: folds_with_def)

lemma delta_with_delta: "append_key e \<noteq> None \<Longrightarrow> delta_text (with_delta e d) = d"
  by (cases e) (simp_all add: delta_text_def)

lemma with_no_delta: "append_key e = None \<Longrightarrow> with_delta e d = e"
  by (cases e) simp_all

lemma fold_group_snoc:
  assumes "is_group g" "folds_with (List.last g) e"
  shows "fold_group (g @ [e]) = fold_pair (fold_group g) e"
proof (cases "append_key e")
  case None
  then show ?thesis by (simp add: fold_group_def fold_pair_def with_no_delta)
next
  case (Some k)
  with assms(2) have "append_key (List.last g) \<noteq> None" by (auto simp: folds_with_def split: if_splits)
  then have "delta_text (fold_group g) = group_text g" by (simp add: fold_group_def delta_with_delta)
  then show ?thesis by (simp add: fold_group_def fold_pair_def group_text_def)
qed

lemma reduce_group:
  "is_group g \<Longrightarrow> (\<forall>a \<in> set g. \<forall>b \<in> set g. agrees a b) \<Longrightarrow> data_ok data \<Longrightarrow>
     foldl reduce_message_data data (map to_reducer g) = reduce_message_data data (to_reducer (fold_group g))"
proof (induction g rule: rev_induct)
  case (snoc e g)
  show ?case
  proof (cases "g = []")
    case True
    then show ?thesis by (simp add: fold_group_def group_text_def with_own_delta)
  next
    case False
    with snoc.prems(1) have g: "is_group g" "folds_with (List.last g) e"
      by (auto simp: is_group_def successively_append_iff)
    have "agrees (List.last g) e" using snoc.prems(2) False by simp
    then have p: "folds_with (fold_group g) e" "agrees (fold_group g) e" using g(2) by (simp_all add: fold_group_def)
    from snoc.IH [OF g(1)] snoc.prems(2,3)
    have "foldl reduce_message_data data (map to_reducer g) = reduce_message_data data (to_reducer (fold_group g))" by simp
    then have "foldl reduce_message_data data (map to_reducer (g @ [e]))
        = reduce_message_data (reduce_message_data data (to_reducer (fold_group g))) (to_reducer e)" by simp
    also have "\<dots> = reduce_message_data data (to_reducer (fold_group (g @ [e])))"
      unfolding fold_group_snoc [OF g] by (rule reduce_fold_pair [OF snoc.prems(3) p])
    finally show ?thesis .
  qed
qed (simp add: is_group_def)

lemma reduce_covers:
  "covers es ds \<Longrightarrow> (\<forall>a \<in> set es. \<forall>b \<in> set es. agrees a b) \<Longrightarrow> data_ok data \<Longrightarrow>
     foldl reduce_message_data data (map to_reducer ds) = foldl reduce_message_data data (map to_reducer es)"
proof (induction arbitrary: data rule: covers.induct)
  case (covers_group g es ds)
  have "foldl reduce_message_data data (map to_reducer (fold_group g # ds))
      = foldl reduce_message_data (reduce_message_data data (to_reducer (fold_group g))) (map to_reducer ds)" by simp
  also have "\<dots> = foldl reduce_message_data (reduce_message_data data (to_reducer (fold_group g))) (map to_reducer es)"
    using covers_group.prems by (intro covers_group.IH reduce_ok) auto
  also have "reduce_message_data data (to_reducer (fold_group g)) = foldl reduce_message_data data (map to_reducer g)"
    using covers_group.prems by (intro reduce_group [symmetric] covers_group.hyps) auto
  finally show ?case by simp
qed simp

text \<open>C14: Folding is invisible to the client: once the emitter has drained, the projection of the
  events it sent is the projection of the events it was given, for every interleaving, as long as
  the deltas and snapshots of one tool call agree on its name (and snapshots on turn and step).\<close>

theorem folding_invisible_to_client:
  assumes "create_ordered_stream_emitter limit = Inr s0"
    and "let s = foldl emitter_step s0 ops in failure s = None \<and> pending s = []"
    and "\<forall>a \<in> set (accepted_events s0 ops). \<forall>b \<in> set (accepted_events s0 ops). agrees a b"
    and "data_ok data"
  shows "foldl reduce_message_data data (map (to_reducer \<circ> fst) (dispatched (foldl emitter_step s0 ops)))
    = foldl reduce_message_data data (map to_reducer (accepted_events s0 ops))"
proof -
  from emitter_run_covers [OF assms(1), of ops] assms(2)
  have c: "covers (accepted_events s0 ops) (map fst (dispatched (foldl emitter_step s0 ops)))"
    unfolding Let_def by auto
  from reduce_covers [OF c assms(3,4)] show ?thesis by simp
qed

text \<open>Two text deltas folded into one, then a barrier.\<close>

definition folded_history :: "(unit, string) emitter_op list" where
  "folded_history = sample_history @ [Emit 0 (Barrier (TurnCompleted ''t'')) None, SinkSucceeds, SinkSucceeds, SinkSucceeds]"

theorem folding_invisible_to_client_witness:
  "length (dispatched (foldl emitter_step fresh_emitter folded_history)) = 3
   \<and> foldl reduce_message_data [] (map (to_reducer \<circ> fst) (dispatched (foldl emitter_step fresh_emitter folded_history)))
     = foldl reduce_message_data [] (map to_reducer
         [text_delta ''a'', text_delta ''b'', text_delta ''c'', Barrier (TurnCompleted ''t'')])"
proof
  show "length (dispatched (foldl emitter_step fresh_emitter folded_history)) = 3" by code_simp
  have e: "accepted_events fresh_emitter folded_history
      = [text_delta ''a'', text_delta ''b'', text_delta ''c'', Barrier (TurnCompleted ''t'')]" by code_simp
  have d: "failure (foldl emitter_step fresh_emitter folded_history) = None"
    "pending (foldl emitter_step fresh_emitter folded_history) = []" by (code_simp, code_simp)
  have a: "\<forall>a \<in> set (accepted_events fresh_emitter folded_history). \<forall>b \<in> set (accepted_events fresh_emitter folded_history). agrees a b"
    unfolding e by (simp add: agrees_def text_delta_def)
  have "data_ok []" by (simp add: data_ok_def)
  from folding_invisible_to_client [OF fresh_emitter_created _ a this] d e
  show "foldl reduce_message_data [] (map (to_reducer \<circ> fst) (dispatched (foldl emitter_step fresh_emitter folded_history)))
     = foldl reduce_message_data [] (map to_reducer
         [text_delta ''a'', text_delta ''b'', text_delta ''c'', Barrier (TurnCompleted ''t'')])"
    by (simp add: Let_def)
qed

end
