(* ===== verification/Delivery.thy ===== *)
theory Delivery
  imports Json_Value
begin

text \<open>
  Deliveries crossing the session inbox (packages/eve/src/channel/types.ts) and their
  coalescing into one turn (\<open>coalesceDeliveries\<close> of packages/eve/src/harness/messages.ts).
  Fields the modelled code only carries along are kept as JSON.
\<close>

section \<open>Delivery types\<close>

record turn_caller =
  caller_call_id :: string
  caller_task_id :: "string option"
  caller_subagent :: string
  caller_reply_to :: json

text \<open>A payload: the task envelope, the authorization callback, and its other fields.\<close>

record deliver_payload =
  payload_task :: "json option"
  payload_callback :: "json option"
  payload_fields :: "(string \<times> json) list"

record metadata_entry =
  payload_index :: nat
  metadata_fields :: json

datatype turn_policy = Steer | Queue

text \<open>
  The authentication context is absent, \<open>null\<close> (\<open>Some JNull\<close>) or an object.
\<close>

record delivery =
  delivery_title :: "string option"
  delivery_auth :: "json option"
  delivery_caller :: "turn_caller option"
  delivery_metadata :: "metadata_entry list option"
  delivery_request_id :: "string option"
  task_delivery_id :: "string option"
  delivery_payloads :: "deliver_payload list"
  delivery_policy :: "turn_policy option"

datatype coalesce_error = EmptyBatch | DifferentTurns

section \<open>Coalescing\<close>

record coalesce_state =
  acc_auth :: "json option"
  acc_caller :: "turn_caller option"
  acc_payloads :: "deliver_payload list"
  acc_metadata :: "metadata_entry list"

definition shift_metadata :: "nat \<Rightarrow> metadata_entry \<Rightarrow> metadata_entry" where
  "shift_metadata off e = e\<lparr>payload_index := payload_index e + off\<rparr>"

definition metadata_list :: "delivery \<Rightarrow> metadata_entry list" where
  "metadata_list d = (case delivery_metadata d of None \<Rightarrow> [] | Some es \<Rightarrow> es)"

text \<open>The body of the loop over the items after the first.\<close>

definition coalesce_item :: "coalesce_state \<Rightarrow> delivery \<Rightarrow> coalesce_error + coalesce_state" where
  "coalesce_item acc item =
     (let offset = length (acc_payloads acc);
          auth = (case delivery_auth item of None \<Rightarrow> acc_auth acc | Some a \<Rightarrow> Some a)
      in if delivery_caller item \<noteq> None \<and> acc_caller acc \<noteq> None then Inl DifferentTurns
         else Inr \<lparr>acc_auth = auth,
           acc_caller = (case delivery_caller item of None \<Rightarrow> acc_caller acc | Some c \<Rightarrow> Some c),
           acc_payloads = acc_payloads acc @ delivery_payloads item,
           acc_metadata = acc_metadata acc @ map (shift_metadata offset) (metadata_list item)\<rparr>)"

fun coalesce_items :: "coalesce_state \<Rightarrow> delivery list \<Rightarrow> coalesce_error + coalesce_state" where
  "coalesce_items acc [] = Inr acc"
| "coalesce_items acc (item # items) =
     (case coalesce_item acc item of Inl e \<Rightarrow> Inl e | Inr acc' \<Rightarrow> coalesce_items acc' items)"

definition coalesce_start :: "delivery \<Rightarrow> coalesce_state" where
  "coalesce_start d = \<lparr>acc_auth = delivery_auth d, acc_caller = delivery_caller d,
     acc_payloads = delivery_payloads d, acc_metadata = metadata_list d\<rparr>"

fun coalesce_deliveries :: "delivery list \<Rightarrow> coalesce_error + delivery" where
  "coalesce_deliveries [] = Inl EmptyBatch"
| "coalesce_deliveries (first # rest) =
     (case coalesce_items (coalesce_start first) rest of
        Inl e \<Rightarrow> Inl e
      | Inr acc \<Rightarrow>
          Inr (first\<lparr>delivery_auth := acc_auth acc, delivery_caller := acc_caller acc,
            delivery_metadata := (if acc_metadata acc = [] then None else Some (acc_metadata acc)),
            delivery_payloads := acc_payloads acc\<rparr>))"

section \<open>What coalescing keeps\<close>

definition callers :: "delivery list \<Rightarrow> turn_caller list" where
  "callers ds = concat (map (\<lambda>d. case delivery_caller d of None \<Rightarrow> [] | Some c \<Rightarrow> [c]) ds)"

definition one_caller :: "turn_caller option \<Rightarrow> delivery list \<Rightarrow> bool" where
  "one_caller c ds \<longleftrightarrow> length (callers ds) + (if c = None then 0 else 1) \<le> 1"

lemma callers_simps [simp]:
  "callers [] = []"
  "callers (d # ds) = (case delivery_caller d of None \<Rightarrow> [] | Some c \<Rightarrow> [c]) @ callers ds"
  by (simp_all add: callers_def)

lemma coalesce_items_Inr_iff:
  "(\<exists>acc'. coalesce_items acc ds = Inr acc') \<longleftrightarrow> ds = [] \<or> one_caller (acc_caller acc) ds"
proof (induction ds arbitrary: acc)
  case Nil
  then show ?case by simp
next
  case (Cons d ds)
  show ?case
  proof (cases "delivery_caller d \<noteq> None \<and> acc_caller acc \<noteq> None")
    case True
    then show ?thesis by (auto simp: coalesce_item_def Let_def one_caller_def split: option.splits)
  next
    case False
    have one: "one_caller (acc_caller acc) (d # ds) \<longleftrightarrow>
       ds = [] \<or> one_caller (case delivery_caller d of None \<Rightarrow> acc_caller acc | Some c \<Rightarrow> Some c) ds"
      using False by (auto simp: one_caller_def callers_def split: option.splits)
    show ?thesis unfolding one using False by (auto simp: coalesce_item_def Let_def Cons.IH)
  qed
qed

lemma coalesce_items_payloads:
  "coalesce_items acc ds = Inr acc'
   \<Longrightarrow> acc_payloads acc' = acc_payloads acc @ concat (map delivery_payloads ds)"
  by (induction ds arbitrary: acc)
    (auto simp: coalesce_item_def Let_def split: if_splits)

lemma coalesce_items_caller:
  "coalesce_items acc ds = Inr acc'
   \<Longrightarrow> acc_caller acc' = (case acc_caller acc of Some c \<Rightarrow> Some c
          | None \<Rightarrow> (case callers ds of [] \<Rightarrow> None | c # _ \<Rightarrow> Some c))"
proof (induction ds arbitrary: acc)
  case (Cons d ds)
  then show ?case
    by (cases "acc_caller acc"; cases "delivery_caller d")
      (auto simp: coalesce_item_def Let_def)
qed (simp split: option.splits)

text \<open>An attribution: one metadata entry together with the payload it describes.\<close>

definition attributions ::
    "deliver_payload list \<Rightarrow> metadata_entry list \<Rightarrow> (json \<times> deliver_payload option) list" where
  "attributions ps es =
     map (\<lambda>e. (metadata_fields e,
               if payload_index e < length ps then Some (ps ! payload_index e) else None)) es"

definition attributed_ok :: "delivery \<Rightarrow> bool" where
  "attributed_ok d \<longleftrightarrow> (\<forall>e \<in> set (metadata_list d). payload_index e < length (delivery_payloads d))"

lemma attributions_append_right:
  "\<forall>e \<in> set es. payload_index e < length ps \<Longrightarrow> attributions (ps @ qs) es = attributions ps es"
  by (auto simp: attributions_def nth_append)

lemma attributions_shift:
  "attributions (ps @ qs) (map (shift_metadata (length ps)) es) = attributions qs es"
  by (simp add: attributions_def shift_metadata_def add.commute [of _ "length ps"])

lemma coalesce_items_attributions:
  "coalesce_items acc ds = Inr acc' \<Longrightarrow> \<forall>d \<in> set ds. attributed_ok d
   \<Longrightarrow> \<forall>e \<in> set (acc_metadata acc). payload_index e < length (acc_payloads acc)
   \<Longrightarrow> attributions (acc_payloads acc') (acc_metadata acc')
       = attributions (acc_payloads acc) (acc_metadata acc)
         @ concat (map (\<lambda>d. attributions (delivery_payloads d) (metadata_list d)) ds)"
proof (induction ds arbitrary: acc)
  case Nil
  then show ?case by simp
next
  case (Cons d ds)
  let ?acc = "\<lparr>acc_auth = (case delivery_auth d of None \<Rightarrow> acc_auth acc | Some a \<Rightarrow> Some a),
     acc_caller = (case delivery_caller d of None \<Rightarrow> acc_caller acc | Some c \<Rightarrow> Some c),
     acc_payloads = acc_payloads acc @ delivery_payloads d,
     acc_metadata = acc_metadata acc @ map (shift_metadata (length (acc_payloads acc))) (metadata_list d)\<rparr>"
  from Cons.prems(1) have rest: "coalesce_items ?acc ds = Inr acc'"
    by (auto simp: coalesce_item_def Let_def split: if_splits)
  have bound: "\<forall>e \<in> set (acc_metadata ?acc). payload_index e < length (acc_payloads ?acc)"
    using Cons.prems(2,3) by (auto simp: shift_metadata_def attributed_ok_def)
  have "attributions (acc_payloads ?acc) (acc_metadata ?acc)
      = attributions (acc_payloads acc) (acc_metadata acc)
        @ attributions (delivery_payloads d) (metadata_list d)"
    using attributions_append_right [OF Cons.prems(3)]
      attributions_shift [of "acc_payloads acc" "delivery_payloads d" "metadata_list d"]
    by (simp add: attributions_def)
  with Cons.IH [OF rest _ bound] Cons.prems(2) show ?case by simp
qed

section \<open>Properties\<close>

text \<open>Coalescing succeeds exactly when the batch is not empty and at most one delivery of it
  has a caller; it then keeps every payload of every delivery in order, keeps that caller, and
  every metadata entry still describes the payload it described before.\<close>

lemma coalesce_deliveries_correct:
  assumes "\<forall>d \<in> set ds. attributed_ok d"
  shows "((\<exists>r. coalesce_deliveries ds = Inr r) \<longleftrightarrow> ds \<noteq> [] \<and> length (callers ds) \<le> 1)
    \<and> (\<forall>r. coalesce_deliveries ds = Inr r \<longrightarrow>
         delivery_payloads r = concat (map delivery_payloads ds)
       \<and> delivery_caller r = (case callers ds of [] \<Rightarrow> None | c # _ \<Rightarrow> Some c)
       \<and> attributions (delivery_payloads r) (metadata_list r)
           = concat (map (\<lambda>d. attributions (delivery_payloads d) (metadata_list d)) ds))"
proof (cases ds)
  case Nil
  then show ?thesis by simp
next
  case (Cons first rest)
  have one: "rest = [] \<or> one_caller (delivery_caller first) rest \<longleftrightarrow> length (callers ds) \<le> 1"
    using Cons by (auto simp: one_caller_def split: option.splits)
  have ok: "(\<exists>r. coalesce_deliveries ds = Inr r) \<longleftrightarrow> length (callers ds) \<le> 1"
    using coalesce_items_Inr_iff [of "coalesce_start first" rest] Cons one
    by (auto simp: coalesce_start_def split: sum.splits)
  have "delivery_payloads r = concat (map delivery_payloads ds)
      \<and> delivery_caller r = (case callers ds of [] \<Rightarrow> None | c # _ \<Rightarrow> Some c)
      \<and> attributions (delivery_payloads r) (metadata_list r)
          = concat (map (\<lambda>d. attributions (delivery_payloads d) (metadata_list d)) ds)"
    if r: "coalesce_deliveries ds = Inr r" for r
  proof -
    from r Cons obtain acc where acc: "coalesce_items (coalesce_start first) rest = Inr acc"
      and r': "delivery_payloads r = acc_payloads acc" "delivery_caller r = acc_caller acc"
        "metadata_list r = acc_metadata acc"
      by (auto simp: metadata_list_def split: sum.splits)
    have first: "\<forall>e \<in> set (acc_metadata (coalesce_start first)).
        payload_index e < length (acc_payloads (coalesce_start first))"
      using assms Cons by (simp add: coalesce_start_def attributed_ok_def)
    show ?thesis
      using coalesce_items_payloads [OF acc] coalesce_items_caller [OF acc]
        coalesce_items_attributions [OF acc _ first] assms Cons
      by (auto simp: r' coalesce_start_def split: option.splits)
  qed
  with ok Cons show ?thesis by blast
qed

definition plain_delivery :: delivery where
  "plain_delivery = \<lparr>delivery_title = None, delivery_auth = None, delivery_caller = None,
     delivery_metadata = None, delivery_request_id = None, task_delivery_id = None,
     delivery_payloads = [], delivery_policy = None\<rparr>"

theorem coalesce_deliveries_correct_witness:
  "\<exists>r. coalesce_deliveries [plain_delivery, plain_delivery] = Inr r"
  using coalesce_deliveries_correct [of "[plain_delivery, plain_delivery]"]
  by (simp add: attributed_ok_def metadata_list_def plain_delivery_def)

end
