(* ===== verification/Input_Queue.thy ===== *)
theory Input_Queue
  imports Delivery "HOL-Library.Multiset"
begin

text \<open>
  The session input queue (packages/eve/src/execution/session/input-queue.ts): admission
  with task deduplication and cancellation, controls, authorization callbacks, steering,
  and the selection of the next turn with its cohort and caller boundaries. The private
  arrays and sets of the class are a record; sets are used for membership only. A Map or a
  Set whose iteration order matters is a list.
\<close>

section \<open>State\<close>

datatype session_control = Clear | Compact | Expired | Reset

datatype queued_input =
    QDelivery (entry_sequence: nat) delivery
  | QControl (entry_sequence: nat) session_control
  | QAuthorization (entry_sequence: nat) string deliver_payload

record input_queue =
  entries :: "queued_input list"
  cancelled_task_ids :: "string set"
  seen_task_delivery_ids :: "string set"
  next_sequence :: nat

definition empty_queue :: input_queue where
  "empty_queue = \<lparr>entries = [], cancelled_task_ids = {}, seen_task_delivery_ids = {}, next_sequence = 0\<rparr>"

datatype selection =
    TurnSelection (selected_delivery: delivery) (handoff_eligible: bool) (selected_sequences: "nat list")
  | ControlSelection session_control
  | AuthorizationResume "deliver_payload list"

definition pending_count :: "input_queue \<Rightarrow> nat" where
  "pending_count q = length (entries q)"

section \<open>Identities of task deliveries\<close>

definition delivery_task_key :: "delivery \<Rightarrow> string option" where
  "delivery_task_key d =
     (case task_delivery_id d of
        Some i \<Rightarrow> Some i
      | None \<Rightarrow> (case delivery_caller d of None \<Rightarrow> None | Some c \<Rightarrow> caller_task_id c))"

text \<open>The statuses are tried in the order of the array literal.\<close>

fun strip_status :: "string list \<Rightarrow> string \<Rightarrow> string option" where
  "strip_status [] i = None"
| "strip_status (status # rest) i =
     (case strip_suffix ('':ready:'' @ status) i of Some t \<Rightarrow> Some t | None \<Rightarrow> strip_status rest i)"

definition terminal_task_id :: "delivery \<Rightarrow> string option" where
  "terminal_task_id d =
     (if delivery_caller d \<noteq> None then None
      else (case task_delivery_id d of
              None \<Rightarrow> None
            | Some i \<Rightarrow> strip_status [''completed'', ''failed'', ''cancelled''] i))"

type_synonym cohorts = "(string \<times> string) list"

definition terminal_cohort :: "cohorts \<Rightarrow> delivery \<Rightarrow> string option" where
  "terminal_cohort cs d = (case terminal_task_id d of None \<Rightarrow> None | Some t \<Rightarrow> map_of cs t)"

definition is_task_delivery :: "delivery \<Rightarrow> (string \<Rightarrow> bool) \<Rightarrow> bool" where
  "is_task_delivery d P = (case delivery_task_key d of None \<Rightarrow> False | Some i \<Rightarrow> P i)"

definition belongs_to :: "string \<Rightarrow> string \<Rightarrow> bool" where
  "belongs_to task i \<longleftrightarrow> i = task \<or> prefix (task @ '':'') i"

definition authorization_attempt_id :: "deliver_payload \<Rightarrow> string option" where
  "authorization_attempt_id p =
     (case payload_callback p of
        Some (JObj es) \<Rightarrow> (case map_of es ''attemptId'' of Some (JStr s) \<Rightarrow> Some s | _ \<Rightarrow> None)
      | _ \<Rightarrow> None)"

section \<open>Admission\<close>

definition is_cancelled_task_delivery :: "input_queue \<Rightarrow> string \<Rightarrow> bool" where
  "is_cancelled_task_delivery q i \<longleftrightarrow> (\<exists>t \<in> cancelled_task_ids q. belongs_to t i)"

definition deduplication_id :: "delivery \<Rightarrow> string \<Rightarrow> string" where
  "deduplication_id d i = (case terminal_task_id d of None \<Rightarrow> i | Some t \<Rightarrow> t @ '':ready'')"

definition admit :: "input_queue \<Rightarrow> delivery \<Rightarrow> nat option \<times> input_queue" where
  "admit q d =
     (Some (next_sequence q),
      q\<lparr>entries := entries q @ [QDelivery (next_sequence q) d], next_sequence := Suc (next_sequence q)\<rparr>)"

definition enqueue_delivery :: "input_queue \<Rightarrow> delivery \<Rightarrow> nat option \<times> input_queue" where
  "enqueue_delivery q d =
     (case delivery_task_key d of
        Some i \<Rightarrow>
          if deduplication_id d i \<in> seen_task_delivery_ids q \<or> is_cancelled_task_delivery q i
          then (None, q)
          else admit (q\<lparr>seen_task_delivery_ids := insert (deduplication_id d i) (seen_task_delivery_ids q)\<rparr>) d
      | None \<Rightarrow> admit q d)"

definition remember_task :: "input_queue \<Rightarrow> string \<Rightarrow> input_queue" where
  "remember_task q t = q\<lparr>seen_task_delivery_ids := insert t (seen_task_delivery_ids q)\<rparr>"

definition is_task_cancelled :: "input_queue \<Rightarrow> string \<Rightarrow> bool" where
  "is_task_cancelled q t \<longleftrightarrow> t \<in> cancelled_task_ids q"

definition enqueue_control :: "input_queue \<Rightarrow> session_control \<Rightarrow> input_queue" where
  "enqueue_control q c =
     q\<lparr>entries := entries q @ [QControl (next_sequence q) c], next_sequence := Suc (next_sequence q)\<rparr>"

fun is_attempt :: "string \<Rightarrow> queued_input \<Rightarrow> bool" where
  "is_attempt a (QAuthorization s i p) = (i = a)"
| "is_attempt a _ = False"

fun enqueue_authorization :: "input_queue \<Rightarrow> deliver_payload list \<Rightarrow> input_queue" where
  "enqueue_authorization q [] = q"
| "enqueue_authorization q (p # ps) =
     (case authorization_attempt_id p of
        None \<Rightarrow> enqueue_authorization q ps
      | Some a \<Rightarrow>
          if \<exists>e \<in> set (entries q). is_attempt a e then enqueue_authorization q ps
          else enqueue_authorization
                 (q\<lparr>entries := entries q @ [QAuthorization (next_sequence q) a p],
                    next_sequence := Suc (next_sequence q)\<rparr>) ps)"

section \<open>Inspection and rewriting\<close>

fun is_delivery_at :: "nat \<Rightarrow> queued_input \<Rightarrow> bool" where
  "is_delivery_at s (QDelivery n d) = (n = s)"
| "is_delivery_at s _ = False"

definition delivery_at :: "input_queue \<Rightarrow> nat \<Rightarrow> delivery option" where
  "delivery_at q s =
     (case List.find (is_delivery_at s) (entries q) of Some (QDelivery n d) \<Rightarrow> Some d | _ \<Rightarrow> None)"

fun carries_task :: "queued_input \<Rightarrow> bool" where
  "carries_task (QDelivery n d) = (\<exists>p \<in> set (delivery_payloads d). payload_task p \<noteq> None)"
| "carries_task _ = False"

definition task_deliveries :: "input_queue \<Rightarrow> queued_input list" where
  "task_deliveries q = filter carries_task (entries q)"

definition replace_delivery :: "input_queue \<Rightarrow> nat \<Rightarrow> delivery option \<Rightarrow> input_queue" where
  "replace_delivery q s d =
     (case find_index (is_delivery_at s) (entries q) of
        None \<Rightarrow> q
      | Some i \<Rightarrow>
          (case d of
             None \<Rightarrow> q\<lparr>entries := remove_nth i (entries q)\<rparr>
           | Some d' \<Rightarrow> q\<lparr>entries := (entries q)[i := QDelivery s d']\<rparr>))"

definition retain :: "(queued_input \<Rightarrow> bool) \<Rightarrow> input_queue \<Rightarrow> input_queue" where
  "retain P q = q\<lparr>entries := filter P (entries q)\<rparr>"

fun from_task :: "string \<Rightarrow> queued_input \<Rightarrow> bool" where
  "from_task t (QDelivery n d) = is_task_delivery d (belongs_to t)"
| "from_task t _ = False"

definition cancel_task :: "input_queue \<Rightarrow> string \<Rightarrow> input_queue" where
  "cancel_task q t =
     retain (\<lambda>e. \<not> from_task t e) (q\<lparr>cancelled_task_ids := insert t (cancelled_task_ids q)\<rparr>)"

section \<open>Steering\<close>

definition is_steering_delivery :: "delivery \<Rightarrow> string option \<Rightarrow> bool" where
  "is_steering_delivery d caller_call \<longleftrightarrow>
     task_delivery_id d = None
     \<and> (case delivery_policy d of None \<Rightarrow> Steer | Some p \<Rightarrow> p) = Steer
     \<and> (case delivery_caller d of None \<Rightarrow> True | Some c \<Rightarrow> Some (caller_call_id c) = caller_call)"

fun steers :: "nat set \<Rightarrow> string option \<Rightarrow> queued_input \<Rightarrow> bool" where
  "steers admitted caller_call (QDelivery n d) = (n \<in> admitted \<and> is_steering_delivery d caller_call)"
| "steers admitted caller_call _ = False"

fun entry_deliveries :: "queued_input list \<Rightarrow> delivery list" where
  "entry_deliveries [] = []"
| "entry_deliveries (QDelivery n d # es) = d # entry_deliveries es"
| "entry_deliveries (_ # es) = entry_deliveries es"

definition combine :: "queued_input list \<Rightarrow> coalesce_error + delivery" where
  "combine es =
     (case entry_deliveries es of [d] \<Rightarrow> Inr d | ds \<Rightarrow> coalesce_deliveries ds)"

text \<open>The steering entries leave the queue before they are combined, so a throwing
  combination loses them: the queue is returned with the error.\<close>

definition take_steering ::
    "input_queue \<Rightarrow> nat set \<Rightarrow> string option \<Rightarrow> (coalesce_error + selection option) \<times> input_queue" where
  "take_steering q admitted caller_call =
     (let steering = filter (steers admitted caller_call) (entries q)
      in if steering = [] then (Inr None, q)
         else
           (let q' = retain (\<lambda>e. \<not> steers admitted caller_call e) q
            in (case combine steering of
                  Inl e \<Rightarrow> (Inl e, q')
                | Inr d \<Rightarrow> (Inr (Some (TurnSelection d False (map entry_sequence steering))), q'))))"

section \<open>Selecting the next input\<close>

fun entry_cohort :: "cohorts \<Rightarrow> queued_input \<Rightarrow> string option" where
  "entry_cohort cs (QDelivery n d) = terminal_cohort cs d"
| "entry_cohort cs _ = None"

definition pending_cohorts :: "input_queue \<Rightarrow> cohorts \<Rightarrow> string set" where
  "pending_cohorts q cs =
     set (map snd (filter (\<lambda>(t, c). t @ '':ready'' \<notin> seen_task_delivery_ids q
                              \<and> t \<notin> cancelled_task_ids q) cs))"

fun is_actionable :: "string set \<Rightarrow> cohorts \<Rightarrow> bool \<Rightarrow> queued_input \<Rightarrow> bool" where
  "is_actionable pending cs defer_deliveries (QControl n c) = True"
| "is_actionable pending cs defer_deliveries (QAuthorization n a p) = False"
| "is_actionable pending cs defer_deliveries (QDelivery n d) =
     (\<not> defer_deliveries
      \<and> (case terminal_cohort cs d of None \<Rightarrow> True | Some c \<Rightarrow> c \<notin> pending))"

definition next_actionable_index :: "input_queue \<Rightarrow> cohorts \<Rightarrow> bool \<Rightarrow> nat option" where
  "next_actionable_index q cs defer_deliveries =
     find_index (is_actionable (pending_cohorts q cs) cs defer_deliveries) (entries q)"

text \<open>An entry that interrupts a run of terminal deliveries.\<close>

definition is_boundary :: "cohorts \<Rightarrow> queued_input \<Rightarrow> bool" where
  "is_boundary cs e \<longleftrightarrow> entry_cohort cs e = None"

definition find_boundary :: "cohorts \<Rightarrow> queued_input list \<Rightarrow> nat \<Rightarrow> nat \<Rightarrow> nat option" where
  "find_boundary cs es i sib =
     find_index (\<lambda>j. i < j \<and> j < sib \<and> is_boundary cs (es ! j)) [0..<length es]"

text \<open>The loop that folds the directly following deliveries of the same principal.\<close>

definition is_authenticated :: "delivery \<Rightarrow> bool" where
  "is_authenticated d =
     (case delivery_auth d of
        None \<Rightarrow> False
      | Some JNull \<Rightarrow> False
      | Some (JObj es) \<Rightarrow> map_of es ''principalType'' \<noteq> Some (JStr ''anonymous'')
      | Some _ \<Rightarrow> True)"

definition joins :: "delivery \<Rightarrow> turn_caller option \<Rightarrow> delivery \<Rightarrow> bool" where
  "joins first caller d \<longleftrightarrow>
     task_delivery_id first = None \<and> task_delivery_id d = None \<and> is_authenticated first
     \<and> optional_json_equal (delivery_auth first) (delivery_auth d)
     \<and> \<not> (caller \<noteq> None \<and> delivery_caller d \<noteq> None)"

fun absorb :: "delivery \<Rightarrow> turn_caller option \<Rightarrow> queued_input list \<Rightarrow> queued_input list \<times> queued_input list" where
  "absorb first caller (QDelivery n d # es) =
     (if joins first caller d
      then (case absorb first (case caller of None \<Rightarrow> delivery_caller d | Some c \<Rightarrow> Some c) es of
              (taken, rest) \<Rightarrow> (QDelivery n d # taken, rest))
      else ([], QDelivery n d # es))"
| "absorb first caller es = ([], es)"

definition turn_selection ::
    "nat option \<Rightarrow> queued_input list \<Rightarrow> input_queue \<Rightarrow> coalesce_error + selection \<times> input_queue" where
  "turn_selection fresh turn_entries q =
     (case combine turn_entries of
        Inl e \<Rightarrow> Inl e
      | Inr combined \<Rightarrow>
          Inr (TurnSelection combined
                 (length turn_entries = 1 \<and> Some (entry_sequence (hd turn_entries)) = fresh
                  \<and> delivery_caller combined = None \<and> delivery_task_key combined = None
                  \<and> entries q = [])
                 (map entry_sequence turn_entries), q))"

definition take_plain_turn ::
    "input_queue \<Rightarrow> nat \<Rightarrow> cohorts \<Rightarrow> nat option \<Rightarrow> nat \<Rightarrow> delivery
     \<Rightarrow> coalesce_error + selection \<times> input_queue" where
  "take_plain_turn q i cs fresh n d =
     (let spliced = remove_nth i (entries q)
      in (case terminal_cohort cs d of
            Some c \<Rightarrow>
              (let siblings = filter (\<lambda>e. entry_cohort cs e = Some c) spliced
               in turn_selection fresh (QDelivery n d # siblings)
                    (q\<lparr>entries := filter (\<lambda>e. entry_cohort cs e \<noteq> Some c) spliced\<rparr>))
          | None \<Rightarrow>
              (case absorb d (delivery_caller d) (drop i spliced) of
                 (taken, rest) \<Rightarrow>
                   turn_selection fresh (QDelivery n d # taken)
                     (q\<lparr>entries := take i spliced @ rest\<rparr>))))"

lemma find_boundary_SomeD:
  assumes "find_boundary cs es i sib = Some b"
  shows "i < b" and "b < sib" and "b < length es" and "is_boundary cs (es ! b)"
    and "\<And>j. i < j \<Longrightarrow> j < b \<Longrightarrow> \<not> is_boundary cs (es ! j)"
  using assms by (auto simp: find_boundary_def find_index_eq_Some_iff)

lemma find_boundary_decreases:
  assumes "find_boundary cs es i sib = Some b"
  shows "length es - b < length es - i"
  using find_boundary_SomeD(1,3) [OF assms] by simp

function take_selection_at ::
    "input_queue \<Rightarrow> nat \<Rightarrow> cohorts \<Rightarrow> nat option \<Rightarrow> coalesce_error + selection \<times> input_queue" where
  "take_selection_at q i cs fresh =
     (case entries q ! i of
        QControl n c \<Rightarrow>
          Inr (ControlSelection c, q\<lparr>entries := remove_nth i (entries q)\<rparr>)
      | QAuthorization n a p \<Rightarrow>
          Inr (AuthorizationResume [p], q\<lparr>entries := remove_nth i (entries q)\<rparr>)
      | QDelivery n d \<Rightarrow>
          (case terminal_cohort cs d of
             None \<Rightarrow> take_plain_turn q i cs fresh n d
           | Some c \<Rightarrow>
               (case find_last_index (\<lambda>e. entry_cohort cs e = Some c) (entries q) of
                  None \<Rightarrow> take_plain_turn q i cs fresh n d
                | Some sib \<Rightarrow>
                    (case find_boundary cs (entries q) i sib of
                       None \<Rightarrow> take_plain_turn q i cs fresh n d
                     | Some b \<Rightarrow> take_selection_at q b cs fresh))))"
  by pat_completeness auto

termination
  by (relation "measure (\<lambda>(q, i, cs, fresh). length (entries q) - i)")
    (simp_all add: find_boundary_decreases)

declare take_selection_at.simps [simp del]

fun retained_authorization :: "string list \<Rightarrow> queued_input \<Rightarrow> bool" where
  "retained_authorization expected (QAuthorization n a p) = (a \<in> set expected)"
| "retained_authorization expected _ = True"

fun is_authorization :: "queued_input \<Rightarrow> bool" where
  "is_authorization (QAuthorization n a p) = True"
| "is_authorization _ = False"

fun collected_attempts :: "queued_input list \<Rightarrow> (string \<times> deliver_payload) list" where
  "collected_attempts [] = []"
| "collected_attempts (QAuthorization n a p # es) = (a, p) # collected_attempts es"
| "collected_attempts (_ # es) = collected_attempts es"

text \<open>
  \<open>expected\<close> lists the attempt ids of the open challenge in insertion order. A later
  pair of the collected list would overwrite an earlier one, as in the Map constructor.
\<close>

definition take_next ::
    "input_queue \<Rightarrow> cohorts \<Rightarrow> bool \<Rightarrow> string list \<Rightarrow> nat option
     \<Rightarrow> coalesce_error + selection option \<times> input_queue" where
  "take_next q cs defer_deliveries expected fresh =
     (let q1 = retain (retained_authorization expected) q;
          collected = map_of (rev (collected_attempts (entries q1)))
      in if expected \<noteq> [] \<and> (\<forall>a \<in> set expected. collected a \<noteq> None)
         then Inr (Some (AuthorizationResume (map (\<lambda>a. the (collected a)) expected)),
                   retain (\<lambda>e. \<not> is_authorization e) q1)
         else
           (case next_actionable_index q1 cs defer_deliveries of
              None \<Rightarrow> Inr (None, q1)
            | Some i \<Rightarrow>
                (case take_selection_at q1 i cs fresh of
                   Inl e \<Rightarrow> Inl e
                 | Inr (s, q') \<Rightarrow> Inr (Some s, q'))))"

section \<open>Nothing is lost, duplicated or reordered\<close>

lemma mset_remove_nth: "i < length xs \<Longrightarrow> mset xs = add_mset (xs ! i) (mset (remove_nth i xs))"
proof (induction xs arbitrary: i)
  case (Cons x xs)
  then show ?case by (cases i) (auto simp: js_list)
qed simp

lemma subseq_remove_nth: "subseq (remove_nth i xs) xs"
proof (induction xs arbitrary: i)
  case (Cons x xs)
  then show ?case by (cases i) (auto simp: js_list)
qed (simp add: remove_nth_def)

definition taken_from :: "queued_input list \<Rightarrow> queued_input list \<Rightarrow> queued_input list \<Rightarrow> bool" where
  "taken_from es taken es' \<longleftrightarrow> mset es = mset taken + mset es' \<and> subseq es' es"

lemma absorb_split: "absorb first c es = (taken, rest) \<Longrightarrow> es = taken @ rest"
  by (induction first c es arbitrary: taken rest rule: absorb.induct) (auto split: if_splits prod.splits)

lemma absorb_deliveries:
  "absorb first c es = (taken, rest) \<Longrightarrow> \<forall>e \<in> set taken. \<exists>n d. e = QDelivery n d \<and> task_delivery_id d = None
     \<and> is_authenticated first \<and> optional_json_equal (delivery_auth first) (delivery_auth d)"
  by (induction first c es arbitrary: taken rest rule: absorb.induct)
    (auto simp: joins_def split: if_splits prod.splits)

lemma absorb_callers:
  "absorb first c es = (taken, rest)
   \<Longrightarrow> length (callers (entry_deliveries taken)) + (if c = None then 0 else 1) \<le> 1"
proof (induction first c es arbitrary: taken rest rule: absorb.induct)
  case (1 first c n d es)
  show ?case
  proof (cases "joins first c d")
    case True
    with "1.prems" obtain t r where a: "absorb first (case c of None \<Rightarrow> delivery_caller d | Some x \<Rightarrow> Some x) es = (t, r)"
      and t: "taken = QDelivery n d # t"
      by (auto split: prod.splits)
    from "1.IH" [OF True a] True t show ?thesis
      by (auto simp: joins_def split: option.splits if_splits)
  qed (use "1.prems" in auto)
qed auto

lemma combine_defined:
  assumes "entry_deliveries es \<noteq> []" and "length (callers (entry_deliveries es)) \<le> 1"
  shows "\<exists>d. combine es = Inr d"
proof (cases "entry_deliveries es")
  case Nil
  with assms show ?thesis by simp
next
  case (Cons d ds)
  have "ds = [] \<or> one_caller (delivery_caller d) ds"
    using assms(2) Cons by (auto simp: one_caller_def split: option.splits)
  then obtain acc where "coalesce_items (coalesce_start d) ds = Inr acc"
    using coalesce_items_Inr_iff [of "coalesce_start d" ds] by (auto simp: coalesce_start_def)
  with Cons show ?thesis by (cases ds) (auto simp: combine_def)
qed

lemma coalesce_items_Inl: "coalesce_items acc ds = Inl e \<Longrightarrow> e = DifferentTurns"
  by (induction ds arbitrary: acc) (auto simp: coalesce_item_def Let_def split: if_splits)

lemma combine_error: "combine es = Inl e \<Longrightarrow> entry_deliveries es \<noteq> [] \<Longrightarrow> e = DifferentTurns"
  by (cases "entry_deliveries es"; cases "tl (entry_deliveries es)")
    (auto simp: combine_def coalesce_item_def Let_def dest: coalesce_items_Inl split: sum.splits if_splits)

lemma terminal_cohort_no_caller: "terminal_cohort cs d = Some c \<Longrightarrow> delivery_caller d = None"
  by (auto simp: terminal_cohort_def terminal_task_id_def split: option.splits if_splits)

lemma callers_of_cohort:
  "\<forall>e \<in> set es. entry_cohort cs e = Some c \<Longrightarrow> callers (entry_deliveries es) = []"
  by (induction es rule: entry_deliveries.induct) (auto dest: terminal_cohort_no_caller)

lemma entry_cohort_delivery: "entry_cohort cs e = Some c \<Longrightarrow> \<exists>n d. e = QDelivery n d"
  by (cases e) auto

lemma filter_partition: "mset xs = mset (filter P xs) + mset (filter (\<lambda>x. \<not> P x) xs)"
  by (induction xs) auto

lemma turn_selection_Inr:
  "combine es = Inr d \<Longrightarrow> \<exists>h. turn_selection fresh es q = Inr (TurnSelection d h (map entry_sequence es), q)"
  by (simp add: turn_selection_def)

definition same_facts :: "input_queue \<Rightarrow> input_queue \<Rightarrow> bool" where
  "same_facts q q' \<longleftrightarrow> cancelled_task_ids q' = cancelled_task_ids q
     \<and> seen_task_delivery_ids q' = seen_task_delivery_ids q \<and> next_sequence q' = next_sequence q"

lemma same_facts_entries [simp]: "same_facts q (q\<lparr>entries := es\<rparr>)"
  by (simp add: same_facts_def)

definition turn_taken ::
    "input_queue \<Rightarrow> coalesce_error + selection \<times> input_queue \<Rightarrow> queued_input list \<Rightarrow> input_queue \<Rightarrow> bool" where
  "turn_taken q result taken q' \<longleftrightarrow>
     (\<exists>r h. result = Inr (TurnSelection r h (map entry_sequence taken), q') \<and> combine taken = Inr r)
     \<and> taken \<noteq> [] \<and> (\<forall>e \<in> set taken. \<exists>n d. e = QDelivery n d)
     \<and> taken_from (entries q) taken (entries q') \<and> same_facts q q'"

lemma turn_takenI:
  assumes "entry_deliveries taken \<noteq> []" and "length (callers (entry_deliveries taken)) \<le> 1"
    and "\<forall>e \<in> set taken. \<exists>n d. e = QDelivery n d" and "taken_from (entries q) taken (entries q')"
    and "same_facts q q'"
  shows "turn_taken q (turn_selection fresh taken q') taken q'"
proof -
  obtain r where r: "combine taken = Inr r" using combine_defined [OF assms(1,2)] by blast
  have "taken \<noteq> []" using assms(1) by auto
  with r assms(3-5) turn_selection_Inr [OF r, of fresh q'] show ?thesis
    unfolding turn_taken_def by blast
qed

lemma take_cohort_turn:
  assumes i: "i < length (entries q)" and e: "entries q ! i = QDelivery n d"
    and c: "terminal_cohort cs d = Some c"
  obtains t q' where "turn_taken q (take_plain_turn q i cs fresh n d) (QDelivery n d # t) q'"
    and "\<forall>x \<in> set (QDelivery n d # t). entry_cohort cs x = Some c"
    and "\<forall>x \<in> set (entries q'). entry_cohort cs x \<noteq> Some c"
proof -
  define t where "t = filter (\<lambda>e. entry_cohort cs e = Some c) (remove_nth i (entries q))"
  define r where "r = filter (\<lambda>e. entry_cohort cs e \<noteq> Some c) (remove_nth i (entries q))"
  let ?q = "q\<lparr>entries := r\<rparr>"
  have coh: "\<forall>x \<in> set (QDelivery n d # t). entry_cohort cs x = Some c" using c by (simp add: t_def)
  have "mset (remove_nth i (entries q)) = mset t + mset r"
    using filter_partition unfolding t_def r_def .
  then have "mset (entries q) = mset (QDelivery n d # t) + mset r"
    using mset_remove_nth [OF i] e by simp
  moreover have "subseq r (entries q)"
    unfolding r_def by (rule subseq_order.trans [OF subseq_filter_left subseq_remove_nth])
  ultimately have tf: "taken_from (entries q) (QDelivery n d # t) (entries ?q)"
    by (simp add: taken_from_def)
  have del: "\<forall>e \<in> set (QDelivery n d # t). \<exists>n d. e = QDelivery n d"
    using coh entry_cohort_delivery by blast
  have "length (callers (entry_deliveries (QDelivery n d # t))) \<le> 1"
    using callers_of_cohort [OF coh] by (simp only: list.size)
  then have "turn_taken q (turn_selection fresh (QDelivery n d # t) ?q) (QDelivery n d # t) ?q"
    using del tf by (intro turn_takenI) simp_all
  moreover have "take_plain_turn q i cs fresh n d = turn_selection fresh (QDelivery n d # t) ?q"
    using c by (simp add: take_plain_turn_def Let_def t_def r_def)
  ultimately have "turn_taken q (take_plain_turn q i cs fresh n d) (QDelivery n d # t) ?q" by simp
  moreover have "\<forall>x \<in> set (entries ?q). entry_cohort cs x \<noteq> Some c" by (simp add: r_def)
  ultimately show ?thesis using coh that by blast
qed

lemma take_principal_turn:
  assumes i: "i < length (entries q)" and e: "entries q ! i = QDelivery n d"
    and none: "terminal_cohort cs d = None"
  obtains t q' where "turn_taken q (take_plain_turn q i cs fresh n d) (QDelivery n d # t) q'"
    and "QDelivery n d # t = take (Suc (length t)) (drop i (entries q))"
    and "\<forall>x \<in> set t. \<exists>m d'. x = QDelivery m d' \<and> task_delivery_id d' = None
          \<and> is_authenticated d \<and> optional_json_equal (delivery_auth d) (delivery_auth d')"
proof -
  let ?sp = "remove_nth i (entries q)"
  have drop_i: "drop i ?sp = drop (Suc i) (entries q)" and take_i: "take i ?sp = take i (entries q)"
    using i by (simp_all add: remove_nth_def)
  obtain t rest where a: "absorb d (delivery_caller d) (drop (Suc i) (entries q)) = (t, rest)" by force
  let ?taken = "QDelivery n d # t"
  let ?q = "q\<lparr>entries := take i (entries q) @ rest\<rparr>"
  note split = absorb_split [OF a]
  have here: "drop i (entries q) = QDelivery n d # drop (Suc i) (entries q)"
    using i e by (metis Cons_nth_drop_Suc)
  have es: "entries q = take i (entries q) @ ?taken @ rest"
    using here split by (metis append_Cons append_take_drop_id)
  have "mset (entries q) = mset (take i (entries q)) + (mset ?taken + mset rest)"
    using arg_cong [OF es, of mset] by simp
  moreover have "subseq (take i (entries q) @ rest) (take i (entries q) @ ?taken @ rest)"
    by (intro list_emb_append_mono) auto
  ultimately have tf: "taken_from (entries q) ?taken (entries ?q)"
    using es by (simp add: taken_from_def)
  have "length (callers (entry_deliveries ?taken)) \<le> 1"
    using absorb_callers [OF a] by (cases "delivery_caller d") simp_all
  then have "turn_taken q (turn_selection fresh ?taken ?q) ?taken ?q"
    using tf absorb_deliveries [OF a] by (intro turn_takenI) auto
  then have "turn_taken q (take_plain_turn q i cs fresh n d) ?taken ?q"
    using none a by (simp add: take_plain_turn_def Let_def drop_i take_i)
  moreover have "?taken = take (Suc (length t)) (drop i (entries q))"
    unfolding here split by simp
  moreover have "\<forall>x \<in> set t. \<exists>m d'. x = QDelivery m d' \<and> task_delivery_id d' = None
          \<and> is_authenticated d \<and> optional_json_equal (delivery_auth d) (delivery_auth d')"
    using absorb_deliveries [OF a] by blast
  ultimately show ?thesis by (rule that)
qed

fun is_control :: "queued_input \<Rightarrow> bool" where
  "is_control (QControl n c) = True"
| "is_control _ = False"

fun entry_payload :: "queued_input \<Rightarrow> deliver_payload option" where
  "entry_payload (QAuthorization n a p) = Some p"
| "entry_payload _ = None"

text \<open>What a selection hands to the session of the entries it removed.\<close>

fun delivers :: "selection option \<Rightarrow> queued_input list \<Rightarrow> bool" where
  "delivers None taken = (taken = [])"
| "delivers (Some (ControlSelection c)) taken = (\<exists>n. taken = [QControl n c])"
| "delivers (Some (AuthorizationResume ps)) taken =
     (taken \<noteq> [] \<and> (\<forall>e \<in> set taken. is_authorization e) \<and> Some ` set ps = entry_payload ` set taken)"
| "delivers (Some (TurnSelection d h ss)) taken =
     (taken \<noteq> [] \<and> (\<forall>e \<in> set taken. \<exists>n x. e = QDelivery n x) \<and> ss = map entry_sequence taken
      \<and> combine taken = Inr d)"

text \<open>The entries of a turn lie before every queued control.\<close>

definition before_controls :: "input_queue \<Rightarrow> queued_input list \<Rightarrow> bool" where
  "before_controls q taken \<longleftrightarrow>
     (\<exists>pre post. entries q = pre @ post \<and> set taken \<subseteq> set pre \<and> (\<forall>e \<in> set pre. \<not> is_control e))"

text \<open>The turn of a cohort is the whole cohort and nothing else.\<close>

definition whole_cohort :: "cohorts \<Rightarrow> queued_input list \<Rightarrow> input_queue \<Rightarrow> bool" where
  "whole_cohort cs taken q' \<longleftrightarrow>
     (\<forall>x \<in> set taken. \<forall>c. entry_cohort cs x = Some c \<longrightarrow>
        (\<forall>y \<in> set taken. entry_cohort cs y = Some c) \<and> (\<forall>y \<in> set (entries q'). entry_cohort cs y \<noteq> Some c))"

definition selects :: "input_queue \<Rightarrow> nat \<Rightarrow> cohorts \<Rightarrow> selection \<Rightarrow> input_queue \<Rightarrow> queued_input list \<Rightarrow> bool" where
  "selects q i cs sel q' taken \<longleftrightarrow>
     taken_from (entries q) taken (entries q') \<and> same_facts q q' \<and> delivers (Some sel) taken
     \<and> whole_cohort cs taken q'
     \<and> (\<forall>x \<in> set taken. entry_cohort cs x \<in> {None, entry_cohort cs (entries q ! i)})
     \<and> ((\<forall>e \<in> set (take i (entries q)). \<not> is_control e) \<longrightarrow>
          (\<forall>d h ss. sel = TurnSelection d h ss \<longrightarrow> before_controls q taken))"

lemma taken_from_one:
  "i < length es \<Longrightarrow> taken_from es [es ! i] (remove_nth i es)"
  by (simp add: taken_from_def mset_remove_nth subseq_remove_nth)

lemma no_task_no_cohort: "task_delivery_id d = None \<Longrightarrow> terminal_cohort cs d = None"
  by (simp add: terminal_cohort_def terminal_task_id_def)

lemma turn_taken_selects:
  assumes t: "turn_taken q r taken q'" and w: "whole_cohort cs taken q'"
    and c: "\<forall>x \<in> set taken. entry_cohort cs x \<in> {None, entry_cohort cs (entries q ! i)}"
    and b: "(\<forall>e \<in> set (take i (entries q)). \<not> is_control e) \<Longrightarrow> before_controls q taken"
  shows "\<exists>sel. r = Inr (sel, q') \<and> selects q i cs sel q' taken"
proof -
  from t obtain d h where r: "r = Inr (TurnSelection d h (map entry_sequence taken), q')"
    and d: "combine taken = Inr d" by (auto simp: turn_taken_def)
  have "selects q i cs (TurnSelection d h (map entry_sequence taken)) q' taken"
    using t w c b d unfolding selects_def turn_taken_def by simp
  with r show ?thesis by blast
qed

lemma principal_selects:
  assumes i: "i < length (entries q)" and e: "entries q ! i = QDelivery n d"
    and none: "terminal_cohort cs d = None"
  shows "\<exists>sel q' taken. take_plain_turn q i cs fresh n d = Inr (sel, q') \<and> selects q i cs sel q' taken"
proof -
  obtain t q' where t: "turn_taken q (take_plain_turn q i cs fresh n d) (QDelivery n d # t) q'"
    and run: "QDelivery n d # t = take (Suc (length t)) (drop i (entries q))"
    and joined: "\<forall>x \<in> set t. \<exists>m d'. x = QDelivery m d' \<and> task_delivery_id d' = None
          \<and> is_authenticated d \<and> optional_json_equal (delivery_auth d) (delivery_auth d')"
    by (rule take_principal_turn [OF i e none])
  have tail: "\<forall>x \<in> set t. entry_cohort cs x = None \<and> \<not> is_control x"
  proof
    fix x assume "x \<in> set t"
    with joined obtain m d' where "x = QDelivery m d'" "task_delivery_id d' = None" by blast
    then show "entry_cohort cs x = None \<and> \<not> is_control x" by (simp add: no_task_no_cohort)
  qed
  then have no_cohort: "\<forall>x \<in> set (QDelivery n d # t). entry_cohort cs x = None" using none by simp
  have es: "entries q = (take i (entries q) @ QDelivery n d # t) @ drop (Suc (length t)) (drop i (entries q))"
    unfolding run by (metis append.assoc append_take_drop_id)
  have b: "before_controls q (QDelivery n d # t)" if c: "\<forall>e \<in> set (take i (entries q)). \<not> is_control e"
  proof -
    have "\<forall>e \<in> set (take i (entries q) @ QDelivery n d # t). \<not> is_control e"
      using c tail by (simp add: ball_Un)
    moreover have "set (QDelivery n d # t) \<subseteq> set (take i (entries q) @ QDelivery n d # t)" by auto
    ultimately show ?thesis using es unfolding before_controls_def by blast
  qed
  have w: "whole_cohort cs (QDelivery n d # t) q'"
    unfolding whole_cohort_def using no_cohort by (metis option.distinct(1))
  have "\<forall>x \<in> set (QDelivery n d # t). entry_cohort cs x \<in> {None, entry_cohort cs (entries q ! i)}"
    using no_cohort by blast
  from turn_taken_selects [OF t w this b] show ?thesis by blast
qed

lemma taken_from_subset: "taken_from es taken es' \<Longrightarrow> set taken \<subseteq> set es \<and> set es' \<subseteq> set es"
  by (metis taken_from_def set_mset_mset set_mset_union sup_ge1 sup_ge2)

lemma cohort_not_control: "entry_cohort cs e = Some c \<Longrightarrow> \<not> is_control e"
  by (cases e) auto

lemma no_control_to_sibling:
  assumes ctl: "\<forall>e \<in> set (take i (entries q)). \<not> is_control e"
    and e: "entry_cohort cs (entries q ! i) = Some c" and i: "i < length (entries q)"
    and s: "sib < length (entries q)" and at_sib: "entry_cohort cs (entries q ! sib) = Some c"
    and bnd: "find_boundary cs (entries q) i sib = None"
  shows "\<forall>x \<in> set (take (Suc sib) (entries q)). \<not> is_control x"
proof
  fix x assume "x \<in> set (take (Suc sib) (entries q))"
  then obtain j where j: "j < Suc sib" and x: "x = entries q ! j" using s by (auto simp: in_set_conv_nth)
  consider "j < i" | "j = i" | "j = sib" | "i < j" "j < sib" using j by linarith
  then show "\<not> is_control x"
  proof cases
    case 1
    with i have "entries q ! j \<in> set (take i (entries q))" by (intro set_takeI) auto
    with ctl x show ?thesis by blast
  next
    case 4
    with bnd s have "\<not> is_boundary cs (entries q ! j)"
      by (auto simp: find_boundary_def find_index_eq_None_iff)
    with x show ?thesis by (auto simp: is_boundary_def dest: cohort_not_control)
  qed (use x e at_sib cohort_not_control in blast)+
qed

lemma cohort_before_controls:
  assumes ctl: "\<forall>e \<in> set (take i (entries q)). \<not> is_control e"
    and e: "entry_cohort cs (entries q ! i) = Some c" and i: "i < length (entries q)"
    and sib: "find_last_index (\<lambda>e. entry_cohort cs e = Some c) (entries q) = Some sib"
    and bnd: "find_boundary cs (entries q) i sib = None"
    and sub: "set taken \<subseteq> set (entries q)" and all: "\<forall>x \<in> set taken. entry_cohort cs x = Some c"
  shows "before_controls q taken"
proof -
  note f = find_last_index_SomeD [OF sib]
  have "set taken \<subseteq> set (take (Suc sib) (entries q))"
  proof
    fix x assume x: "x \<in> set taken"
    with sub obtain j where j: "j < length (entries q)" "x = entries q ! j"
      by (metis in_set_conv_nth subsetD)
    moreover have "\<not> sib < j" using f(3) [of j] j x all by blast
    ultimately show "x \<in> set (take (Suc sib) (entries q))" by (simp add: set_takeI)
  qed
  moreover have "\<forall>x \<in> set (take (Suc sib) (entries q)). \<not> is_control x"
    using no_control_to_sibling [OF ctl e i f(1) f(2) bnd] .
  moreover have "entries q = take (Suc sib) (entries q) @ drop (Suc sib) (entries q)" by simp
  ultimately show ?thesis unfolding before_controls_def by blast
qed

lemma cohort_selects:
  assumes i: "i < length (entries q)" and e: "entries q ! i = QDelivery n d"
    and c: "terminal_cohort cs d = Some c"
    and sib: "find_last_index (\<lambda>e. entry_cohort cs e = Some c) (entries q) = Some sib"
    and bnd: "find_boundary cs (entries q) i sib = None"
  shows "\<exists>sel q' taken. take_plain_turn q i cs fresh n d = Inr (sel, q') \<and> selects q i cs sel q' taken"
proof -
  obtain t q' where t: "turn_taken q (take_plain_turn q i cs fresh n d) (QDelivery n d # t) q'"
    and all: "\<forall>x \<in> set (QDelivery n d # t). entry_cohort cs x = Some c"
    and rest: "\<forall>x \<in> set (entries q'). entry_cohort cs x \<noteq> Some c"
    by (rule take_cohort_turn [OF i e c])
  have here: "entry_cohort cs (entries q ! i) = Some c" using e c by simp
  have sub: "set (QDelivery n d # t) \<subseteq> set (entries q)"
    using t taken_from_subset unfolding turn_taken_def by blast
  have w: "whole_cohort cs (QDelivery n d # t) q'"
    unfolding whole_cohort_def using all rest by (metis option.inject)
  have "\<forall>x \<in> set (QDelivery n d # t). entry_cohort cs x \<in> {None, entry_cohort cs (entries q ! i)}"
    unfolding here using all by blast
  from turn_taken_selects [OF t w this cohort_before_controls [OF _ here i sib bnd sub all]]
  show ?thesis by blast
qed

lemma single_selects:
  assumes i: "i < length (entries q)" and c: "entry_cohort cs (entries q ! i) = None"
    and d: "delivers (Some sel) [entries q ! i]" and t: "\<And>d h ss. sel \<noteq> TurnSelection d h ss"
  shows "selects q i cs sel (q\<lparr>entries := remove_nth i (entries q)\<rparr>) [entries q ! i]"
  using taken_from_one [OF i] c d t by (simp add: selects_def whole_cohort_def)

text \<open>The redirection to an interrupting entry keeps the run before it free of controls.\<close>

lemma redirect_selects:
  assumes b: "find_boundary cs (entries q) i sib = Some b"
    and e: "\<not> is_control (entries q ! i)" and s: "selects q b cs sel q' taken"
  shows "selects q i cs sel q' taken"
proof -
  note f = find_boundary_SomeD [OF b]
  have none: "entry_cohort cs (entries q ! b) = None" using f(4) by (simp add: is_boundary_def)
  have "\<not> is_control x" if c: "\<forall>e \<in> set (take i (entries q)). \<not> is_control e" and x: "x \<in> set (take b (entries q))" for x
  proof -
    from x f(3) obtain j where j: "j < b" "x = entries q ! j" by (auto simp: in_set_conv_nth)
    consider "j < i" | "j = i" | "i < j" by linarith
    then show ?thesis
    proof cases
      case 1
      with f(1,3) have "entries q ! j \<in> set (take i (entries q))" by (intro set_takeI) auto
      with c j show ?thesis by blast
    next
      case 3
      with f(5) j show ?thesis by (auto simp: is_boundary_def dest: cohort_not_control)
    qed (use e j in simp)
  qed
  then have "(\<forall>e \<in> set (take i (entries q)). \<not> is_control e) \<Longrightarrow> \<forall>e \<in> set (take b (entries q)). \<not> is_control e"
    by blast
  with s none show ?thesis unfolding selects_def by auto
qed

lemma take_selection_at_selects:
  "i < length (entries q) \<Longrightarrow>
   \<exists>sel q' taken. take_selection_at q i cs fresh = Inr (sel, q') \<and> selects q i cs sel q' taken"
proof (induction q i cs fresh rule: take_selection_at.induct)
  case (1 q i cs fresh)
  note i = "1.prems"
  show ?case
  proof (cases "entries q ! i")
    case (QDelivery n d)
    note e = this
    show ?thesis
    proof (cases "terminal_cohort cs d")
      case None
      then show ?thesis using principal_selects [OF i e None, of fresh] e
        by (simp add: take_selection_at.simps [of q i])
    next
      case (Some c)
      then have here: "entry_cohort cs (entries q ! i) = Some c" using e by simp
      then obtain sib where sib: "find_last_index (\<lambda>e. entry_cohort cs e = Some c) (entries q) = Some sib"
        using i find_last_index_None_iff [of "\<lambda>e. entry_cohort cs e = Some c" "entries q"]
        by (metis nth_mem option.exhaust)
      show ?thesis
      proof (cases "find_boundary cs (entries q) i sib")
        case None
        then show ?thesis using cohort_selects [OF i e Some sib None, of fresh] e Some sib
          by (simp add: take_selection_at.simps [of q i])
      next
        case b: (Some b)
        have step: "take_selection_at q i cs fresh = take_selection_at q b cs fresh"
          using e Some sib b by (simp add: take_selection_at.simps [of q i])
        obtain sel q' taken where r: "take_selection_at q b cs fresh = Inr (sel, q')"
          and s: "selects q b cs sel q' taken"
          using "1.IH" [OF e Some sib b] find_boundary_SomeD(3) [OF b] by blast
        have "\<not> is_control (entries q ! i)" using e by simp
        with redirect_selects [OF b _ s] r step show ?thesis by auto
      qed
    qed
  next
    case (QControl n c)
    then show ?thesis using single_selects [OF i, of cs "ControlSelection c"]
      by (auto simp: take_selection_at.simps [of q i])
  next
    case (QAuthorization n a p)
    then show ?thesis using single_selects [OF i, of cs "AuthorizationResume [p]"]
      by (auto simp: take_selection_at.simps [of q i])
  qed
qed

section \<open>The queue over its whole history\<close>

fun entry_attempt :: "queued_input \<Rightarrow> string option" where
  "entry_attempt (QAuthorization n a p) = Some a"
| "entry_attempt _ = None"

fun entry_identity :: "queued_input \<Rightarrow> string option" where
  "entry_identity (QDelivery n d) = map_option (deduplication_id d) (delivery_task_key d)"
| "entry_identity _ = None"

lemma is_attempt_iff: "is_attempt a e \<longleftrightarrow> entry_attempt e = Some a"
  by (cases e) auto

text \<open>Entries are in admission order; at most one entry is queued per authorization attempt
  and per task identity; a queued task identity is remembered; nothing of a cancelled task is
  queued.\<close>

definition queue_inv :: "input_queue \<Rightarrow> bool" where
  "queue_inv q \<longleftrightarrow>
     sorted_wrt (<) (map entry_sequence (entries q))
     \<and> (\<forall>e \<in> set (entries q). entry_sequence e < next_sequence q)
     \<and> distinct (List.map_filter entry_attempt (entries q))
     \<and> distinct (List.map_filter entry_identity (entries q))
     \<and> set (List.map_filter entry_identity (entries q)) \<subseteq> seen_task_delivery_ids q
     \<and> (\<forall>e \<in> set (entries q). \<forall>t \<in> cancelled_task_ids q. \<not> from_task t e)"

text \<open>What the routing of a delivery to children leaves of it (route-child-delivery.ts,
  proxied-deliver-step.ts): the delivery with other payloads and their metadata, or nothing.\<close>

type_synonym remainder = "deliver_payload list \<times> metadata_entry list option"

definition rerouted :: "delivery \<Rightarrow> remainder \<Rightarrow> delivery" where
  "rerouted d p = d\<lparr>delivery_metadata := snd p, delivery_payloads := fst p\<rparr>"

definition rewrite_delivery :: "input_queue \<Rightarrow> nat \<Rightarrow> remainder option \<Rightarrow> input_queue" where
  "rewrite_delivery q s ps =
     (case delivery_at q s of
        None \<Rightarrow> q
      | Some d \<Rightarrow> replace_delivery q s (map_option (rerouted d) ps))"

datatype queue_op =
    EnqueueOp delivery
  | RememberOp string
  | ControlOp session_control
  | AuthorizeOp "deliver_payload list"
  | RewriteOp nat "remainder option"
  | CancelOp string
  | SteerOp "nat set" "string option"
  | TakeOp cohorts bool "string list" "nat option"

fun queue_step :: "input_queue \<Rightarrow> queue_op \<Rightarrow> input_queue" where
  "queue_step q (EnqueueOp d) = snd (enqueue_delivery q d)"
| "queue_step q (RememberOp t) = remember_task q t"
| "queue_step q (ControlOp c) = enqueue_control q c"
| "queue_step q (AuthorizeOp ps) = enqueue_authorization q ps"
| "queue_step q (RewriteOp s ps) = rewrite_delivery q s ps"
| "queue_step q (CancelOp t) = cancel_task q t"
| "queue_step q (SteerOp admitted c) = snd (take_steering q admitted c)"
| "queue_step q (TakeOp cs df expected fresh) =
     (case take_next q cs df expected fresh of Inl e \<Rightarrow> q | Inr (s, q') \<Rightarrow> q')"

lemma queue_inv_subseq:
  assumes inv: "queue_inv q" and sub: "subseq es (entries q)"
    and same: "entries q' = es" "same_facts q q'"
  shows "queue_inv q'"
proof -
  have "sorted_wrt (<) (map entry_sequence (entries q))" using inv by (simp add: queue_inv_def)
  then have "sorted_wrt (<) (map entry_sequence es)" by (rule sorted_wrt_subseq [OF subseq_map [OF sub]])
  moreover note subseq_set [OF sub]
    subseq_distinct [OF map_filter_subseq [OF sub]]
    subseq_set [OF map_filter_subseq [OF sub, of entry_identity]]
  ultimately show ?thesis
    using inv same unfolding queue_inv_def same_facts_def by (auto 4 3)
qed

lemma queue_inv_filter: "queue_inv q \<Longrightarrow> queue_inv (retain P q)"
  by (rule queue_inv_subseq [of q "filter P (entries q)"]) (simp_all add: retain_def)

lemma queue_inv_empty: "queue_inv empty_queue"
  by (simp add: queue_inv_def empty_queue_def map_filter_simps)

text \<open>Appending one entry with the next sequence.\<close>

lemma queue_inv_append:
  assumes "queue_inv q" and "entry_sequence e = next_sequence q"
    and "\<forall>a. entry_attempt e = Some a \<longrightarrow> a \<notin> set (List.map_filter entry_attempt (entries q))"
    and "\<forall>i. entry_identity e = Some i \<longrightarrow> i \<notin> seen_task_delivery_ids q"
    and "\<forall>t \<in> cancelled_task_ids q. \<not> from_task t e"
  shows "queue_inv (q\<lparr>seen_task_delivery_ids := set_option (entry_identity e) \<union> seen_task_delivery_ids q,
           entries := entries q @ [e], next_sequence := Suc (next_sequence q)\<rparr>)"
proof -
  have "\<forall>x \<in> set (entries q). entry_sequence x < entry_sequence e"
    using assms(1,2) by (simp add: queue_inv_def)
  then have "sorted_wrt (<) (map entry_sequence (entries q @ [e]))"
    using assms(1) by (simp add: queue_inv_def sorted_wrt_append)
  moreover have "distinct (List.map_filter entry_attempt (entries q @ [e]))"
    using assms(1,3) by (cases "entry_attempt e") (simp_all add: queue_inv_def map_filter_simps)
  moreover have "distinct (List.map_filter entry_identity (entries q @ [e]))"
    using assms(1,4) by (cases "entry_identity e") (auto simp: queue_inv_def map_filter_simps)
  ultimately show ?thesis
    using assms unfolding queue_inv_def
    by (cases "entry_identity e") (auto simp: map_filter_simps less_Suc_eq)
qed

lemma identity_of_task: "from_task t (QDelivery n d) \<Longrightarrow> \<exists>i. delivery_task_key d = Some i \<and> belongs_to t i"
  by (auto simp: is_task_delivery_def split: option.splits)

lemma queue_inv_enqueue: "queue_inv q \<Longrightarrow> queue_inv (snd (enqueue_delivery q d))"
proof (cases "delivery_task_key d")
  case None
  assume inv: "queue_inv q"
  have "\<forall>t. \<not> from_task t (QDelivery (next_sequence q) d)"
    using None by (simp add: is_task_delivery_def)
  with queue_inv_append [OF inv, of "QDelivery (next_sequence q) d"] None show ?thesis
    by (simp add: enqueue_delivery_def admit_def)
next
  case (Some i)
  assume inv: "queue_inv q"
  show ?thesis
  proof (cases "deduplication_id d i \<in> seen_task_delivery_ids q \<or> is_cancelled_task_delivery q i")
    case True
    with inv Some show ?thesis by (simp add: enqueue_delivery_def)
  next
    case False
    then have "\<forall>t \<in> cancelled_task_ids q. \<not> from_task t (QDelivery (next_sequence q) d)"
      using Some by (simp add: is_task_delivery_def is_cancelled_task_delivery_def)
    with queue_inv_append [OF inv, of "QDelivery (next_sequence q) d"] Some False show ?thesis
      by (simp add: enqueue_delivery_def admit_def)
  qed
qed

lemma queue_inv_control: "queue_inv q \<Longrightarrow> queue_inv (enqueue_control q c)"
  using queue_inv_append [of q "QControl (next_sequence q) c"] by (simp add: enqueue_control_def)

lemma queue_inv_authorize: "queue_inv q \<Longrightarrow> queue_inv (enqueue_authorization q ps)"
proof (induction q ps rule: enqueue_authorization.induct)
  case (2 q p ps)
  show ?case
  proof (cases "authorization_attempt_id p")
    case None
    with 2 show ?thesis by simp
  next
    case (Some a)
    show ?thesis
    proof (cases "\<exists>e \<in> set (entries q). is_attempt a e")
      case True
      with 2(2,4) Some show ?thesis by simp
    next
      case False
      then have "a \<notin> set (List.map_filter entry_attempt (entries q))"
        by (simp add: set_map_filter is_attempt_iff)
      then have "queue_inv (q\<lparr>entries := entries q @ [QAuthorization (next_sequence q) a p],
                    next_sequence := Suc (next_sequence q)\<rparr>)"
        using queue_inv_append [OF 2(4), of "QAuthorization (next_sequence q) a p"] by simp
      with 2(3) Some False show ?thesis by simp
    qed
  qed
qed simp

lemma delivery_at_index:
  "find_index (is_delivery_at s) (entries q) = Some i \<Longrightarrow> delivery_at q s = Some d
   \<Longrightarrow> i < length (entries q) \<and> entries q ! i = QDelivery s d"
proof -
  assume f: "find_index (is_delivery_at s) (entries q) = Some i" and d: "delivery_at q s = Some d"
  from f have i: "i < length (entries q)" and p: "is_delivery_at s (entries q ! i)"
    and lo: "\<forall>j<i. \<not> is_delivery_at s (entries q ! j)" by (auto simp: find_index_eq_Some_iff)
  then have "List.find (is_delivery_at s) (entries q) = Some (entries q ! i)"
    by (auto simp: find_Some_iff)
  with i p d show ?thesis
    by (cases "entries q ! i") (simp_all add: delivery_at_def)
qed

lemma rewritten_keys:
  "terminal_task_id (rerouted d p) = terminal_task_id d"
  "delivery_task_key (rerouted d p) = delivery_task_key d"
  by (auto simp: rerouted_def delivery_task_key_def terminal_task_id_def split: option.split)

lemma rewritten_deduplication: "deduplication_id (rerouted d p) = deduplication_id d"
  by (simp add: fun_eq_iff deduplication_id_def rewritten_keys)

lemma rewritten_identity:
  "entry_identity (QDelivery s (rerouted d p)) = entry_identity (QDelivery s d)"
  "from_task t (QDelivery s (rerouted d p)) = from_task t (QDelivery s d)"
  by (simp_all add: is_task_delivery_def rewritten_keys rewritten_deduplication)

lemma queue_inv_rewrite: "queue_inv q \<Longrightarrow> queue_inv (rewrite_delivery q s ps)"
proof -
  assume inv: "queue_inv q"
  show ?thesis
  proof (cases "delivery_at q s")
    case (Some d)
    note d = this
    show ?thesis
    proof (cases "find_index (is_delivery_at s) (entries q)")
      case (Some i)
      from delivery_at_index [OF Some d] have i: "i < length (entries q)" "entries q ! i = QDelivery s d" by auto
      show ?thesis
      proof (cases ps)
        case None
        then have "rewrite_delivery q s ps = q\<lparr>entries := remove_nth i (entries q)\<rparr>"
          using d Some by (simp add: rewrite_delivery_def replace_delivery_def)
        with queue_inv_subseq [OF inv subseq_remove_nth] show ?thesis by simp
      next
        case p: (Some p)
        let ?e = "QDelivery s (rerouted d p)"
        have q': "rewrite_delivery q s ps = q\<lparr>entries := (entries q)[i := ?e]\<rparr>"
          using d Some p by (simp add: rewrite_delivery_def replace_delivery_def)
        have "map entry_sequence ((entries q)[i := ?e]) = map entry_sequence (entries q)"
          "List.map_filter entry_attempt ((entries q)[i := ?e]) = List.map_filter entry_attempt (entries q)"
          "List.map_filter entry_identity ((entries q)[i := ?e]) = List.map_filter entry_identity (entries q)"
          by (rule map_same_update map_filter_same_update; simp add: i(2) del: entry_identity.simps;
              simp only: rewritten_identity)+
        moreover have "\<forall>x \<in> set ((entries q)[i := ?e]). entry_sequence x < next_sequence q
            \<and> (\<forall>t \<in> cancelled_task_ids q. \<not> from_task t x)"
        proof
          fix x assume "x \<in> set ((entries q)[i := ?e])"
          then have "x = ?e \<or> x \<in> set (entries q)" using set_update_subset_insert by fastforce
          moreover have "QDelivery s d \<in> set (entries q)" using i by (metis nth_mem)
          ultimately show "entry_sequence x < next_sequence q \<and> (\<forall>t \<in> cancelled_task_ids q. \<not> from_task t x)"
            using inv rewritten_identity(2) unfolding queue_inv_def by (metis queued_input.sel(1))
        qed
        ultimately show ?thesis unfolding q' using inv by (simp add: queue_inv_def)
      qed
    qed (use inv d in \<open>simp add: rewrite_delivery_def replace_delivery_def\<close>)
  qed (use inv in \<open>simp add: rewrite_delivery_def\<close>)
qed

lemma queue_inv_cancel: "queue_inv q \<Longrightarrow> queue_inv (cancel_task q t)"
proof -
  assume "queue_inv q"
  then have "queue_inv (retain (\<lambda>e. \<not> from_task t e) q)" by (rule queue_inv_filter)
  then show ?thesis by (simp add: cancel_task_def retain_def queue_inv_def)
qed

lemma take_steering_entries:
  "entries (snd (take_steering q admitted c)) = filter (\<lambda>e. \<not> steers admitted c e) (entries q)
   \<and> same_facts q (snd (take_steering q admitted c))"
proof (cases "filter (steers admitted c) (entries q) = []")
  case True
  then have "filter (\<lambda>e. \<not> steers admitted c e) (entries q) = entries q"
    by (simp add: filter_empty_conv)
  with True show ?thesis by (simp add: take_steering_def same_facts_def)
next
  case False
  then show ?thesis
    by (simp add: take_steering_def Let_def retain_def same_facts_def split: sum.split)
qed

lemma collected_attempts_None_iff:
  "map_of (rev (collected_attempts es)) a = None \<longleftrightarrow> a \<notin> set (List.map_filter entry_attempt es)"
  by (induction es rule: collected_attempts.induct) (auto simp: map_of_append)

lemma collected_attempts_in:
  "map_of (rev (collected_attempts es)) a = Some p \<Longrightarrow> \<exists>n. QAuthorization n a p \<in> set es"
  by (induction es rule: collected_attempts.induct) (auto simp: map_add_Some_iff split: if_splits)

lemma collected_attempts_unique:
  assumes "distinct (List.map_filter entry_attempt es)" and "QAuthorization n a p \<in> set es"
  shows "map_of (rev (collected_attempts es)) a = Some p"
  using assms
proof (induction es rule: collected_attempts.induct)
  case (2 m b r es)
  then show ?case
    using collected_attempts_None_iff [of es a]
    by (cases "b = a") (auto simp: map_add_def set_map_filter split: option.splits)
qed auto

lemma take_next_collected:
  assumes inv: "queue_inv q" and e: "expected \<noteq> []"
    and q1: "q1 = retain (retained_authorization expected) q"
    and all: "\<forall>a \<in> set expected. map_of (rev (collected_attempts (entries q1))) a \<noteq> None"
  defines "taken \<equiv> filter is_authorization (entries q1)"
  shows "delivers (Some (AuthorizationResume (map (\<lambda>a. the (map_of (rev (collected_attempts (entries q1))) a)) expected))) taken"
proof -
  let ?f = "map_of (rev (collected_attempts (entries q1)))"
  have inv1: "distinct (List.map_filter entry_attempt (entries q1))"
    using queue_inv_filter [OF inv] unfolding q1 queue_inv_def by blast
  have "Some ` set (map (\<lambda>a. the (?f a)) expected) = entry_payload ` set taken"
  proof (intro equalityI subsetI)
    fix x assume "x \<in> Some ` set (map (\<lambda>a. the (?f a)) expected)"
    then obtain a p where "a \<in> set expected" "?f a = Some p" "x = Some p" using all by fastforce
    then obtain n where "QAuthorization n a p \<in> set (entries q1)" using collected_attempts_in by blast
    then have "QAuthorization n a p \<in> set taken" by (simp add: taken_def)
    then show "x \<in> entry_payload ` set taken" using \<open>x = Some p\<close> by force
  next
    fix x assume "x \<in> entry_payload ` set taken"
    then obtain y where y: "y \<in> set (entries q1)" "is_authorization y" "x = entry_payload y"
      by (auto simp: taken_def)
    from y(2) obtain n a p where y': "y = QAuthorization n a p" by (cases y) auto
    with y have "?f a = Some p" using collected_attempts_unique [OF inv1] by blast
    moreover have "a \<in> set expected" using y y' by (simp add: q1 retain_def)
    ultimately show "x \<in> Some ` set (map (\<lambda>a. the (?f a)) expected)" using y y' by force
  qed
  moreover have "taken \<noteq> []"
  proof -
    from e obtain a where "a \<in> set expected" by (meson last_in_set)
    with all obtain p where "?f a = Some p" by blast
    then obtain n where "QAuthorization n a p \<in> set (entries q1)" using collected_attempts_in by blast
    then have "QAuthorization n a p \<in> set taken" by (simp add: taken_def)
    then show ?thesis by auto
  qed
  ultimately show ?thesis by (simp add: taken_def)
qed

lemma take_next_spec:
  assumes inv: "queue_inv q"
  shows "\<exists>sel q' taken. take_next q cs df expected fresh = Inr (sel, q')
     \<and> taken_from (filter (retained_authorization expected) (entries q)) taken (entries q')
     \<and> same_facts q q' \<and> delivers sel taken
     \<and> ((\<exists>d h ss. sel = Some (TurnSelection d h ss)) \<longrightarrow>
          before_controls (retain (retained_authorization expected) q) taken \<and> whole_cohort cs taken q'
          \<and> \<not> df \<and> (\<forall>x \<in> set taken. \<forall>c. entry_cohort cs x = Some c \<longrightarrow> c \<notin> pending_cohorts q cs))"
proof -
  define q1 where "q1 = retain (retained_authorization expected) q"
  have es1: "entries q1 = filter (retained_authorization expected) (entries q)" and sf: "same_facts q q1"
    by (simp_all add: q1_def retain_def)
  have pc: "pending_cohorts q1 cs = pending_cohorts q cs"
    by (simp add: pending_cohorts_def q1_def retain_def)
  let ?f = "map_of (rev (collected_attempts (entries q1)))"
  consider (all) "expected \<noteq> []" "\<forall>a \<in> set expected. ?f a \<noteq> None"
    | (none) "\<not> (expected \<noteq> [] \<and> (\<forall>a \<in> set expected. ?f a \<noteq> None))"
        "next_actionable_index q1 cs df = None"
    | (some) i where "\<not> (expected \<noteq> [] \<and> (\<forall>a \<in> set expected. ?f a \<noteq> None))"
        "next_actionable_index q1 cs df = Some i"
    by blast
  then show ?thesis
  proof cases
    case all
    let ?q = "retain (\<lambda>e. \<not> is_authorization e) q1"
    have "take_next q cs df expected fresh = Inr (Some (AuthorizationResume (map (\<lambda>a. the (?f a)) expected)), ?q)"
      using all by (simp add: take_next_def q1_def [symmetric] Let_def)
    moreover have "taken_from (entries q1) (filter is_authorization (entries q1)) (entries ?q)"
      using filter_partition by (simp add: taken_from_def retain_def)
    moreover have "same_facts q ?q" using sf by (simp add: same_facts_def retain_def)
    moreover note take_next_collected [OF inv all(1) q1_def all(2)]
    ultimately show ?thesis unfolding es1 [symmetric] by blast
  next
    case none
    have "take_next q cs df expected fresh = Inr (None, q1)"
      using none by (simp add: take_next_def q1_def [symmetric] Let_def)
    moreover have "taken_from (entries q1) [] (entries q1)" by (simp add: taken_from_def)
    ultimately show ?thesis unfolding es1 [symmetric] using sf by (metis delivers.simps(1) option.distinct(1))
  next
    case (some i)
    from some(2) have i: "i < length (entries q1)"
      and act: "is_actionable (pending_cohorts q1 cs) cs df (entries q1 ! i)"
      and lo: "\<forall>j<i. \<not> is_actionable (pending_cohorts q1 cs) cs df (entries q1 ! j)"
      unfolding next_actionable_index_def by (simp_all add: find_index_eq_Some_iff)
    obtain sel q' taken where r: "take_selection_at q1 i cs fresh = Inr (sel, q')"
      and s: "selects q1 i cs sel q' taken"
      using take_selection_at_selects [OF i] by blast
    have tn: "take_next q cs df expected fresh = Inr (Some sel, q')"
      using some r by (auto simp: take_next_def q1_def [symmetric] Let_def)
    have noctl: "\<forall>e \<in> set (take i (entries q1)). \<not> is_control e"
    proof
      fix e assume "e \<in> set (take i (entries q1))"
      then obtain j where "j < i" "e = entries q1 ! j" using i by (auto simp: in_set_conv_nth)
      with lo have "\<not> is_actionable (pending_cohorts q1 cs) cs df e" by blast
      then show "\<not> is_control e" by (cases e) simp_all
    qed
    have turn: "before_controls q1 taken \<and> whole_cohort cs taken q' \<and> \<not> df
        \<and> (\<forall>x \<in> set taken. \<forall>c. entry_cohort cs x = Some c \<longrightarrow> c \<notin> pending_cohorts q cs)"
      if t: "Some sel = Some (TurnSelection d h ss)" for d h ss
    proof -
      have b: "before_controls q1 taken" using s noctl t unfolding selects_def by blast
      have "\<exists>n x. entries q1 ! i = QDelivery n x"
      proof (rule ccontr)
        assume "\<not> ?thesis"
        with r t i show False
          by (cases "entries q1 ! i") (auto simp: take_selection_at.simps [of q1 i])
      qed
      with act have "\<not> df" and c: "\<forall>c. entry_cohort cs (entries q1 ! i) = Some c \<longrightarrow> c \<notin> pending_cohorts q cs"
        unfolding pc by auto
      with b s show ?thesis unfolding selects_def by (metis empty_iff insert_iff option.distinct(1))
    qed
    have "taken_from (entries q1) taken (entries q') \<and> delivers (Some sel) taken"
      using s by (simp add: selects_def)
    moreover have "same_facts q q'" using s sf by (simp add: selects_def same_facts_def)
    ultimately show ?thesis using tn turn unfolding es1 [symmetric] q1_def [symmetric] by blast
  qed
qed

lemma queue_inv_take_next:
  assumes "queue_inv q" and "take_next q cs df expected fresh = Inr (s, q')"
  shows "queue_inv q' \<and> same_facts q q'"
proof -
  from take_next_spec [OF assms(1), of cs df expected fresh] assms(2)
  obtain taken where t: "taken_from (filter (retained_authorization expected) (entries q)) taken (entries q')"
    and f: "same_facts q q'" by auto
  from t have "subseq (entries q') (entries q)"
    unfolding taken_from_def using subseq_order.trans subseq_filter_left by blast
  with queue_inv_subseq [OF assms(1) _ _ f] f show ?thesis by blast
qed

interpretation queue_machine: invariant_machine queue_step queue_inv
proof
  fix q i assume inv: "queue_inv q"
  show "queue_inv (queue_step q i)"
  proof (cases i)
    case (RememberOp t)
    with inv show ?thesis by (auto simp: remember_task_def queue_inv_def)
  next
    case (SteerOp a c)
    with inv take_steering_entries [of q a c] show ?thesis
      using queue_inv_subseq [OF inv, of "filter (\<lambda>e. \<not> steers a c e) (entries q)"] by simp
  next
    case (TakeOp cs df expected fresh)
    with inv show ?thesis
      by (auto split: sum.split dest: queue_inv_take_next)
  qed (use inv in \<open>simp_all add: queue_inv_enqueue queue_inv_control queue_inv_authorize
        queue_inv_rewrite queue_inv_cancel\<close>)
qed

section \<open>The properties of the queue\<close>

definition sample_queue :: input_queue where
  "sample_queue = foldl queue_step empty_queue
     [EnqueueOp plain_delivery, ControlOp Compact, EnqueueOp plain_delivery]"

lemma sample_queue_inv: "queue_inv sample_queue"
  unfolding sample_queue_def by (rule queue_machine.run_inv [OF queue_inv_empty])

text \<open>C4: Whatever sequence of admissions, cancellations, steering and selections a session runs,
  the queue stays in admission order, holds at most one entry per authorization attempt and per
  task identity, and holds nothing of a cancelled task.\<close>

theorem reachable_queue_valid: "queue_inv (foldl queue_step empty_queue ops)"
  by (rule queue_machine.run_inv [OF queue_inv_empty])

text \<open>C3: Selecting the next input never throws, and an entry leaves the queue in two ways only: the
  selection hands it over, or it is a stale authorization callback, of no attempt still expected. The rest
  keeps its order, and the remembered identities, cancellations and sequence are untouched.\<close>

theorem take_next_conserves:
  assumes "queue_inv q"
  shows "\<exists>sel q' taken. take_next q cs df expected fresh = Inr (sel, q')
     \<and> mset (filter (retained_authorization expected) (entries q)) = mset taken + mset (entries q')
     \<and> subseq (entries q') (entries q) \<and> delivers sel taken \<and> same_facts q q'"
proof -
  obtain sel q' taken where r: "take_next q cs df expected fresh = Inr (sel, q')"
    and t: "taken_from (filter (retained_authorization expected) (entries q)) taken (entries q')"
    and f: "same_facts q q'" and d: "delivers sel taken"
    using take_next_spec [OF assms] by blast
  have "subseq (entries q') (entries q)"
    using t unfolding taken_from_def using subseq_order.trans subseq_filter_left by blast
  with r t f d show ?thesis unfolding taken_from_def by blast
qed

text \<open>Two deliveries with a control between them: the first becomes a turn, the others stay.\<close>

lemma sample_taken:
  "take_next sample_queue [] False [] None =
    Inr (Some (TurnSelection plain_delivery False [0]),
      sample_queue\<lparr>entries := [QControl 1 Compact, QDelivery 2 plain_delivery]\<rparr>)"
  by code_simp

theorem take_next_conserves_witness:
  "\<exists>taken. mset (entries sample_queue) = mset taken + {#QControl 1 Compact, QDelivery 2 plain_delivery#}
     \<and> delivers (Some (TurnSelection plain_delivery False [0])) taken"
proof -
  have "filter (retained_authorization []) (entries sample_queue) = entries sample_queue"
    by code_simp
  with take_next_conserves [OF sample_queue_inv, of "[]" False "[]" None] show ?thesis
    unfolding sample_taken by auto
qed

text \<open>A selected turn never overtakes a queued control: every control still in the queue was
  admitted after every entry of the turn.\<close>

lemma turn_does_not_overtake_controls:
  assumes inv: "queue_inv q"
    and t: "take_next q cs df expected fresh = Inr (Some (TurnSelection d h ss), q')"
    and c: "QControl n c \<in> set (entries q')" and s: "s \<in> set ss"
  shows "s < n"
proof -
  define q1 where "q1 = retain (retained_authorization expected) q"
  have inv1: "queue_inv q1" unfolding q1_def by (rule queue_inv_filter [OF inv])
  from take_next_spec [OF inv, of cs df expected fresh] t obtain taken where
    b: "before_controls q1 taken" and d: "delivers (Some (TurnSelection d h ss)) taken"
    and tf: "taken_from (entries q1) taken (entries q')"
    unfolding q1_def retain_def by auto
  from b obtain pre post where es: "entries q1 = pre @ post" and sub: "set taken \<subseteq> set pre"
    and noctl: "\<forall>e \<in> set pre. \<not> is_control e" unfolding before_controls_def by blast
  from d s obtain e where e: "e \<in> set pre" "s = entry_sequence e" using sub by auto
  have "QControl n c \<in> set (entries q1)" using taken_from_subset [OF tf] c by blast
  then have "QControl n c \<in> set post" using es noctl by fastforce
  moreover have "sorted_wrt (<) (map entry_sequence pre @ map entry_sequence post)"
    using inv1 es by (simp add: queue_inv_def)
  ultimately show ?thesis using e by (fastforce simp: sorted_wrt_append)
qed

theorem turn_does_not_overtake_controls_witness:
  "QControl 1 Compact \<in> set (entries (snd (projr (take_next sample_queue [] False [] None)))) \<and> (0::nat) < 1"
proof -
  show ?thesis
    using turn_does_not_overtake_controls [OF sample_queue_inv sample_taken, of 1 Compact 0] unfolding sample_taken by simp
qed

lemma not_pending:
  "c \<notin> pending_cohorts q cs \<Longrightarrow> (t, c) \<in> set cs
   \<Longrightarrow> t @ '':ready'' \<in> seen_task_delivery_ids q \<or> t \<in> cancelled_task_ids q"
  by (force simp: pending_cohorts_def)

text \<open>What leaves the queue with a cohort is the cohort: stale callbacks belong to none.\<close>

lemma cohort_entries_taken:
  assumes t: "taken_from (filter (retained_authorization expected) es) taken es'"
    and taken: "\<forall>y \<in> set taken. entry_cohort cs y = Some c" and left: "\<forall>y \<in> set es'. entry_cohort cs y \<noteq> Some c"
  shows "mset taken = mset (filter (\<lambda>y. entry_cohort cs y = Some c) es)"
proof -
  have "retained_authorization expected y" if "entry_cohort cs y = Some c" for y
    using that by (cases y) auto
  then have "filter (\<lambda>y. entry_cohort cs y = Some c) (filter (retained_authorization expected) es)
      = filter (\<lambda>y. entry_cohort cs y = Some c) es"
    by (auto simp: filter_filter intro: filter_cong)
  then have "mset (filter (\<lambda>y. entry_cohort cs y = Some c) es)
      = filter_mset (\<lambda>y. entry_cohort cs y = Some c) (mset taken + mset es')"
    using t unfolding taken_from_def by (metis mset_filter)
  moreover have "filter_mset (\<lambda>y. entry_cohort cs y = Some c) (mset taken) = mset taken"
    using taken by (simp add: filter_mset_eq_conv)
  moreover have "filter_mset (\<lambda>y. entry_cohort cs y = Some c) (mset es') = {#}"
    using left by (simp flip: mset_filter add: filter_empty_conv)
  ultimately show ?thesis by simp
qed

text \<open>C5: A turn made of terminal task deliveries is exactly one whole cohort: the entries it combines
  come from the queue, are all the entries of that cohort the queue held and no others, none of the
  cohort stays behind, and it is not selected while a task of the cohort has neither reported nor been
  cancelled.\<close>

theorem cohort_turn_is_whole:
  assumes "queue_inv q"
    and "take_next q cs df expected fresh = Inr (Some (TurnSelection d h ss), q')"
  shows "\<exists>taken. combine taken = Inr d \<and> ss = map entry_sequence taken \<and> set taken \<subseteq> set (entries q) \<and>
     (\<forall>x \<in> set taken. \<forall>c. entry_cohort cs x = Some c \<longrightarrow>
        mset taken = mset (filter (\<lambda>y. entry_cohort cs y = Some c) (entries q))
        \<and> (\<forall>y \<in> set (entries q'). entry_cohort cs y \<noteq> Some c)
        \<and> (\<forall>t. (t, c) \<in> set cs \<longrightarrow>
             t @ '':ready'' \<in> seen_task_delivery_ids q' \<or> t \<in> cancelled_task_ids q'))"
proof -
  from take_next_spec [OF assms(1), of cs df expected fresh] assms(2) obtain taken where
    t: "taken_from (filter (retained_authorization expected) (entries q)) taken (entries q')"
    and d: "delivers (Some (TurnSelection d h ss)) taken" and w: "whole_cohort cs taken q'"
    and f: "same_facts q q'"
    and p: "\<forall>x \<in> set taken. \<forall>c. entry_cohort cs x = Some c \<longrightarrow> c \<notin> pending_cohorts q cs"
    by auto
  have dd: "combine taken = Inr d \<and> ss = map entry_sequence taken" using d by simp
  show ?thesis
  proof (intro exI conjI ballI allI impI)
    show "combine taken = Inr d" and "ss = map entry_sequence taken" using dd by auto
    have "set taken \<subseteq> set (filter (retained_authorization expected) (entries q))"
      using t unfolding taken_from_def by (metis set_mset_mono mset_subset_eq_add_left set_mset_mset)
    then show "set taken \<subseteq> set (entries q)" by auto
  next
    fix x c t assume "x \<in> set taken" "entry_cohort cs x = Some c" "(t, c) \<in> set cs"
    with p have "t @ '':ready'' \<in> seen_task_delivery_ids q \<or> t \<in> cancelled_task_ids q"
      using not_pending by blast
    then show "t @ '':ready'' \<in> seen_task_delivery_ids q' \<or> t \<in> cancelled_task_ids q'"
      using f by (simp add: same_facts_def)
  next
    fix x c assume "x \<in> set taken" "entry_cohort cs x = Some c"
    then have both: "\<forall>y \<in> set taken. entry_cohort cs y = Some c" "\<forall>y \<in> set (entries q'). entry_cohort cs y \<noteq> Some c"
      using w unfolding whole_cohort_def by blast+
    then show "mset taken = mset (filter (\<lambda>y. entry_cohort cs y = Some c) (entries q))"
      by (rule cohort_entries_taken [OF t])
    show "entry_cohort cs y \<noteq> Some c" if "y \<in> set (entries q')" for y using both(2) that by blast
  qed
qed

definition terminal_delivery :: "string \<Rightarrow> delivery" where
  "terminal_delivery t = plain_delivery\<lparr>task_delivery_id := Some (t @ '':ready:completed'')\<rparr>"

definition cohort_queue :: input_queue where
  "cohort_queue = foldl queue_step empty_queue
     [EnqueueOp (terminal_delivery ''t1''), EnqueueOp (terminal_delivery ''t2'')]"

lemma cohort_queue_inv: "queue_inv cohort_queue"
  unfolding cohort_queue_def by (rule queue_machine.run_inv [OF queue_inv_empty])

theorem cohort_turn_is_whole_witness:
  "\<exists>taken. combine taken = Inr (terminal_delivery ''t1'') \<and> [0, 1] = map entry_sequence taken"
proof -
  have t: "take_next cohort_queue [(''t1'', ''c''), (''t2'', ''c'')] False [] None =
      Inr (Some (TurnSelection (terminal_delivery ''t1'') False [0, 1]), cohort_queue\<lparr>entries := []\<rparr>)"
    by code_simp
  from cohort_turn_is_whole [OF cohort_queue_inv t] show ?thesis by (elim exE conjE) (rule exI, rule conjI)
qed

text \<open>The remembered identities and cancellations only grow.\<close>

lemma enqueue_authorization_facts:
  "seen_task_delivery_ids (enqueue_authorization q ps) = seen_task_delivery_ids q
   \<and> cancelled_task_ids (enqueue_authorization q ps) = cancelled_task_ids q"
  by (induction q ps rule: enqueue_authorization.induct) (simp_all split: option.split)

lemma queue_step_grows:
  assumes "queue_inv q"
  shows "seen_task_delivery_ids q \<subseteq> seen_task_delivery_ids (queue_step q i)
         \<and> cancelled_task_ids q \<subseteq> cancelled_task_ids (queue_step q i)"
proof (cases i)
  case (EnqueueOp d)
  then show ?thesis by (auto simp: enqueue_delivery_def admit_def split: option.split)
next
  case (RewriteOp s ps)
  then show ?thesis by (auto simp: rewrite_delivery_def replace_delivery_def split: option.split)
next
  case (SteerOp a c)
  with take_steering_entries [of q a c] show ?thesis by (simp add: same_facts_def)
next
  case (TakeOp cs df expected fresh)
  with queue_inv_take_next [OF assms, of cs df expected fresh] show ?thesis
    by (auto simp: same_facts_def split: sum.split)
qed (auto simp: remember_task_def enqueue_control_def enqueue_authorization_facts cancel_task_def retain_def)

lemma queue_run_grows:
  "queue_inv q \<Longrightarrow> seen_task_delivery_ids q \<subseteq> seen_task_delivery_ids (foldl queue_step q ops)
     \<and> cancelled_task_ids q \<subseteq> cancelled_task_ids (foldl queue_step q ops)"
proof (induction ops arbitrary: q)
  case (Cons x ops)
  from queue_step_grows [OF Cons.prems, of x] Cons.IH [OF queue_machine.step_inv [OF Cons.prems, of x]]
  show ?case by auto
qed simp

text \<open>C6: A task delivery is admitted at most once: after it was admitted, whatever its owner does with the
  queue next (a successor starts with a fresh one), a redelivery with the same task identity (for a terminal delivery, the same task in any
  terminal status) is refused.\<close>

theorem task_delivery_admitted_once:
  assumes inv: "queue_inv q" and adm: "fst (enqueue_delivery q d) \<noteq> None"
    and k: "delivery_task_key d = Some i" and k': "delivery_task_key d' = Some i'"
    and same: "deduplication_id d' i' = deduplication_id d i"
  shows "enqueue_delivery (foldl queue_step (snd (enqueue_delivery q d)) ops) d'
         = (None, foldl queue_step (snd (enqueue_delivery q d)) ops)"
proof -
  have "deduplication_id d i \<in> seen_task_delivery_ids (snd (enqueue_delivery q d))"
    using adm k by (auto simp: enqueue_delivery_def admit_def split: if_splits)
  then have "deduplication_id d i \<in> seen_task_delivery_ids (foldl queue_step (snd (enqueue_delivery q d)) ops)"
    using queue_run_grows [OF queue_inv_enqueue [OF inv]] by blast
  with k' same show ?thesis by (simp add: enqueue_delivery_def)
qed

theorem task_delivery_admitted_once_witness:
  "let q = snd (enqueue_delivery empty_queue (terminal_delivery ''t1'')) in
   enqueue_delivery q (plain_delivery\<lparr>task_delivery_id := Some ''t1:ready:failed''\<rparr>) = (None, q)"
proof -
  have "fst (enqueue_delivery empty_queue (terminal_delivery ''t1'')) \<noteq> None"
    and "delivery_task_key (terminal_delivery ''t1'') = Some ''t1:ready:completed''"
    and "delivery_task_key (plain_delivery\<lparr>task_delivery_id := Some ''t1:ready:failed''\<rparr>)
           = Some ''t1:ready:failed''"
    and "deduplication_id (plain_delivery\<lparr>task_delivery_id := Some ''t1:ready:failed''\<rparr>) ''t1:ready:failed''
         = deduplication_id (terminal_delivery ''t1'') ''t1:ready:completed''"
    by (code_simp+)
  from task_delivery_admitted_once [OF queue_inv_empty this, of "[]"] show ?thesis by (simp add: Let_def)
qed

text \<open>Cancelling a task takes effect at once and for good: none of its deliveries is queued at
  any later time, and each one that arrives is refused.\<close>

lemma cancelled_task_stays_out:
  assumes inv: "queue_inv q"
  shows "(\<forall>e \<in> set (entries (foldl queue_step (cancel_task q t) ops)). \<not> from_task t e)
     \<and> (is_task_delivery d (belongs_to t) \<longrightarrow>
          fst (enqueue_delivery (foldl queue_step (cancel_task q t) ops) d) = None)"
proof -
  define r where "r = foldl queue_step (cancel_task q t) ops"
  note c = queue_inv_cancel [OF inv, of t]
  have "t \<in> cancelled_task_ids (cancel_task q t)" by (simp add: cancel_task_def retain_def)
  then have t: "t \<in> cancelled_task_ids r" unfolding r_def using queue_run_grows [OF c] by blast
  moreover have "queue_inv r" unfolding r_def by (rule queue_machine.run_inv [OF c])
  ultimately have "\<forall>e \<in> set (entries r). \<not> from_task t e" unfolding queue_inv_def by blast
  moreover have "fst (enqueue_delivery r d) = None" if "is_task_delivery d (belongs_to t)"
    using that t by (auto simp: is_task_delivery_def enqueue_delivery_def is_cancelled_task_delivery_def
        split: option.splits)
  ultimately show ?thesis unfolding r_def by blast
qed

theorem cancelled_task_stays_out_witness:
  "fst (enqueue_delivery (cancel_task cohort_queue ''t1'') (terminal_delivery ''t1'')) = None"
proof -
  have "is_task_delivery (terminal_delivery ''t1'') (belongs_to ''t1'')" by code_simp
  with cancelled_task_stays_out [OF cohort_queue_inv, of "''t1''" "[]" "terminal_delivery ''t1''"]
  show ?thesis by simp
qed

text \<open>Steering takes exactly the admitted steering deliveries, in order, and leaves every other
  entry; it yields their combination unless two of them carry a caller, and then it throws after
  the deliveries have left the queue, so they are lost (two steering messages of the same caller
  are enough).\<close>

lemma take_steering_outcome:
  "let steering = filter (steers admitted c) (entries q); (r, q') = take_steering q admitted c in
     entries q' = filter (\<lambda>e. \<not> steers admitted c e) (entries q) \<and> same_facts q q'
     \<and> (case r of
           Inr None \<Rightarrow> steering = []
         | Inr (Some s) \<Rightarrow> delivers (Some s) steering
         | Inl e \<Rightarrow> e = DifferentTurns \<and> 2 \<le> length (callers (entry_deliveries steering)))"
proof -
  define st where "st = filter (steers admitted c) (entries q)"
  obtain r q' where t: "take_steering q admitted c = (r, q')" by force
  have del: "\<forall>e \<in> set st. \<exists>n d. e = QDelivery n d"
  proof
    fix e assume "e \<in> set st"
    then have "steers admitted c e" by (simp add: st_def)
    then show "\<exists>n d. e = QDelivery n d" by (cases e) auto
  qed
  have "case r of Inr None \<Rightarrow> st = [] | Inr (Some s) \<Rightarrow> delivers (Some s) st
         | Inl e \<Rightarrow> e = DifferentTurns \<and> 2 \<le> length (callers (entry_deliveries st))"
  proof (cases "st = []")
    case True
    with t show ?thesis unfolding take_steering_def st_def [symmetric] by (auto simp: Let_def)
  next
    case False
    with del have ne: "entry_deliveries st \<noteq> []" by (cases st) auto
    show ?thesis
    proof (cases "combine st")
      case (Inr d)
      with t False del show ?thesis unfolding take_steering_def st_def [symmetric] by (auto simp: Let_def)
    next
      case (Inl e)
      with combine_defined [OF ne] have "2 \<le> length (callers (entry_deliveries st))" by fastforce
      moreover have "e = DifferentTurns" using Inl ne by (rule combine_error)
      ultimately show ?thesis
        using t False Inl unfolding take_steering_def st_def [symmetric] by (auto simp: Let_def)
    qed
  qed
  with take_steering_entries [of q admitted c] show ?thesis
    unfolding t st_def [symmetric] Let_def prod.case snd_conv by blast
qed

text \<open>A turn that merges several ordinary deliveries merges only the deliveries of one
  authenticated principal: each carries the same auth value as the first and none is a task
  delivery.\<close>

lemma merged_turn_has_one_principal:
  assumes "take_plain_turn q i cs fresh n d = Inr (TurnSelection r h ss, q')"
    and "i < length (entries q)" and "entries q ! i = QDelivery n d" and "terminal_cohort cs d = None"
  shows "ss = map entry_sequence (take (length ss) (drop i (entries q)))
     \<and> (\<forall>x \<in> set (take (length ss - 1) (drop (Suc i) (entries q))).
          \<exists>m d'. x = QDelivery m d' \<and> task_delivery_id d' = None \<and> is_authenticated d
            \<and> optional_json_equal (delivery_auth d) (delivery_auth d'))"
proof -
  obtain t q'' where t: "turn_taken q (take_plain_turn q i cs fresh n d) (QDelivery n d # t) q''"
    and run: "QDelivery n d # t = take (Suc (length t)) (drop i (entries q))"
    and joined: "\<forall>x \<in> set t. \<exists>m d'. x = QDelivery m d' \<and> task_delivery_id d' = None
          \<and> is_authenticated d \<and> optional_json_equal (delivery_auth d) (delivery_auth d')"
    by (rule take_principal_turn [OF assms(2-4)])
  have ss: "ss = map entry_sequence (QDelivery n d # t)" using t assms(1) by (auto simp: turn_taken_def)
  then have len: "length ss = Suc (length t)" by simp
  have "drop i (entries q) = QDelivery n d # drop (Suc i) (entries q)"
    using assms(2,3) by (metis Cons_nth_drop_Suc)
  with run have "t = take (length ss - 1) (drop (Suc i) (entries q))" by (simp add: len)
  then have "\<forall>x \<in> set (take (length ss - 1) (drop (Suc i) (entries q))).
          \<exists>m d'. x = QDelivery m d' \<and> task_delivery_id d' = None \<and> is_authenticated d
            \<and> optional_json_equal (delivery_auth d) (delivery_auth d')" using joined by simp
  moreover have "ss = map entry_sequence (take (length ss) (drop i (entries q)))"
    unfolding len run [symmetric] by (rule ss)
  ultimately show ?thesis by blast
qed

theorem merged_turn_has_one_principal_witness:
  "[0] = map entry_sequence (take 1 (entries sample_queue))"
proof -
  have "take_plain_turn sample_queue 0 [] None 0 plain_delivery
    = Inr (TurnSelection plain_delivery False [0],
        sample_queue\<lparr>entries := [QControl 1 Compact, QDelivery 2 plain_delivery]\<rparr>)"
    and "0 < length (entries sample_queue)" and "entries sample_queue ! 0 = QDelivery 0 plain_delivery"
    and "terminal_cohort [] plain_delivery = None"
    by (code_simp+)
  from merged_turn_has_one_principal [OF this] show ?thesis by simp
qed

definition attempt_payload :: "string \<Rightarrow> deliver_payload" where
  "attempt_payload a = \<lparr>payload_task = None,
     payload_callback = Some (JObj [(''attemptId'', JStr a)]), payload_fields = []\<rparr>"

definition interrupted_cohort_queue :: input_queue where
  "interrupted_cohort_queue = foldl queue_step empty_queue
     [EnqueueOp (terminal_delivery ''t1''), AuthorizeOp [attempt_payload ''a''],
      EnqueueOp (terminal_delivery ''t2'')]"

text \<open>An authorization callback queued between two deliveries of a ready cohort resumes the
  challenge alone, although another expected attempt has not reported; without the cohort the same
  callback waits.\<close>

lemma cohort_boundary_resumes_early:
  "(\<exists>q'. take_next interrupted_cohort_queue [(''t1'', ''c''), (''t2'', ''c'')] False [''a'', ''b''] None
     = Inr (Some (AuthorizationResume [attempt_payload ''a'']), q'))
   \<and> (\<exists>q'. take_next (enqueue_authorization empty_queue [attempt_payload ''a'']) [] False [''a'', ''b''] None
     = Inr (None, q'))"
proof
  have "take_next interrupted_cohort_queue [(''t1'', ''c''), (''t2'', ''c'')] False [''a'', ''b''] None
     = Inr (Some (AuthorizationResume [attempt_payload ''a'']),
        interrupted_cohort_queue\<lparr>entries := [QDelivery 0 (terminal_delivery ''t1''),
          QDelivery 2 (terminal_delivery ''t2'')]\<rparr>)" by code_simp
  then show "\<exists>q'. take_next interrupted_cohort_queue [(''t1'', ''c''), (''t2'', ''c'')] False [''a'', ''b''] None
     = Inr (Some (AuthorizationResume [attempt_payload ''a'']), q')" by blast
  have "take_next (enqueue_authorization empty_queue [attempt_payload ''a'']) [] False [''a'', ''b''] None
     = Inr (None, enqueue_authorization empty_queue [attempt_payload ''a''])" by code_simp
  then show "\<exists>q'. take_next (enqueue_authorization empty_queue [attempt_payload ''a'']) [] False [''a'', ''b''] None
     = Inr (None, q')" by blast
qed

end
