(* ===== verification/Usage_Limits.thy ===== *)
theory Usage_Limits
  imports Message_Parts Eve_Prelude
begin

text \<open>
  Token accounting and session limits (packages/eve/src/harness/turn-tag-state.ts,
  session-usage-limits.ts, session-limit-continuation.ts and
  shared/token-usage.ts). Token counts are integers. Costs are JavaScript floating-point numbers:
  their type is a parameter that offers zero, addition, subtraction and comparison, so that the
  definitions commit to no rounding; a theorem about exact costs asks for an ordered group.
\<close>

section \<open>Totals (turn-tag-state.ts)\<close>

record 'c token_usage_totals =
  cache_read_tokens :: int
  cache_write_tokens :: int
  cost_usd :: 'c
  input_tokens :: int
  output_tokens :: int
  saw_cost :: bool

text \<open>\<open>Partial<TokenUsageTotals>\<close>: what a provider reported; the marker of a delta is not read.\<close>

record 'c token_usage_delta =
  delta_cache_read :: "int option"
  delta_cache_write :: "int option"
  delta_cost :: "'c option"
  delta_input :: "int option"
  delta_output :: "int option"

record 'c token_usage =
  usage_cache_read :: int
  usage_cache_write :: int
  usage_cost :: "'c option"
  usage_input :: int
  usage_output :: int

record 'c turn_usage_state =
  turn_totals :: "'c token_usage_totals"
  session_totals :: "'c token_usage_totals"
  usage_turn_id :: string

definition ZERO_TOKEN_USAGE :: "('c::zero) token_usage_totals" where
  "ZERO_TOKEN_USAGE = \<lparr>cache_read_tokens = 0, cache_write_tokens = 0, cost_usd = 0,
     input_tokens = 0, output_tokens = 0, saw_cost = False\<rparr>"

record 'c runtime_limits =
  limit_cost :: "'c option"
  limit_input :: "int option"
  limit_output :: "int option"

text \<open>
  The part of the session these modules read and write: the configured limits and their three
  entries of \<open>session.state\<close>, which the code casts without a check.
\<close>

record 'c usage_session =
  max_token_cost_usd_per_session :: "'c option"
  max_input_tokens_per_session :: "int option"
  max_output_tokens_per_session :: "int option"
  harness_turn_usage :: "'c turn_usage_state option"
  reported_session_usage :: "'c token_usage_totals option"
  session_runtime_usage_limit :: "'c runtime_limits option"

definition get_turn_usage_state :: "'c usage_session \<Rightarrow> 'c turn_usage_state option" where
  "get_turn_usage_state s = harness_turn_usage s"

definition get_session_token_usage :: "('c::zero) usage_session \<Rightarrow> 'c token_usage_totals" where
  "get_session_token_usage s =
     (case get_turn_usage_state s of None \<Rightarrow> ZERO_TOKEN_USAGE | Some u \<Rightarrow> session_totals u)"

definition to_usage :: "'c token_usage_totals \<Rightarrow> 'c token_usage" where
  "to_usage t = \<lparr>usage_cache_read = cache_read_tokens t, usage_cache_write = cache_write_tokens t,
     usage_cost = (if saw_cost t then Some (cost_usd t) else None),
     usage_input = input_tokens t, usage_output = output_tokens t\<rparr>"

definition or_zero :: "('a::zero) option \<Rightarrow> 'a" where
  "or_zero x = (case x of None \<Rightarrow> 0 | Some v \<Rightarrow> v)"

definition to_token_usage_delta :: "('c::zero) token_usage_delta option \<Rightarrow> 'c token_usage_totals" where
  "to_token_usage_delta usage =
     (case usage of
        None \<Rightarrow> ZERO_TOKEN_USAGE
      | Some u \<Rightarrow>
          \<lparr>cache_read_tokens = or_zero (delta_cache_read u), cache_write_tokens = or_zero (delta_cache_write u),
           cost_usd = or_zero (delta_cost u), input_tokens = or_zero (delta_input u),
           output_tokens = or_zero (delta_output u), saw_cost = (delta_cost u \<noteq> None)\<rparr>)"

definition add_token_usage ::
    "('c::plus) token_usage_totals \<Rightarrow> 'c token_usage_totals \<Rightarrow> 'c token_usage_totals" where
  "add_token_usage base delta =
     \<lparr>cache_read_tokens = cache_read_tokens base + cache_read_tokens delta,
      cache_write_tokens = cache_write_tokens base + cache_write_tokens delta,
      cost_usd = cost_usd base + cost_usd delta,
      input_tokens = input_tokens base + input_tokens delta,
      output_tokens = output_tokens base + output_tokens delta,
      saw_cost = (saw_cost base \<or> saw_cost delta)\<rparr>"

definition accumulate_turn_usage ::
    "('c::{zero,plus}) turn_usage_state option \<Rightarrow> string \<Rightarrow> 'c token_usage_delta option \<Rightarrow> 'c turn_usage_state" where
  "accumulate_turn_usage previous turn usage =
     (let delta = to_token_usage_delta usage;
          previous_session = (case previous of None \<Rightarrow> ZERO_TOKEN_USAGE | Some p \<Rightarrow> session_totals p);
          turn_base = (case previous of
                         Some p \<Rightarrow> if usage_turn_id p = turn then turn_totals p else ZERO_TOKEN_USAGE
                       | None \<Rightarrow> ZERO_TOKEN_USAGE)
      in \<lparr>turn_totals = add_token_usage turn_base delta,
          session_totals = add_token_usage previous_session delta, usage_turn_id = turn\<rparr>)"

definition accumulate_session_usage ::
    "('c::{zero,plus}) turn_usage_state option \<Rightarrow> 'c token_usage_delta \<Rightarrow> 'c turn_usage_state" where
  "accumulate_session_usage previous usage =
     (let delta = to_token_usage_delta (Some usage);
          base = (case previous of
                    Some p \<Rightarrow> p
                  | None \<Rightarrow> \<lparr>turn_totals = ZERO_TOKEN_USAGE, session_totals = ZERO_TOKEN_USAGE, usage_turn_id = []\<rparr>)
      in base\<lparr>session_totals := add_token_usage (session_totals base) delta\<rparr>)"

definition set_turn_usage_state :: "'c usage_session \<Rightarrow> 'c turn_usage_state \<Rightarrow> 'c usage_session" where
  "set_turn_usage_state s u = s\<lparr>harness_turn_usage := Some u\<rparr>"

definition take_session_usage_delta ::
    "('c::{zero,minus}) usage_session \<Rightarrow> 'c token_usage \<times> 'c usage_session" where
  "take_session_usage_delta s =
     (let totals = get_session_token_usage s;
          reported = (case reported_session_usage s of None \<Rightarrow> ZERO_TOKEN_USAGE | Some r \<Rightarrow> r)
      in (\<lparr>usage_cache_read = cache_read_tokens totals - cache_read_tokens reported,
           usage_cache_write = cache_write_tokens totals - cache_write_tokens reported,
           usage_cost = (if saw_cost totals \<or> saw_cost reported
                         then Some (cost_usd totals - cost_usd reported) else None),
           usage_input = input_tokens totals - input_tokens reported,
           usage_output = output_tokens totals - output_tokens reported\<rparr>,
          s\<lparr>reported_session_usage := Some totals\<rparr>))"

section \<open>Limits (session-usage-limits.ts)\<close>

record 'c usage_amounts =
  amount_cost :: "'c option"
  amount_input :: int
  amount_output :: int

datatype 'c violation =
    InputViolation (violation_limit: int) (used_tokens: int)
  | OutputViolation (violation_limit: int) (used_tokens: int)
  | TokenCostViolation (limit_usd: 'c) (used_cost_usd: 'c)

definition resolve_runtime_usage_limits ::
    "'c runtime_limits \<Rightarrow> 'c runtime_limits option \<Rightarrow> 'c runtime_limits" where
  "resolve_runtime_usage_limits configured stored =
     \<lparr>limit_cost = coalesce (Option.bind stored limit_cost) (limit_cost configured),
      limit_input = coalesce (Option.bind stored limit_input) (limit_input configured),
      limit_output = coalesce (Option.bind stored limit_output) (limit_output configured)\<rparr>"

definition grant_runtime_usage_limits ::
    "('c::{zero,plus}) runtime_limits \<Rightarrow> 'c usage_amounts \<Rightarrow> 'c runtime_limits" where
  "grant_runtime_usage_limits configured usage =
     \<lparr>limit_cost = map_option (\<lambda>c. or_zero (amount_cost usage) + c) (limit_cost configured),
      limit_input = map_option (\<lambda>c. amount_input usage + c) (limit_input configured),
      limit_output = map_option (\<lambda>c. amount_output usage + c) (limit_output configured)\<rparr>"

text \<open>None stands for the value \<open>false\<close> of an uncapped axis.\<close>

record 'c usage_quota =
  quota_cost :: "'c option"
  quota_input :: "int option"
  quota_output :: "int option"

definition remaining_runtime_usage_quota ::
    "('c::{zero,minus,ord}) runtime_limits \<Rightarrow> 'c usage_amounts \<Rightarrow> 'c usage_quota" where
  "remaining_runtime_usage_quota runtime usage =
     \<lparr>quota_cost = map_option (\<lambda>l. max 0 (l - or_zero (amount_cost usage))) (limit_cost runtime),
      quota_input = map_option (\<lambda>l. max 0 (l - amount_input usage)) (limit_input runtime),
      quota_output = map_option (\<lambda>l. max 0 (l - amount_output usage)) (limit_output runtime)\<rparr>"

definition find_runtime_usage_limit_violation ::
    "('c::{zero,ord}) runtime_limits \<Rightarrow> 'c runtime_limits \<Rightarrow> 'c usage_amounts \<Rightarrow> 'c violation option" where
  "find_runtime_usage_limit_violation configured runtime usage =
     coalesce
       (case (limit_input runtime, limit_input configured) of
          (Some l, Some c) \<Rightarrow>
            if l \<le> amount_input usage then Some (InputViolation c (amount_input usage)) else None
        | _ \<Rightarrow> None)
     (coalesce
       (case (limit_output runtime, limit_output configured) of
          (Some l, Some c) \<Rightarrow>
            if l \<le> amount_output usage then Some (OutputViolation c (amount_output usage)) else None
        | _ \<Rightarrow> None)
       (case (limit_cost runtime, limit_cost configured) of
          (Some l, Some c) \<Rightarrow>
            if l \<le> or_zero (amount_cost usage)
            then Some (TokenCostViolation c (or_zero (amount_cost usage))) else None
        | _ \<Rightarrow> None))"

section \<open>Limits of a session (turn-tag-state.ts)\<close>

definition configured_session_usage_limits :: "'c usage_session \<Rightarrow> 'c runtime_limits" where
  "configured_session_usage_limits s =
     \<lparr>limit_cost = max_token_cost_usd_per_session s, limit_input = max_input_tokens_per_session s,
      limit_output = max_output_tokens_per_session s\<rparr>"

text \<open>The totals read as amounts: the cost of a total is always present.\<close>

definition amounts_of :: "'c token_usage_totals \<Rightarrow> 'c usage_amounts" where
  "amounts_of t = \<lparr>amount_cost = Some (cost_usd t), amount_input = input_tokens t, amount_output = output_tokens t\<rparr>"

definition get_session_runtime_usage_limits :: "'c usage_session \<Rightarrow> 'c runtime_limits" where
  "get_session_runtime_usage_limits s =
     resolve_runtime_usage_limits (configured_session_usage_limits s) (session_runtime_usage_limit s)"

definition bump_session_runtime_usage_limits :: "('c::{zero,plus}) usage_session \<Rightarrow> 'c usage_session" where
  "bump_session_runtime_usage_limits s =
     s\<lparr>session_runtime_usage_limit :=
         Some (grant_runtime_usage_limits (configured_session_usage_limits s)
                 (amounts_of (get_session_token_usage s)))\<rparr>"

definition get_session_remaining_usage_quota :: "('c::{zero,minus,ord}) usage_session \<Rightarrow> 'c usage_quota" where
  "get_session_remaining_usage_quota s =
     remaining_runtime_usage_quota (get_session_runtime_usage_limits s) (amounts_of (get_session_token_usage s))"

definition get_session_usage_limit_violation :: "('c::{zero,ord}) usage_session \<Rightarrow> 'c violation option" where
  "get_session_usage_limit_violation s =
     find_runtime_usage_limit_violation (configured_session_usage_limits s)
       (get_session_runtime_usage_limits s) (amounts_of (get_session_token_usage s))"

section \<open>The continuation prompt (session-limit-continuation.ts)\<close>

text \<open>
  Rendering a number is JavaScript's: the parameter \<open>number_text\<close> is \<open>String\<close> on a cost,
  \<open>fixed1 n d\<close> is \<open>(n / d).toFixed(1)\<close>, \<open>fixed6\<close> is \<open>toFixed(6)\<close> and
  \<open>tiny\<close> is the comparison of a cost with 0.000001.
\<close>

record 'c number_format =
  number_text :: "'c \<Rightarrow> string"
  fixed1 :: "int \<Rightarrow> int \<Rightarrow> string"
  fixed6 :: "'c \<Rightarrow> string"
  tiny :: "'c \<Rightarrow> bool"
  number_json :: "'c \<Rightarrow> json"

definition SESSION_LIMIT_CONTINUATION_TOOL_NAME :: string where
  "SESSION_LIMIT_CONTINUATION_TOOL_NAME = ''session_limit_continuation''"

definition SESSION_LIMIT_CONTINUE_OPTION_ID :: string where
  "SESSION_LIMIT_CONTINUE_OPTION_ID = ''continue''"

definition SESSION_LIMIT_STOP_OPTION_ID :: string where
  "SESSION_LIMIT_STOP_OPTION_ID = ''stop''"

fun violation_kind :: "'c violation \<Rightarrow> string" where
  "violation_kind (InputViolation l u) = ''input''"
| "violation_kind (OutputViolation l u) = ''output''"
| "violation_kind (TokenCostViolation l u) = ''token-cost''"

definition trim_trailing_zero :: "string \<Rightarrow> string" where
  "trim_trailing_zero rounded =
     (case strip_suffix ''.0'' rounded of Some t \<Rightarrow> t | None \<Rightarrow> rounded)"

definition format_compact_token_count :: "'c number_format \<Rightarrow> int \<Rightarrow> string" where
  "format_compact_token_count nf count =
     (if 1000000 \<le> count then trim_trailing_zero (fixed1 nf count 1000000) @ ''M''
      else if 1000 \<le> count then trim_trailing_zero (fixed1 nf count 1000) @ ''K''
      else show_int count)"

definition format_usd :: "'c number_format \<Rightarrow> 'c \<Rightarrow> string" where
  "format_usd nf c =
     (let value = (if tiny nf c then number_text nf c else fixed6 nf c);
          no_zeros = rev (dropWhile (\<lambda>d. d = CHR ''0'') (rev value))
      in ''$'' @ (case strip_suffix ''.'' no_zeros of Some t \<Rightarrow> t | None \<Rightarrow> no_zeros))"

fun reached_limit :: "'c number_format \<Rightarrow> 'c violation \<Rightarrow> string" where
  "reached_limit nf (TokenCostViolation l u) = format_usd nf l @ '' model token-cost limit per session''"
| "reached_limit nf (InputViolation l u) =
     ''input-token limit ('' @ format_compact_token_count nf l @ '') per session''"
| "reached_limit nf (OutputViolation l u) =
     ''output-token limit ('' @ format_compact_token_count nf l @ '') per session''"

definition format_session_limit_prompt :: "'c number_format \<Rightarrow> 'c violation \<Rightarrow> string" where
  "format_session_limit_prompt nf v =
     ''This session has hit the '' @ reached_limit nf v @ ''. This is a guardrail ''
     @ ''against defective long-running sessions. If session activity looks fine, ''
     @ ''just approve to keep going.''"

fun violation_used :: "'c number_format \<Rightarrow> 'c violation \<Rightarrow> string" where
  "violation_used nf (InputViolation l u) = show_int u"
| "violation_used nf (OutputViolation l u) = show_int u"
| "violation_used nf (TokenCostViolation l u) = number_text nf u"

fun violation_input :: "'c number_format \<Rightarrow> 'c violation \<Rightarrow> json" where
  "violation_input nf (TokenCostViolation l u) =
     JObj [(''kind'', JStr ''token-cost''), (''limitUsd'', number_json nf l), (''usedCostUsd'', number_json nf u)]"
| "violation_input nf v =
     JObj [(''kind'', JStr (violation_kind v)), (''limit'', JNum (violation_limit v)), (''usedTokens'', JNum (used_tokens v))]"

definition continuation_request_id :: "'c number_format \<Rightarrow> string \<Rightarrow> 'c violation \<Rightarrow> string" where
  "continuation_request_id nf session v =
     session @ '':limit:'' @ violation_kind v @ '':'' @ violation_used nf v"

definition create_session_limit_continuation_request ::
    "'c number_format \<Rightarrow> string \<Rightarrow> 'c violation \<Rightarrow> input_request" where
  "create_session_limit_continuation_request nf session v =
     (let request_id = continuation_request_id nf session v
      in \<lparr>ir_action = \<lparr>tca_call_id = request_id, tca_input = violation_input nf v,
            tca_tool_name = SESSION_LIMIT_CONTINUATION_TOOL_NAME\<rparr>,
          ir_allow_freeform = Some False, ir_display = Some Confirmation, ir_kind = SessionLimit,
          ir_options = Some
            [\<lparr>option_description = Some (if violation_kind v = ''token-cost''
                then ''Grant a fresh model token-cost budget'' else ''Grant a fresh token budget''),
              option_id = SESSION_LIMIT_CONTINUE_OPTION_ID, option_label = ''Approve'', option_style = Some Primary\<rparr>,
             \<lparr>option_description = Some ''Stop now'', option_id = SESSION_LIMIT_STOP_OPTION_ID,
              option_label = ''Stop'', option_style = Some Danger\<rparr>],
          ir_prompt = format_session_limit_prompt nf v, ir_request_id = request_id\<rparr>)"

definition is_session_limit_continuation_request :: "input_request \<Rightarrow> bool" where
  "is_session_limit_continuation_request r \<longleftrightarrow> ir_kind r = SessionLimit"

text \<open>
  The two regular expressions match up to the end of the identifier: some cut of it has the fixed
  text before and the number after. The second ignores case.
\<close>

definition is_digit :: "char \<Rightarrow> bool" where
  "is_digit c \<longleftrightarrow> c \<in> set ''0123456789''"

definition digits :: "string \<Rightarrow> bool" where
  "digits s \<longleftrightarrow> s \<noteq> [] \<and> list_all is_digit s"

definition ascii_lower :: "char \<Rightarrow> char" where
  "ascii_lower c = (if 65 \<le> (of_char c :: nat) \<and> (of_char c :: nat) \<le> 90 then char_of ((of_char c :: nat) + 32) else c)"

text \<open>Every way to cut a string in two.\<close>

definition cuts :: "string \<Rightarrow> (string \<times> string) list" where
  "cuts s = map (\<lambda>i. (take i s, drop i s)) [0..<Suc (length s)]"

definition ends_with_tokens :: "string \<Rightarrow> bool" where
  "ends_with_tokens s \<longleftrightarrow> list_ex (\<lambda>(a, b). digits b \<and> (suffix '':limit:input:'' a \<or> suffix '':limit:output:'' a)) (cuts s)"

definition is_exponent :: "string \<Rightarrow> bool" where
  "is_exponent s \<longleftrightarrow>
     (case s of [] \<Rightarrow> True
      | c # r \<Rightarrow> c = CHR ''e'' \<and>
          (case r of [] \<Rightarrow> False
           | d # ds \<Rightarrow> if d = CHR ''+'' \<or> d = CHR ''-'' then digits ds else digits r))"

definition is_fraction :: "string \<Rightarrow> bool" where
  "is_fraction s \<longleftrightarrow> s = [] \<or> (hd s = CHR ''.'' \<and> digits (tl s))"

definition is_cost_number :: "string \<Rightarrow> bool" where
  "is_cost_number s \<longleftrightarrow>
     list_ex (\<lambda>(a, r). digits a \<and> list_ex (\<lambda>(f, e). is_fraction f \<and> is_exponent e) (cuts r)) (cuts s)"

definition is_session_limit_continuation_request_id :: "string \<Rightarrow> bool" where
  "is_session_limit_continuation_request_id s \<longleftrightarrow>
     ends_with_tokens s
     \<or> list_ex (\<lambda>(a, b). suffix '':limit:token-cost:'' a \<and> is_cost_number b) (cuts (map ascii_lower s))"

definition resolve_session_limit_continuation ::
    "input_request list \<Rightarrow> input_response list \<Rightarrow> bool option" where
  "resolve_session_limit_continuation requests responses =
     (case List.find is_session_limit_continuation_request requests of
        None \<Rightarrow> None
      | Some request \<Rightarrow>
          (case List.find (\<lambda>r. response_request_id r = ir_request_id request) responses of
             None \<Rightarrow> None
           | Some response \<Rightarrow>
               if response_option_id response = Some SESSION_LIMIT_CONTINUE_OPTION_ID then Some True
               else if response_option_id response = Some SESSION_LIMIT_STOP_OPTION_ID then Some False
               else None))"

section \<open>A session over its life\<close>

datatype 'c usage_op =
    StepUsage string "'c token_usage_delta option"
  | ChildUsage "'c token_usage_delta"
  | GrantContinuation

definition usage_step :: "('c::{zero,plus}) usage_session \<Rightarrow> 'c usage_op \<Rightarrow> 'c usage_session" where
  "usage_step s i =
     (case i of
        StepUsage turn u \<Rightarrow> set_turn_usage_state s (accumulate_turn_usage (get_turn_usage_state s) turn u)
      | ChildUsage u \<Rightarrow> set_turn_usage_state s (accumulate_session_usage (get_turn_usage_state s) u)
      | GrantContinuation \<Rightarrow> bump_session_runtime_usage_limits s)"

definition op_usage :: "('c::zero) usage_op \<Rightarrow> 'c token_usage_totals" where
  "op_usage i = (case i of StepUsage turn u \<Rightarrow> to_token_usage_delta u
                 | ChildUsage u \<Rightarrow> to_token_usage_delta (Some u) | GrantContinuation \<Rightarrow> ZERO_TOKEN_USAGE)"

text \<open>A settled turn reports the delta; between two reports any operations may run.\<close>

fun report_turns ::
    "('c::{zero,plus,minus}) usage_session \<Rightarrow> 'c usage_op list list \<Rightarrow> 'c token_usage list \<times> 'c usage_session" where
  "report_turns s [] = ([], s)"
| "report_turns s (is # turns) =
     (case take_session_usage_delta (foldl usage_step s is) of
        (d, s') \<Rightarrow> (case report_turns s' turns of (ds, s'') \<Rightarrow> (d # ds, s'')))"

definition fresh_usage_session :: "'c option \<Rightarrow> int option \<Rightarrow> int option \<Rightarrow> 'c usage_session" where
  "fresh_usage_session c i j =
     \<lparr>max_token_cost_usd_per_session = c, max_input_tokens_per_session = i, max_output_tokens_per_session = j,
      harness_turn_usage = None, reported_session_usage = None, session_runtime_usage_limit = None\<rparr>"

definition reported_usage :: "('c::zero) usage_session \<Rightarrow> 'c token_usage_totals" where
  "reported_usage s = (case reported_session_usage s of None \<Rightarrow> ZERO_TOKEN_USAGE | Some r \<Rightarrow> r)"

text \<open>A cost is only non-zero where it was seen.\<close>

definition cost_seen :: "('c::zero) token_usage_totals \<Rightarrow> bool" where
  "cost_seen t \<longleftrightarrow> (saw_cost t \<or> cost_usd t = 0)"

definition usage_ok :: "('c::zero) usage_session \<Rightarrow> bool" where
  "usage_ok s \<longleftrightarrow> cost_seen (get_session_token_usage s) \<and> cost_seen (reported_usage s)"

lemma usage_step_totals:
  "get_session_token_usage (usage_step s i) =
     (if i = GrantContinuation then get_session_token_usage s
      else add_token_usage (get_session_token_usage s) (op_usage i))"
  by (cases i; cases "harness_turn_usage s")
    (auto simp: usage_step_def get_session_token_usage_def get_turn_usage_state_def set_turn_usage_state_def
      accumulate_turn_usage_def accumulate_session_usage_def Let_def op_usage_def
      bump_session_runtime_usage_limits_def)

lemma usage_step_reported: "reported_usage (usage_step s i) = reported_usage s"
  by (cases i) (simp_all add: usage_step_def set_turn_usage_state_def reported_usage_def
      bump_session_runtime_usage_limits_def)

lemma cost_seen_add: "cost_seen a \<Longrightarrow> cost_seen b \<Longrightarrow> cost_seen (add_token_usage a (b :: ('c::ab_group_add) token_usage_totals))"
  by (auto simp: cost_seen_def add_token_usage_def)

lemma op_usage_seen: "cost_seen (op_usage i)"
  by (cases i)
    (auto simp: op_usage_def cost_seen_def to_token_usage_delta_def or_zero_def ZERO_TOKEN_USAGE_def
      split: option.splits)

lemma usage_step_ok: "usage_ok s \<Longrightarrow> usage_ok (usage_step (s :: ('c::ab_group_add) usage_session) i)"
  by (simp add: usage_ok_def usage_step_reported usage_step_totals cost_seen_add op_usage_seen)

lemma usage_run_reported: "reported_usage (foldl usage_step s is) = reported_usage s"
  by (induction "is" arbitrary: s) (simp_all add: usage_step_reported)

lemma take_delta_facts:
  assumes "take_session_usage_delta s = (d, s')"
  shows "reported_usage s' = get_session_token_usage s"
    and "get_session_token_usage s' = get_session_token_usage s"
proof -
  have s': "s' = snd (take_session_usage_delta s)" using assms by simp
  show "reported_usage s' = get_session_token_usage s"
    unfolding s' by (simp add: take_session_usage_delta_def Let_def reported_usage_def)
  show "get_session_token_usage s' = get_session_token_usage s"
    unfolding s' by (simp add: take_session_usage_delta_def Let_def get_session_token_usage_def get_turn_usage_state_def)
qed

lemma take_delta_ok: "usage_ok s \<Longrightarrow> usage_ok (snd (take_session_usage_delta s))"
  using take_delta_facts [of s, OF prod.collapse [symmetric]] by (simp add: usage_ok_def)

lemma usage_ok_fresh: "usage_ok (fresh_usage_session c i j)"
  by (simp add: usage_ok_def cost_seen_def fresh_usage_session_def get_session_token_usage_def
      get_turn_usage_state_def reported_usage_def ZERO_TOKEN_USAGE_def)

text \<open>
  One axis of the accounting: a projection of the totals, one of the reported delta, and what the
  axis needs of the session (nothing, but for costs). The type of costs has any arithmetic.
\<close>

locale usage_axis =
  fixes axis :: "('c::{zero,plus,minus}) token_usage_totals \<Rightarrow> 'a::ab_group_add"
    and reported_axis :: "'c token_usage \<Rightarrow> 'a"
    and ok :: "'c usage_session \<Rightarrow> bool"
  assumes axis_add: "axis (add_token_usage t u) = axis t + axis u"
    and axis_zero: "axis ZERO_TOKEN_USAGE = 0"
    and ok_fresh: "ok (fresh_usage_session c i j)"
    and ok_step: "ok s \<Longrightarrow> ok (usage_step s k)"
    and ok_reported: "ok s \<Longrightarrow> ok (snd (take_session_usage_delta s))"
    and axis_delta: "ok s \<Longrightarrow> reported_axis (fst (take_session_usage_delta s))
          = axis (get_session_token_usage s) - axis (reported_usage s)"
begin

lemma step_axis: "axis (get_session_token_usage (usage_step s i)) = axis (get_session_token_usage s) + axis (op_usage i)"
  by (cases "i = GrantContinuation") (simp_all add: usage_step_totals axis_add op_usage_def axis_zero)

lemma run_axis:
  "axis (get_session_token_usage (foldl usage_step s is))
     = axis (get_session_token_usage s) + sum_list (map (\<lambda>i. axis (op_usage i)) is)"
  by (induction "is" arbitrary: s) (simp_all add: step_axis add.assoc)

sublocale machine: invariant_machine usage_step ok
  by unfold_locales (rule ok_step)

lemma reports_telescope:
  "ok s \<Longrightarrow> report_turns s turns = (ds, s') \<Longrightarrow>
   axis (reported_usage s') = axis (reported_usage s) + sum_list (map reported_axis ds)
   \<and> (turns \<noteq> [] \<longrightarrow> axis (reported_usage s') = axis (get_session_token_usage s)
        + sum_list (map (\<lambda>i. axis (op_usage i)) (concat turns)))"
proof (induction turns arbitrary: s ds s')
  case (Cons "is" turns)
  let ?m = "foldl usage_step s is"
  obtain d s1 where t: "take_session_usage_delta ?m = (d, s1)" by force
  obtain ds1 s2 where r: "report_turns s1 turns = (ds1, s2)" by force
  from Cons.prems(2) t r have e: "ds = d # ds1" "s' = s2" by simp_all
  have ok: "ok ?m" using Cons.prems(1) by (rule machine.run_inv)
  note td = take_delta_facts [OF t]
  have ok1: "ok s1" using ok_reported [OF ok] t by simp
  have d: "reported_axis d = axis (get_session_token_usage ?m) - axis (reported_usage ?m)"
    using axis_delta [OF ok] t by simp
  have m: "axis (get_session_token_usage ?m) = axis (get_session_token_usage s)
      + sum_list (map (\<lambda>i. axis (op_usage i)) is)" by (rule run_axis)
  from Cons.IH [OF ok1 r] have ih: "axis (reported_usage s2) = axis (reported_usage s1) + sum_list (map reported_axis ds1)"
    "turns \<noteq> [] \<Longrightarrow> axis (reported_usage s2) = axis (get_session_token_usage s1)
        + sum_list (map (\<lambda>i. axis (op_usage i)) (concat turns))" by auto
  have "axis (reported_usage s') = axis (reported_usage s) + sum_list (map reported_axis ds)"
    using ih(1) td(1) d by (simp add: e usage_run_reported add.assoc [symmetric])
  moreover have "axis (reported_usage s') = axis (get_session_token_usage s)
        + sum_list (map (\<lambda>i. axis (op_usage i)) (concat (is # turns)))"
  proof (cases "turns = []")
    case True
    with r td(1) m show ?thesis by (simp add: e)
  next
    case False
    with ih(2) td(2) m show ?thesis by (simp add: e add.assoc)
  qed
  ultimately show ?case by simp
qed simp

lemma fresh_reports:
  "sum_list (map reported_axis (fst (report_turns (fresh_usage_session c i j) turns)))
     = sum_list (map (\<lambda>u. axis (op_usage u)) (concat turns))"
proof -
  let ?s = "fresh_usage_session c i j"
  have z: "get_session_token_usage ?s = ZERO_TOKEN_USAGE" "reported_usage ?s = ZERO_TOKEN_USAGE"
    by (simp_all add: fresh_usage_session_def get_session_token_usage_def get_turn_usage_state_def reported_usage_def)
  have ok: "ok ?s" by (rule ok_fresh)
  obtain ds s' where r: "report_turns ?s turns = (ds, s')" by force
  show ?thesis
  proof (cases "turns = []")
    case False
    note t = reports_telescope [OF ok r]
    have "sum_list (map reported_axis ds) = sum_list (map (\<lambda>u. axis (op_usage u)) (concat turns))"
      using t [THEN conjunct1] t [THEN conjunct2, THEN mp, OF False]
      unfolding z axis_zero add_0 by (rule trans [OF sym])
    then show ?thesis by (simp only: r fst_conv)
  qed simp
qed

end

lemmas axis_defs = add_token_usage_def ZERO_TOKEN_USAGE_def take_session_usage_delta_def Let_def
  reported_usage_def

interpretation cache_read: usage_axis cache_read_tokens usage_cache_read "\<lambda>_. True"
  by unfold_locales (auto simp: axis_defs split: option.split)

interpretation cache_write: usage_axis cache_write_tokens usage_cache_write "\<lambda>_. True"
  by unfold_locales (auto simp: axis_defs split: option.split)

interpretation input_axis: usage_axis input_tokens usage_input "\<lambda>_. True"
  by unfold_locales (auto simp: axis_defs split: option.split)

interpretation output_axis: usage_axis output_tokens usage_output "\<lambda>_. True"
  by unfold_locales (auto simp: axis_defs split: option.split)

lemma cost_delta:
  fixes s :: "('c::ab_group_add) usage_session"
  shows "usage_ok s \<Longrightarrow> or_zero (usage_cost (fst (take_session_usage_delta s)))
     = cost_usd (get_session_token_usage s) - cost_usd (reported_usage s)"
  by (auto simp: axis_defs or_zero_def usage_ok_def cost_seen_def split: option.splits)

interpretation cost_axis: usage_axis cost_usd "\<lambda>u. or_zero (usage_cost u)" "usage_ok :: ('c::ab_group_add) usage_session \<Rightarrow> bool"
  by unfold_locales
    (simp_all add: usage_ok_fresh usage_step_ok take_delta_ok cost_delta add_token_usage_def ZERO_TOKEN_USAGE_def)

text \<open>
  Costs add up where subtraction undoes addition. They are floating-point numbers in the code, for
  which this fails (\<open>2^53 + 1 - 2^53\<close> is 0), so it is no claim about the program.
\<close>

lemma exact_costs_add_up:
  fixes c :: "('c::ab_group_add) option"
  shows "sum_list (map (\<lambda>u. or_zero (usage_cost u)) (fst (report_turns (fresh_usage_session c i j) turns)))
    = sum_list (map (\<lambda>u. cost_usd (op_usage u)) (concat turns))"
  by (rule cost_axis.fresh_reports)

text \<open>C9: Every token is reported exactly once: over the settled turns of a session the reported
  deltas add up, on each of the four token axes, to all the tokens recorded by its own steps and by
  its children, however the steps, the children and granted continuations are spread over the turns.
  Costs may have any arithmetic, that of floating-point numbers included; nothing is claimed of their
  sums.\<close>

theorem reported_usage_is_spent_usage:
  fixes c :: "('c::{zero,plus,minus}) option"
  shows "let ds = fst (report_turns (fresh_usage_session c i j) turns); us = map op_usage (concat turns) in
     sum_list (map usage_cache_read ds) = sum_list (map cache_read_tokens us)
     \<and> sum_list (map usage_cache_write ds) = sum_list (map cache_write_tokens us)
     \<and> sum_list (map usage_input ds) = sum_list (map input_tokens us)
     \<and> sum_list (map usage_output ds) = sum_list (map output_tokens us)"
  unfolding Let_def map_map comp_def
  by (intro conjI cache_read.fresh_reports cache_write.fresh_reports input_axis.fresh_reports
      output_axis.fresh_reports)

section \<open>Limits over the life of a session\<close>

text \<open>A stored limit exists only on a configured axis.\<close>

definition limits_agree :: "'c usage_session \<Rightarrow> bool" where
  "limits_agree s \<longleftrightarrow>
     (case session_runtime_usage_limit s of
        None \<Rightarrow> True
      | Some l \<Rightarrow>
          (limit_cost l = None \<longleftrightarrow> max_token_cost_usd_per_session s = None)
          \<and> (limit_input l = None \<longleftrightarrow> max_input_tokens_per_session s = None)
          \<and> (limit_output l = None \<longleftrightarrow> max_output_tokens_per_session s = None))"

lemma limits_agree_step: "limits_agree s \<Longrightarrow> limits_agree (usage_step s i)"
  by (cases i)
    (auto simp: limits_agree_def usage_step_def set_turn_usage_state_def bump_session_runtime_usage_limits_def
      grant_runtime_usage_limits_def configured_session_usage_limits_def split: option.splits)

interpretation limit_machine: invariant_machine usage_step "limits_agree :: ('c::{zero,plus}) usage_session \<Rightarrow> bool"
  by unfold_locales (rule limits_agree_step)

lemma limits_agree_fresh: "limits_agree (fresh_usage_session c i j)"
  by (simp add: limits_agree_def fresh_usage_session_def)

lemmas limit_defs = get_session_usage_limit_violation_def get_session_remaining_usage_quota_def
  find_runtime_usage_limit_violation_def remaining_runtime_usage_quota_def
  get_session_runtime_usage_limits_def resolve_runtime_usage_limits_def
  configured_session_usage_limits_def amounts_of_def coalesce_def or_zero_def

lemma max_zero_diff: "max 0 (a - b) = 0 \<longleftrightarrow> a \<le> (b :: 'c::linordered_ab_group_add)"
  by (auto simp: max_def)

lemma violation_iff_quota:
  fixes s :: "('c::linordered_ab_group_add) usage_session"
  assumes "limits_agree s"
  shows "get_session_usage_limit_violation s \<noteq> None \<longleftrightarrow>
    quota_input (get_session_remaining_usage_quota s) = Some 0
    \<or> quota_output (get_session_remaining_usage_quota s) = Some 0
    \<or> quota_cost (get_session_remaining_usage_quota s) = Some 0"
  using assms
  by (cases "session_runtime_usage_limit s"; cases "max_input_tokens_per_session s";
      cases "max_output_tokens_per_session s"; cases "max_token_cost_usd_per_session s")
    (auto simp: limit_defs limits_agree_def max_zero_diff split: option.splits)

text \<open>The gate before a model call and the budget granted to children agree: over the whole life
  of a session, a limit is violated exactly when the remaining quota of some capped axis is zero.\<close>

lemma violation_iff_quota_exhausted:
  fixes c :: "('c::linordered_ab_group_add) option"
  shows "let s = foldl usage_step (fresh_usage_session c i j) ops; q = get_session_remaining_usage_quota s in
     (get_session_usage_limit_violation s \<noteq> None)
       = (quota_input q = Some 0 \<or> quota_output q = Some 0 \<or> quota_cost q = Some 0)"
  unfolding Let_def by (rule violation_iff_quota [OF limit_machine.run_inv [OF limits_agree_fresh]])

text \<open>One approval buys one full window: after a granted continuation the remaining quota of every
  axis is its configured limit whatever the overshoot, so the session is within its limits unless
  a configured limit is not positive.\<close>

lemma grant_opens_full_window:
  fixes s :: "('c::linordered_ab_group_add) usage_session"
  shows "get_session_remaining_usage_quota (bump_session_runtime_usage_limits s)
     = \<lparr>quota_cost = map_option (max 0) (max_token_cost_usd_per_session s),
        quota_input = map_option (max 0) (max_input_tokens_per_session s),
        quota_output = map_option (max 0) (max_output_tokens_per_session s)\<rparr>
   \<and> (get_session_usage_limit_violation (bump_session_runtime_usage_limits s) = None)
     = ((\<forall>c \<in> set_option (max_token_cost_usd_per_session s). 0 < c)
        \<and> (\<forall>n \<in> set_option (max_input_tokens_per_session s) \<union> set_option (max_output_tokens_per_session s). 0 < n))"
proof
  have t: "get_session_token_usage (bump_session_runtime_usage_limits s) = get_session_token_usage s"
    by (simp add: bump_session_runtime_usage_limits_def get_session_token_usage_def get_turn_usage_state_def)
  have c: "or_zero (Some x) + y - or_zero (Some x) = y" for x y :: 'c by (simp add: or_zero_def)
  show q: "get_session_remaining_usage_quota (bump_session_runtime_usage_limits s)
     = \<lparr>quota_cost = map_option (max 0) (max_token_cost_usd_per_session s),
        quota_input = map_option (max 0) (max_input_tokens_per_session s),
        quota_output = map_option (max 0) (max_output_tokens_per_session s)\<rparr>"
    unfolding get_session_remaining_usage_quota_def t
    by (simp add: remaining_runtime_usage_quota_def get_session_runtime_usage_limits_def
        resolve_runtime_usage_limits_def bump_session_runtime_usage_limits_def
        grant_runtime_usage_limits_def configured_session_usage_limits_def amounts_of_def coalesce_def
        or_zero_def option.map_comp comp_def split: option.split)
  have "limits_agree (bump_session_runtime_usage_limits s)"
    by (simp add: limits_agree_def bump_session_runtime_usage_limits_def grant_runtime_usage_limits_def
        configured_session_usage_limits_def)
  from violation_iff_quota [OF this] show "(get_session_usage_limit_violation (bump_session_runtime_usage_limits s) = None)
     = ((\<forall>c \<in> set_option (max_token_cost_usd_per_session s). 0 < c)
        \<and> (\<forall>n \<in> set_option (max_input_tokens_per_session s) \<union> set_option (max_output_tokens_per_session s). 0 < n))"
    unfolding q
    by (cases "max_token_cost_usd_per_session s"; cases "max_input_tokens_per_session s";
        cases "max_output_tokens_per_session s") (auto simp: max_def not_le split: if_splits)
qed

section \<open>Prompts of a session are told apart\<close>

lemma digit_char_digit: "n < 10 \<Longrightarrow> is_digit (digit_char n)"
proof -
  have "list_all (\<lambda>k. is_digit (digit_char k)) [0..<10]" by code_simp
  then show "n < 10 \<Longrightarrow> is_digit (digit_char n)" by (simp add: list_all_iff)
qed

lemma digit_char_inj: "m < 10 \<Longrightarrow> n < 10 \<Longrightarrow> digit_char m = digit_char n \<Longrightarrow> m = n"
proof -
  assume "m < 10" "n < 10" "digit_char m = digit_char n"
  moreover from this have "(of_char (digit_char m) :: nat) = of_char (digit_char n)" by simp
  ultimately show "m = n" by (simp add: digit_char_def)
qed

lemma show_nat_digits: "digits (show_nat n)"
proof (induction n rule: show_nat.induct)
  case (1 n)
  then show ?case
    by (subst show_nat.simps) (auto simp: digits_def digit_char_digit)
qed

lemma show_nat_inj: "show_nat m = show_nat n \<Longrightarrow> m = n"
proof (induction m arbitrary: n rule: show_nat.induct)
  case (1 m)
  have ne: "show_nat k \<noteq> []" for k using show_nat_digits [of k] by (simp add: digits_def)
  show ?case
  proof (cases "m < 10")
    case True
    then have m: "show_nat m = [digit_char m]" by (subst show_nat.simps) simp
    have "n < 10"
    proof (rule ccontr)
      assume "\<not> n < 10"
      then have "show_nat n = show_nat (n div 10) @ [digit_char (n mod 10)]" by (subst show_nat.simps) simp
      with "1.prems" m ne [of "n div 10"] show False by simp
    qed
    then have "show_nat n = [digit_char n]" by (subst show_nat.simps) simp
    with "1.prems" m True \<open>n < 10\<close> digit_char_inj show ?thesis by simp
  next
    case False
    then have m: "show_nat m = show_nat (m div 10) @ [digit_char (m mod 10)]" by (subst show_nat.simps) simp
    have "\<not> n < 10"
    proof
      assume "n < 10"
      then have "show_nat n = [digit_char n]" by (subst show_nat.simps) simp
      with "1.prems" m ne [of "m div 10"] show False by simp
    qed
    then have "show_nat n = show_nat (n div 10) @ [digit_char (n mod 10)]" by (subst show_nat.simps) simp
    with "1.prems" m have "show_nat (m div 10) = show_nat (n div 10)" and d: "digit_char (m mod 10) = digit_char (n mod 10)"
      by simp_all
    with "1.IH" [OF False] have "m div 10 = n div 10" by blast
    moreover have "m mod 10 = n mod 10" using d by (intro digit_char_inj) simp_all
    ultimately show ?thesis by (metis mult_div_mod_eq)
  qed
qed

lemma show_int_inj: "0 \<le> a \<Longrightarrow> 0 \<le> b \<Longrightarrow> show_int a = show_int b \<Longrightarrow> a = b"
  using show_nat_inj by (fastforce simp: show_int_def)

fun token_violation :: "'c violation \<Rightarrow> bool" where
  "token_violation (TokenCostViolation l u) = False"
| "token_violation v = True"

definition counters_ok :: "('c::zero) usage_session \<Rightarrow> bool" where
  "counters_ok s \<longleftrightarrow> 0 \<le> input_tokens (get_session_token_usage s) \<and> 0 \<le> output_tokens (get_session_token_usage s)"

definition op_nonneg :: "('c::zero) usage_op \<Rightarrow> bool" where
  "op_nonneg i \<longleftrightarrow> 0 \<le> input_tokens (op_usage i) \<and> 0 \<le> output_tokens (op_usage i)"

text \<open>After a grant at \<open>s\<close>, limits stay above the usage at \<open>s\<close> by the configured window.\<close>

definition granted_since :: "('c::zero) usage_session \<Rightarrow> 'c usage_session \<Rightarrow> bool" where
  "granted_since s t \<longleftrightarrow>
     max_input_tokens_per_session t = max_input_tokens_per_session s
     \<and> max_output_tokens_per_session t = max_output_tokens_per_session s
     \<and> input_tokens (get_session_token_usage s) \<le> input_tokens (get_session_token_usage t)
     \<and> output_tokens (get_session_token_usage s) \<le> output_tokens (get_session_token_usage t)
     \<and> (\<forall>c. max_input_tokens_per_session s = Some c \<longrightarrow>
          (\<exists>l r. session_runtime_usage_limit t = Some r \<and> limit_input r = Some l
               \<and> input_tokens (get_session_token_usage s) + c \<le> l))
     \<and> (\<forall>c. max_output_tokens_per_session s = Some c \<longrightarrow>
          (\<exists>l r. session_runtime_usage_limit t = Some r \<and> limit_output r = Some l
               \<and> output_tokens (get_session_token_usage s) + c \<le> l))"

lemma bump_totals [simp]:
  "get_session_token_usage (bump_session_runtime_usage_limits s) = get_session_token_usage s"
  by (simp add: bump_session_runtime_usage_limits_def get_session_token_usage_def get_turn_usage_state_def)

lemma granted_since_grant: "granted_since s (bump_session_runtime_usage_limits s)"
  by (simp add: granted_since_def)
    (simp add: bump_session_runtime_usage_limits_def grant_runtime_usage_limits_def
      configured_session_usage_limits_def amounts_of_def)

lemma granted_since_step:
  assumes g: "granted_since s t" and n: "op_nonneg i"
  shows "granted_since s (usage_step t i)"
proof (cases i)
  case GrantContinuation
  with g show ?thesis
    unfolding granted_since_def GrantContinuation usage_step_def usage_op.case bump_totals
    by (auto simp: bump_session_runtime_usage_limits_def grant_runtime_usage_limits_def
        configured_session_usage_limits_def amounts_of_def)
next
  case (StepUsage turn u)
  have "get_session_token_usage (usage_step t i) = add_token_usage (get_session_token_usage t) (op_usage i)"
    using StepUsage by (simp add: usage_step_totals)
  with g n show ?thesis
    by (simp add: granted_since_def op_nonneg_def add_token_usage_def)
      (simp add: StepUsage usage_step_def set_turn_usage_state_def)
next
  case (ChildUsage u)
  have "get_session_token_usage (usage_step t i) = add_token_usage (get_session_token_usage t) (op_usage i)"
    using ChildUsage by (simp add: usage_step_totals)
  with g n show ?thesis
    by (simp add: granted_since_def op_nonneg_def add_token_usage_def)
      (simp add: ChildUsage usage_step_def set_turn_usage_state_def)
qed

lemma granted_since_run: "granted_since s t \<Longrightarrow> \<forall>i \<in> set ops. op_nonneg i \<Longrightarrow> granted_since s (foldl usage_step t ops)"
  by (induction ops arbitrary: t) (simp_all add: granted_since_step)

lemma violation_facts:
  "get_session_usage_limit_violation t = Some (InputViolation c u) \<Longrightarrow>
     max_input_tokens_per_session t = Some c \<and> u = input_tokens (get_session_token_usage t)
     \<and> (\<exists>l. limit_input (get_session_runtime_usage_limits t) = Some l \<and> l \<le> u)"
  "get_session_usage_limit_violation t = Some (OutputViolation c u) \<Longrightarrow>
     max_output_tokens_per_session t = Some c \<and> u = output_tokens (get_session_token_usage t)
     \<and> (\<exists>l. limit_output (get_session_runtime_usage_limits t) = Some l \<and> l \<le> u)"
  by (auto simp: get_session_usage_limit_violation_def find_runtime_usage_limit_violation_def
      configured_session_usage_limits_def amounts_of_def coalesce_def split: option.splits if_splits)

lemma later_violation_used_more:
  assumes g: "granted_since s t" and v: "get_session_usage_limit_violation s = Some v"
    and w: "get_session_usage_limit_violation t = Some w" and pos: "0 < violation_limit v"
    and tok: "token_violation v" and k: "violation_kind w = violation_kind v"
  shows "used_tokens v < used_tokens w \<and> token_violation w"
proof (cases v)
  case (InputViolation c u)
  with k obtain c' u' where w': "w = InputViolation c' u'" by (cases w) auto
  note fv = violation_facts(1) [OF v [unfolded InputViolation]]
  note fw = violation_facts(1) [OF w [unfolded w']]
  from fw obtain l where "limit_input (get_session_runtime_usage_limits t) = Some l" "l \<le> u'" by blast
  moreover from g fv obtain l' r where "session_runtime_usage_limit t = Some r" "limit_input r = Some l'"
    "u + c \<le> l'" unfolding granted_since_def by blast
  ultimately have "u + c \<le> u'"
    by (simp add: get_session_runtime_usage_limits_def resolve_runtime_usage_limits_def coalesce_def)
  with pos show ?thesis by (simp add: InputViolation w')
next
  case (OutputViolation c u)
  with k obtain c' u' where w': "w = OutputViolation c' u'" by (cases w) auto
  note fv = violation_facts(2) [OF v [unfolded OutputViolation]]
  note fw = violation_facts(2) [OF w [unfolded w']]
  from fw obtain l where "limit_output (get_session_runtime_usage_limits t) = Some l" "l \<le> u'" by blast
  moreover from g fv obtain l' r where "session_runtime_usage_limit t = Some r" "limit_output r = Some l'"
    "u + c \<le> l'" unfolding granted_since_def by blast
  ultimately have "u + c \<le> u'"
    by (simp add: get_session_runtime_usage_limits_def resolve_runtime_usage_limits_def coalesce_def)
  with pos show ?thesis by (simp add: OutputViolation w')
qed (use tok in simp)

lemma continuation_ids_equal:
  assumes "continuation_request_id nf sid v = continuation_request_id nf sid w"
  shows "violation_kind v = violation_kind w \<and> violation_used nf v = violation_used nf w"
  using assms by (cases v; cases w) (auto simp: continuation_request_id_def)

lemma cut_at: "(a, b) \<in> set (cuts (a @ b))"
proof -
  have "length a \<in> set [0..<Suc (length (a @ b))]" by simp
  then have "(\<lambda>i. (take i (a @ b), drop i (a @ b))) (length a) \<in> set (cuts (a @ b))"
    unfolding cuts_def set_map by (rule imageI)
  then show ?thesis by simp
qed

lemma token_id_recognised:
  assumes "token_violation v" and "0 \<le> used_tokens v"
  shows "is_session_limit_continuation_request_id (continuation_request_id nf sid v)"
proof -
  obtain k where v: "violation_kind v = k" "k = ''input'' \<or> k = ''output''" "violation_used nf v = show_int (used_tokens v)"
    using assms(1) by (cases v) auto
  have d: "digits (show_int (used_tokens v))" using assms(2) show_nat_digits by (simp add: show_int_def)
  let ?a = "sid @ '':limit:'' @ k @ '':''"
  have "suffix '':limit:input:'' ?a \<or> suffix '':limit:output:'' ?a"
    using v(2) by (auto intro: suffixI)
  moreover have "(?a, show_int (used_tokens v)) \<in> set (cuts (?a @ show_int (used_tokens v)))" by (rule cut_at)
  ultimately have "ends_with_tokens (?a @ show_int (used_tokens v))"
    unfolding ends_with_tokens_def list_ex_iff using d by blast
  then show ?thesis by (simp add: is_session_limit_continuation_request_id_def continuation_request_id_def v)
qed

definition continue_answer :: "string \<Rightarrow> input_response" where
  "continue_answer i = \<lparr>response_option_id = Some SESSION_LIMIT_CONTINUE_OPTION_ID, response_request_id = i, response_text = None\<rparr>"

lemma created_request:
  "ir_kind (create_session_limit_continuation_request nf sid v) = SessionLimit"
  "ir_request_id (create_session_limit_continuation_request nf sid v) = continuation_request_id nf sid v"
  by (simp_all add: create_session_limit_continuation_request_def Let_def)

lemma resolve_created:
  "resolve_session_limit_continuation [create_session_limit_continuation_request nf sid w] [continue_answer i]
     = (if i = continuation_request_id nf sid w then Some True else None)"
  by (simp add: resolve_session_limit_continuation_def is_session_limit_continuation_request_def
      created_request) (simp add: continue_answer_def)

text \<open>An approval answers only its own prompt: the identifier of a token-limit prompt is
  recognised as such, the approval carrying it grants that prompt, and it grants no prompt the
  session raises after the window was granted.\<close>

lemma approval_answers_only_its_prompt:
  fixes s :: "('c::{zero,plus,ord}) usage_session"
  assumes c: "counters_ok s" and v: "get_session_usage_limit_violation s = Some v"
    and tok: "token_violation v" and pos: "0 < violation_limit v" and n: "\<forall>i \<in> set ops. op_nonneg i"
    and w: "get_session_usage_limit_violation (foldl usage_step (bump_session_runtime_usage_limits s) ops) = Some w"
  shows "is_session_limit_continuation_request_id (continuation_request_id nf sid v)
     \<and> resolve_session_limit_continuation [create_session_limit_continuation_request nf sid v]
         [continue_answer (continuation_request_id nf sid v)] = Some True
     \<and> resolve_session_limit_continuation [create_session_limit_continuation_request nf sid w]
         [continue_answer (continuation_request_id nf sid v)] = None"
proof -
  have used: "0 \<le> used_tokens v"
  proof (cases v)
    case (InputViolation l u)
    with c violation_facts(1) [OF v [unfolded InputViolation]] show ?thesis by (simp add: counters_ok_def)
  next
    case (OutputViolation l u)
    with c violation_facts(2) [OF v [unfolded OutputViolation]] show ?thesis by (simp add: counters_ok_def)
  qed (use tok in simp)
  have "continuation_request_id nf sid v \<noteq> continuation_request_id nf sid w"
  proof
    assume e: "continuation_request_id nf sid v = continuation_request_id nf sid w"
    note i = continuation_ids_equal [OF e]
    from later_violation_used_more [OF granted_since_run [OF granted_since_grant n] v w pos tok] i
    have "used_tokens v < used_tokens w" and "token_violation w" by simp_all
    moreover have "show_int (used_tokens v) = show_int (used_tokens w)"
      using i tok \<open>token_violation w\<close> by (cases v; cases w) simp_all
    moreover have "0 \<le> used_tokens w" using used calculation(1) by linarith
    ultimately show False using show_int_inj [OF used] by fastforce
  qed
  then show ?thesis
    unfolding resolve_created using token_id_recognised [OF tok used] by simp
qed

definition spent :: "int \<Rightarrow> int token_usage_delta option" where
  "spent n = Some \<lparr>delta_cache_read = None, delta_cache_write = None, delta_cost = None,
     delta_input = Some n, delta_output = None\<rparr>"

definition over_limit_session :: "int usage_session" where
  "over_limit_session = usage_step (fresh_usage_session None (Some 10) None) (StepUsage ''t'' (spent 12))"

theorem grant_opens_full_window_witness:
  "quota_input (get_session_remaining_usage_quota over_limit_session) = Some 0
     \<and> quota_input (get_session_remaining_usage_quota (bump_session_runtime_usage_limits over_limit_session)) = Some 10
     \<and> get_session_usage_limit_violation (bump_session_runtime_usage_limits over_limit_session) = None"
proof (intro conjI)
  have l: "max_token_cost_usd_per_session over_limit_session = None"
    "max_input_tokens_per_session over_limit_session = Some 10"
    "max_output_tokens_per_session over_limit_session = None" by (code_simp+)
  show "quota_input (get_session_remaining_usage_quota over_limit_session) = Some 0" by code_simp
  show "quota_input (get_session_remaining_usage_quota (bump_session_runtime_usage_limits over_limit_session)) = Some 10"
    "get_session_usage_limit_violation (bump_session_runtime_usage_limits over_limit_session) = None"
    using grant_opens_full_window [of over_limit_session] by (simp_all add: l)
qed

theorem approval_answers_only_its_prompt_witness:
  "\<forall>nf :: int number_format.
     resolve_session_limit_continuation
       [create_session_limit_continuation_request nf ''s'' (InputViolation 10 30)]
       [continue_answer (continuation_request_id nf ''s'' (InputViolation 10 12))] = None"
proof
  fix nf :: "int number_format"
  have c: "counters_ok over_limit_session" by code_simp
  have v: "get_session_usage_limit_violation over_limit_session = Some (InputViolation 10 12)" by code_simp
  have n: "\<forall>i \<in> set [StepUsage ''t'' (spent 18)]. op_nonneg i" by code_simp
  have w: "get_session_usage_limit_violation (foldl usage_step
      (bump_session_runtime_usage_limits over_limit_session) [StepUsage ''t'' (spent 18)])
    = Some (InputViolation 10 30)" by code_simp
  have "token_violation (InputViolation 10 12 :: int violation)" "0 < violation_limit (InputViolation 10 12 :: int violation)"
    by simp_all
  from approval_answers_only_its_prompt [OF c v this n w, of nf "''s''"]
  show "resolve_session_limit_continuation
       [create_session_limit_continuation_request nf ''s'' (InputViolation 10 30)]
       [continue_answer (continuation_request_id nf ''s'' (InputViolation 10 12))] = None" by blast
qed

lemma format_usd_exponent:
  assumes "tiny nf c" and "number_text nf c = ''1e-10''"
  shows "format_usd nf c = ''$1e-1''"
proof -
  have "strip_suffix ''.'' ''1e-1'' = None" by code_simp
  with assms show ?thesis by (simp add: format_usd_def Let_def)
qed

end
