(* ===== verification/Step_Input.thy ===== *)
theory Step_Input
  imports Handle_Views Usage_Limits
begin

text \<open>
  The input of one harness step (packages/eve/src/harness/): its content and coalescing
  (messages.ts, types.ts, internal/client-context.ts) and the classes of input requests
  (input-request-class.ts). What is done with answers to pending and to stale requests is in
  Pending_Input and Input_Resolution.
\<close>

section \<open>User content (messages.ts)\<close>

text \<open>A content part is a text part or another part (image, file) carried unchanged.\<close>

datatype content_part = TextPart string | OtherPart json

datatype user_content = StringContent string | ArrayContent "content_part list"

datatype framework_message_kind =
    ContextInstruction | ContextState | ContextCompaction | MemoryLoad
  | ExecutionBackgroundTask | ExecutionContinuation | ExecutionRetry

datatype user_message_kind = PlainUser | Framework framework_message_kind

record user_model_message =
  user_content :: user_content
  user_kind :: user_message_kind
  user_metadata :: "(string \<times> json) list option"

definition create_user_message ::
    "user_message_kind \<Rightarrow> user_content \<Rightarrow> (string \<times> json) list option \<Rightarrow> user_model_message" where
  "create_user_message kind content meta = \<lparr>user_content = content, user_kind = kind, user_metadata = meta\<rparr>"

definition create_framework_user_message ::
    "framework_message_kind \<Rightarrow> user_content \<Rightarrow> (string \<times> json) list option \<Rightarrow> user_model_message" where
  "create_framework_user_message kind content meta = create_user_message (Framework kind) content meta"

definition is_framework_user_message :: "user_model_message \<Rightarrow> bool" where
  "is_framework_user_message m \<longleftrightarrow> user_kind m \<noteq> PlainUser"

text \<open>The string tags of the kinds, as the guards compare them.\<close>

fun is_framework_message_kind :: "string \<Rightarrow> framework_message_kind option" where
  "is_framework_message_kind s =
     (if s = ''context.instruction'' then Some ContextInstruction
      else if s = ''context.state'' then Some ContextState
      else if s = ''context.compaction'' then Some ContextCompaction
      else if s = ''memory.load'' then Some MemoryLoad
      else if s = ''execution.background_task'' then Some ExecutionBackgroundTask
      else if s = ''execution.continuation'' then Some ExecutionContinuation
      else if s = ''execution.retry'' then Some ExecutionRetry
      else None)"

definition is_user_message_kind :: "string \<Rightarrow> user_message_kind option" where
  "is_user_message_kind s =
     (if s = ''user'' then Some PlainUser else map_option Framework (is_framework_message_kind s))"

text \<open>A history message: only a user-role message must carry a recognised kind.\<close>

datatype history_message =
    UserHistory "string option" user_content
  | OtherHistory message_role user_content

datatype history_error = UnclassifiedUserMessage

fun validate_harness_model_messages :: "history_message list \<Rightarrow> history_error + history_message list" where
  "validate_harness_model_messages [] = Inr []"
| "validate_harness_model_messages (OtherHistory r c # ms) =
     (case validate_harness_model_messages ms of Inl e \<Rightarrow> Inl e | Inr vs \<Rightarrow> Inr (OtherHistory r c # vs))"
| "validate_harness_model_messages (UserHistory k c # ms) =
     (if (case k of None \<Rightarrow> True | Some s \<Rightarrow> is_user_message_kind s = None) then Inl UnclassifiedUserMessage
      else (case validate_harness_model_messages ms of Inl e \<Rightarrow> Inl e | Inr vs \<Rightarrow> Inr (UserHistory k c # vs)))"

definition is_blank :: "string \<Rightarrow> bool" where
  "is_blank s \<longleftrightarrow> trim s = []"

fun is_visible_part :: "content_part \<Rightarrow> bool" where
  "is_visible_part (TextPart s) = (\<not> is_blank s)"
| "is_visible_part (OtherPart p) = True"

definition normalize_user_content :: "user_content option \<Rightarrow> user_content option" where
  "normalize_user_content content =
     (case content of
        None \<Rightarrow> None
      | Some (StringContent s) \<Rightarrow> if is_blank s then None else Some (StringContent s)
      | Some (ArrayContent ps) \<Rightarrow>
          (let kept = filter is_visible_part ps
           in if kept = [] then None
              else Some (ArrayContent (if length kept = length ps then ps else kept))))"

definition normalize_model_messages :: "history_message list \<Rightarrow> history_message list" where
  "normalize_model_messages ms =
     concat (map (\<lambda>m.
       case normalize_user_content (Some (case m of UserHistory k c \<Rightarrow> c | OtherHistory r c \<Rightarrow> c)) of
         None \<Rightarrow> []
       | Some c \<Rightarrow> [case m of UserHistory k _ \<Rightarrow> UserHistory k c | OtherHistory r _ \<Rightarrow> OtherHistory r c]) ms)"

definition to_user_content_array :: "user_content \<Rightarrow> content_part list" where
  "to_user_content_array v =
     (case v of StringContent s \<Rightarrow> if s = [] then [] else [TextPart s] | ArrayContent ps \<Rightarrow> ps)"

definition append_user_content :: "user_content \<Rightarrow> user_content \<Rightarrow> user_content" where
  "append_user_content existing appended =
     (case (existing, appended) of
        (StringContent a, StringContent b) \<Rightarrow> StringContent (a @ [CHR 0x0A, CHR 0x0A] @ b)
      | _ \<Rightarrow> ArrayContent (to_user_content_array existing @ to_user_content_array appended))"

definition coalesce_message :: "user_content option \<Rightarrow> user_content option \<Rightarrow> user_content option" where
  "coalesce_message a b =
     (case (normalize_user_content a, normalize_user_content b) of
        (None, y) \<Rightarrow> y
      | (x, None) \<Rightarrow> x
      | (Some x, Some y) \<Rightarrow> Some (append_user_content x y))"

fun extract_message_text :: "user_content \<Rightarrow> string" where
  "extract_message_text (StringContent s) = s"
| "extract_message_text (ArrayContent ps) =
     concat (map (\<lambda>p. case p of TextPart s \<Rightarrow> s | OtherPart _ \<Rightarrow> []) ps)"

text \<open>The loop runs from the last message to the first.\<close>

fun last_assistant_text :: "history_message list \<Rightarrow> string option" where
  "last_assistant_text [] = None"
| "last_assistant_text (OtherHistory AssistantRole c # earlier) =
     (if is_blank (extract_message_text c) then last_assistant_text earlier else Some (extract_message_text c))"
| "last_assistant_text (_ # earlier) = last_assistant_text earlier"

definition resolve_assistant_step_text :: "history_message list \<Rightarrow> string option \<Rightarrow> string option" where
  "resolve_assistant_step_text ms fallback =
     (case last_assistant_text (rev ms) of
        Some s \<Rightarrow> Some s
      | None \<Rightarrow> (case fallback of
                   Some s \<Rightarrow> if is_blank s then None else Some s
                 | None \<Rightarrow> None))"

section \<open>Step input and its coalescing (messages.ts, client-context.ts)\<close>

text \<open>\<open>message_consumed\<close> is the flag of a \<open>ResolvedStepInput\<close>, false on inputs without it.\<close>

record step_input =
  attributed_input_responses :: "(json \<times> input_response) list option"
  input_responses :: "input_response list option"
  step_message :: "user_content option"
  message_auth :: "json option"
  step_context :: "string list option"
  output_schema :: "json option"
  runtime_action_results :: "reducer_result list option"
  framework_kind :: "framework_message_kind option"
  client_context :: "string list option"
  message_consumed :: bool

definition empty_step_input :: step_input where
  "empty_step_input = \<lparr>attributed_input_responses = None, input_responses = None, step_message = None,
     message_auth = None, step_context = None, output_schema = None, runtime_action_results = None,
     framework_kind = None, client_context = None, message_consumed = False\<rparr>"

definition attach_client_context :: "step_input \<Rightarrow> string list option \<Rightarrow> step_input" where
  "attach_client_context target ctx =
     (case ctx of None \<Rightarrow> target | Some c \<Rightarrow> target\<lparr>client_context := Some c\<rparr>)"

definition mark_framework_step_input :: "step_input \<Rightarrow> framework_message_kind \<Rightarrow> step_input" where
  "mark_framework_step_input i kind = i\<lparr>framework_kind := Some kind\<rparr>"

definition framework_message_kind_for_step_input :: "step_input option \<Rightarrow> framework_message_kind option" where
  "framework_message_kind_for_step_input i = Option.bind i framework_kind"

definition list_of :: "'a list option \<Rightarrow> 'a list" where
  "list_of xs = (case xs of None \<Rightarrow> [] | Some ys \<Rightarrow> ys)"

definition coalesce_input_responses ::
    "input_response list option \<Rightarrow> input_response list option \<Rightarrow> input_response list option" where
  "coalesce_input_responses a b =
     (if list_of a = [] \<and> list_of b = [] then None else Some (list_of a @ list_of b))"

definition coalesce_context :: "string list option \<Rightarrow> string list option \<Rightarrow> string list option" where
  "coalesce_context a b =
     (if list_of a = [] \<and> list_of b = [] then None else Some (list_of a @ list_of b))"

definition coalesce_framework_message_kind :: "step_input \<Rightarrow> step_input \<Rightarrow> framework_message_kind option" where
  "coalesce_framework_message_kind a b =
     (let ka = framework_message_kind_for_step_input (Some a);
          kb = framework_message_kind_for_step_input (Some b)
      in if step_message a = None then kb
         else if step_message b = None then ka
         else if ka = kb then ka else None)"

definition coalesce_turn_inputs :: "step_input \<Rightarrow> step_input \<Rightarrow> step_input" where
  "coalesce_turn_inputs a b =
     (let kind = coalesce_framework_message_kind a b;
          result = empty_step_input\<lparr>
            input_responses := coalesce_input_responses (input_responses a) (input_responses b),
            step_message := coalesce_message (step_message a) (step_message b),
            step_context := coalesce_context (step_context a) (step_context b),
            output_schema := coalesce (output_schema b) (output_schema a)\<rparr>
      in attach_client_context
           (case kind of None \<Rightarrow> result | Some k \<Rightarrow> mark_framework_step_input result k)
           (coalesce_context (client_context a) (client_context b)))"

definition create_turn_input_messages :: "step_input option \<Rightarrow> user_model_message list" where
  "create_turn_input_messages i =
     (let context_messages =
            map (\<lambda>c. create_framework_user_message ContextInstruction (StringContent c) None)
              (list_of (Option.bind i client_context) @ list_of (Option.bind i step_context))
      in case normalize_user_content (Option.bind i step_message) of
           None \<Rightarrow> context_messages
         | Some content \<Rightarrow>
             context_messages @
               [case framework_message_kind_for_step_input i of
                  None \<Rightarrow> create_user_message PlainUser content None
                | Some kind \<Rightarrow> create_framework_user_message kind content None])"

section \<open>Classes of input requests (input-request-class.ts)\<close>

definition is_approval_request :: "input_request \<Rightarrow> bool" where
  "is_approval_request r \<longleftrightarrow> ir_kind r = ToolApproval"

datatype input_request_class = Dismissable | RequiredClass

fun classify_input_request_kind :: "input_request_kind \<Rightarrow> input_request_class" where
  "classify_input_request_kind ToolApproval = RequiredClass"
| "classify_input_request_kind SessionLimit = RequiredClass"
| "classify_input_request_kind Question = Dismissable"

definition classify_input_request :: "input_request \<Rightarrow> input_request_class" where
  "classify_input_request r = classify_input_request_kind (ir_kind r)"

end
