(* ===== verification/Pending_Input.thy ===== *)
theory Pending_Input
  imports Step_Input
begin

text \<open>
  Input a parked session waits for (packages/eve/src/harness/): the pending request batches and
  the deferred step input of pending-input-batches.ts, and the two passes of
  stale-input-responses.ts over responses whose request is not pending.
\<close>

section \<open>Pending batches (pending-input-batches.ts)\<close>

record batch_event =
  batch_sequence :: nat
  batch_step_index :: nat
  batch_turn :: string

record pending_batch =
  batch_event :: "batch_event option"
  batch_root_turn :: "string option"
  batch_requests :: "input_request list"
  batch_auth_required :: "string list option"
  batch_messages :: "history_message list"

text \<open>
  The entries of \<open>session.state\<close> these functions own. A stored batch that the coercion refuses
  is None. \<open>other_state\<close> says whether another key is present: the state object becomes undefined
  when its last key is deleted.
\<close>

record pending_state =
  pending_batches :: "pending_batch option list option"
  legacy_batch :: "pending_batch option option"
  deferred_input :: "step_input option"
  other_state :: bool

record pending_session =
  pending_session_state :: "pending_state option"
  session_history :: "history_message list"

definition empty_state :: pending_state where
  "empty_state = \<lparr>pending_batches = None, legacy_batch = None, deferred_input = None, other_state = False\<rparr>"

definition spread_state :: "pending_state option \<Rightarrow> pending_state" where
  "spread_state st = (case st of None \<Rightarrow> empty_state | Some s \<Rightarrow> s)"

text \<open>\<open>Object.keys(state).length > 0 ? state : undefined\<close>.\<close>

definition drop_empty :: "pending_state \<Rightarrow> pending_state option" where
  "drop_empty s =
     (if pending_batches s = None \<and> legacy_batch s = None \<and> deferred_input s = None \<and> \<not> other_state s
      then None else Some s)"

datatype pending_error = DuplicateRequestId string

fun first_duplicate :: "string list \<Rightarrow> string list \<Rightarrow> string option" where
  "first_duplicate seen [] = None"
| "first_duplicate seen (i # is) = (if i \<in> set seen then Some i else first_duplicate (i # seen) is)"

definition batch_request_ids :: "pending_batch list \<Rightarrow> string list" where
  "batch_request_ids bs = concat (map (\<lambda>b. map ir_request_id (batch_requests b)) bs)"

definition assert_unique_request_ids :: "pending_batch list \<Rightarrow> pending_error + unit" where
  "assert_unique_request_ids bs =
     (case first_duplicate [] (batch_request_ids bs) of None \<Rightarrow> Inr () | Some i \<Rightarrow> Inl (DuplicateRequestId i))"

definition raw_batches :: "pending_state option \<Rightarrow> pending_batch list" where
  "raw_batches st =
     (case pending_batches (spread_state st) of
        Some entries \<Rightarrow> List.map_filter id entries
      | None \<Rightarrow> (case legacy_batch (spread_state st) of Some (Some b) \<Rightarrow> [b] | _ \<Rightarrow> []))"

definition get_pending_input_batches :: "pending_state option \<Rightarrow> pending_error + pending_batch list" where
  "get_pending_input_batches st =
     (case assert_unique_request_ids (raw_batches st) of
        Inl e \<Rightarrow> Inl e | Inr u \<Rightarrow> Inr (raw_batches st))"

definition has_pending_input_batch :: "pending_state option \<Rightarrow> pending_error + bool" where
  "has_pending_input_batch st = map_sum id (\<lambda>bs. bs \<noteq> []) (get_pending_input_batches st)"

definition get_pending_input_request_ids :: "pending_state option \<Rightarrow> pending_error + string list" where
  "get_pending_input_request_ids st = map_sum id batch_request_ids (get_pending_input_batches st)"

definition set_pending_input_batches ::
    "pending_session \<Rightarrow> pending_batch list \<Rightarrow> pending_error + pending_session" where
  "set_pending_input_batches s bs =
     (case assert_unique_request_ids bs of
        Inl e \<Rightarrow> Inl e
      | Inr u \<Rightarrow>
          Inr (s\<lparr>pending_session_state := drop_empty
            ((spread_state (pending_session_state s))\<lparr>legacy_batch := None,
               pending_batches := (if bs = [] then None else Some (map Some bs))\<rparr>)\<rparr>))"

text \<open>
  The batches to remove are matched by identity with a prior read; an object of the read list is
  its position there.
\<close>

definition remove_pending_input_batches ::
    "pending_session \<Rightarrow> nat set \<Rightarrow> pending_error + pending_session" where
  "remove_pending_input_batches s removed =
     (case get_pending_input_batches (pending_session_state s) of
        Inl e \<Rightarrow> Inl e
      | Inr bs \<Rightarrow> set_pending_input_batches s (nths bs (- removed)))"

text \<open>\<open>context_root\<close> is the root turn of the ambient context, used when none is given.\<close>

definition append_pending_input_batch ::
    "string option \<Rightarrow> pending_session \<Rightarrow> pending_batch \<Rightarrow> pending_error + pending_session" where
  "append_pending_input_batch context_root s b =
     (case get_pending_input_batches (pending_session_state s) of
        Inl e \<Rightarrow> Inl e
      | Inr bs \<Rightarrow>
          set_pending_input_batches s
            (bs @ [b\<lparr>batch_root_turn := coalesce (batch_root_turn b) context_root\<rparr>]))"

definition activity_root_turn_id_for_input_responses ::
    "pending_state option \<Rightarrow> string set \<Rightarrow> pending_error + string option" where
  "activity_root_turn_id_for_input_responses st ids =
     map_sum id (\<lambda>bs. Option.bind
         (List.find (\<lambda>b. \<exists>r \<in> set (batch_requests b). ir_request_id r \<in> ids) bs) batch_root_turn)
       (get_pending_input_batches st)"

definition activity_request_ids_for_root_turn :: "pending_state option \<Rightarrow> string \<Rightarrow> pending_error + string list" where
  "activity_request_ids_for_root_turn st turn =
     map_sum id (\<lambda>bs. batch_request_ids (filter (\<lambda>b. batch_root_turn b = Some turn) bs))
       (get_pending_input_batches st)"

section \<open>Deferred step input (pending-input-batches.ts)\<close>

definition get_deferred_step_input :: "pending_session \<Rightarrow> step_input option" where
  "get_deferred_step_input s = Option.bind (pending_session_state s) deferred_input"

definition has_deferred_step_input :: "pending_session \<Rightarrow> bool" where
  "has_deferred_step_input s \<longleftrightarrow> get_deferred_step_input s \<noteq> None"

definition queue_deferred_step_input :: "pending_session \<Rightarrow> step_input \<Rightarrow> pending_session" where
  "queue_deferred_step_input s i =
     s\<lparr>pending_session_state := Some ((spread_state (pending_session_state s))\<lparr>deferred_input :=
        Some (case get_deferred_step_input s of None \<Rightarrow> i | Some e \<Rightarrow> coalesce_turn_inputs e i)\<rparr>)\<rparr>"

definition clear_deferred_step_input :: "pending_session \<Rightarrow> pending_session" where
  "clear_deferred_step_input s =
     (if get_deferred_step_input s = None then s
      else s\<lparr>pending_session_state := drop_empty ((spread_state (pending_session_state s))\<lparr>deferred_input := None\<rparr>)\<rparr>)"

definition consume_deferred_step_input ::
    "step_input option \<Rightarrow> bool \<Rightarrow> pending_session \<Rightarrow> step_input option \<times> pending_session" where
  "consume_deferred_step_input i prefer_current s =
     (case get_deferred_step_input s of
        None \<Rightarrow> (i, s)
      | Some deferred \<Rightarrow>
          if prefer_current \<and> i \<noteq> None then (i, s)
          else (case i of
                  None \<Rightarrow> (Some deferred, clear_deferred_step_input s)
                | Some x \<Rightarrow> (Some (coalesce_turn_inputs deferred x), clear_deferred_step_input s)))"

section \<open>Stale responses (stale-input-responses.ts)\<close>

definition some_unless_empty :: "'a list \<Rightarrow> 'a list option" where
  "some_unless_empty xs = (if xs = [] then None else Some xs)"

definition drop_stale_session_limit_continuation_responses ::
    "string set \<Rightarrow> step_input option \<Rightarrow> step_input option" where
  "drop_stale_session_limit_continuation_responses pending i =
     (case i of
        None \<Rightarrow> None
      | Some x \<Rightarrow>
          (let responses = list_of (input_responses x);
               attributed = list_of (attributed_input_responses x);
               keep = (\<lambda>r. r \<in> pending \<or> \<not> is_session_limit_continuation_request_id r);
               retained = filter (\<lambda>r. keep (response_request_id r)) responses;
               retained_attributed = filter (\<lambda>(a, r). keep (response_request_id r)) attributed
           in if length retained = length responses \<and> length retained_attributed = length attributed
              then Some x
              else Some (x\<lparr>input_responses := some_unless_empty retained,
                           attributed_input_responses := some_unless_empty retained_attributed\<rparr>)))"

definition find_option :: "input_request option \<Rightarrow> string option \<Rightarrow> input_option option" where
  "find_option request i =
     Option.bind (Option.bind request ir_options) (List.find (\<lambda>c. Some (option_id c) = i))"

definition optional_field :: "string \<Rightarrow> string option \<Rightarrow> (string \<times> json) list" where
  "optional_field key v = (case v of None \<Rightarrow> [] | Some s \<Rightarrow> [(key, JStr s)])"

definition resolved_response :: "(string \<Rightarrow> input_request option) \<Rightarrow> input_response \<Rightarrow> json" where
  "resolved_response requests r =
     (let request = requests (response_request_id r);
          opt = find_option request (response_option_id r);
          selected = (case opt of
              None \<Rightarrow> []
            | Some c \<Rightarrow> [(''selectedOption'',
                JObj ([(''id'', JStr (option_id c)), (''label'', JStr (option_label c))]
                      @ optional_field ''description'' (option_description c)))]);
          details = optional_field ''optionId'' (response_option_id r) @ selected
                      @ optional_field ''text'' (response_text r)
      in JObj ([(''requestId'', JStr (response_request_id r)), (''response'', JObj details)]
           @ (case request of
                None \<Rightarrow> []
              | Some q \<Rightarrow> [(''prompt'', JStr (ir_prompt q)),
                          (''requestType'', JStr (if is_approval_request q then ''approval'' else ''question''))])))"

text \<open>\<open>pretty\<close> is \<open>JSON.stringify(value, null, 2)\<close>.\<close>

definition format_model_message ::
    "(json \<Rightarrow> string) \<Rightarrow> input_response list \<Rightarrow> (string \<Rightarrow> input_request option) \<Rightarrow> string" where
  "format_model_message pretty responses requests =
     (let may_include_approval = (\<exists>r \<in> set responses.
            case requests (response_request_id r) of None \<Rightarrow> True | Some q \<Rightarrow> is_approval_request q)
      in join_lines
        [''The user submitted the following response to an earlier interactive prompt.'',
         ''Treat it as new input at the current point in the conversation and decide whether it is still relevant.''
           @ (if may_include_approval
              then '' This does not authorize an earlier action; request approval again if that action is still needed.''
              else []),
         pretty (JArr (map (resolved_response requests) responses))])"

definition format_display_message ::
    "input_response list \<Rightarrow> (string \<Rightarrow> input_request option) \<Rightarrow> string" where
  "format_display_message responses requests =
     join_lines (map (\<lambda>r.
       case response_text r of
         Some (c # cs) \<Rightarrow> c # cs
       | _ \<Rightarrow>
           (case find_option (requests (response_request_id r)) (response_option_id r) of
              Some c \<Rightarrow> option_label c
            | None \<Rightarrow> (case response_option_id r of
                         Some i \<Rightarrow> i | None \<Rightarrow> ''Response to an earlier interactive prompt''))) responses)"

definition append_optional_user_content :: "user_content option \<Rightarrow> string \<Rightarrow> user_content" where
  "append_optional_user_content existing appended =
     (case normalize_user_content existing of
        None \<Rightarrow> StringContent appended
      | Some e \<Rightarrow> append_user_content e (StringContent appended))"

datatype stale_response_conversion =
    UnchangedInput (converted_input: "step_input option")
  | ConvertedInput user_content (converted_step: step_input)

fun conversion_input :: "stale_response_conversion \<Rightarrow> step_input option" where
  "conversion_input (UnchangedInput i) = i"
| "conversion_input (ConvertedInput d i) = Some i"

text \<open>
  \<open>historical\<close> recovers the requests of the given identifiers from the model history
  (input-extraction.ts).
\<close>

definition convert_stale_responses_to_user_message ::
    "(json \<Rightarrow> string) \<Rightarrow> (string set \<Rightarrow> string \<Rightarrow> input_request option) \<Rightarrow> string set \<Rightarrow> step_input option
     \<Rightarrow> stale_response_conversion" where
  "convert_stale_responses_to_user_message pretty historical pending i =
     (case i of
        None \<Rightarrow> UnchangedInput None
      | Some x \<Rightarrow>
          (let responses = list_of (input_responses x);
               attributed = list_of (attributed_input_responses x);
               is_current = (\<lambda>r. response_request_id r \<in> pending);
               current = filter is_current responses;
               current_attributed = filter (\<lambda>(a, r). is_current r) attributed;
               stale = filter (\<lambda>r. \<not> is_current r) responses
                         @ map snd (filter (\<lambda>(a, r). \<not> is_current r) attributed)
           in if stale = [] then UnchangedInput (Some x)
              else
                (let requests = historical (set (map response_request_id stale))
                 in ConvertedInput
                      (append_optional_user_content (step_message x) (format_display_message stale requests))
                      (x\<lparr>step_message := Some (append_optional_user_content (step_message x)
                            (format_model_message pretty stale requests)),
                         input_responses := some_unless_empty current,
                         attributed_input_responses := some_unless_empty current_attributed\<rparr>))))"

section \<open>Batches survive each other\<close>

lemma first_duplicate_None: "first_duplicate seen is = None \<longleftrightarrow> distinct is \<and> set is \<inter> set seen = {}"
  by (induction seen "is" rule: first_duplicate.induct) auto

lemma assert_unique_iff: "assert_unique_request_ids bs = Inr () \<longleftrightarrow> distinct (batch_request_ids bs)"
  using first_duplicate_None [of "[]" "batch_request_ids bs"]
  by (cases "first_duplicate [] (batch_request_ids bs)") (simp_all add: assert_unique_request_ids_def)

lemma assert_unique_cases: "assert_unique_request_ids bs = Inr () \<or> (\<exists>i. assert_unique_request_ids bs = Inl (DuplicateRequestId i))"
  by (auto simp: assert_unique_request_ids_def split: option.split)

lemma raw_after_drop:
  "raw_batches (drop_empty (s\<lparr>legacy_batch := None, pending_batches := (if bs = [] then None else Some (map Some bs))\<rparr>)) = bs"
proof -
  have "List.map_filter id (map Some bs) = bs" by (induction bs) simp_all
  then show ?thesis by (auto simp: raw_batches_def drop_empty_def spread_state_def empty_state_def)
qed

lemma deferred_after_drop: "deferred_input (spread_state (drop_empty s)) = deferred_input s"
  by (simp add: drop_empty_def spread_state_def empty_state_def)

lemma set_batches_spec:
  "if distinct (batch_request_ids bs)
   then \<exists>s'. set_pending_input_batches s bs = Inr s' \<and> get_pending_input_batches (pending_session_state s') = Inr bs
          \<and> get_deferred_step_input s' = get_deferred_step_input s \<and> session_history s' = session_history s
   else \<exists>i. set_pending_input_batches s bs = Inl (DuplicateRequestId i)"
proof (cases "distinct (batch_request_ids bs)")
  case True
  then have u: "assert_unique_request_ids bs = Inr ()" by (simp add: assert_unique_iff)
  let ?s = "s\<lparr>pending_session_state := drop_empty
            ((spread_state (pending_session_state s))\<lparr>legacy_batch := None,
               pending_batches := (if bs = [] then None else Some (map Some bs))\<rparr>)\<rparr>"
  have "set_pending_input_batches s bs = Inr ?s" by (simp add: set_pending_input_batches_def u)
  moreover have "get_pending_input_batches (pending_session_state ?s) = Inr bs"
    using u by (simp add: get_pending_input_batches_def raw_after_drop)
  moreover have "get_deferred_step_input ?s = get_deferred_step_input s"
    by (cases "pending_session_state s")
      (auto simp: get_deferred_step_input_def drop_empty_def spread_state_def empty_state_def)
  ultimately show ?thesis using True by auto
next
  case False
  then obtain i where "assert_unique_request_ids bs = Inl (DuplicateRequestId i)"
    using assert_unique_cases [of bs] by (auto simp: assert_unique_iff)
  with False show ?thesis by (simp add: set_pending_input_batches_def)
qed

lemma get_batches_distinct: "get_pending_input_batches st = Inr bs \<Longrightarrow> distinct (batch_request_ids bs)"
  using assert_unique_iff [of "raw_batches st"]
  by (cases "assert_unique_request_ids (raw_batches st)") (simp_all add: get_pending_input_batches_def)

lemma subseq_concat_map: "subseq xs ys \<Longrightarrow> subseq (concat (map f xs)) (concat (map f ys))"
  by (induction rule: list_emb.induct) (auto intro: list_emb_append_mono subseq_order.trans)

lemma subseq_nths: "subseq (nths xs A) xs"
proof (induction xs arbitrary: A)
  case (Cons x xs)
  then have "subseq (nths xs {j. Suc j \<in> A}) (x # xs)" by (blast intro: list_emb_Cons)
  with Cons show ?case by (simp add: nths_Cons)
qed simp

lemma batch_ids_simps: "batch_request_ids (bs @ [b]) = batch_request_ids bs @ map ir_request_id (batch_requests b)"
  by (simp add: batch_request_ids_def)

lemma remove_spec:
  assumes "get_pending_input_batches (pending_session_state s) = Inr bs"
  shows "\<exists>s'. remove_pending_input_batches s R = Inr s'
     \<and> get_pending_input_batches (pending_session_state s') = Inr (nths bs (- R))
     \<and> get_deferred_step_input s' = get_deferred_step_input s \<and> session_history s' = session_history s"
proof -
  have "subseq (batch_request_ids (nths bs (- R))) (batch_request_ids bs)"
    unfolding batch_request_ids_def by (rule subseq_concat_map [OF subseq_nths])
  then have "distinct (batch_request_ids (nths bs (- R)))"
    using get_batches_distinct [OF assms] by (rule subseq_distinct)
  with set_batches_spec [of "nths bs (- R)" s] show ?thesis
    by (simp add: remove_pending_input_batches_def assms)
qed

text \<open>Parking a batch of requests never disturbs the batches already open: appending is refused
  exactly when a request identifier is already pending or repeated, otherwise the earlier batches
  stay in order before the new one; removing resolved batches never fails and keeps exactly the
  others; both leave the deferred input and the history alone, and removing the appended batch
  gives the earlier batches back.\<close>

lemma pending_batches_independent:
  assumes g: "get_pending_input_batches (pending_session_state s) = Inr bs"
  shows "case append_pending_input_batch root s b of
      Inl e \<Rightarrow> \<not> distinct (batch_request_ids bs @ map ir_request_id (batch_requests b))
    | Inr s' \<Rightarrow>
        get_pending_input_batches (pending_session_state s')
          = Inr (bs @ [b\<lparr>batch_root_turn := coalesce (batch_root_turn b) root\<rparr>])
        \<and> get_deferred_step_input s' = get_deferred_step_input s \<and> session_history s' = session_history s
        \<and> (\<forall>R. \<exists>s''. remove_pending_input_batches s' R = Inr s''
             \<and> get_pending_input_batches (pending_session_state s'')
                 = Inr (nths (bs @ [b\<lparr>batch_root_turn := coalesce (batch_root_turn b) root\<rparr>]) (- R))
             \<and> get_deferred_step_input s'' = get_deferred_step_input s)
        \<and> nths (bs @ [b\<lparr>batch_root_turn := coalesce (batch_root_turn b) root\<rparr>]) (- {length bs}) = bs"
proof -
  let ?b = "b\<lparr>batch_root_turn := coalesce (batch_root_turn b) root\<rparr>"
  have a: "append_pending_input_batch root s b = set_pending_input_batches s (bs @ [?b])"
    by (simp add: append_pending_input_batch_def g)
  have ids: "batch_request_ids (bs @ [?b]) = batch_request_ids bs @ map ir_request_id (batch_requests b)"
    by (simp add: batch_ids_simps)
  have "nths bs (- {length bs}) = bs" by (rule nths_all) auto
  then have n: "nths (bs @ [?b]) (- {length bs}) = bs" by (simp add: nths_append)
  show ?thesis
  proof (cases "distinct (batch_request_ids (bs @ [?b]))")
    case True
    with set_batches_spec [of "bs @ [?b]" s] obtain s' where
      s': "set_pending_input_batches s (bs @ [?b]) = Inr s'"
      "get_pending_input_batches (pending_session_state s') = Inr (bs @ [?b])"
      "get_deferred_step_input s' = get_deferred_step_input s" "session_history s' = session_history s" by auto
    with remove_spec [OF s'(2)] n show ?thesis by (auto simp: a)
  next
    case False
    with set_batches_spec [of "bs @ [?b]" s]
    obtain i where "set_pending_input_batches s (bs @ [?b]) = Inl (DuplicateRequestId i)" by auto
    moreover have "\<not> distinct (batch_request_ids bs @ map ir_request_id (batch_requests b))"
      using False unfolding ids .
    ultimately show ?thesis unfolding a by (simp only: sum.case) simp
  qed
qed

definition question_request :: "string \<Rightarrow> input_request" where
  "question_request i = \<lparr>ir_action = \<lparr>tca_call_id = i, tca_input = JNull, tca_tool_name = ''ask''\<rparr>,
     ir_allow_freeform = None, ir_display = None, ir_kind = Question, ir_options = None, ir_prompt = ''?'',
     ir_request_id = i\<rparr>"

definition question_batch :: "string \<Rightarrow> pending_batch" where
  "question_batch i = \<lparr>batch_event = None, batch_root_turn = None, batch_requests = [question_request i],
     batch_auth_required = None, batch_messages = []\<rparr>"

definition idle_session :: pending_session where
  "idle_session = \<lparr>pending_session_state = None, session_history = []\<rparr>"

theorem pending_batches_independent_witness:
  "\<exists>s'. append_pending_input_batch None idle_session (question_batch ''q'') = Inr s'
     \<and> get_pending_input_batches (pending_session_state s') = Inr [question_batch ''q'']"
proof -
  have g: "get_pending_input_batches (pending_session_state idle_session) = Inr []" by code_simp
  have b: "(question_batch ''q'')\<lparr>batch_root_turn := coalesce (batch_root_turn (question_batch ''q'')) None\<rparr>
      = question_batch ''q''" by code_simp
  from pending_batches_independent [OF g, where root = None and b = "question_batch ''q''"] show ?thesis
    unfolding b by (cases "append_pending_input_batch None idle_session (question_batch ''q'')")
      (simp_all add: question_batch_def batch_request_ids_def)
qed

section \<open>A stale response never reaches structured processing\<close>

definition all_responses :: "step_input option \<Rightarrow> input_response list" where
  "all_responses i =
     (case i of None \<Rightarrow> []
      | Some x \<Rightarrow> list_of (input_responses x) @ map snd (list_of (attributed_input_responses x)))"

lemma list_of_some_unless_empty [simp]: "list_of (some_unless_empty xs) = xs"
  by (simp add: list_of_def some_unless_empty_def)

lemma map_snd_filter:
  "map snd (filter (\<lambda>(a, r). P r) as) = filter P (map snd as)"
  by (induction as) auto

lemma drop_stale_responses:
  "all_responses (drop_stale_session_limit_continuation_responses pending i)
     = filter (\<lambda>r. response_request_id r \<in> pending
          \<or> \<not> is_session_limit_continuation_request_id (response_request_id r)) (all_responses i)"
proof (cases i)
  case (Some x)
  let ?k = "\<lambda>r. response_request_id r \<in> pending \<or> \<not> is_session_limit_continuation_request_id (response_request_id r)"
  let ?rs = "list_of (input_responses x)" and ?as = "list_of (attributed_input_responses x)"
  have m: "map snd (filter (\<lambda>(a, r). ?k r) ?as) = filter ?k (map snd ?as)"
    by (rule map_snd_filter)
  show ?thesis
  proof (cases "length (filter ?k ?rs) = length ?rs \<and> length (filter (\<lambda>(a, r). ?k r) ?as) = length ?as")
    case True
    then have "filter ?k ?rs = ?rs" "filter (\<lambda>(a, r). ?k r) ?as = ?as"
      by (metis filter_id_conv length_filter_less less_irrefl)+
    with Some m True show ?thesis
      by (simp add: drop_stale_session_limit_continuation_responses_def Let_def all_responses_def)
  next
    case False
    with Some m show ?thesis
      by (simp add: drop_stale_session_limit_continuation_responses_def Let_def all_responses_def) blast
  qed
qed (simp add: drop_stale_session_limit_continuation_responses_def all_responses_def)

definition stale_of :: "string set \<Rightarrow> step_input option \<Rightarrow> input_response list" where
  "stale_of pending i = filter (\<lambda>r. response_request_id r \<notin> pending) (all_responses i)"

lemma convert_spec:
  "all_responses (conversion_input (convert_stale_responses_to_user_message pretty historical pending i))
     = filter (\<lambda>r. response_request_id r \<in> pending) (all_responses i)
   \<and> (stale_of pending i = [] \<longrightarrow>
        convert_stale_responses_to_user_message pretty historical pending i = UnchangedInput i)
   \<and> (stale_of pending i \<noteq> [] \<longrightarrow>
        (\<exists>d x. convert_stale_responses_to_user_message pretty historical pending i = ConvertedInput d x
         \<and> step_message x = Some (append_optional_user_content (Option.bind i step_message)
             (format_model_message pretty (stale_of pending i)
                (historical (set (map response_request_id (stale_of pending i))))))))"
proof (cases i)
  case (Some x)
  let ?c = "\<lambda>r. response_request_id r \<in> pending"
  let ?rs = "list_of (input_responses x)" and ?as = "list_of (attributed_input_responses x)"
  have m: "map snd (filter (\<lambda>(a, r). ?c r) ?as) = filter ?c (map snd ?as)"
    "map snd (filter (\<lambda>(a, r). \<not> ?c r) ?as) = filter (\<lambda>r. \<not> ?c r) (map snd ?as)"
    by (rule map_snd_filter)+
  have st: "stale_of pending i = filter (\<lambda>r. \<not> ?c r) ?rs @ map snd (filter (\<lambda>(a, r). \<not> ?c r) ?as)"
    by (simp add: stale_of_def all_responses_def Some m(2))
  show ?thesis
  proof (cases "stale_of pending i = []")
    case True
    then have "\<forall>r \<in> set (all_responses i). ?c r" by (simp add: stale_of_def filter_empty_conv)
    then have "filter ?c (all_responses i) = all_responses i" by simp
    moreover have "convert_stale_responses_to_user_message pretty historical pending i = UnchangedInput i"
      using True st Some by (simp add: convert_stale_responses_to_user_message_def Let_def)
    ultimately show ?thesis using True by simp
  next
    case False
    then have "convert_stale_responses_to_user_message pretty historical pending i =
      ConvertedInput
        (append_optional_user_content (step_message x) (format_display_message (stale_of pending i)
           (historical (set (map response_request_id (stale_of pending i))))))
        (x\<lparr>step_message := Some (append_optional_user_content (step_message x)
              (format_model_message pretty (stale_of pending i)
                 (historical (set (map response_request_id (stale_of pending i)))))),
           input_responses := some_unless_empty (filter ?c ?rs),
           attributed_input_responses := some_unless_empty (filter (\<lambda>(a, r). ?c r) ?as)\<rparr>)"
      unfolding convert_stale_responses_to_user_message_def Some option.case Let_def st [unfolded Some, symmetric]
      by (simp only: if_False)
    then show ?thesis using False m(1) by (simp add: all_responses_def Some)
  qed
qed (simp add: convert_stale_responses_to_user_message_def all_responses_def stale_of_def)

text \<open>After the two passes over stale responses, the structured responses of the step are exactly
  those whose request is pending, in order; a stale answer to a session-limit prompt is dropped
  without a trace, and every other stale answer becomes text of the user message, so no stale
  approval can act.\<close>

lemma stale_responses_become_text:
  "let dropped = drop_stale_session_limit_continuation_responses pending i;
       r = convert_stale_responses_to_user_message pretty historical pending dropped;
       stale = filter (\<lambda>x. response_request_id x \<notin> pending
                 \<and> \<not> is_session_limit_continuation_request_id (response_request_id x)) (all_responses i) in
     all_responses (conversion_input r) = filter (\<lambda>x. response_request_id x \<in> pending) (all_responses i)
     \<and> (if stale = [] then r = UnchangedInput dropped
        else \<exists>d x. r = ConvertedInput d x
           \<and> step_message x = Some (append_optional_user_content (Option.bind dropped step_message)
               (format_model_message pretty stale (historical (set (map response_request_id stale))))))"
proof -
  let ?d = "drop_stale_session_limit_continuation_responses pending i"
  let ?stale = "filter (\<lambda>x. response_request_id x \<notin> pending
                 \<and> \<not> is_session_limit_continuation_request_id (response_request_id x)) (all_responses i)"
  have s: "stale_of pending ?d = ?stale"
    unfolding stale_of_def drop_stale_responses filter_filter by (rule filter_cong) auto
  have k: "filter (\<lambda>x. response_request_id x \<in> pending) (all_responses ?d)
      = filter (\<lambda>x. response_request_id x \<in> pending) (all_responses i)"
    unfolding drop_stale_responses filter_filter by (rule filter_cong) auto
  from convert_spec [of pretty historical pending ?d] show ?thesis
    unfolding Let_def s k by simp
qed

section \<open>Coalescing of step inputs\<close>

definition content_parts :: "user_content option \<Rightarrow> content_part list" where
  "content_parts c = (case normalize_user_content c of None \<Rightarrow> [] | Some x \<Rightarrow> to_user_content_array x)"

lemma coalesce_turn_inputs_fields:
  "input_responses (coalesce_turn_inputs a b) = coalesce_input_responses (input_responses a) (input_responses b)"
  "step_context (coalesce_turn_inputs a b) = coalesce_context (step_context a) (step_context b)"
  "client_context (coalesce_turn_inputs a b) = coalesce_context (client_context a) (client_context b)"
  "output_schema (coalesce_turn_inputs a b) = coalesce (output_schema b) (output_schema a)"
  "step_message (coalesce_turn_inputs a b) = coalesce_message (step_message a) (step_message b)"
  "runtime_action_results (coalesce_turn_inputs a b) = None"
  "attributed_input_responses (coalesce_turn_inputs a b) = None"
  "message_auth (coalesce_turn_inputs a b) = None"
  by (simp_all add: coalesce_turn_inputs_def Let_def attach_client_context_def mark_framework_step_input_def
      empty_step_input_def split: option.split)

lemma list_of_coalesce:
  "list_of (coalesce_input_responses x y) = list_of x @ list_of y"
  "list_of (coalesce_context u v) = list_of u @ list_of v"
  by (simp_all add: coalesce_input_responses_def coalesce_context_def list_of_def)

lemma coalesce_message_strings:
  assumes "normalize_user_content a = Some (StringContent s)" "normalize_user_content b = Some (StringContent t)"
  shows "coalesce_message a b = Some (StringContent (s @ [CHR 0x0A, CHR 0x0A] @ t))"
  using assms by (simp add: coalesce_message_def append_user_content_def)

lemma append_user_content_parts:
  assumes "\<And>s t. x = StringContent s \<Longrightarrow> y = StringContent t \<Longrightarrow> False"
  shows "append_user_content x y = ArrayContent (to_user_content_array x @ to_user_content_array y)"
proof (cases x)
  case (StringContent s)
  with assms obtain ps where "y = ArrayContent ps" by (cases y) auto
  with StringContent show ?thesis by (simp add: append_user_content_def)
qed (simp add: append_user_content_def)

lemma coalesce_message_parts:
  assumes "\<And>s t. normalize_user_content a = Some (StringContent s) \<Longrightarrow>
             normalize_user_content b = Some (StringContent t) \<Longrightarrow> False"
  shows "(case coalesce_message a b of None \<Rightarrow> [] | Some m \<Rightarrow> to_user_content_array m)
    = content_parts a @ content_parts b"
proof (cases "normalize_user_content a")
  case None
  then show ?thesis by (simp add: coalesce_message_def content_parts_def)
next
  case x: (Some x)
  show ?thesis
  proof (cases "normalize_user_content b")
    case None
    with x show ?thesis by (simp add: coalesce_message_def content_parts_def)
  next
    case (Some y)
    from assms x Some have "append_user_content x y = ArrayContent (to_user_content_array x @ to_user_content_array y)"
      by (intro append_user_content_parts) blast
    with x Some show ?thesis by (simp add: coalesce_message_def content_parts_def to_user_content_array_def)
  qed
qed

lemma coalesce_message_spec:
  "case (normalize_user_content a, normalize_user_content b) of
     (Some (StringContent s), Some (StringContent t)) \<Rightarrow>
       coalesce_message a b = Some (StringContent (s @ [CHR 0x0A, CHR 0x0A] @ t))
   | (x, y) \<Rightarrow> (case coalesce_message a b of None \<Rightarrow> [] | Some m \<Rightarrow> to_user_content_array m)
       = content_parts a @ content_parts b"
proof (cases "\<exists>s t. normalize_user_content a = Some (StringContent s) \<and> normalize_user_content b = Some (StringContent t)")
  case True
  then show ?thesis using coalesce_message_strings by auto
next
  case False
  then have "(case coalesce_message a b of None \<Rightarrow> [] | Some m \<Rightarrow> to_user_content_array m)
      = content_parts a @ content_parts b"
    by (intro coalesce_message_parts) blast
  with False show ?thesis
    by (auto split: option.split user_content.split simp del: append_Cons)
qed

text \<open>When deferred input and the input of the step are consumed together, the step gets the
  responses and the context of both in order, both visible contents (two plain texts joined by a
  blank line) and the later output schema, and the deferral is cleared; but none of the internal
  fields survives, so runtime results delivered with the later input are lost.\<close>

lemma coalescing_keeps_public_input_only:
  assumes "get_deferred_step_input s = Some a"
  shows "let (i, s') = consume_deferred_step_input (Some b) False s in
     get_deferred_step_input s' = None
     \<and> (\<exists>c. i = Some c
       \<and> list_of (input_responses c) = list_of (input_responses a) @ list_of (input_responses b)
       \<and> list_of (step_context c) = list_of (step_context a) @ list_of (step_context b)
       \<and> list_of (client_context c) = list_of (client_context a) @ list_of (client_context b)
       \<and> output_schema c = (if output_schema b = None then output_schema a else output_schema b)
       \<and> (case (normalize_user_content (step_message a), normalize_user_content (step_message b)) of
            (Some (StringContent s), Some (StringContent t)) \<Rightarrow>
              step_message c = Some (StringContent (s @ [CHR 0x0A, CHR 0x0A] @ t))
          | (x, y) \<Rightarrow> (case step_message c of None \<Rightarrow> [] | Some m \<Rightarrow> to_user_content_array m)
              = content_parts (step_message a) @ content_parts (step_message b))
       \<and> runtime_action_results c = None \<and> attributed_input_responses c = None \<and> message_auth c = None)"
proof -
  have r: "list_of (input_responses (coalesce_turn_inputs a b)) = list_of (input_responses a) @ list_of (input_responses b)"
    "list_of (step_context (coalesce_turn_inputs a b)) = list_of (step_context a) @ list_of (step_context b)"
    "list_of (client_context (coalesce_turn_inputs a b)) = list_of (client_context a) @ list_of (client_context b)"
    by (simp_all only: coalesce_turn_inputs_fields list_of_coalesce)
  have e: "output_schema (coalesce_turn_inputs a b) = (if output_schema b = None then output_schema a else output_schema b)"
    unfolding coalesce_turn_inputs_fields by (cases "output_schema b") (simp_all add: coalesce_def)
  have d: "get_deferred_step_input (clear_deferred_step_input s) = None"
    by (simp add: get_deferred_step_input_def clear_deferred_step_input_def spread_state_def drop_empty_def
        empty_state_def Let_def split: option.split)
  have c: "consume_deferred_step_input (Some b) False s = (Some (coalesce_turn_inputs a b), clear_deferred_step_input s)"
    by (simp add: consume_deferred_step_input_def assms)
  show ?thesis
    unfolding c Let_def prod.case
    by (intro conjI exI [of _ "coalesce_turn_inputs a b"] refl d e
        coalesce_turn_inputs_fields(6-8) r(1-3))
      (unfold coalesce_turn_inputs_fields(5), rule coalesce_message_spec [unfolded prod.case])
qed

definition results_input :: step_input where
  "results_input = empty_step_input\<lparr>step_message := Some (StringContent ''b''), runtime_action_results := Some []\<rparr>"

definition deferring_session :: pending_session where
  "deferring_session = queue_deferred_step_input idle_session
     (empty_step_input\<lparr>step_message := Some (StringContent ''a'')\<rparr>)"

theorem coalescing_keeps_public_input_only_witness:
  "\<exists>c s'. consume_deferred_step_input (Some results_input) False deferring_session = (Some c, s')
     \<and> runtime_action_results results_input = Some [] \<and> runtime_action_results c = None"
proof -
  have g: "get_deferred_step_input deferring_session = Some (empty_step_input\<lparr>step_message := Some (StringContent ''a'')\<rparr>)"
    by code_simp
  obtain i s' where e: "consume_deferred_step_input (Some results_input) False deferring_session = (i, s')"
    by (cases "consume_deferred_step_input (Some results_input) False deferring_session")
  from coalescing_keeps_public_input_only [OF g, of results_input, unfolded e Let_def prod.case]
  have "\<exists>c. i = Some c \<and> runtime_action_results c = None" by blast
  moreover have "runtime_action_results results_input = Some []" by (simp add: results_input_def)
  ultimately show ?thesis using e by blast
qed

end
