(* ===== verification/Input_Resolution.thy ===== *)
theory Input_Resolution
  imports Pending_Input
begin

text \<open>
  Resolution of pending input at the start of a harness step (packages/eve/src/harness/): the routing
  of input-requests.ts, the outcomes of input-request-resolution.ts, and the resolvers of the three
  kinds of batches in hitl/ with their shared end (pending-input-resolution.ts). A batch object is its
  position in the list of pending batches together with its value.
\<close>

section \<open>Text as an answer (channel/resolve-text.ts)\<close>

text \<open>Characters are the code units below 256, on which \<open>toLowerCase\<close> changes two ranges.\<close>

definition lower_char :: "char \<Rightarrow> char" where
  "lower_char c = (let n = (of_char c :: nat) in
     if (65 \<le> n \<and> n \<le> 90) \<or> (192 \<le> n \<and> n \<le> 222 \<and> n \<noteq> 215) then char_of (n + 32) else c)"

definition to_lower :: "string \<Rightarrow> string" where
  "to_lower s = map lower_char s"

text \<open>
  \<open>Number(s)\<close> where it is an integer, for a trimmed lower-case \<open>s\<close>: decimal literals with a sign, a
  fraction and an exponent, and the prefixed literals. Decimals are exact: a literal that only becomes
  an integer by the rounding of a double is not one here.
\<close>

definition digit_value :: "char \<Rightarrow> nat" where
  "digit_value c = (let n = (of_char c :: nat) in
     if 48 \<le> n \<and> n \<le> 57 then n - 48 else if 97 \<le> n \<and> n \<le> 102 then n - 87 else 16)"

definition natural :: "nat \<Rightarrow> string \<Rightarrow> nat option" where
  "natural base s =
     (if s = [] \<or> \<not> list_all (\<lambda>c. digit_value c < base) s then None
      else Some (foldl (\<lambda>n c. n * base + digit_value c) 0 s))"

definition split_first :: "char \<Rightarrow> string \<Rightarrow> string \<times> string option" where
  "split_first c s =
     (takeWhile (\<lambda>x. x \<noteq> c) s, case dropWhile (\<lambda>x. x \<noteq> c) s of [] \<Rightarrow> None | _ # r \<Rightarrow> Some r)"

definition signed_natural :: "string \<Rightarrow> int option" where
  "signed_natural s =
     (case s of
        [] \<Rightarrow> None
      | c # r \<Rightarrow>
          if c = CHR ''-'' then map_option (\<lambda>n. - int n) (natural 10 r)
          else if c = CHR ''+'' then map_option int (natural 10 r)
          else map_option int (natural 10 s))"

definition scaled :: "nat \<Rightarrow> int \<Rightarrow> nat option" where
  "scaled m e =
     (if 0 \<le> e then Some (m * 10 ^ nat e)
      else if 10 ^ nat (- e) dvd m then Some (m div 10 ^ nat (- e)) else None)"

definition unsigned_decimal :: "string \<Rightarrow> nat option" where
  "unsigned_decimal s =
     (let (mantissa, e) = split_first CHR ''e'' s; (whole, frac) = split_first CHR ''.'' mantissa;
          fraction = (case frac of None \<Rightarrow> [] | Some f \<Rightarrow> f)
      in do {
        m \<leftarrow> natural 10 (whole @ fraction);
        x \<leftarrow> (case e of None \<Rightarrow> Some 0 | Some d \<Rightarrow> signed_natural d);
        scaled m (x - int (length fraction)) })"

definition js_integer :: "string \<Rightarrow> int option" where
  "js_integer s =
     (if prefix ''0x'' s then map_option int (natural 16 (drop 2 s))
      else if prefix ''0o'' s then map_option int (natural 8 (drop 2 s))
      else if prefix ''0b'' s then map_option int (natural 2 (drop 2 s))
      else case s of
             [] \<Rightarrow> Some 0
           | c # r \<Rightarrow>
               if c = CHR ''-'' then map_option (\<lambda>n. - int n) (unsigned_decimal r)
               else if c = CHR ''+'' then map_option int (unsigned_decimal r)
               else map_option int (unsigned_decimal s))"

definition match_option :: "string \<Rightarrow> input_option list \<Rightarrow> input_option option" where
  "match_option normalized options =
     (case List.find (\<lambda>x. to_lower (option_id x) = normalized) options of
        Some x \<Rightarrow> Some x
      | None \<Rightarrow>
          (case List.find (\<lambda>x. to_lower (option_label x) = normalized) options of
             Some x \<Rightarrow> Some x
           | None \<Rightarrow>
               (case js_integer normalized of
                  Some n \<Rightarrow> if 0 < n \<and> n \<le> int (length options) then Some (options ! nat (n - 1)) else None
                | None \<Rightarrow> None)))"

definition resolve_text_to_response :: "string \<Rightarrow> input_request \<Rightarrow> input_response option" where
  "resolve_text_to_response s r =
     (let trimmed = trim s; options = list_of (ir_options r)
      in if trimmed = [] then None
         else case (if options = [] then None else match_option (to_lower trimmed) options) of
                Some x \<Rightarrow> Some \<lparr>response_option_id = Some (option_id x), response_request_id = ir_request_id r,
                                response_text = None\<rparr>
              | None \<Rightarrow>
                  if ir_allow_freeform r = Some True \<or> options = []
                  then Some \<lparr>response_option_id = None, response_request_id = ir_request_id r, response_text = Some trimmed\<rparr>
                  else None)"

definition resolve_text_to_responses :: "string \<Rightarrow> input_request list \<Rightarrow> input_response list" where
  "resolve_text_to_responses s rs = List.map_filter (resolve_text_to_response s) rs"

section \<open>Outcomes (input-request-resolution.ts)\<close>

datatype input_status = Answered | Approved | Denied | Ignored | Invalid

definition IGNORED_INPUT_REASON :: string where
  "IGNORED_INPUT_REASON = ''Ignored because the user continued without responding.''"

definition TOOL_EXECUTION_DENIED_MESSAGE :: string where
  "TOOL_EXECUTION_DENIED_MESSAGE = ''Tool execution was denied.''"

definition TOOL_EXECUTION_INVALID_APPROVAL_MESSAGE :: string where
  "TOOL_EXECUTION_INVALID_APPROVAL_MESSAGE = ''Invalid approval response.''"

record approval_outcome =
  outcome_approved :: bool
  outcome_reason :: "string option"
  outcome_status :: input_status

definition resolve_approval_outcome :: "input_response option \<Rightarrow> approval_outcome" where
  "resolve_approval_outcome response =
     (case response of
        None \<Rightarrow> \<lparr>outcome_approved = False, outcome_reason = Some IGNORED_INPUT_REASON, outcome_status = Ignored\<rparr>
      | Some r \<Rightarrow>
          if response_option_id r = Some ''approve''
          then \<lparr>outcome_approved = True, outcome_reason = None, outcome_status = Approved\<rparr>
          else if response_option_id r = Some ''cancel'' \<or> response_option_id r = Some ''deny''
          then \<lparr>outcome_approved = False, outcome_reason = Some TOOL_EXECUTION_DENIED_MESSAGE, outcome_status = Denied\<rparr>
          else \<lparr>outcome_approved = False, outcome_reason = Some TOOL_EXECUTION_INVALID_APPROVAL_MESSAGE,
                outcome_status = Invalid\<rparr>)"

text \<open>The map of the responses: the last one of a request counts.\<close>

definition response_for :: "input_response list \<Rightarrow> string \<Rightarrow> input_response option" where
  "response_for rs i = map_of (map (\<lambda>r. (response_request_id r, r)) (rev rs)) i"

record resolved_input =
  resolved_status :: input_status
  resolved_request :: input_request
  resolved_answer :: "input_response option"

record resolved_batch =
  resolved_event :: batch_event
  resolved_inputs_of :: "resolved_input list"

definition build_resolved_input_batch :: "pending_batch \<Rightarrow> input_response list \<Rightarrow> resolved_batch option" where
  "build_resolved_input_batch b rs =
     (case batch_event b of
        None \<Rightarrow> None
      | Some ev \<Rightarrow> Some \<lparr>resolved_event = ev, resolved_inputs_of = map (\<lambda>q.
          let r = response_for rs (ir_request_id q)
          in \<lparr>resolved_status = (if is_approval_request q then outcome_status (resolve_approval_outcome r)
                                 else if r = None then Ignored else Answered),
              resolved_request = q, resolved_answer = r\<rparr>) (batch_requests b)\<rparr>)"

section \<open>The shared end of the resolvers (hitl/pending-input-resolution.ts)\<close>

text \<open>
  The session with the entry \<open>eve.runtime.hitl.approvedTools\<close> beside the entries of the pending input;
  while it is present the state of the pending input has another key.
\<close>

record hitl_session =
  hitl_pending :: pending_session
  approved_value :: "json option"

type_synonym indexed_batch = "nat \<times> pending_batch"

datatype resolve_error = PendingInputError pending_error | MixedSessionLimitBatch

datatype resolve_outcome = ResolvedOutcome | ContinueOutcome | UnresolvedOutcome

record rejected_result =
  rejected_call :: string
  rejected_request :: string
  rejected_status :: input_status
  rejected_message :: string
  rejected_tool :: string

record rejected_batch =
  rejected_event :: batch_event
  rejected_results :: "rejected_result list"

record resolve_result =
  consumed_message :: bool
  deferred_context :: bool
  deferred_message :: bool
  limit_continuation :: "bool option"
  result_outcome :: resolve_outcome
  result_messages :: "history_message list"
  rejected_actions :: "rejected_batch list"
  resolved_inputs :: "resolved_batch list"
  result_session :: hitl_session

definition plain_result :: "resolve_outcome \<Rightarrow> history_message list \<Rightarrow> hitl_session \<Rightarrow> resolve_result" where
  "plain_result out ms s =
     \<lparr>consumed_message = False, deferred_context = False, deferred_message = False, limit_continuation = None,
      result_outcome = out, result_messages = ms, rejected_actions = [], resolved_inputs = [], result_session = s\<rparr>"

definition queue_deferred :: "hitl_session \<Rightarrow> step_input \<Rightarrow> hitl_session" where
  "queue_deferred s i = s\<lparr>hitl_pending := queue_deferred_step_input (hitl_pending s) i\<rparr>"

definition remove_batches :: "hitl_session \<Rightarrow> indexed_batch list \<Rightarrow> resolve_error + hitl_session" where
  "remove_batches s removed =
     map_sum PendingInputError (\<lambda>p. s\<lparr>hitl_pending := p\<rparr>)
       (remove_pending_input_batches (hitl_pending s) (set (map fst removed)))"

definition batch_ids :: "pending_batch \<Rightarrow> string list" where
  "batch_ids b = map ir_request_id (batch_requests b)"

definition responses_for_batches :: "input_response list \<Rightarrow> indexed_batch list \<Rightarrow> input_response list" where
  "responses_for_batches rs bs =
     filter (\<lambda>r. list_ex (\<lambda>(i, b). List.member (batch_ids b) (response_request_id r)) bs) rs"

definition append_resolved_batch_transcript ::
    "history_message list \<Rightarrow> pending_batch \<Rightarrow> json list \<Rightarrow> history_message list" where
  "append_resolved_batch_transcript ms b tool_parts =
     ms @ batch_messages b
       @ (if tool_parts = [] then [] else [OtherHistory ToolRole (ArrayContent (map OtherPart tool_parts))])"

definition compact_step_input :: "step_input option \<Rightarrow> step_input" where
  "compact_step_input i =
     (case i of
        None \<Rightarrow> empty_step_input
      | Some x \<Rightarrow>
          attach_client_context
            (empty_step_input\<lparr>
               step_context := (if list_of (step_context x) \<noteq> [] then step_context x else None),
               input_responses := (if list_of (input_responses x) \<noteq> [] then input_responses x else None),
               step_message := step_message x,
               message_consumed := message_consumed x,
               output_schema := output_schema x\<rparr>)
            (client_context x))"

definition deferred_part :: "bool \<Rightarrow> input_response list \<Rightarrow> step_input option \<Rightarrow> step_input" where
  "deferred_part defer leftover i =
     empty_step_input\<lparr>
       input_responses := some_unless_empty leftover,
       step_context := (if defer then some_unless_empty (list_of (Option.bind i step_context)) else None),
       step_message := (if defer then Option.bind i step_message else None),
       client_context := (if defer then some_unless_empty (list_of (Option.bind i client_context)) else None)\<rparr>"

text \<open>\<open>Object.keys(deferredInput).length > 0\<close>; the client context is an own key as well.\<close>

definition has_keys :: "step_input \<Rightarrow> bool" where
  "has_keys i \<longleftrightarrow> input_responses i \<noteq> None \<or> step_context i \<noteq> None \<or> step_message i \<noteq> None
     \<or> client_context i \<noteq> None"

definition finish_resolved_input ::
    "bool \<Rightarrow> input_response list \<Rightarrow> bool option \<Rightarrow> history_message list \<Rightarrow> rejected_batch list
     \<Rightarrow> resolved_batch list \<Rightarrow> step_input option \<Rightarrow> hitl_session \<Rightarrow> resolve_result" where
  "finish_resolved_input defer leftover limit ms rejected resolved i s =
     (let d = deferred_part defer leftover i;
          base = \<lparr>consumed_message = (case i of None \<Rightarrow> False | Some x \<Rightarrow> message_consumed x),
                  deferred_context = False, deferred_message = False, limit_continuation = limit,
                  result_outcome = ResolvedOutcome, result_messages = ms, rejected_actions = rejected,
                  resolved_inputs = resolved, result_session = s\<rparr>
      in if has_keys d
         then base\<lparr>deferred_context := step_context d \<noteq> None \<or> client_context d \<noteq> None,
                   deferred_message := step_message d \<noteq> None,
                   result_session := queue_deferred s d\<rparr>
         else base)"

section \<open>Questions (hitl/question-input-requests.ts)\<close>

definition answered_ids :: "input_response list \<Rightarrow> string list" where
  "answered_ids rs = map response_request_id rs"

definition find_answered_question_batches :: "indexed_batch list \<Rightarrow> input_response list \<Rightarrow> indexed_batch list" where
  "find_answered_question_batches bs rs =
     filter (\<lambda>(i, b). list_ex (\<lambda>k. List.member (answered_ids rs) k) (batch_ids b)) bs"

definition build_question_tool_response_part :: "input_request \<Rightarrow> input_response option \<Rightarrow> json" where
  "build_question_tool_response_part q response =
     JObj [(''output'', JObj [(''type'', JStr ''json''),
             (''value'', case response of
                Some r \<Rightarrow> JObj (optional_field ''optionId'' (response_option_id r) @ optional_field ''text'' (response_text r)
                                  @ [(''status'', JStr ''answered'')])
              | None \<Rightarrow> JObj [(''status'', JStr ''ignored'')])]),
           (''toolCallId'', JStr (tca_call_id (ir_action q))), (''toolName'', JStr (tca_tool_name (ir_action q))),
           (''type'', JStr ''tool-result'')]"

definition resolve_question_batches ::
    "indexed_batch list \<Rightarrow> history_message list \<Rightarrow> input_response list \<Rightarrow> history_message list" where
  "resolve_question_batches bs ms rs =
     foldl (\<lambda>acc (i, b). append_resolved_batch_transcript acc b
         (map (\<lambda>q. build_question_tool_response_part q (response_for rs (ir_request_id q))) (batch_requests b))) ms bs"

definition outside :: "indexed_batch list \<Rightarrow> indexed_batch list \<Rightarrow> indexed_batch list" where
  "outside bs resolved = filter (\<lambda>b. \<not> List.member resolved b) bs"

definition resolved_batches_of :: "indexed_batch list \<Rightarrow> input_response list \<Rightarrow> resolved_batch list" where
  "resolved_batches_of bs rs = List.map_filter (\<lambda>(i, b). build_resolved_input_batch b rs) bs"

text \<open>The arguments every resolver takes.\<close>

record resolver_input =
  base_history :: "history_message list"
  resolver_batches :: "indexed_batch list"
  defer_turn_input :: bool
  resolver_step :: "step_input option"
  resolver_responses :: "input_response list"
  resolver_session :: hitl_session

definition resolver_message :: "resolver_input \<Rightarrow> user_content option" where
  "resolver_message x = Option.bind (resolver_step x) step_message"

definition queue_whole :: "resolver_input \<Rightarrow> resolve_result" where
  "queue_whole x = plain_result UnresolvedOutcome (base_history x)
     (queue_deferred (resolver_session x) (compact_step_input (resolver_step x)))"

definition continue_result :: "resolver_input \<Rightarrow> input_response list \<Rightarrow> resolve_result" where
  "continue_result x leftover =
     (plain_result ContinueOutcome (base_history x)
        (if leftover = [] then resolver_session x
         else queue_deferred (resolver_session x) (empty_step_input\<lparr>input_responses := Some leftover\<rparr>)))
      \<lparr>consumed_message := (case resolver_step x of None \<Rightarrow> False | Some i \<Rightarrow> message_consumed i)\<rparr>"

definition resolve_question_only_input_batches :: "resolver_input \<Rightarrow> resolve_error + resolve_result" where
  "resolve_question_only_input_batches x =
     (let rs = resolver_responses x;
          resolved = find_answered_question_batches (resolver_batches x) rs;
          leftover = responses_for_batches rs (outside (resolver_batches x) resolved)
      in if resolved = [] then
           (if resolver_message x = None then Inr (queue_whole x)
            else case resolver_batches x of
                   [sole] \<Rightarrow>
                     map_sum id (\<lambda>s.
                       (plain_result ResolvedOutcome (resolve_question_batches [sole] (base_history x) []) s)
                        \<lparr>consumed_message := (case resolver_step x of None \<Rightarrow> False | Some i \<Rightarrow> message_consumed i),
                         resolved_inputs := resolved_batches_of [sole] []\<rparr>)
                       (remove_batches (resolver_session x) [sole])
                 | _ \<Rightarrow> Inr (continue_result x leftover))
         else
           map_sum id (finish_resolved_input (defer_turn_input x) leftover None
               (resolve_question_batches resolved (base_history x) rs) [] (resolved_batches_of resolved rs) (resolver_step x))
             (remove_batches (resolver_session x) resolved))"

section \<open>Session limits (hitl/session-limit-input-requests.ts)\<close>

definition is_session_limit_input_batch :: "pending_batch \<Rightarrow> resolve_error + bool" where
  "is_session_limit_input_batch b =
     (let has = list_ex (\<lambda>q. ir_kind q = SessionLimit) (batch_requests b)
      in if has \<and> list_ex (\<lambda>q. ir_kind q \<noteq> SessionLimit) (batch_requests b) then Inl MixedSessionLimitBatch
         else Inr has)"

definition resolve_session_limit_input :: "resolver_input \<Rightarrow> indexed_batch \<Rightarrow> resolve_error + resolve_result" where
  "resolve_session_limit_input x p =
     (let rs = resolver_responses x; ids = batch_ids (snd p);
          answered = list_ex (List.member (answered_ids rs)) ids \<and> list_all (List.member (answered_ids rs)) ids
      in if \<not> answered then
           Inr ((queue_whole x)\<lparr>deferred_message := True\<rparr>)
         else
           (let opened = outside (resolver_batches x) [p];
                leftover = responses_for_batches rs opened;
                blocked = list_ex (\<lambda>(i, b). list_ex is_session_limit_continuation_request (batch_requests b)) opened
            in map_sum id (finish_resolved_input (defer_turn_input x \<or> blocked) leftover
                   (resolve_session_limit_continuation (batch_requests (snd p)) rs)
                   (append_resolved_batch_transcript (base_history x) (snd p) []) []
                   (resolved_batches_of [p] rs) (resolver_step x))
                 (remove_batches (resolver_session x) [p])))"

definition clear_pending_session_limit_prompt :: "hitl_session \<Rightarrow> resolve_error + hitl_session" where
  "clear_pending_session_limit_prompt s =
     (case get_pending_input_batches (pending_session_state (hitl_pending s)) of
        Inl e \<Rightarrow> Inl (PendingInputError e)
      | Inr bs \<Rightarrow>
          (let dropped = filter (\<lambda>(i, b). batch_requests b \<noteq> []
                 \<and> list_all is_session_limit_continuation_request (batch_requests b)) (enumerate 0 bs)
           in if dropped = [] then Inr s else remove_batches s dropped))"

section \<open>Approvals (hitl/approval-input-requests.ts)\<close>

definition approval_answered :: "input_response list \<Rightarrow> pending_batch \<Rightarrow> bool" where
  "approval_answered rs b \<longleftrightarrow>
     list_all (\<lambda>q. \<not> is_approval_request q \<or> List.member (answered_ids rs) (ir_request_id q)) (batch_requests b)"

definition has_answered_approval_batch :: "indexed_batch list \<Rightarrow> input_response list \<Rightarrow> bool" where
  "has_answered_approval_batch bs rs \<longleftrightarrow> list_ex (\<lambda>(i, b). approval_answered rs b) bs"

definition has_approval :: "indexed_batch \<Rightarrow> bool" where
  "has_approval b \<longleftrightarrow> list_ex is_approval_request (batch_requests (snd b))"

text \<open>The values a set of approved tools holds, in the order of their insertion.\<close>

definition distinct_first :: "'a list \<Rightarrow> 'a list" where
  "distinct_first xs = rev (remdups (rev xs))"

definition read_recorded_approved_tools :: "hitl_session \<Rightarrow> string list" where
  "read_recorded_approved_tools s =
     (case approved_value s of
        Some (JArr vs) \<Rightarrow> distinct_first (List.map_filter (\<lambda>v. case v of JStr k \<Rightarrow> Some k | _ \<Rightarrow> None) vs)
      | _ \<Rightarrow> [])"

definition approval_key :: "(input_request \<Rightarrow> string option) \<Rightarrow> input_request \<Rightarrow> string" where
  "approval_key resolve_key q =
     (case resolve_key q of Some k \<Rightarrow> k | None \<Rightarrow> tca_tool_name (ir_action q))"

definition get_approved_tools ::
    "hitl_session \<Rightarrow> (input_request \<Rightarrow> string option) \<Rightarrow> resolve_error + string list" where
  "get_approved_tools s resolve_key =
     (case get_pending_input_batches (pending_session_state (hitl_pending s)) of
        Inl e \<Rightarrow> Inl (PendingInputError e)
      | Inr bs \<Rightarrow>
          (let waiting = map (approval_key resolve_key) (filter is_approval_request (concat (map batch_requests bs)))
           in Inr (filter (\<lambda>k. \<not> List.member waiting k) (read_recorded_approved_tools s))))"

definition record_approved_tools ::
    "pending_batch \<Rightarrow> (input_request \<Rightarrow> string option) \<Rightarrow> input_response list \<Rightarrow> hitl_session \<Rightarrow> hitl_session" where
  "record_approved_tools b resolve_key rs s =
     (let approved_ids = answered_ids (filter (\<lambda>r. response_option_id r = Some ''approve'') rs);
          new_keys = map (approval_key resolve_key)
            (filter (\<lambda>q. is_approval_request q \<and> List.member approved_ids (ir_request_id q)) (batch_requests b))
      in if new_keys = [] then s
         else s\<lparr>approved_value := Some (JArr (map JStr (distinct_first (read_recorded_approved_tools s @ new_keys)))),
                hitl_pending := (hitl_pending s)\<lparr>pending_session_state :=
                  Some ((spread_state (pending_session_state (hitl_pending s)))\<lparr>other_state := True\<rparr>)\<rparr>\<rparr>)"

text \<open>Only the approvals of the batch can be rejected.\<close>

definition rejected_result_of :: "input_response list \<Rightarrow> input_request \<Rightarrow> rejected_result option" where
  "rejected_result_of rs q =
     (let out = resolve_approval_outcome (response_for rs (ir_request_id q))
      in if \<not> is_approval_request q \<or> outcome_approved out then None
         else Some \<lparr>rejected_call = tca_call_id (ir_action q), rejected_request = ir_request_id q,
                    rejected_status = outcome_status out,
                    rejected_message = (case outcome_reason out of Some m \<Rightarrow> m | None \<Rightarrow> TOOL_EXECUTION_DENIED_MESSAGE),
                    rejected_tool = tca_tool_name (ir_action q)\<rparr>)"

definition build_rejected_action_batch :: "pending_batch \<Rightarrow> input_response list \<Rightarrow> rejected_batch option" where
  "build_rejected_action_batch b rs =
     (case batch_event b of
        None \<Rightarrow> None
      | Some ev \<Rightarrow>
          (let results = List.map_filter (rejected_result_of rs) (batch_requests b)
           in if results = [] then None else Some \<lparr>rejected_event = ev, rejected_results = results\<rparr>))"

definition build_approval_tool_response_parts :: "input_request \<Rightarrow> input_response option \<Rightarrow> json list" where
  "build_approval_tool_response_parts q response =
     (let out = resolve_approval_outcome response
      in JObj ([(''approvalId'', JStr (ir_request_id q)), (''approved'', JBool (outcome_approved out))]
               @ optional_field ''reason'' (outcome_reason out) @ [(''type'', JStr ''tool-approval-response'')])
         # (if outcome_approved out then []
            else [JObj [(''output'', JObj ((''type'', JStr ''execution-denied'') # optional_field ''reason'' (outcome_reason out))),
                        (''toolCallId'', JStr (tca_call_id (ir_action q))),
                        (''toolName'', JStr (tca_tool_name (ir_action q))), (''type'', JStr ''tool-result'')]]))"

fun build_approval_batch_parts :: "input_response list \<Rightarrow> input_request list \<Rightarrow> resolve_error + json list" where
  "build_approval_batch_parts rs [] = Inr []"
| "build_approval_batch_parts rs (q # qs) =
     (let r = response_for rs (ir_request_id q)
      in case ir_kind q of
           ToolApproval \<Rightarrow> map_sum id (\<lambda>ps. build_approval_tool_response_parts q r @ ps) (build_approval_batch_parts rs qs)
         | Question \<Rightarrow> map_sum id (\<lambda>ps. build_question_tool_response_part q r # ps) (build_approval_batch_parts rs qs)
         | SessionLimit \<Rightarrow> Inl MixedSessionLimitBatch)"

definition resolve_approval_batch ::
    "pending_batch \<Rightarrow> history_message list \<Rightarrow> (input_request \<Rightarrow> string option) \<Rightarrow> input_response list \<Rightarrow> hitl_session
     \<Rightarrow> resolve_error + history_message list \<times> rejected_batch list \<times> hitl_session" where
  "resolve_approval_batch b ms resolve_key rs s =
     map_sum id (\<lambda>ps. (append_resolved_batch_transcript ms b ps,
         (case build_rejected_action_batch b rs of None \<Rightarrow> [] | Some r \<Rightarrow> [r]),
         record_approved_tools b resolve_key rs s))
       (build_approval_batch_parts rs (batch_requests b))"

text \<open>The batches resolved in this step: the answered ones, up to the first with an approval.\<close>

definition cut_at_approval :: "indexed_batch list \<Rightarrow> indexed_batch list" where
  "cut_at_approval bs = (case find_index has_approval bs of None \<Rightarrow> bs | Some i \<Rightarrow> take (i + 1) bs)"

definition approval_step_batches ::
    "indexed_batch list \<Rightarrow> indexed_batch list \<Rightarrow> indexed_batch list \<Rightarrow> input_response list \<Rightarrow> indexed_batch list" where
  "approval_step_batches bs approvals questions rs =
     (let answered = filter (\<lambda>(i, b). approval_answered rs b) approvals;
          questioned = find_answered_question_batches questions rs
      in cut_at_approval (filter (\<lambda>b. List.member answered b \<or> List.member questioned b) bs))"

definition resolve_approval_input_batches ::
    "resolver_input \<Rightarrow> indexed_batch list \<Rightarrow> indexed_batch list \<Rightarrow> (input_request \<Rightarrow> string option)
     \<Rightarrow> resolve_error + resolve_result" where
  "resolve_approval_input_batches x approvals questions resolve_key =
     (let rs = resolver_responses x;
          resolved = approval_step_batches (resolver_batches x) approvals questions rs;
          leftover = responses_for_batches rs (outside (resolver_batches x) resolved)
      in if resolved = [] then
           (if resolver_message x = None then Inr (queue_whole x) else Inr (continue_result x leftover))
         else
           (let approval = List.find has_approval resolved;
                question_batches = filter (\<lambda>b. Some b \<noteq> approval) resolved;
                ms = resolve_question_batches question_batches (base_history x) rs
            in case (case approval of
                       None \<Rightarrow> Inr (ms, [], resolver_session x)
                     | Some a \<Rightarrow> resolve_approval_batch (snd a) ms resolve_key rs (resolver_session x)) of
                 Inl e \<Rightarrow> Inl e
               | Inr (messages, rejected, s) \<Rightarrow>
                   map_sum id (finish_resolved_input (approval \<noteq> None \<or> defer_turn_input x) leftover None messages
                       rejected (resolved_batches_of resolved rs) (resolver_step x))
                     (remove_batches s resolved)))"

section \<open>Routing (input-requests.ts)\<close>

definition has_step_input :: "step_input option \<Rightarrow> bool" where
  "has_step_input i =
     (case i of None \<Rightarrow> False | Some x \<Rightarrow> step_message x \<noteq> None \<or> list_of (input_responses x) \<noteq> [])"

definition has_pending_approval_batch :: "hitl_session \<Rightarrow> resolve_error + bool" where
  "has_pending_approval_batch s =
     map_sum PendingInputError (\<lambda>bs. list_ex (\<lambda>b. list_ex is_approval_request (batch_requests b)) bs)
       (get_pending_input_batches (pending_session_state (hitl_pending s)))"

definition has_tail_approval_response :: "history_message list \<Rightarrow> bool" where
  "has_tail_approval_response ms =
     (case rev ms of
        OtherHistory ToolRole (ArrayContent ps) # _ \<Rightarrow>
          list_ex (\<lambda>p. case p of
              OtherPart (JObj es) \<Rightarrow> literal_field es ''type'' = Some ''tool-approval-response'' | _ \<Rightarrow> False) ps
      | _ \<Rightarrow> False)"

datatype batch_domain = ApprovalDomain | QuestionDomain | SessionLimitDomain

definition classify_pending_input_batch :: "pending_batch \<Rightarrow> resolve_error + batch_domain" where
  "classify_pending_input_batch b =
     map_sum id (\<lambda>limit. if limit then SessionLimitDomain
         else if list_ex is_approval_request (batch_requests b) then ApprovalDomain else QuestionDomain)
       (is_session_limit_input_batch b)"

datatype pending_route =
    LimitRoute indexed_batch
  | ApprovalRoute "indexed_batch list" "indexed_batch list"
  | QuestionRoute

definition route_pending_input :: "indexed_batch list \<Rightarrow> resolve_error + pending_route" where
  "route_pending_input bs =
     map_sum id (\<lambda>ds.
       (let classified = zip bs ds
        in case List.find (\<lambda>(b, d). d = SessionLimitDomain) classified of
             Some (b, _) \<Rightarrow> LimitRoute b
           | None \<Rightarrow>
               (let approvals = map fst (filter (\<lambda>(b, d). d = ApprovalDomain) classified)
                in if approvals = [] then QuestionRoute else ApprovalRoute approvals (outside bs approvals))))
       (those_sum (map (\<lambda>(i, b). classify_pending_input_batch b) bs))"

text \<open>A map keeps the place of the first response of a request and the value of the last.\<close>

fun put_response :: "input_response \<Rightarrow> input_response list \<Rightarrow> input_response list" where
  "put_response r [] = [r]"
| "put_response r (x # xs) =
     (if response_request_id x = response_request_id r then r # xs else x # put_response r xs)"

definition canonicalize_input_responses :: "input_response list \<Rightarrow> input_response list" where
  "canonicalize_input_responses rs = foldl (\<lambda>acc r. put_response r acc) [] rs"

definition resolve_text_message_input :: "pending_batch \<Rightarrow> step_input option \<Rightarrow> step_input option" where
  "resolve_text_message_input b i =
     (case i of
        None \<Rightarrow> None
      | Some x \<Rightarrow>
          (case step_message x of
             Some (StringContent s) \<Rightarrow>
               if list_ex (\<lambda>r. List.member (batch_ids b) (response_request_id r)) (list_of (input_responses x)) then Some x
               else (let required = list_of (batch_auth_required b);
                         requests = filter (\<lambda>q. \<not> List.member required (ir_request_id q)) (batch_requests b);
                         responses = resolve_text_to_responses s requests
                     in if responses = [] then Some x
                        else Some (compact_step_input (Some (x\<lparr>
                               input_responses := Some (list_of (input_responses x) @ responses),
                               message_consumed := True, step_message := None\<rparr>))))
           | _ \<Rightarrow> Some x))"

definition route_text_batch :: "pending_route \<Rightarrow> indexed_batch list \<Rightarrow> pending_batch option" where
  "route_text_batch route bs =
     (case route of
        LimitRoute p \<Rightarrow> Some (snd p)
      | _ \<Rightarrow> (case bs of [p] \<Rightarrow> Some (snd p) | _ \<Rightarrow> None))"

definition text_step :: "pending_route \<Rightarrow> indexed_batch list \<Rightarrow> step_input option \<Rightarrow> step_input option" where
  "text_step route bs i =
     (case route_text_batch route bs of None \<Rightarrow> i | Some b \<Rightarrow> resolve_text_message_input b i)"

text \<open>The arguments of the resolvers.\<close>

definition resolver_call ::
    "history_message list \<Rightarrow> hitl_session \<Rightarrow> indexed_batch list \<Rightarrow> step_input option \<Rightarrow> resolver_input" where
  "resolver_call base s bs step =
     \<lparr>base_history = base, resolver_batches = bs, defer_turn_input = has_tail_approval_response base,
      resolver_step = step,
      resolver_responses = canonicalize_input_responses (list_of (Option.bind step input_responses)),
      resolver_session = s\<rparr>"

definition resolve_routed ::
    "bool \<Rightarrow> (input_request \<Rightarrow> string option) \<Rightarrow> resolver_input \<Rightarrow> pending_route \<Rightarrow> resolve_error + resolve_result" where
  "resolve_routed defer_messages resolve_key x route =
     (if defer_messages \<and> resolver_message x \<noteq> None
         \<and> (case route of ApprovalRoute a q \<Rightarrow> \<not> has_answered_approval_batch a (resolver_responses x) | _ \<Rightarrow> False)
      then Inr ((queue_whole x)\<lparr>deferred_message := True\<rparr>)
      else if resolver_responses x = [] \<and> resolver_message x = None then
        (let d = compact_step_input (resolver_step x)
         in Inr (plain_result UnresolvedOutcome (base_history x)
              (if step_context d \<noteq> None \<or> client_context d \<noteq> None \<or> output_schema d \<noteq> None
               then queue_deferred (resolver_session x) d else resolver_session x)))
      else (case route of
              LimitRoute p \<Rightarrow> resolve_session_limit_input x p
            | ApprovalRoute a q \<Rightarrow> resolve_approval_input_batches x a q resolve_key
            | QuestionRoute \<Rightarrow> resolve_question_only_input_batches x))"

definition resolve_pending_input ::
    "bool \<Rightarrow> history_message list option \<Rightarrow> (input_request \<Rightarrow> string option) \<Rightarrow> hitl_session \<Rightarrow> step_input option
     \<Rightarrow> resolve_error + resolve_result" where
  "resolve_pending_input defer_messages history resolve_key s i =
     (let base = (case history of Some h \<Rightarrow> h | None \<Rightarrow> session_history (hitl_pending s))
      in case get_pending_input_batches (pending_session_state (hitl_pending s)) of
           Inl e \<Rightarrow> Inl (PendingInputError e)
         | Inr batches \<Rightarrow>
             if batches = [] then Inr (plain_result ContinueOutcome base s)
             else (let bs = enumerate 0 batches
                   in case route_pending_input bs of
                        Inl e \<Rightarrow> Inl e
                      | Inr route \<Rightarrow>
                          resolve_routed defer_messages resolve_key (resolver_call base s bs (text_step route bs i)) route))"

section \<open>What the parts do to the session\<close>

definition pending_of :: "hitl_session \<Rightarrow> pending_error + pending_batch list" where
  "pending_of s = get_pending_input_batches (pending_session_state (hitl_pending s))"

definition deferred_responses :: "hitl_session \<Rightarrow> input_response list" where
  "deferred_responses s = list_of (Option.bind (get_deferred_step_input (hitl_pending s)) input_responses)"

lemma list_of_simps [simp]: "list_of None = []" "list_of (Some xs) = xs"
  by (simp_all add: list_of_def)

lemma get_batches_cong:
  "pending_batches (spread_state a) = pending_batches (spread_state b) \<Longrightarrow>
   legacy_batch (spread_state a) = legacy_batch (spread_state b) \<Longrightarrow>
   get_pending_input_batches a = get_pending_input_batches b"
proof -
  assume "pending_batches (spread_state a) = pending_batches (spread_state b)"
    "legacy_batch (spread_state a) = legacy_batch (spread_state b)"
  then have "raw_batches a = raw_batches b" by (simp add: raw_batches_def cong: option.case_cong)
  then show ?thesis by (simp only: get_pending_input_batches_def)
qed

lemma pending_queue_deferred [simp]: "pending_of (queue_deferred s d) = pending_of s"
  unfolding pending_of_def
  by (rule get_batches_cong) (simp_all add: queue_deferred_def queue_deferred_step_input_def spread_state_def)

lemma deferred_queue:
  "get_deferred_step_input (hitl_pending (queue_deferred s d)) =
     Some (case get_deferred_step_input (hitl_pending s) of None \<Rightarrow> d | Some e \<Rightarrow> coalesce_turn_inputs e d)"
  by (simp add: queue_deferred_def queue_deferred_step_input_def get_deferred_step_input_def)

lemma deferred_responses_queue [simp]:
  "deferred_responses (queue_deferred s d) = deferred_responses s @ list_of (input_responses d)"
  by (simp add: deferred_responses_def deferred_queue coalesce_turn_inputs_fields list_of_coalesce split: option.split)

lemma approved_queue [simp]: "approved_value (queue_deferred s d) = approved_value s"
  by (simp add: queue_deferred_def)

lemma remove_batches_spec:
  assumes "pending_of s = Inr bs"
  obtains s' where "remove_batches s R = Inr s'" "pending_of s' = Inr (nths bs (- (fst ` set R)))"
    "get_deferred_step_input (hitl_pending s') = get_deferred_step_input (hitl_pending s)" "approved_value s' = approved_value s"
proof -
  from remove_spec [OF assms [unfolded pending_of_def], of "set (map fst R)"] obtain p where
    "remove_pending_input_batches (hitl_pending s) (set (map fst R)) = Inr p"
    "get_pending_input_batches (pending_session_state p) = Inr (nths bs (- (fst ` set R)))"
    "get_deferred_step_input p = get_deferred_step_input (hitl_pending s)" by auto
  then show thesis
    by (intro that [of "s\<lparr>hitl_pending := p\<rparr>"]) (simp_all add: remove_batches_def pending_of_def)
qed

lemma record_approved_session:
  "pending_session_state (hitl_pending (record_approved_tools b key rs s)) = pending_session_state (hitl_pending s)
   \<or> pending_session_state (hitl_pending (record_approved_tools b key rs s)) =
       Some ((spread_state (pending_session_state (hitl_pending s)))\<lparr>other_state := True\<rparr>)"
  by (simp add: record_approved_tools_def Let_def)

lemma record_approved_simps [simp]:
  "pending_of (record_approved_tools b key rs s) = pending_of s"
  "get_deferred_step_input (hitl_pending (record_approved_tools b key rs s)) = get_deferred_step_input (hitl_pending s)"
proof -
  note cases = record_approved_session [of b key rs s]
  show "pending_of (record_approved_tools b key rs s) = pending_of s"
    unfolding pending_of_def using cases by (intro get_batches_cong) (auto simp: spread_state_def)
  show "get_deferred_step_input (hitl_pending (record_approved_tools b key rs s)) = get_deferred_step_input (hitl_pending s)"
    using cases by (cases "pending_session_state (hitl_pending s)")
      (auto simp: get_deferred_step_input_def spread_state_def empty_state_def)
qed

lemma finish_simps [simp]:
  "pending_of (result_session (finish_resolved_input defer leftover limit ms rej res i s)) = pending_of s"
  "deferred_responses (result_session (finish_resolved_input defer leftover limit ms rej res i s))
     = deferred_responses s @ leftover"
  "approved_value (result_session (finish_resolved_input defer leftover limit ms rej res i s)) = approved_value s"
  "result_outcome (finish_resolved_input defer leftover limit ms rej res i s) = ResolvedOutcome"
  "result_messages (finish_resolved_input defer leftover limit ms rej res i s) = ms"
  by (simp_all add: finish_resolved_input_def Let_def deferred_part_def has_keys_def some_unless_empty_def
      empty_step_input_def)

lemma plain_result_simps [simp]:
  "result_session (plain_result out ms s) = s" "result_outcome (plain_result out ms s) = out"
  "result_messages (plain_result out ms s) = ms"
  by (simp_all add: plain_result_def)

lemma responses_for_batches_iff:
  "a \<in> set (responses_for_batches rs bs) \<longleftrightarrow> a \<in> set rs \<and> (\<exists>p \<in> set bs. response_request_id a \<in> set (batch_ids (snd p)))"
  by (auto simp: responses_for_batches_def list_ex_iff case_prod_beta)

lemma compact_responses [simp]:
  "list_of (input_responses (compact_step_input i)) = list_of (Option.bind i input_responses)"
  by (cases i) (simp_all add: compact_step_input_def attach_client_context_def empty_step_input_def split: option.split)

section \<open>Every resolver accounts for its batches and responses\<close>

text \<open>
  The batches of \<open>R\<close> leave the pending ones, and every response to another batch is deferred to a
  later step.
\<close>

definition accounts :: "resolver_input \<Rightarrow> indexed_batch list \<Rightarrow> resolve_result \<Rightarrow> bool" where
  "accounts x R r \<longleftrightarrow> set R \<subseteq> set (resolver_batches x)
     \<and> pending_of (result_session r) = Inr (nths (map snd (resolver_batches x)) (- (fst ` set R)))
     \<and> (\<forall>a \<in> set (resolver_responses x). \<forall>p \<in> set (resolver_batches x).
          response_request_id a \<in> set (batch_ids (snd p)) \<longrightarrow>
          p \<in> set R \<or> a \<in> set (deferred_responses (result_session r)))"

text \<open>The arguments \<open>resolvePendingInput\<close> passes.\<close>

definition resolver_ok :: "resolver_input \<Rightarrow> bool" where
  "resolver_ok x \<longleftrightarrow> (\<exists>bs. resolver_batches x = enumerate 0 bs \<and> pending_of (resolver_session x) = Inr bs)
     \<and> set (resolver_responses x) \<subseteq> set (list_of (Option.bind (resolver_step x) input_responses))"

lemma pending_resolver: "resolver_ok x \<Longrightarrow> pending_of (resolver_session x) = Inr (map snd (resolver_batches x))"
  by (auto simp: resolver_ok_def)

lemma nths_UNIV [simp]: "nths xs UNIV = xs"
  by (rule nths_all) simp

lemma accounts_queue_whole:
  "resolver_ok x \<Longrightarrow> accounts x [] (queue_whole x)"
  using pending_resolver [of x] by (auto simp: accounts_def queue_whole_def resolver_ok_def)

lemma accounts_same_session:
  "accounts x R r \<Longrightarrow> result_session r' = result_session r \<Longrightarrow> accounts x R r'"
  by (simp add: accounts_def)

lemma outside_iff [simp]: "p \<in> set (outside bs R) \<longleftrightarrow> p \<in> set bs \<and> p \<notin> set R"
  by (simp add: outside_def)

lemma continue_session:
  "result_session (continue_result x leftover) = (if leftover = [] then resolver_session x
     else queue_deferred (resolver_session x) (empty_step_input\<lparr>input_responses := Some leftover\<rparr>))"
  by (simp add: continue_result_def plain_result_def)

lemma accounts_continue:
  assumes "resolver_ok x"
  shows "accounts x [] (continue_result x (responses_for_batches (resolver_responses x) (outside (resolver_batches x) [])))"
    (is "accounts x [] (continue_result x ?l)")
proof -
  have "pending_of (result_session (continue_result x ?l)) = pending_of (resolver_session x)"
    by (simp add: continue_session)
  moreover have "a \<in> set (deferred_responses (result_session (continue_result x ?l)))"
    if "a \<in> set (resolver_responses x)" "p \<in> set (resolver_batches x)" "response_request_id a \<in> set (batch_ids (snd p))"
    for a p
  proof -
    have "a \<in> set ?l" using that by (auto simp: responses_for_batches_iff)
    then show ?thesis by (cases "?l = []") (simp_all add: continue_session)
  qed
  ultimately show ?thesis
    using pending_resolver [OF assms] by (simp add: accounts_def)
qed

lemma accounts_finish:
  assumes "set R \<subseteq> set (resolver_batches x)"
    and "pending_of s = Inr (nths (map snd (resolver_batches x)) (- (fst ` set R)))"
  shows "accounts x R (finish_resolved_input defer
      (responses_for_batches (resolver_responses x) (outside (resolver_batches x) R)) limit ms rej res i s)"
  using assms by (auto simp: accounts_def responses_for_batches_iff)

text \<open>
  A batch is settled by responses that answer one of its requests and every approval and limit in it;
  a batch of questions that is alone is dismissed by a message.
\<close>

definition settled_by :: "input_response list \<Rightarrow> pending_batch \<Rightarrow> bool" where
  "settled_by rs b \<longleftrightarrow> (\<exists>q \<in> set (batch_requests b). ir_request_id q \<in> response_request_id ` set rs)
     \<and> (\<forall>q \<in> set (batch_requests b). ir_kind q \<noteq> Question \<longrightarrow> ir_request_id q \<in> response_request_id ` set rs)"

definition questions_only :: "pending_batch \<Rightarrow> bool" where
  "questions_only b \<longleftrightarrow> (\<forall>q \<in> set (batch_requests b). ir_kind q = Question)"

definition may_resolve :: "resolver_input \<Rightarrow> indexed_batch \<Rightarrow> bool" where
  "may_resolve x p \<longleftrightarrow> settled_by (resolver_responses x) (snd p)
     \<or> (resolver_batches x = [p] \<and> questions_only (snd p) \<and> resolver_message x \<noteq> None)"

lemma answered_ids_set [simp]: "set (answered_ids rs) = response_request_id ` set rs"
  by (simp add: answered_ids_def)

lemma batch_ids_set [simp]: "set (batch_ids b) = ir_request_id ` set (batch_requests b)"
  by (simp add: batch_ids_def)

lemma find_answered_iff:
  "p \<in> set (find_answered_question_batches bs rs) \<longleftrightarrow>
     p \<in> set bs \<and> (\<exists>q \<in> set (batch_requests (snd p)). ir_request_id q \<in> response_request_id ` set rs)"
  by (auto simp: find_answered_question_batches_def list_ex_iff case_prod_beta)

lemma settled_question: "questions_only b \<Longrightarrow>
    (\<exists>q \<in> set (batch_requests b). ir_request_id q \<in> response_request_id ` set rs) \<Longrightarrow> settled_by rs b"
  by (auto simp: settled_by_def questions_only_def)

lemma remove_then:
  assumes ok: "resolver_ok x" and s: "pending_of s = pending_of (resolver_session x)"
  obtains s' where "remove_batches s R = Inr s'"
    "pending_of s' = Inr (nths (map snd (resolver_batches x)) (- (fst ` set R)))" "approved_value s' = approved_value s"
    "get_deferred_step_input (hitl_pending s') = get_deferred_step_input (hitl_pending s)"
proof -
  have "pending_of s = Inr (map snd (resolver_batches x))" using pending_resolver [OF ok] s by simp
  then show thesis using that by (rule remove_batches_spec)
qed

lemma question_only_spec:
  assumes ok: "resolver_ok x" and q: "\<forall>p \<in> set (resolver_batches x). questions_only (snd p)"
  obtains R r where "resolve_question_only_input_batches x = Inr r" "accounts x R r"
    "\<forall>p \<in> set R. may_resolve x p" "approved_value (result_session r) = approved_value (resolver_session x)"
proof -
  define R where "R = find_answered_question_batches (resolver_batches x) (resolver_responses x)"
  note eq = resolve_question_only_input_batches_def [of x, unfolded Let_def, folded R_def]
  have sub: "set R \<subseteq> set (resolver_batches x)" by (auto simp: R_def find_answered_iff)
  show thesis
  proof (cases "R = []")
    case R: True
    show thesis
    proof (cases "resolver_message x")
      case None
      then show thesis using R accounts_queue_whole [OF ok] by (intro that [of "queue_whole x" "[]"]) (simp_all add: eq queue_whole_def)
    next
      case (Some m)
      show thesis
      proof (cases "\<exists>sole. resolver_batches x = [sole]")
        case True
        then obtain sole where b: "resolver_batches x = [sole]" by blast
        obtain s' where s: "remove_batches (resolver_session x) [sole] = Inr s'"
          "pending_of s' = Inr (nths (map snd (resolver_batches x)) (- (fst ` set [sole])))"
          "approved_value s' = approved_value (resolver_session x)"
          by (rule remove_then [OF ok refl])
        let ?r = "(plain_result ResolvedOutcome (resolve_question_batches [sole] (base_history x) []) s')
                        \<lparr>consumed_message := (case resolver_step x of None \<Rightarrow> False | Some i \<Rightarrow> message_consumed i),
                         resolved_inputs := resolved_batches_of [sole] []\<rparr>"
        have "resolve_question_only_input_batches x = Inr ?r"
          using R Some b s(1) by (simp add: eq)
        moreover have "accounts x [sole] ?r" using s(2) b by (simp add: accounts_def)
        moreover have "\<forall>p \<in> set [sole]. may_resolve x p"
          using q b Some by (simp add: may_resolve_def)
        ultimately show thesis using s(3) that by simp
      next
        case False
        then have "resolve_question_only_input_batches x
            = Inr (continue_result x (responses_for_batches (resolver_responses x) (outside (resolver_batches x) [])))"
          using R Some by (simp add: eq split: list.split)
        moreover have "approved_value (result_session (continue_result x l)) = approved_value (resolver_session x)" for l
          by (simp add: continue_session)
        ultimately show thesis using accounts_continue [OF ok] that [of _ "[]"] by simp
      qed
    qed
  next
    case False
    obtain s' where s: "remove_batches (resolver_session x) R = Inr s'"
      "pending_of s' = Inr (nths (map snd (resolver_batches x)) (- (fst ` set R)))"
      "approved_value s' = approved_value (resolver_session x)"
      by (rule remove_then [OF ok refl])
    have "\<forall>p \<in> set R. may_resolve x p"
      using q sub by (auto simp: R_def find_answered_iff may_resolve_def intro!: settled_question)
    moreover have "resolve_question_only_input_batches x = Inr (finish_resolved_input (defer_turn_input x)
        (responses_for_batches (resolver_responses x) (outside (resolver_batches x) R)) None
        (resolve_question_batches R (base_history x) (resolver_responses x)) []
        (resolved_batches_of R (resolver_responses x)) (resolver_step x) s')"
      using False s(1) by (simp add: eq)
    ultimately show thesis using that [OF _ accounts_finish [OF sub s(2)]] s(3) by simp
  qed
qed

lemma session_limit_spec:
  assumes ok: "resolver_ok x" and p: "p \<in> set (resolver_batches x)"
  obtains R r where "resolve_session_limit_input x p = Inr r" "accounts x R r" "set R \<subseteq> {p}"
    "\<forall>p \<in> set R. may_resolve x p" "approved_value (result_session r) = approved_value (resolver_session x)"
proof -
  let ?ans = "list_ex (List.member (answered_ids (resolver_responses x))) (batch_ids (snd p))
      \<and> list_all (List.member (answered_ids (resolver_responses x))) (batch_ids (snd p))"
  show thesis
  proof (cases ?ans)
    case False
    then have "resolve_session_limit_input x p = Inr ((queue_whole x)\<lparr>deferred_message := True\<rparr>)"
      by (simp add: resolve_session_limit_input_def Let_def)
    moreover have "accounts x [] ((queue_whole x)\<lparr>deferred_message := True\<rparr>)"
      by (rule accounts_same_session [OF accounts_queue_whole [OF ok]]) simp
    ultimately show thesis using that [of _ "[]"] by (simp add: queue_whole_def)
  next
    case True
    obtain s' where s: "remove_batches (resolver_session x) [p] = Inr s'"
      "pending_of s' = Inr (nths (map snd (resolver_batches x)) (- (fst ` set [p])))"
      "approved_value s' = approved_value (resolver_session x)"
      by (rule remove_then [OF ok refl])
    have "settled_by (resolver_responses x) (snd p)"
      using True by (auto simp: settled_by_def list_ex_iff list_all_iff)
    then have "\<forall>p \<in> set [p]. may_resolve x p" by (simp add: may_resolve_def)
    moreover have "\<exists>d limit ms res. resolve_session_limit_input x p = Inr (finish_resolved_input d
        (responses_for_batches (resolver_responses x) (outside (resolver_batches x) [p])) limit ms [] res (resolver_step x) s')"
      using True s(1) by (simp add: resolve_session_limit_input_def Let_def) blast
    moreover have "set [p] \<subseteq> set (resolver_batches x)" using p by simp
    ultimately show thesis using that [OF _ accounts_finish [OF _ s(2)]] s(3) by auto
  qed
qed

section \<open>Approvals\<close>

lemma cut_at_approval_prefix: "prefix (cut_at_approval bs) bs"
  by (auto simp: cut_at_approval_def take_is_prefix split: option.split)

lemma cut_at_approval_first:
  assumes "p \<in> set (cut_at_approval bs)" "has_approval p" "distinct bs"
  shows "\<exists>init. cut_at_approval bs = init @ [p] \<and> (\<forall>b \<in> set init. \<not> has_approval b)"
proof (cases "find_index has_approval bs")
  case None
  with assms show ?thesis by (auto simp: cut_at_approval_def find_index_eq_None_iff)
next
  case (Some i)
  then have i: "i < length bs" "has_approval (bs ! i)" "\<forall>j < i. \<not> has_approval (bs ! j)"
    by (auto simp: find_index_eq_Some_iff)
  then have c: "cut_at_approval bs = take i bs @ [bs ! i]"
    using Some by (simp add: cut_at_approval_def take_Suc_conv_app_nth)
  have "\<forall>b \<in> set (take i bs). \<not> has_approval b"
  proof
    fix b assume "b \<in> set (take i bs)"
    then obtain j where "j < i" "b = bs ! j" using i(1) by (auto simp: in_set_conv_nth)
    with i(3) show "\<not> has_approval b" by simp
  qed
  with c assms show ?thesis by auto
qed

lemma find_last: "\<forall>b \<in> set init. \<not> P b \<Longrightarrow> P p \<Longrightarrow> List.find P (init @ [p]) = Some p"
  by (induction init) auto

lemma approval_parts_total:
  assumes "\<forall>q \<in> set qs. ir_kind q \<noteq> SessionLimit"
  shows "\<exists>ps. build_approval_batch_parts rs qs = Inr ps"
  using assms
proof (induction qs)
  case (Cons q qs)
  then obtain ps where "build_approval_batch_parts rs qs = Inr ps" by auto
  with Cons.prems show ?case by (cases "ir_kind q") (simp_all add: Let_def)
qed simp

definition is_approval_part :: "json \<Rightarrow> bool" where
  "is_approval_part j = (case j of JObj es \<Rightarrow> literal_field es ''type'' = Some ''tool-approval-response'' | _ \<Rightarrow> False)"

lemma approval_part_in:
  "build_approval_batch_parts rs qs = Inr ps \<Longrightarrow> q \<in> set qs \<Longrightarrow> is_approval_request q \<Longrightarrow> list_ex is_approval_part ps"
proof (induction qs arbitrary: ps)
  case (Cons a qs)
  have part: "is_approval_part (hd (build_approval_tool_response_parts q r)) \<and> build_approval_tool_response_parts q r \<noteq> []" for q r
    by (simp add: build_approval_tool_response_parts_def Let_def is_approval_part_def literal_field_def optional_field_def
        split: option.split)
  show ?case
  proof (cases "q = a")
    case True
    with Cons.prems obtain ps' where "ps = build_approval_tool_response_parts q (response_for rs (ir_request_id q)) @ ps'"
      by (cases "build_approval_batch_parts rs qs") (auto simp: is_approval_request_def Let_def)
    with part show ?thesis by (auto simp: list_ex_iff intro: hd_in_set)
  next
    case False
    with Cons.prems obtain ps' where "build_approval_batch_parts rs qs = Inr ps'"
      "list_ex is_approval_part ps' \<longrightarrow> list_ex is_approval_part ps"
      by (cases "build_approval_batch_parts rs qs"; cases "ir_kind a") (auto simp: Let_def)
    with Cons False show ?thesis by auto
  qed
qed simp

lemma tail_of_transcript:
  assumes "list_ex is_approval_part ps"
  shows "has_tail_approval_response (append_resolved_batch_transcript ms b ps)"
proof -
  have "ps \<noteq> []" using assms by auto
  then have "has_tail_approval_response (append_resolved_batch_transcript ms b ps)
      \<longleftrightarrow> list_ex (\<lambda>p. case p of
              OtherPart (JObj es) \<Rightarrow> literal_field es ''type'' = Some ''tool-approval-response'' | _ \<Rightarrow> False) (map OtherPart ps)"
    by (simp add: has_tail_approval_response_def append_resolved_batch_transcript_def)
  with assms show ?thesis by (auto simp: list_ex_iff is_approval_part_def split: json.splits)
qed

lemma distinct_first_set [simp]: "set (distinct_first xs) = set xs"
  by (simp add: distinct_first_def)

definition approved_now :: "(input_request \<Rightarrow> string option) \<Rightarrow> input_response list \<Rightarrow> pending_batch \<Rightarrow> string set" where
  "approved_now key rs b = {approval_key key q | q. q \<in> set (batch_requests b) \<and> is_approval_request q
     \<and> (\<exists>a \<in> set rs. response_request_id a = ir_request_id q \<and> response_option_id a = Some ''approve'')}"

lemma read_recorded_cong: "approved_value s = approved_value t \<Longrightarrow> read_recorded_approved_tools s = read_recorded_approved_tools t"
  by (simp add: read_recorded_approved_tools_def)

lemma map_filter_strings: "List.map_filter (\<lambda>v. case v of JStr k \<Rightarrow> Some k | _ \<Rightarrow> None) (map JStr ks) = ks"
  by (induction ks) simp_all

lemma recorded_after:
  "set (read_recorded_approved_tools (record_approved_tools b key rs s)) = set (read_recorded_approved_tools s) \<union> approved_now key rs b"
proof -
  let ?new = "map (approval_key key) (filter (\<lambda>q. is_approval_request q
      \<and> ir_request_id q \<in> set (answered_ids (filter (\<lambda>r. response_option_id r = Some ''approve'') rs))) (batch_requests b))"
  have new: "set ?new = approved_now key rs b"
    unfolding approved_now_def by (fastforce simp: image_iff)
  show ?thesis
  proof (cases "?new = []")
    case True
    then have "record_approved_tools b key rs s = s" by (simp add: record_approved_tools_def)
    with True new show ?thesis by simp
  next
    case False
    then have "approved_value (record_approved_tools b key rs s)
        = Some (JArr (map JStr (distinct_first (read_recorded_approved_tools s @ ?new))))"
      by (simp add: record_approved_tools_def Let_def)
    then have "set (read_recorded_approved_tools (record_approved_tools b key rs s))
        = set (read_recorded_approved_tools s @ ?new)"
      by (simp add: read_recorded_approved_tools_def map_filter_strings del: map_append set_append)
    with new show ?thesis by simp
  qed
qed

lemma no_approval_now: "\<not> has_approval p \<Longrightarrow> approved_now key rs (snd p) = {}"
  by (auto simp: has_approval_def approved_now_def list_ex_iff)

lemma finish_deferred:
  assumes "Option.bind i step_message = Some m"
  shows "deferred_message (finish_resolved_input True leftover limit ms rej res i s)
    \<and> (\<exists>d. get_deferred_step_input (hitl_pending (result_session (finish_resolved_input True leftover limit ms rej res i s))) = Some d
        \<and> step_message d = (case get_deferred_step_input (hitl_pending s) of
              None \<Rightarrow> Some m | Some e \<Rightarrow> coalesce_message (step_message e) (Some m)))"
proof -
  have k: "has_keys (deferred_part True leftover i)" "step_message (deferred_part True leftover i) = Some m"
    using assms by (simp_all add: has_keys_def deferred_part_def)
  then show ?thesis
    by (simp add: finish_resolved_input_def Let_def deferred_queue coalesce_turn_inputs_fields split: option.split)
qed

text \<open>A step resolves at most one approval, last, and keeps the turn input for the next step.\<close>

definition isolates_approval :: "resolver_input \<Rightarrow> indexed_batch list \<Rightarrow> resolve_result \<Rightarrow> bool" where
  "isolates_approval x R r \<longleftrightarrow> (\<forall>p \<in> set R. has_approval p \<longrightarrow>
     has_tail_approval_response (result_messages r) \<and> (\<forall>b \<in> set R. has_approval b \<longrightarrow> b = p)
     \<and> (\<forall>m. resolver_message x = Some m \<longrightarrow> deferred_message r
         \<and> (\<exists>d. get_deferred_step_input (hitl_pending (result_session r)) = Some d
             \<and> step_message d = (case get_deferred_step_input (hitl_pending (resolver_session x)) of
                   None \<Rightarrow> Some m | Some e \<Rightarrow> coalesce_message (step_message e) (Some m)))))"

definition records_approvals ::
    "(input_request \<Rightarrow> string option) \<Rightarrow> resolver_input \<Rightarrow> indexed_batch list \<Rightarrow> resolve_result \<Rightarrow> bool" where
  "records_approvals key x R r \<longleftrightarrow> set (read_recorded_approved_tools (result_session r))
     = set (read_recorded_approved_tools (resolver_session x)) \<union> (\<Union>p \<in> set R. approved_now key (resolver_responses x) (snd p))"

lemma records_none:
  assumes "approved_value (result_session r) = approved_value (resolver_session x)" "\<forall>p \<in> set R. \<not> has_approval p"
  shows "records_approvals key x R r \<and> isolates_approval x R r"
  using assms no_approval_now read_recorded_cong [OF assms(1)]
  by (simp add: records_approvals_def isolates_approval_def)

lemma resolved_part:
  assumes "\<forall>p \<in> set bs. \<forall>q \<in> set (batch_requests (snd p)). ir_kind q \<noteq> SessionLimit"
    and "approvals = filter has_approval bs" "questions = outside bs approvals"
    and "p \<in> set (approval_step_batches bs approvals questions rs)"
  shows "p \<in> set bs \<and> settled_by rs (snd p)"
proof -
  from assms(4) have m: "p \<in> set bs"
    and c: "p \<in> set (filter (\<lambda>(i, b). approval_answered rs b) approvals) \<or> p \<in> set (find_answered_question_batches questions rs)"
    unfolding approval_step_batches_def Let_def using prefix_order.trans set_mono_prefix [OF cut_at_approval_prefix]
    by fastforce+
  from c have "settled_by rs (snd p)"
  proof
    assume "p \<in> set (filter (\<lambda>(i, b). approval_answered rs b) approvals)"
    then have a: "has_approval p" "approval_answered rs (snd p)" using assms(2) by auto
    then obtain q where "q \<in> set (batch_requests (snd p))" "is_approval_request q"
      by (auto simp: has_approval_def list_ex_iff)
    moreover have "ir_kind r \<noteq> Question \<Longrightarrow> is_approval_request r" if "r \<in> set (batch_requests (snd p))" for r
      using that m assms(1) by (cases "ir_kind r") (auto simp: is_approval_request_def)
    ultimately show ?thesis
      using a(2) unfolding settled_by_def approval_answered_def list_all_iff by (auto 0 3)
  next
    assume f: "p \<in> set (find_answered_question_batches questions rs)"
    then have "\<not> has_approval p" using assms(2,3) by (auto simp: find_answered_iff)
    then have "ir_kind q = Question" if "q \<in> set (batch_requests (snd p))" for q
      using that m assms(1) by (cases "ir_kind q") (auto simp: has_approval_def list_ex_iff is_approval_request_def)
    then have "questions_only (snd p)" by (simp add: questions_only_def)
    with f show ?thesis by (auto simp: find_answered_iff intro: settled_question)
  qed
  with m show ?thesis ..
qed

lemma approval_spec:
  assumes ok: "resolver_ok x"
    and kinds: "\<forall>p \<in> set (resolver_batches x). \<forall>q \<in> set (batch_requests (snd p)). ir_kind q \<noteq> SessionLimit"
    and ap: "approvals = filter has_approval (resolver_batches x)" "questions = outside (resolver_batches x) approvals"
  obtains R r where "resolve_approval_input_batches x approvals questions key = Inr r" "accounts x R r"
    "\<forall>p \<in> set R. may_resolve x p" "records_approvals key x R r" "isolates_approval x R r"
proof -
  define rs where "rs = resolver_responses x"
  define R where "R = approval_step_batches (resolver_batches x) approvals questions rs"
  note eq = resolve_approval_input_batches_def [of x approvals questions key, unfolded Let_def, folded rs_def, folded R_def]
  have R: "p \<in> set (resolver_batches x) \<and> settled_by rs (snd p)" if "p \<in> set R" for p
    using resolved_part [OF kinds ap] that R_def by blast
  then have sub: "set R \<subseteq> set (resolver_batches x)" and may: "\<forall>p \<in> set R. may_resolve x p"
    by (auto simp: may_resolve_def rs_def)
  have dist: "distinct (resolver_batches x)"
    using ok by (auto simp: resolver_ok_def distinct_enumerate)
  show thesis
  proof (cases "R = []")
    case True
    define r where "r = (if resolver_message x = None then queue_whole x
        else continue_result x (responses_for_batches rs (outside (resolver_batches x) [])))"
    have "accounts x [] r"
      using accounts_queue_whole [OF ok] accounts_continue [OF ok] by (simp add: r_def rs_def)
    moreover have "approved_value (result_session r) = approved_value (resolver_session x)"
      by (simp add: r_def queue_whole_def continue_session)
    moreover have "resolve_approval_input_batches x approvals questions key = Inr r"
      using True by (simp add: eq r_def)
    ultimately show thesis using records_none [of r x "[]" key] that [of r "[]"] by simp
  next
    case False
    define ms where "ms = resolve_question_batches (filter (\<lambda>b. Some b \<noteq> List.find has_approval R) R) (base_history x) rs"
    let ?finish = "\<lambda>d messages rejected s. finish_resolved_input d (responses_for_batches rs (outside (resolver_batches x) R)) None
        messages rejected (resolved_batches_of R rs) (resolver_step x) s"
    show thesis
    proof (cases "List.find has_approval R")
      case None
      then have none: "\<forall>p \<in> set R. \<not> has_approval p" unfolding find_None_iff by blast
      obtain s' where s: "remove_batches (resolver_session x) R = Inr s'"
        "pending_of s' = Inr (nths (map snd (resolver_batches x)) (- (fst ` set R)))"
        "approved_value s' = approved_value (resolver_session x)"
        by (rule remove_then [OF ok refl])
      let ?r = "?finish (defer_turn_input x) ms [] s'"
      have "resolve_approval_input_batches x approvals questions key = Inr ?r"
        using False None s(1) by (simp add: eq ms_def)
      moreover have "accounts x R ?r" using accounts_finish [OF sub s(2)] by (simp add: rs_def)
      ultimately show thesis using that may records_none [of ?r x R key] none s(3) by simp
    next
      case (Some p)
      then have p: "p \<in> set R" "has_approval p" by (auto simp: find_Some_iff dest: nth_mem)
      have "distinct (filter f (resolver_batches x))" for f using dist by simp
      then obtain init where i: "R = init @ [p]" "\<forall>b \<in> set init. \<not> has_approval b"
        using cut_at_approval_first p unfolding R_def approval_step_batches_def Let_def by meson
      have "\<forall>q \<in> set (batch_requests (snd p)). ir_kind q \<noteq> SessionLimit" using kinds p R by blast
      then obtain ps where ps: "build_approval_batch_parts rs (batch_requests (snd p)) = Inr ps"
        using approval_parts_total by blast
      let ?s = "record_approved_tools (snd p) key rs (resolver_session x)"
      obtain s' where s: "remove_batches ?s R = Inr s'"
        "pending_of s' = Inr (nths (map snd (resolver_batches x)) (- (fst ` set R)))"
        "approved_value s' = approved_value ?s"
        "get_deferred_step_input (hitl_pending s') = get_deferred_step_input (hitl_pending ?s)"
        by (rule remove_then [OF ok record_approved_simps(1)])
      let ?m = "append_resolved_batch_transcript ms (snd p) ps"
      let ?rej = "case build_rejected_action_batch (snd p) rs of None \<Rightarrow> [] | Some r \<Rightarrow> [r]"
      let ?r = "?finish True ?m ?rej s'"
      have "resolve_approval_input_batches x approvals questions key = Inr ?r"
        using False Some s(1) ps by (simp add: eq ms_def resolve_approval_batch_def)
      moreover have "accounts x R ?r" using accounts_finish [OF sub s(2)] by (simp add: rs_def)
      moreover have "records_approvals key x R ?r"
      proof -
        have "set (read_recorded_approved_tools (result_session ?r)) = set (read_recorded_approved_tools ?s)"
          using read_recorded_cong [of "result_session ?r" ?s] s(3) by simp
        moreover have "(\<Union>b \<in> set R. approved_now key rs (snd b)) = approved_now key rs (snd p)"
          using i no_approval_now by simp
        ultimately show ?thesis by (simp add: records_approvals_def recorded_after rs_def)
      qed
      moreover have "isolates_approval x R ?r"
      proof -
        have "is_approval_request q \<and> q \<in> set (batch_requests (snd p)) \<Longrightarrow> list_ex is_approval_part ps" for q
          using approval_part_in [OF ps] by blast
        then have "has_tail_approval_response (result_messages ?r)"
          using p(2) tail_of_transcript by (auto simp: has_approval_def list_ex_iff)
        moreover have "get_deferred_step_input (hitl_pending s') = get_deferred_step_input (hitl_pending (resolver_session x))"
          using s(4) by simp
        then have "deferred_message ?r \<and> (\<exists>d. get_deferred_step_input (hitl_pending (result_session ?r)) = Some d
             \<and> step_message d = (case get_deferred_step_input (hitl_pending (resolver_session x)) of
                   None \<Rightarrow> Some m | Some e \<Rightarrow> coalesce_message (step_message e) (Some m)))"
          if "resolver_message x = Some m" for m
          using finish_deferred [of "resolver_step x" m _ _ ?m ?rej _ s'] that by (simp add: resolver_message_def)
        ultimately show ?thesis
          using i unfolding isolates_approval_def by auto
      qed
      ultimately show thesis using that may by blast
    qed
  qed
qed

section \<open>The whole resolution\<close>

definition mixed_batch :: "pending_batch \<Rightarrow> bool" where
  "mixed_batch b \<longleftrightarrow> (\<exists>q \<in> set (batch_requests b). ir_kind q = SessionLimit)
     \<and> (\<exists>q \<in> set (batch_requests b). ir_kind q \<noteq> SessionLimit)"

lemma classify_mixed: "mixed_batch b \<Longrightarrow> classify_pending_input_batch b = Inl MixedSessionLimitBatch"
  by (auto simp: mixed_batch_def classify_pending_input_batch_def is_session_limit_input_batch_def Let_def list_ex_iff)

definition domain_of :: "pending_batch \<Rightarrow> batch_domain" where
  "domain_of b = (if \<exists>q \<in> set (batch_requests b). ir_kind q = SessionLimit then SessionLimitDomain
     else if \<exists>q \<in> set (batch_requests b). is_approval_request q then ApprovalDomain else QuestionDomain)"

lemma classify_pure: "\<not> mixed_batch b \<Longrightarrow> classify_pending_input_batch b = Inr (domain_of b)"
  by (auto simp: mixed_batch_def classify_pending_input_batch_def is_session_limit_input_batch_def Let_def list_ex_iff
      domain_of_def)

lemma those_sum_error: "Inl e \<in> set xs \<Longrightarrow> set xs \<subseteq> insert (Inl e) (range Inr) \<Longrightarrow> those_sum xs = Inl e"
proof (induction xs)
  case (Cons x xs)
  show ?case
  proof (cases x)
    case (Inl f)
    with Cons.prems(2) have "f = e" by auto
    with Inl show ?thesis by simp
  next
    case (Inr y)
    with Cons show ?thesis by simp
  qed
qed simp

lemma those_sum_map_Inr: "those_sum (map (\<lambda>x. Inr (f x)) xs) = Inr (map f xs)"
  by (induction xs) simp_all

lemma route_error:
  assumes "\<exists>b \<in> set batches. mixed_batch b"
  shows "route_pending_input (enumerate 0 batches) = Inl MixedSessionLimitBatch"
proof -
  have c: "\<exists>d. classify_pending_input_batch b = Inr d \<or> classify_pending_input_batch b = Inl MixedSessionLimitBatch" for b
    using classify_mixed classify_pure by blast
  from assms obtain j where j: "j < length batches" "mixed_batch (batches ! j)" by (auto simp: in_set_conv_nth)
  then have "(j, batches ! j) \<in> set (enumerate 0 batches)" by (simp add: in_set_enumerate_eq)
  with classify_mixed [OF j(2)]
  have "Inl MixedSessionLimitBatch \<in> set (map (\<lambda>(i, b). classify_pending_input_batch b) (enumerate 0 batches))"
    by force
  moreover have "set (map (\<lambda>(i, b). classify_pending_input_batch b) (enumerate 0 batches))
      \<subseteq> insert (Inl MixedSessionLimitBatch) (range Inr)"
  proof
    fix x assume "x \<in> set (map (\<lambda>(i, b). classify_pending_input_batch b) (enumerate 0 batches))"
    then obtain b where "x = classify_pending_input_batch b" by auto
    with c [of b] show "x \<in> insert (Inl MixedSessionLimitBatch) (range Inr)" by auto
  qed
  ultimately have "those_sum (map (\<lambda>(i, b). classify_pending_input_batch b) (enumerate 0 batches)) = Inl MixedSessionLimitBatch"
    by (rule those_sum_error)
  then show ?thesis by (simp add: route_pending_input_def)
qed

lemma zip_map_self: "zip xs (map f xs) = map (\<lambda>x. (x, f x)) xs"
  by (induction xs) simp_all

lemma route_pure:
  assumes "\<forall>b \<in> set batches. \<not> mixed_batch b" and "bs = enumerate 0 batches"
  shows "route_pending_input bs = Inr
    (case List.find (\<lambda>p. domain_of (snd p) = SessionLimitDomain) bs of
       Some p \<Rightarrow> LimitRoute p
     | None \<Rightarrow> (let approvals = filter (\<lambda>p. domain_of (snd p) = ApprovalDomain) bs
               in if approvals = [] then QuestionRoute else ApprovalRoute approvals (outside bs approvals)))"
proof -
  have "map (\<lambda>(i, b). classify_pending_input_batch b) bs = map (\<lambda>p. Inr (domain_of (snd p))) bs"
    using assms classify_pure by (auto simp: case_prod_beta in_set_enumerate_eq)
  then have t: "those_sum (map (\<lambda>(i, b). classify_pending_input_batch b) bs) = Inr (map (\<lambda>p. domain_of (snd p)) bs)"
    by (simp only: those_sum_map_Inr)
  have f: "List.find (\<lambda>(b, d). d = SessionLimitDomain) (zip bs (map (\<lambda>p. domain_of (snd p)) bs))
      = map_option (\<lambda>p. (p, domain_of (snd p))) (List.find (\<lambda>p. domain_of (snd p) = SessionLimitDomain) bs)"
    unfolding zip_map_self by (induction bs) auto
  have a: "map fst (filter (\<lambda>(b, d). d = ApprovalDomain) (zip bs (map (\<lambda>p. domain_of (snd p)) bs)))
      = filter (\<lambda>p. domain_of (snd p) = ApprovalDomain) bs"
    unfolding zip_map_self by (simp add: filter_map comp_def)
  show ?thesis
    unfolding route_pending_input_def t map_sum.simps Let_def f a by (simp split: option.split)
qed

lemma domain_ApprovalDomain:
  "\<not> mixed_batch (snd p) \<Longrightarrow> domain_of (snd p) = ApprovalDomain \<longleftrightarrow>
     has_approval p \<and> (\<forall>q \<in> set (batch_requests (snd p)). ir_kind q \<noteq> SessionLimit)"
  by (auto simp: domain_of_def has_approval_def list_ex_iff mixed_batch_def is_approval_request_def)

lemma put_response_subset: "set (put_response r xs) \<subseteq> insert r (set xs)"
  by (induction xs) auto

lemma canonicalize_subset: "set (canonicalize_input_responses rs) \<subseteq> set rs"
proof -
  have "set (foldl (\<lambda>acc r. put_response r acc) acc rs) \<subseteq> set acc \<union> set rs" for acc
  proof (induction rs arbitrary: acc)
    case (Cons r rs)
    then show ?case using put_response_subset [of r acc] by fastforce
  qed simp
  from this [of "[]"] show ?thesis by (simp add: canonicalize_input_responses_def)
qed

lemma resolver_call_simps [simp]:
  "base_history (resolver_call base s bs step) = base"
  "resolver_batches (resolver_call base s bs step) = bs"
  "resolver_step (resolver_call base s bs step) = step"
  "resolver_responses (resolver_call base s bs step) =
     canonicalize_input_responses (list_of (Option.bind step input_responses))"
  "resolver_session (resolver_call base s bs step) = s"
  "resolver_message (resolver_call base s bs step) = Option.bind step step_message"
  by (simp_all add: resolver_call_def resolver_message_def)

lemma resolver_call_ok: "pending_of s = Inr batches \<Longrightarrow> resolver_ok (resolver_call base s (enumerate 0 batches) step)"
  using canonicalize_subset by (auto simp: resolver_ok_def)

lemma questions_all:
  assumes "\<forall>p \<in> set bs. domain_of (snd p) = QuestionDomain"
  shows "\<forall>p \<in> set bs. questions_only (snd p) \<and> \<not> has_approval p"
proof
  fix p assume "p \<in> set bs"
  with assms have d: "domain_of (snd p) = QuestionDomain" by blast
  have "ir_kind q = Question" if "q \<in> set (batch_requests (snd p))" for q
    using d that by (cases "ir_kind q") (auto simp: domain_of_def is_approval_request_def split: if_splits)
  then show "questions_only (snd p) \<and> \<not> has_approval p"
    by (auto simp: questions_only_def has_approval_def list_ex_iff is_approval_request_def)
qed

text \<open>What every outcome of a resolution with the batches of \<open>R\<close> satisfies.\<close>

definition resolves ::
    "(input_request \<Rightarrow> string option) \<Rightarrow> resolver_input \<Rightarrow> indexed_batch list \<Rightarrow> resolve_result \<Rightarrow> bool" where
  "resolves key x R r \<longleftrightarrow> accounts x R r \<and> (\<forall>p \<in> set R. may_resolve x p)
     \<and> records_approvals key x R r \<and> isolates_approval x R r"

lemma resolves_plain:
  assumes "accounts x R r" "\<forall>p \<in> set R. may_resolve x p"
    "approved_value (result_session r) = approved_value (resolver_session x)" "\<forall>p \<in> set R. \<not> has_approval p"
  shows "resolves key x R r"
  using assms records_none [OF assms(3,4)] by (simp add: resolves_def)

lemma resolves_nothing:
  "accounts x [] r \<Longrightarrow> approved_value (result_session r) = approved_value (resolver_session x) \<Longrightarrow> resolves key x [] r"
  by (rule resolves_plain) simp_all

lemma routed_spec:
  assumes ok: "resolver_ok x" and bs: "resolver_batches x = enumerate 0 batches"
    and pure: "\<forall>b \<in> set batches. \<not> mixed_batch b" and route: "route_pending_input (resolver_batches x) = Inr route"
  obtains R r where "resolve_routed dm key x route = Inr r" "resolves key x R r"
proof -
  let ?defer = "dm \<and> resolver_message x \<noteq> None
         \<and> (case route of ApprovalRoute a q \<Rightarrow> \<not> has_answered_approval_batch a (resolver_responses x) | _ \<Rightarrow> False)"
  let ?idle = "resolver_responses x = [] \<and> resolver_message x = None"
  consider (park) ?defer | (idle) "\<not> ?defer" ?idle | (route) "\<not> ?defer" "\<not> ?idle" by blast
  then show thesis
  proof cases
    case park
    have "accounts x [] ((queue_whole x)\<lparr>deferred_message := True\<rparr>)"
      by (rule accounts_same_session [OF accounts_queue_whole [OF ok]]) simp
    then have "resolves key x [] ((queue_whole x)\<lparr>deferred_message := True\<rparr>)"
      by (rule resolves_nothing) (simp add: queue_whole_def)
    moreover have "resolve_routed dm key x route = Inr ((queue_whole x)\<lparr>deferred_message := True\<rparr>)"
      unfolding resolve_routed_def using park by (rule if_P)
    ultimately show thesis using that by blast
  next
    case idle
    let ?d = "compact_step_input (resolver_step x)"
    let ?r = "plain_result UnresolvedOutcome (base_history x)
              (if step_context ?d \<noteq> None \<or> client_context ?d \<noteq> None \<or> output_schema ?d \<noteq> None
               then queue_deferred (resolver_session x) ?d else resolver_session x)"
    have "accounts x [] ?r" using idle pending_resolver [OF ok] by (simp add: accounts_def)
    then have "resolves key x [] ?r" by (rule resolves_nothing) simp
    moreover have "resolve_routed dm key x route = Inr ?r"
      unfolding resolve_routed_def if_not_P [OF idle(1)] if_P [OF idle(2)] Let_def by simp
    ultimately show thesis using that by blast
  next
    case route': route
    have eq: "resolve_routed dm key x route = (case route of
              LimitRoute p \<Rightarrow> resolve_session_limit_input x p
            | ApprovalRoute a q \<Rightarrow> resolve_approval_input_batches x a q key
            | QuestionRoute \<Rightarrow> resolve_question_only_input_batches x)"
      unfolding resolve_routed_def if_not_P [OF route'(1)] if_not_P [OF route'(2)] ..
    note r = sum.inject(2) [THEN iffD1, OF route [unfolded bs route_pure [OF pure refl]], symmetric]
    have mixed: "\<not> mixed_batch (snd p)" if "p \<in> set (resolver_batches x)" for p
    proof -
      have "snd p \<in> snd ` set (enumerate 0 batches)" using that bs by simp
      then have "snd p \<in> set (map snd (enumerate 0 batches))" unfolding set_map .
      then show ?thesis using pure by simp
    qed
    show thesis
    proof (cases "List.find (\<lambda>p. domain_of (snd p) = SessionLimitDomain) (resolver_batches x)")
      case (Some p)
      then have p: "p \<in> set (resolver_batches x)" "domain_of (snd p) = SessionLimitDomain"
        by (auto simp: find_Some_iff dest: nth_mem)
      have e: "resolve_routed dm key x route = resolve_session_limit_input x p"
        unfolding eq using r Some bs by simp
      obtain R res where R: "resolve_session_limit_input x p = Inr res" "accounts x R res" "set R \<subseteq> {p}"
        "\<forall>p \<in> set R. may_resolve x p" "approved_value (result_session res) = approved_value (resolver_session x)"
        by (rule session_limit_spec [OF ok p(1)])
      have "\<not> has_approval p"
        using mixed [OF p(1)] p(2) by (auto simp: domain_of_def mixed_batch_def has_approval_def list_ex_iff
            is_approval_request_def split: if_splits)
      with R(3) have "\<forall>b \<in> set R. \<not> has_approval b" by auto
      from that [OF _ resolves_plain [OF R(2,4,5) this]] e R(1) show thesis by simp
    next
      case None
      let ?a = "filter (\<lambda>p. domain_of (snd p) = ApprovalDomain) (resolver_batches x)"
      have nl: "domain_of (snd p) \<noteq> SessionLimitDomain" if "p \<in> set (resolver_batches x)" for p
        using None that unfolding find_None_iff by blast
      show thesis
      proof (cases "?a = []")
        case True
        then have "\<forall>p \<in> set (resolver_batches x). domain_of (snd p) = QuestionDomain"
        proof (intro ballI)
          fix p assume p: "p \<in> set (resolver_batches x)"
          with True have "domain_of (snd p) \<noteq> ApprovalDomain" unfolding filter_empty_conv by blast
          with nl [OF p] show "domain_of (snd p) = QuestionDomain" by (cases "domain_of (snd p)") simp_all
        qed
        note q = questions_all [OF this]
        obtain R res where R: "resolve_question_only_input_batches x = Inr res" "accounts x R res"
          "\<forall>p \<in> set R. may_resolve x p" "approved_value (result_session res) = approved_value (resolver_session x)"
          by (rule question_only_spec [OF ok]) (use q in blast)
        have "set R \<subseteq> set (resolver_batches x)" using R(2) by (simp add: accounts_def)
        then have none: "\<forall>b \<in> set R. \<not> has_approval b" using q by blast
        have "resolve_routed dm key x route = Inr res" unfolding eq using r True None bs R(1) by simp
        then show thesis by (rule that [OF _ resolves_plain [OF R(2,3,4) none]])
      next
        case False
        have kinds: "\<forall>p \<in> set (resolver_batches x). \<forall>q \<in> set (batch_requests (snd p)). ir_kind q \<noteq> SessionLimit"
        proof
          fix p assume "p \<in> set (resolver_batches x)"
          then have "domain_of (snd p) \<noteq> SessionLimitDomain" by (rule nl)
          then show "\<forall>q \<in> set (batch_requests (snd p)). ir_kind q \<noteq> SessionLimit" by (metis domain_of_def)
        qed
        have a: "?a = filter has_approval (resolver_batches x)"
          using kinds mixed by (intro filter_cong refl) (simp add: domain_ApprovalDomain)
        obtain R res where R: "resolve_approval_input_batches x ?a (outside (resolver_batches x) ?a) key = Inr res"
          "accounts x R res" "\<forall>p \<in> set R. may_resolve x p" "records_approvals key x R res" "isolates_approval x R res"
          by (rule approval_spec [OF ok kinds a refl])
        have "resolve_routed dm key x route = Inr res"
          unfolding eq using r False None bs R(1) by (simp add: Let_def)
        then show thesis by (rule that) (use R in \<open>simp add: resolves_def\<close>)
      qed
    qed
  qed
qed

lemma resolve_unfold:
  assumes "pending_of s = Inr batches" "batches \<noteq> []" "route_pending_input (enumerate 0 batches) = Inr route"
  shows "resolve_pending_input dm history key s i = resolve_routed dm key
    (resolver_call (case history of Some h \<Rightarrow> h | None \<Rightarrow> session_history (hitl_pending s)) s (enumerate 0 batches)
      (text_step route (enumerate 0 batches) i)) route"
  using assms unfolding resolve_pending_input_def pending_of_def Let_def by (simp cong: option.case_cong)

text \<open>C19: Resolving pending input fails exactly when the session's pending batches are unreadable or one of
  them mixes a session-limit prompt with other requests, whatever the answers: a result is only produced
  where they are readable and none is mixed, and it leaves a part of them, readable again.\<close>

theorem resolution_fails_only_on_bad_batches:
  "case resolve_pending_input dm history key s i of
     Inl (PendingInputError e) \<Rightarrow> get_pending_input_batches (pending_session_state (hitl_pending s)) = Inl e
   | Inl MixedSessionLimitBatch \<Rightarrow> (\<exists>bs. get_pending_input_batches (pending_session_state (hitl_pending s)) = Inr bs
       \<and> (\<exists>b \<in> set bs. (\<exists>q \<in> set (batch_requests b). ir_kind q = SessionLimit)
            \<and> (\<exists>q \<in> set (batch_requests b). ir_kind q \<noteq> SessionLimit)))
   | Inr r \<Rightarrow> (\<exists>bs left. get_pending_input_batches (pending_session_state (hitl_pending s)) = Inr bs
       \<and> \<not> (\<exists>b \<in> set bs. (\<exists>q \<in> set (batch_requests b). ir_kind q = SessionLimit)
              \<and> (\<exists>q \<in> set (batch_requests b). ir_kind q \<noteq> SessionLimit))
       \<and> get_pending_input_batches (pending_session_state (hitl_pending (result_session r))) = Inr left
       \<and> subseq left bs)"
proof (cases "pending_of s")
  case (Inl e)
  then show ?thesis by (simp add: resolve_pending_input_def pending_of_def)
next
  case (Inr batches)
  then have g: "get_pending_input_batches (pending_session_state (hitl_pending s)) = Inr batches"
    by (simp add: pending_of_def)
  consider (empty) "batches = []" | (mixed) "batches \<noteq> []" "\<exists>b \<in> set batches. mixed_batch b"
    | (pure) "batches \<noteq> []" "\<forall>b \<in> set batches. \<not> mixed_batch b" by blast
  then show ?thesis
  proof cases
    case empty
    with g show ?thesis by (simp add: resolve_pending_input_def)
  next
    case mixed
    then have "resolve_pending_input dm history key s i = Inl MixedSessionLimitBatch"
      using g route_error [OF mixed(2)] by (simp add: resolve_pending_input_def)
    with mixed(2) g show ?thesis by (simp add: mixed_batch_def)
  next
    case pure
    obtain route where route: "route_pending_input (enumerate 0 batches) = Inr route"
      using route_pure [OF pure(2) refl] by blast
    let ?x = "resolver_call (case history of Some h \<Rightarrow> h | None \<Rightarrow> session_history (hitl_pending s)) s (enumerate 0 batches)
      (text_step route (enumerate 0 batches) i)"
    obtain R r where r: "resolve_routed dm key ?x route = Inr r" "resolves key ?x R r"
      by (rule routed_spec [of ?x, OF resolver_call_ok [OF Inr] _ pure(2)]) (simp_all add: route)
    then have "pending_of (result_session r) = Inr (nths batches (- (fst ` set R)))"
      by (simp add: resolves_def accounts_def)
    with r(1) g subseq_nths pure(2) show ?thesis
      by (auto simp: resolve_unfold [OF Inr pure(1) route] pending_of_def mixed_batch_def)
  qed
qed

section \<open>What a resolution does, batch by batch\<close>

text \<open>The step input after its text has answered a request.\<close>

definition resolved_step :: "hitl_session \<Rightarrow> step_input option \<Rightarrow> step_input option" where
  "resolved_step s i =
     (case get_pending_input_batches (pending_session_state (hitl_pending s)) of
        Inl e \<Rightarrow> i
      | Inr batches \<Rightarrow>
          (case route_pending_input (enumerate 0 batches) of
             Inl e \<Rightarrow> i | Inr route \<Rightarrow> text_step route (enumerate 0 batches) i))"

definition resolved_responses :: "hitl_session \<Rightarrow> step_input option \<Rightarrow> input_response list" where
  "resolved_responses s i = canonicalize_input_responses (list_of (Option.bind (resolved_step s i) input_responses))"

lemma resolve_spec:
  assumes r: "resolve_pending_input dm history key s i = Inr r" and p: "pending_of s = Inr batches"
  obtains R x where "resolves key x R r" "resolver_batches x = enumerate 0 batches" "resolver_session x = s"
    "resolver_responses x = resolved_responses s i" "resolver_message x = Option.bind (resolved_step s i) step_message"
proof (cases "batches = []")
  case True
  let ?base = "case history of Some h \<Rightarrow> h | None \<Rightarrow> session_history (hitl_pending s)"
  let ?x = "resolver_call ?base s [] (resolved_step s i)"
  have "r = plain_result ContinueOutcome ?base s"
    using r p True by (simp add: resolve_pending_input_def pending_of_def)
  then have "resolves key ?x [] r" using p True by (intro resolves_nothing) (simp_all add: accounts_def)
  then show thesis using True by (intro that [of ?x "[]"]) (simp_all add: resolved_responses_def)
next
  case False
  have pure: "\<forall>b \<in> set batches. \<not> mixed_batch b"
  proof (rule ccontr)
    assume "\<not> ?thesis"
    then have "\<exists>b \<in> set batches. mixed_batch b" by blast
    with r p False route_error show False by (simp add: resolve_pending_input_def pending_of_def)
  qed
  obtain route where route: "route_pending_input (enumerate 0 batches) = Inr route"
    using route_pure [OF pure refl] by blast
  let ?x = "resolver_call (case history of Some h \<Rightarrow> h | None \<Rightarrow> session_history (hitl_pending s)) s (enumerate 0 batches)
    (text_step route (enumerate 0 batches) i)"
  obtain R r' where r': "resolve_routed dm key ?x route = Inr r'" "resolves key ?x R r'"
    by (rule routed_spec [of ?x, OF resolver_call_ok [OF p] _ pure]) (simp_all add: route)
  have "text_step route (enumerate 0 batches) i = resolved_step s i"
    using p route by (simp add: resolved_step_def pending_of_def)
  with r' r show thesis
    by (intro that [of ?x R]) (simp_all add: resolve_unfold [OF p False route] resolved_responses_def)
qed

lemma distinct_concat_disjoint:
  "distinct (concat xs) \<Longrightarrow> j < k \<Longrightarrow> k < length xs \<Longrightarrow> set (xs ! j) \<inter> set (xs ! k) = {}"
proof (induction xs arbitrary: j k)
  case (Cons x xs)
  then obtain k' where k: "k = Suc k'" by (cases k) auto
  with Cons.prems have k': "k' < length xs" by simp
  show ?case
  proof (cases j)
    case 0
    have "set (xs ! k') \<subseteq> set (concat xs)" using nth_mem [OF k'] by auto
    with Cons.prems(1) 0 k show ?thesis by auto
  next
    case (Suc j')
    with Cons.prems k k' Cons.IH [of j' k'] show ?thesis by simp
  qed
qed simp

lemma same_batch_same_place:
  assumes "distinct (batch_request_ids bs)" "j < length bs" "k < length bs" "bs ! j = bs ! k" "batch_requests (bs ! j) \<noteq> []"
  shows "j = k"
proof (rule ccontr)
  assume ne: "j \<noteq> k"
  have d: "distinct (concat (map batch_ids bs))" using assms(1) by (simp add: batch_request_ids_def batch_ids_def [abs_def])
  have "set (batch_ids (bs ! j)) \<inter> set (batch_ids (bs ! k)) = {}"
  proof (cases "j < k")
    case True
    with distinct_concat_disjoint [OF d this] assms(2,3) show ?thesis by simp
  next
    case False
    with ne have "k < j" by simp
    with distinct_concat_disjoint [OF d this] assms(2,3) show ?thesis by auto
  qed
  with assms(4,5) show False by (auto simp: batch_ids_def)
qed

text \<open>A batch with requests has left exactly when it is one of the resolved ones.\<close>

lemma left_iff:
  assumes acc: "accounts x R r" and b: "resolver_batches x = enumerate 0 batches"
    and d: "distinct (batch_request_ids batches)" and left: "pending_of (result_session r) = Inr left"
    and j: "j < length batches" and ne: "batch_requests (batches ! j) \<noteq> []"
  shows "batches ! j \<in> set left \<longleftrightarrow> (j, batches ! j) \<notin> set R"
proof -
  have R: "set R \<subseteq> set (enumerate 0 batches)" and l: "left = nths batches (- (fst ` set R))"
    using acc left b by (simp_all add: accounts_def)
  have "(j, batches ! j) \<in> set R \<longleftrightarrow> j \<in> fst ` set R"
    using R by (force simp: in_set_enumerate_eq)
  moreover have "batches ! j \<in> set left \<longleftrightarrow> j \<notin> fst ` set R"
    using same_batch_same_place [OF d j _ _ ne] j by (auto simp: l set_nths)
  ultimately show ?thesis by simp
qed

lemma put_response_keeps: "a \<in> set xs \<Longrightarrow> response_request_id t \<noteq> response_request_id a \<Longrightarrow> a \<in> set (put_response t xs)"
  by (induction xs) auto

lemma canonicalize_append:
  assumes "a \<in> set (canonicalize_input_responses rs)" "\<forall>t \<in> set ts. response_request_id t \<noteq> response_request_id a"
  shows "a \<in> set (canonicalize_input_responses (rs @ ts))"
  using assms
proof (induction ts rule: rev_induct)
  case (snoc t ts)
  then have "a \<in> set (canonicalize_input_responses (rs @ ts))" by simp
  with snoc.prems(2) put_response_keeps show ?case by (simp add: canonicalize_input_responses_def)
qed simp

lemma text_responses_in:
  "t \<in> set (resolve_text_to_responses txt qs) \<Longrightarrow> response_request_id t \<in> ir_request_id ` set qs"
  by (auto simp: resolve_text_to_responses_def set_map_filter resolve_text_to_response_def Let_def
      split: if_splits option.splits)

lemma text_keeps_responses:
  assumes "a \<in> set (canonicalize_input_responses (list_of (Option.bind i input_responses)))"
  shows "a \<in> set (canonicalize_input_responses (list_of (Option.bind (resolve_text_message_input b i) input_responses)))"
proof -
  let ?own = "list_of (Option.bind i input_responses)"
  have "\<exists>ts. list_of (Option.bind (resolve_text_message_input b i) input_responses) = ?own @ ts
      \<and> (\<forall>t \<in> set ts. response_request_id t \<notin> response_request_id ` set ?own)"
  proof (cases i)
    case None
    then show ?thesis by (simp add: resolve_text_message_input_def)
  next
    case i: (Some x)
    have same: ?thesis if "resolve_text_message_input b i = Some x"
      using that i by simp
    show ?thesis
    proof (cases "step_message x")
      case None
      with i show ?thesis by (intro same) (simp add: resolve_text_message_input_def)
    next
      case (Some c)
      show ?thesis
      proof (cases c)
        case (ArrayContent ps)
        with i Some show ?thesis by (intro same) (simp add: resolve_text_message_input_def)
      next
        case (StringContent str)
        let ?qs = "filter (\<lambda>q. \<not> List.member (list_of (batch_auth_required b)) (ir_request_id q)) (batch_requests b)"
        let ?hit = "list_ex (\<lambda>r. List.member (batch_ids b) (response_request_id r)) (list_of (input_responses x))"
        let ?ts = "resolve_text_to_responses str ?qs"
        show ?thesis
        proof (cases "?hit \<or> ?ts = []")
          case True
          with i Some StringContent show ?thesis
            by (intro same) (auto simp: resolve_text_message_input_def Let_def)
        next
          case False
          then have "Option.bind (resolve_text_message_input b i) input_responses
              = input_responses (compact_step_input (Some (x\<lparr>input_responses := Some (list_of (input_responses x) @ ?ts),
                   message_consumed := True, step_message := None\<rparr>)))"
            using i Some StringContent by (simp add: resolve_text_message_input_def Let_def)
          then have "list_of (Option.bind (resolve_text_message_input b i) input_responses) = ?own @ ?ts"
            using i by simp
          moreover have "response_request_id t \<notin> response_request_id ` set ?own" if "t \<in> set ?ts" for t
            using text_responses_in [OF that] False i by (auto simp: list_ex_iff)
          ultimately show ?thesis by blast
        qed
      qed
    qed
  qed
  then obtain ts where ts: "list_of (Option.bind (resolve_text_message_input b i) input_responses) = ?own @ ts"
    "\<forall>t \<in> set ts. response_request_id t \<notin> response_request_id ` set ?own" by blast
  have "a \<in> set ?own" using assms canonicalize_subset by blast
  with ts(2) have "\<forall>t \<in> set ts. response_request_id t \<noteq> response_request_id a" by force
  with canonicalize_append [OF assms] ts(1) show ?thesis by simp
qed

lemma resolved_keeps_responses:
  "a \<in> set (canonicalize_input_responses (list_of (Option.bind i input_responses))) \<Longrightarrow> a \<in> set (resolved_responses s i)"
  unfolding resolved_responses_def resolved_step_def text_step_def
  by (auto split: sum.split option.split intro: text_keeps_responses)

lemma enumerate_place: "p \<in> set (enumerate 0 bs) \<longleftrightarrow> fst p < length bs \<and> bs ! fst p = snd p"
  by (cases p) (auto simp: in_set_enumerate_eq)

text \<open>C16: No answer is lost: when a resolution has a result, every answer of the step input to a pending
  request has either settled the request's batch or waits in the deferred input for a later step.\<close>

theorem answers_settle_or_wait:
  assumes r: "resolve_pending_input dm history key s i = Inr r"
    and bs: "get_pending_input_batches (pending_session_state (hitl_pending s)) = Inr bs"
    and left: "get_pending_input_batches (pending_session_state (hitl_pending (result_session r))) = Inr left"
    and a: "a \<in> set (canonicalize_input_responses (list_of (Option.bind i input_responses)))"
    and b: "b \<in> set bs" "response_request_id a \<in> set (map ir_request_id (batch_requests b))" "b \<in> set left"
  shows "\<exists>d. get_deferred_step_input (hitl_pending (result_session r)) = Some d \<and> a \<in> set (list_of (input_responses d))"
proof -
  obtain R x where x: "resolves key x R r" "resolver_batches x = enumerate 0 bs" "resolver_session x = s"
    "resolver_responses x = resolved_responses s i"
    by (rule resolve_spec [OF r bs [folded pending_of_def]])
  from b obtain j where j: "j < length bs" "bs ! j = b" by (auto simp: in_set_conv_nth)
  have acc: "accounts x R r" using x(1) by (simp add: resolves_def)
  have "batch_requests (bs ! j) \<noteq> []" using b(2) j by auto
  then have "(j, b) \<notin> set R"
    using left_iff [OF acc x(2) get_batches_distinct [OF bs] left [folded pending_of_def] j(1)] b(3) j(2) by simp
  moreover have "(j, b) \<in> set (resolver_batches x)" using j x(2) by (simp add: in_set_enumerate_eq)
  moreover have "a \<in> set (resolver_responses x)" using resolved_keeps_responses [OF a] x(4) by simp
  ultimately have "a \<in> set (deferred_responses (result_session r))"
    using acc b(2) unfolding accounts_def by (metis batch_ids_def snd_conv)
  then show ?thesis
    by (cases "get_deferred_step_input (hitl_pending (result_session r))") (simp_all add: deferred_responses_def)
qed

text \<open>C18: A batch only leaves the pending ones when the answers reach one of its requests and every
  approval and session-limit request in it, or when it is the only batch, asks questions only and the
  user continued with a message.\<close>

theorem batches_leave_answered:
  assumes r: "resolve_pending_input dm history key s i = Inr r"
    and bs: "get_pending_input_batches (pending_session_state (hitl_pending s)) = Inr bs"
    and left: "get_pending_input_batches (pending_session_state (hitl_pending (result_session r))) = Inr left"
    and b: "b \<in> set bs" "b \<notin> set left"
  shows "((\<exists>q \<in> set (batch_requests b). ir_request_id q \<in> response_request_id ` set (resolved_responses s i))
      \<and> (\<forall>q \<in> set (batch_requests b). ir_kind q \<noteq> Question \<longrightarrow>
           ir_request_id q \<in> response_request_id ` set (resolved_responses s i)))
    \<or> (bs = [b] \<and> (\<forall>q \<in> set (batch_requests b). ir_kind q = Question)
        \<and> Option.bind (resolved_step s i) step_message \<noteq> None)"
proof -
  obtain R x where x: "resolves key x R r" "resolver_batches x = enumerate 0 bs" "resolver_session x = s"
    "resolver_responses x = resolved_responses s i" "resolver_message x = Option.bind (resolved_step s i) step_message"
    by (rule resolve_spec [OF r bs [folded pending_of_def]])
  have acc: "accounts x R r" and may: "\<forall>p \<in> set R. may_resolve x p" using x(1) by (simp_all add: resolves_def)
  from b obtain j where j: "j < length bs" "bs ! j = b" by (auto simp: in_set_conv_nth)
  have R: "set R \<subseteq> set (enumerate 0 bs)" and l: "left = nths bs (- (fst ` set R))"
    using acc left x(2) by (simp_all add: accounts_def pending_of_def)
  have "j \<in> fst ` set R" using b j by (auto simp: l set_nths)
  then obtain p where p: "p \<in> set R" "fst p = j" by auto
  with R j have "snd p = b" by (auto simp: enumerate_place)
  moreover have "may_resolve x p" using may p(1) by blast
  moreover have "resolver_batches x = [p] \<Longrightarrow> bs = [snd p]"
    using x(2) by (metis list.simps(8,9) map_snd_enumerate)
  ultimately show ?thesis
    using x(4,5) by (auto simp: may_resolve_def settled_by_def questions_only_def)
qed

text \<open>C17: A tool approval resolves in isolation from other approvals and from the message: the transcript then ends with the tool message that
  carries the approval, which is where the model library looks for it; no other approval batch leaves
  in the same step, and a message of the step is deferred behind it.\<close>

theorem approval_resolves_in_isolation:
  assumes r: "resolve_pending_input dm history key s i = Inr r"
    and bs: "get_pending_input_batches (pending_session_state (hitl_pending s)) = Inr bs"
    and left: "get_pending_input_batches (pending_session_state (hitl_pending (result_session r))) = Inr left"
    and b: "b \<in> set bs" "b \<notin> set left" "q \<in> set (batch_requests b)" "is_approval_request q"
  shows "has_tail_approval_response (result_messages r)
    \<and> (\<forall>c \<in> set bs. c \<notin> set left \<and> list_ex is_approval_request (batch_requests c) \<longrightarrow> c = b)
    \<and> (\<forall>m. Option.bind (resolved_step s i) step_message = Some m \<longrightarrow> deferred_message r
        \<and> (\<exists>d. get_deferred_step_input (hitl_pending (result_session r)) = Some d
            \<and> step_message d = (case get_deferred_step_input (hitl_pending s) of
                  None \<Rightarrow> Some m | Some e \<Rightarrow> coalesce_message (step_message e) (Some m))))"
proof -
  obtain R x where x: "resolves key x R r" "resolver_batches x = enumerate 0 bs" "resolver_session x = s"
    "resolver_responses x = resolved_responses s i" "resolver_message x = Option.bind (resolved_step s i) step_message"
    by (rule resolve_spec [OF r bs [folded pending_of_def]])
  have acc: "accounts x R r" and iso: "isolates_approval x R r" using x(1) by (simp_all add: resolves_def)
  have gone: "\<exists>p \<in> set R. snd p = c" if "c \<in> set bs" "c \<notin> set left" "list_ex is_approval_request (batch_requests c)" for c
  proof -
    from that obtain j where j: "j < length bs" "bs ! j = c" by (auto simp: in_set_conv_nth)
    have "batch_requests (bs ! j) \<noteq> []" using that(3) j by auto
    then have "(j, bs ! j) \<in> set R"
      using left_iff [OF acc x(2) get_batches_distinct [OF bs] left [folded pending_of_def] j(1)] that(2) j(2) by blast
    with j(2) show ?thesis by force
  qed
  have h: "has_approval p \<longleftrightarrow> list_ex is_approval_request (batch_requests (snd p))" for p by (simp add: has_approval_def)
  from b have a: "list_ex is_approval_request (batch_requests b)" by (auto simp: list_ex_iff)
  with gone [OF b(1,2)] obtain p where p: "p \<in> set R" "snd p = b" "has_approval p" by (auto simp: h)
  note I = iso [unfolded isolates_approval_def x(3,5), rule_format (no_asm), OF p(1,3)]
  have "c = b" if "c \<in> set bs" "c \<notin> set left" "list_ex is_approval_request (batch_requests c)" for c
    using gone [OF that] that(3) I p(2) h by metis
  with I show ?thesis by blast
qed

text \<open>
  The tools recorded as approved after a resolution are those recorded before and those whose
  approval request was answered with \<open>approve\<close> in a batch that left: no other answer approves a tool,
  and no approval is forgotten.
\<close>

lemma approved_exactly_when_answered:
  assumes r: "resolve_pending_input dm history key s i = Inr r"
    and bs: "get_pending_input_batches (pending_session_state (hitl_pending s)) = Inr bs"
    and left: "get_pending_input_batches (pending_session_state (hitl_pending (result_session r))) = Inr left"
  shows "set (read_recorded_approved_tools (result_session r)) = set (read_recorded_approved_tools s)
    \<union> {approval_key key q | q b a. b \<in> set bs \<and> b \<notin> set left \<and> q \<in> set (batch_requests b) \<and> is_approval_request q
        \<and> a \<in> set (resolved_responses s i) \<and> response_request_id a = ir_request_id q
        \<and> response_option_id a = Some ''approve''}" (is "_ = _ \<union> ?new")
proof -
  obtain R x where x: "resolves key x R r" "resolver_batches x = enumerate 0 bs" "resolver_session x = s"
    "resolver_responses x = resolved_responses s i"
    by (rule resolve_spec [OF r bs [folded pending_of_def]])
  have acc: "accounts x R r" and rec: "records_approvals key x R r" using x(1) by (simp_all add: resolves_def)
  have gone: "b \<notin> set left \<longleftrightarrow> (\<exists>p \<in> set R. snd p = b)" if b: "b \<in> set bs" "q \<in> set (batch_requests b)" for b q
  proof -
    from b obtain j where j: "j < length bs" "bs ! j = b" by (auto simp: in_set_conv_nth)
    have ne: "batch_requests (bs ! j) \<noteq> []" using b(2) j by auto
    note iff = left_iff [OF acc x(2) get_batches_distinct [OF bs] left [folded pending_of_def] j(1) ne]
    have "p = (j, b)" if "p \<in> set R" "snd p = b" for p
    proof -
      have "fst p < length bs" "bs ! fst p = b"
        using acc that x(2) by (auto simp: accounts_def enumerate_place)
      then have "fst p = j"
        using same_batch_same_place [OF get_batches_distinct [OF bs] j(1) _ _ ne, of "fst p"] j(2) by simp
      with that(2) show ?thesis by auto
    qed
    with iff j(2) show ?thesis by force
  qed
  have R: "snd p \<in> set bs" if "p \<in> set R" for p
  proof -
    have "p \<in> set (enumerate 0 bs)" using acc that x(2) by (auto simp: accounts_def)
    then have "fst p < length bs" "snd p = bs ! fst p" by (simp_all add: enumerate_place)
    then show ?thesis by simp
  qed
  have "(\<Union>p \<in> set R. approved_now key (resolver_responses x) (snd p)) = ?new"
  proof (intro equalityI subsetI)
    fix k assume "k \<in> (\<Union>p \<in> set R. approved_now key (resolver_responses x) (snd p))"
    then obtain p q a where p: "p \<in> set R" "q \<in> set (batch_requests (snd p))" "is_approval_request q"
      "a \<in> set (resolved_responses s i)" "response_request_id a = ir_request_id q" "response_option_id a = Some ''approve''"
      "k = approval_key key q"
      by (auto simp: approved_now_def x(4))
    with R gone have "snd p \<in> set bs" "snd p \<notin> set left" by blast+
    with p show "k \<in> ?new" by blast
  next
    fix k assume "k \<in> ?new"
    then obtain q b a where b: "k = approval_key key q" "b \<in> set bs" "b \<notin> set left" "q \<in> set (batch_requests b)"
      "is_approval_request q" "a \<in> set (resolved_responses s i)" "response_request_id a = ir_request_id q"
      "response_option_id a = Some ''approve''" by blast
    with gone obtain p where "p \<in> set R" "snd p = b" by blast
    with b show "k \<in> (\<Union>p \<in> set R. approved_now key (resolver_responses x) (snd p))"
      unfolding approved_now_def x(4) by blast
  qed
  with rec x(3) show ?thesis by (simp add: records_approvals_def)
qed

section \<open>A resolution\<close>

definition sample_request :: "input_request_kind \<Rightarrow> string \<Rightarrow> input_request" where
  "sample_request kind i = \<lparr>ir_action = \<lparr>tca_call_id = ''call_'' @ i, tca_input = JObj [], tca_tool_name = ''bash''\<rparr>,
     ir_allow_freeform = None, ir_display = None, ir_kind = kind, ir_options = None, ir_prompt = ''?'', ir_request_id = i\<rparr>"

definition sample_batch :: "input_request_kind \<Rightarrow> string \<Rightarrow> pending_batch" where
  "sample_batch kind i = \<lparr>batch_event = None, batch_root_turn = None, batch_requests = [sample_request kind i],
     batch_auth_required = None, batch_messages = []\<rparr>"

definition sample_session :: hitl_session where
  "sample_session = \<lparr>hitl_pending = \<lparr>pending_session_state = Some (empty_state\<lparr>pending_batches :=
       Some [Some (sample_batch ToolApproval ''a''), Some (sample_batch Question ''q''), Some (sample_batch ToolApproval ''b'')]\<rparr>),
     session_history = []\<rparr>, approved_value = None\<rparr>"

definition sample_answer :: "string \<Rightarrow> input_response" where
  "sample_answer i = \<lparr>response_option_id = Some ''approve'', response_request_id = i, response_text = None\<rparr>"

definition sample_step :: step_input where
  "sample_step = empty_step_input\<lparr>input_responses := Some [sample_answer ''a'', sample_answer ''b''],
     step_message := Some (StringContent ''and then?'')\<rparr>"

text \<open>Two approvals are answered at once: the first resolves, the second and the message wait.\<close>

definition sample_result_ok :: "resolve_result \<Rightarrow> bool" where
  "sample_result_ok r \<longleftrightarrow> get_pending_input_batches (pending_session_state (hitl_pending (result_session r)))
     = Inr [sample_batch Question ''q'', sample_batch ToolApproval ''b'']"

lemma sample_resolution:
  obtains r where "resolve_pending_input False None (\<lambda>_. None) sample_session (Some sample_step) = Inr r" "sample_result_ok r"
    "get_pending_input_batches (pending_session_state (hitl_pending sample_session))
       = Inr [sample_batch ToolApproval ''a'', sample_batch Question ''q'', sample_batch ToolApproval ''b'']"
proof -
  have "case resolve_pending_input False None (\<lambda>_. None) sample_session (Some sample_step) of
      Inl e \<Rightarrow> False | Inr r \<Rightarrow> sample_result_ok r" by code_simp
  moreover have "get_pending_input_batches (pending_session_state (hitl_pending sample_session))
       = Inr [sample_batch ToolApproval ''a'', sample_batch Question ''q'', sample_batch ToolApproval ''b'']" by code_simp
  ultimately show thesis using that by (auto split: sum.splits)
qed

lemmas sample_defs = sample_batch_def sample_request_def sample_answer_def sample_step_def sample_result_ok_def

lemma answers_settle_or_wait_witness:
  "\<exists>r d. resolve_pending_input False None (\<lambda>_. None) sample_session (Some sample_step) = Inr r
     \<and> get_deferred_step_input (hitl_pending (result_session r)) = Some d
     \<and> sample_answer ''b'' \<in> set (list_of (input_responses d))"
proof -
  obtain r where r: "resolve_pending_input False None (\<lambda>_. None) sample_session (Some sample_step) = Inr r" "sample_result_ok r"
    "get_pending_input_batches (pending_session_state (hitl_pending sample_session))
       = Inr [sample_batch ToolApproval ''a'', sample_batch Question ''q'', sample_batch ToolApproval ''b'']"
    by (rule sample_resolution)
  have "sample_answer ''b'' \<in> set (canonicalize_input_responses (list_of (Option.bind (Some sample_step) input_responses)))"
    by code_simp
  from answers_settle_or_wait [OF r(1,3) r(2) [unfolded sample_result_ok_def] this, of "sample_batch ToolApproval ''b''"] r(1)
  show ?thesis by (auto simp: sample_defs)
qed

lemma batches_leave_answered_witness:
  "ir_request_id (sample_request ToolApproval ''a'') \<in> response_request_id ` set (resolved_responses sample_session (Some sample_step))"
proof -
  obtain r where r: "resolve_pending_input False None (\<lambda>_. None) sample_session (Some sample_step) = Inr r" "sample_result_ok r"
    "get_pending_input_batches (pending_session_state (hitl_pending sample_session))
       = Inr [sample_batch ToolApproval ''a'', sample_batch Question ''q'', sample_batch ToolApproval ''b'']"
    by (rule sample_resolution)
  from batches_leave_answered [OF r(1,3) r(2) [unfolded sample_result_ok_def], of "sample_batch ToolApproval ''a''"]
  show ?thesis by (simp add: sample_defs)
qed

lemma approval_resolves_in_isolation_witness:
  "\<exists>r. resolve_pending_input False None (\<lambda>_. None) sample_session (Some sample_step) = Inr r
     \<and> has_tail_approval_response (result_messages r)"
proof -
  obtain r where r: "resolve_pending_input False None (\<lambda>_. None) sample_session (Some sample_step) = Inr r" "sample_result_ok r"
    "get_pending_input_batches (pending_session_state (hitl_pending sample_session))
       = Inr [sample_batch ToolApproval ''a'', sample_batch Question ''q'', sample_batch ToolApproval ''b'']"
    by (rule sample_resolution)
  from approval_resolves_in_isolation [OF r(1,3) r(2) [unfolded sample_result_ok_def], of "sample_batch ToolApproval ''a''"
      "sample_request ToolApproval ''a''"] r(1)
  show ?thesis by (simp add: sample_defs is_approval_request_def)
qed

lemma approved_exactly_when_answered_witness:
  "\<exists>r. resolve_pending_input False None (\<lambda>_. None) sample_session (Some sample_step) = Inr r
     \<and> ''bash'' \<in> set (read_recorded_approved_tools (result_session r))"
proof -
  obtain r where r: "resolve_pending_input False None (\<lambda>_. None) sample_session (Some sample_step) = Inr r" "sample_result_ok r"
    "get_pending_input_batches (pending_session_state (hitl_pending sample_session))
       = Inr [sample_batch ToolApproval ''a'', sample_batch Question ''q'', sample_batch ToolApproval ''b'']"
    by (rule sample_resolution)
  let ?b = "sample_batch ToolApproval ''a''" and ?q = "sample_request ToolApproval ''a''"
  have "sample_answer ''a'' \<in> set (resolved_responses sample_session (Some sample_step))" by code_simp
  moreover have "?b \<notin> set [sample_batch Question ''q'', sample_batch ToolApproval ''b'']" "?q \<in> set (batch_requests ?b)"
    "is_approval_request ?q" "response_request_id (sample_answer ''a'') = ir_request_id ?q"
    "response_option_id (sample_answer ''a'') = Some ''approve''" "approval_key (\<lambda>_. None) ?q = ''bash''"
    by (simp_all add: sample_defs is_approval_request_def approval_key_def)
  ultimately have "''bash'' \<in> set (read_recorded_approved_tools (result_session r))"
    unfolding approved_exactly_when_answered [OF r(1,3) r(2) [unfolded sample_result_ok_def]]
    by (intro UnI2 CollectI exI [of _ ?q] exI [of _ ?b] exI [of _ "sample_answer ''a''"]) simp
  with r(1) show ?thesis by blast
qed

text \<open>Deferring drops the framework's mark of a message: it returns as a message of the user.\<close>

lemma deferring_drops_the_mark:
  "framework_kind (compact_step_input i) = None" "framework_kind (deferred_part defer leftover i) = None"
  by (simp_all add: compact_step_input_def deferred_part_def empty_step_input_def attach_client_context_def split: option.split)

end
