(* ===== verification/Turn_Emission.thy ===== *)
theory Turn_Emission
  imports Step_Input
begin

text \<open>
  The lifecycle events of a turn (packages/eve/src/harness/emission.ts), the emission state they
  advance (emission-state.ts, active-turn-id.ts), the end of a cancelled turn
  (cancelled-turn-emission.ts) and the turn-scoped client context that ends with the
  turn (turn-client-context.ts). An emitting function returns its events in order with its new state.
\<close>

section \<open>State\<close>

record emission_state =
  output_started :: bool
  session_started :: bool
  emission_sequence :: nat
  emission_step :: nat
  emission_turn :: string

definition DEFAULT_EMISSION_STATE :: emission_state where
  "DEFAULT_EMISSION_STATE =
     \<lparr>output_started = False, session_started = False, emission_sequence = 0, emission_step = 0, emission_turn = []\<rparr>"

record turn_client_context =
  context_insertion_index :: nat
  context_messages :: "string list"
  context_turn_id :: string

record emission_session =
  emission_value :: "emission_state option"
  client_context_value :: "turn_client_context option"

definition get_harness_emission_state :: "emission_session \<Rightarrow> emission_state" where
  "get_harness_emission_state s = (case emission_value s of None \<Rightarrow> DEFAULT_EMISSION_STATE | Some st \<Rightarrow> st)"

definition is_harness_between_turns :: "emission_session \<Rightarrow> bool" where
  "is_harness_between_turns s \<longleftrightarrow> emission_turn (get_harness_emission_state s) = []"

definition get_turn_client_context_state :: "emission_session \<Rightarrow> string \<Rightarrow> turn_client_context option" where
  "get_turn_client_context_state s turn =
     (case client_context_value s of
        Some c \<Rightarrow> if context_turn_id c = turn then Some c else None
      | None \<Rightarrow> None)"

definition set_turn_client_context_state :: "emission_session \<Rightarrow> turn_client_context \<Rightarrow> emission_session" where
  "set_turn_client_context_state s c = s\<lparr>client_context_value := Some c\<rparr>"

definition clear_turn_client_context_state :: "emission_session \<Rightarrow> emission_session" where
  "clear_turn_client_context_state s = s\<lparr>client_context_value := None\<rparr>"

definition set_harness_emission_state :: "emission_session \<Rightarrow> emission_state \<Rightarrow> emission_session" where
  "set_harness_emission_state s st =
     (if emission_turn st = [] then clear_turn_client_context_state s else s)\<lparr>emission_value := Some st\<rparr>"

definition turn_name :: "nat \<Rightarrow> string" where
  "turn_name n = ''turn_'' @ show_nat n"

definition active_turn_id :: "emission_state \<Rightarrow> string" where
  "active_turn_id st = (if emission_turn st = [] then turn_name (emission_sequence st) else emission_turn st)"

section \<open>Events\<close>

datatype run_mode = ConversationMode | TaskMode

record failed_payload =
  failed_code :: string
  failed_details :: "json option"
  failed_message :: string

text \<open>The runtime identity and trace context of the first two events are payload and left out.\<close>

datatype emission_event =
    SessionStartedEvent
  | TurnStartedEvent nat string
  | MessageReceivedEvent bool user_content nat string
  | StepStartedEvent string nat nat string
  | InputRequestedEvent "input_request list" nat nat string
  | StepFailedEvent failed_payload nat nat string
  | TurnFailedEvent failed_payload nat string
  | SessionFailedEvent failed_payload string
  | TurnCompletedEvent nat string
  | SessionWaitingEvent
  | SessionCompletedEvent
  | TurnCancelledEvent nat string

definition emit_turn_preamble :: "step_input \<Rightarrow> emission_state \<Rightarrow> emission_event list \<times> emission_state" where
  "emit_turn_preamble i st =
     (let steering = (emission_turn st \<noteq> []);
          turn = (if steering then emission_turn st else turn_name (emission_sequence st));
          events = (if session_started st then [] else [SessionStartedEvent])
            @ (if steering then [] else [TurnStartedEvent (emission_sequence st) turn])
            @ (case step_message i of
                 None \<Rightarrow> []
               | Some m \<Rightarrow> [MessageReceivedEvent
                   (framework_message_kind_for_step_input (Some i) = Some ExecutionBackgroundTask) m (emission_sequence st) turn])
      in (events, \<lparr>output_started = (steering \<and> output_started st), session_started = True,
                   emission_sequence = emission_sequence st, emission_step = (if steering then emission_step st else 0),
                   emission_turn = turn\<rparr>))"

definition emit_step_started :: "emission_state \<Rightarrow> string \<Rightarrow> emission_event list" where
  "emit_step_started st model = [StepStartedEvent model (emission_sequence st) (emission_step st) (emission_turn st)]"

definition emit_step_and_turn_failed :: "emission_state \<Rightarrow> failed_payload \<Rightarrow> emission_event list" where
  "emit_step_and_turn_failed st p =
     [StepFailedEvent p (emission_sequence st) (emission_step st) (emission_turn st),
      TurnFailedEvent p (emission_sequence st) (emission_turn st)]"

definition emit_failed_step :: "emission_state \<Rightarrow> failed_payload \<Rightarrow> string \<Rightarrow> emission_event list" where
  "emit_failed_step st p session = emit_step_and_turn_failed st p @ [SessionFailedEvent p session]"

definition next_turn_state :: "emission_state \<Rightarrow> emission_state" where
  "next_turn_state st = \<lparr>output_started = False, session_started = session_started st,
     emission_sequence = emission_sequence st + 1, emission_step = 0, emission_turn = []\<rparr>"

definition emit_recoverable_failed_turn ::
    "emission_state \<Rightarrow> failed_payload \<Rightarrow> emission_event list \<times> emission_state" where
  "emit_recoverable_failed_turn st p =
     (emit_step_and_turn_failed st p @ [SessionWaitingEvent], next_turn_state st)"

definition advance_step :: "emission_state \<Rightarrow> emission_state" where
  "advance_step st = st\<lparr>emission_step := emission_step st + 1\<rparr>"

definition emit_turn_epilogue :: "emission_state \<Rightarrow> run_mode \<Rightarrow> emission_event list \<times> emission_state" where
  "emit_turn_epilogue st mode =
     ([TurnCompletedEvent (emission_sequence st) (emission_turn st),
       if mode = ConversationMode then SessionWaitingEvent else SessionCompletedEvent], next_turn_state st)"

text \<open>
  The epilogue of a cancelled turn (cancelled-turn-emission.ts). It is given the state of the last
  durable step, which may be older than the preamble of the turn.
\<close>

definition emit_cancelled_turn :: "emission_state \<Rightarrow> emission_event list \<times> emission_state" where
  "emit_cancelled_turn st =
     ([TurnCancelledEvent (emission_sequence st) (active_turn_id st), SessionWaitingEvent],
      \<lparr>output_started = False, session_started = True, emission_sequence = emission_sequence st + 1,
       emission_step = 0, emission_turn = []\<rparr>)"

section \<open>A session's turns\<close>

text \<open>
  What a session does with the emission state, in any order. The state is stored when a durable step
  ends (\<open>EndOfStep\<close>), in particular the step that ends a turn; a cancellation discards what was not
  stored and starts from the stored state. A terminal failure ends the session: the harness returns that
  it is done, and emits nothing more.
\<close>

datatype turn_op =
    Preamble step_input
  | StepStart string
  | NextStep
  | EndOfStep
  | Epilogue run_mode
  | RecoverableFailure failed_payload
  | CancelTurn
  | TerminalFailure failed_payload string

record turn_log =
  log_events :: "emission_event list"
  live_state :: emission_state
  stored_state :: emission_state
  session_dead :: bool

definition emitted :: "turn_log \<Rightarrow> emission_event list \<Rightarrow> turn_log" where
  "emitted x es = x\<lparr>log_events := log_events x @ es\<rparr>"

text \<open>A step that ends a turn: its events, and its state live and stored.\<close>

definition turn_ended :: "turn_log \<Rightarrow> emission_event list \<times> emission_state \<Rightarrow> turn_log" where
  "turn_ended x r = (emitted x (fst r))\<lparr>live_state := snd r, stored_state := snd r\<rparr>"

fun emit_op :: "turn_log \<Rightarrow> turn_op \<Rightarrow> turn_log" where
  "emit_op x (Preamble i) =
     (let (es, st) = emit_turn_preamble i (live_state x) in (emitted x es)\<lparr>live_state := st\<rparr>)"
| "emit_op x (StepStart model) = emitted x (emit_step_started (live_state x) model)"
| "emit_op x NextStep = x\<lparr>live_state := advance_step (live_state x)\<rparr>"
| "emit_op x EndOfStep = x\<lparr>stored_state := live_state x\<rparr>"
| "emit_op x (Epilogue mode) = turn_ended x (emit_turn_epilogue (live_state x) mode)"
| "emit_op x (RecoverableFailure p) = turn_ended x (emit_recoverable_failed_turn (live_state x) p)"
| "emit_op x CancelTurn = turn_ended x (emit_cancelled_turn (stored_state x))"
| "emit_op x (TerminalFailure p session) =
     (emitted x (emit_failed_step (live_state x) p session))\<lparr>session_dead := True\<rparr>"

definition turn_step :: "turn_log \<Rightarrow> turn_op \<Rightarrow> turn_log" where
  "turn_step x k = (if session_dead x then x else emit_op x k)"

definition fresh_log :: turn_log where
  "fresh_log = \<lparr>log_events = [], live_state = DEFAULT_EMISSION_STATE, stored_state = DEFAULT_EMISSION_STATE,
     session_dead = False\<rparr>"

definition turn_history :: "turn_op list \<Rightarrow> emission_event list" where
  "turn_history ks = log_events (foldl turn_step fresh_log ks)"

fun started_turn :: "emission_event \<Rightarrow> string option" where
  "started_turn (TurnStartedEvent n t) = Some t"
| "started_turn _ = None"

text \<open>A completion or failure outside a turn carries the empty identifier.\<close>

fun finished_turn :: "emission_event \<Rightarrow> string option" where
  "finished_turn (TurnCompletedEvent n t) = (if t = [] then None else Some t)"
| "finished_turn (TurnFailedEvent p n t) = (if t = [] then None else Some t)"
| "finished_turn _ = None"

fun ended_turn :: "emission_event \<Rightarrow> string option" where
  "ended_turn (TurnCancelledEvent n t) = Some t"
| "ended_turn e = finished_turn e"

definition started_turns :: "emission_event list \<Rightarrow> string list" where
  "started_turns es = List.map_filter started_turn es"

definition ended_turns :: "emission_event list \<Rightarrow> string list" where
  "ended_turns es = List.map_filter ended_turn es"

text \<open>
  Given the turns started and those ended before: a turn completes or fails only after it was started,
  and no turn starts after it ended. (A cancelled turn need not have started: the cancellation may come
  before its preamble.)
\<close>

fun turns_in_order :: "string set \<Rightarrow> string set \<Rightarrow> emission_event list \<Rightarrow> bool" where
  "turns_in_order S E [] = True"
| "turns_in_order S E (e # es) =
     (set_option (finished_turn e) \<subseteq> S \<and> set_option (started_turn e) \<inter> E = {}
      \<and> turns_in_order (S \<union> set_option (started_turn e)) (E \<union> set_option (ended_turn e)) es)"

definition session_starts :: "emission_event list \<Rightarrow> nat" where
  "session_starts es = length (filter (\<lambda>e. e = SessionStartedEvent) es)"

lemma turn_lists_append [simp]:
  "started_turns (a @ b) = started_turns a @ started_turns b"
  "ended_turns (a @ b) = ended_turns a @ ended_turns b"
  "session_starts (a @ b) = session_starts a + session_starts b"
  by (simp_all add: started_turns_def ended_turns_def session_starts_def)

lemma turn_lists_simps [simp]:
  "started_turns [] = []" "ended_turns [] = []" "session_starts [] = 0"
  "started_turns (e # es) = (case started_turn e of None \<Rightarrow> started_turns es | Some t \<Rightarrow> t # started_turns es)"
  "ended_turns (e # es) = (case ended_turn e of None \<Rightarrow> ended_turns es | Some t \<Rightarrow> t # ended_turns es)"
  "session_starts (e # es) = (if e = SessionStartedEvent then 1 else 0) + session_starts es"
  by (simp_all add: started_turns_def ended_turns_def session_starts_def split: option.split)

lemma turns_in_order_append:
  "turns_in_order S E (a @ b) \<longleftrightarrow>
     turns_in_order S E a \<and> turns_in_order (S \<union> set (started_turns a)) (E \<union> set (ended_turns a)) b"
  by (induction a arbitrary: S E) (auto simp: Un_assoc split: option.split)

lemma turn_name_inj [simp]: "turn_name m = turn_name n \<longleftrightarrow> m = n"
  using show_nat_inj by (auto simp: turn_name_def)

lemma turn_name_nonempty [simp]: "turn_name n \<noteq> []" "[] \<noteq> turn_name n"
  by (simp_all add: turn_name_def)

text \<open>
  The numbers of the started and of the ended turns in what was emitted. All are below the sequence
  number but that of the turn that is started and not ended; the stored state is at the same turn,
  perhaps before its preamble.
\<close>

definition log_ok :: "nat list \<Rightarrow> nat list \<Rightarrow> emission_event list \<Rightarrow> bool" where
  "log_ok ns ms es \<longleftrightarrow>
     started_turns es = map turn_name ns \<and> ended_turns es = map turn_name ms \<and> distinct ns \<and> distinct ms
     \<and> turns_in_order {} {} es \<and> session_starts es \<le> 1"

definition state_ok :: "nat list \<Rightarrow> nat list \<Rightarrow> emission_state \<Rightarrow> bool" where
  "state_ok ns ms st \<longleftrightarrow> set ms \<subseteq> {..<emission_sequence st}
     \<and> (if emission_turn st = [] then set ns \<subseteq> {..<emission_sequence st}
        else emission_turn st = turn_name (emission_sequence st) \<and> emission_sequence st \<in> set ns
             \<and> set ns \<subseteq> {..emission_sequence st})"

definition same_turn :: "emission_state \<Rightarrow> emission_state \<Rightarrow> bool" where
  "same_turn stored live \<longleftrightarrow> emission_sequence stored = emission_sequence live
     \<and> (emission_turn stored = [] \<or> emission_turn stored = turn_name (emission_sequence live))"

definition turns_inv :: "turn_log \<Rightarrow> bool" where
  "turns_inv x \<longleftrightarrow> (\<exists>ns ms. log_ok ns ms (log_events x)
     \<and> (session_dead x \<or> state_ok ns ms (live_state x) \<and> same_turn (stored_state x) (live_state x)
        \<and> (session_started (live_state x) \<or> session_starts (log_events x) = 0)))"

lemma log_ok_append:
  assumes "log_ok ns ms es" "started_turns es' = map turn_name ns'" "ended_turns es' = map turn_name ms'"
    and "distinct (ns @ ns')" "distinct (ms @ ms')" "session_starts es + session_starts es' \<le> 1"
    and "turns_in_order (turn_name ` set ns) (turn_name ` set ms) es'"
  shows "log_ok (ns @ ns') (ms @ ms') (es @ es')"
  using assms by (simp add: log_ok_def turns_in_order_append)

text \<open>Events that start and end no turn and do not start the session.\<close>

definition quiet :: "emission_event list \<Rightarrow> bool" where
  "quiet es \<longleftrightarrow> list_all (\<lambda>e. started_turn e = None \<and> ended_turn e = None \<and> e \<noteq> SessionStartedEvent) es"

lemma finished_ended: "ended_turn e = None \<Longrightarrow> finished_turn e = None"
  by (cases e) auto

lemma quiet_lists:
  assumes "quiet es"
  shows "started_turns es = []" "ended_turns es = []" "session_starts es = 0" "turns_in_order S E es"
proof -
  show "started_turns es = []" "ended_turns es = []" "session_starts es = 0"
    using assms by (induction es) (simp_all add: quiet_def)
  show "turns_in_order S E es"
    using assms by (induction es arbitrary: S E) (simp_all add: quiet_def finished_ended)
qed

lemma log_ok_quiet: "log_ok ns ms es \<Longrightarrow> quiet es' \<Longrightarrow> log_ok ns ms (es @ es')"
  using log_ok_append [of ns ms es es' "[]" "[]"] by (simp add: quiet_lists log_ok_def)

text \<open>A turn that ends by completion, failure or cancellation spends its number.\<close>

lemma log_ok_ends:
  assumes log: "log_ok ns ms es" and quiet: "quiet before" "quiet after"
    and e: "started_turn e = None" "e \<noteq> SessionStartedEvent"
      "ended_turn e = None \<or> ended_turn e = Some (turn_name n) \<and> n \<notin> set ms"
      "set_option (finished_turn e) \<subseteq> turn_name ` set ns"
  shows "\<exists>ms'. log_ok ns (ms @ ms') (es @ before @ e # after) \<and> set ms' \<subseteq> {n}"
proof -
  let ?ms' = "if ended_turn e = None then [] else [n]"
  have "turns_in_order (turn_name ` set ns) (turn_name ` set ms) (before @ e # after)"
    using e quiet_lists(4) [OF quiet(1)] quiet_lists(4) [OF quiet(2)]
    by (simp add: turns_in_order_append quiet_lists [OF quiet(1)])
  moreover have "ended_turns (before @ e # after) = map turn_name ?ms'"
    using e(3) by (auto simp: quiet_lists quiet)
  moreover have "distinct (ms @ ?ms')" "session_starts es \<le> 1" "distinct ns"
    using log e(3) by (auto simp: log_ok_def)
  ultimately have "log_ok (ns @ []) (ms @ ?ms') (es @ before @ e # after)"
    using e(1,2) by (intro log_ok_append [OF log]) (simp_all add: quiet_lists quiet)
  then show ?thesis by (intro exI [of _ ?ms']) simp
qed

lemma turn_ended_inv:
  assumes inv: "turns_inv x" and alive: "\<not> session_dead x"
    and r: "r = (before @ e # after, st)" "quiet before" "quiet after"
    and e: "started_turn e = None" "e \<noteq> SessionStartedEvent"
      "ended_turn e = None \<or> ended_turn e = Some (turn_name (emission_sequence (live_state x)))"
      "finished_turn e = None \<or> emission_turn (live_state x) \<noteq> [] \<and> finished_turn e = Some (emission_turn (live_state x))"
    and st: "emission_sequence st = emission_sequence (live_state x) + 1" "emission_turn st = []"
      "session_started (live_state x) \<longrightarrow> session_started st"
  shows "turns_inv (turn_ended x r)"
proof -
  let ?n = "emission_sequence (live_state x)"
  obtain ns ms where log: "log_ok ns ms (log_events x)" and state: "state_ok ns ms (live_state x)"
    and starts: "session_started (live_state x) \<or> session_starts (log_events x) = 0"
    using inv alive by (auto simp: turns_inv_def)
  have finished: "set_option (finished_turn e) \<subseteq> turn_name ` set ns"
    using e(4) state by (auto simp: state_ok_def split: if_splits)
  have "?n \<notin> set ms"
    using state by (auto simp: state_ok_def)
  then obtain ms' where ms': "log_ok ns (ms @ ms') (log_events x @ before @ e # after)" "set ms' \<subseteq> {?n}"
    using log_ok_ends [OF log r(2,3) e(1,2) _ finished, of ?n] e(3) by blast
  moreover have "state_ok ns (ms @ ms') st"
    using state ms'(2) st(1,2) by (auto simp: state_ok_def split: if_splits)
  moreover have "same_turn st st"
    using st(2) by (simp add: same_turn_def)
  moreover have "session_starts (before @ e # after) = 0"
    using e(2) by (simp add: quiet_lists r(2,3))
  ultimately show ?thesis
    using starts st(3) by (auto simp: turns_inv_def turn_ended_def emitted_def r(1))
qed

lemma preamble_inv:
  assumes inv: "turns_inv x" and alive: "\<not> session_dead x"
  shows "turns_inv (emit_op x (Preamble i))"
proof -
  let ?st = "live_state x"
  obtain ns ms where log: "log_ok ns ms (log_events x)" and state: "state_ok ns ms ?st"
    and stored: "same_turn (stored_state x) ?st"
    and starts: "session_started ?st \<or> session_starts (log_events x) = 0"
    using inv alive by (auto simp: turns_inv_def)
  define es st' where "es = fst (emit_turn_preamble i ?st)" and "st' = snd (emit_turn_preamble i ?st)"
  let ?ns = "if emission_turn ?st = [] then [emission_sequence ?st] else []"
  have st': "session_started st'" "emission_sequence st' = emission_sequence ?st" "same_turn (stored_state x) st'"
      "emission_turn st' = (if emission_turn ?st = [] then turn_name (emission_sequence ?st) else emission_turn ?st)"
    using stored by (simp_all add: st'_def emit_turn_preamble_def Let_def same_turn_def)
  have es: "started_turns es = map turn_name ?ns" "ended_turns es = []"
      "session_starts es = (if session_started ?st then 0 else 1)"
    by (simp_all add: es_def emit_turn_preamble_def Let_def split: option.split)
  have "turn_name (emission_sequence ?st) \<notin> turn_name ` set ms"
    using state by (auto simp: state_ok_def)
  then have "turns_in_order (turn_name ` set ns) (turn_name ` set ms) es"
    by (simp add: es_def emit_turn_preamble_def Let_def split: option.split)
  moreover have "distinct (ns @ ?ns)" "distinct ms"
    using log state by (auto simp: log_ok_def state_ok_def)
  ultimately have "log_ok (ns @ ?ns) (ms @ []) (log_events x @ es)"
    using log starts es by (intro log_ok_append [OF log]) (auto simp: log_ok_def)
  moreover have "state_ok (ns @ ?ns) ms st'"
    using state st' by (auto simp: state_ok_def split: if_splits)
  moreover have "emit_op x (Preamble i) = (emitted x es)\<lparr>live_state := st'\<rparr>"
    by (simp add: es_def st'_def split: prod.split)
  ultimately show ?thesis
    unfolding turns_inv_def using st'(1,3) by (intro exI [of _ "ns @ ?ns"] exI [of _ ms]) (simp add: emitted_def)
qed

lemma same_turn_active: "same_turn stored live \<Longrightarrow> active_turn_id stored = turn_name (emission_sequence live)"
  by (auto simp: same_turn_def active_turn_id_def)

lemma live_turn:
  assumes "turns_inv x" "\<not> session_dead x"
  shows "emission_turn (live_state x) = [] \<or> emission_turn (live_state x) = turn_name (emission_sequence (live_state x))"
    and "same_turn (stored_state x) (live_state x)"
  using assms by (auto simp: turns_inv_def state_ok_def split: if_splits)

lemma emit_op_inv:
  assumes inv: "turns_inv x" and alive: "\<not> session_dead x"
  shows "turns_inv (emit_op x k)"
proof (cases k)
  case (Preamble i)
  then show ?thesis using preamble_inv [OF inv alive] by simp
next
  case (StepStart model)
  have "quiet (emit_step_started (live_state x) model)" by (simp add: quiet_def emit_step_started_def)
  then show ?thesis
    using inv StepStart log_ok_quiet quiet_lists(3) by (fastforce simp: turns_inv_def emitted_def)
next
  case NextStep
  let ?st = "advance_step (live_state x)"
  have "state_ok ns ms ?st = state_ok ns ms (live_state x)" "same_turn s ?st = same_turn s (live_state x)"
      "session_started ?st = session_started (live_state x)" for ns ms s
    by (simp_all add: advance_step_def state_ok_def same_turn_def)
  then show ?thesis using inv NextStep by (simp add: turns_inv_def)
next
  case EndOfStep
  have "same_turn (live_state x) (live_state x)" using live_turn [OF inv alive] by (auto simp: same_turn_def)
  then show ?thesis using EndOfStep inv by (auto simp: turns_inv_def)
next
  case (Epilogue mode)
  show ?thesis
    unfolding Epilogue emit_op.simps emit_turn_epilogue_def
    using live_turn(1) [OF inv alive]
    by (intro turn_ended_inv [OF inv alive, where before = "[]"]) (auto simp: quiet_def next_turn_state_def)
next
  case (RecoverableFailure p)
  show ?thesis
    unfolding RecoverableFailure emit_op.simps emit_recoverable_failed_turn_def emit_step_and_turn_failed_def
    using live_turn(1) [OF inv alive]
    by (intro turn_ended_inv [OF inv alive, where before = "[StepFailedEvent p (emission_sequence (live_state x))
          (emission_step (live_state x)) (emission_turn (live_state x))]"])
      (auto simp: quiet_def next_turn_state_def)
next
  case CancelTurn
  have "emission_sequence (stored_state x) = emission_sequence (live_state x)"
    using live_turn(2) [OF inv alive] by (simp add: same_turn_def)
  then show ?thesis
    unfolding CancelTurn emit_op.simps emit_cancelled_turn_def
    using same_turn_active [OF live_turn(2) [OF inv alive]]
    by (intro turn_ended_inv [OF inv alive, where before = "[]"]) (auto simp: quiet_def)
next
  case (TerminalFailure p session)
  obtain ns ms where log: "log_ok ns ms (log_events x)" and state: "state_ok ns ms (live_state x)"
    using inv alive by (auto simp: turns_inv_def)
  let ?e = "TurnFailedEvent p (emission_sequence (live_state x)) (emission_turn (live_state x))"
  have "\<exists>ms'. log_ok ns (ms @ ms') (log_events x @ [StepFailedEvent p (emission_sequence (live_state x))
        (emission_step (live_state x)) (emission_turn (live_state x))] @ ?e # [SessionFailedEvent p session])
      \<and> set ms' \<subseteq> {emission_sequence (live_state x)}"
    using state live_turn(1) [OF inv alive]
    by (intro log_ok_ends [OF log]) (auto simp: quiet_def state_ok_def split: if_splits)
  then show ?thesis
    using TerminalFailure by (auto simp: turns_inv_def emitted_def emit_failed_step_def emit_step_and_turn_failed_def)
qed

lemma turn_step_inv: "turns_inv x \<Longrightarrow> turns_inv (turn_step x k)"
  by (simp add: turn_step_def emit_op_inv)

interpretation turn_machine: invariant_machine turn_step turns_inv
  by unfold_locales (rule turn_step_inv)

lemma turns_inv_start: "turns_inv fresh_log"
  by (auto simp: turns_inv_def log_ok_def state_ok_def same_turn_def fresh_log_def DEFAULT_EMISSION_STATE_def)


end
