(* ===== verification/Limit_Enforcement.thy ===== *)
theory Limit_Enforcement
  imports Input_Resolution Turn_Emission
begin

text \<open>
  The session-limit policy of a harness step (packages/eve/src/harness/session-limit-enforcement.ts):
  the gate before each model call, which parks the session on the continuation prompt or fails it, and
  the effect of the answer. It joins the usage accounting, the pending input and the emission state of
  one session; an effect of the code is its list of emitted events.
\<close>

section \<open>The session and the configuration\<close>

record 'c limit_session =
  ls_usage :: "'c usage_session"
  ls_hitl :: hitl_session
  ls_emission :: emission_session
  ls_session_id :: string
  ls_continuation_token :: string

record limit_config =
  lc_mode :: run_mode
  lc_request_input :: bool
  lc_emits :: bool

datatype step_next = NextNull | NextDone bool string

record 'c step_result =
  sr_next :: step_next
  sr_session :: "'c limit_session"
  sr_events :: "emission_event list"

datatype limit_error = ResolveFailed resolve_error | SessionLimitDeclined

definition SESSION_TOKEN_LIMIT_REACHED_CODE :: string where
  "SESSION_TOKEN_LIMIT_REACHED_CODE = ''SESSION_TOKEN_LIMIT_REACHED''"

definition SESSION_TOKEN_COST_LIMIT_REACHED_CODE :: string where
  "SESSION_TOKEN_COST_LIMIT_REACHED_CODE = ''SESSION_TOKEN_COST_LIMIT_REACHED''"

fun is_cost_violation :: "'c violation \<Rightarrow> bool" where
  "is_cost_violation (TokenCostViolation l u) = True"
| "is_cost_violation _ = False"

section \<open>Failing and parking\<close>

text \<open>\<open>violationWindow(violation) > 0\<close>.\<close>

fun positive_window :: "('c::{zero,ord}) violation \<Rightarrow> bool" where
  "positive_window (TokenCostViolation l u) = (0 < l)"
| "positive_window (InputViolation l u) = (0 < l)"
| "positive_window (OutputViolation l u) = (0 < l)"

definition format_session_limit_message :: "'c violation \<Rightarrow> string" where
  "format_session_limit_message v =
     (if is_cost_violation v then ''The session reached its configured model token-cost limit.''
      else ''The session reached its configured '' @ violation_kind v @ '' token limit.'')"

fun failure_details :: "'c number_format \<Rightarrow> 'c token_usage_totals \<Rightarrow> 'c violation \<Rightarrow> json" where
  "failure_details nf usage (TokenCostViolation l u) =
     JObj [(''costUsd'', number_json nf (cost_usd usage)), (''kind'', JStr ''token-cost''),
           (''limitUsd'', number_json nf l), (''usedCostUsd'', number_json nf u)]"
| "failure_details nf usage v =
     JObj [(''inputTokens'', JNum (input_tokens usage)), (''kind'', JStr (violation_kind v)),
           (''limit'', JNum (violation_limit v)), (''outputTokens'', JNum (output_tokens usage)),
           (''usedTokens'', JNum (used_tokens v))]"

definition fail_session_usage_limit ::
    "'c number_format \<Rightarrow> limit_config \<Rightarrow> emission_state \<Rightarrow> ('c::zero) limit_session \<Rightarrow> 'c violation \<Rightarrow> 'c step_result" where
  "fail_session_usage_limit nf cfg st s v =
     (let message = format_session_limit_message v;
          payload = \<lparr>failed_code = (if is_cost_violation v then SESSION_TOKEN_COST_LIMIT_REACHED_CODE
                                    else SESSION_TOKEN_LIMIT_REACHED_CODE),
                     failed_details = Some (failure_details nf (get_session_token_usage (ls_usage s)) v),
                     failed_message = message\<rparr>
      in \<lparr>sr_next = NextDone (lc_mode cfg = TaskMode) (if lc_mode cfg = TaskMode then message else []),
          sr_session = s,
          sr_events = (if lc_emits cfg then emit_failed_step st payload (ls_session_id s) else [])\<rparr>)"

text \<open>\<open>context_root\<close> is the root turn of the ambient context (see \<open>append_pending_input_batch\<close>).\<close>

definition park_on_session_usage_limit ::
    "'c number_format \<Rightarrow> string option \<Rightarrow> limit_config \<Rightarrow> emission_state \<Rightarrow> history_message list
     \<Rightarrow> 'c limit_session \<Rightarrow> 'c violation \<Rightarrow> limit_error + 'c step_result" where
  "park_on_session_usage_limit nf context_root cfg st messages s v =
     (let request = create_session_limit_continuation_request nf (ls_session_id s) v;
          batch = \<lparr>batch_event = Some \<lparr>batch_sequence = emission_sequence st, batch_step_index = emission_step st,
                                      batch_turn = emission_turn st\<rparr>,
                   batch_root_turn = None, batch_requests = [request], batch_auth_required = None, batch_messages = []\<rparr>
      in case append_pending_input_batch context_root ((hitl_pending (ls_hitl s))\<lparr>session_history := messages\<rparr>) batch of
           Inl e \<Rightarrow> Inl (ResolveFailed (PendingInputError e))
         | Inr p \<Rightarrow>
             (let (closing, st') = (if lc_mode cfg = ConversationMode then emit_turn_epilogue st (lc_mode cfg) else ([], st))
              in Inr \<lparr>sr_next = NextNull,
                      sr_session = s\<lparr>ls_hitl := (ls_hitl s)\<lparr>hitl_pending := p\<rparr>,
                                     ls_emission := set_harness_emission_state (ls_emission s) st'\<rparr>,
                      sr_events = InputRequestedEvent [request] (emission_sequence st) (emission_step st) (emission_turn st)
                                  # closing\<rparr>))"

section \<open>The two seams of the step\<close>

definition enforce_session_usage_limit ::
    "'c number_format \<Rightarrow> string option \<Rightarrow> limit_config \<Rightarrow> emission_state \<Rightarrow> history_message list
     \<Rightarrow> ('c::{zero,ord}) limit_session \<Rightarrow> limit_error + 'c step_result option" where
  "enforce_session_usage_limit nf context_root cfg st messages s =
     (case get_session_usage_limit_violation (ls_usage s) of
        None \<Rightarrow> Inr None
      | Some v \<Rightarrow>
          if positive_window v \<and> lc_emits cfg \<and> (lc_mode cfg = ConversationMode \<or> lc_request_input cfg)
          then map_sum id Some (park_on_session_usage_limit nf context_root cfg st messages s v)
          else Inr (Some (fail_session_usage_limit nf cfg st s v)))"

text \<open>The result is a step result that ends the step, or none with the session to continue with.\<close>

definition apply_session_limit_continuation ::
    "'c number_format \<Rightarrow> limit_config \<Rightarrow> emission_state \<Rightarrow> bool option \<Rightarrow> ('c::{zero,plus,ord}) limit_session
     \<Rightarrow> limit_error + 'c step_result option \<times> 'c limit_session" where
  "apply_session_limit_continuation nf cfg st continuation s =
     (case continuation of
        None \<Rightarrow> Inr (None, s)
      | Some True \<Rightarrow> Inr (None, s\<lparr>ls_usage := bump_session_runtime_usage_limits (ls_usage s)\<rparr>)
      | Some False \<Rightarrow>
          if lc_mode cfg = ConversationMode \<or> ls_continuation_token s \<noteq> [] then Inl SessionLimitDeclined
          else (case get_session_usage_limit_violation (ls_usage s) of
                  None \<Rightarrow> Inr (Some \<lparr>sr_next = NextDone False [], sr_session = s, sr_events = []\<rparr>, s)
                | Some v \<Rightarrow> Inr (Some (fail_session_usage_limit nf cfg st s v), s)))"

section \<open>From the prompt to the answer\<close>

text \<open>The texts a user may type at the continuation prompt: the id, the label or the number of an option.\<close>

definition typed_continue :: "string \<Rightarrow> bool" where
  "typed_continue t \<longleftrightarrow> to_lower (trim t) \<in> {''continue'', ''approve'', ''1''}"

definition typed_stop :: "string \<Rightarrow> bool" where
  "typed_stop t \<longleftrightarrow> to_lower (trim t) \<in> {''stop'', ''2''}"

definition answer_of :: "input_request \<Rightarrow> string \<Rightarrow> input_response" where
  "answer_of q i = \<lparr>response_option_id = Some i, response_request_id = ir_request_id q, response_text = None\<rparr>"

lemma option_texts:
  "to_lower ''continue'' = ''continue''" "to_lower ''stop'' = ''stop''" "to_lower ''Approve'' = ''approve''"
  "to_lower ''Stop'' = ''stop''" "js_integer ''1'' = Some 1" "js_integer ''2'' = Some 2"
  by (code_simp+)

lemma prompt_options:
  "map (\<lambda>x. (option_id x, option_label x)) (list_of (ir_options (create_session_limit_continuation_request nf sid v)))
     = [(''continue'', ''Approve''), (''stop'', ''Stop'')]"
  by (simp add: create_session_limit_continuation_request_def Let_def SESSION_LIMIT_CONTINUE_OPTION_ID_def
      SESSION_LIMIT_STOP_OPTION_ID_def)

lemma match_two_options:
  assumes "map (\<lambda>x. (option_id x, option_label x)) options = [(''continue'', ''Approve''), (''stop'', ''Stop'')]"
  shows "n \<in> {''continue'', ''approve'', ''1''} \<Longrightarrow> map_option option_id (match_option n options) = Some ''continue''"
    and "n \<in> {''stop'', ''2''} \<Longrightarrow> map_option option_id (match_option n options) = Some ''stop''"
proof -
  from assms obtain x y where o: "options = [x, y]" "option_id x = ''continue''" "option_label x = ''Approve''"
    "option_id y = ''stop''" "option_label y = ''Stop''" by (auto simp: map_eq_Cons_conv)
  show "n \<in> {''continue'', ''approve'', ''1''} \<Longrightarrow> map_option option_id (match_option n options) = Some ''continue''"
    "n \<in> {''stop'', ''2''} \<Longrightarrow> map_option option_id (match_option n options) = Some ''stop''"
    by (auto simp: match_option_def o option_texts)
qed

lemma typed_option:
  assumes "list_of (ir_options q) = options" "options \<noteq> []" "to_lower (trim t) \<noteq> []"
    and "map_option option_id (match_option (to_lower (trim t)) options) = Some i"
  shows "resolve_text_to_response t q = Some (answer_of q i)"
proof -
  have "trim t \<noteq> []" using assms(3) by (auto simp: to_lower_def)
  moreover obtain x where "match_option (to_lower (trim t)) options = Some x" "option_id x = i"
    using assms(4) by auto
  ultimately show ?thesis
    unfolding resolve_text_to_response_def Let_def assms(1) using assms(2) by (simp add: answer_of_def)
qed

lemma typed_answer:
  assumes "map (\<lambda>x. (option_id x, option_label x)) (list_of (ir_options q)) = [(''continue'', ''Approve''), (''stop'', ''Stop'')]"
  shows "typed_continue t \<Longrightarrow> resolve_text_to_response t q = Some (answer_of q ''continue'')"
    and "typed_stop t \<Longrightarrow> resolve_text_to_response t q = Some (answer_of q ''stop'')"
proof -
  have opts: "list_of (ir_options q) \<noteq> []" using assms by (cases "list_of (ir_options q)") simp_all
  show "resolve_text_to_response t q = Some (answer_of q ''continue'')" if "typed_continue t"
  proof (rule typed_option [OF refl opts])
    from that show "to_lower (trim t) \<noteq> []" by (auto simp: typed_continue_def)
    from that show "map_option option_id (match_option (to_lower (trim t)) (list_of (ir_options q))) = Some ''continue''"
      unfolding typed_continue_def by (rule match_two_options(1) [OF assms])
  qed
  show "resolve_text_to_response t q = Some (answer_of q ''stop'')" if "typed_stop t"
  proof (rule typed_option [OF refl opts])
    from that show "to_lower (trim t) \<noteq> []" by (auto simp: typed_stop_def)
    from that show "map_option option_id (match_option (to_lower (trim t)) (list_of (ir_options q))) = Some ''stop''"
      unfolding typed_stop_def by (rule match_two_options(2) [OF assms])
  qed
qed

text \<open>A text that answers the only pending request, a session-limit prompt, resolves it.\<close>

definition message_input :: "string \<Rightarrow> step_input" where
  "message_input t = empty_step_input\<lparr>step_message := Some (StringContent t)\<rparr>"

lemma typed_resolution:
  assumes p: "pending_of h = Inr [b]" and b: "batch_requests b = [q]" "ir_kind q = SessionLimit" "batch_auth_required b = None"
    and r: "resolve_text_to_response t q = Some a" and a: "response_request_id a = ir_request_id q"
  shows "\<exists>res. resolve_pending_input dm None key h (Some (message_input t)) = Inr res
    \<and> result_outcome res = ResolvedOutcome \<and> consumed_message res
    \<and> limit_continuation res = resolve_session_limit_continuation [q] [a]
    \<and> pending_of (result_session res) = Inr []"
proof -
  have pure: "\<forall>c \<in> set [b]. \<not> mixed_batch c" using b by (simp add: mixed_batch_def)
  have "domain_of b = SessionLimitDomain" using b by (simp add: domain_of_def)
  then have route: "route_pending_input (enumerate 0 [b]) = Inr (LimitRoute (0, b))"
    using route_pure [OF pure refl] by simp
  let ?step = "compact_step_input (Some ((message_input t)\<lparr>input_responses := Some [a], message_consumed := True, step_message := None\<rparr>))"
  have ts: "resolve_text_to_responses t [q] = [a]" using r by (simp add: resolve_text_to_responses_def)
  have step: "text_step (LimitRoute (0, b)) (enumerate 0 [b]) (Some (message_input t)) = Some ?step"
    using b ts by (simp add: text_step_def route_text_batch_def resolve_text_message_input_def message_input_def
        empty_step_input_def Let_def)
  have f: "input_responses ?step = Some [a]" "step_message ?step = None" "message_consumed ?step" "step_context ?step = None"
    "client_context ?step = None"
    by (simp_all add: compact_step_input_def message_input_def empty_step_input_def attach_client_context_def)
  let ?x = "resolver_call (session_history (hitl_pending h)) h (enumerate 0 [b]) (Some ?step)"
  have rs: "resolver_responses ?x = [a]" using f(1) by (simp add: canonicalize_input_responses_def)
  have "resolve_pending_input dm None key h (Some (message_input t)) = resolve_routed dm key ?x (LimitRoute (0, b))"
    using resolve_unfold [OF p _ route, of dm None key "Some (message_input t)"] unfolding step option.case by blast
  moreover have "resolve_routed dm key ?x (LimitRoute (0, b)) = resolve_session_limit_input ?x (0, b)"
    unfolding resolve_routed_def rs by simp
  moreover obtain h' where h': "remove_batches h [(0, b)] = Inr h'" "pending_of h' = Inr []"
    using remove_batches_spec [OF p, of "[(0, b)]"] by (auto simp: nths_def)
  have "outside (enumerate 0 [b]) [(0, b)] = []" by (simp add: outside_def)
  then have "\<exists>d ms res. resolve_session_limit_input ?x (0, b)
      = Inr (finish_resolved_input d [] (resolve_session_limit_continuation [q] [a]) ms [] res (Some ?step) h')"
    using rs b a h'(1)
    by (simp add: resolve_session_limit_input_def Let_def responses_for_batches_def batch_ids_def answered_ids_def) blast
  moreover have "\<not> has_keys (deferred_part d [] (Some ?step))" for d
    using f by (simp add: has_keys_def deferred_part_def empty_step_input_def some_unless_empty_def)
  ultimately show ?thesis using h'(2) f(3) by (auto simp: finish_resolved_input_def Let_def)
qed

lemma granted_answer:
  "ir_kind q = SessionLimit \<Longrightarrow> resolve_session_limit_continuation [q] [answer_of q ''continue''] = Some True"
  "ir_kind q = SessionLimit \<Longrightarrow> resolve_session_limit_continuation [q] [answer_of q ''stop''] = Some False"
  by (simp_all add: resolve_session_limit_continuation_def is_session_limit_continuation_request_def answer_of_def
      SESSION_LIMIT_CONTINUE_OPTION_ID_def SESSION_LIMIT_STOP_OPTION_ID_def)

lemma prompt_parks:
  assumes v: "get_session_usage_limit_violation (ls_usage s) = Some v" and w: "positive_window v"
    and c: "lc_emits cfg" "lc_mode cfg = ConversationMode" and p: "pending_of (ls_hitl s) = Inr []"
  obtains r b where "enforce_session_usage_limit nf root cfg st messages s = Inr (Some r)" "sr_next r = NextNull"
    "is_harness_between_turns (ls_emission (sr_session r))" "pending_of (ls_hitl (sr_session r)) = Inr [b]"
    "batch_requests b = [create_session_limit_continuation_request nf (ls_session_id s) v]" "batch_auth_required b = None"
    "session_history (hitl_pending (ls_hitl (sr_session r))) = messages" "ls_usage (sr_session r) = ls_usage s"
proof -
  let ?q = "create_session_limit_continuation_request nf (ls_session_id s) v"
  let ?b = "\<lparr>batch_event = Some \<lparr>batch_sequence = emission_sequence st, batch_step_index = emission_step st,
      batch_turn = emission_turn st\<rparr>, batch_root_turn = None, batch_requests = [?q], batch_auth_required = None, batch_messages = []\<rparr>"
  let ?h = "(hitl_pending (ls_hitl s))\<lparr>session_history := messages\<rparr>"
  have g: "get_pending_input_batches (pending_session_state ?h) = Inr []" using p by (simp add: pending_of_def)
  let ?b' = "?b\<lparr>batch_root_turn := coalesce (batch_root_turn ?b) root\<rparr>"
  have d: "distinct (batch_request_ids [?b'])" by (simp add: batch_request_ids_def)
  have a: "append_pending_input_batch root ?h ?b = set_pending_input_batches ?h [?b']"
    by (simp only: append_pending_input_batch_def g sum.case append_Nil)
  have "session_history ?h = messages" by simp
  then obtain h' where h: "append_pending_input_batch root ?h ?b = Inr h'"
    "get_pending_input_batches (pending_session_state h') = Inr [?b']" "session_history h' = messages"
    using set_batches_spec [of "[?b']" ?h, unfolded if_P [OF d]] unfolding a by metis
  have "\<exists>r. park_on_session_usage_limit nf root cfg st messages s v = Inr r \<and> sr_next r = NextNull
      \<and> hitl_pending (ls_hitl (sr_session r)) = h' \<and> ls_usage (sr_session r) = ls_usage s
      \<and> is_harness_between_turns (ls_emission (sr_session r))"
    unfolding park_on_session_usage_limit_def Let_def h(1) using c(2)
    by (simp add: emit_turn_epilogue_def next_turn_state_def set_harness_emission_state_def is_harness_between_turns_def
        get_harness_emission_state_def)
  then obtain r where r: "park_on_session_usage_limit nf root cfg st messages s v = Inr r" "sr_next r = NextNull"
    "hitl_pending (ls_hitl (sr_session r)) = h'" "ls_usage (sr_session r) = ls_usage s"
    "is_harness_between_turns (ls_emission (sr_session r))" by blast
  have "enforce_session_usage_limit nf root cfg st messages s = Inr (Some r)"
    unfolding enforce_session_usage_limit_def v option.case using w c r(1) by simp
  then show thesis using r h(2,3) by (intro that [of r ?b']) (simp_all add: pending_of_def)
qed

text \<open>C21: A conversation over its limit, with nothing else pending, parks on the prompt between two turns
  and keeps the step's messages. Whatever text then names the first option grants one fresh window, and
  whatever names the second cancels the turn; either way the prompt is gone and the text is used up.\<close>

theorem typed_answer_decides:
  fixes s :: "('c::{zero,plus,ord}) limit_session"
  assumes v: "get_session_usage_limit_violation (ls_usage s) = Some v" and w: "positive_window v"
    and c: "lc_emits cfg" "lc_mode cfg = ConversationMode"
    and p: "get_pending_input_batches (pending_session_state (hitl_pending (ls_hitl s))) = Inr []"
  shows "\<exists>r. enforce_session_usage_limit nf root cfg st messages s = Inr (Some r) \<and> sr_next r = NextNull
    \<and> is_harness_between_turns (ls_emission (sr_session r))
    \<and> session_history (hitl_pending (ls_hitl (sr_session r))) = messages
    \<and> (\<forall>t. typed_continue t \<or> typed_stop t \<longrightarrow>
        (\<exists>res. resolve_pending_input dm None key (ls_hitl (sr_session r)) (Some (message_input t)) = Inr res
          \<and> result_outcome res = ResolvedOutcome \<and> consumed_message res
          \<and> get_pending_input_batches (pending_session_state (hitl_pending (result_session res))) = Inr []
          \<and> apply_session_limit_continuation nf cfg st' (limit_continuation res) ((sr_session r)\<lparr>ls_hitl := result_session res\<rparr>)
            = (if typed_continue t
               then Inr (None, (sr_session r)\<lparr>ls_hitl := result_session res, ls_usage := bump_session_runtime_usage_limits (ls_usage s)\<rparr>)
               else Inl SessionLimitDeclined)))"
proof -
  define q where "q = create_session_limit_continuation_request nf (ls_session_id s) v"
  have k: "ir_kind q = SessionLimit" unfolding q_def by (rule created_request(1))
  note typed = typed_answer [OF prompt_options [of nf "ls_session_id s" v, folded q_def]]
  obtain r b where r: "enforce_session_usage_limit nf root cfg st messages s = Inr (Some r)" "sr_next r = NextNull"
    "is_harness_between_turns (ls_emission (sr_session r))" "pending_of (ls_hitl (sr_session r)) = Inr [b]"
    "batch_requests b = [q]" "batch_auth_required b = None"
    "session_history (hitl_pending (ls_hitl (sr_session r))) = messages" "ls_usage (sr_session r) = ls_usage s"
    using prompt_parks [OF v w c p [folded pending_of_def], of nf root st messages] unfolding q_def by blast
  have "\<exists>res. resolve_pending_input dm None key (ls_hitl (sr_session r)) (Some (message_input t)) = Inr res
      \<and> result_outcome res = ResolvedOutcome \<and> consumed_message res
      \<and> get_pending_input_batches (pending_session_state (hitl_pending (result_session res))) = Inr []
      \<and> apply_session_limit_continuation nf cfg st' (limit_continuation res) ((sr_session r)\<lparr>ls_hitl := result_session res\<rparr>)
        = (if typed_continue t
           then Inr (None, (sr_session r)\<lparr>ls_hitl := result_session res, ls_usage := bump_session_runtime_usage_limits (ls_usage s)\<rparr>)
           else Inl SessionLimitDeclined)" if t: "typed_continue t \<or> typed_stop t" for t
  proof -
    define i where "i = (if typed_continue t then ''continue'' else ''stop'')"
    have "resolve_text_to_response t q = Some (answer_of q i)"
      using t typed by (cases "typed_continue t") (auto simp: i_def)
    from typed_resolution [OF r(4,5) k r(6) this, of dm key] obtain res where
      res: "resolve_pending_input dm None key (ls_hitl (sr_session r)) (Some (message_input t)) = Inr res"
      "result_outcome res = ResolvedOutcome" "consumed_message res" "pending_of (result_session res) = Inr []"
      and l: "limit_continuation res = resolve_session_limit_continuation [q] [answer_of q i]"
      by (auto simp: answer_of_def)
    have "limit_continuation res = Some (typed_continue t)"
      unfolding l i_def using granted_answer [OF k] by simp
    then have "apply_session_limit_continuation nf cfg st' (limit_continuation res) ((sr_session r)\<lparr>ls_hitl := result_session res\<rparr>)
        = (if typed_continue t
           then Inr (None, (sr_session r)\<lparr>ls_hitl := result_session res, ls_usage := bump_session_runtime_usage_limits (ls_usage s)\<rparr>)
           else Inl SessionLimitDeclined)"
      using c(2) r(8) by (simp add: apply_session_limit_continuation_def)
    with res show ?thesis by (auto simp: pending_of_def)
  qed
  with r show ?thesis by blast
qed

definition quiet_session :: hitl_session where
  "quiet_session = \<lparr>hitl_pending = \<lparr>pending_session_state = None, session_history = []\<rparr>, approved_value = None\<rparr>"

definition spent_session :: "int limit_session" where
  "spent_session = \<lparr>ls_usage = over_limit_session, ls_hitl = quiet_session,
     ls_emission = \<lparr>emission_value = None, client_context_value = None\<rparr>, ls_session_id = ''s'', ls_continuation_token = []\<rparr>"

definition chat_config :: limit_config where
  "chat_config = \<lparr>lc_mode = ConversationMode, lc_request_input = True, lc_emits = True\<rparr>"

lemma typed_answer_decides_witness:
  "\<forall>nf :: int number_format. \<exists>r res.
     enforce_session_usage_limit nf None chat_config DEFAULT_EMISSION_STATE [] spent_session = Inr (Some r)
     \<and> resolve_pending_input False None (\<lambda>_. None) (ls_hitl (sr_session r)) (Some (message_input '' Approve '')) = Inr res
     \<and> (\<exists>s. apply_session_limit_continuation nf chat_config DEFAULT_EMISSION_STATE (limit_continuation res)
              ((sr_session r)\<lparr>ls_hitl := result_session res\<rparr>) = Inr (None, s)
            \<and> get_session_usage_limit_violation (ls_usage s) = None)"
proof
  fix nf :: "int number_format"
  have v: "get_session_usage_limit_violation (ls_usage spent_session) = Some (InputViolation 10 12)" by code_simp
  have p: "get_pending_input_batches (pending_session_state (hitl_pending (ls_hitl spent_session))) = Inr []" by code_simp
  have b: "get_session_usage_limit_violation (bump_session_runtime_usage_limits (ls_usage spent_session)) = None" by code_simp
  have t: "typed_continue '' Approve ''" by code_simp
  have w: "positive_window (InputViolation 10 12 :: int violation)" by simp
  have c: "lc_emits chat_config" "lc_mode chat_config = ConversationMode" by (simp_all add: chat_config_def)
  from typed_answer_decides [OF v w c p, of nf None DEFAULT_EMISSION_STATE "[]" False "\<lambda>_. None" DEFAULT_EMISSION_STATE] t
  obtain r res where r: "enforce_session_usage_limit nf None chat_config DEFAULT_EMISSION_STATE [] spent_session = Inr (Some r)"
    "resolve_pending_input False None (\<lambda>_. None) (ls_hitl (sr_session r)) (Some (message_input '' Approve '')) = Inr res"
    "apply_session_limit_continuation nf chat_config DEFAULT_EMISSION_STATE (limit_continuation res) ((sr_session r)\<lparr>ls_hitl := result_session res\<rparr>)
      = (if typed_continue '' Approve ''
         then Inr (None, (sr_session r)\<lparr>ls_hitl := result_session res, ls_usage := bump_session_runtime_usage_limits (ls_usage spent_session)\<rparr>)
         else Inl SessionLimitDeclined)" by blast
  with b t show "\<exists>r res. enforce_session_usage_limit nf None chat_config DEFAULT_EMISSION_STATE [] spent_session = Inr (Some r)
     \<and> resolve_pending_input False None (\<lambda>_. None) (ls_hitl (sr_session r)) (Some (message_input '' Approve '')) = Inr res
     \<and> (\<exists>s. apply_session_limit_continuation nf chat_config DEFAULT_EMISSION_STATE (limit_continuation res)
              ((sr_session r)\<lparr>ls_hitl := result_session res\<rparr>) = Inr (None, s)
            \<and> get_session_usage_limit_violation (ls_usage s) = None)"
    by (intro exI [of _ r] exI [of _ res]) simp
qed

end
