(* ===== verification/Stream_Wire.thy ===== *)
theory Stream_Wire
  imports Handle_Views
begin

text \<open>
  The wire format of a session's event stream: the normalisation of the declared stream version
  (packages/eve/src/protocol/message-version.ts, client/stream-version.ts), the two readers of
  newline-delimited JSON (client/ndjson.ts, execution/ndjson-stream.ts) and the serializer of the
  server (serializeAsNdjson and streamEventLimit of eve-channel/request.ts). A body is the list of its
  decoded chunks; what \<open>JSON.stringify\<close> and \<open>JSON.parse\<close> of the platform do is the parameters
  \<open>stringify\<close> and \<open>parse\<close>, and time is a step of the environment. An aborted signal ends a body as a
  failed read does.
\<close>

section \<open>Stream versions (message-version.ts)\<close>

datatype stream_version = V21 | V22 | V23 | V24 | V25

definition read_message_stream_version :: "string option \<Rightarrow> js_type_error + stream_version" where
  "read_message_stream_version header =
     (if header = Some ''21'' then Inr V21
      else if header = Some ''22'' then Inr V22
      else if header = Some ''23'' then Inr V23
      else if header = Some ''24'' then Inr V24
      else if header = Some ''25'' then Inr V25
      else Inl TypeError)"

text \<open>A property of a value that may be \<open>undefined\<close>, and the operator \<open>in\<close>.\<close>

definition read_field :: "json option \<Rightarrow> string \<Rightarrow> js_type_error + json option" where
  "read_field v key = (case v of None \<Rightarrow> Inl TypeError | Some j \<Rightarrow> read_property j key)"

definition has_field :: "json option \<Rightarrow> string \<Rightarrow> js_type_error + bool" where
  "has_field v key =
     (case v of
        Some (JObj es) \<Rightarrow> Inr (map_of es key \<noteq> None)
      | Some (JArr _) \<Rightarrow> Inr False
      | _ \<Rightarrow> Inl TypeError)"

definition json_fields :: "json option \<Rightarrow> (string \<times> json) list" where
  "json_fields v = (case v of Some (JObj es) \<Rightarrow> es | _ \<Rightarrow> [])"

text \<open>
  An object literal whose fields are read from another object. A field that is \<open>undefined\<close> there is
  left out, as no reader tells it from an absent one.
\<close>

definition copy_fields :: "(string \<times> json) list \<Rightarrow> string list \<Rightarrow> (string \<times> json) list" where
  "copy_fields es keys = List.map_filter (\<lambda>k. map_option (Pair k) (map_of es k)) keys"

text \<open>
  On values that are not strings the comparison of \<open>snapshot.slice(offset)\<close> with the delta fails, or
  reading a length or calling \<open>slice\<close> throws the same kind of error.
\<close>

definition assert_legacy_append_snapshot :: "json option \<Rightarrow> json option \<Rightarrow> js_type_error + unit" where
  "assert_legacy_append_snapshot snapshot delta =
     (case (snapshot, delta) of
        (Some (JStr s), Some (JStr d)) \<Rightarrow>
          (let offset = int (length s) - int (length d)
           in if offset < 0 \<or> drop (nat offset) s \<noteq> d then Inl TypeError else Inr ())
      | _ \<Rightarrow> Inl TypeError)"

definition assert_legacy_action_input_offset :: "json option \<Rightarrow> js_type_error + unit" where
  "assert_legacy_action_input_offset offset =
     (case offset of
        Some (JNum n) \<Rightarrow> if \<bar>n\<bar> \<le> 2 ^ 53 - 1 \<and> 0 \<le> n then Inr () else Inl TypeError
      | _ \<Rightarrow> Inl TypeError)"

definition assert_current_append_delta :: "json option \<Rightarrow> js_type_error + unit" where
  "assert_current_append_delta delta = (case delta of Some (JStr _) \<Rightarrow> Inr () | _ \<Rightarrow> Inl TypeError)"

definition assert_unsupported_append_field :: "json option \<Rightarrow> string \<Rightarrow> js_type_error + unit" where
  "assert_unsupported_append_field data field =
     and_then (has_field data field) (\<lambda>found. if found then Inl TypeError else Inr ())"

definition rebuilt_event :: "json \<Rightarrow> json option \<Rightarrow> string list \<Rightarrow> json" where
  "rebuilt_event event data keys =
     JObj ((''data'', JObj (copy_fields (json_fields data) keys))
       # copy_fields (json_fields (Some event)) [''meta'', ''type''])"

definition normalize_legacy_append :: "json \<Rightarrow> string \<Rightarrow> string \<Rightarrow> js_type_error + json" where
  "normalize_legacy_append event snapshot_key delta_key =
     and_then (read_property event ''data'') (\<lambda>data.
     and_then (read_field data snapshot_key) (\<lambda>snapshot.
     and_then (read_field data delta_key) (\<lambda>delta.
     and_then (assert_legacy_append_snapshot snapshot delta) (\<lambda>_.
       Inr (rebuilt_event event data [delta_key, ''sequence'', ''stepIndex'', ''turnId''])))))"

definition normalize_legacy_message_stream_event ::
    "stream_version option \<Rightarrow> json \<Rightarrow> js_type_error + json" where
  "normalize_legacy_message_stream_event version event =
     and_then (read_property event ''type'') (\<lambda>event_type.
       if event_type = Some (JStr ''message.appended'')
       then normalize_legacy_append event ''messageSoFar'' ''messageDelta''
       else if event_type = Some (JStr ''reasoning.appended'')
       then normalize_legacy_append event ''reasoningSoFar'' ''reasoningDelta''
       else if event_type = Some (JStr ''action.input.appended'')
       then if version \<noteq> None \<and> version \<noteq> Some V24 then Inl TypeError
            else and_then (read_property event ''data'') (\<lambda>data.
                 and_then (read_field data ''inputTextOffset'') (\<lambda>offset.
                 and_then (assert_legacy_action_input_offset offset) (\<lambda>_.
                   Inr (rebuilt_event event data
                     [''callId'', ''inputTextDelta'', ''sequence'', ''stepIndex'', ''toolName'', ''turnId'']))))
       else Inr event)"

definition validate_current_append ::
    "json \<Rightarrow> string \<Rightarrow> string list \<Rightarrow> js_type_error + json" where
  "validate_current_append event delta_key unsupported =
     and_then (read_property event ''data'') (\<lambda>data.
     and_then (read_field data delta_key) (\<lambda>delta.
     and_then (assert_current_append_delta delta) (\<lambda>_.
     and_then (those_sum (map (assert_unsupported_append_field data) unsupported)) (\<lambda>_. Inr event))))"

definition validate_current_message_stream_event :: "json \<Rightarrow> js_type_error + json" where
  "validate_current_message_stream_event event =
     and_then (read_property event ''type'') (\<lambda>event_type.
       if event_type = Some (JStr ''message.appended'')
       then validate_current_append event ''messageDelta'' [''messageOffset'', ''messageSoFar'']
       else if event_type = Some (JStr ''reasoning.appended'')
       then validate_current_append event ''reasoningDelta'' [''reasoningOffset'', ''reasoningSoFar'']
       else if event_type = Some (JStr ''action.input.appended'')
       then validate_current_append event ''inputTextDelta'' [''inputTextOffset'']
       else Inr event)"

definition normalize_message_stream_event :: "stream_version \<Rightarrow> json \<Rightarrow> js_type_error + json" where
  "normalize_message_stream_event version event =
     (if version = V25 then validate_current_message_stream_event event
      else normalize_legacy_message_stream_event (Some version) event)"

text \<open>The three tests are tried in order; \<open>in\<close> is evaluated only on an event of the right type.\<close>

definition is_legacy_append :: "json \<Rightarrow> js_type_error + bool" where
  "is_legacy_append event =
     and_then (read_property event ''type'') (\<lambda>event_type.
       case map_of [(''message.appended'', ''messageSoFar''), (''reasoning.appended'', ''reasoningSoFar''),
                    (''action.input.appended'', ''inputTextOffset'')]
              (case event_type of Some (JStr t) \<Rightarrow> t | _ \<Rightarrow> []) of
         None \<Rightarrow> Inr False
       | Some key \<Rightarrow> and_then (read_property event ''data'') (\<lambda>data. has_field data key))"

definition normalize_persisted_message_stream_event :: "json \<Rightarrow> js_type_error + json" where
  "normalize_persisted_message_stream_event event =
     and_then (is_legacy_append event) (\<lambda>legacy.
       if legacy then normalize_legacy_message_stream_event None event
       else normalize_message_stream_event V25 event)"

section \<open>Reading newline-delimited JSON (ndjson.ts, ndjson-stream.ts)\<close>

datatype read_failure = DisconnectFailure | OtherReadFailure

datatype wire_error = SyntaxFailure | InvalidEvent | ReadFailed read_failure

datatype body_end = BodyEnded string | BodyFailed read_failure

definition is_newline :: "char \<Rightarrow> bool" where
  "is_newline c \<longleftrightarrow> c = CHR 0x0A"

text \<open>
  The loop over the complete lines of the buffer: what the lines gave, and the rest of the buffer or
  the error that ended it. \<open>handle\<close> gets a trimmed line.
\<close>

function scan_lines :: "(string \<Rightarrow> 'e + 'a list) \<Rightarrow> string \<Rightarrow> 'a list \<times> ('e + string)" where
  "scan_lines handle buffer =
     (case find_index is_newline buffer of
        None \<Rightarrow> ([], Inr buffer)
      | Some i \<Rightarrow>
          (case handle (trim (take i buffer)) of
             Inl e \<Rightarrow> ([], Inl e)
           | Inr xs \<Rightarrow> (let (ys, r) = scan_lines handle (drop (Suc i) buffer) in (xs @ ys, r))))"
  by pat_completeness auto
termination
  by (relation "measure (length \<circ> snd)") (auto simp: find_index_eq_Some_iff)

declare scan_lines.simps [simp del]

text \<open>The read loop: the final text of the decoder and the trailing line belong to the end of the body.\<close>

fun read_chunks ::
    "(string \<Rightarrow> wire_error + 'a list) \<Rightarrow> string \<Rightarrow> string list \<Rightarrow> body_end \<Rightarrow> 'a list \<times> wire_error option" where
  "read_chunks handle buffer [] (BodyFailed e) = ([], Some (ReadFailed e))"
| "read_chunks handle buffer [] (BodyEnded flush) =
     (case handle (trim (buffer @ flush)) of Inl e \<Rightarrow> ([], Some e) | Inr xs \<Rightarrow> (xs, None))"
| "read_chunks handle buffer (chunk # chunks) ending =
     (case scan_lines handle (buffer @ chunk) of
        (xs, Inl e) \<Rightarrow> (xs, Some e)
      | (xs, Inr rest) \<Rightarrow> (let (ys, r) = read_chunks handle rest chunks ending in (xs @ ys, r)))"

datatype stream_item = StreamEvent json | LeaseEnded

definition EVE_STREAM_LEASE_ENDED_CONTROL :: json where
  "EVE_STREAM_LEASE_ENDED_CONTROL = JObj [(''$eve'', JStr ''stream.lease-ended''), (''version'', JNum 1)]"

definition is_lease_ended_control :: "json \<Rightarrow> bool" where
  "is_lease_ended_control v =
     (case v of
        JObj es \<Rightarrow> map_of es ''$eve'' = Some (JStr ''stream.lease-ended'') \<and> map_of es ''version'' = Some (JNum 1)
      | _ \<Rightarrow> False)"

definition read_event_line ::
    "(string \<Rightarrow> json option) \<Rightarrow> bool \<Rightarrow> stream_version \<Rightarrow> string \<Rightarrow> wire_error + stream_item list" where
  "read_event_line parse controlled version line =
     (if line = [] then Inr []
      else case parse line of
        None \<Rightarrow> Inl SyntaxFailure
      | Some v \<Rightarrow>
          if controlled \<and> is_lease_ended_control v then Inr [LeaseEnded]
          else (case normalize_message_stream_event version v of
                  Inl e \<Rightarrow> Inl InvalidEvent
                | Inr event \<Rightarrow> Inr [StreamEvent event]))"

definition read_ndjson_stream ::
    "(string \<Rightarrow> json option) \<Rightarrow> bool \<Rightarrow> stream_version \<Rightarrow> string list \<Rightarrow> body_end
     \<Rightarrow> stream_item list \<times> wire_error option" where
  "read_ndjson_stream parse controlled version chunks ending =
     read_chunks (read_event_line parse controlled version) [] chunks ending"

text \<open>The reader of a persisted stream applies its own parser to every value.\<close>

definition parse_ndjson_line ::
    "(string \<Rightarrow> json option) \<Rightarrow> (json \<Rightarrow> wire_error + 'a) \<Rightarrow> string \<Rightarrow> wire_error + 'a list" where
  "parse_ndjson_line parse convert line =
     (if line = [] then Inr []
      else case parse line of
        None \<Rightarrow> Inl SyntaxFailure
      | Some v \<Rightarrow> map_sum id (\<lambda>x. [x]) (convert v))"

definition parse_ndjson_stream ::
    "(string \<Rightarrow> json option) \<Rightarrow> (json \<Rightarrow> wire_error + 'a) \<Rightarrow> string list \<Rightarrow> body_end
     \<Rightarrow> 'a list \<times> wire_error option" where
  "parse_ndjson_stream parse convert chunks ending = read_chunks (parse_ndjson_line parse convert) [] chunks ending"

subsection \<open>Chunks do not matter\<close>

text \<open>The reference: the text cut at its newlines, and the lines handled in order.\<close>

fun split_lines :: "string \<Rightarrow> string list" where
  "split_lines [] = [[]]"
| "split_lines (c # cs) =
     (if is_newline c then [] # split_lines cs
      else (case split_lines cs of [] \<Rightarrow> [[c]] | l # ls \<Rightarrow> (c # l) # ls))"

fun handle_lines :: "(string \<Rightarrow> 'e + 'a list) \<Rightarrow> string list \<Rightarrow> 'a list \<times> 'e option" where
  "handle_lines handle [] = ([], None)"
| "handle_lines handle (l # ls) =
     (case handle (trim l) of
        Inl e \<Rightarrow> ([], Some e)
      | Inr xs \<Rightarrow> (let (ys, r) = handle_lines handle ls in (xs @ ys, r)))"

lemma split_lines_nonempty [simp]: "split_lines s \<noteq> []"
  by (induction s) (auto split: list.splits)

lemma split_lines_no_newline: "\<forall>c \<in> set s. \<not> is_newline c \<Longrightarrow> split_lines s = [s]"
  by (induction s) auto

lemma split_lines_cons:
  assumes "\<forall>c \<in> set s. \<not> is_newline c" and "is_newline n"
  shows "split_lines (s @ n # rest) = s # split_lines rest"
  using assms by (induction s) auto

lemma split_lines_append:
  "split_lines (s @ t) = butlast (split_lines s) @ split_lines (last (split_lines s) @ t)"
proof (induction s)
  case (Cons c s)
  obtain l ls where ls: "split_lines s = l # ls" by (cases "split_lines s") auto
  show ?case
  proof (cases "is_newline c")
    case True
    then show ?thesis using Cons by simp
  next
    case False
    show ?thesis
    proof (cases ls)
      case Nil
      then show ?thesis using Cons False ls by simp
    next
      case (Cons l' ls')
      then show ?thesis using Cons.IH False ls by simp
    qed
  qed
qed simp

lemma handle_lines_append:
  "handle_lines handle (ks @ ls)
   = (case handle_lines handle ks of
        (xs, Some e) \<Rightarrow> (xs, Some e)
      | (xs, None) \<Rightarrow> (let (ys, r) = handle_lines handle ls in (xs @ ys, r)))"
  by (induction ks) (auto split: sum.splits prod.splits option.splits)

lemma scan_lines_eq:
  "scan_lines handle buffer
   = (case handle_lines handle (butlast (split_lines buffer)) of
        (xs, Some e) \<Rightarrow> (xs, Inl e)
      | (xs, None) \<Rightarrow> (xs, Inr (last (split_lines buffer))))"
proof (induction handle buffer rule: scan_lines.induct)
  case (1 handle buffer)
  show ?case
  proof (cases "find_index is_newline buffer")
    case None
    then have "split_lines buffer = [buffer]"
      by (intro split_lines_no_newline) (simp add: find_index_eq_None_iff)
    with None show ?thesis by (subst scan_lines.simps) simp
  next
    case (Some i)
    then have i: "i < length buffer" "is_newline (buffer ! i)" and pre: "\<forall>c \<in> set (take i buffer). \<not> is_newline c"
      by (auto simp: find_index_eq_Some_iff in_set_conv_nth)
    have "split_lines buffer = take i buffer # split_lines (drop (Suc i) buffer)"
      using split_lines_cons [OF pre i(2), of "drop (Suc i) buffer"] i(1) by (simp add: id_take_nth_drop [symmetric])
    moreover note 1 [OF Some]
    ultimately show ?thesis using Some
      by (subst scan_lines.simps) (auto split: sum.splits prod.splits option.splits)
  qed
qed

lemma last_split_lines_no_newline: "\<forall>c \<in> set (last (split_lines s)). \<not> is_newline c"
  by (induction s) (auto split: list.splits if_splits)

definition handle_body :: "(string \<Rightarrow> wire_error + 'a list) \<Rightarrow> string list \<Rightarrow> body_end \<Rightarrow> 'a list \<times> wire_error option" where
  "handle_body handle lines ending =
     (case handle_lines handle (butlast lines) of
        (xs, Some e) \<Rightarrow> (xs, Some e)
      | (xs, None) \<Rightarrow>
          (case ending of
             BodyFailed e \<Rightarrow> (xs, Some (ReadFailed e))
           | BodyEnded flush \<Rightarrow> (let (ys, r) = handle_lines handle [last lines @ flush] in (xs @ ys, r))))"

lemma read_chunks_eq:
  assumes "\<forall>c \<in> set buffer. \<not> is_newline c"
  shows "read_chunks handle buffer chunks ending = handle_body handle (split_lines (buffer @ concat chunks)) ending"
  using assms
proof (induction chunks arbitrary: buffer)
  case Nil
  then show ?case
    by (cases ending) (auto simp: handle_body_def split_lines_no_newline split: sum.splits)
next
  case (Cons chunk chunks)
  let ?L = "split_lines (buffer @ chunk)"
  have "split_lines (buffer @ concat (chunk # chunks)) = butlast ?L @ split_lines (last ?L @ concat chunks)"
    using split_lines_append [of "buffer @ chunk" "concat chunks"] by simp
  with Cons.IH [OF last_split_lines_no_newline] show ?case
    by (auto simp: scan_lines_eq handle_body_def handle_lines_append butlast_append Let_def
        split: prod.splits option.splits body_end.splits)
qed

text \<open>The chunks of a body do not matter: whatever its division, the reader of a session stream
  (and likewise the reader of a persisted stream) yields what the complete lines of the whole text
  give, one after the other, up to the first bad line or the failed read.\<close>

lemma chunks_do_not_matter:
  "read_ndjson_stream parse controlled version chunks ending
     = handle_body (read_event_line parse controlled version) (split_lines (concat chunks)) ending
   \<and> parse_ndjson_stream parse convert chunks ending
     = handle_body (parse_ndjson_line parse convert) (split_lines (concat chunks)) ending"
  by (simp add: read_ndjson_stream_def parse_ndjson_stream_def read_chunks_eq)

section \<open>The serializer of the server (request.ts)\<close>

definition encode_message_stream_event :: "(json \<Rightarrow> string) \<Rightarrow> json \<Rightarrow> string" where
  "encode_message_stream_event stringify event = stringify event @ [CHR 0x0A]"

definition stream_event_limit :: "int option \<Rightarrow> int option \<Rightarrow> int option" where
  "stream_event_limit start_index tail_index =
     (case tail_index of
        None \<Rightarrow> None
      | Some tail \<Rightarrow>
          (let start = (case start_index of
                          None \<Rightarrow> 0
                        | Some i \<Rightarrow> if i < 0 then max 0 (tail + 1 + i) else i)
           in Some (max 0 (tail - start + 1))))"

record serializer =
  sent_chunks :: "string list"
  event_count :: int
  event_limit :: "int option"
  is_leased :: bool
  heartbeat_timer :: bool
  lease_timer :: bool
  terminated :: bool

datatype serve_step = ServeEvent json | HeartbeatDue | LeaseDue | SourceEnds

definition enqueue_chunk :: "serializer \<Rightarrow> string \<Rightarrow> serializer" where
  "enqueue_chunk s chunk = s\<lparr>sent_chunks := sent_chunks s @ [chunk]\<rparr>"

definition clear_timers :: "serializer \<Rightarrow> serializer" where
  "clear_timers s = s\<lparr>heartbeat_timer := False, lease_timer := False\<rparr>"

definition schedule_heartbeat :: "serializer \<Rightarrow> serializer" where
  "schedule_heartbeat s = s\<lparr>heartbeat_timer := True\<rparr>"

definition start_lease :: "serializer \<Rightarrow> serializer" where
  "start_lease s = (schedule_heartbeat s)\<lparr>lease_timer := True\<rparr>"

definition start_serializer :: "int option \<Rightarrow> bool \<Rightarrow> serializer" where
  "start_serializer limit leased =
     (let s = enqueue_chunk \<lparr>sent_chunks = [], event_count = 0, event_limit = limit, is_leased = leased,
                heartbeat_timer = False, lease_timer = False, terminated = False\<rparr> [CHR 0x0A]
      in if limit = Some 0 then s\<lparr>terminated := True\<rparr>
         else if leased then start_lease s
         else s)"

definition transform_event :: "(json \<Rightarrow> string) \<Rightarrow> serializer \<Rightarrow> json \<Rightarrow> serializer" where
  "transform_event stringify s event =
     (let s = enqueue_chunk s (stringify event @ [CHR 0x0A]);
          s = s\<lparr>event_count := event_count s + 1\<rparr>
      in if Some (event_count s) = event_limit s then (clear_timers s)\<lparr>terminated := True\<rparr>
         else if is_leased s then schedule_heartbeat s
         else s)"

text \<open>A timer that is not armed does not fire; a terminated stream takes no more events.\<close>

fun serve_next :: "(json \<Rightarrow> string) \<Rightarrow> serializer \<Rightarrow> serve_step \<Rightarrow> serializer" where
  "serve_next stringify s (ServeEvent event) = (if terminated s then s else transform_event stringify s event)"
| "serve_next stringify s HeartbeatDue =
     (if heartbeat_timer s then schedule_heartbeat (enqueue_chunk s [CHR 0x0A]) else s)"
| "serve_next stringify s LeaseDue =
     (if lease_timer s
      then (enqueue_chunk (clear_timers s) (stringify EVE_STREAM_LEASE_ENDED_CONTROL @ [CHR 0x0A]))\<lparr>terminated := True\<rparr>
      else s)"
| "serve_next stringify s SourceEnds = (if terminated s then s else (clear_timers s)\<lparr>terminated := True\<rparr>)"

definition serialize_as_ndjson ::
    "(json \<Rightarrow> string) \<Rightarrow> int option \<Rightarrow> bool \<Rightarrow> serve_step list \<Rightarrow> serializer" where
  "serialize_as_ndjson stringify limit leased steps = foldl (serve_next stringify) (start_serializer limit leased) steps"

subsection \<open>What a client reads is what the server sent\<close>

text \<open>What a step sends, read as items of the stream; a heartbeat is a blank line.\<close>

fun step_items :: "serializer \<Rightarrow> serve_step \<Rightarrow> stream_item list" where
  "step_items s (ServeEvent event) = (if terminated s then [] else [StreamEvent event])"
| "step_items s LeaseDue = (if lease_timer s then [LeaseEnded] else [])"
| "step_items s _ = []"

fun served_items :: "(json \<Rightarrow> string) \<Rightarrow> serializer \<Rightarrow> serve_step list \<Rightarrow> stream_item list" where
  "served_items stringify s [] = []"
| "served_items stringify s (st # sts) = step_items s st @ served_items stringify (serve_next stringify s st) sts"

definition item_events :: "stream_item list \<Rightarrow> json list" where
  "item_events items = List.map_filter (\<lambda>i. case i of StreamEvent e \<Rightarrow> Some e | LeaseEnded \<Rightarrow> None) items"

definition source_events :: "serve_step list \<Rightarrow> json list" where
  "source_events steps = List.map_filter (\<lambda>st. case st of ServeEvent e \<Rightarrow> Some e | _ \<Rightarrow> None) steps"

text \<open>
  What the wire relies on: the text of a value is one non-empty line without space around it that
  parses back to the value, and an event has the shape of the current version.
\<close>

definition wire_value :: "(json \<Rightarrow> string) \<Rightarrow> (string \<Rightarrow> json option) \<Rightarrow> json \<Rightarrow> bool" where
  "wire_value stringify parse v \<longleftrightarrow>
     parse (stringify v) = Some v \<and> stringify v \<noteq> [] \<and> trim (stringify v) = stringify v
     \<and> list_all (\<lambda>c. \<not> is_newline c) (stringify v)"

definition wire_event :: "(json \<Rightarrow> string) \<Rightarrow> (string \<Rightarrow> json option) \<Rightarrow> json \<Rightarrow> bool" where
  "wire_event stringify parse e \<longleftrightarrow>
     wire_value stringify parse e \<and> normalize_message_stream_event V25 e = Inr e \<and> \<not> is_lease_ended_control e"

definition serializer_inv :: "bool \<Rightarrow> serializer \<Rightarrow> bool" where
  "serializer_inv leased s \<longleftrightarrow>
     is_leased s = leased \<and> (lease_timer s \<longrightarrow> leased) \<and> (terminated s \<longrightarrow> \<not> lease_timer s \<and> \<not> heartbeat_timer s)
     \<and> (\<forall>k. event_limit s = Some k \<longrightarrow> 0 \<le> k \<longrightarrow> event_count s \<le> k \<and> (\<not> terminated s \<longrightarrow> event_count s < k))"

lemmas serializer_simps = serializer_inv_def transform_event_def enqueue_chunk_def clear_timers_def
  schedule_heartbeat_def start_lease_def Let_def

interpretation serializer_machine: invariant_machine "serve_next stringify" "serializer_inv leased"
  for stringify and leased
proof
  fix s st assume "serializer_inv leased s"
  then show "serializer_inv leased (serve_next stringify s st)"
    by (cases st) (auto simp: serializer_simps)
qed

lemma start_serializer_inv: "serializer_inv leased (start_serializer limit leased)"
  by (auto simp: start_serializer_def serializer_simps)

lemma start_serializer_fields:
  "event_limit (start_serializer limit leased) = limit" "event_count (start_serializer limit leased) = 0"
  by (simp_all add: start_serializer_def serializer_simps)

lemma serve_next_fields:
  "event_limit (serve_next stringify s st) = event_limit s"
  "event_count (serve_next stringify s st) = event_count s + int (length (item_events (step_items s st)))"
  by (cases st; auto simp: serializer_simps item_events_def List.map_filter_def)+

lemma served_items_after_end:
  "serializer_inv leased s \<Longrightarrow> terminated s \<Longrightarrow> served_items stringify s sts = []"
proof (induction sts)
  case (Cons st sts)
  then have "serve_next stringify s st = s" "step_items s st = []"
    by (cases st; simp add: serializer_inv_def)+
  with Cons show ?case by simp
qed simp

lemma served_events_prefix:
  "serializer_inv leased s \<Longrightarrow> prefix (item_events (served_items stringify s sts)) (source_events sts)"
proof (induction sts arbitrary: s)
  case (Cons st sts)
  have inv: "serializer_inv leased (serve_next stringify s st)"
    by (rule serializer_machine.step_inv [OF Cons.prems])
  show ?case
  proof (cases "terminated (serve_next stringify s st) \<and> step_items s st = []")
    case True
    with inv served_items_after_end show ?thesis by (simp add: item_events_def List.map_filter_def)
  next
    case False
    show ?thesis
    proof (cases "\<exists>e. st = ServeEvent e \<and> terminated s")
      case True
      with False show ?thesis by auto
    next
      case other: False
      then have "item_events (step_items s st) = source_events [st]"
        by (cases st) (auto simp: item_events_def source_events_def List.map_filter_def)
      with Cons.IH [OF inv] show ?thesis
        by (simp add: item_events_def source_events_def List.map_filter_def split: option.splits)
    qed
  qed
qed (simp add: item_events_def List.map_filter_def)

lemma served_events_bound:
  "serializer_inv leased s \<Longrightarrow> event_limit s = Some k \<Longrightarrow> 0 \<le> k
   \<Longrightarrow> event_count s + int (length (item_events (served_items stringify s sts))) \<le> k"
proof (induction sts arbitrary: s)
  case Nil
  then show ?case by (simp add: serializer_inv_def item_events_def List.map_filter_def)
next
  case (Cons st sts)
  have "event_count (serve_next stringify s st)
      + int (length (item_events (served_items stringify (serve_next stringify s st) sts))) \<le> k"
    by (rule Cons.IH [OF serializer_machine.step_inv [OF Cons.prems(1)]])
      (simp_all add: serve_next_fields Cons.prems)
  then show ?case by (simp add: serve_next_fields item_events_def)
qed

text \<open>The text sent so far is a sequence of complete lines that give the items sent so far.\<close>

definition sent_as :: "(string \<Rightarrow> wire_error + stream_item list) \<Rightarrow> serializer \<Rightarrow> stream_item list \<Rightarrow> bool" where
  "sent_as handle s items \<longleftrightarrow>
     (\<exists>ls. sent_chunks s = map (\<lambda>l. l @ [CHR 0x0A]) ls \<and> (\<forall>l \<in> set ls. \<forall>c \<in> set l. \<not> is_newline c)
        \<and> handle_lines handle ls = (items, None))"

lemma sent_as_more:
  assumes "sent_as handle s items" and "sent_chunks s' = sent_chunks s @ [l @ [CHR 0x0A]]"
    and "\<forall>c \<in> set l. \<not> is_newline c" and "handle (trim l) = Inr xs"
  shows "sent_as handle s' (items @ xs)"
proof -
  from assms(1) obtain ls where "sent_chunks s = map (\<lambda>l. l @ [CHR 0x0A]) ls"
    "\<forall>l \<in> set ls. \<forall>c \<in> set l. \<not> is_newline c" "handle_lines handle ls = (items, None)"
    unfolding sent_as_def by blast
  with assms(2-4) show ?thesis
    unfolding sent_as_def by (intro exI [of _ "ls @ [l]"]) (auto simp: handle_lines_append)
qed

lemma trim_Nil [simp]: "trim [] = []"
  by (simp add: trim_def)

lemma handler_event:
  "wire_event stringify parse e \<Longrightarrow> read_event_line parse leased V25 (trim (stringify e)) = Inr [StreamEvent e]"
  by (simp add: wire_event_def wire_value_def read_event_line_def)

lemma handler_control:
  "wire_value stringify parse EVE_STREAM_LEASE_ENDED_CONTROL \<Longrightarrow> leased
   \<Longrightarrow> read_event_line parse leased V25 (trim (stringify EVE_STREAM_LEASE_ENDED_CONTROL)) = Inr [LeaseEnded]"
  by (simp add: wire_value_def read_event_line_def is_lease_ended_control_def EVE_STREAM_LEASE_ENDED_CONTROL_def)

lemma serve_next_sent:
  fixes parse leased
  defines "handler \<equiv> read_event_line parse leased V25"
  assumes control: "wire_value stringify parse EVE_STREAM_LEASE_ENDED_CONTROL"
    and inv: "serializer_inv leased s" and sent: "sent_as handler s items"
    and ok: "\<And>e. st = ServeEvent e \<Longrightarrow> wire_event stringify parse e"
  shows "sent_as handler (serve_next stringify s st) (items @ step_items s st)"
proof (cases st)
  case (ServeEvent e)
  show ?thesis
  proof (cases "terminated s")
    case False
    have "\<forall>c \<in> set (stringify e). \<not> is_newline c"
      using ok [OF ServeEvent] by (simp add: wire_event_def wire_value_def list_all_iff)
    with sent_as_more [OF sent _ this handler_event [OF ok [OF ServeEvent], of leased, folded handler_def]]
      False ServeEvent
    show ?thesis by (simp add: serializer_simps)
  qed (simp add: ServeEvent sent)
next
  case HeartbeatDue
  have "handler (trim []) = Inr []" by (simp add: handler_def read_event_line_def)
  with sent_as_more [OF sent, of _ "[]"] sent HeartbeatDue show ?thesis
    by (simp add: serializer_simps)
next
  case LeaseDue
  have "\<forall>c \<in> set (stringify EVE_STREAM_LEASE_ENDED_CONTROL). \<not> is_newline c"
    using control by (simp add: wire_value_def list_all_iff)
  with sent_as_more [OF sent _ this handler_control [OF control, of leased, folded handler_def]] inv sent LeaseDue show ?thesis
    by (simp add: serializer_simps)
next
  case SourceEnds
  with sent show ?thesis by (simp add: serializer_simps sent_as_def)
qed

lemma served_sent:
  fixes parse leased
  defines "handler \<equiv> read_event_line parse leased V25"
  assumes control: "wire_value stringify parse EVE_STREAM_LEASE_ENDED_CONTROL"
    and "serializer_inv leased s" and "sent_as handler s items"
    and "\<forall>e \<in> set (source_events sts). wire_event stringify parse e"
  shows "sent_as handler (foldl (serve_next stringify) s sts) (items @ served_items stringify s sts)"
  using assms(3-)
proof (induction sts arbitrary: s items)
  case (Cons st sts)
  have ok: "wire_event stringify parse e" if "st = ServeEvent e" for e
    using Cons.prems(3) that by (simp add: source_events_def List.map_filter_def)
  have rest: "\<forall>e \<in> set (source_events sts). wire_event stringify parse e"
    using Cons.prems(3) by (auto simp: source_events_def List.map_filter_def split: if_splits)
  show ?case
    using Cons.IH [OF serializer_machine.step_inv [OF Cons.prems(1)]
        serve_next_sent [OF control Cons.prems(1) Cons.prems(2) [unfolded handler_def] ok, folded handler_def] rest]
    by simp
qed simp

lemma sent_as_split:
  assumes "sent_as handle s items"
  shows "handle_lines handle (butlast (split_lines (concat (sent_chunks s)))) = (items, None)
    \<and> last (split_lines (concat (sent_chunks s))) = []"
proof -
  have split: "split_lines (concat (map (\<lambda>l. l @ [CHR 0x0A]) ls)) = ls @ [[]]"
    if "\<forall>l \<in> set ls. \<forall>c \<in> set l. \<not> is_newline c" for ls
    using that
  proof (induction ls)
    case (Cons l ls)
    then show ?case using split_lines_cons [of l "CHR 0x0A"] by (simp add: is_newline_def)
  qed simp
  from assms show ?thesis unfolding sent_as_def by (auto simp: split)
qed

lemma start_sent: "sent_as (read_event_line parse leased V25) (start_serializer limit leased) []"
proof -
  have "sent_chunks (start_serializer limit leased) = [[] @ [CHR 0x0A]]"
    by (simp add: start_serializer_def serializer_simps)
  then show ?thesis unfolding sent_as_def
    by (intro exI [of _ "[[]]"]) (simp add: read_event_line_def)
qed

text \<open>C23: What a client reads is what the server sent: however the server's events, heartbeats and
  lease interleave and however the transport cuts the text, the client gets exactly the events the
  serializer accepted, in order, and learns that the lease ended exactly when it did. These events
  are a prefix of the source, and no more than the limit the request asked for.\<close>

theorem wire_round_trip:
  assumes "\<forall>e \<in> set (source_events steps). wire_event stringify parse e"
    and "wire_value stringify parse EVE_STREAM_LEASE_ENDED_CONTROL"
    and "concat chunks = concat (sent_chunks (serialize_as_ndjson stringify limit leased steps))"
  shows "read_ndjson_stream parse leased V25 chunks (BodyEnded [])
      = (served_items stringify (start_serializer limit leased) steps, None)
    \<and> prefix (item_events (served_items stringify (start_serializer limit leased) steps)) (source_events steps)
    \<and> (\<forall>k. limit = Some k \<longrightarrow> 0 \<le> k
        \<longrightarrow> int (length (item_events (served_items stringify (start_serializer limit leased) steps))) \<le> k)"
proof (intro conjI allI impI)
  have "sent_as (read_event_line parse leased V25) (serialize_as_ndjson stringify limit leased steps)
      (served_items stringify (start_serializer limit leased) steps)"
    using served_sent [OF assms(2) start_serializer_inv start_sent assms(1)]
    by (simp add: serialize_as_ndjson_def)
  from sent_as_split [OF this] show "read_ndjson_stream parse leased V25 chunks (BodyEnded [])
      = (served_items stringify (start_serializer limit leased) steps, None)"
    by (simp add: read_ndjson_stream_def read_chunks_eq assms(3) handle_body_def read_event_line_def)
  show "prefix (item_events (served_items stringify (start_serializer limit leased) steps)) (source_events steps)"
    by (rule served_events_prefix [OF start_serializer_inv])
  fix k assume "limit = Some k" "0 \<le> k"
  then show "int (length (item_events (served_items stringify (start_serializer limit leased) steps))) \<le> k"
    using served_events_bound [OF start_serializer_inv, of limit leased k] by (simp add: start_serializer_fields)
qed

definition waiting_event :: json where
  "waiting_event = JObj [(''type'', JStr ''session.waiting'')]"

definition table_stringify :: "json \<Rightarrow> string" where
  "table_stringify v =
     (if v = EVE_STREAM_LEASE_ENDED_CONTROL then ''{$eve:stream.lease-ended,version:1}''
      else ''{type:session.waiting}'')"

definition table_parse :: "string \<Rightarrow> json option" where
  "table_parse s =
     (if s = ''{$eve:stream.lease-ended,version:1}'' then Some EVE_STREAM_LEASE_ENDED_CONTROL
      else if s = ''{type:session.waiting}'' then Some waiting_event
      else None)"

definition waiting_text :: string where
  "waiting_text = concat (sent_chunks (serialize_as_ndjson table_stringify None True
     [ServeEvent waiting_event, HeartbeatDue, LeaseDue]))"

theorem wire_round_trip_witness:
  "read_ndjson_stream table_parse True V25 [take 7 waiting_text, drop 7 waiting_text] (BodyEnded [])
   = ([StreamEvent waiting_event, LeaseEnded], None)"
proof -
  have "\<forall>e \<in> set (source_events [ServeEvent waiting_event, HeartbeatDue, LeaseDue]). wire_event table_stringify table_parse e"
    by code_simp
  moreover have "wire_value table_stringify table_parse EVE_STREAM_LEASE_ENDED_CONTROL"
    by code_simp
  moreover have "concat [take 7 waiting_text, drop 7 waiting_text]
      = concat (sent_chunks (serialize_as_ndjson table_stringify None True
          [ServeEvent waiting_event, HeartbeatDue, LeaseDue]))"
    by (simp add: waiting_text_def)
  ultimately have "read_ndjson_stream table_parse True V25 [take 7 waiting_text, drop 7 waiting_text] (BodyEnded [])
      = (served_items table_stringify (start_serializer None True) [ServeEvent waiting_event, HeartbeatDue, LeaseDue], None)"
    using wire_round_trip by blast
  moreover have "served_items table_stringify (start_serializer None True)
      [ServeEvent waiting_event, HeartbeatDue, LeaseDue] = [StreamEvent waiting_event, LeaseEnded]"
    by code_simp
  ultimately show ?thesis by simp
qed

subsection \<open>A normalised legacy append has the current shape\<close>

lemma legacy_append_snapshot_ok:
  "assert_legacy_append_snapshot snapshot delta = Inr ()
   \<longleftrightarrow> (\<exists>s d. snapshot = Some (JStr s) \<and> delta = Some (JStr d) \<and> suffix d s)"
proof -
  have eq: "suffix d s \<longleftrightarrow> length d \<le> length s \<and> drop (length s - length d) s = d" for s d :: string
  proof
    assume "length d \<le> length s \<and> drop (length s - length d) s = d"
    then show "suffix d s" by (metis suffix_drop)
  qed (auto simp: suffix_def)
  have strings: "assert_legacy_append_snapshot (Some (JStr s)) (Some (JStr d)) = Inr () \<longleftrightarrow> suffix d s" for s d
    unfolding eq by (auto simp: assert_legacy_append_snapshot_def Let_def nat_diff_distrib')
  show ?thesis
  proof (cases "\<exists>s d. snapshot = Some (JStr s) \<and> delta = Some (JStr d)")
    case False
    then show ?thesis by (auto simp: assert_legacy_append_snapshot_def split: option.splits json.splits)
  qed (auto simp: strings)
qed

lemma copy_fields_Cons:
  "copy_fields es (k # ks) = (case map_of es k of None \<Rightarrow> copy_fields es ks | Some v \<Rightarrow> (k, v) # copy_fields es ks)"
  by (simp add: copy_fields_def List.map_filter_def split: option.split)

lemma map_of_copy_fields:
  "map_of (copy_fields es keys) k = (if k \<in> set keys then map_of es k else None)"
proof (induction keys)
  case Nil
  then show ?case by (simp add: copy_fields_def List.map_filter_def)
next
  case (Cons key keys)
  then show ?case by (auto simp: copy_fields_Cons split: option.splits)
qed

lemma normalized_append_is_current:
  assumes normal: "normalize_legacy_append event snapshot_key delta_key = Inr e'"
    and keys: "snapshot_key \<notin> set [delta_key, ''sequence'', ''stepIndex'', ''turnId'']"
    and type: "read_property event ''type'' = Inr (Some t)"
  shows "read_property e' ''type'' = Inr (Some t)
    \<and> validate_current_append e' delta_key [snapshot_key] = Inr e'
    \<and> read_property e' ''meta'' = read_property event ''meta''"
proof -
  obtain es where event: "event = JObj es" using type by (cases event) auto
  obtain d where delta: "read_field (map_of es ''data'') delta_key = Inr (Some (JStr d))"
    and e': "e' = rebuilt_event event (map_of es ''data'') [delta_key, ''sequence'', ''stepIndex'', ''turnId'']"
    using normal unfolding normalize_legacy_append_def event
    by (auto simp: and_then_eq_Inr_iff legacy_append_snapshot_ok)
  then obtain ds where ds: "map_of es ''data'' = Some (JObj ds)" "map_of ds delta_key = Some (JStr d)"
    by (auto simp: read_field_def split: option.splits elim!: read_property.elims)
  define fields where "fields = copy_fields ds [delta_key, ''sequence'', ''stepIndex'', ''turnId'']"
  have fields: "map_of fields delta_key = Some (JStr d)" "map_of fields snapshot_key = None"
    using ds keys by (simp_all add: fields_def map_of_copy_fields)
  have "e' = JObj ((''data'', JObj fields) # copy_fields es [''meta'', ''type''])"
    unfolding e' rebuilt_event_def event ds(1) fields_def by (simp add: json_fields_def)
  with fields type event show ?thesis
    by (simp add: map_of_copy_fields validate_current_append_def read_field_def has_field_def
        assert_current_append_delta_def assert_unsupported_append_field_def)
qed

end
