(* ===== verification/Client_Stream.thy ===== *)
theory Client_Stream
  imports Input_Resolution "HOL-Library.Extended_Nat"
begin

text \<open>
  The client's side of a durable event stream (packages/eve/src/client/): the classification of
  transport errors (ndjson.ts), the retry policies, the opening of a connection and the follow loop
  that reconnects from an advanced cursor (open-stream.ts). Everything outside the client is a step
  of the environment: what a fetch gives, which events a response carries before it ends, the
  policy in force and whether the caller has aborted. A server is a function of the request, so
  that a property can speak of what a connection opened at the cursor delivers. Attempt limits may
  be infinite.
\<close>

section \<open>Transport errors (ndjson.ts)\<close>

datatype js_error =
    DomException (dom_name: string)
  | ErrorObject (error_name: string) (error_message: string) (error_code: "string option") (is_type_error: bool)
  | OtherThrown

definition contains_text :: "string \<Rightarrow> string \<Rightarrow> bool" where
  "contains_text t s \<longleftrightarrow> list_ex (prefix t) (suffixes s)"

definition is_stream_disconnect_error :: "js_error \<Rightarrow> bool" where
  "is_stream_disconnect_error e =
     (case e of
        DomException name \<Rightarrow> name = ''AbortError''
      | OtherThrown \<Rightarrow> False
      | ErrorObject name message code type_error \<Rightarrow>
          name = ''AbortError''
          \<or> message = ''terminated''
          \<or> code = Some ''UND_ERR_SOCKET''
          \<or> type_error \<and> to_lower message \<in> set [''failed to fetch'', ''fetch failed'']
          \<or> list_ex (\<lambda>t. contains_text t (to_lower message))
               [''abort'', ''cancel'', ''disconnect'', ''premature close'', ''socket'', ''terminated''])"

section \<open>Retry policies (open-stream.ts)\<close>

record retry_policy =
  base_delay :: nat
  max_attempts :: enat
  max_delay :: nat

record retry_override =
  override_base :: "nat option"
  override_attempts :: "enat option"
  override_delay :: "nat option"

record reconnect_policy =
  retryable_statuses :: "nat list"
  idle_policy :: retry_policy
  open_policy :: retry_policy

datatype stream_reconnect_policy =
    NoReconnect
  | Reconnect "nat list option" "retry_override option" "retry_override option"

definition DEFAULT_STREAM_RECONNECT_POLICY :: reconnect_policy where
  "DEFAULT_STREAM_RECONNECT_POLICY =
     \<lparr>retryable_statuses = [404, 409, 425, 500, 502, 503, 504],
      idle_policy = \<lparr>base_delay = 250, max_attempts = 5, max_delay = 4000\<rparr>,
      open_policy = \<lparr>base_delay = 250, max_attempts = 12, max_delay = 5000\<rparr>\<rparr>"

definition NO_STREAM_RECONNECT_POLICY :: reconnect_policy where
  "NO_STREAM_RECONNECT_POLICY =
     (let d = DEFAULT_STREAM_RECONNECT_POLICY
      in d\<lparr>idle_policy := (idle_policy d)\<lparr>max_attempts := 0\<rparr>, open_policy := (open_policy d)\<lparr>max_attempts := 1\<rparr>\<rparr>)"

definition resolve_retry_policy :: "retry_override option \<Rightarrow> retry_policy \<Rightarrow> retry_policy" where
  "resolve_retry_policy policy defaults =
     (case policy of
        None \<Rightarrow> defaults
      | Some p \<Rightarrow>
          \<lparr>base_delay = case_option (base_delay defaults) id (override_base p),
           max_attempts = case_option (max_attempts defaults) id (override_attempts p),
           max_delay = case_option (max_delay defaults) id (override_delay p)\<rparr>)"

definition resolve_stream_reconnect_policy :: "stream_reconnect_policy option \<Rightarrow> bool \<Rightarrow> reconnect_policy" where
  "resolve_stream_reconnect_policy policy keep_alive =
     (let d = DEFAULT_STREAM_RECONNECT_POLICY;
          idle_defaults = (idle_policy d)\<lparr>max_attempts := if keep_alive then \<infinity> else max_attempts (idle_policy d)\<rparr>
      in case policy of
           Some NoReconnect \<Rightarrow> NO_STREAM_RECONNECT_POLICY
         | None \<Rightarrow> d\<lparr>idle_policy := idle_defaults\<rparr>
         | Some (Reconnect statuses idle opening) \<Rightarrow>
             \<lparr>retryable_statuses = case_option (retryable_statuses d) id statuses,
              idle_policy = resolve_retry_policy idle idle_defaults,
              open_policy = resolve_retry_policy opening (open_policy d)\<rparr>)"

section \<open>Opening one connection (open-stream.ts)\<close>

text \<open>
  What one attempt to fetch came to: the caller aborted, the request (or the resolution of its
  headers) failed, the response was no success, or a success without a body, of an unsupported
  stream version, or usable.
\<close>

datatype 'c fetch_outcome =
    FetchAborted
  | FetchThrew js_error
  | ErrorResponse nat string
  | NullBody nat
  | BadVersion
  | OkResponse 'c

datatype open_error = AbortThrown | NetworkThrown js_error | ClientThrown nat string | VersionThrown

datatype 'c open_result = Opened 'c | OpenThrew open_error | StillOpening

text \<open>The retry loop from an attempt on, with the delays it has slept.\<close>

fun open_attempts ::
    "reconnect_policy \<Rightarrow> nat \<Rightarrow> nat \<Rightarrow> (nat \<times> string) option \<Rightarrow> 'c fetch_outcome list \<Rightarrow> 'c open_result \<times> nat list" where
  "open_attempts p attempt delay previous outcomes =
     (if \<not> enat attempt < max_attempts (open_policy p)
      then (OpenThrew (case previous of
                         None \<Rightarrow> ClientThrown 0 ''Failed to open message stream.''
                       | Some (status, body) \<Rightarrow> ClientThrown status body), [])
      else case outcomes of
        [] \<Rightarrow> (StillOpening, [])
      | FetchAborted # _ \<Rightarrow> (OpenThrew AbortThrown, [])
      | FetchThrew e # rest \<Rightarrow>
          if \<not> is_stream_disconnect_error e \<or> enat (Suc attempt) = max_attempts (open_policy p)
          then (OpenThrew (NetworkThrown e), [])
          else (let (r, ds) = open_attempts p (Suc attempt) (min (delay * 2) (max_delay (open_policy p))) previous rest
                in (r, delay # ds))
      | NullBody status # _ \<Rightarrow> (OpenThrew (ClientThrown status ''Response body is null.''), [])
      | BadVersion # _ \<Rightarrow> (OpenThrew VersionThrown, [])
      | OkResponse c # _ \<Rightarrow> (Opened c, [])
      | ErrorResponse status body # rest \<Rightarrow>
          if status \<notin> set (retryable_statuses p) then (OpenThrew (ClientThrown status body), [])
          else if enat (Suc attempt) < max_attempts (open_policy p)
          then (let (r, ds) = open_attempts p (Suc attempt) (min (delay * 2) (max_delay (open_policy p))) (Some (status, body)) rest
                in (r, delay # ds))
          else open_attempts p (Suc attempt) delay (Some (status, body)) rest)"

declare open_attempts.simps [simp del]

definition open_stream_body :: "reconnect_policy \<Rightarrow> 'c fetch_outcome list \<Rightarrow> 'c open_result \<times> nat list" where
  "open_stream_body p outcomes = open_attempts p 0 (base_delay (open_policy p)) None outcomes"

text \<open>What the request asks for.\<close>

record stream_request =
  request_start :: int
  request_tail :: bool
  request_controlled :: bool

definition stream_request :: "int \<Rightarrow> bool \<Rightarrow> reconnect_policy \<Rightarrow> stream_request" where
  "stream_request start tail p =
     \<lparr>request_start = start, request_tail = tail,
      request_controlled = (0 \<le> start \<and> 0 < max_attempts (idle_policy p))\<rparr>"

text \<open>
  Opening ends after at most the allowed attempts, none of its delays exceeds the larger of the base
  and the cap, and there is one delay less than attempts.
\<close>

lemma open_attempts_bounded:
  assumes "max_attempts (open_policy p) = enat m" and "delay \<le> d" and "max_delay (open_policy p) \<le> d"
  shows "m - attempt \<le> length outcomes \<longrightarrow> fst (open_attempts p attempt delay previous outcomes) \<noteq> StillOpening"
    and "list_all (\<lambda>t. t \<le> d) (snd (open_attempts p attempt delay previous outcomes))"
    and "length (snd (open_attempts p attempt delay previous outcomes)) \<le> m - Suc attempt"
proof -
  have "(m - attempt \<le> length outcomes \<longrightarrow> fst (open_attempts p attempt delay previous outcomes) \<noteq> StillOpening)
    \<and> list_all (\<lambda>t. t \<le> d) (snd (open_attempts p attempt delay previous outcomes))
    \<and> length (snd (open_attempts p attempt delay previous outcomes)) \<le> m - Suc attempt"
    using assms(2)
  proof (induction outcomes arbitrary: attempt delay previous)
    case Nil
    then show ?case by (subst (1 2 3) open_attempts.simps) (simp add: assms(1))
  next
    case (Cons out outs)
    have next_delay: "min (delay * 2) (max_delay (open_policy p)) \<le> d" using assms(3) by simp
    note IH = Cons.IH [OF next_delay, of "Suc attempt"] Cons.IH [OF Cons.prems, of "Suc attempt"]
    show ?case
    proof (cases out)
      case (FetchThrew e)
      then show ?thesis using IH(1) [of previous] Cons.prems
        by (subst (1 2 3) open_attempts.simps) (auto simp: assms(1) split: prod.splits)
    next
      case (ErrorResponse status body)
      then show ?thesis using IH(1) [of "Some (status, body)"] IH(2) [of "Some (status, body)"] Cons.prems
        by (subst (1 2 3) open_attempts.simps) (auto simp: assms(1) split: prod.splits)
    qed (subst (1 2 3) open_attempts.simps, simp add: assms(1))+
  qed
  then show "m - attempt \<le> length outcomes \<longrightarrow> fst (open_attempts p attempt delay previous outcomes) \<noteq> StillOpening"
    and "list_all (\<lambda>t. t \<le> d) (snd (open_attempts p attempt delay previous outcomes))"
    and "length (snd (open_attempts p attempt delay previous outcomes)) \<le> m - Suc attempt"
    by blast+
qed

section \<open>Following a stream (open-stream.ts)\<close>

datatype 'e conn_item = Delivered 'e | LeaseOver

text \<open>
  A connection as the loop sees it: the header with the tail, what the body gave before it ended, the
  error that ended it, whether the caller had aborted then, and whether it aborted during the delay.
\<close>

record 'e connection =
  conn_tail :: "int option"
  conn_items :: "'e conn_item list"
  conn_error :: "js_error option"
  aborted_at_end :: bool
  aborted_in_delay :: bool

datatype 'e open_attempt = OpenFailed bool open_error | Connected "'e connection"

text \<open>One round of the loop: the policies resolved before and after it, and the server's response.\<close>

record 'e round =
  policy_before :: reconnect_policy
  policy_after :: reconnect_policy
  respond :: "stream_request \<Rightarrow> 'e open_attempt"

record follow_input =
  follow_bounded :: bool
  wants_caught_up :: bool
  start_at :: int

record follow_state =
  cursor :: int
  reconnect_delay :: nat
  idle_reconnects :: nat
  initial_connection :: bool
  tail_index :: "int option"
  caught_up :: bool

datatype 'e follow_signal = Yielded 'e | CaughtUp | Slept nat

datatype follow_error = NegativeBoundedRead | OpenFailure open_error | MissingTailIndex | StreamFailure js_error

datatype follow_status = Following | Returned | Threw follow_error

definition reads_tail :: "follow_input \<Rightarrow> follow_state \<Rightarrow> bool" where
  "reads_tail c s \<longleftrightarrow> (follow_bounded c \<or> wants_caught_up c) \<and> tail_index s = None"

definition past_tail :: "follow_state \<Rightarrow> bool" where
  "past_tail s = (case tail_index s of None \<Rightarrow> False | Some t \<Rightarrow> t < cursor s)"

definition note_caught_up :: "follow_input \<Rightarrow> follow_state \<Rightarrow> 'e follow_signal list \<times> follow_state" where
  "note_caught_up c s =
     (if \<not> caught_up s \<and> past_tail s
      then (if wants_caught_up c then [CaughtUp] else [], s\<lparr>caught_up := True\<rparr>)
      else ([], s))"

text \<open>
  The items of one connection: what is signalled, the state, whether an event was delivered, whether
  the lease ended, and whether the bounded read is complete.
\<close>

fun deliver_items ::
    "follow_input \<Rightarrow> retry_policy \<Rightarrow> follow_state \<Rightarrow> 'e conn_item list
     \<Rightarrow> 'e follow_signal list \<times> follow_state \<times> bool \<times> bool \<times> bool" where
  "deliver_items c p s [] = ([], s, False, False, False)"
| "deliver_items c p s (LeaseOver # items) =
     (let (sigs, s', delivered, lease, complete) = deliver_items c p s items
      in (sigs, s', delivered, True, complete))"
| "deliver_items c p s (Delivered e # items) =
     (let s = s\<lparr>cursor := cursor s + 1, reconnect_delay := base_delay p, idle_reconnects := 0\<rparr>;
          (up, s) = note_caught_up c s
      in if follow_bounded c \<and> past_tail s then (Yielded e # up, s, True, False, True)
         else (let (sigs, s', delivered, lease, complete) = deliver_items c p s items
               in (Yielded e # up @ sigs, s', True, lease, complete)))"

text \<open>What happens after a connection has ended.\<close>

definition after_connection ::
    "follow_input \<Rightarrow> retry_policy \<Rightarrow> 'e connection \<Rightarrow> bool \<Rightarrow> bool \<Rightarrow> follow_state
     \<Rightarrow> 'e follow_signal list \<times> follow_state \<times> follow_status" where
  "after_connection c p conn delivered lease s =
     (if aborted_at_end conn \<or> start_at c < 0 \<or> max_attempts p = 0 then ([], s, Returned)
      else if lease then ([], s, Following)
      else (let s = (if \<not> delivered \<and> \<not> initial_connection s then s\<lparr>idle_reconnects := idle_reconnects s + 1\<rparr> else s)
            in if \<not> delivered \<and> \<not> initial_connection s \<and> max_attempts p \<le> enat (idle_reconnects s)
               then ([], s, Returned)
               else (let s = s\<lparr>initial_connection := False\<rparr>; delay = reconnect_delay s
                     in if aborted_in_delay conn then ([Slept delay], s, Returned)
                        else ([Slept delay], s\<lparr>reconnect_delay := min (delay * 2) (max_delay p)\<rparr>, Following))))"

definition run_connection ::
    "follow_input \<Rightarrow> 'e round \<Rightarrow> follow_state \<Rightarrow> 'e connection \<Rightarrow> 'e follow_signal list \<times> follow_state \<times> follow_status" where
  "run_connection c r s conn =
     (let reads = reads_tail c s;
          s = (if reads then s\<lparr>tail_index := conn_tail conn\<rparr> else s)
      in if reads \<and> tail_index s = None then ([], s, Threw MissingTailIndex)
         else let (up, s) = note_caught_up c s
              in if follow_bounded c \<and> past_tail s then (up, s, Returned)
                 else let (sigs, s, delivered, lease, complete) =
                        deliver_items c (idle_policy (policy_before r)) s (conn_items conn)
                      in if complete then (up @ sigs, s, Returned)
                         else case conn_error conn of
                           Some e \<Rightarrow>
                             if \<not> is_stream_disconnect_error e then (up @ sigs, s, Threw (StreamFailure e))
                             else (let (after, s, st) = after_connection c (idle_policy (policy_after r)) conn delivered lease s
                                   in (up @ sigs @ after, s, st))
                         | None \<Rightarrow>
                             (let (after, s, st) = after_connection c (idle_policy (policy_after r)) conn delivered lease s
                              in (up @ sigs @ after, s, st)))"

definition follow_round ::
    "follow_input \<Rightarrow> follow_state \<Rightarrow> 'e round \<Rightarrow> 'e follow_signal list \<times> follow_state \<times> follow_status" where
  "follow_round c s r =
     (case respond r (stream_request (cursor s) (reads_tail c s) (policy_before r)) of
        OpenFailed True e \<Rightarrow> ([], s, Returned)
      | OpenFailed False e \<Rightarrow> ([], s, Threw (OpenFailure e))
      | Connected conn \<Rightarrow> run_connection c r s conn)"

fun follow_rounds ::
    "follow_input \<Rightarrow> follow_state \<Rightarrow> 'e round list \<Rightarrow> 'e follow_signal list \<times> follow_state \<times> follow_status" where
  "follow_rounds c s [] = ([], s, Following)"
| "follow_rounds c s (r # rs) =
     (case follow_round c s r of
        (sigs, s', Following) \<Rightarrow> (let (sigs', s'', st) = follow_rounds c s' rs in (sigs @ sigs', s'', st))
      | (sigs, s', st) \<Rightarrow> (sigs, s', st))"

definition initial_follow :: "follow_input \<Rightarrow> reconnect_policy \<Rightarrow> follow_state" where
  "initial_follow c p =
     \<lparr>cursor = start_at c, reconnect_delay = base_delay (idle_policy p), idle_reconnects = 0,
      initial_connection = True, tail_index = None, caught_up = False\<rparr>"

text \<open>\<open>p\<close> is the policy resolved on entry; \<open>Following\<close> means that the rounds given so far leave the loop running.\<close>

definition follow_stream_iterable ::
    "follow_input \<Rightarrow> reconnect_policy \<Rightarrow> 'e round list \<Rightarrow> 'e follow_signal list \<times> follow_state \<times> follow_status" where
  "follow_stream_iterable c p rs =
     (if follow_bounded c \<and> start_at c < 0 then ([], initial_follow c p, Threw NegativeBoundedRead)
      else follow_rounds c (initial_follow c p) rs)"

subsection \<open>Every event once, in order\<close>

definition yielded :: "'e follow_signal list \<Rightarrow> 'e list" where
  "yielded sigs = List.map_filter (\<lambda>g. case g of Yielded e \<Rightarrow> Some e | _ \<Rightarrow> None) sigs"

definition delivered_events :: "'e conn_item list \<Rightarrow> 'e list" where
  "delivered_events items = List.map_filter (\<lambda>i. case i of Delivered e \<Rightarrow> Some e | LeaseOver \<Rightarrow> None) items"

lemma yielded_simps [simp]:
  "yielded [] = []" "yielded (Yielded e # sigs) = e # yielded sigs" "yielded (CaughtUp # sigs) = yielded sigs"
  "yielded (Slept n # sigs) = yielded sigs" "yielded (sigs @ sigs') = yielded sigs @ yielded sigs'"
  by (simp_all add: yielded_def List.map_filter_def)

lemma delivered_events_simps [simp]:
  "delivered_events [] = []" "delivered_events (Delivered e # items) = e # delivered_events items"
  "delivered_events (LeaseOver # items) = delivered_events items"
  by (simp_all add: delivered_events_def List.map_filter_def)

text \<open>
  The durable log of a session, and a server whose response from an absolute index carries a part of
  the log without gaps, of whatever length.
\<close>

definition serves :: "'e list \<Rightarrow> 'e round \<Rightarrow> bool" where
  "serves durable r \<longleftrightarrow>
     (\<forall>req conn. respond r req = Connected conn \<longrightarrow> 0 \<le> request_start req
        \<longrightarrow> prefix (delivered_events (conn_items conn)) (drop (nat (request_start req)) durable))"

text \<open>What one part of the run did, seen from its cursor.\<close>

definition advances :: "'e list \<Rightarrow> follow_state \<Rightarrow> 'e follow_signal list \<Rightarrow> follow_state \<Rightarrow> bool" where
  "advances durable s sigs s' \<longleftrightarrow>
     prefix (yielded sigs) (drop (nat (cursor s)) durable) \<and> cursor s' = cursor s + int (length (yielded sigs))"

lemma advances_refl [intro]: "cursor s' = cursor s \<Longrightarrow> yielded sigs = [] \<Longrightarrow> advances durable s sigs s'"
  by (simp add: advances_def)

lemma advances_trans:
  assumes "advances durable s sigs s'" and "advances durable s' sigs' s''" and "0 \<le> cursor s"
  shows "advances durable s (sigs @ sigs') s''"
proof -
  let ?n = "nat (cursor s)" and ?m = "length (yielded sigs)"
  have "nat (cursor s') = ?n + ?m" using assms(1,3) by (simp add: advances_def nat_add_distrib)
  moreover have "drop ?n durable = yielded sigs @ drop (?n + ?m) durable"
    using assms(1) unfolding advances_def prefix_def by (metis add.commute append_eq_conv_conj drop_drop)
  ultimately show ?thesis using assms(1,2) by (simp add: advances_def)
qed

lemma note_caught_up_advances: "note_caught_up c s = (sigs, s') \<Longrightarrow> advances durable s sigs s'"
  by (auto simp: note_caught_up_def split: if_splits)

lemma deliver_items_advances:
  fixes durable :: "'e list"
  shows "deliver_items c p s items = (sigs, s', rest) \<Longrightarrow> 0 \<le> cursor s
   \<Longrightarrow> prefix (delivered_events items) (drop (nat (cursor s)) durable) \<Longrightarrow> advances durable s sigs s'"
proof (induction c p s items arbitrary: sigs s' rest rule: deliver_items.induct)
  case (2 c p s items)
  then show ?case by (auto split: prod.splits)
next
  case (3 c p s e items)
  define s1 where "s1 = s\<lparr>cursor := cursor s + 1, reconnect_delay := base_delay p, idle_reconnects := 0\<rparr>"
  obtain up :: "'e follow_signal list" and s2 where up: "note_caught_up c s1 = (up, s2)" by fastforce
  have durable: "drop (nat (cursor s)) durable = e # drop (nat (cursor s1)) durable"
    "prefix (delivered_events items) (drop (nat (cursor s1)) durable)"
    using 3(3,4) by (auto simp: s1_def prefix_def nat_add_distrib drop_Suc drop_tl tl_drop [symmetric])
  have first: "advances durable s (Yielded e # up) s2"
    using note_caught_up_advances [OF up, of durable] durable(1) by (auto simp: advances_def s1_def)
  have same: "cursor s2 = cursor s1"
    using up by (auto simp: note_caught_up_def split: if_splits)
  show ?case
  proof (cases "follow_bounded c \<and> past_tail s2")
    case True
    with 3(2) up first show ?thesis by (simp add: s1_def Let_def)
  next
    case False
    obtain sigs2 r2 where rec: "deliver_items c p s2 items = (sigs2, s', r2)" "sigs = Yielded e # up @ sigs2"
      using 3(2) up False by (auto simp: s1_def Let_def split: prod.splits)
    have "advances durable s2 sigs2 s'"
      by (rule 3(1) [OF s1_def up [symmetric] refl False rec(1)]) (use 3(3) durable same in \<open>simp_all add: s1_def\<close>)
    with advances_trans [OF first this 3(3)] rec(2) show ?thesis by simp
  qed
qed auto

lemma after_connection_advances:
  "after_connection c p conn delivered lease s = (sigs, s', st) \<Longrightarrow> advances durable s sigs s'"
  by (auto simp: after_connection_def Let_def split: if_splits)

lemma run_connection_advances:
  fixes durable :: "'e list"
  assumes "run_connection c r s conn = (sigs, s', st)" and "0 \<le> cursor s"
    and "prefix (delivered_events (conn_items conn)) (drop (nat (cursor s)) durable)"
  shows "advances durable s sigs s'"
proof -
  define s1 where "s1 = (if reads_tail c s then s\<lparr>tail_index := conn_tail conn\<rparr> else s)"
  obtain up :: "'e follow_signal list" and s2 where up: "note_caught_up c s1 = (up, s2)" by fastforce
  obtain sigs3 s3 delivered lease complete where
    dlv: "deliver_items c (idle_policy (policy_before r)) s2 (conn_items conn) = (sigs3, s3, delivered, lease, complete)"
    using prod_cases5 by blast
  obtain sigs4 :: "'e follow_signal list" and s4 st4 where
    aft: "after_connection c (idle_policy (policy_after r)) conn delivered lease s3 = (sigs4, s4, st4)"
    using prod_cases3 by blast
  have cursors: "cursor s1 = cursor s" "cursor s2 = cursor s"
    using up by (auto simp: s1_def note_caught_up_def split: if_splits)
  have first: "advances durable s up s2"
    using note_caught_up_advances [OF up, of durable] cursors by (simp add: advances_def)
  moreover have "advances durable s2 sigs3 s3"
    by (rule deliver_items_advances [OF dlv]) (simp_all add: cursors assms(2,3))
  ultimately have second: "advances durable s (up @ sigs3) s3" using assms(2) by (rule advances_trans)
  from advances_trans [OF this after_connection_advances [OF aft] assms(2)]
  have third: "advances durable s (up @ sigs3 @ sigs4) s4" by simp
  have "(sigs, s') \<in> {([], s1), (up, s2), (up @ sigs3, s3), (up @ sigs3 @ sigs4, s4)}"
    using assms(1) up dlv aft by (auto simp: run_connection_def s1_def Let_def split: if_splits option.splits)
  with first second third cursors(1) show ?thesis by auto
qed

lemma follow_round_advances:
  assumes "follow_round c s r = (sigs, s', st)" and "0 \<le> cursor s" and "serves durable r"
  shows "advances durable s sigs s'"
proof (cases "respond r (stream_request (cursor s) (reads_tail c s) (policy_before r))")
  case (Connected conn)
  then have "prefix (delivered_events (conn_items conn)) (drop (nat (cursor s)) durable)"
    using assms(2,3) unfolding serves_def by (metis stream_request_def stream_request.select_convs(1))
  with run_connection_advances [OF _ assms(2) this] assms(1) Connected show ?thesis by (simp add: follow_round_def)
qed (use assms(1) in \<open>auto simp: follow_round_def split: bool.splits\<close>)

lemma follow_rounds_advances:
  "follow_rounds c s rs = (sigs, s', st) \<Longrightarrow> 0 \<le> cursor s \<Longrightarrow> \<forall>r \<in> set rs. serves durable r
   \<Longrightarrow> advances durable s sigs s'"
proof (induction rs arbitrary: s sigs s' st)
  case (Cons r rs)
  obtain sigs1 s1 st1 where first: "follow_round c s r = (sigs1, s1, st1)" using prod_cases3 by blast
  have adv: "advances durable s sigs1 s1"
    by (rule follow_round_advances [OF first Cons.prems(2)]) (use Cons.prems(3) in simp)
  show ?case
  proof (cases "st1 = Following")
    case True
    obtain sigs2 where rec: "follow_rounds c s1 rs = (sigs2, s', st)" "sigs = sigs1 @ sigs2"
      using Cons.prems(1) first True by (auto split: prod.splits)
    have "advances durable s1 sigs2 s'"
      by (rule Cons.IH [OF rec(1)]) (use adv Cons.prems in \<open>auto simp: advances_def\<close>)
    with advances_trans [OF adv this Cons.prems(2)] rec(2) show ?thesis by simp
  next
    case False
    with Cons.prems(1) first have "sigs = sigs1 \<and> s' = s1" by (cases st1) auto
    with adv show ?thesis by simp
  qed
qed auto

text \<open>C24: A follower sees every event once and in order: from a nonnegative cursor, whatever connections
  break, however much each of them carries, and whatever the retries and leases, the events it
  yields are the log from its start on, without a gap or a repetition, and its cursor is the
  index after the last one.\<close>

theorem followed_exactly_once:
  assumes "0 \<le> start_at c" and "\<forall>r \<in> set rs. serves durable r"
    and "follow_stream_iterable c p rs = (sigs, s', st)"
  shows "prefix (yielded sigs) (drop (nat (start_at c)) durable)
    \<and> cursor s' = start_at c + int (length (yielded sigs))"
proof -
  have "follow_rounds c (initial_follow c p) rs = (sigs, s', st)"
    using assms(1,3) by (simp add: follow_stream_iterable_def)
  from follow_rounds_advances [OF this _ assms(2)] assms(1) show ?thesis
    by (simp add: advances_def initial_follow_def)
qed

lemmas follow_defs = follow_stream_iterable_def initial_follow_def follow_round_def run_connection_def
  stream_request_def reads_tail_def note_caught_up_def past_tail_def after_connection_def Let_def
  DEFAULT_STREAM_RECONNECT_POLICY_def

definition short_round :: "reconnect_policy \<Rightarrow> 'e list \<Rightarrow> nat \<Rightarrow> 'e round" where
  "short_round p durable n =
     \<lparr>policy_before = p, policy_after = p,
      respond = \<lambda>req. Connected
        \<lparr>conn_tail = Some (int (length durable) - 1),
         conn_items = map Delivered (take n (drop (nat (request_start req)) durable)),
         conn_error = None,
         aborted_at_end = False, aborted_in_delay = False\<rparr>\<rparr>"

lemma short_round_serves:
  fixes durable :: "'a list"
  shows "serves durable (short_round p durable n)"
proof -
  have "delivered_events (map Delivered es) = es" for es :: "'a list" by (induction es) auto
  then show ?thesis by (auto simp: serves_def short_round_def take_is_prefix)
qed

theorem followed_exactly_once_witness:
  "yielded (fst (follow_stream_iterable \<lparr>follow_bounded = False, wants_caught_up = False, start_at = 1\<rparr>
      DEFAULT_STREAM_RECONNECT_POLICY [short_round DEFAULT_STREAM_RECONNECT_POLICY [7, 8, 9 :: nat] 1, short_round DEFAULT_STREAM_RECONNECT_POLICY [7, 8, 9 :: nat] 0, short_round DEFAULT_STREAM_RECONNECT_POLICY [7, 8, 9 :: nat] 1])) = [8, 9]
   \<and> prefix [8, 9] (drop 1 [7, 8, 9 :: nat])"
proof -
  let ?c = "\<lparr>follow_bounded = False, wants_caught_up = False, start_at = 1\<rparr>"
  let ?rs = "[short_round DEFAULT_STREAM_RECONNECT_POLICY [7, 8, 9 :: nat] 1, short_round DEFAULT_STREAM_RECONNECT_POLICY [7, 8, 9 :: nat] 0, short_round DEFAULT_STREAM_RECONNECT_POLICY [7, 8, 9 :: nat] 1]"
  have run: "yielded (fst (follow_stream_iterable ?c DEFAULT_STREAM_RECONNECT_POLICY ?rs)) = [8, 9]"
    by (simp add: follow_defs short_round_def zero_enat_def [symmetric])
  obtain sigs s' st where eq: "follow_stream_iterable ?c DEFAULT_STREAM_RECONNECT_POLICY ?rs = (sigs, s', st)"
    using prod_cases3 by blast
  have "prefix (yielded sigs) (drop (nat (start_at ?c)) [7, 8, 9 :: nat])"
    by (rule conjunct1 [OF followed_exactly_once [OF _ _ eq]]) (simp_all add: short_round_serves)
  with run eq show ?thesis by simp
qed

subsection \<open>Catching up and the bound of a finite read\<close>

text \<open>
  What holds of the signals so far and the state. \<open>caught_ok\<close> leaves open that the crossing of the tail
  has just happened and is not noted yet.
\<close>

definition caught_ok :: "follow_input \<Rightarrow> 'e follow_signal list \<Rightarrow> follow_state \<Rightarrow> bool" where
  "caught_ok c tr s \<longleftrightarrow>
     cursor s = start_at c + int (length (yielded tr))
     \<and> ((follow_bounded c \<or> wants_caught_up c) \<and> tail_index s = None \<longrightarrow> yielded tr = [])
     \<and> (caught_up s \<longrightarrow> past_tail s)
     \<and> (\<not> caught_up s \<or> follow_bounded c
        \<longrightarrow> (\<forall>t. tail_index s = Some t \<longrightarrow> cursor s \<le> max (start_at c) (t + 1)))
     \<and> (if wants_caught_up c \<and> caught_up s
        then \<exists>pre post t. tr = pre @ CaughtUp # post \<and> CaughtUp \<notin> set pre \<and> CaughtUp \<notin> set post
               \<and> tail_index s = Some t \<and> start_at c + int (length (yielded pre)) = max (start_at c) (t + 1)
        else CaughtUp \<notin> set tr)"

definition follow_inv :: "follow_input \<Rightarrow> 'e follow_signal list \<Rightarrow> follow_state \<Rightarrow> bool" where
  "follow_inv c tr s \<longleftrightarrow> caught_ok c tr s \<and> (past_tail s \<longrightarrow> caught_up s)"

lemma note_caught_up_inv:
  assumes "caught_ok c tr s" and "note_caught_up c s = (up, s')"
  shows "follow_inv c (tr @ up) s'"
proof (cases "\<not> caught_up s \<and> past_tail s")
  case True
  then obtain t where t: "tail_index s = Some t" "t < cursor s"
    by (auto simp: past_tail_def split: option.splits)
  have s': "s' = s\<lparr>caught_up := True\<rparr>" "up = (if wants_caught_up c then [CaughtUp] else [])"
    using assms(2) True by (simp_all add: note_caught_up_def)
  have at: "start_at c + int (length (yielded tr)) = max (start_at c) (t + 1)"
    using assms(1) True t by (auto simp: caught_ok_def)
  from assms(1) True have clean: "CaughtUp \<notin> set tr" by (simp add: caught_ok_def)
  from clean at t have "wants_caught_up c \<longrightarrow>
      (\<exists>pre post t. tr @ up = pre @ CaughtUp # post \<and> CaughtUp \<notin> set pre \<and> CaughtUp \<notin> set post
         \<and> tail_index s = Some t \<and> start_at c + int (length (yielded pre)) = max (start_at c) (t + 1))"
    unfolding s'(2) by (intro impI exI [of _ tr] exI [of _ "[]"] exI [of _ t]) simp
  with assms(1) True clean at t show ?thesis
    unfolding follow_inv_def caught_ok_def s' by (auto simp: past_tail_def)
next
  case False
  with assms show ?thesis by (auto simp: note_caught_up_def follow_inv_def)
qed

lemma yield_caught_ok:
  assumes inv: "follow_inv c tr s" and "follow_bounded c \<longrightarrow> \<not> past_tail s"
    and "follow_bounded c \<or> wants_caught_up c \<longrightarrow> tail_index s \<noteq> None"
    and s': "cursor s' = cursor s + 1" "tail_index s' = tail_index s" "caught_up s' = caught_up s"
  shows "caught_ok c (tr @ [Yielded e]) s'"
proof -
  have "wants_caught_up c \<and> caught_up s \<longrightarrow>
      (\<exists>pre post t. tr @ [Yielded e] = pre @ CaughtUp # post \<and> CaughtUp \<notin> set pre \<and> CaughtUp \<notin> set post
         \<and> tail_index s = Some t \<and> start_at c + int (length (yielded pre)) = max (start_at c) (t + 1))"
  proof
    assume "wants_caught_up c \<and> caught_up s"
    with inv obtain pre post t where "tr = pre @ CaughtUp # post" "CaughtUp \<notin> set pre" "CaughtUp \<notin> set post"
      "tail_index s = Some t" "start_at c + int (length (yielded pre)) = max (start_at c) (t + 1)"
      unfolding follow_inv_def caught_ok_def by auto
    then show "\<exists>pre post t. tr @ [Yielded e] = pre @ CaughtUp # post \<and> CaughtUp \<notin> set pre \<and> CaughtUp \<notin> set post
         \<and> tail_index s = Some t \<and> start_at c + int (length (yielded pre)) = max (start_at c) (t + 1)"
      by (intro exI [of _ pre] exI [of _ "post @ [Yielded e]"] exI [of _ t]) simp
  qed
  then show ?thesis
    using assms unfolding follow_inv_def caught_ok_def by (auto simp: past_tail_def split: option.splits)
qed

text \<open>Delays and fields of the retry loop do not matter for the invariant.\<close>

lemma follow_inv_slept:
  assumes "follow_inv c tr s" and "yielded sigs = []" and "CaughtUp \<notin> set sigs"
    and "cursor s' = cursor s" "tail_index s' = tail_index s" "caught_up s' = caught_up s"
  shows "follow_inv c (tr @ sigs) s'"
proof -
  have "wants_caught_up c \<and> caught_up s \<longrightarrow>
      (\<exists>pre post t. tr @ sigs = pre @ CaughtUp # post \<and> CaughtUp \<notin> set pre \<and> CaughtUp \<notin> set post
         \<and> tail_index s = Some t \<and> start_at c + int (length (yielded pre)) = max (start_at c) (t + 1))"
  proof
    assume "wants_caught_up c \<and> caught_up s"
    with assms(1) obtain pre post t where "tr = pre @ CaughtUp # post" "CaughtUp \<notin> set pre" "CaughtUp \<notin> set post"
      "tail_index s = Some t" "start_at c + int (length (yielded pre)) = max (start_at c) (t + 1)"
      unfolding follow_inv_def caught_ok_def by auto
    with assms(3) show "\<exists>pre post t. tr @ sigs = pre @ CaughtUp # post \<and> CaughtUp \<notin> set pre \<and> CaughtUp \<notin> set post
         \<and> tail_index s = Some t \<and> start_at c + int (length (yielded pre)) = max (start_at c) (t + 1)"
      by (intro exI [of _ pre] exI [of _ "post @ sigs"] exI [of _ t]) simp
  qed
  then show ?thesis
    using assms unfolding follow_inv_def caught_ok_def by (auto simp: past_tail_def split: option.splits)
qed

lemma deliver_items_inv:
  fixes tr :: "'e follow_signal list"
  shows "deliver_items c p s items = (sigs, s', rest) \<Longrightarrow> follow_inv c tr s
   \<Longrightarrow> (follow_bounded c \<longrightarrow> \<not> past_tail s)
   \<Longrightarrow> (follow_bounded c \<or> wants_caught_up c \<longrightarrow> tail_index s \<noteq> None)
   \<Longrightarrow> follow_inv c (tr @ sigs) s'"
proof (induction c p s items arbitrary: tr sigs s' rest rule: deliver_items.induct)
  case (2 c p s items)
  then show ?case by (auto split: prod.splits)
next
  case (3 c p s e items)
  define s1 where "s1 = s\<lparr>cursor := cursor s + 1, reconnect_delay := base_delay p, idle_reconnects := 0\<rparr>"
  obtain up :: "'e follow_signal list" and s2 where up: "note_caught_up c s1 = (up, s2)" by fastforce
  have "caught_ok c (tr @ [Yielded e]) s1"
    by (rule yield_caught_ok [OF 3(3-5)]) (simp_all add: s1_def)
  from note_caught_up_inv [OF this up] have inv: "follow_inv c (tr @ Yielded e # up) s2" by simp
  have tail: "tail_index s2 = tail_index s"
    using up by (auto simp: note_caught_up_def s1_def split: if_splits)
  show ?case
  proof (cases "follow_bounded c \<and> past_tail s2")
    case True
    with 3(2) up inv show ?thesis by (simp add: s1_def Let_def)
  next
    case False
    obtain sigs2 r2 where rec: "deliver_items c p s2 items = (sigs2, s', r2)" "sigs = Yielded e # up @ sigs2"
      using 3(2) up False by (auto simp: s1_def Let_def split: prod.splits)
    have "follow_inv c ((tr @ Yielded e # up) @ sigs2) s'"
      by (rule 3(1) [OF s1_def up [symmetric] refl False rec(1) inv]) (use 3(5) False tail in auto)
    with rec(2) show ?thesis by simp
  qed
qed simp

lemma after_connection_inv:
  assumes "after_connection c p conn delivered lease s = (sigs, s', st)" and "follow_inv c tr s"
  shows "follow_inv c (tr @ sigs) s'"
  by (rule follow_inv_slept [OF assms(2)]) (use assms(1) in \<open>auto simp: after_connection_def Let_def split: if_splits\<close>)

lemma read_tail_ok:
  assumes "follow_inv c tr s" and "reads_tail c s" and "conn_tail conn = Some t"
  shows "caught_ok c tr (s\<lparr>tail_index := Some t\<rparr>)"
  using assms by (auto simp: follow_inv_def caught_ok_def reads_tail_def past_tail_def)

lemma run_connection_inv:
  fixes tr :: "'e follow_signal list"
  assumes "run_connection c r s conn = (sigs, s', st)" and inv: "follow_inv c tr s"
  shows "st = Threw MissingTailIndex \<or> follow_inv c (tr @ sigs) s'"
proof -
  define s1 where "s1 = (if reads_tail c s then s\<lparr>tail_index := conn_tail conn\<rparr> else s)"
  show ?thesis
  proof (cases "reads_tail c s \<and> tail_index s1 = None")
    case True
    with assms(1) show ?thesis by (auto simp: run_connection_def s1_def Let_def split: if_splits)
  next
    case False
    obtain up :: "'e follow_signal list" and s2 where up: "note_caught_up c s1 = (up, s2)" by fastforce
    obtain sigs3 s3 delivered lease complete where
      dlv: "deliver_items c (idle_policy (policy_before r)) s2 (conn_items conn) = (sigs3, s3, delivered, lease, complete)"
      using prod_cases5 by blast
    obtain sigs4 :: "'e follow_signal list" and s4 st4 where
      aft: "after_connection c (idle_policy (policy_after r)) conn delivered lease s3 = (sigs4, s4, st4)"
      using prod_cases3 by blast
    have "caught_ok c tr s1"
      using False inv read_tail_ok [OF inv] by (auto simp: s1_def follow_inv_def)
    from note_caught_up_inv [OF this up] have first: "follow_inv c (tr @ up) s2" .
    have known: "follow_bounded c \<or> wants_caught_up c \<longrightarrow> tail_index s2 \<noteq> None"
      using False up by (auto simp: s1_def reads_tail_def note_caught_up_def split: if_splits)
    show ?thesis
    proof (cases "follow_bounded c \<and> past_tail s2")
      case True
      then have "sigs = up \<and> s' = s2"
        using assms(1) up False by (auto simp: run_connection_def s1_def Let_def split: if_splits)
      with first show ?thesis by simp
    next
      case going: False
      have second: "follow_inv c ((tr @ up) @ sigs3) s3"
        by (rule deliver_items_inv [OF dlv first]) (use going known in blast)+
      note third = after_connection_inv [OF aft second]
      have "(sigs, s') \<in> {(up @ sigs3, s3), (up @ sigs3 @ sigs4, s4)}"
        using assms(1) up dlv aft False going
        by (auto simp: run_connection_def s1_def Let_def split: if_splits option.splits)
      with second third show ?thesis by auto
    qed
  qed
qed

lemma follow_rounds_inv:
  "follow_rounds c s rs = (sigs, s', st) \<Longrightarrow> follow_inv c tr s
   \<Longrightarrow> st = Threw MissingTailIndex \<or> follow_inv c (tr @ sigs) s'"
proof (induction rs arbitrary: s tr sigs s' st)
  case (Cons r rs)
  obtain sigs1 s1 st1 where first: "follow_round c s r = (sigs1, s1, st1)" using prod_cases3 by blast
  have inv: "st1 = Threw MissingTailIndex \<or> follow_inv c (tr @ sigs1) s1"
  proof (cases "respond r (stream_request (cursor s) (reads_tail c s) (policy_before r))")
    case (Connected conn)
    with run_connection_inv [OF _ Cons.prems(2), of r conn] first show ?thesis by (simp add: follow_round_def)
  qed (use first Cons.prems(2) in \<open>auto simp: follow_round_def split: bool.splits\<close>)
  show ?case
  proof (cases "st1 = Following")
    case True
    obtain sigs2 where rec: "follow_rounds c s1 rs = (sigs2, s', st)" "sigs = sigs1 @ sigs2"
      using Cons.prems(1) first True by (auto split: prod.splits)
    from inv True have "follow_inv c (tr @ sigs1) s1" by simp
    from Cons.IH [OF rec(1) this] rec(2) show ?thesis by simp
  next
    case False
    with Cons.prems(1) first have "sigs = sigs1 \<and> s' = s1 \<and> st = st1" by (cases st1) auto
    with inv show ?thesis by simp
  qed
qed simp

text \<open>Catching up is announced exactly once, at the moment the cursor passes the tail the server
  reported, and never before; and a bounded read never yields an event after that tail.\<close>

lemma caught_up_exactly_at_tail:
  assumes "follow_stream_iterable c p rs = (sigs, s', st)" and "st \<noteq> Threw MissingTailIndex"
  shows "(if wants_caught_up c \<and> past_tail s'
          then \<exists>pre post t. sigs = pre @ CaughtUp # post \<and> CaughtUp \<notin> set pre \<and> CaughtUp \<notin> set post
                 \<and> tail_index s' = Some t \<and> start_at c + int (length (yielded pre)) = max (start_at c) (t + 1)
          else CaughtUp \<notin> set sigs)
    \<and> (follow_bounded c \<longrightarrow> (\<forall>t. tail_index s' = Some t \<longrightarrow> int (length (yielded sigs)) \<le> max 0 (t + 1 - start_at c)))"
proof -
  have start: "follow_inv c ([] :: 'a follow_signal list) (initial_follow c p)"
    by (simp add: follow_inv_def caught_ok_def initial_follow_def past_tail_def)
  have inv: "follow_inv c sigs s'"
  proof (cases "follow_bounded c \<and> start_at c < 0")
    case True
    with assms(1) start show ?thesis by (auto simp: follow_stream_iterable_def)
  next
    case False
    with assms(1) have "follow_rounds c (initial_follow c p) rs = (sigs, s', st)"
      by (auto simp: follow_stream_iterable_def)
    from follow_rounds_inv [OF this start] assms(2) show ?thesis by simp
  qed
  then have up: "caught_up s' \<longleftrightarrow> past_tail s'" by (auto simp: follow_inv_def caught_ok_def)
  show ?thesis
  proof
    show "if wants_caught_up c \<and> past_tail s'
        then \<exists>pre post t. sigs = pre @ CaughtUp # post \<and> CaughtUp \<notin> set pre \<and> CaughtUp \<notin> set post
               \<and> tail_index s' = Some t \<and> start_at c + int (length (yielded pre)) = max (start_at c) (t + 1)
        else CaughtUp \<notin> set sigs"
      using inv unfolding follow_inv_def caught_ok_def up [symmetric] by (elim conjE) assumption
    show "follow_bounded c \<longrightarrow> (\<forall>t. tail_index s' = Some t \<longrightarrow> int (length (yielded sigs)) \<le> max 0 (t + 1 - start_at c))"
      using inv unfolding follow_inv_def caught_ok_def by auto
  qed
qed

theorem caught_up_exactly_at_tail_witness:
  "\<exists>s' pre post. follow_stream_iterable \<lparr>follow_bounded = False, wants_caught_up = True, start_at = 1\<rparr>
      DEFAULT_STREAM_RECONNECT_POLICY [short_round DEFAULT_STREAM_RECONNECT_POLICY [7, 8, 9 :: nat] 2] = (pre @ CaughtUp # post, s', Following)
    \<and> length (yielded pre) = 2"
proof -
  let ?c = "\<lparr>follow_bounded = False, wants_caught_up = True, start_at = 1\<rparr>"
  obtain sigs s' st where run:
    "follow_stream_iterable ?c DEFAULT_STREAM_RECONNECT_POLICY [short_round DEFAULT_STREAM_RECONNECT_POLICY [7, 8, 9 :: nat] 2] = (sigs, s', st)"
    using prod_cases3 by blast
  then have st: "st = Following" "tail_index s' = Some 2" "past_tail s'"
    by (auto simp: follow_defs short_round_def zero_enat_def [symmetric] eval_nat_numeral)
  from caught_up_exactly_at_tail [OF run] st obtain pre post where
    "sigs = pre @ CaughtUp # post" "1 + int (length (yielded pre)) = max 1 (2 + 1)" by auto
  with run st(1) show ?thesis by (intro exI [of _ s'] exI [of _ pre] exI [of _ post]) simp
qed

text \<open>
  A bounded read can end short: after the idle budget (one attempt here, five by default) it returns
  without an error although the tail was never reached.
\<close>

lemma bounded_read_ends_short:
  fixes p
  defines "p \<equiv> resolve_stream_reconnect_policy
      (Some (Reconnect None (Some \<lparr>override_base = None, override_attempts = Some 1, override_delay = None\<rparr>) None)) False"
  shows "\<exists>s' sigs. follow_stream_iterable \<lparr>follow_bounded = True, wants_caught_up = False, start_at = 0\<rparr>
      p [short_round p [7, 8, 9 :: nat] 0, short_round p [7, 8, 9 :: nat] 0] = (sigs, s', Returned)
    \<and> yielded sigs = ([] :: nat list) \<and> tail_index s' = Some 2 \<and> cursor s' = 0"
  by (simp add: p_def follow_defs short_round_def resolve_stream_reconnect_policy_def resolve_retry_policy_def
      zero_enat_def [symmetric] one_enat_def [unfolded One_nat_def, symmetric])

subsection \<open>A follow without progress ends\<close>

definition idle_round :: "enat \<Rightarrow> 'e round \<Rightarrow> bool" where
  "idle_round m r \<longleftrightarrow>
     max_attempts (idle_policy (policy_after r)) = m
     \<and> (\<forall>req. \<exists>conn. respond r req = Connected conn \<and> conn_items conn = [] \<and> \<not> aborted_at_end conn
          \<and> \<not> aborted_in_delay conn \<and> (\<forall>e. conn_error conn = Some e \<longrightarrow> is_stream_disconnect_error e))"

lemma idle_round_step:
  assumes "idle_round m r" and "\<not> follow_bounded c" "\<not> wants_caught_up c" "0 \<le> start_at c" and "\<not> caught_up s" "tail_index s = None"
  shows "\<exists>sigs s'. follow_round c s r = (sigs, s',
        if m = 0 \<or> \<not> initial_connection s \<and> m \<le> enat (idle_reconnects s + 1) then Returned else Following)
    \<and> (m \<noteq> 0 \<and> \<not> (\<not> initial_connection s \<and> m \<le> enat (idle_reconnects s + 1)) \<longrightarrow>
         idle_reconnects s' = (if initial_connection s then idle_reconnects s else idle_reconnects s + 1)
         \<and> \<not> initial_connection s' \<and> \<not> caught_up s' \<and> tail_index s' = None)"
proof -
  obtain conn where "respond r (stream_request (cursor s) (reads_tail c s) (policy_before r)) = Connected conn"
    "conn_items conn = []" "\<not> aborted_at_end conn" "\<not> aborted_in_delay conn"
    "\<forall>e. conn_error conn = Some e \<longrightarrow> is_stream_disconnect_error e"
    using assms(1) unfolding idle_round_def by blast
  moreover have "max_attempts (idle_policy (policy_after r)) = m" using assms(1) by (simp add: idle_round_def)
  ultimately have "follow_round c s r = after_connection c (idle_policy (policy_after r)) conn False False s"
    "\<not> aborted_at_end conn" "\<not> aborted_in_delay conn" "max_attempts (idle_policy (policy_after r)) = m"
    using assms(2-) by (auto simp: follow_round_def run_connection_def reads_tail_def note_caught_up_def past_tail_def
        split: option.splits prod.splits)
  with assms(4-) show ?thesis
    by (cases "m = 0"; cases "initial_connection s"; cases "m \<le> enat (idle_reconnects s + 1)")
      (simp_all add: after_connection_def Let_def)
qed

lemma idle_rounds:
  assumes "\<not> follow_bounded c" "\<not> wants_caught_up c" "0 \<le> start_at c" and "m \<noteq> 0"
    and "\<forall>r \<in> set rs. idle_round m r" and "\<not> caught_up s" "tail_index s = None" "\<not> initial_connection s"
  shows "snd (snd (follow_rounds c s rs))
    = (if rs = [] \<or> enat (idle_reconnects s + length rs) < m then Following else Returned)"
  using assms(5-)
proof (induction rs arbitrary: s)
  case (Cons r rs)
  have "idle_round m r" using Cons.prems(1) by simp
  from idle_round_step [OF this assms(1-3) Cons.prems(2,3)] assms(4) Cons.prems(4) obtain sigs s' where
    round: "follow_round c s r = (sigs, s', if m \<le> enat (idle_reconnects s + 1) then Returned else Following)"
    and s': "\<not> m \<le> enat (idle_reconnects s + 1) \<longrightarrow> idle_reconnects s' = idle_reconnects s + 1
      \<and> \<not> initial_connection s' \<and> \<not> caught_up s' \<and> tail_index s' = None" by auto
  show ?case
  proof (cases "m \<le> enat (idle_reconnects s + 1)")
    case True
    then have "\<not> enat (idle_reconnects s + length (r # rs)) < m"
      by (cases m) auto
    with round True show ?thesis by simp
  next
    case False
    with s' Cons.IH [of s'] Cons.prems(1) have
      "snd (snd (follow_rounds c s' rs)) = (if rs = [] \<or> enat (idle_reconnects s + 1 + length rs) < m then Following else Returned)"
      by simp
    with round False show ?thesis by (auto simp: not_le split: prod.splits)
  qed
qed simp

text \<open>C25: A follow without progress ends, and not too soon: over connections that bring nothing it is still
  following after exactly as many of them as the idle limit allows (the first one is not counted)
  and has returned after one more; with an infinite limit, the one of a kept-alive stream, it never
  returns.\<close>

theorem idle_follow_ends_exactly:
  assumes "\<not> follow_bounded c" "\<not> wants_caught_up c" "0 \<le> start_at c" and "\<forall>r \<in> set rs. idle_round m r"
  shows "snd (snd (follow_stream_iterable c p rs)) = (if enat (length rs) \<le> m then Following else Returned)"
proof (cases rs)
  case Nil
  then show ?thesis using assms(1) by (simp add: follow_stream_iterable_def zero_enat_def [symmetric])
next
  case (Cons r rest)
  let ?s = "initial_follow c p"
  have "idle_round m r" using assms(4) Cons by simp
  from idle_round_step [OF this assms(1-3), of ?s] obtain sigs s' where
    round: "follow_round c ?s r = (sigs, s', if m = 0 then Returned else Following)"
    and s': "m \<noteq> 0 \<longrightarrow> idle_reconnects s' = 0 \<and> \<not> initial_connection s' \<and> \<not> caught_up s' \<and> tail_index s' = None"
    by (auto simp: initial_follow_def)
  show ?thesis
  proof (cases "m = 0")
    case True
    with round Cons assms(1) show ?thesis by (simp add: follow_stream_iterable_def enat_0_iff)
  next
    case False
    with idle_rounds [OF assms(1-3) False, of rest s'] s' assms(4) Cons have
      "snd (snd (follow_rounds c s' rest)) = (if rest = [] \<or> enat (length rest) < m then Following else Returned)"
      by simp
    moreover have "(rest = [] \<or> enat (length rest) < m) \<longleftrightarrow> enat (length rs) \<le> m"
      using False Cons by (cases m) (auto simp: zero_enat_def)
    ultimately show ?thesis using round False Cons assms(1)
      by (auto simp: follow_stream_iterable_def split: prod.splits)
  qed
qed

definition silent_round :: "nat round" where
  "silent_round =
     \<lparr>policy_before = DEFAULT_STREAM_RECONNECT_POLICY, policy_after = DEFAULT_STREAM_RECONNECT_POLICY,
      respond = \<lambda>_. Connected \<lparr>conn_tail = None, conn_items = [], conn_error = None,
                                aborted_at_end = False, aborted_in_delay = False\<rparr>\<rparr>"

theorem idle_follow_ends_exactly_witness:
  "snd (snd (follow_stream_iterable \<lparr>follow_bounded = False, wants_caught_up = False, start_at = 0\<rparr>
      DEFAULT_STREAM_RECONNECT_POLICY (replicate 5 silent_round))) = Following
   \<and> snd (snd (follow_stream_iterable \<lparr>follow_bounded = False, wants_caught_up = False, start_at = 0\<rparr>
      DEFAULT_STREAM_RECONNECT_POLICY (replicate 6 silent_round))) = Returned"
proof -
  have "idle_round 5 silent_round"
    by (simp add: idle_round_def silent_round_def DEFAULT_STREAM_RECONNECT_POLICY_def)
  then have idle: "\<forall>r \<in> set (replicate n silent_round). idle_round 5 r" for n by simp
  have "enat 5 \<le> 5" "\<not> enat 6 \<le> 5" by (simp_all add: numeral_eq_enat)
  with idle_follow_ends_exactly [OF _ _ _ idle, of "\<lparr>follow_bounded = False, wants_caught_up = False, start_at = 0\<rparr>"
      DEFAULT_STREAM_RECONNECT_POLICY]
  show ?thesis by simp
qed

end
