(* ===== verification/Client_Session.thy ===== *)
theory Client_Session
  imports Client_Stream Message_Reducer "HOL-Library.AList"
begin

text \<open>
  What a client makes of the events of its session (packages/eve/src/client/): the summary of a turn
  (session-utils.ts, output-schema.ts), the event stream of one response with the cursor of the
  session handle (session.ts), deduplication by event id (protocol/event-dedupe.ts), the readers that
  share one transport (session-event-stream.ts), and the body of a message request. An event is seen
  through the fields these parts read; \<open>reduced\<close> is the event as the message reducer reads it.
\<close>

section \<open>Events\<close>

datatype event_kind =
    SessionCompletedKind
  | SessionFailedKind string string
  | SessionWaitingKind
  | TurnStartedKind string
  | TurnFailedKind
  | StepFailedKind
  | MessageReceivedKind bool
  | MessageCompletedKind string "string option"
  | InputRequestedKind "input_request list"
  | AuthorizationRequiredKind string "string option" json
  | AuthorizationCompletedKind string
  | ResultCompletedKind json
  | OtherKind

text \<open>\<open>event_delivery_ids\<close> is \<open>event.meta?.deliveryIds\<close>; \<open>event_in_turn\<close> tells whether the data has a turn id.\<close>

record session_event =
  kind :: event_kind
  event_id :: "string option"
  event_delivery_ids :: "string list option"
  event_in_turn :: bool
  reduced :: reducer_event

definition is_current_turn_boundary_event :: "session_event \<Rightarrow> bool" where
  "is_current_turn_boundary_event e =
     (case kind e of SessionCompletedKind \<Rightarrow> True | SessionFailedKind _ _ \<Rightarrow> True | SessionWaitingKind \<Rightarrow> True | _ \<Rightarrow> False)"

definition is_turn_failure_event :: "session_event \<Rightarrow> bool" where
  "is_turn_failure_event e =
     (case kind e of SessionFailedKind _ _ \<Rightarrow> True | StepFailedKind \<Rightarrow> True | TurnFailedKind \<Rightarrow> True | _ \<Rightarrow> False)"

section \<open>The summary of a turn (session-utils.ts, output-schema.ts)\<close>

datatype turn_status = CompletedTurn | FailedTurn | WaitingTurn

record turn_summary =
  summary_boundary :: "session_event option"
  summary_failure :: "session_event option"
  summary_requests :: "input_request list"
  summary_message :: "string option"
  summary_authorizations :: "(string \<times> json) list"

definition summarize_event :: "turn_summary \<Rightarrow> session_event \<Rightarrow> turn_summary" where
  "summarize_event s e =
     (let s = (if is_current_turn_boundary_event e then s\<lparr>summary_boundary := Some e\<rparr> else s);
          s = (if is_turn_failure_event e then s\<lparr>summary_failure := Some e\<rparr> else s)
      in case kind e of
           MessageCompletedKind finish message \<Rightarrow>
             if finish \<noteq> ''tool-calls'' then s\<lparr>summary_message := message\<rparr> else s
         | InputRequestedKind requests \<Rightarrow> s\<lparr>summary_requests := summary_requests s @ requests\<rparr>
         | AuthorizationRequiredKind name _ data \<Rightarrow>
             s\<lparr>summary_authorizations := AList.update name data (summary_authorizations s)\<rparr>
         | AuthorizationCompletedKind name \<Rightarrow>
             s\<lparr>summary_authorizations := AList.delete name (summary_authorizations s)\<rparr>
         | _ \<Rightarrow> s)"

definition empty_summary :: turn_summary where
  "empty_summary =
     \<lparr>summary_boundary = None, summary_failure = None, summary_requests = [], summary_message = None,
      summary_authorizations = []\<rparr>"

definition summary_status :: "turn_summary \<Rightarrow> turn_status" where
  "summary_status s =
     (case map_option kind (summary_boundary s) of
        Some SessionWaitingKind \<Rightarrow> WaitingTurn
      | Some (SessionFailedKind _ _) \<Rightarrow> FailedTurn
      | _ \<Rightarrow> CompletedTurn)"

definition summarize_turn_events :: "session_event list \<Rightarrow> turn_summary \<times> turn_status" where
  "summarize_turn_events events =
     (let s = foldl summarize_event empty_summary events in (s, summary_status s))"

fun collect_turn_events :: "session_event list \<Rightarrow> session_event list" where
  "collect_turn_events [] = []"
| "collect_turn_events (e # es) = e # (if is_current_turn_boundary_event e then [] else collect_turn_events es)"

definition extract_completed_result :: "session_event list \<Rightarrow> json option" where
  "extract_completed_result events =
     foldl (\<lambda>result e. case kind e of ResultCompletedKind r \<Rightarrow> Some r | _ \<Rightarrow> result) None events"

text \<open>A \<open>Set\<close> of names that is tested and counted only.\<close>

definition update_pending_authorizations :: "string list \<Rightarrow> session_event \<Rightarrow> string list" where
  "update_pending_authorizations pending e =
     (case kind e of
        AuthorizationRequiredKind name (Some _) _ \<Rightarrow> List.insert name pending
      | AuthorizationCompletedKind name \<Rightarrow> removeAll name pending
      | _ \<Rightarrow> pending)"

definition collect_pending_authorizations :: "session_event list \<Rightarrow> string list" where
  "collect_pending_authorizations events = foldl update_pending_authorizations [] events"

definition is_settled_session_tail :: "session_event list \<Rightarrow> bool" where
  "is_settled_session_tail events =
     (events \<noteq> [] \<and> is_current_turn_boundary_event (last events)
      \<and> (kind (last events) \<noteq> SessionWaitingKind \<or> collect_pending_authorizations events = []))"

section \<open>The stream of one response (session.ts)\<close>

datatype source_end = SourceOpen | SourceDone | SourceAborted

datatype response_end = StillOpen | ReachedBoundary | SessionEndedFirst | StreamEndedFirst | StreamFinished

definition is_terminal_event :: "session_event \<Rightarrow> bool" where
  "is_terminal_event e = (case kind e of SessionCompletedKind \<Rightarrow> True | SessionFailedKind _ _ \<Rightarrow> True | _ \<Rightarrow> False)"

definition matches_delivery :: "string \<Rightarrow> session_event \<Rightarrow> bool" where
  "matches_delivery d e = (case event_delivery_ids e of None \<Rightarrow> False | Some ids \<Rightarrow> d \<in> set ids)"

text \<open>What the filter does with an event: throw, skip it or show it.\<close>

datatype delivery_verdict = ThrowEnded | SkipEvent | ShowEvent

definition judge_delivery :: "string option \<Rightarrow> bool \<Rightarrow> session_event \<Rightarrow> delivery_verdict" where
  "judge_delivery delivery started e =
     (case delivery of
        None \<Rightarrow> ShowEvent
      | Some d \<Rightarrow>
          if \<not> matches_delivery d e \<and> is_terminal_event e \<and> (\<not> started \<or> kind e = SessionCompletedKind) then ThrowEnded
          else if \<not> started \<and> \<not> matches_delivery d e then SkipEvent
          else if \<not> is_terminal_event e \<and> event_delivery_ids e \<noteq> None \<and> \<not> matches_delivery d e then SkipEvent
          else ShowEvent)"

text \<open>The events shown, how the stream ended, and how many events it has consumed.\<close>

fun response_stream ::
    "string option \<Rightarrow> bool \<Rightarrow> string list \<Rightarrow> session_event list \<Rightarrow> source_end \<Rightarrow> session_event list \<times> response_end \<times> nat" where
  "response_stream delivery started pending [] ending =
     ([], (case ending of
             SourceOpen \<Rightarrow> StillOpen
           | SourceDone \<Rightarrow> if delivery \<noteq> None then StreamEndedFirst else StreamFinished
           | SourceAborted \<Rightarrow> StreamFinished), 0)"
| "response_stream delivery started pending (e # es) ending =
     (case judge_delivery delivery started e of
        ThrowEnded \<Rightarrow> ([], SessionEndedFirst, 1)
      | SkipEvent \<Rightarrow>
          (let (shown, st, n) = response_stream delivery started pending es ending in (shown, st, Suc n))
      | ShowEvent \<Rightarrow>
          (let pending = update_pending_authorizations pending e
           in if is_current_turn_boundary_event e \<and> (kind e \<noteq> SessionWaitingKind \<or> pending = [])
              then ([e], ReachedBoundary, 1)
              else (let (shown, st, n) = response_stream delivery True pending es ending in (e # shown, st, Suc n))))"

record client_session_state =
  session_id :: string
  stream_index :: int

definition advance_stream_index :: "client_session_state \<Rightarrow> int \<Rightarrow> client_session_state" where
  "advance_stream_index s i = s\<lparr>stream_index := max (stream_index s) i\<rparr>"

definition create_event_stream ::
    "client_session_state \<Rightarrow> int \<Rightarrow> string option \<Rightarrow> session_event list \<Rightarrow> source_end
     \<Rightarrow> session_event list \<times> response_end \<times> client_session_state" where
  "create_event_stream s initial delivery events ending =
     (let (shown, st, n) = response_stream delivery (delivery = None) [] events ending
      in (shown, st, if st = StillOpen then s else advance_stream_index s (initial + int n)))"

text \<open>Following a session from a handle: one advance per event, unless the cursor is relative to the tail.\<close>

definition stream_and_advance ::
    "client_session_state \<Rightarrow> int option \<Rightarrow> session_event list \<Rightarrow> client_session_state" where
  "stream_and_advance s start events =
     (let i = case_option (stream_index s) id start
      in if i < 0 then s
         else foldl (\<lambda>s k. advance_stream_index s (i + int k)) s [1..<Suc (length events)])"

subsection \<open>A response shows its own turn\<close>

definition settles :: "session_event \<Rightarrow> string list \<Rightarrow> bool" where
  "settles e pending \<longleftrightarrow> is_current_turn_boundary_event e \<and> (kind e \<noteq> SessionWaitingKind \<or> pending = [])"

text \<open>
  The events of a response among those read: from the first event of its message on, all but the
  events that belong to other messages only (the failure of the session belongs to everyone).
\<close>

definition own_turn :: "string \<Rightarrow> bool \<Rightarrow> session_event list \<Rightarrow> session_event list" where
  "own_turn d started seen =
     filter (\<lambda>e. event_delivery_ids e = None \<or> matches_delivery d e \<or> is_terminal_event e)
       (if started then seen else dropWhile (\<lambda>e. \<not> matches_delivery d e) seen)"

text \<open>The session ended, and not with the response: nothing of the response had begun, or the session completed.\<close>

definition ends_session :: "string \<Rightarrow> bool \<Rightarrow> session_event \<Rightarrow> bool" where
  "ends_session d started e \<longleftrightarrow>
     \<not> matches_delivery d e \<and> is_terminal_event e \<and> (\<not> started \<or> kind e = SessionCompletedKind)"

definition no_end_read :: "string \<Rightarrow> bool \<Rightarrow> session_event list \<Rightarrow> bool" where
  "no_end_read d started seen \<longleftrightarrow>
     (\<not> started \<longrightarrow> (\<forall>e \<in> set (takeWhile (\<lambda>e. \<not> matches_delivery d e) seen). \<not> is_terminal_event e))
     \<and> (\<forall>e \<in> set (own_turn d started seen). matches_delivery d e \<or> kind e \<noteq> SessionCompletedKind)"

lemma own_turn_Cons:
  "judge_delivery (Some d) started e = SkipEvent \<Longrightarrow> own_turn d started (e # seen) = own_turn d started seen"
  "judge_delivery (Some d) started e = ShowEvent \<Longrightarrow> own_turn d started (e # seen) = e # own_turn d True seen"
  "judge_delivery (Some d) started e = ThrowEnded \<longleftrightarrow> ends_session d started e"
  by (auto simp: own_turn_def judge_delivery_def ends_session_def matches_delivery_def split: if_splits option.splits)

lemma no_end_read_Cons:
  "judge_delivery (Some d) started e = SkipEvent \<Longrightarrow> no_end_read d started (e # seen) = no_end_read d started seen"
  "judge_delivery (Some d) started e = ShowEvent \<Longrightarrow> no_end_read d started (e # seen) = no_end_read d True seen"
  by (auto simp: no_end_read_def own_turn_Cons own_turn_def judge_delivery_def is_terminal_event_def
      split: if_splits event_kind.splits)

lemma response_stream_reads:
  assumes "response_stream (Some d) started pending es ending = (shown, st, n)"
  shows "\<exists>seen rest. es = seen @ rest \<and> shown = own_turn d started seen \<and> no_end_read d started seen
    \<and> n = length seen + (if st = SessionEndedFirst then 1 else 0)
    \<and> (case st of
         ReachedBoundary \<Rightarrow> shown \<noteq> [] \<and> seen \<noteq> [] \<and> last seen = last shown
           \<and> settles (last shown) (foldl update_pending_authorizations pending shown)
       | SessionEndedFirst \<Rightarrow> (\<exists>e rest'. rest = e # rest' \<and> ends_session d (started \<or> shown \<noteq> []) e)
       | StreamEndedFirst \<Rightarrow> rest = [] \<and> ending = SourceDone
       | StreamFinished \<Rightarrow> rest = [] \<and> ending = SourceAborted
       | StillOpen \<Rightarrow> rest = [] \<and> ending = SourceOpen)
    \<and> (\<forall>k < length shown. settles (shown ! k) (foldl update_pending_authorizations pending (take (Suc k) shown))
        \<longrightarrow> st = ReachedBoundary \<and> Suc k = length shown)"
  using assms
proof (induction es arbitrary: started pending shown st n)
  case Nil
  then show ?case by (auto simp: own_turn_def no_end_read_def split: source_end.splits)
next
  case (Cons e es)
  show ?case
  proof (cases "judge_delivery (Some d) started e")
    case ThrowEnded
    then have "shown = []" "st = SessionEndedFirst" "n = 1"
      using Cons.prems by auto
    moreover have "ends_session d started e"
      using ThrowEnded own_turn_Cons(3) by blast
    ultimately show ?thesis
      by (intro exI [of _ "[]"] exI [of _ "e # es"]) (auto simp: own_turn_def no_end_read_def)
  next
    case SkipEvent
    with Cons.prems obtain k where k: "response_stream (Some d) started pending es ending = (shown, st, k)" "n = Suc k"
      by (auto split: prod.splits)
    obtain seen rest where "es = seen @ rest" "shown = own_turn d started seen" "no_end_read d started seen"
      "k = length seen + (if st = SessionEndedFirst then 1 else 0)" and ends: "case st of
         ReachedBoundary \<Rightarrow> shown \<noteq> [] \<and> seen \<noteq> [] \<and> last seen = last shown
           \<and> settles (last shown) (foldl update_pending_authorizations pending shown)
       | SessionEndedFirst \<Rightarrow> (\<exists>e rest'. rest = e # rest' \<and> ends_session d (started \<or> shown \<noteq> []) e)
       | StreamEndedFirst \<Rightarrow> rest = [] \<and> ending = SourceDone
       | StreamFinished \<Rightarrow> rest = [] \<and> ending = SourceAborted
       | StillOpen \<Rightarrow> rest = [] \<and> ending = SourceOpen" and
      "\<forall>k < length shown. settles (shown ! k) (foldl update_pending_authorizations pending (take (Suc k) shown))
        \<longrightarrow> st = ReachedBoundary \<and> Suc k = length shown"
      using Cons.IH [OF k(1)] by blast
    then show ?thesis
      using k(2) own_turn_Cons(1) [OF SkipEvent] no_end_read_Cons(1) [OF SkipEvent]
      by (intro exI [of _ "e # seen"] exI [of _ rest]) (auto split: response_end.splits)
  next
    case ShowEvent
    let ?pending = "update_pending_authorizations pending e"
    show ?thesis
    proof (cases "settles e ?pending")
      case True
      then have "shown = [e]" "st = ReachedBoundary" "n = 1"
        using Cons.prems ShowEvent by (auto simp: settles_def Let_def)
      then show ?thesis
        using True own_turn_Cons(2) [OF ShowEvent, of "[]"] no_end_read_Cons(2) [OF ShowEvent, of "[]"]
        by (intro exI [of _ "[e]"] exI [of _ es]) (simp add: own_turn_def no_end_read_def)
    next
      case False
      with Cons.prems ShowEvent obtain rest' k where
        rec: "response_stream (Some d) True ?pending es ending = (rest', st, k)" "shown = e # rest'" "n = Suc k"
        by (auto simp: settles_def Let_def split: prod.splits)
      obtain seen rest where r: "es = seen @ rest" "rest' = own_turn d True seen" "no_end_read d True seen"
        "k = length seen + (if st = SessionEndedFirst then 1 else 0)" and ends: "case st of
           ReachedBoundary \<Rightarrow> rest' \<noteq> [] \<and> seen \<noteq> [] \<and> last seen = last rest'
             \<and> settles (last rest') (foldl update_pending_authorizations ?pending rest')
         | SessionEndedFirst \<Rightarrow> (\<exists>e rest''. rest = e # rest'' \<and> ends_session d (True \<or> rest' \<noteq> []) e)
         | StreamEndedFirst \<Rightarrow> rest = [] \<and> ending = SourceDone
         | StreamFinished \<Rightarrow> rest = [] \<and> ending = SourceAborted
         | StillOpen \<Rightarrow> rest = [] \<and> ending = SourceOpen" and
        last: "\<forall>k < length rest'. settles (rest' ! k) (foldl update_pending_authorizations ?pending (take (Suc k) rest'))
          \<longrightarrow> st = ReachedBoundary \<and> Suc k = length rest'"
        using Cons.IH [OF rec(1)] by blast
      have "\<forall>j < length shown. settles (shown ! j) (foldl update_pending_authorizations pending (take (Suc j) shown))
          \<longrightarrow> st = ReachedBoundary \<and> Suc j = length shown"
      proof (intro allI impI)
        fix j assume "j < length shown" "settles (shown ! j) (foldl update_pending_authorizations pending (take (Suc j) shown))"
        with False last show "st = ReachedBoundary \<and> Suc j = length shown" by (cases j) (auto simp: rec(2))
      qed
      then show ?thesis
        using rec r ends own_turn_Cons(2) [OF ShowEvent] no_end_read_Cons(2) [OF ShowEvent]
        by (intro exI [of _ "e # seen"] exI [of _ rest]) (auto split: response_end.splits)
    qed
  qed
qed

text \<open>C26: The response to an accepted message shows its own turn, all of it and nothing of another: of
  the events read, it shows exactly those from the first event of that message on, but for events that
  belong to other messages only. It reads to the first shown boundary that no pending authorization
  holds open, to the end of the session before or without its own, which is an error, or to the end of
  the stream, which is one unless the caller aborted. The cursor of the session never moves back and
  lands behind what was read.\<close>

theorem response_shows_its_turn:
  assumes "create_event_stream s i (Some d) es ending = (shown, st, s')"
  shows "\<exists>seen rest. es = seen @ rest
    \<and> shown = filter (\<lambda>e. event_delivery_ids e = None \<or> matches_delivery d e \<or> is_terminal_event e)
                (dropWhile (\<lambda>e. \<not> matches_delivery d e) seen)
    \<and> (\<forall>e \<in> set (takeWhile (\<lambda>e. \<not> matches_delivery d e) seen). \<not> is_terminal_event e)
    \<and> (\<forall>e \<in> set shown. matches_delivery d e \<or> kind e \<noteq> SessionCompletedKind)
    \<and> (case st of
         ReachedBoundary \<Rightarrow> shown \<noteq> [] \<and> seen \<noteq> [] \<and> last seen = last shown
           \<and> settles (last shown) (collect_pending_authorizations shown)
       | SessionEndedFirst \<Rightarrow> (\<exists>e rest'. rest = e # rest' \<and> \<not> matches_delivery d e \<and> is_terminal_event e
           \<and> (shown = [] \<or> kind e = SessionCompletedKind))
       | StreamEndedFirst \<Rightarrow> rest = [] \<and> ending = SourceDone
       | StreamFinished \<Rightarrow> rest = [] \<and> ending = SourceAborted
       | StillOpen \<Rightarrow> rest = [] \<and> ending = SourceOpen)
    \<and> (\<forall>k < length shown. settles (shown ! k) (collect_pending_authorizations (take (Suc k) shown))
        \<longrightarrow> st = ReachedBoundary \<and> Suc k = length shown)
    \<and> stream_index s' = (if st = StillOpen then stream_index s
         else max (stream_index s) (i + int (length seen) + (if st = SessionEndedFirst then 1 else 0)))"
proof -
  obtain n where run: "response_stream (Some d) False [] es ending = (shown, st, n)"
    and s': "s' = (if st = StillOpen then s else advance_stream_index s (i + int n))"
    using assms by (auto simp: create_event_stream_def Let_def split: prod.splits)
  obtain seen rest where r: "es = seen @ rest" "shown = own_turn d False seen" "no_end_read d False seen"
      "n = length seen + (if st = SessionEndedFirst then 1 else 0)"
    and ends: "case st of
         ReachedBoundary \<Rightarrow> shown \<noteq> [] \<and> seen \<noteq> [] \<and> last seen = last shown
           \<and> settles (last shown) (collect_pending_authorizations shown)
       | SessionEndedFirst \<Rightarrow> (\<exists>e rest'. rest = e # rest' \<and> ends_session d (False \<or> shown \<noteq> []) e)
       | StreamEndedFirst \<Rightarrow> rest = [] \<and> ending = SourceDone
       | StreamFinished \<Rightarrow> rest = [] \<and> ending = SourceAborted
       | StillOpen \<Rightarrow> rest = [] \<and> ending = SourceOpen"
    and first: "\<forall>k < length shown. settles (shown ! k) (collect_pending_authorizations (take (Suc k) shown))
        \<longrightarrow> st = ReachedBoundary \<and> Suc k = length shown"
    using response_stream_reads [OF run] unfolding collect_pending_authorizations_def by blast
  show ?thesis
  proof (intro exI conjI)
    show "es = seen @ rest" by (rule r(1))
    show "shown = filter (\<lambda>e. event_delivery_ids e = None \<or> matches_delivery d e \<or> is_terminal_event e)
        (dropWhile (\<lambda>e. \<not> matches_delivery d e) seen)"
      using r(2) by (simp add: own_turn_def)
    show "\<forall>e \<in> set (takeWhile (\<lambda>e. \<not> matches_delivery d e) seen). \<not> is_terminal_event e"
      "\<forall>e \<in> set shown. matches_delivery d e \<or> kind e \<noteq> SessionCompletedKind"
      using r(2,3) by (simp_all add: no_end_read_def)
    show "case st of
         ReachedBoundary \<Rightarrow> shown \<noteq> [] \<and> seen \<noteq> [] \<and> last seen = last shown
           \<and> settles (last shown) (collect_pending_authorizations shown)
       | SessionEndedFirst \<Rightarrow> (\<exists>e rest'. rest = e # rest' \<and> \<not> matches_delivery d e \<and> is_terminal_event e
           \<and> (shown = [] \<or> kind e = SessionCompletedKind))
       | StreamEndedFirst \<Rightarrow> rest = [] \<and> ending = SourceDone
       | StreamFinished \<Rightarrow> rest = [] \<and> ending = SourceAborted
       | StillOpen \<Rightarrow> rest = [] \<and> ending = SourceOpen"
      using ends by (cases st) (auto simp: ends_session_def)
    show "stream_index s' = (if st = StillOpen then stream_index s
         else max (stream_index s) (i + int (length seen) + (if st = SessionEndedFirst then 1 else 0)))"
      using s' r(4) by (simp add: advance_stream_index_def add.assoc)
  qed (rule first)
qed

definition plain_event :: "event_kind \<Rightarrow> string list option \<Rightarrow> session_event" where
  "plain_event k ids = \<lparr>kind = k, event_id = None, event_delivery_ids = ids, event_in_turn = False, reduced = OtherEvent\<rparr>"

definition mixed_events :: "session_event list" where
  "mixed_events =
     [plain_event OtherKind (Some [''d0'']), plain_event (MessageReceivedKind False) (Some [''d1'']),
      plain_event (MessageReceivedKind False) (Some [''d2'']), plain_event OtherKind None,
      plain_event (AuthorizationRequiredKind ''gh'' (Some ''hook'') JNull) (Some [''d1'']),
      plain_event SessionWaitingKind (Some [''d1'']), plain_event (AuthorizationCompletedKind ''gh'') (Some [''d1'']),
      plain_event SessionWaitingKind (Some [''d1'']), plain_event OtherKind None]"

theorem response_shows_its_turn_witness:
  "\<exists>shown s' seen rest. create_event_stream \<lparr>session_id = ''s'', stream_index = 4\<rparr> 4 (Some ''d1'') mixed_events SourceOpen
      = (shown, ReachedBoundary, s')
    \<and> length shown = 6 \<and> mixed_events = seen @ rest
    \<and> shown = filter (\<lambda>e. event_delivery_ids e = None \<or> matches_delivery ''d1'' e \<or> is_terminal_event e)
         (dropWhile (\<lambda>e. \<not> matches_delivery ''d1'' e) seen)
    \<and> stream_index s' = 12"
proof -
  let ?s = "\<lparr>session_id = ''s'', stream_index = 4\<rparr>"
  obtain shown st s' where run: "create_event_stream ?s 4 (Some ''d1'') mixed_events SourceOpen = (shown, st, s')"
    using prod_cases3 by blast
  have "(let (shown, st, s') = create_event_stream ?s 4 (Some ''d1'') mixed_events SourceOpen
      in length shown = 6 \<and> st = ReachedBoundary \<and> stream_index s' = 12)" by code_simp
  with response_shows_its_turn [OF run] run show ?thesis by auto
qed

section \<open>Deduplication (event-dedupe.ts)\<close>

text \<open>The set of ids is tested, extended and counted.\<close>

definition admit_event :: "string list \<Rightarrow> session_event \<Rightarrow> bool \<times> string list" where
  "admit_event seen e =
     (case event_id e of
        None \<Rightarrow> (True, seen)
      | Some i \<Rightarrow> if i \<in> set seen then (False, seen) else (True, seen @ [i]))"

fun admit_all :: "string list \<Rightarrow> session_event list \<Rightarrow> session_event list \<times> string list" where
  "admit_all seen [] = ([], seen)"
| "admit_all seen (e # es) =
     (let (admitted, seen) = admit_event seen e; (rest, seen) = admit_all seen es
      in (if admitted then e # rest else rest, seen))"

lemma admit_all_append:
  "admit_all seen (xs @ ys)
   = (let (a, seen) = admit_all seen xs; (b, seen) = admit_all seen ys in (a @ b, seen))"
  by (induction xs arbitrary: seen) (auto simp: Let_def split: prod.splits)

definition event_ids :: "session_event list \<Rightarrow> string list" where
  "event_ids es = List.map_filter event_id es"

lemma event_ids_simps [simp]:
  "event_ids [] = []"
  "event_ids (e # es) = (case event_id e of None \<Rightarrow> event_ids es | Some i \<Rightarrow> i # event_ids es)"
  "event_ids (es @ es') = event_ids es @ event_ids es'"
  by (simp_all add: event_ids_def List.map_filter_def split: option.splits)

lemma admit_all_ids:
  "admit_all seen es = (admitted, seen')
   \<Longrightarrow> seen' = seen @ event_ids admitted \<and> (distinct seen \<longrightarrow> distinct seen') \<and> set (event_ids es) \<subseteq> set seen'
     \<and> subseq admitted es"
proof (induction es arbitrary: seen admitted)
  case (Cons e es)
  obtain ok seen1 where e: "admit_event seen e = (ok, seen1)" by fastforce
  obtain rest where rest: "admit_all seen1 es = (rest, seen')" "admitted = (if ok then e # rest else rest)"
    using Cons.prems e by (auto split: prod.splits)
  from Cons.IH [OF rest(1)] e rest(2) show ?case
    by (auto simp: admit_event_def split: option.splits if_splits)
qed simp

text \<open>A replayed prefix, and any part of it, is dropped as a whole when every event has an id.\<close>

lemma admit_replay:
  assumes "\<forall>e \<in> set replay. event_id e \<noteq> None \<and> the (event_id e) \<in> set seen"
  shows "admit_all seen replay = ([], seen)"
  using assms by (induction replay) (auto simp: admit_event_def split: option.splits)

text \<open>New events with distinct ids are all admitted.\<close>

lemma admit_fresh:
  "\<forall>e \<in> set es. event_id e \<noteq> None \<Longrightarrow> distinct (event_ids es) \<Longrightarrow> set (event_ids es) \<inter> set seen = {}
   \<Longrightarrow> admit_all seen es = (es, seen @ event_ids es)"
proof (induction es arbitrary: seen)
  case (Cons e es)
  then show ?case by (auto simp: admit_event_def)
qed simp

end
