(* ===== verification/Client_Store.thy ===== *)
theory Client_Store
  imports Client_Session "HOL-Library.Multiset"
begin

text \<open>
  The event side of the frontend store (packages/eve/src/client/): the projection that replays a
  reducer (eve-agent-projection.ts), the optimistic messages and their reconciliation with the
  server's events (optimistic-message-submissions.ts), and the acceptance of a server event with
  the status it leads to (\<open>#acceptServerEvent\<close> and its helpers in eve-agent-store.ts). Callbacks,
  snapshots and the requests of a send are not modelled: a submission, the answer with its delivery
  id, a failure and a server event are the steps of the store, in any order.
\<close>

section \<open>Projection (eve-agent-projection.ts)\<close>

record ('d, 'p) projection =
  projected :: "'p list"
  projected_data :: 'd

definition replay :: "'d \<Rightarrow> ('d \<Rightarrow> 'p \<Rightarrow> 'd) \<Rightarrow> 'p list \<Rightarrow> 'd" where
  "replay initial reduce events = foldl reduce initial events"

definition new_projection :: "'d \<Rightarrow> ('d \<Rightarrow> 'p \<Rightarrow> 'd) \<Rightarrow> 'p list \<Rightarrow> ('d, 'p) projection" where
  "new_projection initial reduce events = \<lparr>projected = events, projected_data = replay initial reduce events\<rparr>"

definition reset_projection :: "'d \<Rightarrow> ('d, 'p) projection" where
  "reset_projection initial = \<lparr>projected = [], projected_data = initial\<rparr>"

definition append_projection :: "('d \<Rightarrow> 'p \<Rightarrow> 'd) \<Rightarrow> ('d, 'p) projection \<Rightarrow> 'p \<Rightarrow> ('d, 'p) projection" where
  "append_projection reduce p event =
     \<lparr>projected = projected p @ [event], projected_data = reduce (projected_data p) event\<rparr>"

definition remove_projection ::
    "'d \<Rightarrow> ('d \<Rightarrow> 'p \<Rightarrow> 'd) \<Rightarrow> ('d, 'p) projection \<Rightarrow> ('p \<Rightarrow> bool) \<Rightarrow> ('d, 'p) projection" where
  "remove_projection initial reduce p P =
     (let events = filter (\<lambda>e. \<not> P e) (projected p)
      in \<lparr>projected = events, projected_data = replay initial reduce events\<rparr>)"

definition replace_projection ::
    "'d \<Rightarrow> ('d \<Rightarrow> 'p \<Rightarrow> 'd) \<Rightarrow> ('d, 'p) projection \<Rightarrow> ('p \<Rightarrow> bool) \<Rightarrow> 'p \<Rightarrow> ('d, 'p) projection" where
  "replace_projection initial reduce p P event =
     (let events = (case find_index P (projected p) of
                      None \<Rightarrow> projected p @ [event]
                    | Some i \<Rightarrow> (projected p)[i := event])
      in \<lparr>projected = events, projected_data = replay initial reduce events\<rparr>)"

section \<open>Optimistic messages (optimistic-message-submissions.ts)\<close>

record submission =
  created_at :: int
  event_start_index :: nat
  submission_id :: string
  submitted_message :: string
  requires_delivery_id :: bool
  delivery_id :: "string option"

datatype projected_event =
    Submitted (submitted_id: string) int string
  | SubmitFailed string int string string
  | InputAnswered int "input_response list"
  | ServerEvent session_event

text \<open>What the reducer sees of a projected event.\<close>

fun as_reducer_event :: "projected_event \<Rightarrow> reducer_event" where
  "as_reducer_event (Submitted i _ m) = ClientMessageSubmitted i m"
| "as_reducer_event (SubmitFailed i _ m _) = ClientMessageFailed i m"
| "as_reducer_event (InputAnswered _ rs) = ClientInputResponded rs"
| "as_reducer_event (ServerEvent e) = reduced e"

type_synonym message_projection = "(message_data, projected_event) projection"

definition reduce_projected :: "message_data \<Rightarrow> projected_event \<Rightarrow> message_data" where
  "reduce_projected data e = reduce_message_data data (as_reducer_event e)"

record submissions =
  projection :: message_projection
  pending_messages :: "submission list"
  optimistic :: bool

record reconciled =
  already_projected :: bool
  reconciled_event :: session_event
  reconciled_ids :: "string list"

definition add_event :: "submissions \<Rightarrow> projected_event \<Rightarrow> submissions" where
  "add_event s e = s\<lparr>projection := append_projection reduce_projected (projection s) e\<rparr>"

definition reset_submissions :: "submissions \<Rightarrow> submissions" where
  "reset_submissions s = s\<lparr>pending_messages := []\<rparr>"

text \<open>\<open>message\<close> is the summary of the content; the id is drawn by the platform's generator, the time by its clock.\<close>

definition submit_message :: "submissions \<Rightarrow> string option \<Rightarrow> nat \<Rightarrow> string \<Rightarrow> int \<Rightarrow> submissions \<times> string option" where
  "submit_message s message start i now =
     (case message of
        None \<Rightarrow> (s, None)
      | Some m \<Rightarrow>
          (let p = \<lparr>created_at = now, event_start_index = start, submission_id = i, submitted_message = m,
                    requires_delivery_id = True, delivery_id = None\<rparr>;
               s = s\<lparr>pending_messages := pending_messages s @ [p]\<rparr>
           in (if optimistic s then add_event s (Submitted i now m) else s, Some i)))"

definition matching_submissions :: "submissions \<Rightarrow> session_event \<Rightarrow> submission list" where
  "matching_submissions s e =
     filter (\<lambda>p. case delivery_id p of
                   None \<Rightarrow> \<not> requires_delivery_id p
                 | Some d \<Rightarrow> matches_delivery d e) (pending_messages s)"

definition is_submitted :: "string list \<Rightarrow> projected_event \<Rightarrow> bool" where
  "is_submitted ids e = (case e of Submitted i _ _ \<Rightarrow> i \<in> set ids | _ \<Rightarrow> False)"

definition reconcile :: "submissions \<Rightarrow> submission list \<Rightarrow> session_event \<Rightarrow> bool \<Rightarrow> submissions \<times> reconciled" where
  "reconcile s matching e already =
     (let ids = map submission_id matching;
          s = s\<lparr>pending_messages := filter (\<lambda>p. submission_id p \<notin> set ids) (pending_messages s)\<rparr>;
          p = (if already then projection s
               else replace_projection [] reduce_projected (projection s) (is_submitted (take 1 ids)) (ServerEvent e))
      in (s\<lparr>projection := remove_projection [] reduce_projected p (is_submitted ids)\<rparr>,
          \<lparr>already_projected = already, reconciled_event = e, reconciled_ids = ids\<rparr>))"

definition awaits_submission :: "session_event \<Rightarrow> bool" where
  "awaits_submission e = (kind e = MessageReceivedKind False)"

definition apply_server_event :: "submissions \<Rightarrow> session_event \<Rightarrow> submissions \<times> reconciled option" where
  "apply_server_event s e =
     (if \<not> awaits_submission e then (add_event s (ServerEvent e), None)
      else if matching_submissions s e = [] then (add_event s (ServerEvent e), None)
      else (let (s, r) = reconcile s (matching_submissions s e) e False in (s, Some r)))"

text \<open>
  The answer to a request names the delivery; an event of it may have arrived before. \<open>events\<close> are the
  events of the store.
\<close>

definition accept_delivery :: "submissions \<Rightarrow> string \<Rightarrow> string option \<Rightarrow> submissions" where
  "accept_delivery s i delivery =
     s\<lparr>pending_messages := map (\<lambda>p. if submission_id p = i
          then p\<lparr>delivery_id := delivery, requires_delivery_id := delivery \<noteq> None\<rparr> else p)
        (pending_messages s)\<rparr>"

definition correlate ::
    "submissions \<Rightarrow> string option \<Rightarrow> string option \<Rightarrow> session_event list \<Rightarrow> submissions \<times> reconciled option" where
  "correlate s i delivery events =
     (case i of
        None \<Rightarrow> (s, None)
      | Some i \<Rightarrow>
          (let s = accept_delivery s i delivery
           in case List.find (\<lambda>p. submission_id p = i) (pending_messages s) of
                None \<Rightarrow> (s, None)
              | Some p \<Rightarrow>
                  (case List.find (\<lambda>e. awaits_submission e
                            \<and> list_ex (\<lambda>q. submission_id q = i) (matching_submissions s e))
                          (drop (event_start_index p) events) of
                     None \<Rightarrow> (s, None)
                   | Some e \<Rightarrow> (let (s, r) = reconcile s (matching_submissions s e) e True in (s, Some r)))))"

text \<open>Without an id the oldest pending message fails.\<close>

definition failing_message :: "submissions \<Rightarrow> string option \<Rightarrow> submission option" where
  "failing_message s i =
     (case i of
        None \<Rightarrow> (case pending_messages s of [] \<Rightarrow> None | p # _ \<Rightarrow> Some p)
      | Some i \<Rightarrow> List.find (\<lambda>p. submission_id p = i) (pending_messages s))"

definition fail_message :: "submissions \<Rightarrow> string \<Rightarrow> string option \<Rightarrow> submissions" where
  "fail_message s err i =
     (case failing_message s i of
        None \<Rightarrow> s
      | Some p \<Rightarrow>
          s\<lparr>pending_messages := filter (\<lambda>q. submission_id q \<noteq> submission_id p) (pending_messages s),
            projection := replace_projection [] reduce_projected (projection s) (is_submitted [submission_id p])
              (SubmitFailed (submission_id p) (created_at p) (submitted_message p) err)\<rparr>)"

definition fail_all_messages :: "submissions \<Rightarrow> string \<Rightarrow> submissions" where
  "fail_all_messages s err = foldl (\<lambda>s p. fail_message s err (Some (submission_id p))) s (pending_messages s)"

section \<open>Acceptance of server events (eve-agent-store.ts)\<close>

datatype store_status = StoreError | StoreReady | StoreResuming | StoreStreaming | StoreSubmitted

text \<open>The follow-ups of an active turn; an event stands for itself by its position in the store.\<close>

record follow_ups =
  follow_up_submissions :: "string list"
  received_follow_ups :: nat
  received_events :: "(nat \<times> nat) list"

record agent_store =
  seen_ids :: "string list"
  open_authorizations :: "string list"
  store_events :: "session_event list"
  messages :: submissions
  store_status :: store_status
  store_error :: "(string \<times> string) option"
  active_turn :: "follow_ups option"

text \<open>\<open>initial_events\<close> is the saved log the store starts from.\<close>

definition new_store :: "bool \<Rightarrow> session_event list \<Rightarrow> agent_store" where
  "new_store is_optimistic initial_events =
     (let (events, seen) = admit_all [] initial_events
      in \<lparr>seen_ids = seen, open_authorizations = collect_pending_authorizations initial_events,
          store_events = events,
          messages = \<lparr>projection = new_projection [] reduce_projected (map ServerEvent events),
                      pending_messages = [], optimistic = is_optimistic\<rparr>,
          store_status = StoreReady, store_error = None, active_turn = None\<rparr>)"

definition count_followed :: "string list \<Rightarrow> string list \<Rightarrow> nat \<times> string list" where
  "count_followed ids open_ids =
     foldl (\<lambda>(n, rest) i. if i \<in> set rest then (n + 1, removeAll i rest) else (n, rest)) (0, open_ids) ids"

definition handle_reconciliation :: "agent_store \<Rightarrow> nat \<Rightarrow> reconciled option \<Rightarrow> agent_store" where
  "handle_reconciliation s position r =
     (case (r, active_turn s) of
        (Some r, Some turn) \<Rightarrow>
          (let (followed, rest) = count_followed (reconciled_ids r) (follow_up_submissions turn);
               turn = turn\<lparr>follow_up_submissions := rest\<rparr>;
               turn = (if followed = 0 then turn
                       else if already_projected r
                       then turn\<lparr>received_follow_ups := received_follow_ups turn + followed\<rparr>
                       else turn\<lparr>received_events := AList.update position
                              (case_option 0 id (map_of (received_events turn) position) + followed) (received_events turn)\<rparr>)
           in s\<lparr>active_turn := Some turn\<rparr>)
      | _ \<Rightarrow> s)"

definition apply_terminal_stream_failure :: "agent_store \<Rightarrow> session_event \<Rightarrow> agent_store" where
  "apply_terminal_stream_failure s e =
     (case kind e of
        SessionFailedKind code message \<Rightarrow>
          (let s = s\<lparr>store_status := StoreError, messages := fail_all_messages (messages s) message\<rparr>
           in if store_error s = None then s\<lparr>store_error := Some (code, message)\<rparr> else s)
      | _ \<Rightarrow> s)"

definition accept_server_event :: "agent_store \<Rightarrow> session_event \<Rightarrow> agent_store" where
  "accept_server_event s e =
     (let (admitted, seen) = admit_event (seen_ids s) e
      in if \<not> admitted then s
         else
           (let position = length (store_events s);
                s = s\<lparr>seen_ids := seen, open_authorizations := update_pending_authorizations (open_authorizations s) e,
                      store_events := store_events s @ [e]\<rparr>;
                (subs, r) = apply_server_event (messages s) e;
                s = handle_reconciliation (s\<lparr>messages := subs\<rparr>) position r;
                s = apply_terminal_stream_failure s e;
                settled = (is_current_turn_boundary_event e \<and> open_authorizations s = [])
            in if store_status s \<noteq> StoreResuming \<and> store_error s = None
               then (let s = (if event_in_turn e then s\<lparr>store_status := StoreStreaming\<rparr> else s)
                     in if active_turn s = None \<and> settled then s\<lparr>store_status := StoreReady\<rparr> else s)
               else s))"

text \<open>What the store does for a send: the message it projects, and the delivery id of its answer.\<close>

definition submit_to_store :: "agent_store \<Rightarrow> string option \<Rightarrow> bool \<Rightarrow> string \<Rightarrow> int \<Rightarrow> agent_store" where
  "submit_to_store s message is_follow_up i now =
     (let (subs, made) = submit_message (messages s) message (length (store_events s)) i now;
          s = s\<lparr>messages := subs\<rparr>
      in case (made, active_turn s) of
           (Some i, Some turn) \<Rightarrow>
             if is_follow_up
             then s\<lparr>active_turn := Some (turn\<lparr>follow_up_submissions := List.insert i (follow_up_submissions turn)\<rparr>)\<rparr>
             else s
         | _ \<Rightarrow> s)"

definition correlate_answer :: "agent_store \<Rightarrow> string option \<Rightarrow> string option \<Rightarrow> agent_store" where
  "correlate_answer s i delivery =
     (let (subs, r) = correlate (messages s) i delivery (store_events s)
      in handle_reconciliation (s\<lparr>messages := subs\<rparr>) 0 r)"

definition project_input_responses :: "agent_store \<Rightarrow> input_response list option \<Rightarrow> int \<Rightarrow> agent_store" where
  "project_input_responses s responses now =
     (case responses of
        Some (r # rs) \<Rightarrow> s\<lparr>messages := add_event (messages s) (InputAnswered now (r # rs))\<rparr>
      | _ \<Rightarrow> s)"

definition reset_store :: "agent_store \<Rightarrow> agent_store" where
  "reset_store s =
     s\<lparr>seen_ids := [], open_authorizations := [], store_events := [],
       messages := (reset_submissions (messages s))\<lparr>projection := reset_projection []\<rparr>,
       store_status := StoreReady, store_error := None, active_turn := None\<rparr>"

definition start_turn :: "agent_store \<Rightarrow> bool \<Rightarrow> agent_store" where
  "start_turn s resuming =
     s\<lparr>active_turn := Some \<lparr>follow_up_submissions = [], received_follow_ups = 0, received_events = []\<rparr>,
       store_error := None, store_status := (if resuming then StoreResuming else StoreSubmitted)\<rparr>"

text \<open>
  How a turn of the store ends: the stream reached its end, or threw an abort or another error (its
  name and message). A send also fails a message then: the oldest pending one, as no id is given.
\<close>

datatype send_outcome = TurnDone | TurnAborted string string | TurnThrew string string

definition end_turn :: "agent_store \<Rightarrow> bool \<Rightarrow> send_outcome \<Rightarrow> agent_store" where
  "end_turn s resuming outcome =
     (let s = (case outcome of
                 TurnDone \<Rightarrow> s\<lparr>store_status := (if store_error s = None then StoreReady else StoreError)\<rparr>
               | TurnAborted name message \<Rightarrow>
                   (let s = s\<lparr>store_status := StoreReady\<rparr>
                    in if resuming then s else s\<lparr>messages := fail_message (messages s) message None\<rparr>)
               | TurnThrew name message \<Rightarrow>
                   if resuming then s\<lparr>store_error := Some (name, message), store_status := StoreError\<rparr>
                   else (let err = (case store_error s of None \<Rightarrow> (name, message) | Some e \<Rightarrow> e)
                         in s\<lparr>store_error := Some err, store_status := StoreError,
                              messages := fail_message (messages s) (snd err) None\<rparr>))
      in s\<lparr>active_turn := None\<rparr>)"

datatype store_step =
    AcceptEvent session_event
  | SubmitMessage "string option" bool string int
  | CorrelateAnswer "string option" "string option"
  | FailMessage string "string option"
  | ProjectResponses "input_response list option" int
  | StartTurn bool
  | EndTurn bool send_outcome
  | ResetStore

fun store_next :: "agent_store \<Rightarrow> store_step \<Rightarrow> agent_store" where
  "store_next s (AcceptEvent e) = accept_server_event s e"
| "store_next s (SubmitMessage m f i now) = submit_to_store s m f i now"
| "store_next s (CorrelateAnswer i d) = correlate_answer s i d"
| "store_next s (FailMessage err i) = s\<lparr>messages := fail_message (messages s) err i\<rparr>"
| "store_next s (ProjectResponses rs now) = project_input_responses s rs now"
| "store_next s (StartTurn resuming) = start_turn s resuming"
| "store_next s (EndTurn resuming outcome) = end_turn s resuming outcome"
| "store_next s ResetStore = reset_store s"

section \<open>What the projection shows\<close>

definition shown_ids :: "projected_event list \<Rightarrow> string list" where
  "shown_ids es = List.map_filter (\<lambda>e. case e of Submitted i _ _ \<Rightarrow> Some i | _ \<Rightarrow> None) es"

definition shown_server_events :: "projected_event list \<Rightarrow> session_event list" where
  "shown_server_events es = List.map_filter (\<lambda>e. case e of ServerEvent e \<Rightarrow> Some e | _ \<Rightarrow> None) es"

lemma shown_ids_simps [simp]:
  "shown_ids [] = []" "shown_ids (es @ es') = shown_ids es @ shown_ids es'"
  "shown_ids (Submitted i t m # es) = i # shown_ids es"
  "shown_ids (SubmitFailed i t m r # es) = shown_ids es" "shown_ids (InputAnswered t rs # es) = shown_ids es"
  "shown_ids (ServerEvent e # es) = shown_ids es"
  by (simp_all add: shown_ids_def List.map_filter_def)

lemma shown_server_events_simps [simp]:
  "shown_server_events [] = []" "shown_server_events (es @ es') = shown_server_events es @ shown_server_events es'"
  "shown_server_events (Submitted i t m # es) = shown_server_events es"
  "shown_server_events (SubmitFailed i t m r # es) = shown_server_events es"
  "shown_server_events (InputAnswered t rs # es) = shown_server_events es"
  "shown_server_events (ServerEvent e # es) = e # shown_server_events es"
  by (simp_all add: shown_server_events_def List.map_filter_def)

lemma shown_of_server [simp]:
  "shown_ids (map ServerEvent es) = []" "shown_server_events (map ServerEvent es) = es"
  by (induction es) simp_all

lemma is_submitted_iff: "is_submitted ids e \<longleftrightarrow> (\<exists>i t m. e = Submitted i t m \<and> i \<in> set ids)"
  by (cases e) (simp_all add: is_submitted_def)

lemma is_submitted_simps [simp]:
  "is_submitted ids (Submitted i t m) \<longleftrightarrow> i \<in> set ids" "\<not> is_submitted ids (SubmitFailed i t m r)"
  "\<not> is_submitted ids (InputAnswered t rs)" "\<not> is_submitted ids (ServerEvent v)"
  by (simp_all add: is_submitted_def)

lemma shown_ids_filter [simp]:
  "shown_ids (filter (\<lambda>e. \<not> is_submitted ids e) es) = filter (\<lambda>i. i \<notin> set ids) (shown_ids es)"
proof (induction es)
  case (Cons e es)
  then show ?case by (cases e) simp_all
qed simp

lemma shown_server_events_filter [simp]:
  "shown_server_events (filter (\<lambda>e. \<not> is_submitted ids e) es) = shown_server_events es"
proof (induction es)
  case (Cons e es)
  then show ?case by (cases e) simp_all
qed simp

lemma find_submitted_cases:
  assumes "find_index (is_submitted ids) es = Some k"
  obtains pre i t m post where "es = pre @ Submitted i t m # post" "i \<in> set ids" "k = length pre"
proof -
  have k: "k < length es" "is_submitted ids (es ! k)" using assms by (auto simp: find_index_eq_Some_iff)
  then obtain i t m where "es ! k = Submitted i t m" "i \<in> set ids" by (auto simp: is_submitted_iff)
  moreover from this(1) k(1) have "es = take k es @ Submitted i t m # drop (Suc k) es"
    using id_take_nth_drop [OF k(1)] by simp
  ultimately show thesis using that [of "take k es" i t m "drop (Suc k) es"] k(1) by simp
qed

lemma submitted_found:
  "find_index (is_submitted ids) es = None \<longleftrightarrow> set ids \<inter> set (shown_ids es) = {}"
proof (induction es)
  case (Cons e es)
  then show ?case by (cases e) auto
qed simp

text \<open>Replacing the first shown message of the ids by an event that is no submission.\<close>

definition replaced :: "string list \<Rightarrow> projected_event \<Rightarrow> projected_event list \<Rightarrow> projected_event list" where
  "replaced ids e es = (case find_index (is_submitted ids) es of None \<Rightarrow> es @ [e] | Some k \<Rightarrow> es[k := e])"

lemma replaced_shown:
  assumes "shown_ids [e] = []"
  shows "set (shown_ids es) - set ids \<subseteq> set (shown_ids (replaced ids e es))"
    and "set (shown_ids (replaced ids e es)) \<subseteq> set (shown_ids es)"
    and "distinct (shown_ids es) \<Longrightarrow> distinct (shown_ids (replaced ids e es))"
    and "distinct (shown_ids es) \<Longrightarrow> length ids = 1 \<Longrightarrow> set (shown_ids (replaced ids e es)) = set (shown_ids es) - set ids"
    and "mset (shown_server_events (replaced ids e es)) = mset (shown_server_events es) + mset (shown_server_events [e])"
proof -
  obtain v where v: "shown_server_events [e] = v" by blast
  have e: "shown_ids (e # rest) = shown_ids rest" "shown_server_events (e # rest) = v @ shown_server_events rest" for rest
    using assms v by (cases e; auto)+
  have "(set (shown_ids es) - set ids \<subseteq> set (shown_ids (replaced ids e es)))
    \<and> set (shown_ids (replaced ids e es)) \<subseteq> set (shown_ids es)
    \<and> (distinct (shown_ids es) \<longrightarrow> distinct (shown_ids (replaced ids e es)))
    \<and> (distinct (shown_ids es) \<longrightarrow> length ids = 1 \<longrightarrow> set (shown_ids (replaced ids e es)) = set (shown_ids es) - set ids)
    \<and> mset (shown_server_events (replaced ids e es)) = mset (shown_server_events es) + mset (shown_server_events [e])"
  proof (cases "find_index (is_submitted ids) es")
    case None
    then have "set ids \<inter> set (shown_ids es) = {}" by (simp add: submitted_found)
    then show ?thesis using assms None by (auto simp: replaced_def)
  next
    case (Some k)
    then obtain pre i t m post where es: "es = pre @ Submitted i t m # post" "i \<in> set ids" "k = length pre"
      by (rule find_submitted_cases)
    then have "replaced ids e es = pre @ e # post" using Some by (simp add: replaced_def)
    with es e show ?thesis by (auto simp: length_Suc_conv)
  qed
  then show "set (shown_ids es) - set ids \<subseteq> set (shown_ids (replaced ids e es))"
    and "set (shown_ids (replaced ids e es)) \<subseteq> set (shown_ids es)"
    and "distinct (shown_ids es) \<Longrightarrow> distinct (shown_ids (replaced ids e es))"
    and "distinct (shown_ids es) \<Longrightarrow> length ids = 1 \<Longrightarrow> set (shown_ids (replaced ids e es)) = set (shown_ids es) - set ids"
    and "mset (shown_server_events (replaced ids e es)) = mset (shown_server_events es) + mset (shown_server_events [e])"
    by blast+
qed

subsection \<open>Every operation keeps the projection exact\<close>

definition subs_ok :: "submissions \<Rightarrow> bool" where
  "subs_ok s \<longleftrightarrow>
     projected_data (projection s) = replay [] reduce_projected (projected (projection s))
     \<and> distinct (map submission_id (pending_messages s))
     \<and> distinct (shown_ids (projected (projection s)))
     \<and> set (shown_ids (projected (projection s))) = (if optimistic s then submission_id ` set (pending_messages s) else {})"

abbreviation pending_ids :: "submissions \<Rightarrow> string set" where
  "pending_ids s \<equiv> submission_id ` set (pending_messages s)"

definition server_mset :: "submissions \<Rightarrow> session_event multiset" where
  "server_mset s = mset (shown_server_events (projected (projection s)))"

lemma replace_projection_eq:
  "replace_projection initial reduce p (is_submitted ids) e
   = \<lparr>projected = replaced ids e (projected p), projected_data = replay initial reduce (replaced ids e (projected p))\<rparr>"
  by (simp add: replace_projection_def replaced_def Let_def)

lemma add_event_ok:
  assumes "subs_ok s" and "shown_ids [e] = []"
  shows "subs_ok (add_event s e)" "server_mset (add_event s e) = server_mset s + mset (shown_server_events [e])"
    "pending_ids (add_event s e) = pending_ids s" "optimistic (add_event s e) = optimistic s"
  using assms by (auto simp: subs_ok_def add_event_def append_projection_def replay_def server_mset_def)

lemma submit_message_ok:
  assumes "subs_ok s" and "i \<notin> pending_ids s" and "submit_message s m start i now = (s', made)"
  shows "subs_ok s'" "server_mset s' = server_mset s" "pending_ids s' \<subseteq> insert i (pending_ids s)"
  using assms
  by (auto simp: subs_ok_def submit_message_def add_event_def append_projection_def replay_def server_mset_def
      image_iff split: option.splits if_splits)

lemma filter_ids_distinct:
  "distinct (map submission_id ps) \<Longrightarrow> distinct (map submission_id (filter P ps))"
  by (induction ps) auto

lemma reconcile_ok:
  assumes ok: "subs_ok s" and "matching \<noteq> []" and "reconcile s matching e already = (s', r)"
  shows "subs_ok s'" "server_mset s' = server_mset s + (if already then {#} else {#e#})" "pending_ids s' \<subseteq> pending_ids s"
proof -
  let ?ids = "map submission_id matching" and ?es = "projected (projection s)"
  let ?es' = "if already then ?es else replaced (take 1 ?ids) (ServerEvent e) ?es"
  have s': "s' = s\<lparr>pending_messages := filter (\<lambda>p. submission_id p \<notin> set ?ids) (pending_messages s),
      projection := \<lparr>projected = filter (\<lambda>v. \<not> is_submitted ?ids v) ?es',
        projected_data = replay [] reduce_projected (filter (\<lambda>v. \<not> is_submitted ?ids v) ?es')\<rparr>\<rparr>"
    using assms(3) by (auto simp: reconcile_def Let_def replace_projection_eq remove_projection_def)
  have one: "set (take 1 ?ids) \<subseteq> set ?ids" by (rule set_take_subset)
  note rep = replaced_shown [where e = "ServerEvent e" and es = ?es and ids = "take 1 ?ids", simplified]
  have "set (shown_ids ?es') - set ?ids = set (shown_ids ?es) - set ?ids" "distinct (shown_ids ?es')"
    using rep(1-3) one ok by (auto simp: subs_ok_def)
  then have "distinct (filter (\<lambda>i. i \<notin> set ?ids) (shown_ids ?es'))"
    "set (filter (\<lambda>i. i \<notin> set ?ids) (shown_ids ?es')) = set (shown_ids ?es) - set ?ids" by auto
  moreover have "submission_id ` set (filter (\<lambda>p. submission_id p \<notin> set ?ids) (pending_messages s)) = pending_ids s - set ?ids"
    by auto
  ultimately show "subs_ok s'"
    using ok unfolding subs_ok_def s' by (simp add: filter_ids_distinct)
  show "server_mset s' = server_mset s + (if already then {#} else {#e#})"
    using rep(5) by (simp add: server_mset_def s')
  show "pending_ids s' \<subseteq> pending_ids s" by (auto simp: s')
qed

lemma fail_message_ok:
  assumes ok: "subs_ok s"
  shows "subs_ok (fail_message s err i)" "server_mset (fail_message s err i) = server_mset s"
    "pending_ids (fail_message s err i) \<subseteq> pending_ids s"
proof -
  consider "fail_message s err i = s"
    | q where "failing_message s i = Some q" "fail_message s err i = s\<lparr>pending_messages := filter (\<lambda>p. submission_id p \<noteq> submission_id q) (pending_messages s),
        projection := replace_projection [] reduce_projected (projection s) (is_submitted [submission_id q])
          (SubmitFailed (submission_id q) (created_at q) (submitted_message q) err)\<rparr>"
    by (cases "failing_message s i") (simp_all add: fail_message_def)
  then have "subs_ok (fail_message s err i) \<and> server_mset (fail_message s err i) = server_mset s
      \<and> pending_ids (fail_message s err i) \<subseteq> pending_ids s"
  proof cases
    case 2
    let ?e = "SubmitFailed (submission_id q) (created_at q) (submitted_message q) err" and ?es = "projected (projection s)"
    note rep = replaced_shown [where e = ?e and es = ?es and ids = "[submission_id q]", simplified]
    have "submission_id ` set (filter (\<lambda>p. submission_id p \<noteq> submission_id q) (pending_messages s)) = pending_ids s - {submission_id q}"
      by auto
    with ok rep(3,4,5) show ?thesis
      unfolding 2(2) subs_ok_def server_mset_def by (auto simp: replace_projection_eq filter_ids_distinct)
  qed (use ok in auto)
  then show "subs_ok (fail_message s err i)" "server_mset (fail_message s err i) = server_mset s"
    "pending_ids (fail_message s err i) \<subseteq> pending_ids s" by blast+
qed

lemma fail_all_messages_ok:
  assumes "subs_ok s"
  shows "subs_ok (fail_all_messages s err)" "server_mset (fail_all_messages s err) = server_mset s"
    "pending_ids (fail_all_messages s err) \<subseteq> pending_ids s"
proof -
  have "subs_ok (foldl (\<lambda>s p. fail_message s err (Some (submission_id p))) s ps)
    \<and> server_mset (foldl (\<lambda>s p. fail_message s err (Some (submission_id p))) s ps) = server_mset s
    \<and> pending_ids (foldl (\<lambda>s p. fail_message s err (Some (submission_id p))) s ps) \<subseteq> pending_ids s" for ps
    using assms
  proof (induction ps arbitrary: s)
    case (Cons p ps)
    note step = fail_message_ok [OF Cons.prems, of err "Some (submission_id p)"]
    note IH = Cons.IH [OF step(1)]
    from IH step(2) order_trans [OF conjunct2 [OF conjunct2 [OF IH]] step(3)] show ?case by simp
  qed simp
  then show "subs_ok (fail_all_messages s err)" "server_mset (fail_all_messages s err) = server_mset s"
    "pending_ids (fail_all_messages s err) \<subseteq> pending_ids s" unfolding fail_all_messages_def by blast+
qed

lemma apply_server_event_ok:
  assumes "subs_ok s" and "apply_server_event s e = (s', r)"
  shows "subs_ok s'" "server_mset s' = server_mset s + {#e#}" "pending_ids s' \<subseteq> pending_ids s"
proof -
  have "subs_ok s' \<and> server_mset s' = server_mset s + {#e#} \<and> pending_ids s' \<subseteq> pending_ids s"
  proof (cases "awaits_submission e \<and> matching_submissions s e \<noteq> []")
    case True
    then obtain r' where "reconcile s (matching_submissions s e) e False = (s', r')"
      using assms(2) by (auto simp: apply_server_event_def split: prod.splits)
    from reconcile_ok [OF assms(1) _ this] True show ?thesis by simp
  next
    case False
    then have "s' = add_event s (ServerEvent e)" using assms(2) by (auto simp: apply_server_event_def split: if_splits)
    with add_event_ok [OF assms(1), of "ServerEvent e"] show ?thesis by simp
  qed
  then show "subs_ok s'" "server_mset s' = server_mset s + {#e#}" "pending_ids s' \<subseteq> pending_ids s" by blast+
qed

lemma correlate_ok:
  assumes "subs_ok s" and "correlate s i d events = (s', r)"
  shows "subs_ok s'" "server_mset s' = server_mset s" "pending_ids s' \<subseteq> pending_ids s"
proof -
  have "subs_ok s' \<and> server_mset s' = server_mset s \<and> pending_ids s' \<subseteq> pending_ids s"
  proof (cases i)
    case None
    then show ?thesis using assms by (simp add: correlate_def)
  next
    case (Some i)
    define s1 where "s1 = accept_delivery s i d"
    have ids: "map submission_id (pending_messages s1) = map submission_id (pending_messages s)"
      by (simp add: s1_def accept_delivery_def)
    have rest: "projection s1 = projection s" "optimistic s1 = optimistic s"
      by (simp_all add: s1_def accept_delivery_def)
    from ids have same: "pending_ids s1 = pending_ids s" by (metis list.set_map)
    have ok: "subs_ok s1" "server_mset s1 = server_mset s"
      using assms(1) unfolding subs_ok_def server_mset_def ids same rest by simp_all
    consider "s' = s1" | e r' where "matching_submissions s1 e \<noteq> []" "reconcile s1 (matching_submissions s1 e) e True = (s', r')"
    proof (cases "List.find (\<lambda>p. submission_id p = i) (pending_messages s1)")
      case None
      with assms(2) Some that(1) show thesis by (simp add: correlate_def s1_def Let_def)
    next
      case found: (Some p)
      show thesis
      proof (cases "List.find (\<lambda>e. awaits_submission e \<and> list_ex (\<lambda>q. submission_id q = i) (matching_submissions s1 e))
          (drop (event_start_index p) events)")
        case None
        with assms(2) Some found that(1) show thesis by (simp add: correlate_def s1_def Let_def)
      next
        case event: (Some e)
        then have "list_ex (\<lambda>q. submission_id q = i) (matching_submissions s1 e)" by (auto simp: find_Some_iff)
        then have "matching_submissions s1 e \<noteq> []" by auto
        with assms(2) Some found event that(2) show thesis
          by (auto simp: correlate_def s1_def Let_def split: prod.splits)
      qed
    qed
    then show ?thesis
    proof cases
      case 2
      from reconcile_ok [OF ok(1) 2] ok(2) same show ?thesis by simp
    qed (use ok same in simp)
  qed
  then show "subs_ok s'" "server_mset s' = server_mset s" "pending_ids s' \<subseteq> pending_ids s" by blast+
qed

subsection \<open>The store over every history\<close>

definition store_ok :: "string set \<Rightarrow> agent_store \<Rightarrow> bool" where
  "store_ok used s \<longleftrightarrow>
     subs_ok (messages s) \<and> server_mset (messages s) = mset (store_events s)
     \<and> seen_ids s = event_ids (store_events s) \<and> distinct (seen_ids s) \<and> pending_ids (messages s) \<subseteq> used"

lemma handle_reconciliation_fields [simp]:
  "messages (handle_reconciliation s k r) = messages s" "store_events (handle_reconciliation s k r) = store_events s"
  "seen_ids (handle_reconciliation s k r) = seen_ids s" "store_error (handle_reconciliation s k r) = store_error s"
  "open_authorizations (handle_reconciliation s k r) = open_authorizations s"
  by (auto simp: handle_reconciliation_def Let_def split: option.splits prod.splits)

lemma apply_terminal_fields [simp]:
  "store_events (apply_terminal_stream_failure s e) = store_events s" "seen_ids (apply_terminal_stream_failure s e) = seen_ids s"
  "messages (apply_terminal_stream_failure s e)
   = (case kind e of SessionFailedKind _ m \<Rightarrow> fail_all_messages (messages s) m | _ \<Rightarrow> messages s)"
  by (auto simp: apply_terminal_stream_failure_def Let_def split: event_kind.splits)

text \<open>What an accepted event does to the parts of the store the projection depends on.\<close>

lemma accept_server_event_fields:
  assumes "admit_event (seen_ids s) e = (True, seen)" and "apply_server_event (messages s) e = (subs, r)"
  shows "store_events (accept_server_event s e) = store_events s @ [e]" "seen_ids (accept_server_event s e) = seen"
    "messages (accept_server_event s e) = (case kind e of SessionFailedKind _ m \<Rightarrow> fail_all_messages subs m | _ \<Rightarrow> subs)"
  using assms by (simp_all add: accept_server_event_def Let_def split: event_kind.split)

lemma accept_dropped: "admit_event (seen_ids s) e = (False, seen) \<Longrightarrow> accept_server_event s e = s"
  by (simp add: accept_server_event_def)

lemma accept_server_event_ok:
  assumes "store_ok used s"
  shows "store_ok used (accept_server_event s e)"
proof -
  obtain admitted seen where adm: "admit_event (seen_ids s) e = (admitted, seen)" by fastforce
  show ?thesis
  proof (cases admitted)
    case False
    with adm accept_dropped assms show ?thesis by simp
  next
    case True
    obtain subs r where app: "apply_server_event (messages s) e = (subs, r)" by fastforce
    have ok: "subs_ok (messages s)" using assms by (simp add: store_ok_def)
    note fields = accept_server_event_fields [OF adm [unfolded True [THEN eqTrueI]] app]
    note sub = apply_server_event_ok [OF ok app]
    have seen: "seen = event_ids (store_events s @ [e])" "distinct seen"
      using adm True assms by (auto simp: admit_event_def store_ok_def split: option.splits if_splits)
    have msgs: "subs_ok (messages (accept_server_event s e))"
      "server_mset (messages (accept_server_event s e)) = server_mset (messages s) + {#e#}"
      "pending_ids (messages (accept_server_event s e)) \<subseteq> pending_ids (messages s)"
      using sub fail_all_messages_ok [OF sub(1)] unfolding fields(3)
      by (cases "kind e"; simp; blast)+
    with fields(1,2) seen assms show ?thesis by (auto simp: store_ok_def)
  qed
qed

text \<open>The ids a history submits; the generator of ids draws each of them once.\<close>

fun step_submits :: "store_step \<Rightarrow> string list" where
  "step_submits (SubmitMessage (Some m) f i now) = [i]"
| "step_submits _ = []"

lemma store_next_ok:
  assumes ok: "store_ok used s" and fresh: "set (step_submits st) \<inter> used = {}"
  shows "store_ok (used \<union> set (step_submits st)) (store_next s st)"
proof (cases st)
  case (AcceptEvent e)
  with accept_server_event_ok [OF ok] show ?thesis by simp
next
  case (SubmitMessage m f i now)
  obtain subs made where sub: "submit_message (messages s) m (length (store_events s)) i now = (subs, made)" by fastforce
  have fields: "messages (store_next s st) = subs" "store_events (store_next s st) = store_events s" "seen_ids (store_next s st) = seen_ids s"
    using sub SubmitMessage by (auto simp: submit_to_store_def Let_def split: option.splits)
  show ?thesis
  proof (cases m)
    case None
    with sub ok SubmitMessage fields show ?thesis by (auto simp: submit_message_def store_ok_def)
  next
    case (Some msg)
    have "i \<notin> pending_ids (messages s)" using fresh ok Some SubmitMessage by (auto simp: store_ok_def)
    with submit_message_ok [OF _ this sub] ok fields Some SubmitMessage show ?thesis
      by (auto simp: store_ok_def)
  qed
next
  case (CorrelateAnswer i d)
  obtain subs r where cor: "correlate (messages s) i d (store_events s) = (subs, r)" by fastforce
  with correlate_ok [OF _ cor] ok CorrelateAnswer show ?thesis
    by (auto simp: correlate_answer_def store_ok_def)
next
  case (FailMessage err i)
  with fail_message_ok [of "messages s" err i] ok show ?thesis by (auto simp: store_ok_def)
next
  case (ProjectResponses rs now)
  with add_event_ok [of "messages s" "InputAnswered now v" for v] ok show ?thesis
    by (auto simp: project_input_responses_def store_ok_def split: option.splits list.splits)
next
  case (StartTurn resuming)
  with ok show ?thesis by (auto simp: start_turn_def store_ok_def)
next
  case (EndTurn resuming outcome)
  have fields: "store_events (store_next s st) = store_events s" "seen_ids (store_next s st) = seen_ids s"
    using EndTurn by (auto simp: end_turn_def Let_def split: send_outcome.splits)
  have "messages (store_next s st) = messages s \<or> (\<exists>err. messages (store_next s st) = fail_message (messages s) err None)"
    using EndTurn by (auto simp: end_turn_def Let_def split: send_outcome.splits)
  moreover have "subs_ok (messages s)" using ok by (simp add: store_ok_def)
  ultimately have "subs_ok (messages (store_next s st))" "server_mset (messages (store_next s st)) = server_mset (messages s)"
    "pending_ids (messages (store_next s st)) \<subseteq> pending_ids (messages s)"
    using fail_message_ok [of "messages s" _ None] by (metis, metis, metis order_refl)
  with fields ok EndTurn show ?thesis by (auto simp: store_ok_def)
next
  case ResetStore
  with ok show ?thesis
    by (auto simp: reset_store_def reset_submissions_def reset_projection_def store_ok_def subs_ok_def
        server_mset_def replay_def)
qed

lemma new_store_ok: "store_ok used (new_store is_optimistic events)"
proof -
  obtain admitted seen where adm: "admit_all [] events = (admitted, seen)" by fastforce
  from admit_all_ids [OF adm] adm show ?thesis
    by (auto simp: new_store_def store_ok_def subs_ok_def new_projection_def server_mset_def)
qed

lemma store_run_ok:
  "store_ok used s \<Longrightarrow> distinct (concat (map step_submits steps)) \<Longrightarrow> set (concat (map step_submits steps)) \<inter> used = {}
   \<Longrightarrow> \<exists>used'. store_ok used' (foldl store_next s steps)"
proof (induction steps arbitrary: used s)
  case (Cons st steps)
  have "set (step_submits st) \<inter> used = {}" using Cons.prems(3) by auto
  from Cons.IH [OF store_next_ok [OF Cons.prems(1) this]] Cons.prems(2,3) show ?case by auto
qed auto

text \<open>C27: The frontend projection is exact over every history of server events, submissions, answers,
  failures, turns and resets: its data are what the reducer computes from the projected events,
  among which every accepted server event stands exactly once (no event id twice) and, next to failed
  messages and given answers, exactly the pending optimistic messages, each once. The data
  never hold two messages of one identity.\<close>

theorem store_projection_exact:
  assumes "distinct (concat (map step_submits steps))"
    and "s = foldl store_next (new_store is_optimistic saved) steps"
    and "p = projection (messages s)"
  shows "projected_data p = foldl reduce_message_data [] (map as_reducer_event (projected p)) \<and> data_ok (projected_data p)
    \<and> mset (shown_server_events (projected p)) = mset (store_events s) \<and> distinct (event_ids (store_events s))
    \<and> distinct (shown_ids (projected p))
    \<and> set (shown_ids (projected p)) = (if optimistic (messages s) then submission_id ` set (pending_messages (messages s)) else {})"
proof -
  obtain used where ok: "store_ok used s"
    using store_run_ok [OF new_store_ok [of "{}"] assms(1)] assms(2) by auto
  have data: "replay [] reduce_projected es = foldl reduce_message_data [] (map as_reducer_event es)" for es
    by (simp add: replay_def foldl_map reduce_projected_def [abs_def])
  have "data_ok (foldl reduce_message_data [] (map as_reducer_event (projected p)))"
    by (rule reducer.run_inv) (simp add: data_ok_def)
  with ok data show ?thesis by (auto simp: store_ok_def subs_ok_def server_mset_def assms(3))
qed

definition received_by :: "string \<Rightarrow> string \<Rightarrow> session_event" where
  "received_by i d = \<lparr>kind = MessageReceivedKind False, event_id = Some i, event_delivery_ids = Some [d],
     event_in_turn = True, reduced = OtherEvent\<rparr>"

definition sample_history :: "store_step list" where
  "sample_history =
     [StartTurn False, SubmitMessage (Some ''hello'') False ''s1'' 5, SubmitMessage (Some ''wait'') True ''s2'' 6,
      CorrelateAnswer (Some ''s1'') (Some ''d1''), AcceptEvent (received_by ''e1'' ''d1''), AcceptEvent (received_by ''e1'' ''d1'')]"

theorem store_projection_exact_witness:
  "let s = foldl store_next (new_store True []) sample_history; p = projection (messages s)
   in shown_server_events (projected p) = [received_by ''e1'' ''d1''] \<and> shown_ids (projected p) = [''s2'']
     \<and> projected_data p = foldl reduce_message_data [] (map as_reducer_event (projected p))"
proof -
  define s where "s = foldl store_next (new_store True []) sample_history"
  have "distinct (concat (map step_submits sample_history))" by (simp add: sample_history_def)
  from store_projection_exact [OF this s_def refl]
  have "projected_data (projection (messages s))
      = foldl reduce_message_data [] (map as_reducer_event (projected (projection (messages s))))" by blast
  moreover have "(let p = projection (messages (foldl store_next (new_store True []) sample_history))
      in shown_server_events (projected p) = [received_by ''e1'' ''d1''] \<and> shown_ids (projected p) = [''s2''])"
    by code_simp
  ultimately show ?thesis unfolding s_def by (simp add: Let_def)
qed

text \<open>
  When a turn throws, the oldest pending message fails, also when it is an accepted follow-up whose
  event then arrives: it is shown as failed and as received.
\<close>

lemma thrown_turn_fails_a_follow_up:
  "let s = foldl store_next (new_store True [])
         [StartTurn False, SubmitMessage (Some ''hello'') False ''s1'' 5, CorrelateAnswer (Some ''s1'') (Some ''d1''),
          AcceptEvent (received_by ''e1'' ''d1''), SubmitMessage (Some ''wait'') True ''s2'' 6,
          CorrelateAnswer (Some ''s2'') (Some ''d2''), EndTurn False (TurnThrew ''Error'' ''gone''),
          AcceptEvent (received_by ''e2'' ''d2'')]
   in projected (projection (messages s))
      = [ServerEvent (received_by ''e1'' ''d1''), SubmitFailed ''s2'' 6 ''wait'' ''gone'', ServerEvent (received_by ''e2'' ''d2'')]"
  by code_simp

section \<open>A store that follows the log\<close>

text \<open>Without submissions the projected events are the events of the store, in order.\<close>

definition plain_store :: "agent_store \<Rightarrow> bool" where
  "plain_store s \<longleftrightarrow>
     pending_messages (messages s) = [] \<and> projected (projection (messages s)) = map ServerEvent (store_events s)
     \<and> projected_data (projection (messages s)) = foldl reduce_message_data [] (map reduced (store_events s))"

lemma accept_plain:
  assumes "plain_store s" and "admit_event (seen_ids s) e = (admitted, seen)"
  shows "plain_store (accept_server_event s e)" "seen_ids (accept_server_event s e) = seen"
    "store_events (accept_server_event s e) = store_events s @ (if admitted then [e] else [])"
proof -
  have same: "accept_server_event s e = s" "seen = seen_ids s" if "\<not> admitted"
    using assms(2) that by (auto simp: accept_server_event_def admit_event_def split: option.splits if_splits)
  have app: "apply_server_event (messages s) e = (add_event (messages s) (ServerEvent e), None)"
    using assms(1) by (simp add: plain_store_def apply_server_event_def matching_submissions_def)
  have "plain_store (accept_server_event s e) \<and> seen_ids (accept_server_event s e) = seen
    \<and> store_events (accept_server_event s e) = store_events s @ (if admitted then [e] else [])"
  proof (cases admitted)
    case False
    with same assms(1) show ?thesis by simp
  next
    case True
    note fields = accept_server_event_fields [OF assms(2) [unfolded True [THEN eqTrueI]] app]
    have "messages (accept_server_event s e) = add_event (messages s) (ServerEvent e)"
      using assms(1) unfolding fields(3)
      by (auto simp: fail_all_messages_def plain_store_def add_event_def split: event_kind.split)
    with fields(1,2) assms(1) True show ?thesis
      by (simp add: plain_store_def add_event_def append_projection_def reduce_projected_def)
  qed
  then show "plain_store (accept_server_event s e)" "seen_ids (accept_server_event s e) = seen"
    "store_events (accept_server_event s e) = store_events s @ (if admitted then [e] else [])" by blast+
qed

lemma accept_run_plain:
  "plain_store s \<Longrightarrow> admit_all (seen_ids s) es = (admitted, seen)
   \<Longrightarrow> plain_store (foldl accept_server_event s es) \<and> store_events (foldl accept_server_event s es) = store_events s @ admitted"
proof (induction es arbitrary: s admitted)
  case (Cons e es)
  obtain ok seen1 where e: "admit_event (seen_ids s) e = (ok, seen1)" by fastforce
  obtain rest where rest: "admit_all seen1 es = (rest, seen)" "admitted = (if ok then e # rest else rest)"
    using Cons.prems(2) e by (auto split: prod.splits)
  note step = accept_plain [OF Cons.prems(1) e]
  from Cons.IH [OF step(1)] rest step(2,3) show ?case by simp
qed simp

text \<open>C28: A store that starts from a saved prefix of the log and follows the stream from the beginning
  shows the log: through every reconnection and replay it holds each event once and in order, and
  its messages are what the reducer makes of the longer of the saved and the followed prefix.\<close>

theorem followed_store_shows_log:
  assumes log: "\<forall>e \<in> set durable. event_id e \<noteq> None" "distinct (event_ids durable)"
    and run: "follow_stream_iterable c policy rounds = (sigs, s', st)" "start_at c = 0" "\<forall>r \<in> set rounds. serves durable r"
    and store: "s = foldl accept_server_event (new_store is_optimistic (take k durable)) (yielded sigs)"
  shows "store_events s = take (max k (length (yielded sigs))) durable
    \<and> projected_data (projection (messages s)) = foldl reduce_message_data [] (map reduced (store_events s))"
proof -
  let ?n = "length (yielded sigs)" and ?saved = "take k durable"
  have seen: "yielded sigs = take ?n durable"
    using followed_exactly_once [OF _ run(3,1)] run(2) by (auto simp: prefix_def)
  have ids: "set (event_ids xs) = (the \<circ> event_id) ` set xs" if "set xs \<subseteq> set durable" for xs
    using that log(1) by (induction xs) (auto split: option.splits)
  have split: "event_ids durable = event_ids (take j durable) @ event_ids (drop j durable)" for j
    by (metis append_take_drop_id event_ids_simps(3))
  then have parts: "distinct (event_ids (take j durable))" "set (event_ids (take j durable)) \<inter> set (event_ids (drop j durable)) = {}"
    "distinct (event_ids (drop j durable))" for j
    using log(2) by (metis distinct_append)+
  have saved: "admit_all [] ?saved = (?saved, event_ids ?saved)"
    using admit_fresh [of ?saved "[]"] log(1) parts(1) by (auto dest: in_set_takeD)
  have plain: "plain_store (new_store is_optimistic ?saved)" "seen_ids (new_store is_optimistic ?saved) = event_ids ?saved"
    "store_events (new_store is_optimistic ?saved) = ?saved"
    using saved by (simp_all add: new_store_def plain_store_def new_projection_def replay_def foldl_map reduce_projected_def [abs_def])
  have old: "admit_all (event_ids ?saved) (take (min k ?n) durable) = ([], event_ids ?saved)"
  proof (rule admit_replay)
    have "set (take (min k ?n) durable) \<subseteq> set ?saved" by (simp add: set_take_subset_set_take)
    with ids [of ?saved] log(1) show "\<forall>e \<in> set (take (min k ?n) durable). event_id e \<noteq> None \<and> the (event_id e) \<in> set (event_ids ?saved)"
      by (auto dest: in_set_takeD set_take_subset [THEN subsetD])
  qed
  let ?new = "drop k (take ?n durable)"
  have new: "admit_all (event_ids ?saved) ?new = (?new, event_ids ?saved @ event_ids ?new)"
  proof (rule admit_fresh)
    have "?new = take (?n - k) (drop k durable)" by (simp add: drop_take)
    then have "event_ids (drop k durable) = event_ids ?new @ event_ids (drop (?n - k) (drop k durable))"
      by (metis append_take_drop_id event_ids_simps(3))
    with parts(2,3) [of k] show "distinct (event_ids ?new)" "set (event_ids ?new) \<inter> set (event_ids ?saved) = {}" by auto
    show "\<forall>e \<in> set ?new. event_id e \<noteq> None" using log(1) by (auto dest: in_set_takeD in_set_dropD)
  qed
  have "take ?n durable = take (min k ?n) durable @ ?new"
    by (metis append_take_drop_id min.commute take_take)
  then have "admit_all (event_ids ?saved) (yielded sigs) = (?new, event_ids ?saved @ event_ids ?new)"
    using admit_all_append [of "event_ids ?saved" "take (min k ?n) durable" ?new] old new seen by simp
  from accept_run_plain [OF plain(1)] this plain(2,3)
  have final: "plain_store s" "store_events s = ?saved @ ?new" by (auto simp: store)
  moreover have "?saved @ ?new = take (max k ?n) durable"
    by (cases "k \<le> ?n") (simp_all add: drop_take max_def take_add [symmetric])
  ultimately show ?thesis by (simp add: plain_store_def)
qed

theorem followed_store_shows_log_witness:
  "\<exists>sigs s' st. follow_stream_iterable \<lparr>follow_bounded = False, wants_caught_up = False, start_at = 0\<rparr>
      DEFAULT_STREAM_RECONNECT_POLICY
      [short_round DEFAULT_STREAM_RECONNECT_POLICY [received_by ''e1'' ''d'', received_by ''e2'' ''d''] 1,
       short_round DEFAULT_STREAM_RECONNECT_POLICY [received_by ''e1'' ''d'', received_by ''e2'' ''d''] 1] = (sigs, s', st)
    \<and> store_events (foldl accept_server_event (new_store True [received_by ''e1'' ''d'']) (yielded sigs))
      = [received_by ''e1'' ''d'', received_by ''e2'' ''d'']"
proof -
  let ?log = "[received_by ''e1'' ''d'', received_by ''e2'' ''d'']"
  let ?c = "\<lparr>follow_bounded = False, wants_caught_up = False, start_at = 0\<rparr>"
  let ?rs = "[short_round DEFAULT_STREAM_RECONNECT_POLICY ?log 1, short_round DEFAULT_STREAM_RECONNECT_POLICY ?log 1]"
  obtain sigs s' st where run: "follow_stream_iterable ?c DEFAULT_STREAM_RECONNECT_POLICY ?rs = (sigs, s', st)"
    using prod_cases3 by blast
  then have both: "yielded sigs = ?log"
    by (auto simp: follow_defs short_round_def zero_enat_def [symmetric])
  have "store_events (foldl accept_server_event (new_store True (take 1 ?log)) (yielded sigs))
      = take (max 1 (length (yielded sigs))) ?log"
    by (rule conjunct1 [OF followed_store_shows_log [OF _ _ run _ _ refl]])
      (simp_all add: short_round_serves, simp_all add: received_by_def)
  with run both show ?thesis by auto
qed

end
