(* ===== verification/Session_Inbox.thy ===== *)
theory Session_Inbox
  imports Input_Queue
begin

text \<open>
  The inbox of a session owner (packages/eve/src/execution/session-inbox/): the payloads it accepts and
  their decoding (protocol.ts), and the queue that the pumps of the claimed hooks feed (inbox.ts). A
  hook of the workflow engine is its source: whether its registration succeeds, which values its
  iterator brings, and when it ends are calls of the environment. A source is named by the number of
  its creation, since a token can be claimed again after a release.
\<close>

section \<open>Payloads (channel/types.ts, inbox.ts)\<close>

record send_command =
  send_auth :: "json option"
  send_title :: "string option"
  send_caller :: "turn_caller option"
  send_delivery :: "json option"
  send_payload :: "deliver_payload option"
  send_request_id :: "string option"
  send_task_delivery_id :: "string option"
  send_policy :: "turn_policy option"

record cancel_command =
  cancel_task_id :: "string option"
  cancel_tasks :: bool
  cancel_turn_id :: "string option"

record subagent_event =
  event_call :: string
  event_child_session :: string
  event_subagent :: string
  event_body :: json

text \<open>A result of a runtime action; the fields the session owner only carries along are JSON.\<close>

datatype runtime_result =
    ToolActionResult (runtime_call: string) (runtime_tool: string) json
  | ChildResult (runtime_call: string) json
  | DispatchFailure (runtime_call: string) json
  | SkillResult (runtime_call: string) json

text \<open>
  Everything a hook can bring, by its kind. The payload of a send is absent when it is no object, the
  payloads of a delivery when they are no array. A message of a workflow tool run is a report, a
  request or an outcome.
\<close>

datatype session_payload =
    SendPayload send_command
  | DeliverPayload "delivery option"
  | CancelPayload cancel_command
  | ClearPayload
  | CompactPayload
  | ResetPayload
  | TimeoutPayload string
  | ResultsPayload "runtime_result list"
  | WorkflowPayload json
  | CallbackPayload "deliver_payload list"
  | SubagentPayload subagent_event
  | UnsupportedPayload json

section \<open>Decoding (protocol.ts)\<close>

datatype decoded_payload =
    DecodedDelivery delivery
  | DecodedTimeout string
  | DecodedCancel cancel_command
  | DecodedClear
  | DecodedCompact
  | DecodedReset

datatype payload_error = SendNotObject | PayloadsNotArray | UnsupportedKind

text \<open>Other kinds, also those of \<open>inbox.ts\<close> that never reach the decoder, are unsupported.\<close>

definition decode_send :: "send_command \<Rightarrow> deliver_payload \<Rightarrow> delivery" where
  "decode_send c p =
     \<lparr>delivery_title = send_title c, delivery_auth = send_auth c, delivery_caller = send_caller c,
      delivery_metadata =
        map_option (\<lambda>m. [\<lparr>payload_index = 0, metadata_fields = m\<rparr>]) (send_delivery c),
      delivery_request_id = send_request_id c, task_delivery_id = send_task_delivery_id c,
      delivery_payloads = [p], delivery_policy = send_policy c\<rparr>"

fun decode_session_inbox_payload :: "session_payload \<Rightarrow> payload_error + decoded_payload" where
  "decode_session_inbox_payload (SendPayload c) =
     (case send_payload c of
        None \<Rightarrow> Inl SendNotObject
      | Some p \<Rightarrow> Inr (DecodedDelivery (decode_send c p)))"
| "decode_session_inbox_payload (DeliverPayload d) =
     (case d of None \<Rightarrow> Inl PayloadsNotArray | Some x \<Rightarrow> Inr (DecodedDelivery x))"
| "decode_session_inbox_payload (CancelPayload c) = Inr (DecodedCancel c)"
| "decode_session_inbox_payload ClearPayload = Inr DecodedClear"
| "decode_session_inbox_payload CompactPayload = Inr DecodedCompact"
| "decode_session_inbox_payload ResetPayload = Inr DecodedReset"
| "decode_session_inbox_payload (TimeoutPayload run) = Inr (DecodedTimeout run)"
| "decode_session_inbox_payload _ = Inl UnsupportedKind"

fun is_interrupt :: "session_payload \<Rightarrow> bool" where
  "is_interrupt (CancelPayload c) = True"
| "is_interrupt ResetPayload = True"
| "is_interrupt (TimeoutPayload run) = True"
| "is_interrupt _ = False"

fun is_delivery_payload :: "session_payload \<Rightarrow> bool" where
  "is_delivery_payload (SendPayload c) = True"
| "is_delivery_payload (DeliverPayload d) = True"
| "is_delivery_payload _ = False"

section \<open>The inbox (inbox.ts)\<close>

text \<open>
  \<open>Registering\<close> awaits the claim of the hook, \<open>Reading\<close> is a pump with a read in flight, \<open>Finished\<close>
  is \<open>closed\<close>. Sources that a release has taken out of the list are \<open>retired\<close>: their hooks are being
  disposed, and a read in flight may still bring a value.
\<close>

datatype pump_phase = Registering | Reading | Finished

record source =
  source_number :: nat
  source_token :: string
  source_pump :: pump_phase
  source_stopping :: bool

record inbox =
  sources :: "source list"
  retired :: "source list"
  next_source :: nat
  unread :: "session_payload list"
  inbox_failed :: bool
  interrupt_handlers :: "nat list"
  delivery_handlers :: "nat list"

definition empty_inbox :: inbox where
  "empty_inbox = \<lparr>sources = [], retired = [], next_source = 0, unread = [], inbox_failed = False,
     interrupt_handlers = [], delivery_handlers = []\<rparr>"

definition is_closed :: "inbox \<Rightarrow> bool" where
  "is_closed ib = list_all (\<lambda>s. source_pump s = Finished \<or> source_stopping s) (sources ib)"

definition claimed_tokens :: "inbox \<Rightarrow> string list" where
  "claimed_tokens ib = map source_token (sources ib)"

datatype claim_error = EmptyToken | TooManyAddresses

text \<open>The synchronous part of a claim; a token that is already claimed shares the running registration.\<close>

definition claim_session_hook :: "inbox \<Rightarrow> string \<Rightarrow> claim_error + inbox" where
  "claim_session_hook ib token =
     (if token = [] then Inl EmptyToken
      else if \<exists>s \<in> set (sources ib). source_token s = token then Inr ib
      else if 256 \<le> length (sources ib) then Inl TooManyAddresses
      else Inr (ib\<lparr>sources := sources ib @ [\<lparr>source_number = next_source ib, source_token = token,
                       source_pump = Registering, source_stopping = False\<rparr>],
                   next_source := Suc (next_source ib)\<rparr>))"

text \<open>
  \<open>sources.splice(sources.indexOf(source), 1)\<close>: when the source is no longer in the list, the index is
  \<open>-1\<close> and the last source goes.
\<close>

definition unclaim :: "nat \<Rightarrow> source list \<Rightarrow> source list" where
  "unclaim n ss =
     (case find_index (\<lambda>s. source_number s = n) ss of None \<Rightarrow> butlast ss | Some i \<Rightarrow> remove_nth i ss)"

definition set_pump :: "nat \<Rightarrow> pump_phase \<Rightarrow> source list \<Rightarrow> source list" where
  "set_pump n p ss = map (\<lambda>s. if source_number s = n then s\<lparr>source_pump := p\<rparr> else s) ss"

definition the_source :: "inbox \<Rightarrow> nat \<Rightarrow> source option" where
  "the_source ib n = List.find (\<lambda>s. source_number s = n) (sources ib @ retired ib)"

definition with_pump :: "inbox \<Rightarrow> nat \<Rightarrow> pump_phase \<Rightarrow> inbox" where
  "with_pump ib n p = ib\<lparr>sources := set_pump n p (sources ib), retired := set_pump n p (retired ib)\<rparr>"

text \<open>The registration settles: the pump starts, or the slot is given back. A pump whose source is already
  stopping leaves its loop at once.\<close>

definition registered :: "inbox \<Rightarrow> nat \<Rightarrow> bool \<Rightarrow> inbox" where
  "registered ib n ok =
     (case the_source ib n of
        None \<Rightarrow> ib
      | Some s \<Rightarrow>
          if source_pump s \<noteq> Registering then ib
          else if ok then with_pump ib n (if source_stopping s then Finished else Reading)
          else ib\<lparr>sources := unclaim n (sources ib)\<rparr>)"

text \<open>A read brings a value: it is queued, then the handlers see it. The result names the handlers that
  were called. The loop goes on unless its source was stopped.\<close>

definition pumped :: "inbox \<Rightarrow> nat \<Rightarrow> session_payload \<Rightarrow> nat list \<times> inbox" where
  "pumped ib n v =
     (case the_source ib n of
        None \<Rightarrow> ([], ib)
      | Some s \<Rightarrow>
          if source_pump s \<noteq> Reading then ([], ib)
          else ((if is_delivery_payload v then delivery_handlers ib else [])
                  @ (if is_interrupt v then interrupt_handlers ib else []),
                (if source_stopping s then with_pump ib n Finished else ib)
                  \<lparr>unread := unread ib @ [v]\<rparr>))"

text \<open>The iterator ends, or throws; a failure counts unless the source was stopped.\<close>

definition pump_ended :: "inbox \<Rightarrow> nat \<Rightarrow> bool \<Rightarrow> inbox" where
  "pump_ended ib n threw =
     (case the_source ib n of
        None \<Rightarrow> ib
      | Some s \<Rightarrow>
          if source_pump s \<noteq> Reading then ib
          else (with_pump ib n Finished)
                 \<lparr>inbox_failed := inbox_failed ib \<or> (threw \<and> \<not> source_stopping s)\<rparr>)"

text \<open>\<open>stop()\<close> up to its await, and what follows once every hook is disposed.\<close>

definition stop_sources :: "inbox \<Rightarrow> inbox" where
  "stop_sources ib =
     ib\<lparr>sources := [], retired := retired ib @ map (\<lambda>s. s\<lparr>source_stopping := True\<rparr>) (sources ib)\<rparr>"

definition finish_stop :: "inbox \<Rightarrow> session_payload list \<times> inbox" where
  "finish_stop ib = (unread ib, ib\<lparr>unread := [], retired := []\<rparr>)"

datatype read_result = GotPayload session_payload | AllReleased | MustWait | ReadFailure

definition next_payload :: "inbox \<Rightarrow> read_result \<times> inbox" where
  "next_payload ib =
     (if inbox_failed ib then (ReadFailure, ib)
      else (case unread ib of
              v # vs \<Rightarrow> (GotPayload v, ib\<lparr>unread := vs\<rparr>)
            | [] \<Rightarrow> (if is_closed ib then AllReleased else MustWait, ib)))"

definition drain :: "inbox \<Rightarrow> session_payload list option \<times> inbox" where
  "drain ib = (if inbox_failed ib then (None, ib) else (Some (unread ib), ib\<lparr>unread := []\<rparr>))"

definition has_pending :: "inbox \<Rightarrow> bool option" where
  "has_pending ib = (if inbox_failed ib then None else Some (unread ib \<noteq> []))"

text \<open>Handlers are kept in the order of their subscription. A subscription to deliveries sees the unread
  ones at once.\<close>

definition add_handler :: "nat \<Rightarrow> nat list \<Rightarrow> nat list" where
  "add_handler h hs = (if h \<in> set hs then hs else hs @ [h])"

definition on_interrupt :: "inbox \<Rightarrow> nat \<Rightarrow> inbox" where
  "on_interrupt ib h = ib\<lparr>interrupt_handlers := add_handler h (interrupt_handlers ib)\<rparr>"

definition on_delivery :: "inbox \<Rightarrow> nat \<Rightarrow> session_payload list \<times> inbox" where
  "on_delivery ib h =
     (filter is_delivery_payload (unread ib), ib\<lparr>delivery_handlers := add_handler h (delivery_handlers ib)\<rparr>)"

definition off_interrupt :: "inbox \<Rightarrow> nat \<Rightarrow> inbox" where
  "off_interrupt ib h = ib\<lparr>interrupt_handlers := removeAll h (interrupt_handlers ib)\<rparr>"

definition off_delivery :: "inbox \<Rightarrow> nat \<Rightarrow> inbox" where
  "off_delivery ib h = ib\<lparr>delivery_handlers := removeAll h (delivery_handlers ib)\<rparr>"

definition restore :: "inbox \<Rightarrow> session_payload list \<Rightarrow> inbox option" where
  "restore ib ps = (if sources ib = [] then None else Some (ib\<lparr>unread := ps @ unread ib\<rparr>))"

section \<open>Histories of an inbox\<close>

text \<open>
  The calls of the environment (registrations, values and ends of the iterators) and of the owner, in
  any order. A stop is two calls, since values can arrive until the hooks are disposed.
\<close>

datatype inbox_call =
    Claim string
  | Registered nat bool
  | Pumped nat session_payload
  | PumpEnded nat bool
  | ReadNext
  | Drain
  | StopSources
  | FinishStop
  | Restore "session_payload list"

fun inbox_step :: "inbox \<Rightarrow> inbox_call \<Rightarrow> inbox" where
  "inbox_step ib (Claim token) = (case claim_session_hook ib token of Inl e \<Rightarrow> ib | Inr ib' \<Rightarrow> ib')"
| "inbox_step ib (Registered n ok) = registered ib n ok"
| "inbox_step ib (Pumped n v) = snd (pumped ib n v)"
| "inbox_step ib (PumpEnded n threw) = pump_ended ib n threw"
| "inbox_step ib ReadNext = snd (next_payload ib)"
| "inbox_step ib Drain = snd (drain ib)"
| "inbox_step ib StopSources = stop_sources ib"
| "inbox_step ib FinishStop = snd (finish_stop ib)"
| "inbox_step ib (Restore ps) = (case restore ib ps of None \<Rightarrow> ib | Some ib' \<Rightarrow> ib')"

text \<open>What a call takes out of the inbox for its caller, and what it puts in.\<close>

fun handed_out :: "inbox \<Rightarrow> inbox_call \<Rightarrow> session_payload list" where
  "handed_out ib ReadNext = (case fst (next_payload ib) of GotPayload v \<Rightarrow> [v] | _ \<Rightarrow> [])"
| "handed_out ib Drain = (case fst (drain ib) of Some vs \<Rightarrow> vs | None \<Rightarrow> [])"
| "handed_out ib FinishStop = fst (finish_stop ib)"
| "handed_out ib _ = []"

fun accepted_by :: "inbox \<Rightarrow> inbox_call \<Rightarrow> session_payload list" where
  "accepted_by ib (Pumped n v) =
     (case the_source ib n of
        Some s \<Rightarrow> if source_pump s = Reading then [v] else []
      | None \<Rightarrow> [])"
| "accepted_by ib _ = []"

fun restores :: "inbox_call \<Rightarrow> bool" where
  "restores (Restore ps) = True"
| "restores _ = False"

fun given_out :: "inbox \<Rightarrow> inbox_call list \<Rightarrow> session_payload list" where
  "given_out ib [] = []"
| "given_out ib (c # cs) = handed_out ib c @ given_out (inbox_step ib c) cs"

fun taken_in :: "inbox \<Rightarrow> inbox_call list \<Rightarrow> session_payload list" where
  "taken_in ib [] = []"
| "taken_in ib (c # cs) = accepted_by ib c @ taken_in (inbox_step ib c) cs"

named_theorems inbox_ops

lemmas inbox_call_defs [inbox_ops] =
  registered_def pumped_def pump_ended_def next_payload_def drain_def stop_sources_def finish_stop_def
  restore_def with_pump_def claim_session_hook_def

lemma step_conserves:
  "\<not> restores c \<Longrightarrow> handed_out ib c @ unread (inbox_step ib c) = unread ib @ accepted_by ib c"
  by (cases c) (auto simp: inbox_ops split: option.split list.split)

lemma run_conserves:
  "\<forall>c \<in> set cs. \<not> restores c \<Longrightarrow>
   given_out ib cs @ unread (foldl inbox_step ib cs) = unread ib @ taken_in ib cs"
proof (induction cs arbitrary: ib)
  case (Cons c cs)
  then have "given_out ib (c # cs) @ unread (foldl inbox_step ib (c # cs))
      = handed_out ib c @ unread (inbox_step ib c) @ taken_in (inbox_step ib c) cs"
    by simp
  also have "\<dots> = unread ib @ taken_in ib (c # cs)"
    using step_conserves [of c ib] Cons.prems by (metis append_assoc list.set_intros(1) taken_in.simps(2))
  finally show ?case .
qed simp

section \<open>Claims\<close>

definition inbox_inv :: "inbox \<Rightarrow> bool" where
  "inbox_inv ib \<longleftrightarrow>
     distinct (map source_token (sources ib)) \<and> length (sources ib) \<le> 256
     \<and> [] \<notin> source_token ` set (sources ib)
     \<and> distinct (map source_number (sources ib))
     \<and> (\<forall>s \<in> set (sources ib @ retired ib). source_number s < next_source ib)"

lemma set_pump_fields [simp]:
  "map source_token (set_pump n p ss) = map source_token ss"
  "map source_number (set_pump n p ss) = map source_number ss"
  "length (set_pump n p ss) = length ss"
  by (auto simp: set_pump_def)

lemma set_pump_images:
  "source_token ` set (set_pump n p ss) = source_token ` set ss"
  "source_number ` set (set_pump n p ss) = source_number ` set ss"
  by (simp_all flip: set_map)

lemma ball_source_number: "(\<forall>s \<in> set ss. source_number s < k) \<longleftrightarrow> (\<forall>n \<in> source_number ` set ss. n < k)"
  by auto

lemma inbox_inv_alt:
  "inbox_inv ib \<longleftrightarrow>
     distinct (map source_token (sources ib)) \<and> length (sources ib) \<le> 256
     \<and> [] \<notin> set (map source_token (sources ib))
     \<and> distinct (map source_number (sources ib))
     \<and> (\<forall>n \<in> set (map source_number (sources ib)) \<union> set (map source_number (retired ib)). n < next_source ib)"
  by (auto simp: inbox_inv_def)

lemma unclaim_subset:
  "set (map f (unclaim n ss)) \<subseteq> set (map f ss)" "distinct (map f ss) \<Longrightarrow> distinct (map f (unclaim n ss))"
  "length (unclaim n ss) \<le> length ss"
proof -
  show "set (map f (unclaim n ss)) \<subseteq> set (map f ss)"
    using set_remove_nth_subset [of _ ss] by (auto simp: unclaim_def split: option.splits dest: in_set_butlastD)
  show "distinct (map f ss) \<Longrightarrow> distinct (map f (unclaim n ss))"
    by (auto simp: unclaim_def map_remove_nth map_butlast intro: distinct_remove_nth distinct_butlast split: option.split)
  show "length (unclaim n ss) \<le> length ss"
    by (auto simp: unclaim_def split: option.split)
qed

lemma with_pump_inv: "inbox_inv (with_pump ib n p) \<longleftrightarrow> inbox_inv ib"
  by (simp add: inbox_inv_alt with_pump_def)

lemma unread_inv [simp]:
  "inbox_inv (ib\<lparr>unread := u\<rparr>) \<longleftrightarrow> inbox_inv ib" "inbox_inv (ib\<lparr>inbox_failed := f\<rparr>) \<longleftrightarrow> inbox_inv ib"
  by (simp_all add: inbox_inv_def)

lemma claim_inv:
  assumes "inbox_inv ib" and "claim_session_hook ib token = Inr ib'"
  shows "inbox_inv ib'"
proof (cases "\<exists>s \<in> set (sources ib). source_token s = token")
  case False
  with assms(2) have "token \<noteq> []" "length (sources ib) < 256"
    and ib': "ib' = ib\<lparr>sources := sources ib @ [\<lparr>source_number = next_source ib, source_token = token,
      source_pump = Registering, source_stopping = False\<rparr>], next_source := Suc (next_source ib)\<rparr>"
    by (auto simp: claim_session_hook_def split: if_splits)
  with False assms(1) show ?thesis
    unfolding ib' inbox_inv_alt by (auto simp: less_Suc_eq)
qed (use assms in \<open>auto simp: claim_session_hook_def split: if_splits\<close>)

lemma unclaim_inv: "inbox_inv ib \<Longrightarrow> inbox_inv (ib\<lparr>sources := unclaim n (sources ib)\<rparr>)"
  using unclaim_subset(1) [of "\<lambda>s. s" n "sources ib"]
    unclaim_subset(2) [of source_token "sources ib" n] unclaim_subset(2) [of source_number "sources ib" n]
    unclaim_subset(3) [of n "sources ib"]
  by (auto simp: inbox_inv_def)

lemma stop_inv: "inbox_inv ib \<Longrightarrow> inbox_inv (stop_sources ib)"
  by (simp add: inbox_inv_alt stop_sources_def comp_def) blast

lemma finish_inv: "inbox_inv ib \<Longrightarrow> inbox_inv (ib\<lparr>unread := u, retired := []\<rparr>)"
  by (simp add: inbox_inv_alt)

lemma inbox_step_inv: "inbox_inv ib \<Longrightarrow> inbox_inv (inbox_step ib c)"
proof (cases c)
  case (Claim token)
  then show "inbox_inv ib \<Longrightarrow> ?thesis" by (auto intro: claim_inv split: sum.split)
next
  case (Registered n ok)
  then show "inbox_inv ib \<Longrightarrow> ?thesis"
    by (simp add: registered_def with_pump_inv unclaim_inv split: option.split)
qed (simp_all add: pumped_def pump_ended_def next_payload_def drain_def finish_stop_def restore_def
    with_pump_inv stop_inv finish_inv split: option.split list.split)

lemma empty_inbox_inv [simp]: "inbox_inv empty_inbox"
  by (simp add: inbox_inv_def empty_inbox_def)

interpretation inbox_machine: invariant_machine inbox_step inbox_inv
  by unfold_locales (rule inbox_step_inv)

end
