(* ===== verification/Session_Handoff.thy ===== *)
theory Session_Handoff
  imports Session_Inbox Workflow_Runs Turn_Emission
begin

text \<open>
  The state a session owner carries from step to step and its move to another deployment
  (packages/eve/src/execution/session/): the cursor (state-cursor.ts) with the hooks it derives
  (hook-tokens.ts), the deployment a delivery was accepted by (accepted-deployment.ts), the test
  for an idle session (handoff-steps.ts) and the transfer (handoff.ts). What the workflow
  engine answers (registrations, arrivals, the start of the successor and its activation) is the input
  of the definitions. A list of such calls given to a waiting operation is what happens until it returns.
\<close>

section \<open>Durable state and its cursor\<close>

type_synonym serialized_context = "string \<rightharpoonup> json"

record durable_session =
  durable_state :: "session_state option"
  durable_emission :: emission_state
  durable_continuation :: string
  durable_session_id :: string
  has_proxy_requests :: bool

record cursor =
  cursor_context :: serialized_context
  cursor_session :: durable_session

text \<open>A transition keeps the current value of an absent field.\<close>

record transition =
  new_context :: "serialized_context option"
  new_session :: "durable_session option"

definition moved :: "cursor \<Rightarrow> transition \<Rightarrow> cursor" where
  "moved c t =
     \<lparr>cursor_context = (case new_context t of None \<Rightarrow> cursor_context c | Some x \<Rightarrow> x),
      cursor_session = (case new_session t of None \<Rightarrow> cursor_session c | Some x \<Rightarrow> x)\<rparr>"

definition session_command_hook_token :: "string \<Rightarrow> string" where
  "session_command_hook_token session = ''eve:session:'' @ session @ '':inbox''"

text \<open>A JavaScript set built from a list: the first of equal elements keeps its place.\<close>

fun add_new :: "'a list \<Rightarrow> 'a list \<Rightarrow> 'a list" where
  "add_new acc [] = acc"
| "add_new acc (x # xs) = add_new (if x \<in> set acc then acc else acc @ [x]) xs"

fun nonempty_strings :: "json list \<Rightarrow> string list" where
  "nonempty_strings [] = []"
| "nonempty_strings (JStr s # js) = (if s = [] then nonempty_strings js else s # nonempty_strings js)"
| "nonempty_strings (_ # js) = nonempty_strings js"

definition session_hook_tokens :: "serialized_context \<Rightarrow> durable_session \<Rightarrow> string list" where
  "session_hook_tokens ctx session =
     add_new [session_command_hook_token (durable_session_id session)]
       ((case ctx ''eve.continuationHookTokens'' of Some (JArr js) \<Rightarrow> nonempty_strings js | _ \<Rightarrow> [])
        @ (if durable_continuation session = [] then [] else [durable_continuation session]))"

section \<open>Claiming the hooks of a state\<close>

text \<open>
  \<open>claimSessionHooks\<close>: every claim runs up to its registration, then the calls of the environment
  happen until all have settled; the first failure is thrown, and no claim is undone but the refused.
\<close>

fun begin_claims :: "inbox \<Rightarrow> string list \<Rightarrow> bool \<times> inbox" where
  "begin_claims ib [] = (True, ib)"
| "begin_claims ib (t # ts) =
     (case claim_session_hook ib t of
        Inl e \<Rightarrow> (False, snd (begin_claims ib ts))
      | Inr ib' \<Rightarrow> begin_claims ib' ts)"

fun environment_call :: "inbox_call \<Rightarrow> bool" where
  "environment_call (Registered n ok) = True"
| "environment_call (Pumped n v) = True"
| "environment_call (PumpEnded n threw) = True"
| "environment_call _ = False"

definition environment_run :: "inbox \<Rightarrow> inbox_call list \<Rightarrow> inbox" where
  "environment_run ib calls = foldl inbox_step ib (filter environment_call calls)"

definition all_registered :: "inbox \<Rightarrow> string list \<Rightarrow> bool" where
  "all_registered ib ts =
     list_all (\<lambda>t. \<exists>s \<in> set (sources ib). source_token s = t \<and> source_pump s \<noteq> Registering) ts"

definition claim_session_hooks ::
    "inbox \<Rightarrow> string list \<Rightarrow> inbox_call list \<Rightarrow> bool \<times> inbox" where
  "claim_session_hooks ib ts calls =
     (case begin_claims ib (add_new [] ts) of
        (ok, ib1) \<Rightarrow> (let ib2 = environment_run ib1 calls in (ok \<and> all_registered ib2 ts, ib2)))"

text \<open>\<open>apply\<close>: the state is adopted only after its hooks are claimed.\<close>

definition apply_transition ::
    "inbox \<Rightarrow> cursor \<Rightarrow> transition \<Rightarrow> inbox_call list \<Rightarrow> bool \<times> cursor \<times> inbox" where
  "apply_transition ib c t calls =
     (let c' = moved c t in
      (case claim_session_hooks ib (session_hook_tokens (cursor_context c') (cursor_session c')) calls of
         (ok, ib') \<Rightarrow> (ok, if ok then c' else c, ib')))"

section \<open>Which delivery may move which session\<close>

definition accepted_by_deployment :: "metadata_entry \<Rightarrow> json option" where
  "accepted_by_deployment m =
     (case metadata_fields m of JObj es \<Rightarrow> map_of es ''acceptedDeploymentId'' | _ \<Rightarrow> None)"

definition read_accepted_deployment_id :: "delivery \<Rightarrow> string option" where
  "read_accepted_deployment_id d =
     (case metadata_list d of
        [] \<Rightarrow> None
      | m # ms \<Rightarrow>
          (case accepted_by_deployment m of
             Some (JStr i) \<Rightarrow>
               if i = [] \<or> i = ''latest'' then None
               else if list_all (\<lambda>e. accepted_by_deployment e = Some (JStr i)) (m # ms) then Some i
               else None
           | _ \<Rightarrow> None))"

datatype idle_error = RegistryBroken registry_error | HandlesBroken handle_error

definition PENDING_KEYS :: "string list" where
  "PENDING_KEYS =
     [''eve.runtime.pendingAuthorization'', ''eve.runtime.pendingInputBatch'',
      ''eve.runtime.pendingCoordinationBatch'', ''eve.runtime.deferredStepInput'',
      ''eve.harness.pendingWorkflowInterrupt'']"

fun resting_handle :: "agent_handle \<Rightarrow> bool" where
  "resting_handle (Parked i a s) = True"
| "resting_handle (Available i a) = True"
| "resting_handle _ = False"

definition finished_run :: "workflow_run \<Rightarrow> bool" where
  "finished_run r = (case Workflow_Runs.background_task r of None \<Rightarrow> False | Some t \<Rightarrow> wt_outcome t \<noteq> None)"

definition is_session_state_idle_for_handoff ::
    "(string \<Rightarrow> bool) \<Rightarrow> session_state option \<Rightarrow> idle_error + bool" where
  "is_session_state_idle_for_handoff url_ok st =
     (case get_workflow_tool_runs st of
        Inl e \<Rightarrow> Inl (RegistryBroken e)
      | Inr runs \<Rightarrow>
          (case those_sum (map (\<lambda>r. case Workflow_Runs.background_task r of
                                      None \<Rightarrow> Inr None | Some t \<Rightarrow> read_workflow_task_view t) runs) of
             Inl e \<Rightarrow> Inl (RegistryBroken e)
           | Inr views \<Rightarrow>
               (case get_agent_handle_store url_ok st of
                  Inl e \<Rightarrow> Inl (HandlesBroken e)
                | Inr handles \<Rightarrow>
                    Inr (if list_ex (\<lambda>k. state_get st k \<noteq> None) PENDING_KEYS then False
                         else if (case state_get st ''eve.runtime.pendingInputBatches'' of
                                    None \<Rightarrow> False | Some b \<Rightarrow> b \<noteq> JArr []) then False
                         else if (case state_get st ''eve.runtime.proxyInputRequests'' of
                                    None \<Rightarrow> False | Some p \<Rightarrow> p \<noteq> JObj []) then False
                         else (case handles of None \<Rightarrow> True | Some hs \<Rightarrow> list_all resting_handle hs)
                              \<and> list_all finished_run runs))))"

section \<open>The transfer (handoff.ts)\<close>

text \<open>
  The engine's answers to one attempt: whether the hooks of the anchor and of the markers could be
  claimed, whether the release was committed, what arrives before and while the released hooks are
  disposed, how the successor's start ends, and what happens while the hooks are claimed again.
\<close>

datatype activation = Active | ActivationFailure "session_payload list" | StartThrew

record transfer_answers =
  anchor_granted :: bool
  markers_granted :: bool
  release_committed :: bool
  before_release :: "inbox_call list"
  during_disposal :: "inbox_call list"
  successor_activation :: activation
  during_reclaim :: "inbox_call list"

datatype retained_reason =
    SameDeployment | MissingDeployment | NotIdle | Busy | AcceptedDuringRelease | ActivationFailed

datatype transfer_outcome = Transferred | Retained retained_reason

datatype handoff_error =
    IdleCheckThrew idle_error | AnchorConflict | MarkerConflict | ReleaseFailed | ReclaimFailed | RestoreFailed

definition SESSION_CHECKPOINT_VERSION :: nat where
  "SESSION_CHECKPOINT_VERSION = 6"

record checkpoint =
  checkpoint_version :: nat
  checkpoint_settings :: json
  checkpoint_cursor :: cursor

record successor_start =
  start_checkpoint :: checkpoint
  start_delivery :: delivery
  start_deployment :: string

record handoff =
  owner_deployment :: string
  handoff_settings :: json
  is_initial_owner :: bool
  anchor_claimed :: bool

definition release ::
    "inbox \<Rightarrow> transfer_answers \<Rightarrow> session_payload list option \<times> inbox" where
  "release ib a =
     (let ib1 = (if sources ib = [] then ib else environment_run ib (before_release a)) in
      if sources ib \<noteq> [] \<and> \<not> release_committed a then (None, ib1)
      else (case finish_stop (environment_run (stop_sources ib1) (during_disposal a)) of
              (ps, ib2) \<Rightarrow> (Some ps, ib2)))"

definition recover ::
    "inbox \<Rightarrow> string list \<Rightarrow> session_payload list \<Rightarrow> inbox_call list \<Rightarrow> (handoff_error + unit) \<times> inbox" where
  "recover ib tokens ps calls =
     (case claim_session_hooks ib tokens calls of
        (False, ib') \<Rightarrow> (Inl ReclaimFailed, ib')
      | (True, ib') \<Rightarrow>
          (case restore ib' ps of None \<Rightarrow> (Inl RestoreFailed, ib') | Some ib2 \<Rightarrow> (Inr (), ib2)))"

definition retained_after :: "retained_reason \<Rightarrow> (handoff_error + unit) \<times> inbox
    \<Rightarrow> (handoff_error + transfer_outcome) \<times> inbox" where
  "retained_after r x = (map_sum id (\<lambda>_. Retained r) (fst x), snd x)"

text \<open>
  The attempt once the session may move: the successor is started with the checkpoint, or the payloads
  that arrived go back to the queue. The result is the outcome, the successors started, and the inbox.
\<close>

definition transfer_now ::
    "handoff \<Rightarrow> delivery \<Rightarrow> string \<Rightarrow> cursor \<Rightarrow> inbox \<Rightarrow> transfer_answers
     \<Rightarrow> (handoff_error + transfer_outcome) \<times> successor_start list \<times> inbox" where
  "transfer_now h d target c ib a =
     (let tokens = session_hook_tokens (cursor_context c) (cursor_session c);
          start = \<lparr>start_checkpoint = \<lparr>checkpoint_version = SESSION_CHECKPOINT_VERSION,
                     checkpoint_settings = handoff_settings h, checkpoint_cursor = c\<rparr>,
                   start_delivery = d, start_deployment = target\<rparr>
      in if \<not> markers_granted a then (Inl MarkerConflict, [], ib)
         else (case release ib a of
                 (None, ib1) \<Rightarrow> (Inl ReleaseFailed, [], ib1)
               | (Some accepted, ib1) \<Rightarrow>
                   if accepted \<noteq> []
                   then (case retained_after AcceptedDuringRelease
                                (recover ib1 tokens accepted (during_reclaim a)) of
                           (r, ib2) \<Rightarrow> (r, [], ib2))
                   else if successor_activation a = Active then (Inr Transferred, [start], ib1)
                   else (case retained_after ActivationFailed
                                (recover ib1 tokens
                                   (case successor_activation a of ActivationFailure ps \<Rightarrow> ps | _ \<Rightarrow> [])
                                   (during_reclaim a)) of
                           (r, ib2) \<Rightarrow> (r, [start], ib2))))"

definition try_transfer ::
    "(string \<Rightarrow> bool) \<Rightarrow> handoff \<Rightarrow> delivery \<Rightarrow> bool \<Rightarrow> cursor \<Rightarrow> inbox \<Rightarrow> transfer_answers
     \<Rightarrow> (handoff_error + transfer_outcome) \<times> successor_start list \<times> handoff \<times> inbox" where
  "try_transfer url_ok h d eligible c ib a =
     (case read_accepted_deployment_id d of
        None \<Rightarrow> (Inr (Retained MissingDeployment), [], h, ib)
      | Some target \<Rightarrow>
          if target = owner_deployment h then (Inr (Retained SameDeployment), [], h, ib)
          else if \<not> eligible then (Inr (Retained Busy), [], h, ib)
          else (case is_session_state_idle_for_handoff url_ok (durable_state (cursor_session c)) of
                  Inl e \<Rightarrow> (Inl (IdleCheckThrew e), [], h, ib)
                | Inr False \<Rightarrow> (Inr (Retained NotIdle), [], h, ib)
                | Inr True \<Rightarrow>
                    (let anchors = is_initial_owner h \<and> \<not> anchor_claimed h;
                         h' = (if anchors then h\<lparr>anchor_claimed := True\<rparr> else h)
                     in if anchors \<and> \<not> anchor_granted a then (Inl AnchorConflict, [], h', ib)
                        else (case transfer_now h d target c ib a of
                                (r, started, ib') \<Rightarrow> (r, started, h', ib')))))"

section \<open>A transfer loses nothing\<close>

definition arrivals :: "inbox \<Rightarrow> inbox_call list \<Rightarrow> session_payload list" where
  "arrivals ib calls = taken_in ib (filter environment_call calls)"

lemma environment_gives_nothing: "given_out ib (filter environment_call cs) = []"
proof (induction cs arbitrary: ib)
  case (Cons c cs)
  then show ?case by (cases c) simp_all
qed simp

lemma environment_unread: "unread (environment_run ib calls) = unread ib @ arrivals ib calls"
proof -
  have "\<forall>c \<in> set (filter environment_call calls). \<not> restores c"
    by (auto elim: environment_call.elims)
  from run_conserves [OF this, of ib] show ?thesis
    by (simp add: environment_gives_nothing environment_run_def arrivals_def)
qed

lemma begin_claims_unread [simp]: "unread (snd (begin_claims ib ts)) = unread ib"
  by (induction ib ts rule: begin_claims.induct) (auto simp: claim_session_hook_def split: sum.split)

lemma stop_sources_unread [simp]: "unread (stop_sources ib) = unread ib"
  by (simp add: stop_sources_def)

lemma claimed_hooks:
  assumes "claim_session_hooks ib ts calls = (ok, ib')"
  shows "unread ib' = unread ib @ arrivals (snd (begin_claims ib (add_new [] ts))) calls"
    and "ok \<Longrightarrow> set ts \<subseteq> set (claimed_tokens ib')"
proof -
  obtain b ib1 where c: "begin_claims ib (add_new [] ts) = (b, ib1)" by fastforce
  then have u: "unread ib1 = unread ib" using begin_claims_unread [of ib "add_new [] ts"] by simp
  show "unread ib' = unread ib @ arrivals (snd (begin_claims ib (add_new [] ts))) calls"
    using assms c u by (auto simp: claim_session_hooks_def environment_unread Let_def)
  show "ok \<Longrightarrow> set ts \<subseteq> set (claimed_tokens ib')"
    using assms c by (auto simp: claim_session_hooks_def Let_def all_registered_def list_all_iff claimed_tokens_def)
qed

text \<open>What the environment brings in the parts of an attempt, along the states it goes through.\<close>

definition arrived_until_disposed :: "inbox \<Rightarrow> transfer_answers \<Rightarrow> session_payload list" where
  "arrived_until_disposed ib a =
     (let ib1 = (if sources ib = [] then ib else environment_run ib (before_release a)) in
      (if sources ib = [] then [] else arrivals ib (before_release a))
        @ arrivals (stop_sources ib1) (during_disposal a))"

definition arrived_since :: "inbox \<Rightarrow> string list \<Rightarrow> transfer_answers \<Rightarrow> session_payload list" where
  "arrived_since ib tokens a = arrivals (snd (begin_claims ib (add_new [] tokens))) (during_reclaim a)"

lemma release_accepts:
  assumes "release ib a = (Some ps, ib')"
  shows "ps = unread ib @ arrived_until_disposed ib a" and "unread ib' = []" and "retired ib' = []"
  using assms
  by (auto simp: release_def arrived_until_disposed_def finish_stop_def environment_unread Let_def split: if_splits)

lemma recovered:
  assumes "recover ib tokens ps calls = (Inr (), ib')" and "unread ib = []"
  shows "unread ib' = ps @ arrivals (snd (begin_claims ib (add_new [] tokens))) calls"
    and "set tokens \<subseteq> set (claimed_tokens ib')"
proof -
  from assms(1) obtain ib1 where cl: "claim_session_hooks ib tokens calls = (True, ib1)"
      and r: "restore ib1 ps = Some ib'"
    by (auto simp: recover_def split: prod.splits bool.splits option.splits)
  from claimed_hooks [OF cl] r assms(2)
  show "unread ib' = ps @ arrivals (snd (begin_claims ib (add_new [] tokens))) calls"
    and "set tokens \<subseteq> set (claimed_tokens ib')"
    by (auto simp: restore_def claimed_tokens_def split: if_splits)
qed

lemma retained_after_Inr:
  "retained_after r x = (Inr out, ib') \<longleftrightarrow> out = Retained r \<and> x = (Inr (), ib')"
  by (cases x; cases "fst x") (auto simp: retained_after_def)

lemma retained_after_Inl:
  "retained_after r x = (Inl e, ib') \<longleftrightarrow> x = (Inl e, ib')"
  by (cases x; cases "fst x") (auto simp: retained_after_def)

text \<open>Recovery can only fail to claim the hooks: once they are claimed there is a source to restore to.\<close>

lemma add_new_nonempty: "acc \<noteq> [] \<Longrightarrow> add_new acc xs \<noteq> []"
  by (induction xs arbitrary: acc) auto

lemma session_hook_tokens_nonempty: "session_hook_tokens ctx s \<noteq> []"
  unfolding session_hook_tokens_def by (rule add_new_nonempty) simp

lemma recovery_fails:
  assumes "recover ib tokens ps calls = (Inl e, ib')" and "unread ib = []" and "tokens \<noteq> []"
  shows "e = ReclaimFailed \<and> unread ib' = arrivals (snd (begin_claims ib (add_new [] tokens))) calls"
proof -
  obtain ok ib1 where cl: "claim_session_hooks ib tokens calls = (ok, ib1)" by fastforce
  have "sources ib1 \<noteq> []" if ok
    using that cl assms(3) by (cases tokens) (auto simp: claim_session_hooks_def all_registered_def Let_def split: prod.splits)
  then show ?thesis
    using assms(1,2) cl claimed_hooks(1) [OF cl]
    by (cases ok) (auto simp: recover_def restore_def)
qed

lemma transfer_now_cases:
  assumes "transfer_now h d target c ib a = (Inr out, started, ib')"
  defines "tokens \<equiv> session_hook_tokens (cursor_context c) (cursor_session c)"
  obtains
    ib1 where "release ib a = (Some [], ib1)" "out = Transferred" "ib' = ib1"
      "\<exists>s. started = [s] \<and> start_delivery s = d \<and> checkpoint_cursor (start_checkpoint s) = c
        \<and> start_deployment s = target"
  | accepted ib1 where "release ib a = (Some accepted, ib1)" "out = Retained AcceptedDuringRelease"
      "recover ib1 tokens accepted (during_reclaim a) = (Inr (), ib')"
  | ib1 where "release ib a = (Some [], ib1)" "out = Retained ActivationFailed"
      "recover ib1 tokens (case successor_activation a of ActivationFailure ps \<Rightarrow> ps | _ \<Rightarrow> [])
         (during_reclaim a) = (Inr (), ib')"
proof -
  from assms obtain accepted ib1 where r: "release ib a = (Some accepted, ib1)"
    by (auto simp: transfer_now_def Let_def split: if_splits prod.splits option.splits)
  show thesis
  proof (cases "accepted = []")
    case True
    with assms(1) r that(1,3) show thesis
      by (auto simp: transfer_now_def Let_def tokens_def retained_after_Inr split: if_splits prod.splits)
  next
    case False
    with assms(1) r that(2) show thesis
      by (auto simp: transfer_now_def Let_def tokens_def retained_after_Inr split: if_splits prod.splits)
  qed
qed

text \<open>What an attempt that throws leaves behind.\<close>

definition throws_with ::
    "handoff_error \<Rightarrow> successor_start list \<Rightarrow> cursor \<Rightarrow> inbox \<Rightarrow> transfer_answers \<Rightarrow> inbox \<Rightarrow> bool" where
  "throws_with e started c ib a ib' =
     (case e of
        ReclaimFailed \<Rightarrow>
          unread ib' = arrived_since (snd (release ib a)) (session_hook_tokens (cursor_context c) (cursor_session c)) a
          \<and> (started = [] \<longleftrightarrow> unread ib @ arrived_until_disposed ib a \<noteq> [])
      | ReleaseFailed \<Rightarrow> \<not> release_committed a \<and> started = [] \<and> unread ib' = unread ib @ arrivals ib (before_release a)
      | RestoreFailed \<Rightarrow> False
      | _ \<Rightarrow> ib' = ib \<and> started = [])"

lemma transfer_now_throws:
  assumes "transfer_now h d target c ib a = (Inl e, started, ib')"
  shows "throws_with e started c ib a ib'"
proof -
  let ?tokens = "session_hook_tokens (cursor_context c) (cursor_session c)"
  consider (markers) "\<not> markers_granted a" | (uncommitted) ib1 where "markers_granted a" "release ib a = (None, ib1)"
    | (released) ps ib1 where "markers_granted a" "release ib a = (Some ps, ib1)"
    by (cases "release ib a"; cases "fst (release ib a)") auto
  then show ?thesis
  proof cases
    case markers
    with assms show ?thesis by (auto simp: transfer_now_def throws_with_def Let_def)
  next
    case uncommitted
    with assms show ?thesis
      by (auto simp: transfer_now_def throws_with_def release_def environment_unread Let_def split: if_splits prod.splits)
  next
    case released
    note ps = release_accepts [OF released(2)]
    obtain rec where rec: "recover ib1 ?tokens rec (during_reclaim a) = (Inl e, ib')" "started = [] \<longleftrightarrow> ps \<noteq> []"
      using assms released by (auto simp: transfer_now_def Let_def retained_after_Inl split: if_splits prod.splits)
    from recovery_fails [OF rec(1) ps(2) session_hook_tokens_nonempty] rec(2) ps(1) released(2) show ?thesis
      by (simp add: throws_with_def arrived_since_def)
  qed
qed

text \<open>C29: Whatever the engine answers and whatever arrives meanwhile, an attempt to move a session loses no
  payload the inbox has accepted, but for the one way it can lose them: the released hooks cannot be
  claimed again. The session moves only when it is idle, the delivery names another deployment and was
  admitted by an idle owner, and nothing was accepted and unread up to the disposal of the hooks; the one
  successor then holds the delivery and the current state. When the session stays after a release, its
  hooks are claimed again, and everything accepted, also by a failed successor, is unread in the order
  of its arrival, before what has arrived since; otherwise the inbox is untouched. An attempt that throws
  before the release leaves the inbox as it was, or with what has arrived; only where the hooks are lost
  to another owner does it throw with no more than what arrived since, and the released payloads are gone.\<close>

theorem transfer_loses_nothing:
  assumes "try_transfer url_ok h d eligible c ib a = (out, started, h', ib')"
  shows "let tokens = session_hook_tokens (cursor_context c) (cursor_session c) in
    case out of
      Inr Transferred \<Rightarrow>
        eligible \<and> is_session_state_idle_for_handoff url_ok (durable_state (cursor_session c)) = Inr True
        \<and> unread ib = [] \<and> arrived_until_disposed ib a = []
        \<and> (\<exists>s. started = [s] \<and> start_delivery s = d \<and> checkpoint_cursor (start_checkpoint s) = c
             \<and> start_deployment s \<noteq> owner_deployment h)
    | Inr (Retained reason) \<Rightarrow>
        if reason \<in> {AcceptedDuringRelease, ActivationFailed}
        then set tokens \<subseteq> set (claimed_tokens ib')
              \<and> unread ib' = unread ib @ arrived_until_disposed ib a
                    @ (case successor_activation a of
                         ActivationFailure ps \<Rightarrow> if reason = ActivationFailed then ps else [] | _ \<Rightarrow> [])
                    @ arrived_since (snd (release ib a)) tokens a
        else ib' = ib \<and> started = []
    | Inl e \<Rightarrow>
        (case e of
           ReclaimFailed \<Rightarrow> unread ib' = arrived_since (snd (release ib a)) tokens a
             \<and> (started = [] \<longleftrightarrow> unread ib @ arrived_until_disposed ib a \<noteq> [])
         | ReleaseFailed \<Rightarrow> \<not> release_committed a \<and> started = [] \<and> unread ib' = unread ib @ arrivals ib (before_release a)
         | RestoreFailed \<Rightarrow> False
         | _ \<Rightarrow> ib' = ib \<and> started = [])"
proof (cases "\<exists>target. read_accepted_deployment_id d = Some target \<and> target \<noteq> owner_deployment h \<and> eligible
    \<and> is_session_state_idle_for_handoff url_ok (durable_state (cursor_session c)) = Inr True
    \<and> \<not> (is_initial_owner h \<and> \<not> anchor_claimed h \<and> \<not> anchor_granted a)")
  case True
  then obtain target where t: "read_accepted_deployment_id d = Some target" "target \<noteq> owner_deployment h" eligible
    and idle: "is_session_state_idle_for_handoff url_ok (durable_state (cursor_session c)) = Inr True"
    by blast
  from assms t idle True obtain g where now: "transfer_now g d target c ib a = (out, started, ib')"
    by (auto simp: try_transfer_def Let_def split: if_splits prod.splits)
  show ?thesis
  proof (cases out)
    case (Inl e)
    with transfer_now_throws now show ?thesis
      unfolding Let_def throws_with_def by fastforce
  next
    case (Inr o')
    then have "transfer_now g d target c ib a = (Inr o', started, ib')" using now by simp
    then show ?thesis
    proof (cases rule: transfer_now_cases)
      case 1
      with t idle release_accepts(1) [OF 1(1)] show ?thesis by (auto simp: Inr)
    next
      case (2 accepted ib1)
      with release_accepts [OF 2(1)] recovered [OF 2(3)] show ?thesis
        by (simp add: Inr arrived_since_def Let_def split: activation.split)
    next
      case (3 ib1)
      with release_accepts [OF 3(1)] recovered [OF 3(3)] show ?thesis
        by (simp add: Inr arrived_since_def Let_def split: activation.split)
    qed
  qed
next
  case False
  with assms show ?thesis
    by (auto simp: try_transfer_def Let_def split: option.splits if_splits sum.splits bool.splits)
qed

definition sample_delivery :: delivery where
  "sample_delivery =
     \<lparr>delivery_title = None, delivery_auth = None, delivery_caller = None,
      delivery_metadata = Some [\<lparr>payload_index = 0,
        metadata_fields = JObj [(''acceptedDeploymentId'', JStr ''new'')]\<rparr>],
      delivery_request_id = None, task_delivery_id = None, delivery_payloads = [], delivery_policy = None\<rparr>"

definition sample_session :: durable_session where
  "sample_session = \<lparr>durable_state = None, durable_emission = DEFAULT_EMISSION_STATE,
     durable_continuation = [], durable_session_id = ''s'', has_proxy_requests = False\<rparr>"

definition sample_cursor :: cursor where
  "sample_cursor = \<lparr>cursor_context = (\<lambda>k. None), cursor_session = sample_session\<rparr>"

definition sample_inbox :: inbox where
  "sample_inbox = inbox_step (inbox_step empty_inbox (Claim (session_command_hook_token ''s''))) (Registered 0 True)"

definition sample_answers :: transfer_answers where
  "sample_answers = \<lparr>anchor_granted = True, markers_granted = True, release_committed = True,
     before_release = [], during_disposal = [Pumped 0 ClearPayload],
     successor_activation = Active, during_reclaim = [Registered 1 True, Pumped 1 CompactPayload]\<rparr>"

definition sample_handoff :: handoff where
  "sample_handoff = \<lparr>owner_deployment = ''old'', handoff_settings = JNull, is_initial_owner = True,
     anchor_claimed = False\<rparr>"

lemmas sample_transfer_defs =
  sample_delivery_def sample_cursor_def sample_session_def sample_inbox_def sample_answers_def sample_handoff_def
  try_transfer_def transfer_now_def release_def recover_def retained_after_def claim_session_hooks_def
  all_registered_def session_hook_tokens_def read_accepted_deployment_id_def accepted_by_deployment_def
  metadata_list_def is_session_state_idle_for_handoff_def get_workflow_tool_runs_def read_registry_def
  get_agent_handle_store_def state_get_def PENDING_KEYS_def environment_run_def empty_inbox_def
  the_source_def set_pump_def session_command_hook_token_def
  arrivals_def arrived_until_disposed_def arrived_since_def inbox_call_defs

theorem transfer_loses_nothing_witness:
  "unread (snd (snd (snd (try_transfer (\<lambda>u. True) sample_handoff sample_delivery True sample_cursor sample_inbox
     sample_answers)))) = [ClearPayload, CompactPayload]"
proof -
  obtain h' ib' where run: "try_transfer (\<lambda>u. True) sample_handoff sample_delivery True sample_cursor sample_inbox
      sample_answers = (Inr (Retained AcceptedDuringRelease), [], h', ib')"
    by (simp add: sample_transfer_defs)
  have "arrived_until_disposed sample_inbox sample_answers = [ClearPayload]"
    by (simp add: sample_transfer_defs)
  moreover have "arrived_since (snd (release sample_inbox sample_answers))
      (session_hook_tokens (cursor_context sample_cursor) (cursor_session sample_cursor)) sample_answers = [CompactPayload]"
    by (simp add: sample_transfer_defs)
  moreover have "unread sample_inbox = []" by (simp add: sample_transfer_defs)
  moreover have "successor_activation sample_answers = Active" by (simp add: sample_answers_def)
  ultimately show ?thesis
    using transfer_loses_nothing [OF run] by (simp add: Let_def run)
qed

end
