(* ===== verification/Session_Wait.thy ===== *)
theory Session_Wait
  imports Session_Handoff "HOL-Library.AList"
begin

text \<open>
  The parked session owner (packages/eve/src/execution/session/): the admission of one inbox payload and
  the effects of a cancellation (admission.ts), the routing of a selected delivery
  (route-selected-delivery.ts) and the wait for the next input to act on (next-input.ts). The owner
  runs between awaits without interruption; what an awaited step of the engine returns, and what the
  pumps bring meanwhile, are inputs of the machine.
\<close>

section \<open>Admission (admission.ts)\<close>

datatype session_admission =
    AdmittedDelivery nat
  | AdmittedCancel cancel_command
  | Consumed
  | AdmittedResults "runtime_result list"
  | AdmittedWorkflow json

text \<open>The step awaited before an admission returns.\<close>

datatype admission_effect = NoEffect | ProxyEvent subagent_event | ReportDropped payload_error

definition read_nested :: "json \<Rightarrow> string \<Rightarrow> string \<Rightarrow> js_type_error + json option" where
  "read_nested h k1 k2 =
     and_then (read_property h k1)
       (\<lambda>x. case x of None \<Rightarrow> Inl TypeError | Some v \<Rightarrow> read_property v k2)"

definition is_event_of_running_child :: "session_state option \<Rightarrow> subagent_event \<Rightarrow> js_type_error + bool" where
  "is_event_of_running_child st e =
     and_then (find_running_agent_handle st (event_call e))
       (\<lambda>h. case h of
              None \<Rightarrow> Inr False
            | Some handle \<Rightarrow>
                and_then (read_nested handle ''identity'' ''name'')
                  (\<lambda>n. if n \<noteq> Some (JStr (event_subagent e)) then Inr False
                       else and_then (read_nested handle ''address'' ''sessionId'')
                              (\<lambda>s. Inr (s = Some (JStr (event_child_session e))))))"

text \<open>The switch over a decoded command; \<open>run\<close> is the workflow run of this owner.\<close>

fun admit_command :: "string \<Rightarrow> input_queue \<Rightarrow> decoded_payload \<Rightarrow> session_admission \<times> input_queue" where
  "admit_command run q (DecodedDelivery d) =
     (case enqueue_delivery q d of
        (None, q') \<Rightarrow> (Consumed, q')
      | (Some n, q') \<Rightarrow> (AdmittedDelivery n, q'))"
| "admit_command run q DecodedClear = (Consumed, enqueue_control q Clear)"
| "admit_command run q DecodedCompact = (Consumed, enqueue_control q Compact)"
| "admit_command run q (DecodedTimeout owner) =
     (Consumed, if owner = run then enqueue_control q Expired else q)"
| "admit_command run q DecodedReset =
     (AdmittedCancel \<lparr>cancel_task_id = None, cancel_tasks = False, cancel_turn_id = None\<rparr>,
      enqueue_control q Reset)"
| "admit_command run q (DecodedCancel c) = (AdmittedCancel c, q)"

fun admit_session_inbox_payload ::
    "string \<Rightarrow> session_state option \<Rightarrow> input_queue \<Rightarrow> session_payload
     \<Rightarrow> js_type_error + session_admission \<times> admission_effect \<times> input_queue" where
  "admit_session_inbox_payload run st q (ResultsPayload rs) = Inr (AdmittedResults rs, NoEffect, q)"
| "admit_session_inbox_payload run st q (WorkflowPayload m) = Inr (AdmittedWorkflow m, NoEffect, q)"
| "admit_session_inbox_payload run st q (CallbackPayload ps) =
     Inr (Consumed, NoEffect, enqueue_authorization q ps)"
| "admit_session_inbox_payload run st q (SubagentPayload e) =
     map_sum id (\<lambda>bound. (Consumed, if bound then ProxyEvent e else NoEffect, q))
       (is_event_of_running_child st e)"
| "admit_session_inbox_payload run st q v =
     (case decode_session_inbox_payload v of
        Inl err \<Rightarrow> Inr (Consumed, ReportDropped err, q)
      | Inr command \<Rightarrow>
          (case admit_command run q command of (admitted, q') \<Rightarrow> Inr (admitted, NoEffect, q')))"

text \<open>The end of \<open>applySessionCancellation\<close>; before it the tasks of the session are cancelled by a step
  when the command asks for it.\<close>

definition cancel_queued_task :: "cancel_command \<Rightarrow> input_queue \<Rightarrow> input_queue" where
  "cancel_queued_task c q = (case cancel_task_id c of None \<Rightarrow> q | Some t \<Rightarrow> cancel_task q t)"

section \<open>The wait (next-input.ts)\<close>

datatype next_instruction =
    WorkflowMessage json
  | AuthorizationResumed "deliver_payload list"
  | ControlTurn session_control
  | SessionClosed
  | CancelTurn
  | RunTurn delivery bool "nat list"

text \<open>The result of \<open>routeDeliverToChildren\<close>: a turn control, or what is left of the delivery.\<close>

datatype routed = RoutedCancel | RoutedOn "remainder option"

datatype owner_error =
    StepThrew
  | InboxThrew
  | ClaimThrew
  | CombineThrew coalesce_error
  | RegistryThrew registry_error
  | HandleThrew js_type_error

text \<open>
  Where the owner waits: for the routing of the task deliveries left, of the selected delivery, for the
  next payload (remembering whether the queue was empty), for the step of an admission, or for the
  cancellation of the tasks.
\<close>

datatype wait_phase =
    RoutingTasks "(nat \<times> delivery) list"
  | RoutingSelected delivery bool "nat list"
  | Reading bool
  | Admitting bool session_admission admission_effect
  | CancellingTasks cancel_command
  | Returned next_instruction
  | WaitFailed owner_error

record wait =
  wait_inbox :: inbox
  wait_queue :: input_queue
  wait_cursor :: cursor
  wait_fresh :: "nat option"
  wait_phase :: wait_phase

record wait_config =
  owner_run :: string
  defer_deliveries :: bool
  expected_attempts :: "string list"

text \<open>The entries of the Map of cohorts, where a later entry of a key replaces the value of an earlier.\<close>

definition session_cohorts :: "session_state option \<Rightarrow> registry_error + cohorts" where
  "session_cohorts st =
     map_sum id
       (foldl (\<lambda>m r. case Workflow_Runs.background_task r of
                       None \<Rightarrow> m
                     | Some t \<Rightarrow> AList.update (wt_id t) (get_task_cohort_id t) m) [])
       (get_background_workflow_tool_runs st)"

definition fail_wait :: "owner_error \<Rightarrow> wait \<Rightarrow> wait" where
  "fail_wait e w = w\<lparr>wait_phase := WaitFailed e\<rparr>"

definition select_next :: "wait_config \<Rightarrow> wait \<Rightarrow> wait" where
  "select_next cfg w =
     (case session_cohorts (durable_state (cursor_session (wait_cursor w))) of
        Inl e \<Rightarrow> fail_wait (RegistryThrew e) w
      | Inr cs \<Rightarrow>
          (case has_pending (wait_inbox w) of
             None \<Rightarrow> fail_wait InboxThrew w
           | Some pending \<Rightarrow>
               (case take_next (wait_queue w) cs (defer_deliveries cfg) (expected_attempts cfg)
                       (if pending then None else wait_fresh w) of
                  Inl e \<Rightarrow> fail_wait (CombineThrew e) w
                | Inr (None, q) \<Rightarrow> w\<lparr>wait_queue := q, wait_phase := Reading (pending_count q = 0)\<rparr>
                | Inr (Some (ControlSelection c), q) \<Rightarrow>
                    w\<lparr>wait_queue := q, wait_phase := Returned (ControlTurn c)\<rparr>
                | Inr (Some (AuthorizationResume ps), q) \<Rightarrow>
                    w\<lparr>wait_queue := q, wait_phase := Returned (AuthorizationResumed ps)\<rparr>
                | Inr (Some (TurnSelection d eligible ns), q) \<Rightarrow>
                    w\<lparr>wait_queue := q, wait_phase := RoutingSelected d eligible ns\<rparr>)))"

text \<open>The head of the outer loop.\<close>

fun entry_admission :: "queued_input \<Rightarrow> (nat \<times> delivery) list" where
  "entry_admission (QDelivery n d) = [(n, d)]"
| "entry_admission _ = []"

definition loop_head :: "wait_config \<Rightarrow> wait \<Rightarrow> wait" where
  "loop_head cfg w =
     (case concat (map entry_admission (task_deliveries (wait_queue w))) of
        [] \<Rightarrow> select_next cfg w
      | ds \<Rightarrow> w\<lparr>wait_phase := RoutingTasks ds\<rparr>)"

definition start_wait :: "wait_config \<Rightarrow> inbox \<Rightarrow> input_queue \<Rightarrow> cursor \<Rightarrow> wait" where
  "start_wait cfg ib q c =
     loop_head cfg \<lparr>wait_inbox = ib, wait_queue = q, wait_cursor = c, wait_fresh = None,
                    wait_phase = Reading False\<rparr>"

text \<open>The end of an iteration, after the admission has returned.\<close>

definition after_admission :: "wait_config \<Rightarrow> bool \<Rightarrow> session_admission \<Rightarrow> wait \<Rightarrow> wait" where
  "after_admission cfg was_idle admitted w0 =
     (let w = w0\<lparr>wait_fresh :=
                   (case admitted of AdmittedDelivery n \<Rightarrow> if was_idle then Some n else None | _ \<Rightarrow> None)\<rparr>
      in (case admitted of
            AdmittedWorkflow m \<Rightarrow> w\<lparr>wait_phase := Returned (WorkflowMessage m)\<rparr>
          | AdmittedCancel c \<Rightarrow>
              if cancel_tasks c then w\<lparr>wait_phase := CancellingTasks c\<rparr>
              else loop_head cfg (w\<lparr>wait_queue := cancel_queued_task c (wait_queue w)\<rparr>)
          | _ \<Rightarrow> loop_head cfg w))"

definition read_payload :: "wait_config \<Rightarrow> bool \<Rightarrow> wait \<Rightarrow> wait" where
  "read_payload cfg was_idle w =
     (case next_payload (wait_inbox w) of
        (ReadFailure, ib) \<Rightarrow> fail_wait InboxThrew w
      | (AllReleased, ib) \<Rightarrow> w\<lparr>wait_phase := Returned SessionClosed\<rparr>
      | (MustWait, ib) \<Rightarrow> w
      | (GotPayload v, ib) \<Rightarrow>
          (case admit_session_inbox_payload (owner_run cfg)
                  (durable_state (cursor_session (wait_cursor w))) (wait_queue w) v of
             Inl e \<Rightarrow> fail_wait (HandleThrew e) (w\<lparr>wait_inbox := ib\<rparr>)
           | Inr (admitted, effect, q) \<Rightarrow>
               (let w' = w\<lparr>wait_inbox := ib, wait_queue := q\<rparr> in
                if effect = NoEffect then after_admission cfg was_idle admitted w'
                else w'\<lparr>wait_phase := Admitting was_idle admitted effect\<rparr>)))"

text \<open>
  The inputs of the machine: calls of the engine on the inbox, a chance to look at the inbox again, the
  result of a routing or of another step with the transition it returns (and what happens while the
  hooks of the new state are claimed), and a step that throws.
\<close>

datatype wait_input =
    Engine inbox_call
  | Look
  | RoutingDone routed transition "inbox_call list"
  | StepDone transition "inbox_call list"
  | StepFailed

definition adopt :: "wait \<Rightarrow> transition \<Rightarrow> inbox_call list \<Rightarrow> bool \<times> wait" where
  "adopt w t calls =
     (case apply_transition (wait_inbox w) (wait_cursor w) t calls of
        (ok, c, ib) \<Rightarrow> (ok, w\<lparr>wait_cursor := c, wait_inbox := ib\<rparr>))"

definition tasks_routed ::
    "wait_config \<Rightarrow> wait \<Rightarrow> nat \<Rightarrow> delivery \<Rightarrow> (nat \<times> delivery) list \<Rightarrow> routed \<Rightarrow> wait" where
  "tasks_routed cfg w n d rest r =
     (case r of
        RoutedCancel \<Rightarrow>
          w\<lparr>wait_queue := replace_delivery (wait_queue w) n None, wait_phase := Returned CancelTurn\<rparr>
      | RoutedOn left_over \<Rightarrow>
          (let w' = w\<lparr>wait_queue := replace_delivery (wait_queue w) n (map_option (rerouted d) left_over)\<rparr>
           in if rest = [] then select_next cfg w' else w'\<lparr>wait_phase := RoutingTasks rest\<rparr>))"

definition selection_routed ::
    "wait_config \<Rightarrow> wait \<Rightarrow> delivery \<Rightarrow> bool \<Rightarrow> nat list \<Rightarrow> routed \<Rightarrow> wait" where
  "selection_routed cfg w d eligible ns r =
     (case r of
        RoutedCancel \<Rightarrow> w\<lparr>wait_phase := Returned CancelTurn\<rparr>
      | RoutedOn None \<Rightarrow> loop_head cfg w
      | RoutedOn (Some p) \<Rightarrow> w\<lparr>wait_phase := Returned (RunTurn (rerouted d p) eligible ns)\<rparr>)"

definition awaits_step :: "wait_phase \<Rightarrow> bool" where
  "awaits_step p \<longleftrightarrow> (case p of Reading b \<Rightarrow> False | Returned i \<Rightarrow> False | WaitFailed e \<Rightarrow> False | _ \<Rightarrow> True)"

definition wait_step :: "wait_config \<Rightarrow> wait \<Rightarrow> wait_input \<Rightarrow> wait" where
  "wait_step cfg w i =
     (case i of
        Engine call \<Rightarrow> (if environment_call call then w\<lparr>wait_inbox := inbox_step (wait_inbox w) call\<rparr> else w)
      | Look \<Rightarrow> (case wait_phase w of Reading was_idle \<Rightarrow> read_payload cfg was_idle w | _ \<Rightarrow> w)
      | RoutingDone r t calls \<Rightarrow>
          (case wait_phase w of
             RoutingTasks ((n, d) # rest) \<Rightarrow>
               (case adopt w t calls of
                  (False, w') \<Rightarrow> fail_wait ClaimThrew w'
                | (True, w') \<Rightarrow> tasks_routed cfg w' n d rest r)
           | RoutingSelected d eligible ns \<Rightarrow>
               (case adopt w t calls of
                  (False, w') \<Rightarrow> fail_wait ClaimThrew w'
                | (True, w') \<Rightarrow> selection_routed cfg w' d eligible ns r)
           | _ \<Rightarrow> w)
      | StepDone t calls \<Rightarrow>
          (case wait_phase w of
             Admitting was_idle admitted effect \<Rightarrow>
               (case effect of
                  ProxyEvent e \<Rightarrow>
                    (case adopt w t calls of
                       (False, w') \<Rightarrow> fail_wait ClaimThrew w'
                     | (True, w') \<Rightarrow> after_admission cfg was_idle admitted w')
                | _ \<Rightarrow> after_admission cfg was_idle admitted w)
           | CancellingTasks c \<Rightarrow>
               (case adopt w t calls of
                  (False, w') \<Rightarrow> fail_wait ClaimThrew w'
                | (True, w') \<Rightarrow> loop_head cfg (w'\<lparr>wait_queue := cancel_queued_task c (wait_queue w')\<rparr>))
           | _ \<Rightarrow> w)
      | StepFailed \<Rightarrow> (if awaits_step (wait_phase w) then fail_wait StepThrew w else w))"

section \<open>Facts of the queue\<close>

lemma delivery_at_member:
  assumes "queue_inv q" and "QDelivery n d \<in> set (entries q)"
  shows "delivery_at q n = Some d"
proof -
  have u: "distinct (map entry_sequence (entries q))"
    using assms(1) unfolding queue_inv_def strict_sorted_iff by blast
  obtain i where i: "i < length (entries q)" "entries q ! i = QDelivery n d"
    using assms(2) by (metis in_set_conv_nth)
  have none: "\<not> is_delivery_at n (entries q ! j)" if "j < i" for j
  proof
    assume "is_delivery_at n (entries q ! j)"
    then have "entry_sequence (entries q ! j) = entry_sequence (entries q ! i)"
      using i(2) by (cases "entries q ! j") simp_all
    with u i(1) that show False by (simp add: distinct_map inj_on_def) (metis less_trans nat_neq_iff nth_eq_iff_index_eq nth_mem)
  qed
  have "List.find (is_delivery_at n) (entries q) = Some (entries q ! i)"
    unfolding find_Some_iff
  proof (intro exI [of _ i] conjI allI impI)
    show "is_delivery_at n (entries q ! i)" by (simp add: i(2))
  qed (simp_all add: i(1) none)
  then show ?thesis by (simp add: delivery_at_def i(2))
qed

lemma queue_inv_reroute:
  "queue_inv q \<Longrightarrow> QDelivery n d \<in> set (entries q) \<Longrightarrow> queue_inv (replace_delivery q n (map_option (rerouted d) p))"
  using queue_inv_rewrite [of q n p] by (simp add: rewrite_delivery_def delivery_at_member)

lemma replace_delivery_facts [simp]:
  "next_sequence (replace_delivery q n d) = next_sequence q"
  "cancelled_task_ids (replace_delivery q n d) = cancelled_task_ids q"
  by (auto simp: replace_delivery_def split: option.split)

lemma replace_delivery_keeps:
  assumes "QDelivery m x \<in> set (entries q)" and "m \<noteq> n"
  shows "QDelivery m x \<in> set (entries (replace_delivery q n d))"
proof (cases "find_index (is_delivery_at n) (entries q)")
  case (Some i)
  then have i: "i < length (entries q)" "is_delivery_at n (entries q ! i)" by (auto simp: find_index_eq_Some_iff)
  with assms(2) have ne: "entries q ! i \<noteq> QDelivery m x" by auto
  show ?thesis
  proof (cases d)
    case None
    with Some i ne assms(1) show ?thesis
      by (simp add: replace_delivery_def) (metis insertE mset_like_remove_nth)
  next
    case (Some y)
    obtain j where "j < length (entries q)" "entries q ! j = QDelivery m x"
      using assms(1) by (auto simp: in_set_conv_nth)
    moreover from this ne have "i \<noteq> j" by auto
    ultimately have "(entries q)[i := QDelivery n y] ! j = QDelivery m x" by simp
    with \<open>j < length (entries q)\<close> have "QDelivery m x \<in> set ((entries q)[i := QDelivery n y])"
      by (metis length_list_update nth_mem)
    with Some \<open>find_index (is_delivery_at n) (entries q) = Some i\<close> show ?thesis by (simp add: replace_delivery_def)
  qed
qed (use assms(1) in \<open>simp add: replace_delivery_def\<close>)

lemma cancel_queued_task_inv: "queue_inv q \<Longrightarrow> queue_inv (cancel_queued_task c q)"
  by (simp add: cancel_queued_task_def queue_inv_cancel split: option.split)

lemma cancel_queued_task_next [simp]: "next_sequence (cancel_queued_task c q) = next_sequence q"
  by (simp add: cancel_queued_task_def cancel_task_def retain_def split: option.split)

lemma take_plain_turn_eligible:
  assumes "take_plain_turn q i cs fresh n d = Inr (TurnSelection x True ns, q')"
  shows "entries q' = [] \<and> (\<exists>k. ns = [k] \<and> fresh = Some k)"
  using assms
  by (auto simp: take_plain_turn_def turn_selection_def Let_def length_Suc_conv split: option.splits prod.splits sum.splits)

lemma take_selection_at_eligible:
  "take_selection_at q i cs fresh = Inr (TurnSelection x True ns, q')
   \<Longrightarrow> entries q' = [] \<and> (\<exists>k. ns = [k] \<and> fresh = Some k)"
proof (induction q i cs fresh rule: take_selection_at.induct)
  case (1 q i cs fresh)
  then show ?case
    by (simp add: take_selection_at.simps [of q i] split: queued_input.splits option.splits)
      (blast dest: take_plain_turn_eligible)+
qed

lemma take_next_eligible:
  "take_next q cs df expected fresh = Inr (Some (TurnSelection x True ns), q')
   \<Longrightarrow> entries q' = [] \<and> (\<exists>k. ns = [k] \<and> fresh = Some k)"
  by (auto simp: take_next_def Let_def split: if_splits option.splits sum.splits prod.splits
      dest: take_selection_at_eligible)

lemma take_next_selects:
  assumes "queue_inv q"
  obtains sel q' where "take_next q cs df expected fresh = Inr (sel, q')" "queue_inv q'"
    "next_sequence q' = next_sequence q" "set (entries q') \<subseteq> set (entries q)"
    "\<And>c. sel = Some (ControlSelection c) \<Longrightarrow> \<exists>n. QControl n c \<in> set (entries q)"
proof -
  from take_next_spec [OF assms, of cs df expected fresh] obtain sel q' taken where
    r: "take_next q cs df expected fresh = Inr (sel, q')"
    and t: "taken_from (filter (retained_authorization expected) (entries q)) taken (entries q')"
    and d: "delivers sel taken" and f: "same_facts q q'" by blast
  from taken_from_subset [OF t] have "set taken \<subseteq> set (entries q)" "set (entries q') \<subseteq> set (entries q)" by auto
  moreover have "\<exists>n. QControl n c \<in> set (entries q)" if "sel = Some (ControlSelection c)" for c
    using d that \<open>set taken \<subseteq> set (entries q)\<close> by auto
  moreover have "queue_inv q'" using queue_inv_take_next [OF assms r] by blast
  ultimately show thesis using that r f by (simp add: same_facts_def)
qed

section \<open>The invariant of a wait\<close>

text \<open>
  \<open>n0\<close> is the next sequence number when the wait began. A fresh sequence is that of the last delivery
  admitted; a turn that may move the session is that delivery, alone in the queue.
\<close>

definition last_alone :: "nat \<Rightarrow> nat list \<Rightarrow> input_queue \<Rightarrow> bool" where
  "last_alone n0 ns q \<longleftrightarrow> entries q = [] \<and> (\<exists>n. ns = [n] \<and> n0 \<le> n \<and> Suc n = next_sequence q)"

definition wait_base :: "nat \<Rightarrow> wait \<Rightarrow> bool" where
  "wait_base n0 w \<longleftrightarrow> queue_inv (wait_queue w) \<and> n0 \<le> next_sequence (wait_queue w)
     \<and> (\<forall>n. wait_fresh w = Some n \<longrightarrow> n0 \<le> n \<and> Suc n = next_sequence (wait_queue w))"

definition phase_ok :: "nat \<Rightarrow> input_queue \<Rightarrow> wait_phase \<Rightarrow> bool" where
  "phase_ok n0 q p \<longleftrightarrow>
     (case p of
        RoutingTasks ds \<Rightarrow> distinct (map fst ds) \<and> (\<forall>(n, d) \<in> set ds. QDelivery n d \<in> set (entries q))
      | RoutingSelected d eligible ns \<Rightarrow> eligible \<longrightarrow> last_alone n0 ns q
      | Admitting b admitted e \<Rightarrow> admitted = Consumed
      | Returned i \<Rightarrow> (\<forall>d ns. i = RunTurn d True ns \<longrightarrow> last_alone n0 ns q)
      | WaitFailed e \<Rightarrow> (\<forall>c. e \<noteq> CombineThrew c)
      | _ \<Rightarrow> True)"

definition wait_inv :: "nat \<Rightarrow> wait \<Rightarrow> bool" where
  "wait_inv n0 w \<longleftrightarrow> wait_base n0 w \<and> phase_ok n0 (wait_queue w) (wait_phase w)"

lemma wait_base_fields [simp]:
  "wait_base n0 (w\<lparr>wait_phase := p\<rparr>) = wait_base n0 w"
  "wait_base n0 (w\<lparr>wait_inbox := ib\<rparr>) = wait_base n0 w"
  "wait_base n0 (w\<lparr>wait_cursor := c\<rparr>) = wait_base n0 w"
  by (simp_all add: wait_base_def)

lemma phase_ok_simps [simp]:
  "phase_ok n0 q (RoutingTasks ds)
     \<longleftrightarrow> distinct (map fst ds) \<and> (\<forall>(n, d) \<in> set ds. QDelivery n d \<in> set (entries q))"
  "phase_ok n0 q (RoutingSelected d eligible ns) \<longleftrightarrow> (eligible \<longrightarrow> last_alone n0 ns q)"
  "phase_ok n0 q (Reading b)"
  "phase_ok n0 q (Admitting b adm e) \<longleftrightarrow> adm = Consumed"
  "phase_ok n0 q (CancellingTasks cmd)"
  "phase_ok n0 q (Returned i) \<longleftrightarrow> (\<forall>d ns. i = RunTurn d True ns \<longrightarrow> last_alone n0 ns q)"
  "phase_ok n0 q (WaitFailed err) \<longleftrightarrow> (\<forall>c. err \<noteq> CombineThrew c)"
  by (simp_all add: phase_ok_def)

lemma wait_inv_at [simp]:
  "wait_inv n0 (w\<lparr>wait_phase := p\<rparr>) \<longleftrightarrow> wait_base n0 w \<and> phase_ok n0 (wait_queue w) p"
  by (simp add: wait_inv_def)

lemma fail_wait_inv: "wait_base n0 w \<Longrightarrow> (\<And>c. e \<noteq> CombineThrew c) \<Longrightarrow> wait_inv n0 (fail_wait e w)"
  by (simp add: fail_wait_def)

lemma select_next_inv:
  assumes base: "wait_base n0 w"
  shows "wait_inv n0 (select_next cfg w)"
proof (cases "session_cohorts (durable_state (cursor_session (wait_cursor w)))")
  case (Inr cs)
  show ?thesis
  proof (cases "has_pending (wait_inbox w)")
    case (Some pending)
    let ?f = "if pending then None else wait_fresh w"
    obtain sel q where r: "take_next (wait_queue w) cs (defer_deliveries cfg) (expected_attempts cfg) ?f = Inr (sel, q)"
      and q: "queue_inv q" "next_sequence q = next_sequence (wait_queue w)"
      using take_next_selects base unfolding wait_base_def by metis
    have b: "wait_base n0 (w\<lparr>wait_queue := q\<rparr>)" using base q by (simp add: wait_base_def)
    have alone: "last_alone n0 ns q" if "sel = Some (TurnSelection d True ns)" for d ns
    proof -
      from take_next_eligible r that obtain k where k: "entries q = []" "ns = [k]" "?f = Some k" by blast
      then have "wait_fresh w = Some k" by (simp split: if_splits)
      with k q base show ?thesis by (simp add: last_alone_def wait_base_def)
    qed
    show ?thesis
    proof (cases sel)
      case None
      with r Inr Some b show ?thesis by (simp add: select_next_def)
    next
      case s: (Some x)
      with r Inr Some b alone show ?thesis
        by (cases x) (auto simp: select_next_def)
    qed
  qed (use base Inr in \<open>simp add: select_next_def fail_wait_inv\<close>)
qed (use base in \<open>simp add: select_next_def fail_wait_inv\<close>)

lemma entry_admission_member: "(n, d) \<in> set (concat (map entry_admission es)) \<longleftrightarrow> QDelivery n d \<in> set es"
proof (induction es)
  case (Cons e es)
  then show ?case by (cases e) auto
qed simp

lemma entry_admission_fst: "subseq (map fst (concat (map entry_admission es))) (map entry_sequence es)"
proof (induction es)
  case (Cons e es)
  then show ?case by (cases e) (auto intro: subseq_Cons')
qed simp

lemma loop_head_inv:
  assumes base: "wait_base n0 w"
  shows "wait_inv n0 (loop_head cfg w)"
proof (cases "concat (map entry_admission (task_deliveries (wait_queue w))) = []")
  case False
  define ds where "ds = concat (map entry_admission (task_deliveries (wait_queue w)))"
  have "subseq (map fst ds) (map entry_sequence (entries (wait_queue w)))"
    unfolding ds_def task_deliveries_def
    by (rule subseq_order.trans [OF entry_admission_fst subseq_map [OF subseq_filter_left]])
  then have "distinct (map fst ds)"
    using base subseq_distinct unfolding wait_base_def queue_inv_def strict_sorted_iff by blast
  moreover have "\<forall>(n, d) \<in> set ds. QDelivery n d \<in> set (entries (wait_queue w))"
    unfolding ds_def by (auto simp: entry_admission_member task_deliveries_def simp del: set_concat)
  moreover have "loop_head cfg w = w\<lparr>wait_phase := RoutingTasks ds\<rparr>"
    using False by (cases ds) (simp_all add: loop_head_def ds_def [symmetric] del: concat_eq_Nil_conv)
  ultimately show ?thesis using base by simp
next
  case True
  then have "loop_head cfg w = select_next cfg w" by (simp only: loop_head_def list.case)
  then show ?thesis by (simp add: select_next_inv base)
qed

text \<open>Where an admission leaves the queue.\<close>

lemma enqueue_authorization_next: "next_sequence q \<le> next_sequence (enqueue_authorization q ps)"
proof (induction q ps rule: enqueue_authorization.induct)
  case (2 q p ps)
  then show ?case by (auto split: option.split intro: Suc_leD)
qed simp

lemma admit_command_queue:
  assumes "queue_inv q" and "admit_command run q c = (adm, q')"
  shows "queue_inv q'" and "next_sequence q \<le> next_sequence q'"
    and "\<And>n. adm = AdmittedDelivery n \<Longrightarrow> next_sequence q \<le> n \<and> Suc n = next_sequence q'"
proof -
  have "queue_inv q' \<and> next_sequence q \<le> next_sequence q'
      \<and> (\<forall>n. adm = AdmittedDelivery n \<longrightarrow> next_sequence q \<le> n \<and> Suc n = next_sequence q')"
  proof (cases c)
    case (DecodedDelivery d)
    then have "q' = snd (enqueue_delivery q d)" using assms(2) by (auto split: prod.splits option.splits)
    with DecodedDelivery assms queue_inv_enqueue [of q d] show ?thesis
      by (auto simp: enqueue_delivery_def admit_def split: option.splits if_splits)
  qed (use assms queue_inv_control in \<open>auto simp: enqueue_control_def\<close>)
  then show "queue_inv q'" and "next_sequence q \<le> next_sequence q'"
    and "\<And>n. adm = AdmittedDelivery n \<Longrightarrow> next_sequence q \<le> n \<and> Suc n = next_sequence q'" by auto
qed

lemma admit_queue:
  assumes "queue_inv q" and "admit_session_inbox_payload run st q v = Inr (adm, eff, q')"
  shows "queue_inv q'" and "next_sequence q \<le> next_sequence q'"
    and "\<And>n. adm = AdmittedDelivery n \<Longrightarrow> next_sequence q \<le> n \<and> Suc n = next_sequence q'"
    and "eff \<noteq> NoEffect \<Longrightarrow> adm = Consumed \<and> q' = q"
proof -
  have "queue_inv q' \<and> next_sequence q \<le> next_sequence q'
      \<and> (\<forall>n. adm = AdmittedDelivery n \<longrightarrow> next_sequence q \<le> n \<and> Suc n = next_sequence q')
      \<and> (eff \<noteq> NoEffect \<longrightarrow> adm = Consumed \<and> q' = q)"
  proof (cases "decode_session_inbox_payload v")
    case (Inl err)
    with assms show ?thesis
      using queue_inv_authorize [OF assms(1)] enqueue_authorization_next [of q]
      by (cases v) (auto simp: map_sum_def split: sum.splits if_splits option.splits)
  next
    case (Inr command)
    then have "admit_session_inbox_payload run st q v =
        (case admit_command run q command of (a, q2) \<Rightarrow> Inr (a, NoEffect, q2))"
      by (cases v) auto
    with assms(2) have "admit_command run q command = (adm, q')" "eff = NoEffect"
      by (auto split: prod.splits)
    with admit_command_queue [OF assms(1)] show ?thesis by blast
  qed
  then show "queue_inv q'" and "next_sequence q \<le> next_sequence q'"
    and "\<And>n. adm = AdmittedDelivery n \<Longrightarrow> next_sequence q \<le> n \<and> Suc n = next_sequence q'"
    and "eff \<noteq> NoEffect \<Longrightarrow> adm = Consumed \<and> q' = q" by auto
qed

lemma after_admission_inv:
  assumes "queue_inv (wait_queue w)" and "n0 \<le> next_sequence (wait_queue w)"
    and "\<And>n. adm = AdmittedDelivery n \<Longrightarrow> n0 \<le> n \<and> Suc n = next_sequence (wait_queue w)"
  shows "wait_inv n0 (after_admission cfg b adm w)"
proof (cases adm)
  case (AdmittedCancel c)
  have "wait_base n0 (w\<lparr>wait_fresh := None\<rparr>)"
    using assms by (simp add: wait_base_def)
  moreover have "wait_base n0 (w\<lparr>wait_fresh := None, wait_queue := cancel_queued_task c (wait_queue w)\<rparr>)"
    using assms cancel_queued_task_inv by (simp add: wait_base_def)
  ultimately show ?thesis
    using AdmittedCancel loop_head_inv by (simp add: after_admission_def Let_def)
next
  case (AdmittedDelivery n)
  then have "wait_base n0 (w\<lparr>wait_fresh := if b then Some n else None\<rparr>)"
    using assms by (simp add: wait_base_def)
  with AdmittedDelivery loop_head_inv show ?thesis by (simp add: after_admission_def Let_def)
next
  case (AdmittedWorkflow m)
  with assms show ?thesis by (simp add: after_admission_def Let_def wait_base_def)
qed (use assms loop_head_inv in \<open>simp_all add: after_admission_def Let_def wait_base_def\<close>)

lemma read_payload_inv:
  assumes "wait_inv n0 w" and "wait_phase w = Reading b"
  shows "wait_inv n0 (read_payload cfg b w)"
proof -
  have base: "wait_base n0 w" using assms(1) by (simp add: wait_inv_def)
  then have q: "queue_inv (wait_queue w)" and n: "n0 \<le> next_sequence (wait_queue w)"
    by (simp_all add: wait_base_def)
  obtain r ib where r: "next_payload (wait_inbox w) = (r, ib)" by fastforce
  show ?thesis
  proof (cases r)
    case (GotPayload v)
    show ?thesis
    proof (cases "admit_session_inbox_payload (owner_run cfg) (durable_state (cursor_session (wait_cursor w)))
        (wait_queue w) v")
      case (Inl e)
      with r GotPayload base show ?thesis by (simp add: read_payload_def fail_wait_inv)
    next
      case (Inr x)
      then obtain adm eff q' where a: "admit_session_inbox_payload (owner_run cfg)
          (durable_state (cursor_session (wait_cursor w))) (wait_queue w) v = Inr (adm, eff, q')"
        by (cases x) auto
      note adm = admit_queue [OF q a]
      let ?w = "w\<lparr>wait_inbox := ib, wait_queue := q'\<rparr>"
      have "wait_inv n0 (after_admission cfg b adm ?w)"
      proof (rule after_admission_inv)
        show "n0 \<le> next_sequence (wait_queue ?w)" using n adm(2) by simp
        show "n0 \<le> k \<and> Suc k = next_sequence (wait_queue ?w)" if "adm = AdmittedDelivery k" for k
          using n adm(3) [OF that] by simp
      qed (simp add: adm(1))
      moreover have "wait_inv n0 (?w\<lparr>wait_phase := Admitting b adm eff\<rparr>)" if "eff \<noteq> NoEffect"
        using base adm(4) [OF that] by (simp add: wait_base_def)
      ultimately show ?thesis using r GotPayload a by (simp add: read_payload_def Let_def)
    qed
  qed (use r base assms in \<open>simp_all add: read_payload_def fail_wait_inv\<close>)
qed

lemma tasks_routed_inv:
  assumes "wait_base n0 w" and "phase_ok n0 (wait_queue w) (RoutingTasks ((n, d) # rest))"
  shows "wait_inv n0 (tasks_routed cfg w n d rest r)"
proof -
  have q: "queue_inv (wait_queue w)" "QDelivery n d \<in> set (entries (wait_queue w))"
    and rest: "n \<notin> fst ` set rest" "distinct (map fst rest)"
      "\<forall>(m, x) \<in> set rest. QDelivery m x \<in> set (entries (wait_queue w))"
    using assms by (auto simp: wait_base_def)
  have base: "wait_base n0 (w\<lparr>wait_queue := replace_delivery (wait_queue w) n (map_option (rerouted d) p)\<rparr>)" for p
    using assms(1) queue_inv_reroute [OF q] by (simp add: wait_base_def)
  have kept: "QDelivery m x \<in> set (entries (replace_delivery (wait_queue w) n y))" if "(m, x) \<in> set rest" for m x y
    using rest that by (intro replace_delivery_keeps) (auto simp: image_iff)
  show ?thesis
  proof (cases r)
    case RoutedCancel
    with base [of None] show ?thesis by (simp add: tasks_routed_def)
  next
    case (RoutedOn p)
    have "wait_inv n0 (w\<lparr>wait_queue := replace_delivery (wait_queue w) n (map_option (rerouted d) p),
        wait_phase := RoutingTasks rest\<rparr>)"
      using base [of p] rest(2) kept by auto
    with RoutedOn base select_next_inv show ?thesis by (simp add: tasks_routed_def Let_def)
  qed
qed

lemma selection_routed_inv:
  assumes "wait_base n0 w" and "phase_ok n0 (wait_queue w) (RoutingSelected d eligible ns)"
  shows "wait_inv n0 (selection_routed cfg w d eligible ns r)"
proof (cases r)
  case RoutedCancel
  with assms show ?thesis by (simp add: selection_routed_def)
next
  case (RoutedOn p)
  with assms loop_head_inv show ?thesis
    by (cases p) (auto simp: selection_routed_def)
qed

lemma adopt_queue:
  assumes "adopt w t calls = (ok, w')"
  shows "wait_queue w' = wait_queue w" and "wait_fresh w' = wait_fresh w" and "wait_phase w' = wait_phase w"
    and "wait_base n0 w' = wait_base n0 w"
  using assms by (auto simp: adopt_def wait_base_def split: prod.splits)

lemma wait_step_inv:
  assumes inv: "wait_inv n0 w"
  shows "wait_inv n0 (wait_step cfg w i)"
proof -
  have base: "wait_base n0 w" and ph: "phase_ok n0 (wait_queue w) (wait_phase w)"
    using inv by (simp_all add: wait_inv_def)
  show ?thesis
  proof (cases i)
    case (Engine call)
    with inv show ?thesis by (simp add: wait_step_def wait_inv_def)
  next
    case Look
    with inv read_payload_inv show ?thesis by (simp add: wait_step_def split: wait_phase.split)
  next
    case (RoutingDone r t calls)
    obtain ok w' where a: "adopt w t calls = (ok, w')" by fastforce
    note w' = adopt_queue [OF a]
    show ?thesis
    proof (cases "wait_phase w")
      case (RoutingTasks ds)
      show ?thesis
      proof (cases ds)
        case (Cons x rest)
        obtain n d where x: "x = (n, d)" by fastforce
        have "wait_inv n0 (tasks_routed cfg w' n d rest r)"
          using tasks_routed_inv [of n0 w' n d rest] base ph RoutingTasks Cons x w' by simp
        with RoutingDone RoutingTasks Cons x a base w' show ?thesis
          by (cases ok) (simp_all add: wait_step_def fail_wait_inv)
      qed (use inv RoutingDone RoutingTasks in \<open>simp add: wait_step_def\<close>)
    next
      case (RoutingSelected d eligible ns)
      have "wait_inv n0 (selection_routed cfg w' d eligible ns r)"
        using selection_routed_inv [of n0 w' d eligible ns] base ph RoutingSelected w' by simp
      with RoutingDone RoutingSelected a base w' show ?thesis
        by (cases ok) (simp_all add: wait_step_def fail_wait_inv)
    qed (use inv RoutingDone in \<open>simp_all add: wait_step_def\<close>)
  next
    case (StepDone t calls)
    obtain ok w' where a: "adopt w t calls = (ok, w')" by fastforce
    note w' = adopt_queue [OF a]
    show ?thesis
    proof (cases "wait_phase w")
      case (Admitting b adm eff)
      have adm: "adm = Consumed" using ph Admitting by simp
      have "wait_inv n0 (after_admission cfg b adm v)" if "wait_base n0 v" for v
        using that adm by (intro after_admission_inv) (simp_all add: wait_base_def)
      with StepDone Admitting a base w' show ?thesis
        by (cases ok; cases eff) (simp_all add: wait_step_def fail_wait_inv)
    next
      case (CancellingTasks c)
      have "wait_base n0 (w'\<lparr>wait_queue := cancel_queued_task c (wait_queue w')\<rparr>)"
        using base w' cancel_queued_task_inv by (simp add: wait_base_def)
      with StepDone CancellingTasks a base w' show ?thesis
        by (cases ok) (simp_all add: wait_step_def fail_wait_inv loop_head_inv)
    qed (use inv StepDone in \<open>simp_all add: wait_step_def\<close>)
  next
    case StepFailed
    with inv base show ?thesis by (simp add: wait_step_def fail_wait_inv)
  qed
qed

interpretation wait_machine: invariant_machine "wait_step cfg" "wait_inv n0" for cfg n0
  by unfold_locales (rule wait_step_inv)

lemma start_wait_inv: "queue_inv q \<Longrightarrow> wait_inv (next_sequence q) (start_wait cfg ib q c)"
  unfolding start_wait_def by (rule loop_head_inv) (simp add: wait_base_def)

section \<open>What may move the session\<close>

text \<open>
  The delivery admitted as \<open>n\<close> came to an idle owner: when the owner read it, waiting, nothing was queued.
\<close>

definition reads_idle :: "wait \<Rightarrow> nat \<Rightarrow> bool" where
  "reads_idle w n \<longleftrightarrow>
     (\<exists>b. wait_phase w = Reading b) \<and> entries (wait_queue w) = [] \<and> next_sequence (wait_queue w) = n
     \<and> (\<exists>v rest d. unread (wait_inbox w) = v # rest \<and> decode_session_inbox_payload v = Inr (DecodedDelivery d))"

definition arrived_idle :: "wait_config \<Rightarrow> wait \<Rightarrow> wait_input list \<Rightarrow> nat \<Rightarrow> bool" where
  "arrived_idle cfg w0 is n \<longleftrightarrow> (\<exists>pre post. is = pre @ Look # post \<and> reads_idle (foldl (wait_step cfg) w0 pre) n)"

text \<open>The owner reads with the flag of an idle owner exactly while its queue is empty.\<close>

definition idle_flag :: "wait \<Rightarrow> bool" where
  "idle_flag w \<longleftrightarrow> (\<forall>b. wait_phase w = Reading b \<longrightarrow> b = (entries (wait_queue w) = []))"

definition picked :: "wait \<Rightarrow> wait \<Rightarrow> bool" where
  "picked w w' \<longleftrightarrow> wait_inbox w' = wait_inbox w \<and> wait_fresh w' = wait_fresh w \<and> idle_flag w'
     \<and> (\<forall>d ns. wait_phase w' = RoutingSelected d True ns \<longrightarrow>
          unread (wait_inbox w) = [] \<and> (\<exists>n. ns = [n] \<and> wait_fresh w = Some n))
     \<and> (\<forall>d ns. wait_phase w' \<noteq> Returned (RunTurn d True ns))"

lemma picked_at:
  "idle_flag (w\<lparr>wait_phase := p\<rparr>) \<Longrightarrow> (\<forall>d ns. p \<noteq> RoutingSelected d True ns) \<Longrightarrow> (\<forall>d ns. p \<noteq> Returned (RunTurn d True ns))
   \<Longrightarrow> picked w (w\<lparr>wait_phase := p\<rparr>)"
  by (simp add: picked_def)

lemma fail_wait_picked: "picked w (fail_wait e w)"
  unfolding fail_wait_def by (rule picked_at) (simp_all add: idle_flag_def)

lemma select_next_picked: "picked w (select_next cfg w)"
proof (cases "session_cohorts (durable_state (cursor_session (wait_cursor w)))")
  case (Inr cs)
  show ?thesis
  proof (cases "has_pending (wait_inbox w)")
    case (Some pending)
    then have unread: "pending = (unread (wait_inbox w) \<noteq> [])" by (auto simp: has_pending_def split: if_splits)
    let ?t = "take_next (wait_queue w) cs (defer_deliveries cfg) (expected_attempts cfg) (if pending then None else wait_fresh w)"
    have alone: "unread (wait_inbox w) = [] \<and> (\<exists>n. ns = [n] \<and> wait_fresh w = Some n)"
      if "?t = Inr (Some (TurnSelection d True ns), q)" for d ns q
      using take_next_eligible [OF that] unread by (auto split: if_splits)
    show ?thesis
    proof (cases ?t)
      case (Inl e)
      with \<open>session_cohorts _ = _\<close> Some show ?thesis by (simp add: select_next_def fail_wait_picked)
    next
      case t: (Inr x)
      obtain sel q where x: "x = (sel, q)" by fastforce
      show ?thesis
        using Inr Some t x alone [of _ _ q]
        by (cases sel; cases "the sel")
          (auto simp: select_next_def picked_def idle_flag_def pending_count_def split: selection.splits)
    qed
  qed (use Inr in \<open>simp add: select_next_def fail_wait_picked\<close>)
qed (simp add: select_next_def fail_wait_picked)

lemma loop_head_picked: "picked w (loop_head cfg w)"
  using select_next_picked [of w cfg] picked_at [of "RoutingTasks _" w]
  by (auto simp: loop_head_def idle_flag_def split: list.split simp del: concat_eq_Nil_conv)

lemma after_admission_picked:
  "picked (w\<lparr>wait_fresh := (case adm of AdmittedDelivery n \<Rightarrow> if b then Some n else None | _ \<Rightarrow> None)\<rparr>)
     (after_admission cfg b adm w)"
proof (cases adm)
  case (AdmittedCancel c)
  have "picked (w\<lparr>wait_fresh := None\<rparr>) (loop_head cfg (w\<lparr>wait_fresh := None, wait_queue := q\<rparr>))" for q
    using loop_head_picked [of "w\<lparr>wait_fresh := None, wait_queue := q\<rparr>" cfg] by (simp add: picked_def)
  then show ?thesis
    using AdmittedCancel picked_at [of "CancellingTasks c" "w\<lparr>wait_fresh := None\<rparr>"]
    by (simp add: after_admission_def Let_def idle_flag_def)
next
  case (AdmittedWorkflow m)
  then show ?thesis
    using picked_at [of "Returned (WorkflowMessage m)" "w\<lparr>wait_fresh := None\<rparr>"]
    by (simp add: after_admission_def Let_def idle_flag_def)
qed (simp_all add: after_admission_def Let_def loop_head_picked)

text \<open>One step: what makes a sequence fresh, a selection movable, and a turn returned.\<close>

definition moves_soundly :: "wait \<Rightarrow> wait_input \<Rightarrow> wait \<Rightarrow> bool" where
  "moves_soundly w i w' \<longleftrightarrow> idle_flag w'
     \<and> (\<forall>n. wait_fresh w' = Some n \<longrightarrow> wait_fresh w = Some n \<or> i = Look \<and> reads_idle w n)
     \<and> (\<forall>d ns. wait_phase w' = RoutingSelected d True ns \<longrightarrow> wait_phase w = RoutingSelected d True ns
          \<or> unread (wait_inbox w') = [] \<and> (\<exists>n. ns = [n] \<and> wait_fresh w' = Some n))
     \<and> (\<forall>d ns. wait_phase w' = Returned (RunTurn d True ns) \<longrightarrow> wait_phase w = Returned (RunTurn d True ns)
          \<or> (\<exists>d'. wait_phase w = RoutingSelected d' True ns))"

lemma moves_picked:
  "picked v w' \<Longrightarrow> (\<And>n. wait_fresh v = Some n \<Longrightarrow> wait_fresh w = Some n \<or> i = Look \<and> reads_idle w n) \<Longrightarrow> moves_soundly w i w'"
  by (auto simp: picked_def moves_soundly_def)

lemma moves_same: "idle_flag w' \<Longrightarrow> wait_fresh w' = wait_fresh w \<Longrightarrow> wait_phase w' = wait_phase w \<Longrightarrow> moves_soundly w i w'"
  by (simp add: moves_soundly_def)

lemma admitted_delivery:
  assumes "admit_session_inbox_payload run st q v = Inr (AdmittedDelivery n, eff, q')"
  shows "n = next_sequence q \<and> (\<exists>d. decode_session_inbox_payload v = Inr (DecodedDelivery d))"
proof (cases "decode_session_inbox_payload v")
  case (Inl err)
  with assms show ?thesis by (cases v) (auto simp: map_sum_def split: sum.splits)
next
  case (Inr command)
  then have "admit_session_inbox_payload run st q v =
      (case admit_command run q command of (a, q2) \<Rightarrow> Inr (a, NoEffect, q2))"
    by (cases v) auto
  with assms Inr show ?thesis
    by (cases command) (auto simp: enqueue_delivery_def admit_def split: prod.splits option.splits if_splits)
qed

lemma read_payload_moves:
  assumes flag: "idle_flag w" and phase: "wait_phase w = Reading b"
  shows "moves_soundly w Look (read_payload cfg b w)"
proof -
  obtain r ib where r: "next_payload (wait_inbox w) = (r, ib)" by fastforce
  show ?thesis
  proof (cases r)
    case (GotPayload v)
    then have u: "unread (wait_inbox w) = v # unread ib"
      using r by (auto simp: next_payload_def split: if_splits list.splits)
    let ?admit = "admit_session_inbox_payload (owner_run cfg) (durable_state (cursor_session (wait_cursor w))) (wait_queue w) v"
    show ?thesis
    proof (cases ?admit)
      case (Inl e)
      with r GotPayload show ?thesis
        using moves_picked [OF fail_wait_picked [of "w\<lparr>wait_inbox := ib\<rparr>" "HandleThrew e"], of w Look]
        by (simp add: read_payload_def)
    next
      case (Inr x)
      obtain adm eff q' where x: "x = (adm, eff, q')" by (cases x)
      let ?w = "w\<lparr>wait_inbox := ib, wait_queue := q'\<rparr>"
      have fresh: "reads_idle w n" if "adm = AdmittedDelivery n" b for n
        using admitted_delivery [of _ _ _ v n eff q'] Inr x that u flag phase by (auto simp: reads_idle_def idle_flag_def)
      have "moves_soundly w Look (after_admission cfg b adm ?w)"
        by (rule moves_picked [OF after_admission_picked]) (use fresh in \<open>auto split: session_admission.splits if_splits\<close>)
      moreover have "moves_soundly w Look (?w\<lparr>wait_phase := Admitting b adm eff\<rparr>)"
        by (simp add: moves_soundly_def idle_flag_def)
      ultimately show ?thesis using r GotPayload Inr x by (simp add: read_payload_def Let_def)
    qed
  next
    case ReadFailure
    then show ?thesis
      using r moves_picked [OF fail_wait_picked [of w InboxThrew], of w Look] by (simp add: read_payload_def)
  next
    case AllReleased
    then show ?thesis using r by (simp add: read_payload_def moves_soundly_def idle_flag_def)
  next
    case MustWait
    then show ?thesis using r moves_same [OF flag] by (simp add: read_payload_def)
  qed
qed

lemma adopted_fields:
  assumes "adopt w t calls = (ok, w')"
  shows "wait_queue w' = wait_queue w" "wait_fresh w' = wait_fresh w" "wait_phase w' = wait_phase w"
  using assms by (auto simp: adopt_def split: prod.splits)

lemma moves_from:
  "picked v w' \<Longrightarrow> wait_fresh v = wait_fresh w \<or> wait_fresh v = None \<Longrightarrow> moves_soundly w i w'"
  by (erule moves_picked) auto

lemma tasks_routed_moves:
  assumes "wait_fresh w' = wait_fresh w"
  shows "moves_soundly w i (tasks_routed cfg w' n d rest r)"
  using assms moves_from [OF select_next_picked, of "w'\<lparr>wait_queue := _\<rparr>" w i]
  by (cases r) (simp_all add: tasks_routed_def Let_def moves_soundly_def idle_flag_def)

lemma selection_routed_moves:
  assumes "wait_fresh w' = wait_fresh w" "wait_phase w = RoutingSelected d eligible ns"
  shows "moves_soundly w i (selection_routed cfg w' d eligible ns r)"
  using assms moves_from [OF loop_head_picked, of w' w i]
  by (auto simp: selection_routed_def moves_soundly_def idle_flag_def split: routed.split option.split)

lemma wait_step_moves:
  assumes flag: "idle_flag w" and inv: "wait_inv n0 w"
  shows "moves_soundly w i (wait_step cfg w i)"
proof (cases i)
  case (Engine call)
  with flag show ?thesis by (simp add: wait_step_def moves_soundly_def idle_flag_def)
next
  case Look
  with read_payload_moves [OF flag] moves_same [OF flag] show ?thesis
    by (simp add: wait_step_def split: wait_phase.split)
next
  case (RoutingDone r t calls)
  obtain ok w' where a: "adopt w t calls = (ok, w')" by fastforce
  note w' = adopted_fields [OF a]
  have failed: "moves_soundly w i (fail_wait ClaimThrew w')"
    using moves_from [OF fail_wait_picked] w'(2) by blast
  show ?thesis
  proof (cases "wait_phase w")
    case (RoutingTasks ds)
    with RoutingDone a failed tasks_routed_moves [OF w'(2)] moves_same [OF flag, of w] show ?thesis
      by (cases ok; cases ds) (auto simp: wait_step_def)
  next
    case (RoutingSelected d eligible ns)
    with RoutingDone a failed selection_routed_moves [OF w'(2) RoutingSelected] show ?thesis
      by (cases ok) (simp_all add: wait_step_def)
  qed (use RoutingDone moves_same [OF flag, of w] in \<open>simp_all add: wait_step_def\<close>)
next
  case (StepDone t calls)
  obtain ok w' where a: "adopt w t calls = (ok, w')" by fastforce
  note w' = adopted_fields [OF a]
  have failed: "moves_soundly w i (fail_wait ClaimThrew w')"
    using moves_from [OF fail_wait_picked] w'(2) by blast
  show ?thesis
  proof (cases "wait_phase w")
    case (Admitting b adm eff)
    have "moves_soundly w i (after_admission cfg b adm v)" for v
      by (rule moves_from [OF after_admission_picked]) (use inv Admitting in \<open>simp add: wait_inv_def\<close>)
    with StepDone Admitting a failed show ?thesis
      by (cases ok; cases eff) (simp_all add: wait_step_def)
  next
    case (CancellingTasks c)
    with StepDone a failed w' moves_from [OF loop_head_picked, of "w'\<lparr>wait_queue := cancel_queued_task c (wait_queue w')\<rparr>" w i]
    show ?thesis by (cases ok) (simp_all add: wait_step_def)
  qed (use StepDone moves_same [OF flag, of w] in \<open>simp_all add: wait_step_def\<close>)
next
  case StepFailed
  with moves_from [OF fail_wait_picked, of w w] moves_same [OF flag, of w] show ?thesis by (simp add: wait_step_def)
qed

text \<open>Over a run: a movable turn is that of a fresh delivery, selected with nothing unread behind it.\<close>

definition chosen_alone :: "wait_config \<Rightarrow> wait \<Rightarrow> wait_input list \<Rightarrow> nat list \<Rightarrow> bool" where
  "chosen_alone cfg w0 is ns \<longleftrightarrow>
     (\<exists>n pre post d. ns = [n] \<and> is = pre @ post \<and> arrived_idle cfg w0 pre n
        \<and> wait_phase (foldl (wait_step cfg) w0 pre) = RoutingSelected d True ns
        \<and> unread (wait_inbox (foldl (wait_step cfg) w0 pre)) = [])"

lemma arrived_idle_snoc: "arrived_idle cfg w0 is n \<Longrightarrow> arrived_idle cfg w0 (is @ [i]) n"
  unfolding arrived_idle_def by (metis append.assoc append_Cons)

lemma chosen_alone_snoc: "chosen_alone cfg w0 is ns \<Longrightarrow> chosen_alone cfg w0 (is @ [i]) ns"
  unfolding chosen_alone_def by (metis append.assoc)

definition movable_soundly :: "wait_config \<Rightarrow> wait \<Rightarrow> wait_input list \<Rightarrow> wait \<Rightarrow> bool" where
  "movable_soundly cfg w0 is w \<longleftrightarrow> idle_flag w
     \<and> (\<forall>n. wait_fresh w = Some n \<longrightarrow> arrived_idle cfg w0 is n)
     \<and> (\<forall>d ns. wait_phase w = RoutingSelected d True ns \<or> wait_phase w = Returned (RunTurn d True ns)
          \<longrightarrow> chosen_alone cfg w0 is ns)"

lemma wait_run_movable:
  assumes "wait_inv n0 w0" "idle_flag w0" "wait_fresh w0 = None"
    and "\<And>d ns. wait_phase w0 \<noteq> RoutingSelected d True ns" "\<And>d ns. wait_phase w0 \<noteq> Returned (RunTurn d True ns)"
  shows "movable_soundly cfg w0 is (foldl (wait_step cfg) w0 is)"
proof (induction "is" rule: rev_induct)
  case Nil
  with assms show ?case by (simp add: movable_soundly_def)
next
  case (snoc i "is")
  let ?w = "foldl (wait_step cfg) w0 is" and ?w' = "foldl (wait_step cfg) w0 (is @ [i])"
  have inv: "wait_inv n0 ?w" by (rule wait_machine.run_inv [OF assms(1)])
  have m: "moves_soundly ?w i ?w'"
    using wait_step_moves [OF _ inv, of i cfg] snoc by (simp add: movable_soundly_def)
  have fresh: "arrived_idle cfg w0 (is @ [i]) n" if "wait_fresh ?w' = Some n" for n
  proof -
    from m that consider "wait_fresh ?w = Some n" | "i = Look" "reads_idle ?w n" by (auto simp: moves_soundly_def)
    then show ?thesis
    proof cases
      case 1
      with snoc show ?thesis by (intro arrived_idle_snoc) (simp add: movable_soundly_def)
    next
      case 2
      then show ?thesis unfolding arrived_idle_def by blast
    qed
  qed
  have selected: "chosen_alone cfg w0 (is @ [i]) ns" if p: "wait_phase ?w' = RoutingSelected d True ns" for d ns
  proof (cases "wait_phase ?w = RoutingSelected d True ns")
    case True
    with snoc show ?thesis by (intro chosen_alone_snoc) (auto simp: movable_soundly_def)
  next
    case False
    with m p obtain n where "unread (wait_inbox ?w') = []" "ns = [n]" "wait_fresh ?w' = Some n"
      unfolding moves_soundly_def by blast
    with fresh p show ?thesis unfolding chosen_alone_def by blast
  qed
  have returned: "chosen_alone cfg w0 (is @ [i]) ns" if p: "wait_phase ?w' = Returned (RunTurn d True ns)" for d ns
  proof -
    have "wait_phase ?w = Returned (RunTurn d True ns) \<or> (\<exists>d'. wait_phase ?w = RoutingSelected d' True ns)"
      using m p unfolding moves_soundly_def by blast
    with snoc have "chosen_alone cfg w0 is ns" unfolding movable_soundly_def by blast
    then show ?thesis by (rule chosen_alone_snoc)
  qed
  have "idle_flag ?w'" using m by (simp add: moves_soundly_def)
  with fresh selected returned show ?case unfolding movable_soundly_def by blast
qed

text \<open>C30: Whatever arrives while the owner is parked and whatever its steps return, the queue stays
  valid and choosing the next input never throws. A turn that may move the session to another
  deployment carries the delivery of one admission made by this very wait, the last one; when the owner
  read it nothing else was queued, when it was chosen nothing else had arrived, and the queue is left
  empty.\<close>

theorem parked_wait_is_safe:
  assumes "queue_inv q" and "w = foldl (wait_step cfg) (start_wait cfg ib q c) is"
  shows "queue_inv (wait_queue w) \<and> wait_phase w \<noteq> WaitFailed (CombineThrew e)
    \<and> (wait_phase w = Returned (RunTurn d True ns) \<longrightarrow>
         entries (wait_queue w) = []
         \<and> (\<exists>n. ns = [n] \<and> next_sequence q \<le> n \<and> Suc n = next_sequence (wait_queue w)
             \<and> (\<exists>before waited after d'. is = before @ Look # waited @ after
                  \<and> (let read = foldl (wait_step cfg) (start_wait cfg ib q c) before;
                         chosen = foldl (wait_step cfg) (start_wait cfg ib q c) (before @ Look # waited)
                     in entries (wait_queue read) = [] \<and> next_sequence (wait_queue read) = n
                        \<and> (\<exists>v rest d. unread (wait_inbox read) = v # rest
                             \<and> decode_session_inbox_payload v = Inr (DecodedDelivery d))
                        \<and> wait_phase chosen = RoutingSelected d' True [n] \<and> unread (wait_inbox chosen) = []))))"
proof -
  let ?w0 = "start_wait cfg ib q c"
  have inv0: "wait_inv (next_sequence q) ?w0" by (rule start_wait_inv [OF assms(1)])
  have "wait_inv (next_sequence q) w"
    unfolding assms(2) by (rule wait_machine.run_inv [OF inv0])
  then have safe: "queue_inv (wait_queue w) \<and> wait_phase w \<noteq> WaitFailed (CombineThrew e)
    \<and> (wait_phase w = Returned (RunTurn d True ns) \<longrightarrow>
         entries (wait_queue w) = []
         \<and> (\<exists>n. ns = [n] \<and> next_sequence q \<le> n \<and> Suc n = next_sequence (wait_queue w)))"
    by (auto simp: wait_inv_def wait_base_def last_alone_def)
  have "picked \<lparr>wait_inbox = ib, wait_queue = q, wait_cursor = c, wait_fresh = None, wait_phase = Reading False\<rparr> ?w0"
    unfolding start_wait_def by (rule loop_head_picked)
  then have "movable_soundly cfg ?w0 is w"
    unfolding assms(2) by (intro wait_run_movable [OF inv0]) (auto simp: picked_def)
  then have "chosen_alone cfg ?w0 is ns" if "wait_phase w = Returned (RunTurn d True ns)"
    using that by (auto simp: movable_soundly_def)
  with safe show ?thesis
    unfolding chosen_alone_def arrived_idle_def reads_idle_def Let_def by fastforce
qed

section \<open>Controls are asked for\<close>

fun control_payload :: "string \<Rightarrow> session_control \<Rightarrow> session_payload" where
  "control_payload run Clear = ClearPayload"
| "control_payload run Compact = CompactPayload"
| "control_payload run Expired = TimeoutPayload run"
| "control_payload run Reset = ResetPayload"

definition no_control :: "session_control \<Rightarrow> input_queue \<Rightarrow> bool" where
  "no_control k q \<longleftrightarrow> (\<forall>n. QControl n k \<notin> set (entries q))"

lemma no_control_replace [simp]:
  assumes "no_control k q"
  shows "no_control k (replace_delivery q n d)"
proof (cases "find_index (is_delivery_at n) (entries q)")
  case (Some i)
  have "QControl m k \<notin> set (remove_nth i (entries q))" "QControl m k \<notin> set ((entries q)[i := QDelivery n x])" for m x
    using assms set_remove_nth_subset [of i "entries q"] set_update_subset_insert [of "entries q" i "QDelivery n x"]
    by (auto simp: no_control_def)
  with Some show ?thesis by (simp add: no_control_def replace_delivery_def split: option.split)
qed (use assms in \<open>simp add: replace_delivery_def\<close>)

lemma no_control_cancel [simp]: "no_control k q \<Longrightarrow> no_control k (cancel_queued_task c q)"
  by (auto simp: no_control_def cancel_queued_task_def cancel_task_def retain_def split: option.split)

lemma no_control_authorization: "no_control k q \<Longrightarrow> no_control k (enqueue_authorization q ps)"
  by (induction q ps rule: enqueue_authorization.induct) (auto simp: no_control_def split: option.split)

lemma no_control_delivery: "no_control k q \<Longrightarrow> no_control k (snd (enqueue_delivery q d))"
  by (auto simp: no_control_def enqueue_delivery_def admit_def split: option.splits)

lemma no_control_enqueue: "no_control k (enqueue_control q j) \<longleftrightarrow> no_control k q \<and> j \<noteq> k"
  by (auto simp: no_control_def enqueue_control_def)

lemma decoded_control:
  "decode_session_inbox_payload v = Inr DecodedClear \<longleftrightarrow> v = ClearPayload"
  "decode_session_inbox_payload v = Inr DecodedCompact \<longleftrightarrow> v = CompactPayload"
  "decode_session_inbox_payload v = Inr DecodedReset \<longleftrightarrow> v = ResetPayload"
  "decode_session_inbox_payload v = Inr (DecodedTimeout r) \<longleftrightarrow> v = TimeoutPayload r"
  by (cases v; auto split: option.splits)+

lemma no_control_command:
  assumes "no_control k q" and "decode_session_inbox_payload v = Inr command" and "v \<noteq> control_payload run k"
    and "admit_command run q command = (adm, q')"
  shows "no_control k q'"
proof (cases command)
  case (DecodedDelivery d)
  then have "q' = snd (enqueue_delivery q d)" using assms(4) by (auto split: prod.splits option.splits)
  with no_control_delivery [OF assms(1)] show ?thesis by simp
qed (use assms in \<open>cases k; auto simp: no_control_enqueue decoded_control split: if_splits\<close>)+

lemma no_control_admit:
  assumes "no_control k q" and "v \<noteq> control_payload run k"
    and "admit_session_inbox_payload run st q v = Inr (adm, eff, q')"
  shows "no_control k q'"
proof (cases "decode_session_inbox_payload v")
  case (Inl err)
  with assms no_control_authorization show ?thesis
    by (cases v) (auto simp: map_sum_def split: sum.splits option.splits)
next
  case (Inr command)
  then have "admit_session_inbox_payload run st q v =
      (case admit_command run q command of (a, q2) \<Rightarrow> Inr (a, NoEffect, q2))"
    by (cases v) auto
  with assms(3) no_control_command [OF assms(1) Inr assms(2)] show ?thesis by (auto split: prod.splits)
qed

text \<open>What the inputs of the machine can bring.\<close>

fun pumps :: "session_payload \<Rightarrow> inbox_call \<Rightarrow> bool" where
  "pumps v (Pumped n w) = (w = v)"
| "pumps v _ = False"

fun brings :: "session_payload \<Rightarrow> wait_input \<Rightarrow> bool" where
  "brings v (Engine call) = pumps v call"
| "brings v (RoutingDone r t calls) = list_ex (pumps v) calls"
| "brings v (StepDone t calls) = list_ex (pumps v) calls"
| "brings v _ = False"

lemma inbox_step_unread:
  "environment_call call \<Longrightarrow> \<not> pumps v call \<Longrightarrow> v \<notin> set (unread ib) \<Longrightarrow> v \<notin> set (unread (inbox_step ib call))"
  by (cases call) (auto simp: inbox_call_defs split: option.splits)

lemma environment_run_unread:
  "\<not> list_ex (pumps v) calls \<Longrightarrow> v \<notin> set (unread ib) \<Longrightarrow> v \<notin> set (unread (environment_run ib calls))"
  by (induction calls arbitrary: ib) (simp_all add: environment_run_def inbox_step_unread)

lemma adopt_unread:
  assumes "adopt w t calls = (ok, w')" and "\<not> list_ex (pumps v) calls" and "v \<notin> set (unread (wait_inbox w))"
  shows "v \<notin> set (unread (wait_inbox w'))"
proof -
  have "v \<notin> set (unread (snd (claim_session_hooks (wait_inbox w) ts calls)))" for ts
    using environment_run_unread [OF assms(2)] assms(3)
    by (simp add: claim_session_hooks_def Let_def case_prod_beta)
  with assms(1) show ?thesis
    by (auto simp: adopt_def apply_transition_def Let_def split: prod.splits) (metis snd_conv)
qed

definition not_asked :: "session_control \<Rightarrow> string \<Rightarrow> wait \<Rightarrow> bool" where
  "not_asked k run w \<longleftrightarrow> queue_inv (wait_queue w) \<and> no_control k (wait_queue w)
     \<and> control_payload run k \<notin> set (unread (wait_inbox w)) \<and> wait_phase w \<noteq> Returned (ControlTurn k)"

lemma select_next_not_asked:
  assumes "not_asked k run w"
  shows "not_asked k run (select_next cfg w)"
proof (cases "session_cohorts (durable_state (cursor_session (wait_cursor w)))")
  case (Inr cs)
  show ?thesis
  proof (cases "has_pending (wait_inbox w)")
    case (Some pending)
    let ?f = "if pending then None else wait_fresh w"
    have inv: "queue_inv (wait_queue w)" using assms by (simp add: not_asked_def)
    obtain sel q where r: "take_next (wait_queue w) cs (defer_deliveries cfg) (expected_attempts cfg) ?f = Inr (sel, q)"
      and q: "queue_inv q" "set (entries q) \<subseteq> set (entries (wait_queue w))"
      and c: "\<And>j. sel = Some (ControlSelection j) \<Longrightarrow> \<exists>n. QControl n j \<in> set (entries (wait_queue w))"
      by (rule take_next_selects [OF inv, of cs "defer_deliveries cfg" "expected_attempts cfg" ?f]) blast
    have "no_control k q" "sel \<noteq> Some (ControlSelection k)"
      using assms q(2) c by (auto simp: not_asked_def no_control_def)
    with assms r Inr Some q(1) show ?thesis
      by (auto simp: select_next_def not_asked_def split: option.split selection.split)
  qed (use assms Inr in \<open>simp add: select_next_def fail_wait_def not_asked_def\<close>)
qed (use assms in \<open>simp add: select_next_def fail_wait_def not_asked_def\<close>)

lemma not_asked_fields [simp]:
  "not_asked k run (w\<lparr>wait_fresh := f\<rparr>) = not_asked k run w"
  "not_asked k run (w\<lparr>wait_cursor := c\<rparr>) = not_asked k run w"
  by (simp_all add: not_asked_def)

lemma not_asked_at [simp]:
  "not_asked k run w \<Longrightarrow> p \<noteq> Returned (ControlTurn k) \<Longrightarrow> not_asked k run (w\<lparr>wait_phase := p\<rparr>)"
  "not_asked k run w \<Longrightarrow> not_asked k run (fail_wait e w)"
  by (simp_all add: not_asked_def fail_wait_def)

lemma not_asked_queue:
  "not_asked k run w \<Longrightarrow> queue_inv q \<Longrightarrow> no_control k q \<Longrightarrow> not_asked k run (w\<lparr>wait_queue := q\<rparr>)"
  by (simp add: not_asked_def)

lemma loop_head_not_asked: "not_asked k run w \<Longrightarrow> not_asked k run (loop_head cfg w)"
  by (simp add: loop_head_def select_next_not_asked split: list.split del: concat_eq_Nil_conv)

lemma after_admission_not_asked:
  assumes "not_asked k run w"
  shows "not_asked k run (after_admission cfg b adm w)"
proof -
  have cancelled: "not_asked k run (v\<lparr>wait_queue := cancel_queued_task c (wait_queue v)\<rparr>)" if "not_asked k run v" for c v
    using that by (intro not_asked_queue) (simp_all add: not_asked_def cancel_queued_task_inv)
  show ?thesis
    using assms loop_head_not_asked cancelled [of "w\<lparr>wait_fresh := None\<rparr>"]
    by (cases adm) (simp_all add: after_admission_def Let_def)
qed

lemma read_payload_not_asked:
  assumes "not_asked k (owner_run cfg) w"
  shows "not_asked k (owner_run cfg) (read_payload cfg b w)"
proof -
  obtain r ib where r: "next_payload (wait_inbox w) = (r, ib)" by fastforce
  show ?thesis
  proof (cases r)
    case (GotPayload v)
    then have u: "unread (wait_inbox w) = v # unread ib"
      using r by (auto simp: next_payload_def split: if_splits list.splits)
    have w1: "not_asked k (owner_run cfg) (w\<lparr>wait_inbox := ib\<rparr>)"
      using assms u by (simp add: not_asked_def)
    have v: "v \<noteq> control_payload (owner_run cfg) k" using assms u by (auto simp: not_asked_def)
    show ?thesis
    proof (cases "admit_session_inbox_payload (owner_run cfg) (durable_state (cursor_session (wait_cursor w)))
        (wait_queue w) v")
      case (Inr x)
      then obtain adm eff q' where a: "admit_session_inbox_payload (owner_run cfg)
          (durable_state (cursor_session (wait_cursor w))) (wait_queue w) v = Inr (adm, eff, q')"
        by (cases x) auto
      have "not_asked k (owner_run cfg) (w\<lparr>wait_inbox := ib, wait_queue := q'\<rparr>)"
        using not_asked_queue [OF w1] admit_queue(1) [OF _ a] no_control_admit [OF _ v a] assms
        by (simp add: not_asked_def)
      with r GotPayload a after_admission_not_asked show ?thesis
        by (simp add: read_payload_def Let_def)
    qed (use r GotPayload w1 in \<open>simp add: read_payload_def\<close>)
  qed (use r assms in \<open>simp_all add: read_payload_def\<close>)
qed

lemma tasks_routed_not_asked:
  assumes "not_asked k run w" and "QDelivery n d \<in> set (entries (wait_queue w))"
  shows "not_asked k run (tasks_routed cfg w n d rest r)"
proof -
  have "not_asked k run (w\<lparr>wait_queue := replace_delivery (wait_queue w) n (map_option (rerouted d) p)\<rparr>)" for p
    using assms queue_inv_reroute [OF _ assms(2)] by (intro not_asked_queue) (simp_all add: not_asked_def)
  from this [of None] this select_next_not_asked show ?thesis
    by (cases r) (simp_all add: tasks_routed_def Let_def)
qed

lemma wait_step_not_asked:
  assumes na: "not_asked k (owner_run cfg) w" and inv: "wait_inv n0 w"
    and new: "\<not> brings (control_payload (owner_run cfg) k) i"
  shows "not_asked k (owner_run cfg) (wait_step cfg w i)"
proof (cases i)
  case (Engine call)
  with na new inbox_step_unread show ?thesis by (simp add: wait_step_def not_asked_def)
next
  case Look
  with na read_payload_not_asked show ?thesis by (simp add: wait_step_def split: wait_phase.split)
next
  case (RoutingDone r t calls)
  obtain ok w' where a: "adopt w t calls = (ok, w')" by fastforce
  have w': "not_asked k (owner_run cfg) w'"
    using na adopt_unread [OF a] new RoutingDone adopt_queue [OF a] by (simp add: not_asked_def)
  show ?thesis
  proof (cases "wait_phase w")
    case (RoutingTasks ds)
    show ?thesis
    proof (cases ds)
      case (Cons x rest)
      obtain n d where x: "x = (n, d)" by fastforce
      have "QDelivery n d \<in> set (entries (wait_queue w'))"
        using inv RoutingTasks Cons x adopt_queue(1) [OF a] by (simp add: wait_inv_def)
      with tasks_routed_not_asked [OF w'] RoutingDone RoutingTasks Cons x a w' show ?thesis
        by (cases ok) (simp_all add: wait_step_def)
    qed (use na RoutingDone RoutingTasks in \<open>simp add: wait_step_def\<close>)
  next
    case (RoutingSelected d eligible ns)
    have "not_asked k (owner_run cfg) (selection_routed cfg w' d eligible ns r)"
      using w' loop_head_not_asked by (simp add: selection_routed_def split: routed.split option.split)
    with RoutingDone RoutingSelected a w' show ?thesis by (cases ok) (simp_all add: wait_step_def)
  qed (use na RoutingDone in \<open>simp_all add: wait_step_def\<close>)
next
  case (StepDone t calls)
  obtain ok w' where a: "adopt w t calls = (ok, w')" by fastforce
  have w': "not_asked k (owner_run cfg) w'"
    using na adopt_unread [OF a] new StepDone adopt_queue [OF a] by (simp add: not_asked_def)
  then have "not_asked k (owner_run cfg) (w'\<lparr>wait_queue := cancel_queued_task c (wait_queue w')\<rparr>)" for c
    by (intro not_asked_queue) (simp_all add: not_asked_def cancel_queued_task_inv)
  with StepDone a w' na after_admission_not_asked loop_head_not_asked show ?thesis
    by (cases ok) (simp_all add: wait_step_def split: wait_phase.split admission_effect.split)
next
  case StepFailed
  with na show ?thesis by (simp add: wait_step_def)
qed

lemma wait_run_not_asked:
  "not_asked k (owner_run cfg) w \<Longrightarrow> wait_inv n0 w \<Longrightarrow>
   \<forall>i \<in> set is. \<not> brings (control_payload (owner_run cfg) k) i \<Longrightarrow>
   not_asked k (owner_run cfg) (foldl (wait_step cfg) w is)"
proof (induction "is" arbitrary: w)
  case (Cons i "is")
  then have "not_asked k (owner_run cfg) (wait_step cfg w i)" by (intro wait_step_not_asked) simp_all
  with Cons show ?case by (simp add: wait_step_inv)
qed simp

text \<open>A parked owner acts on a control (clear, compact, reset, the end of the session) only when it
  was already queued or the payload that asks for it has reached the inbox. The end of the
  session is asked for by the timer of this very owner: the deadline of an earlier owner never
  ends it.\<close>

lemma controls_are_asked_for:
  assumes "queue_inv q" and "wait_phase (foldl (wait_step cfg) (start_wait cfg ib q c) is) = Returned (ControlTurn k)"
  shows "(\<exists>n. QControl n k \<in> set (entries q)) \<or> control_payload (owner_run cfg) k \<in> set (unread ib)
     \<or> (\<exists>i \<in> set is. brings (control_payload (owner_run cfg) k) i)"
proof (rule ccontr)
  let ?w0 = "start_wait cfg ib q c"
  assume not: "\<not> ?thesis"
  have "not_asked k (owner_run cfg) ?w0"
    unfolding start_wait_def using assms(1) not
    by (intro loop_head_not_asked) (simp add: not_asked_def no_control_def)
  moreover have "wait_inv (next_sequence q) ?w0" by (rule start_wait_inv [OF assms(1)])
  moreover have "\<forall>i \<in> set is. \<not> brings (control_payload (owner_run cfg) k) i" using not by blast
  ultimately have "not_asked k (owner_run cfg) (foldl (wait_step cfg) ?w0 is)"
    by (rule wait_run_not_asked)
  with assms(2) show False by (simp add: not_asked_def)
qed

section \<open>A wait that returns\<close>

definition sample_config :: wait_config where
  "sample_config = \<lparr>owner_run = ''run'', defer_deliveries = False, expected_attempts = []\<rparr>"

definition no_transition :: transition where
  "no_transition = \<lparr>new_context = None, new_session = None\<rparr>"

definition idle_arrival :: "wait_input list" where
  "idle_arrival = [Look, Engine (Pumped 0 (DeliverPayload (Some sample_delivery))), Look,
     RoutingDone (RoutedOn (Some ([], None))) no_transition []]"

lemma idle_arrival_returns:
  "wait_phase (foldl (wait_step sample_config) (start_wait sample_config sample_inbox empty_queue sample_cursor) idle_arrival)
     = Returned (RunTurn (rerouted sample_delivery ([], None)) True [0])"
  by code_simp

theorem parked_wait_is_safe_witness:
  "entries (wait_queue (foldl (wait_step sample_config)
     (start_wait sample_config sample_inbox empty_queue sample_cursor) idle_arrival)) = []"
  using parked_wait_is_safe [OF queue_inv_empty refl, of sample_config sample_inbox sample_cursor idle_arrival
      EmptyBatch "rerouted sample_delivery ([], None)" "[0]"] idle_arrival_returns
  by simp

definition expiry :: "wait_input list" where
  "expiry = [Engine (Pumped 0 (TimeoutPayload ''earlier'')), Look,
     Engine (Pumped 0 (TimeoutPayload ''run'')), Look]"

lemma expiry_returns:
  "wait_phase (foldl (wait_step sample_config) (start_wait sample_config sample_inbox empty_queue sample_cursor) expiry)
     = Returned (ControlTurn Expired)"
  by code_simp

theorem controls_are_asked_for_witness:
  "(\<exists>n. QControl n Expired \<in> set (entries empty_queue)) \<or> TimeoutPayload ''run'' \<in> set (unread sample_inbox)
     \<or> (\<exists>i \<in> set expiry. brings (TimeoutPayload ''run'') i)"
  using controls_are_asked_for [OF queue_inv_empty expiry_returns]
  by (simp add: sample_config_def)

end
