(* ===== verification/Session_Turn.thy ===== *)
theory Session_Turn
  imports Session_Wait
begin

text \<open>
  The execution of one turn inside the session owner (packages/eve/src/execution/session/turn.ts): the
  loop over turn steps, the admission of the inbox at committed boundaries, the wait for the results of
  runtime actions (with runtime/actions/results.ts), and the cancellation and steering of the active
  turn. Between two awaits the owner runs without interruption; a pump of the inbox can bring a payload
  at every await, and the handlers of the turn see it at once. What an awaited step returns is an
  input, as are the clock and the settling of the hooks a new state claims.
\<close>

section \<open>Steps and outcomes (turn-step-types.ts)\<close>

record runtime_input =
  accepted_at :: "(string \<times> nat option) list"
  input_results :: "runtime_result list"

record step_payload =
  step_control :: "session_control option"
  step_delivery :: "delivery option"
  step_results :: "runtime_input option"

text \<open>What a finished turn leaves to its caller and its session; output and usage are JSON.\<close>

record done_result =
  done_output :: "json option"
  done_is_error :: "bool option"
  done_usage :: "json option"
  done_usage_delta :: "json option"

record settled_turn =
  settled_output :: json
  settled_is_error :: "bool option"
  settled_usage :: "json option"

record park_result =
  park_attempts :: "string list option"
  park_authorization :: bool
  park_input_batch :: bool
  park_calls :: "string list option"
  park_settled :: "settled_turn option"

datatype step_action =
    ContinueAction
  | DoneAction done_result
  | CancelledAction
  | SteeredAction
  | ParkAction park_result

record step_result =
  result_action :: step_action
  result_context :: serialized_context
  result_session :: durable_session
  task_context :: "serialized_context option"
  task_session :: "durable_session option"
  background_tasks :: "json list"

datatype turn_outcome =
    DoneTurn done_result
  | ParkTurn (outcome_attempts: "string list option") (outcome_cancelled: bool) (outcome_settled: "settled_turn option")

section \<open>Results of runtime actions (runtime/actions/results.ts)\<close>

text \<open>The Map keeps the last result of a call.\<close>

definition last_result :: "runtime_result list \<Rightarrow> string \<Rightarrow> runtime_result option" where
  "last_result results call = List.find (\<lambda>r. runtime_call r = call) (rev results)"

fun resolve_runtime_action_results :: "string list \<Rightarrow> runtime_result list \<Rightarrow> runtime_result list option" where
  "resolve_runtime_action_results [] results = Some []"
| "resolve_runtime_action_results (call # calls) results =
     (case last_result results call of
        None \<Rightarrow> None
      | Some r \<Rightarrow> map_option (Cons r) (resolve_runtime_action_results calls results))"

datatype admission_failure = RunsUnreadable registry_error | HandlesUnreadable js_type_error

text \<open>Which results of an inbox payload the owner accepts: of recorded workflow tool runs and of running children.\<close>

fun accepts_result :: "session_state option \<Rightarrow> runtime_result \<Rightarrow> admission_failure + bool" where
  "accepts_result st (ToolActionResult call tool body) =
     map_sum RunsUnreadable id (is_inbox_tool_result_from_recorded_workflow_tool_run st call tool)"
| "accepts_result st (ChildResult call body) =
     map_sum HandlesUnreadable id (is_inbox_subagent_result_from_running_handle st call)"
| "accepts_result st (DispatchFailure call body) = Inr False"
| "accepts_result st (SkillResult call body) = Inr False"

fun accepted_results :: "session_state option \<Rightarrow> runtime_result list \<Rightarrow> admission_failure + runtime_result list" where
  "accepted_results st [] = Inr []"
| "accepted_results st (r # rs) =
     and_then (accepts_result st r)
       (\<lambda>b. map_sum id (\<lambda>xs. if b then r # xs else xs) (accepted_results st rs))"

section \<open>The state of a turn\<close>

datatype runtime_event = ResultsEvent "runtime_result list" | WorkflowEvent json

text \<open>A wait for runtime actions: the calls, the results so far and the time each was accepted.\<close>

record runtime_wait =
  awaited_calls :: "string list"
  awaited_results :: "runtime_result list"
  accepted_times :: "(string \<times> nat) list"

text \<open>Where an admission returns to: the rest of a boundary, or the wait it interrupts.\<close>

datatype admit_return = ToBoundary step_result "session_payload list" | ToWait runtime_wait

text \<open>What follows the adoption of a new state.\<close>

datatype continuation =
    AfterTasks step_result
  | AfterStep step_result
  | AfterDispatch runtime_wait
  | AfterEffect session_payload session_admission admit_return
  | AfterCancelTasks cancel_command admit_return
  | AfterChild routed nat delivery "nat list" runtime_wait
  | AfterSteering routed delivery "delivery list" "runtime_input option"

datatype turn_error =
    CallThrew
  | InboxBroken
  | InboxClosed
  | HooksRefused
  | MissingTaskState
  | TaskModeWaits
  | Uncombinable coalesce_error
  | ResultsUnreadable admission_failure
  | ChildUnreadable js_type_error

datatype turn_phase =
    Stepping serialized_context
  | Claiming cursor bool continuation
  | Acknowledging step_result
  | AdmitEffect session_payload session_admission admission_effect admit_return
  | CancellingTurnTasks cancel_command admit_return
  | Dispatching "string list"
  | AwaitingEvent runtime_wait
  | RoutingChild nat delivery "nat list" runtime_wait
  | is_HandlingMessage: HandlingMessage runtime_wait
  | RoutingSteering delivery "delivery list" "runtime_input option"
  | CancellingDescendants
  | TurnEnded turn_outcome
  | TurnFailed turn_error

record turn =
  turn_inbox :: inbox
  turn_queue :: input_queue
  turn_cursor :: cursor
  turn_admitted :: "nat list"
  turn_routed :: "nat list"
  turn_events :: "runtime_event list"
  turn_aborted :: bool
  steering_aborted :: bool
  expected_turn :: string
  turn_caller_call :: "string option"
  turn_clock :: nat
  turn_phase :: turn_phase
  turn_given :: "step_payload option list"

record turn_config =
  turn_run :: string
  task_mode :: bool
  can_request_input :: bool

abbreviation turn_state :: "turn \<Rightarrow> session_state option" where
  "turn_state s \<equiv> durable_state (cursor_session (turn_cursor s))"

definition fail_turn :: "turn_error \<Rightarrow> turn \<Rightarrow> turn" where
  "fail_turn e s = s\<lparr>turn_phase := TurnFailed e, turn_inbox := off_delivery (off_interrupt (turn_inbox s) 0) 0\<rparr>"

definition conclude_turn :: "turn_outcome \<Rightarrow> turn \<Rightarrow> turn" where
  "conclude_turn out s = s\<lparr>turn_phase := TurnEnded out, turn_inbox := off_delivery (off_interrupt (turn_inbox s) 0) 0\<rparr>"

section \<open>Cancellation and steering signals (ActiveTurn)\<close>

fun cancels_turn :: "string \<Rightarrow> session_payload \<Rightarrow> bool" where
  "cancels_turn expected ResetPayload = True"
| "cancels_turn expected (CancelPayload c) = (cancel_turn_id c = None \<or> cancel_turn_id c = Some expected)"
| "cancels_turn expected _ = False"

definition is_plain_message :: "deliver_payload \<Rightarrow> bool" where
  "is_plain_message p \<longleftrightarrow> map_of (payload_fields p) ''message'' \<noteq> None
     \<and> map_of (payload_fields p) ''inputResponses'' = None \<and> payload_task p = None"

definition steers_turn :: "string option \<Rightarrow> durable_session \<Rightarrow> session_payload \<Rightarrow> bool" where
  "steers_turn caller session v =
     (case decode_session_inbox_payload v of
        Inr (DecodedDelivery d) \<Rightarrow>
          is_steering_delivery d caller \<and> \<not> has_proxy_requests session
          \<and> list_ex is_plain_message (delivery_payloads d)
      | _ \<Rightarrow> False)"

definition signal_steering :: "session_payload \<Rightarrow> turn \<Rightarrow> turn" where
  "signal_steering v s =
     (if steers_turn (turn_caller_call s) (cursor_session (turn_cursor s)) v
      then s\<lparr>steering_aborted := True\<rparr> else s)"

text \<open>The handlers a pump calls; a turn subscribes both under the number 0.\<close>

definition signal :: "session_payload \<Rightarrow> turn \<Rightarrow> turn" where
  "signal v s =
     (if is_interrupt v
      then (if cancels_turn (expected_turn s) v then s\<lparr>turn_aborted := True\<rparr> else s)
      else signal_steering v s)"

text \<open>The handler of a workflow message claims hooks for the states it adopts.\<close>

definition engine_call :: "inbox_call \<Rightarrow> turn \<Rightarrow> turn" where
  "engine_call call s =
     (case call of
        Pumped n v \<Rightarrow>
          (case pumped (turn_inbox s) n v of
             (called, ib) \<Rightarrow> (if 0 \<in> set called then signal v else id) (s\<lparr>turn_inbox := ib\<rparr>))
      | Claim token \<Rightarrow>
          if is_HandlingMessage (turn_phase s) then s\<lparr>turn_inbox := inbox_step (turn_inbox s) call\<rparr> else s
      | _ \<Rightarrow> if environment_call call then s\<lparr>turn_inbox := inbox_step (turn_inbox s) call\<rparr> else s)"

text \<open>A new subscription replays the unread deliveries.\<close>

definition subscribe_delivery :: "turn \<Rightarrow> turn" where
  "subscribe_delivery s =
     (case on_delivery (turn_inbox s) 0 of
        (vs, ib) \<Rightarrow> foldl (\<lambda>t v. signal_steering v t) (s\<lparr>turn_inbox := ib\<rparr>) vs)"

definition reset_steering :: "turn \<Rightarrow> turn" where
  "reset_steering s =
     (if \<not> steering_aborted s then s
      else subscribe_delivery (s\<lparr>turn_inbox := off_delivery (turn_inbox s) 0, steering_aborted := False\<rparr>))"

section \<open>The loop over turn steps\<close>

definition call_step :: "step_payload option \<Rightarrow> turn \<Rightarrow> turn" where
  "call_step p s =
     s\<lparr>turn_phase := Stepping (cursor_context (turn_cursor s)), turn_given := turn_given s @ [p]\<rparr>"

text \<open>\<open>cursor.apply\<close> up to its await.\<close>

definition begin_apply :: "transition \<Rightarrow> continuation \<Rightarrow> turn \<Rightarrow> turn" where
  "begin_apply t k s =
     (let c = moved (turn_cursor s) t in
      (case begin_claims (turn_inbox s) (session_hook_tokens (cursor_context c) (cursor_session c)) of
         (ok, ib) \<Rightarrow> s\<lparr>turn_inbox := ib, turn_phase := Claiming c ok k\<rparr>))"

definition pending_calls :: "step_result \<Rightarrow> string list option" where
  "pending_calls r = (case result_action r of ParkAction p \<Rightarrow> park_calls p | _ \<Rightarrow> None)"

definition is_settled :: "step_result \<Rightarrow> bool" where
  "is_settled r = (case result_action r of ParkAction p \<Rightarrow> park_settled p \<noteq> None | _ \<Rightarrow> False)"

definition apply_result :: "step_result \<Rightarrow> turn \<Rightarrow> turn" where
  "apply_result r s =
     begin_apply
       \<lparr>new_context = Some (result_context r),
        new_session = Some
          (if result_action r = CancelledAction \<or> (\<not> is_settled r \<and> turn_aborted s)
           then (case task_session r of None \<Rightarrow> result_session r | Some x \<Rightarrow> x)
           else result_session r)\<rparr>
       (AfterStep r) s"

definition step_returned :: "serialized_context \<Rightarrow> step_result \<Rightarrow> turn \<Rightarrow> turn" where
  "step_returned before r s =
     (if background_tasks r = [] then apply_result r s
      else (case task_session r of
              None \<Rightarrow> fail_turn MissingTaskState s
            | Some session \<Rightarrow>
                begin_apply
                  \<lparr>new_context = Some (case task_context r of None \<Rightarrow> before | Some x \<Rightarrow> x),
                   new_session = Some session\<rparr>
                  (AfterTasks r) s))"

text \<open>\<open>takeSteering\<close>, one selection at a time, and the call of the next step with what it collected.\<close>

definition finish_steering :: "delivery list \<Rightarrow> runtime_input option \<Rightarrow> turn \<Rightarrow> turn" where
  "finish_steering ds results s =
     (case (case ds of [] \<Rightarrow> Inr None | [d] \<Rightarrow> Inr (Some d) | _ \<Rightarrow> map_sum id Some (coalesce_deliveries ds)) of
        Inl e \<Rightarrow> fail_turn (Uncombinable e) s
      | Inr steering \<Rightarrow>
          call_step
            (if steering = None \<and> results = None then None
             else Some \<lparr>step_control = None, step_delivery = steering, step_results = results\<rparr>) s)"

definition steer :: "delivery list \<Rightarrow> runtime_input option \<Rightarrow> turn \<Rightarrow> turn" where
  "steer ds results s =
     (case take_steering (turn_queue s) (set (turn_admitted s)) (turn_caller_call s) of
        (Inl e, q) \<Rightarrow> fail_turn (Uncombinable e) (s\<lparr>turn_queue := q\<rparr>)
      | (Inr (Some (TurnSelection d eligible ns)), q) \<Rightarrow>
          s\<lparr>turn_queue := q, turn_admitted := filter (\<lambda>n. n \<notin> set ns) (turn_admitted s),
            turn_phase := RoutingSteering d ds results\<rparr>
      | (Inr x, q) \<Rightarrow> finish_steering ds results s)"

text \<open>What follows the boundary after a step.\<close>

definition after_boundary :: "turn_config \<Rightarrow> step_result \<Rightarrow> turn \<Rightarrow> turn" where
  "after_boundary cfg r s0 =
     (let s = reset_steering s0 in
      if result_action r = CancelledAction then s\<lparr>turn_phase := CancellingDescendants\<rparr>
      else if \<not> is_settled r \<and> turn_aborted s \<and> (pending_calls r = None \<or> background_tasks r \<noteq> [])
      then s\<lparr>turn_phase := CancellingDescendants\<rparr>
      else (case result_action r of
              DoneAction d \<Rightarrow> conclude_turn (DoneTurn d) s
            | ParkAction p \<Rightarrow>
                (case park_calls p of
                   Some calls \<Rightarrow> s\<lparr>turn_phase := Dispatching calls\<rparr>
                 | None \<Rightarrow>
                     if park_authorization p \<or> (park_input_batch p \<and> can_request_input cfg) \<or> \<not> task_mode cfg
                     then conclude_turn (ParkTurn (park_attempts p) False (park_settled p)) s
                     else fail_turn TaskModeWaits s)
            | _ \<Rightarrow> steer [] None s))"

section \<open>Admission during a turn\<close>

text \<open>
  One payload, up to the step its admission awaits, if any. A cancellation that does not name this turn
  has no effect.
\<close>

datatype admit_step =
    Admitted turn
  | AwaitsEffect session_admission admission_effect turn
  | AwaitsTasks cancel_command turn
  | AdmitFailed turn_error

definition abort_turn :: "turn \<Rightarrow> turn" where
  "abort_turn s = s\<lparr>turn_aborted := True\<rparr>"

definition cancel_in_turn :: "cancel_command \<Rightarrow> turn \<Rightarrow> turn" where
  "cancel_in_turn c s = abort_turn (s\<lparr>turn_queue := cancel_queued_task c (turn_queue s)\<rparr>)"

definition note_admission :: "session_payload \<Rightarrow> session_admission \<Rightarrow> turn \<Rightarrow> admit_step" where
  "note_admission v adm s =
     (case adm of
        AdmittedDelivery n \<Rightarrow>
          Admitted (s\<lparr>turn_admitted := (if n \<in> set (turn_admitted s) then turn_admitted s else turn_admitted s @ [n])\<rparr>)
      | AdmittedResults rs \<Rightarrow> Admitted (s\<lparr>turn_events := turn_events s @ [ResultsEvent rs]\<rparr>)
      | AdmittedWorkflow m \<Rightarrow> Admitted (s\<lparr>turn_events := turn_events s @ [WorkflowEvent m]\<rparr>)
      | AdmittedCancel c \<Rightarrow>
          if \<not> cancels_turn (expected_turn s) v then Admitted s
          else if cancel_tasks c then AwaitsTasks c s
          else Admitted (cancel_in_turn c s)
      | Consumed \<Rightarrow> Admitted s)"

definition admit_payload :: "turn_config \<Rightarrow> session_payload \<Rightarrow> turn \<Rightarrow> admit_step" where
  "admit_payload cfg v s =
     (case admit_session_inbox_payload (turn_run cfg) (turn_state s) (turn_queue s) v of
        Inl e \<Rightarrow> AdmitFailed (ChildUnreadable e)
      | Inr (adm, eff, q) \<Rightarrow>
          (let s' = s\<lparr>turn_queue := q\<rparr> in
           if eff = NoEffect then note_admission v adm s' else AwaitsEffect adm eff s'))"

text \<open>\<open>admitBoundary\<close> over what was drained.\<close>

fun admit_boundary :: "turn_config \<Rightarrow> step_result \<Rightarrow> session_payload list \<Rightarrow> turn \<Rightarrow> turn" where
  "admit_boundary cfg r [] s = after_boundary cfg r s"
| "admit_boundary cfg r (v # vs) s =
     (case admit_payload cfg v s of
        Admitted s' \<Rightarrow> admit_boundary cfg r vs s'
      | AwaitsEffect adm eff s' \<Rightarrow> s'\<lparr>turn_phase := AdmitEffect v adm eff (ToBoundary r vs)\<rparr>
      | AwaitsTasks c s' \<Rightarrow> s'\<lparr>turn_phase := CancellingTurnTasks c (ToBoundary r vs)\<rparr>
      | AdmitFailed e \<Rightarrow> fail_turn e s)"

definition start_boundary :: "turn_config \<Rightarrow> step_result \<Rightarrow> turn \<Rightarrow> turn" where
  "start_boundary cfg r s =
     (case drain (turn_inbox s) of
        (None, ib) \<Rightarrow> fail_turn InboxBroken s
      | (Some vs, ib) \<Rightarrow> admit_boundary cfg r vs (s\<lparr>turn_inbox := ib\<rparr>))"

section \<open>The wait for runtime actions\<close>

definition accept_results :: "runtime_result list \<Rightarrow> nat \<Rightarrow> runtime_wait \<Rightarrow> runtime_wait" where
  "accept_results rs now w =
     w\<lparr>awaited_results := awaited_results w @ rs,
       accepted_times := accepted_times w @ map (\<lambda>r. (runtime_call r, now)) rs\<rparr>"

text \<open>A later time of a call replaces an earlier one.\<close>

definition time_of :: "runtime_wait \<Rightarrow> string \<Rightarrow> nat option" where
  "time_of w call = map_of (rev (accepted_times w)) call"

definition runtime_ready :: "runtime_wait \<Rightarrow> runtime_input option" where
  "runtime_ready w =
     map_option
       (\<lambda>ready. \<lparr>accepted_at = map (\<lambda>r. (runtime_call r, time_of w (runtime_call r))) ready, input_results = ready\<rparr>)
       (resolve_runtime_action_results (awaited_calls w) (awaited_results w))"

text \<open>
  The loop until the results are complete, over the events already admitted; then \<open>nextRuntimeEvent\<close>
  reads the inbox. The events are an argument so that the loop is a recursion over them.
\<close>

fun await_results :: "turn_config \<Rightarrow> runtime_wait \<Rightarrow> runtime_event list \<Rightarrow> turn \<Rightarrow> turn" where
  "await_results cfg w [] s =
     (case runtime_ready w of
        Some ready \<Rightarrow> steer [] (Some ready) (s\<lparr>turn_events := []\<rparr>)
      | None \<Rightarrow>
          if turn_aborted s then s\<lparr>turn_events := [], turn_phase := CancellingDescendants\<rparr>
          else s\<lparr>turn_events := [], turn_phase := AwaitingEvent w\<rparr>)"
| "await_results cfg w (e # es) s =
     (case runtime_ready w of
        Some ready \<Rightarrow> steer [] (Some ready) (s\<lparr>turn_events := e # es\<rparr>)
      | None \<Rightarrow>
          if turn_aborted s then s\<lparr>turn_events := e # es, turn_phase := CancellingDescendants\<rparr>
          else (case e of
                  ResultsEvent rs \<Rightarrow>
                    (case accepted_results (turn_state s) rs of
                       Inl err \<Rightarrow> fail_turn (ResultsUnreadable err) (s\<lparr>turn_events := es\<rparr>)
                     | Inr ok \<Rightarrow> await_results cfg (accept_results ok (turn_clock s) w) es s)
                | WorkflowEvent m \<Rightarrow> s\<lparr>turn_events := es, turn_phase := HandlingMessage w\<rparr>))"

text \<open>\<open>nextRuntimeEvent\<close> after a payload was admitted: the loop of the wait itself is not run again, only its own.\<close>

definition next_runtime_event :: "turn_config \<Rightarrow> runtime_wait \<Rightarrow> turn \<Rightarrow> turn" where
  "next_runtime_event cfg w s =
     (if turn_aborted s then s\<lparr>turn_phase := CancellingDescendants\<rparr>
      else (case turn_events s of
              [] \<Rightarrow> s\<lparr>turn_phase := AwaitingEvent w\<rparr>
            | e # es \<Rightarrow>
                (case e of
                   ResultsEvent rs \<Rightarrow>
                     (case accepted_results (turn_state s) rs of
                        Inl err \<Rightarrow> fail_turn (ResultsUnreadable err) (s\<lparr>turn_events := es\<rparr>)
                      | Inr ok \<Rightarrow> await_results cfg (accept_results ok (turn_clock s) w) es s)
                 | WorkflowEvent m \<Rightarrow> s\<lparr>turn_events := es, turn_phase := HandlingMessage w\<rparr>)))"

text \<open>\<open>routeAdmittedToChildren\<close>, over the admitted sequences in order.\<close>

fun route_admitted :: "turn_config \<Rightarrow> runtime_wait \<Rightarrow> nat list \<Rightarrow> turn \<Rightarrow> turn" where
  "route_admitted cfg w [] s = next_runtime_event cfg w s"
| "route_admitted cfg w (n # ns) s =
     (if n \<in> set (turn_routed s) then route_admitted cfg w ns s
      else (case delivery_at (turn_queue s) n of
              None \<Rightarrow> route_admitted cfg w ns (s\<lparr>turn_admitted := removeAll n (turn_admitted s)\<rparr>)
            | Some d \<Rightarrow> s\<lparr>turn_routed := n # turn_routed s, turn_phase := RoutingChild n d ns w\<rparr>))"

definition admitted_in_wait :: "turn_config \<Rightarrow> runtime_wait \<Rightarrow> turn \<Rightarrow> turn" where
  "admitted_in_wait cfg w s = route_admitted cfg w (turn_admitted s) s"

definition resume_admission :: "turn_config \<Rightarrow> admit_return \<Rightarrow> turn \<Rightarrow> turn" where
  "resume_admission cfg ret s =
     (case ret of ToBoundary r vs \<Rightarrow> admit_boundary cfg r vs s | ToWait w \<Rightarrow> admitted_in_wait cfg w s)"

definition after_admit_step :: "turn_config \<Rightarrow> session_payload \<Rightarrow> admit_return \<Rightarrow> turn \<Rightarrow> admit_step \<Rightarrow> turn" where
  "after_admit_step cfg v ret s a =
     (case a of
        Admitted s' \<Rightarrow> resume_admission cfg ret s'
      | AwaitsEffect adm eff s' \<Rightarrow> s'\<lparr>turn_phase := AdmitEffect v adm eff ret\<rparr>
      | AwaitsTasks c s' \<Rightarrow> s'\<lparr>turn_phase := CancellingTurnTasks c ret\<rparr>
      | AdmitFailed e \<Rightarrow> fail_turn e s)"

definition look_inbox :: "turn_config \<Rightarrow> runtime_wait \<Rightarrow> turn \<Rightarrow> turn" where
  "look_inbox cfg w s =
     (case next_payload (turn_inbox s) of
        (ReadFailure, ib) \<Rightarrow> fail_turn InboxBroken s
      | (AllReleased, ib) \<Rightarrow> fail_turn InboxClosed s
      | (MustWait, ib) \<Rightarrow> s
      | (GotPayload v, ib) \<Rightarrow>
          (let s' = s\<lparr>turn_inbox := ib\<rparr> in after_admit_step cfg v (ToWait w) s' (admit_payload cfg v s')))"

section \<open>The machine\<close>

text \<open>A new state is adopted once its hooks are claimed; then the turn goes on.\<close>

definition resume :: "turn_config \<Rightarrow> continuation \<Rightarrow> turn \<Rightarrow> turn" where
  "resume cfg k s =
     (case k of
        AfterTasks r \<Rightarrow> s\<lparr>turn_phase := Acknowledging r\<rparr>
      | AfterStep r \<Rightarrow> start_boundary cfg r s
      | AfterDispatch w \<Rightarrow> await_results cfg w (turn_events s) s
      | AfterEffect v adm ret \<Rightarrow> after_admit_step cfg v ret s (note_admission v adm s)
      | AfterCancelTasks c ret \<Rightarrow> resume_admission cfg ret (cancel_in_turn c s)
      | AfterChild r n d ns w \<Rightarrow>
          (case r of
             RoutedCancel \<Rightarrow>
               next_runtime_event cfg w
                 (abort_turn (s\<lparr>turn_queue := replace_delivery (turn_queue s) n None,
                                turn_admitted := removeAll n (turn_admitted s)\<rparr>))
           | RoutedOn p \<Rightarrow>
               (let s' = s\<lparr>turn_queue := replace_delivery (turn_queue s) n (map_option (rerouted d) p)\<rparr>
                in route_admitted cfg w ns
                     (if p = None then s'\<lparr>turn_admitted := removeAll n (turn_admitted s')\<rparr> else s')))
      | AfterSteering r d ds results \<Rightarrow>
          (case r of
             RoutedCancel \<Rightarrow> finish_steering ds results (abort_turn s)
           | RoutedOn None \<Rightarrow> steer ds results s
           | RoutedOn (Some p) \<Rightarrow> steer (ds @ [rerouted d p]) results s))"

definition claims_settled :: "turn_config \<Rightarrow> cursor \<Rightarrow> bool \<Rightarrow> continuation \<Rightarrow> turn \<Rightarrow> turn" where
  "claims_settled cfg c ok k s =
     (let tokens = session_hook_tokens (cursor_context c) (cursor_session c) in
      if \<exists>x \<in> set (sources (turn_inbox s)). source_token x \<in> set tokens \<and> source_pump x = Registering then s
      else if ok \<and> all_registered (turn_inbox s) tokens then resume cfg k (s\<lparr>turn_cursor := c\<rparr>)
      else fail_turn HooksRefused s)"

text \<open>
  The inputs: what the engine does to the inbox, the clock, a look at the inbox, and the return of
  each awaited step. \<open>MessageHandled\<close> is the end of the handler of a workflow message, with the state
  it left, whose hooks it has claimed itself.
\<close>

datatype turn_input =
    EngineCall inbox_call
  | Clock nat
  | LookInbox
  | ClaimsSettled
  | StepReturned step_result
  | Acknowledged
  | EffectReturned transition
  | TasksCancelled transition
  | Dispatched "runtime_result list" transition
  | RoutingReturned routed transition
  | MessageHandled cursor "runtime_result option"
  | DescendantsCancelled
  | CallFailed

definition dispatched_wait :: "string list \<Rightarrow> runtime_result list \<Rightarrow> nat \<Rightarrow> runtime_wait" where
  "dispatched_wait calls rs now =
     accept_results rs now \<lparr>awaited_calls = calls, awaited_results = [], accepted_times = []\<rparr>"

fun running :: "turn_phase \<Rightarrow> bool" where
  "running (TurnEnded out) = False"
| "running (TurnFailed e) = False"
| "running p = True"

definition effect_returned ::
    "turn_config \<Rightarrow> session_payload \<Rightarrow> session_admission \<Rightarrow> admission_effect \<Rightarrow> admit_return \<Rightarrow> transition \<Rightarrow> turn \<Rightarrow> turn" where
  "effect_returned cfg v adm eff ret t s =
     (case eff of
        ProxyEvent e \<Rightarrow> begin_apply t (AfterEffect v adm ret) s
      | _ \<Rightarrow> after_admit_step cfg v ret s (note_admission v adm s))"

definition message_handled :: "turn_config \<Rightarrow> runtime_wait \<Rightarrow> cursor \<Rightarrow> runtime_result option \<Rightarrow> turn \<Rightarrow> turn" where
  "message_handled cfg w c result s0 =
     (let s = s0\<lparr>turn_cursor := c\<rparr> in
      await_results cfg (case result of None \<Rightarrow> w | Some r \<Rightarrow> accept_results [r] (turn_clock s) w) (turn_events s) s)"

text \<open>An input that does not answer the step awaited is none of the machine's.\<close>

definition advance_turn :: "turn_config \<Rightarrow> turn \<Rightarrow> turn_input \<Rightarrow> turn" where
  "advance_turn cfg s i =
     (case i of
        EngineCall call \<Rightarrow> engine_call call s
      | Clock n \<Rightarrow> s\<lparr>turn_clock := n\<rparr>
      | CallFailed \<Rightarrow> if running (turn_phase s) then fail_turn CallThrew s else s
      | LookInbox \<Rightarrow> (case turn_phase s of AwaitingEvent w \<Rightarrow> look_inbox cfg w s | _ \<Rightarrow> s)
      | ClaimsSettled \<Rightarrow> (case turn_phase s of Claiming c ok k \<Rightarrow> claims_settled cfg c ok k s | _ \<Rightarrow> s)
      | StepReturned r \<Rightarrow> (case turn_phase s of Stepping before \<Rightarrow> step_returned before r s | _ \<Rightarrow> s)
      | Acknowledged \<Rightarrow> (case turn_phase s of Acknowledging r \<Rightarrow> apply_result r s | _ \<Rightarrow> s)
      | EffectReturned t \<Rightarrow>
          (case turn_phase s of AdmitEffect v adm eff ret \<Rightarrow> effect_returned cfg v adm eff ret t s | _ \<Rightarrow> s)
      | TasksCancelled t \<Rightarrow>
          (case turn_phase s of
             CancellingTurnTasks c ret \<Rightarrow> begin_apply t (AfterCancelTasks c ret) s | _ \<Rightarrow> s)
      | Dispatched rs t \<Rightarrow>
          (case turn_phase s of
             Dispatching calls \<Rightarrow> begin_apply t (AfterDispatch (dispatched_wait calls rs (turn_clock s))) s
           | _ \<Rightarrow> s)
      | RoutingReturned r t \<Rightarrow>
          (case turn_phase s of
             RoutingChild n d ns w \<Rightarrow> begin_apply t (AfterChild r n d ns w) s
           | RoutingSteering d ds results \<Rightarrow> begin_apply t (AfterSteering r d ds results) s
           | _ \<Rightarrow> s)
      | MessageHandled c result \<Rightarrow>
          (case turn_phase s of HandlingMessage w \<Rightarrow> message_handled cfg w c result s | _ \<Rightarrow> s)
      | DescendantsCancelled \<Rightarrow>
          (case turn_phase s of CancellingDescendants \<Rightarrow> conclude_turn (ParkTurn None True None) s | _ \<Rightarrow> s))"

definition begin_turn :: "inbox \<Rightarrow> input_queue \<Rightarrow> cursor \<Rightarrow> nat \<Rightarrow> step_payload option \<Rightarrow> turn" where
  "begin_turn ib q c now p =
     call_step p
       (subscribe_delivery
          \<lparr>turn_inbox = on_interrupt ib 0, turn_queue = q, turn_cursor = c, turn_admitted = [], turn_routed = [],
           turn_events = [], turn_aborted = False, steering_aborted = False,
           expected_turn = active_turn_id (durable_emission (cursor_session c)),
           turn_caller_call = (case p of None \<Rightarrow> None
             | Some x \<Rightarrow> (case step_delivery x of None \<Rightarrow> None | Some d \<Rightarrow> map_option caller_call_id (delivery_caller d))),
           turn_clock = now, turn_phase = CancellingDescendants, turn_given = []\<rparr>)"

section \<open>A cancellation is never lost\<close>

text \<open>
  A turn that is still running listens to interrupts. Once aborted it stays aborted, and then it does not
  end as if nothing had happened: not as done, and parked only when cancelled or already settled.
\<close>

abbreviation subscribed :: "turn \<Rightarrow> bool" where
  "subscribed s \<equiv> 0 \<in> set (interrupt_handlers (turn_inbox s))"

definition outcome_ok :: "bool \<Rightarrow> turn_phase \<Rightarrow> bool" where
  "outcome_ok ab p \<longleftrightarrow>
     (case p of
        TurnEnded (DoneTurn d) \<Rightarrow> \<not> ab
      | TurnEnded (ParkTurn a c st) \<Rightarrow> ab \<longrightarrow> c \<or> st \<noteq> None
      | _ \<Rightarrow> True)"

definition progresses :: "bool \<Rightarrow> turn \<Rightarrow> bool" where
  "progresses b s \<longleftrightarrow> (b \<longrightarrow> turn_aborted s) \<and> outcome_ok (turn_aborted s) (turn_phase s)
     \<and> (running (turn_phase s) \<longleftrightarrow> subscribed s)"

lemma outcome_ok_running [simp]: "running p \<Longrightarrow> outcome_ok ab p"
  by (cases p) (simp_all add: outcome_ok_def)

lemma handlers_kept [simp]:
  "interrupt_handlers (inbox_step ib c) = interrupt_handlers ib"
  "interrupt_handlers (snd (begin_claims ib ts)) = interrupt_handlers ib"
  "interrupt_handlers (snd (drain ib)) = interrupt_handlers ib"
  "interrupt_handlers (snd (next_payload ib)) = interrupt_handlers ib"
  "interrupt_handlers (snd (on_delivery ib h)) = interrupt_handlers ib"
  "interrupt_handlers (off_delivery ib h) = interrupt_handlers ib"
  "interrupt_handlers (snd (pumped ib n v)) = interrupt_handlers ib"
proof -
  show step: "interrupt_handlers (inbox_step ib c) = interrupt_handlers ib" for ib
    by (cases c) (auto simp: inbox_call_defs split: option.split list.split sum.split)
  show "interrupt_handlers (snd (begin_claims ib ts)) = interrupt_handlers ib"
    by (induction ib ts rule: begin_claims.induct) (auto simp: claim_session_hook_def split: sum.split)
qed (auto simp: drain_def next_payload_def on_delivery_def off_delivery_def inbox_call_defs split: list.split option.split)

lemma fail_turn_progresses [simp]: "(b \<longrightarrow> turn_aborted s) \<Longrightarrow> progresses b (fail_turn e s)"
  by (simp add: fail_turn_def progresses_def outcome_ok_def off_interrupt_def off_delivery_def)

lemma phase_progresses [simp]:
  "running p \<Longrightarrow> progresses b (s\<lparr>turn_phase := p\<rparr>) \<longleftrightarrow> (b \<longrightarrow> turn_aborted s) \<and> subscribed s"
  by (auto simp: progresses_def)

lemma signal_steering_fields [simp]:
  "turn_aborted (signal_steering v s) = turn_aborted s"
  "turn_phase (signal_steering v s) = turn_phase s"
  "turn_inbox (signal_steering v s) = turn_inbox s"
  "turn_cursor (signal_steering v s) = turn_cursor s"
  "turn_queue (signal_steering v s) = turn_queue s"
  "turn_events (signal_steering v s) = turn_events s"
  "turn_admitted (signal_steering v s) = turn_admitted s"
  "turn_given (signal_steering v s) = turn_given s"
  "expected_turn (signal_steering v s) = expected_turn s"
  by (simp_all add: signal_steering_def)

lemma signal_all_fields [simp]:
  "turn_aborted (foldl (\<lambda>t v. signal_steering v t) s vs) = turn_aborted s"
  "turn_phase (foldl (\<lambda>t v. signal_steering v t) s vs) = turn_phase s"
  "turn_inbox (foldl (\<lambda>t v. signal_steering v t) s vs) = turn_inbox s"
  "turn_cursor (foldl (\<lambda>t v. signal_steering v t) s vs) = turn_cursor s"
  "turn_queue (foldl (\<lambda>t v. signal_steering v t) s vs) = turn_queue s"
  "turn_events (foldl (\<lambda>t v. signal_steering v t) s vs) = turn_events s"
  "turn_admitted (foldl (\<lambda>t v. signal_steering v t) s vs) = turn_admitted s"
  "turn_given (foldl (\<lambda>t v. signal_steering v t) s vs) = turn_given s"
  "expected_turn (foldl (\<lambda>t v. signal_steering v t) s vs) = expected_turn s"
  by (induction vs arbitrary: s) simp_all

lemma subscribe_fields [simp]:
  "turn_aborted (subscribe_delivery s) = turn_aborted s"
  "turn_phase (subscribe_delivery s) = turn_phase s"
  "turn_cursor (subscribe_delivery s) = turn_cursor s"
  "turn_queue (subscribe_delivery s) = turn_queue s"
  "turn_events (subscribe_delivery s) = turn_events s"
  "turn_admitted (subscribe_delivery s) = turn_admitted s"
  "turn_given (subscribe_delivery s) = turn_given s"
  "expected_turn (subscribe_delivery s) = expected_turn s"
  "interrupt_handlers (turn_inbox (subscribe_delivery s)) = interrupt_handlers (turn_inbox s)"
  by (simp_all add: subscribe_delivery_def on_delivery_def)

lemma reset_fields [simp]:
  "turn_aborted (reset_steering s) = turn_aborted s"
  "turn_cursor (reset_steering s) = turn_cursor s"
  "turn_queue (reset_steering s) = turn_queue s"
  "turn_events (reset_steering s) = turn_events s"
  "turn_admitted (reset_steering s) = turn_admitted s"
  "turn_given (reset_steering s) = turn_given s"
  "expected_turn (reset_steering s) = expected_turn s"
  "interrupt_handlers (turn_inbox (reset_steering s)) = interrupt_handlers (turn_inbox s)"
  by (simp_all add: reset_steering_def)

lemma unsubscribed [simp]:
  "\<not> subscribed (conclude_turn out s)" "\<not> subscribed (fail_turn e s)"
  by (simp_all add: conclude_turn_def fail_turn_def off_interrupt_def off_delivery_def)

lemma end_turn_progresses:
  "(b \<longrightarrow> turn_aborted s) \<Longrightarrow> outcome_ok (turn_aborted s) (TurnEnded out) \<Longrightarrow> progresses b (conclude_turn out s)"
  using unsubscribed(1) [of out s] by (simp add: progresses_def conclude_turn_def)

text \<open>Every part of a step keeps the property, from a state that is subscribed and aborted if \<open>b\<close>.\<close>

lemma begin_apply_progresses:
  assumes "subscribed s" and "b \<longrightarrow> turn_aborted s"
  shows "progresses b (begin_apply t k s)"
proof -
  let ?tokens = "session_hook_tokens (cursor_context (moved (turn_cursor s) t)) (cursor_session (moved (turn_cursor s) t))"
  obtain ok ib where c: "begin_claims (turn_inbox s) ?tokens = (ok, ib)" by fastforce
  then have "interrupt_handlers ib = interrupt_handlers (turn_inbox s)" by (metis handlers_kept(2) snd_conv)
  with c assms show ?thesis by (simp add: begin_apply_def Let_def)
qed

lemma call_step_progresses: "subscribed s \<Longrightarrow> b \<longrightarrow> turn_aborted s \<Longrightarrow> progresses b (call_step p s)"
  by (simp add: call_step_def progresses_def)

lemma finish_steering_progresses:
  "subscribed s \<Longrightarrow> b \<longrightarrow> turn_aborted s \<Longrightarrow> progresses b (finish_steering ds results s)"
  by (simp add: finish_steering_def call_step_progresses split: sum.split)

lemma steer_progresses:
  "subscribed s \<Longrightarrow> b \<longrightarrow> turn_aborted s \<Longrightarrow> progresses b (steer ds results s)"
  by (simp add: steer_def finish_steering_progresses split: prod.split sum.split option.split selection.split)

lemma after_boundary_progresses:
  assumes "subscribed s" and "b \<longrightarrow> turn_aborted s"
  shows "progresses b (after_boundary cfg r s)"
proof -
  have cancelled: "progresses b ((reset_steering s)\<lparr>turn_phase := CancellingDescendants\<rparr>)"
    using assms by simp
  show ?thesis
  proof (cases "result_action r")
    case (DoneAction d)
    then have "\<not> is_settled r" "pending_calls r = None" by (simp_all add: is_settled_def pending_calls_def)
    with DoneAction cancelled assms show ?thesis
      by (auto simp: after_boundary_def Let_def outcome_ok_def intro!: end_turn_progresses)
  next
    case (ParkAction p)
    with cancelled assms show ?thesis
      by (auto simp: after_boundary_def Let_def outcome_ok_def is_settled_def pending_calls_def
          intro!: end_turn_progresses split: option.split)
  qed (use cancelled assms steer_progresses in \<open>simp_all add: after_boundary_def Let_def\<close>)
qed

text \<open>Results of an admission: the state goes on subscribed, and no abort is taken back.\<close>

fun admit_states :: "admit_step \<Rightarrow> turn list" where
  "admit_states (Admitted s) = [s]"
| "admit_states (AwaitsEffect adm eff s) = [s]"
| "admit_states (AwaitsTasks c s) = [s]"
| "admit_states (AdmitFailed e) = []"

lemma note_admission_states:
  "x \<in> set (admit_states (note_admission v adm s)) \<Longrightarrow>
   turn_inbox x = turn_inbox s \<and> (turn_aborted s \<longrightarrow> turn_aborted x)"
  by (cases adm) (auto simp: note_admission_def cancel_in_turn_def abort_turn_def split: if_splits)

lemma admit_payload_states:
  "x \<in> set (admit_states (admit_payload cfg v s)) \<Longrightarrow>
   turn_inbox x = turn_inbox s \<and> (turn_aborted s \<longrightarrow> turn_aborted x)"
  by (auto simp: admit_payload_def Let_def dest: note_admission_states split: sum.splits prod.splits if_splits)

lemma admit_boundary_progresses:
  "subscribed s \<Longrightarrow> b \<longrightarrow> turn_aborted s \<Longrightarrow> progresses b (admit_boundary cfg r vs s)"
proof (induction cfg r vs s rule: admit_boundary.induct)
  case (2 cfg r v vs s)
  have st: "x \<in> set (admit_states (admit_payload cfg v s)) \<Longrightarrow> subscribed x \<and> (b \<longrightarrow> turn_aborted x)" for x
    using admit_payload_states [of x cfg v s] 2 by auto
  show ?case
    using 2 st by (cases "admit_payload cfg v s") simp_all
qed (simp add: after_boundary_progresses)

lemma start_boundary_progresses:
  assumes "subscribed s" and "b \<longrightarrow> turn_aborted s"
  shows "progresses b (start_boundary cfg r s)"
proof -
  obtain x ib where d: "drain (turn_inbox s) = (x, ib)" by fastforce
  then have "interrupt_handlers ib = interrupt_handlers (turn_inbox s)" by (metis handlers_kept(3) snd_conv)
  with d assms show ?thesis
    by (cases x) (simp_all add: start_boundary_def admit_boundary_progresses)
qed

lemma await_results_progresses:
  "subscribed s \<Longrightarrow> b \<longrightarrow> turn_aborted s \<Longrightarrow> progresses b (await_results cfg w es s)"
proof (induction cfg w es s rule: await_results.induct)
  case (2 cfg w e es s)
  then show ?case
    by (auto simp: steer_progresses split: option.split runtime_event.split sum.split)
qed (auto simp: steer_progresses split: option.split)

lemma next_runtime_event_progresses:
  "subscribed s \<Longrightarrow> b \<longrightarrow> turn_aborted s \<Longrightarrow> progresses b (next_runtime_event cfg w s)"
  by (auto simp: next_runtime_event_def await_results_progresses split: list.split runtime_event.split sum.split)

lemma route_admitted_progresses:
  "subscribed s \<Longrightarrow> b \<longrightarrow> turn_aborted s \<Longrightarrow> progresses b (route_admitted cfg w ns s)"
  by (induction cfg w ns s rule: route_admitted.induct)
    (auto simp: next_runtime_event_progresses progresses_def [where s = "turn_phase_update _ _"] split: option.split)

lemma resume_admission_progresses:
  "subscribed s \<Longrightarrow> b \<longrightarrow> turn_aborted s \<Longrightarrow> progresses b (resume_admission cfg ret s)"
  by (simp add: resume_admission_def admit_boundary_progresses admitted_in_wait_def route_admitted_progresses
      split: admit_return.split)

lemma after_admit_step_progresses:
  assumes "\<forall>x \<in> set (admit_states a). subscribed x \<and> (b \<longrightarrow> turn_aborted x)"
    and "b \<longrightarrow> turn_aborted s"
  shows "progresses b (after_admit_step cfg v ret s a)"
  using assms by (cases a) (simp_all add: after_admit_step_def resume_admission_progresses)

lemma running_progresses:
  "subscribed s \<Longrightarrow> running (turn_phase s) \<Longrightarrow> b \<longrightarrow> turn_aborted s \<Longrightarrow> progresses b s"
  by (simp add: progresses_def)

lemma look_inbox_progresses:
  assumes "subscribed s" and "running (turn_phase s)" and "b \<longrightarrow> turn_aborted s"
  shows "progresses b (look_inbox cfg w s)"
proof -
  obtain x ib where n: "next_payload (turn_inbox s) = (x, ib)" by fastforce
  then have ib: "interrupt_handlers ib = interrupt_handlers (turn_inbox s)" by (metis handlers_kept(4) snd_conv)
  show ?thesis
  proof (cases x)
    case (GotPayload v)
    let ?s = "s\<lparr>turn_inbox := ib\<rparr>"
    have "\<forall>x \<in> set (admit_states (admit_payload cfg v ?s)). subscribed x \<and> (b \<longrightarrow> turn_aborted x)"
      using admit_payload_states [of _ cfg v ?s] assms ib by auto
    from after_admit_step_progresses [OF this, of ?s cfg v "ToWait w"] GotPayload n assms(3)
    show ?thesis by (simp add: look_inbox_def Let_def)
  qed (use n assms running_progresses in \<open>simp_all add: look_inbox_def\<close>)
qed

lemma resume_progresses:
  assumes s: "subscribed s" and b: "b \<longrightarrow> turn_aborted s"
  shows "progresses b (resume cfg k s)"
proof (cases k)
  case (AfterEffect v adm ret)
  have "\<forall>x \<in> set (admit_states (note_admission v adm s)). subscribed x \<and> (b \<longrightarrow> turn_aborted x)"
    using note_admission_states [of _ v adm s] assms by auto
  from after_admit_step_progresses [OF this b] AfterEffect show ?thesis by (simp add: resume_def)
next
  case (AfterChild r n d ns w)
  with assms show ?thesis
    by (cases r) (simp_all add: resume_def abort_turn_def next_runtime_event_progresses route_admitted_progresses Let_def)
next
  case (AfterSteering r d ds results)
  with assms show ?thesis
    by (auto simp: resume_def abort_turn_def finish_steering_progresses steer_progresses split: routed.split option.split)
qed (use assms in \<open>simp_all add: resume_def start_boundary_progresses await_results_progresses cancel_in_turn_def
    abort_turn_def resume_admission_progresses\<close>)

lemma claims_settled_progresses:
  assumes "subscribed s" and "progresses b s"
  shows "progresses b (claims_settled cfg c ok k s)"
proof -
  have "b \<longrightarrow> turn_aborted s" using assms(2) by (simp add: progresses_def)
  with assms resume_progresses [of "s\<lparr>turn_cursor := c\<rparr>" b cfg k] show ?thesis
    by (simp add: claims_settled_def Let_def)
qed

lemma step_returned_progresses:
  "subscribed s \<Longrightarrow> b \<longrightarrow> turn_aborted s \<Longrightarrow> progresses b (step_returned before r s)"
  by (simp add: step_returned_def apply_result_def begin_apply_progresses split: option.split)

lemma pumped_handlers:
  assumes "pumped ib n v = (called, ib')" and "is_interrupt v" and "0 \<in> set called"
  shows "0 \<in> set (interrupt_handlers ib)"
proof -
  have "\<not> is_delivery_payload v" using assms(2) by (cases v) simp_all
  with assms show ?thesis by (auto simp: pumped_def split: option.splits if_splits)
qed

lemma engine_call_progresses:
  assumes "progresses b s"
  shows "progresses b (engine_call call s)"
proof (cases "\<exists>n v. call = Pumped n v")
  case True
  then obtain n v where call: "call = Pumped n v" by blast
  obtain called ib where p: "pumped (turn_inbox s) n v = (called, ib)" by fastforce
  then have ib: "interrupt_handlers ib = interrupt_handlers (turn_inbox s)" by (metis handlers_kept(7) snd_conv)
  let ?s = "s\<lparr>turn_inbox := ib\<rparr>"
  have s: "progresses b ?s" using assms ib by (simp add: progresses_def)
  have "progresses b (signal v ?s)" if "0 \<in> set called"
  proof (cases "is_interrupt v")
    case True
    with pumped_handlers [OF p True that] s ib show ?thesis
      by (simp add: signal_def progresses_def)
  next
    case False
    with s show ?thesis by (simp add: signal_def progresses_def)
  qed
  with s p call show ?thesis by (simp add: engine_call_def)
next
  case False
  with assms show ?thesis
    by (cases call) (simp_all add: engine_call_def progresses_def del: inbox_step.simps)
qed

lemma advance_turn_progresses:
  assumes "progresses b s"
  shows "progresses b (advance_turn cfg s i)"
proof (cases "running (turn_phase s)")
  case True
  with assms have s: "subscribed s" "b \<longrightarrow> turn_aborted s" by (simp_all add: progresses_def)
  show ?thesis
  proof (cases i)
    case (EffectReturned t)
    have "\<forall>x \<in> set (admit_states (note_admission v adm s)). subscribed x \<and> (b \<longrightarrow> turn_aborted x)" for v adm
      using note_admission_states [of _ v adm s] s by auto
    from after_admit_step_progresses [OF this s(2)] EffectReturned assms s show ?thesis
      by (simp add: advance_turn_def effect_returned_def begin_apply_progresses split: turn_phase.split admission_effect.split)
  qed (use assms s True in \<open>auto simp: advance_turn_def engine_call_progresses look_inbox_progresses claims_settled_progresses
      step_returned_progresses apply_result_def begin_apply_progresses message_handled_def await_results_progresses
      end_turn_progresses outcome_ok_def Let_def progresses_def [of b "s\<lparr>turn_clock := _\<rparr>"]
      split: turn_phase.split\<close>)
next
  case False
  with assms show ?thesis
    by (cases i; cases "turn_phase s")
      (simp_all add: advance_turn_def engine_call_progresses progresses_def [of b "s\<lparr>turn_clock := _\<rparr>"]
        progresses_def [of b s])
qed

interpretation turn_cancellation: invariant_machine "advance_turn cfg" "progresses b" for cfg b
  by unfold_locales (rule advance_turn_progresses)

lemma start_turn_progresses: "progresses False (begin_turn ib q c now p)"
  by (simp add: begin_turn_def call_step_def progresses_def on_interrupt_def add_handler_def)

text \<open>C31: A cancellation is never lost: when the inbox accepts, while the turn runs, a cancel command for
  this turn (or for any turn) or a reset, then in whatever moment it comes and whatever else happens,
  the turn does not end as done, and it parks only as cancelled or with an answer that was already
  settled.\<close>

theorem cancellation_is_never_lost:
  assumes "s = foldl (advance_turn cfg) (begin_turn ib q c now p) before" and "running (turn_phase s)"
    and "cancels_turn (expected_turn s) v"
    and "the_source (turn_inbox s) n = Some src" and "source_pump src = pump_phase.Reading"
    and "turn_phase (foldl (advance_turn cfg) s (EngineCall (Pumped n v) # after)) = TurnEnded out"
  shows "\<exists>attempts cancelled settled. out = ParkTurn attempts cancelled settled \<and> (cancelled \<or> settled \<noteq> None)"
proof -
  have "progresses False s"
    unfolding assms(1) by (rule turn_cancellation.run_inv [OF start_turn_progresses])
  with assms(2) have sub: "subscribed s" by (simp add: progresses_def)
  have int: "is_interrupt v" using assms(3) by (cases v) simp_all
  let ?s = "advance_turn cfg s (EngineCall (Pumped n v))"
  have ab: "turn_aborted ?s"
    using assms(3-5) int sub by (simp add: advance_turn_def engine_call_def pumped_def signal_def)
  have "progresses False ?s"
    by (rule advance_turn_progresses [OF \<open>progresses False s\<close>])
  with ab have "progresses True ?s" by (simp add: progresses_def)
  then have "progresses True (foldl (advance_turn cfg) ?s after)" by (rule turn_cancellation.run_inv)
  with assms(6) show ?thesis
    by (cases out) (auto simp: progresses_def outcome_ok_def)
qed

section \<open>Results a step is given\<close>

lemma find_in_set: "List.find Q xs = Some x \<Longrightarrow> Q x \<and> x \<in> set xs"
  by (induction xs) (auto split: if_splits)

lemma resolve_sound:
  "resolve_runtime_action_results calls results = Some ready \<Longrightarrow>
   map runtime_call ready = calls \<and> set ready \<subseteq> set results"
proof (induction calls arbitrary: ready)
  case (Cons call calls)
  then obtain r rest where r: "last_result results call = Some r"
    and rest: "resolve_runtime_action_results calls results = Some rest" "ready = r # rest"
    by (auto split: option.splits)
  from find_in_set [OF r [unfolded last_result_def]] have "runtime_call r = call" "r \<in> set results" by auto
  with Cons.IH [OF rest(1)] rest(2) show ?case by simp
qed simp

lemma resolve_complete:
  "resolve_runtime_action_results calls results \<noteq> None \<longleftrightarrow> set calls \<subseteq> runtime_call ` set results"
proof (induction calls)
  case (Cons call calls)
  have "last_result results call = None \<longleftrightarrow> call \<notin> runtime_call ` set results"
    by (auto simp: last_result_def find_None_iff)
  with Cons show ?case by (auto split: option.split)
qed simp

text \<open>
  \<open>C\<close> are the calls a step asked for, \<open>P\<close> the results the owner may trust. What a turn holds is fine when its
  waits and inputs are made of them, each result with the time it was accepted.
\<close>

definition wait_fine :: "(string list \<Rightarrow> bool) \<Rightarrow> (runtime_result \<Rightarrow> bool) \<Rightarrow> runtime_wait \<Rightarrow> bool" where
  "wait_fine C P w \<longleftrightarrow> C (awaited_calls w)
     \<and> (\<forall>r \<in> set (awaited_results w). P r \<and> runtime_call r \<in> fst ` set (accepted_times w))"

definition input_fine :: "(string list \<Rightarrow> bool) \<Rightarrow> (runtime_result \<Rightarrow> bool) \<Rightarrow> runtime_input \<Rightarrow> bool" where
  "input_fine C P ri \<longleftrightarrow> C (map runtime_call (input_results ri)) \<and> (\<forall>r \<in> set (input_results ri). P r)
     \<and> map fst (accepted_at ri) = map runtime_call (input_results ri) \<and> None \<notin> snd ` set (accepted_at ri)"

definition step_fine :: "(string list \<Rightarrow> bool) \<Rightarrow> step_result \<Rightarrow> bool" where
  "step_fine C r \<longleftrightarrow> (\<forall>calls. pending_calls r = Some calls \<longrightarrow> C calls)"

fun return_fine :: "(string list \<Rightarrow> bool) \<Rightarrow> (runtime_result \<Rightarrow> bool) \<Rightarrow> admit_return \<Rightarrow> bool" where
  "return_fine C P (ToBoundary r vs) = step_fine C r"
| "return_fine C P (ToWait w) = wait_fine C P w"

definition option_fine :: "('a \<Rightarrow> bool) \<Rightarrow> 'a option \<Rightarrow> bool" where
  "option_fine Q x \<longleftrightarrow> (\<forall>y. x = Some y \<longrightarrow> Q y)"

lemma option_fine_simps [simp]: "option_fine Q None" "option_fine Q (Some y) = Q y"
  by (simp_all add: option_fine_def)

fun continuation_fine :: "(string list \<Rightarrow> bool) \<Rightarrow> (runtime_result \<Rightarrow> bool) \<Rightarrow> continuation \<Rightarrow> bool" where
  "continuation_fine C P (AfterTasks r) = step_fine C r"
| "continuation_fine C P (AfterStep r) = step_fine C r"
| "continuation_fine C P (AfterDispatch w) = wait_fine C P w"
| "continuation_fine C P (AfterEffect v adm ret) = return_fine C P ret"
| "continuation_fine C P (AfterCancelTasks c ret) = return_fine C P ret"
| "continuation_fine C P (AfterChild r n d ns w) = wait_fine C P w"
| "continuation_fine C P (AfterSteering r d ds results) = option_fine (input_fine C P) results"

fun phase_fine :: "(string list \<Rightarrow> bool) \<Rightarrow> (runtime_result \<Rightarrow> bool) \<Rightarrow> turn_phase \<Rightarrow> bool" where
  "phase_fine C P (Claiming c ok k) = continuation_fine C P k"
| "phase_fine C P (Acknowledging r) = step_fine C r"
| "phase_fine C P (AdmitEffect v adm eff ret) = return_fine C P ret"
| "phase_fine C P (CancellingTurnTasks c ret) = return_fine C P ret"
| "phase_fine C P (Dispatching calls) = C calls"
| "phase_fine C P (AwaitingEvent w) = wait_fine C P w"
| "phase_fine C P (RoutingChild n d ns w) = wait_fine C P w"
| "phase_fine C P (HandlingMessage w) = wait_fine C P w"
| "phase_fine C P (RoutingSteering d ds results) = option_fine (input_fine C P) results"
| "phase_fine C P _ = True"

definition given_fine :: "(string list \<Rightarrow> bool) \<Rightarrow> (runtime_result \<Rightarrow> bool) \<Rightarrow> step_payload option list \<Rightarrow> bool" where
  "given_fine C P gs \<longleftrightarrow> gs \<noteq> [] \<and> (\<forall>q. Some q \<in> set (tl gs) \<longrightarrow> option_fine (input_fine C P) (step_results q))"

definition results_fine :: "(string list \<Rightarrow> bool) \<Rightarrow> (runtime_result \<Rightarrow> bool) \<Rightarrow> turn \<Rightarrow> bool" where
  "results_fine C P s \<longleftrightarrow> phase_fine C P (turn_phase s) \<and> given_fine C P (turn_given s)"

lemma results_fine_at [simp]:
  "results_fine C P (s\<lparr>turn_phase := p\<rparr>) \<longleftrightarrow> phase_fine C P p \<and> given_fine C P (turn_given s)"
  "results_fine C P (fail_turn e s) \<longleftrightarrow> given_fine C P (turn_given s)"
  "results_fine C P (conclude_turn out s) \<longleftrightarrow> given_fine C P (turn_given s)"
  "results_fine C P (s\<lparr>turn_clock := n\<rparr>) \<longleftrightarrow> results_fine C P s"
  by (simp_all add: results_fine_def fail_turn_def conclude_turn_def)

lemma accept_results_fine:
  "wait_fine C P w \<Longrightarrow> \<forall>r \<in> set rs. P r \<Longrightarrow> wait_fine C P (accept_results rs now w)"
  by (auto simp: wait_fine_def accept_results_def image_Un image_image)

lemma time_of_accepted: "call \<in> fst ` set (accepted_times w) \<Longrightarrow> time_of w call \<noteq> None"
  by (simp add: time_of_def map_of_eq_None_iff)

lemma runtime_ready_fine:
  assumes "wait_fine C P w" and "runtime_ready w = Some ri"
  shows "input_fine C P ri"
proof -
  from assms(2) obtain ready where ready: "resolve_runtime_action_results (awaited_calls w) (awaited_results w) = Some ready"
    and ri: "ri = \<lparr>accepted_at = map (\<lambda>r. (runtime_call r, time_of w (runtime_call r))) ready, input_results = ready\<rparr>"
    by (auto simp: runtime_ready_def)
  from resolve_sound [OF ready] have calls: "map runtime_call ready = awaited_calls w" and sub: "set ready \<subseteq> set (awaited_results w)"
    by auto
  have "time_of w (runtime_call r) \<noteq> None" if "r \<in> set ready" for r
    using assms(1) sub that by (intro time_of_accepted) (auto simp: wait_fine_def)
  then have "None \<notin> snd ` set (accepted_at ri)" unfolding ri by force
  with assms(1) calls sub show ?thesis by (auto simp: input_fine_def wait_fine_def ri comp_def)
qed

lemma call_step_fine:
  "given_fine C P (turn_given s) \<Longrightarrow> option_fine (\<lambda>q. option_fine (input_fine C P) (step_results q)) p \<Longrightarrow>
   results_fine C P (call_step p s)"
  by (auto simp: results_fine_def call_step_def given_fine_def)

lemma begin_apply_fine:
  "continuation_fine C P k \<Longrightarrow> given_fine C P (turn_given s) \<Longrightarrow> results_fine C P (begin_apply t k s)"
  by (simp add: begin_apply_def Let_def results_fine_def split: prod.split)

lemma finish_steering_fine:
  "option_fine (input_fine C P) results \<Longrightarrow> given_fine C P (turn_given s) \<Longrightarrow>
   results_fine C P (finish_steering ds results s)"
  by (simp add: finish_steering_def call_step_fine split: sum.split)

lemma steer_fine:
  "option_fine (input_fine C P) results \<Longrightarrow> given_fine C P (turn_given s) \<Longrightarrow> results_fine C P (steer ds results s)"
  by (simp add: steer_def finish_steering_fine results_fine_def [where s = "turn_phase_update _ _"]
      split: prod.split sum.split option.split selection.split)

lemma after_boundary_fine:
  "step_fine C r \<Longrightarrow> given_fine C P (turn_given s) \<Longrightarrow> results_fine C P (after_boundary cfg r s)"
  by (simp add: after_boundary_def Let_def steer_fine step_fine_def pending_calls_def
      split: step_action.split option.split)

text \<open>Only the adoption of a new state changes the cursor.\<close>

lemma cursor_basic [simp]:
  "turn_cursor (fail_turn e s) = turn_cursor s"
  "turn_cursor (conclude_turn out s) = turn_cursor s"
  "turn_cursor (call_step p s) = turn_cursor s"
  "turn_cursor (begin_apply t k s) = turn_cursor s"
  by (simp_all add: fail_turn_def conclude_turn_def call_step_def begin_apply_def Let_def split: prod.split)

lemma cursor_finish_steering [simp]: "turn_cursor (finish_steering ds results s) = turn_cursor s"
  by (simp add: finish_steering_def split: sum.split)

lemma cursor_steer [simp]: "turn_cursor (steer ds results s) = turn_cursor s"
  by (simp add: steer_def split: prod.split sum.split option.split selection.split)

lemma cursor_after_boundary [simp]: "turn_cursor (after_boundary cfg r s) = turn_cursor s"
  by (simp add: after_boundary_def Let_def split: step_action.split option.split)

lemma admit_states_kept:
  "x \<in> set (admit_states (note_admission v adm s)) \<Longrightarrow> turn_cursor x = turn_cursor s \<and> turn_given x = turn_given s"
  "x \<in> set (admit_states (admit_payload cfg v s)) \<Longrightarrow> turn_cursor x = turn_cursor s \<and> turn_given x = turn_given s"
proof -
  show n: "x \<in> set (admit_states (note_admission v adm s)) \<Longrightarrow> turn_cursor x = turn_cursor s \<and> turn_given x = turn_given s"
    for v adm s
    by (cases adm) (auto simp: note_admission_def cancel_in_turn_def abort_turn_def split: if_splits)
  show "x \<in> set (admit_states (admit_payload cfg v s)) \<Longrightarrow> turn_cursor x = turn_cursor s \<and> turn_given x = turn_given s"
    by (auto simp: admit_payload_def Let_def dest: n split: sum.splits prod.splits if_splits)
qed

lemma admitted_kept:
  "admit_payload cfg v s = Admitted x \<Longrightarrow> turn_cursor x = turn_cursor s \<and> turn_given x = turn_given s"
  "admit_payload cfg v s = AwaitsEffect adm eff x \<Longrightarrow> turn_cursor x = turn_cursor s \<and> turn_given x = turn_given s"
  "admit_payload cfg v s = AwaitsTasks c x \<Longrightarrow> turn_cursor x = turn_cursor s \<and> turn_given x = turn_given s"
  using admit_states_kept(2) [of x cfg v s] by simp_all

lemma cursor_admit_boundary [simp]: "turn_cursor (admit_boundary cfg r vs s) = turn_cursor s"
proof (induction cfg r vs s rule: admit_boundary.induct)
  case (2 cfg r v vs s)
  then show ?case by (auto dest: admitted_kept split: admit_step.split)
qed simp

lemma cursor_await_results [simp]: "turn_cursor (await_results cfg w es s) = turn_cursor s"
  by (induction cfg w es s rule: await_results.induct) (auto split: option.split runtime_event.split sum.split)

lemma cursor_next_runtime_event [simp]: "turn_cursor (next_runtime_event cfg w s) = turn_cursor s"
  by (simp add: next_runtime_event_def split: list.split runtime_event.split sum.split)

lemma cursor_route_admitted [simp]: "turn_cursor (route_admitted cfg w ns s) = turn_cursor s"
  by (induction cfg w ns s rule: route_admitted.induct) (auto split: option.split)

lemma cursor_resume_admission [simp]: "turn_cursor (resume_admission cfg ret s) = turn_cursor s"
  by (simp add: resume_admission_def admitted_in_wait_def split: admit_return.split)

lemma cursor_after_admit_step:
  "\<forall>x \<in> set (admit_states a). turn_cursor x = turn_cursor s \<Longrightarrow>
   turn_cursor (after_admit_step cfg v ret s a) = turn_cursor s"
  by (cases a) (simp_all add: after_admit_step_def)

lemma cursor_note [simp]: "turn_cursor (after_admit_step cfg v ret s (note_admission w adm s)) = turn_cursor s"
  by (rule cursor_after_admit_step) (auto dest: admit_states_kept)

lemma cursor_look_inbox [simp]: "turn_cursor (look_inbox cfg w s) = turn_cursor s"
proof -
  have "turn_cursor (after_admit_step cfg v ret t (admit_payload cfg v t)) = turn_cursor t" for v ret t
    by (rule cursor_after_admit_step) (auto dest: admit_states_kept)
  then show ?thesis by (simp add: look_inbox_def Let_def split: prod.split read_result.split)
qed

lemma cursor_start_boundary [simp]: "turn_cursor (start_boundary cfg r s) = turn_cursor s"
  by (simp add: start_boundary_def split: prod.split option.split)

lemma cursor_resume [simp]: "turn_cursor (resume cfg k s) = turn_cursor s"
  by (simp add: resume_def abort_turn_def cancel_in_turn_def Let_def split: continuation.split routed.split option.split)

text \<open>
  The results a state binds, read off the stored session: those of the one blocking run recorded for
  the call, of the tool it runs, and those of a child whose handle is running that very operation.
\<close>

fun child_handles :: "session_state option \<Rightarrow> json list" where
  "child_handles st =
     (case state_get st AGENT_HANDLES_STATE_KEY of
        Some (JObj es) \<Rightarrow> (case map_of es ''handles'' of Some (JArr hs) \<Rightarrow> hs | _ \<Rightarrow> [])
      | _ \<Rightarrow> [])"

fun runs_operation :: "string \<Rightarrow> json \<Rightarrow> bool" where
  "runs_operation call (JObj es) =
     (map_of es ''phase'' = Some (JStr ''running'')
      \<and> (case map_of es ''operation'' of Some (JObj ps) \<Rightarrow> map_of ps ''callId'' = Some (JStr call) | _ \<Rightarrow> False))"
| "runs_operation call _ = False"

fun bound_by :: "session_state option \<Rightarrow> runtime_result \<Rightarrow> bool" where
  "bound_by st (ToolActionResult call tool body) =
     (case get_workflow_tool_runs st of
        Inl e \<Rightarrow> False
      | Inr runs \<Rightarrow> map wr_tool (filter (\<lambda>x. wr_lifetime x = TurnLifetime \<and> wr_call x = call) runs) = [tool])"
| "bound_by st (ChildResult call body) = list_ex (runs_operation call) (child_handles st)"
| "bound_by st (DispatchFailure call body) = False"
| "bound_by st (SkillResult call body) = False"

lemma turn_lifetime [simp]:
  "(case l of TurnLifetime \<Rightarrow> None | SessionLifetime t \<Rightarrow> Some t) = None \<longleftrightarrow> l = TurnLifetime"
  by (cases l) simp_all

lemma binds_runs:
  "is_inbox_tool_result_from_recorded_workflow_tool_run st call tool = Inr b \<Longrightarrow>
   b = bound_by st (ToolActionResult call tool body)"
  by (cases "get_workflow_tool_runs st")
    (auto simp: is_inbox_tool_result_from_recorded_workflow_tool_run_def find_blocking_workflow_tool_run_def
      get_blocking_workflow_tool_runs_def blocking_runs_def split: list.splits)

lemma binds_call: "runs_call call h = Inr b \<Longrightarrow> b = runs_operation call h"
  by (cases h) (auto simp: runs_call_def split: sum.splits option.splits if_splits json.splits elim: read_property.elims)

lemma binds_handle: "find_raw (runs_call call) hs = Inr x \<Longrightarrow> (x \<noteq> None) = list_ex (runs_operation call) hs"
  by (induction hs) (auto dest: binds_call split: sum.splits if_splits)

lemma handles_read: "read_agent_handles st = Inr hs \<Longrightarrow> hs = child_handles st"
  by (auto simp: read_agent_handles_def split: option.splits sum.splits json.splits elim: read_property.elims)

lemma map_sum_Inr: "map_sum f g x = Inr y \<longleftrightarrow> (\<exists>z. x = Inr z \<and> y = g z)"
  by (cases x) auto

lemma accepts_bound: "accepts_result st r = Inr b \<Longrightarrow> b = bound_by st r"
proof (cases r)
  case (ChildResult call body)
  moreover assume "accepts_result st r = Inr b"
  ultimately show ?thesis
    by (cases "read_agent_handles st")
      (auto simp: is_inbox_subagent_result_from_running_handle_def find_running_agent_handle_def map_sum_Inr
        simp del: child_handles.simps dest!: handles_read binds_handle)
next
  case (ToolActionResult call tool body)
  moreover assume "accepts_result st r = Inr b"
  ultimately show ?thesis
    by (cases "is_inbox_tool_result_from_recorded_workflow_tool_run st call tool")
      (auto dest: binds_runs simp del: bound_by.simps)
qed auto

lemma accepted_results_bound: "accepted_results st rs = Inr ok \<Longrightarrow> ok = filter (bound_by st) rs"
proof (induction rs arbitrary: ok)
  case (Cons r rs)
  then obtain b xs where "accepts_result st r = Inr b" "accepted_results st rs = Inr xs" "ok = (if b then r # xs else xs)"
    by (cases "accepts_result st r"; cases "accepted_results st rs") auto
  with Cons.IH show ?case by (auto dest: accepts_bound)
qed simp

text \<open>Results come into a wait from the inbox only when the state binds them.\<close>

definition trusts :: "(runtime_result \<Rightarrow> bool) \<Rightarrow> turn \<Rightarrow> bool" where
  "trusts P s \<longleftrightarrow> (\<forall>r. bound_by (turn_state s) r \<longrightarrow> P r)"

lemma trusts_accepted: "trusts P s \<Longrightarrow> accepted_results (turn_state s) rs = Inr ok \<Longrightarrow> \<forall>r \<in> set ok. P r"
  by (auto simp: trusts_def dest: accepted_results_bound)

lemma await_results_fine:
  "wait_fine C P w \<Longrightarrow> given_fine C P (turn_given s) \<Longrightarrow> trusts P s \<Longrightarrow> results_fine C P (await_results cfg w es s)"
proof (induction cfg w es s rule: await_results.induct)
  case (1 cfg w s)
  then show ?case by (simp add: steer_fine runtime_ready_fine split: option.split)
next
  case (2 cfg w e es s)
  show ?case
  proof (cases "runtime_ready w")
    case None
    have "results_fine C P (await_results cfg (accept_results ok (turn_clock s) w) es s)"
      if "\<not> turn_aborted s" "e = ResultsEvent rs" "accepted_results (turn_state s) rs = Inr ok" for rs ok
      using 2 None that trusts_accepted accept_results_fine by metis
    with None 2(2-) show ?thesis by (simp split: runtime_event.split sum.split)
  next
    case (Some ri)
    with 2 show ?thesis by (simp add: steer_fine runtime_ready_fine)
  qed
qed

lemma next_runtime_event_fine:
  assumes "wait_fine C P w" and "given_fine C P (turn_given s)" and "trusts P s"
  shows "results_fine C P (next_runtime_event cfg w s)"
proof -
  have "results_fine C P (await_results cfg (accept_results ok (turn_clock s) w) es s)"
    if "accepted_results (turn_state s) rs = Inr ok" for rs ok es
    using assms that trusts_accepted accept_results_fine await_results_fine by metis
  with assms show ?thesis by (simp add: next_runtime_event_def split: list.split runtime_event.split sum.split)
qed

lemma route_admitted_fine:
  "wait_fine C P w \<Longrightarrow> given_fine C P (turn_given s) \<Longrightarrow> trusts P s \<Longrightarrow> results_fine C P (route_admitted cfg w ns s)"
  by (induction cfg w ns s rule: route_admitted.induct)
    (auto simp: next_runtime_event_fine trusts_def results_fine_def [where s = "turn_phase_update _ _"] split: option.split)

lemma admit_boundary_fine:
  "step_fine C r \<Longrightarrow> given_fine C P (turn_given s) \<Longrightarrow> results_fine C P (admit_boundary cfg r vs s)"
proof (induction cfg r vs s rule: admit_boundary.induct)
  case (2 cfg r v vs s)
  show ?case
  proof (cases "admit_payload cfg v s")
    case (Admitted x)
    with 2 admitted_kept(1) [OF Admitted] show ?thesis by simp
  qed (use 2(2,3) in \<open>auto dest: admitted_kept\<close>)
qed (simp add: after_boundary_fine)

lemma resume_admission_fine:
  "return_fine C P ret \<Longrightarrow> given_fine C P (turn_given s) \<Longrightarrow> trusts P s \<Longrightarrow> results_fine C P (resume_admission cfg ret s)"
  by (cases ret) (simp_all add: resume_admission_def admit_boundary_fine admitted_in_wait_def route_admitted_fine)

lemma after_admit_step_fine:
  assumes "\<forall>x \<in> set (admit_states a). turn_cursor x = turn_cursor s \<and> turn_given x = turn_given s"
    and "return_fine C P ret" and "given_fine C P (turn_given s)" and "trusts P s"
  shows "results_fine C P (after_admit_step cfg v ret s a)"
proof (cases a)
  case (Admitted x)
  with assms have "trusts P x" by (simp add: trusts_def)
  with Admitted assms show ?thesis by (simp add: after_admit_step_def resume_admission_fine)
qed (use assms in \<open>simp_all add: after_admit_step_def\<close>)

lemma look_inbox_fine:
  assumes "wait_fine C P w" and "results_fine C P s" and "trusts P s"
  shows "results_fine C P (look_inbox cfg w s)"
proof -
  have "results_fine C P (after_admit_step cfg v (ToWait w) t (admit_payload cfg v t))"
    if "turn_cursor t = turn_cursor s" "turn_given t = turn_given s" for v t
    using assms that admit_states_kept(2) [of _ cfg v t]
    by (intro after_admit_step_fine) (auto simp: trusts_def results_fine_def)
  with assms show ?thesis
    by (auto simp: look_inbox_def Let_def results_fine_def [of C P s] split: prod.split read_result.split)
qed

lemma start_boundary_fine:
  "step_fine C r \<Longrightarrow> given_fine C P (turn_given s) \<Longrightarrow> results_fine C P (start_boundary cfg r s)"
  by (simp add: start_boundary_def admit_boundary_fine split: prod.split option.split)

lemma resume_fine:
  assumes "continuation_fine C P k" and "given_fine C P (turn_given s)" and "trusts P s"
  shows "results_fine C P (resume cfg k s)"
proof (cases k)
  case (AfterEffect v adm ret)
  with assms admit_states_kept(1) [of _ v adm s] show ?thesis
    by (auto simp: resume_def intro: after_admit_step_fine)
next
  case (AfterCancelTasks c ret)
  with assms show ?thesis by (simp add: resume_def cancel_in_turn_def abort_turn_def resume_admission_fine trusts_def)
next
  case (AfterChild r n d ns w)
  with assms show ?thesis
    by (cases r) (simp_all add: resume_def abort_turn_def next_runtime_event_fine route_admitted_fine Let_def trusts_def)
next
  case (AfterSteering r d ds results)
  with assms show ?thesis
    by (auto simp: resume_def abort_turn_def finish_steering_fine steer_fine split: routed.split option.split)
qed (use assms in \<open>simp_all add: resume_def start_boundary_fine await_results_fine\<close>)

lemma claims_settled_fine:
  assumes "continuation_fine C P k" and "results_fine C P s" and "trusts P (claims_settled cfg c ok k s)"
  shows "results_fine C P (claims_settled cfg c ok k s)"
proof -
  have g: "given_fine C P (turn_given s)" using assms(2) by (simp add: results_fine_def)
  consider "claims_settled cfg c ok k s = s"
    | "claims_settled cfg c ok k s = resume cfg k (s\<lparr>turn_cursor := c\<rparr>)"
    | "claims_settled cfg c ok k s = fail_turn HooksRefused s"
    unfolding claims_settled_def Let_def by (metis (no_types, lifting))
  then show ?thesis
  proof cases
    case 2
    with assms(3) have "trusts P (s\<lparr>turn_cursor := c\<rparr>)" by (simp add: trusts_def)
    with 2 assms(1) g show ?thesis by (simp add: resume_fine)
  qed (use assms(2) g in simp_all)
qed

lemma step_returned_fine:
  "step_fine C r \<Longrightarrow> given_fine C P (turn_given s) \<Longrightarrow> results_fine C P (step_returned before r s)"
  by (simp add: step_returned_def apply_result_def begin_apply_fine split: option.split)

lemma engine_call_fine [simp]: "results_fine C P (engine_call call s) = results_fine C P s"
  by (simp add: engine_call_def results_fine_def signal_def split: inbox_call.split prod.split)

text \<open>What an input can bring into a wait: results of a dispatch or of a workflow message, or results that
  the state after the step binds.\<close>

definition step_trusts :: "turn_config \<Rightarrow> turn \<Rightarrow> turn_input \<Rightarrow> runtime_result \<Rightarrow> bool" where
  "step_trusts cfg s i r \<longleftrightarrow>
     (\<exists>rs t. i = Dispatched rs t \<and> r \<in> set rs) \<or> (\<exists>c. i = MessageHandled c (Some r))
     \<or> bound_by (turn_state (advance_turn cfg s i)) r"

definition asks_for :: "turn_input \<Rightarrow> string list \<Rightarrow> bool" where
  "asks_for i calls \<longleftrightarrow> (\<exists>r. i = StepReturned r \<and> pending_calls r = Some calls)"

lemma advance_turn_fine:
  assumes fine: "results_fine C P s" and trust: "\<And>r. step_trusts cfg s i r \<Longrightarrow> P r"
    and asks: "\<And>calls. asks_for i calls \<Longrightarrow> C calls"
  shows "results_fine C P (advance_turn cfg s i)"
proof -
  have g: "given_fine C P (turn_given s)" and p: "phase_fine C P (turn_phase s)"
    using fine by (simp_all add: results_fine_def)
  have t: "trusts P (advance_turn cfg s i)" using trust by (simp add: trusts_def step_trusts_def)
  show ?thesis
  proof (cases i)
    case LookInbox
    have "trusts P s" if "turn_phase s = AwaitingEvent w" for w
      using t LookInbox that by (simp add: advance_turn_def trusts_def)
    with LookInbox fine p look_inbox_fine show ?thesis by (auto simp: advance_turn_def split: turn_phase.split)
  next
    case ClaimsSettled
    with fine p t claims_settled_fine show ?thesis by (auto simp: advance_turn_def split: turn_phase.splits)
  next
    case (StepReturned r)
    then have "step_fine C r" using asks by (auto simp: step_fine_def asks_for_def)
    with StepReturned fine g step_returned_fine show ?thesis by (simp add: advance_turn_def split: turn_phase.split)
  next
    case (EffectReturned tr)
    have "results_fine C P (after_admit_step cfg v ret s (note_admission v adm s))"
      if "turn_phase s = AdmitEffect v adm eff ret" "\<forall>e. eff \<noteq> ProxyEvent e" for v adm eff ret
    proof (rule after_admit_step_fine)
      show "\<forall>x \<in> set (admit_states (note_admission v adm s)). turn_cursor x = turn_cursor s \<and> turn_given x = turn_given s"
        using admit_states_kept(1) [of _ v adm s] by blast
      have "advance_turn cfg s i = after_admit_step cfg v ret s (note_admission v adm s)"
        using EffectReturned that by (cases eff) (simp_all add: advance_turn_def effect_returned_def)
      with t show "trusts P s" by (simp add: trusts_def)
    qed (use p g that in simp_all)
    with EffectReturned fine p g show ?thesis
      by (auto simp: advance_turn_def effect_returned_def begin_apply_fine split: turn_phase.split admission_effect.split)
  next
    case (Dispatched rs tr)
    have "wait_fine C P (dispatched_wait calls rs now)" if "C calls" for calls now
      using that Dispatched trust
      by (auto simp: dispatched_wait_def wait_fine_def accept_results_def image_image step_trusts_def)
    with Dispatched fine p g show ?thesis
      by (auto simp: advance_turn_def split: turn_phase.split intro!: begin_apply_fine)
  next
    case (MessageHandled c result)
    have "results_fine C P (message_handled cfg w c result s)" if w: "turn_phase s = HandlingMessage w" for w
    proof -
      have "trusts P (s\<lparr>turn_cursor := c\<rparr>)"
        using t MessageHandled w by (simp add: advance_turn_def message_handled_def Let_def trusts_def)
      moreover have "wait_fine C P (case result of None \<Rightarrow> w | Some r \<Rightarrow> accept_results [r] (turn_clock s) w)"
        using p w trust MessageHandled by (auto simp: step_trusts_def intro: accept_results_fine split: option.split)
      ultimately show ?thesis
        using g by (cases result) (simp_all add: message_handled_def Let_def await_results_fine)
    qed
    with MessageHandled fine show ?thesis by (simp add: advance_turn_def split: turn_phase.split)
  qed (use fine p g in \<open>auto simp: advance_turn_def apply_result_def begin_apply_fine split: turn_phase.split\<close>)
qed

text \<open>What a history has brought, and the calls its steps asked for.\<close>

fun trusted :: "turn_config \<Rightarrow> turn \<Rightarrow> turn_input list \<Rightarrow> runtime_result \<Rightarrow> bool" where
  "trusted cfg s [] r = False"
| "trusted cfg s (i # is) r = (step_trusts cfg s i r \<or> trusted cfg (advance_turn cfg s i) is r)"

lemma turn_run_fine:
  "results_fine C P s \<Longrightarrow> (\<And>r. trusted cfg s is r \<Longrightarrow> P r) \<Longrightarrow> (\<And>i calls. i \<in> set is \<Longrightarrow> asks_for i calls \<Longrightarrow> C calls) \<Longrightarrow>
   results_fine C P (foldl (advance_turn cfg) s is)"
proof (induction "is" arbitrary: s)
  case (Cons i "is")
  have "results_fine C P (advance_turn cfg s i)"
    using Cons.prems by (intro advance_turn_fine) auto
  then have "results_fine C P (foldl (advance_turn cfg) (advance_turn cfg s i) is)"
    by (rule Cons.IH) (use Cons.prems in auto)
  then show ?case by simp
qed simp

text \<open>C32: The results of runtime actions that a turn hands to its next step are those of a call list one
  of its steps asked for, one per call and in that order, each with the time it was accepted. Each of them was
  returned by the dispatch, by the handler of a workflow message, or was bound by the state of the session
  after an input of the turn: it names the call and the tool of the one blocking workflow tool run recorded for
  that call, or the operation of a child whose handle is running. Of the results an inbox payload brings, the
  owner accepts exactly those the state binds: no others, whatever they claim, and never a dispatch failure
  or a skill result.\<close>

theorem runtime_results_are_trusted:
  assumes "s0 = begin_turn ib q c now p" and "Some x \<in> set (tl (turn_given (foldl (advance_turn cfg) s0 is)))"
    and "step_results x = Some ri"
  shows "(\<exists>i \<in> set is. asks_for i (map runtime_call (input_results ri)))
    \<and> (\<forall>r \<in> set (input_results ri). trusted cfg s0 is r)
    \<and> map fst (accepted_at ri) = map runtime_call (input_results ri) \<and> None \<notin> snd ` set (accepted_at ri)
    \<and> (\<forall>st rs ok. accepted_results st rs = Inr ok \<longrightarrow> ok = filter (bound_by st) rs)"
proof -
  let ?C = "\<lambda>calls. \<exists>i \<in> set is. asks_for i calls"
  have "results_fine ?C (trusted cfg s0 is) s0"
    by (simp add: assms(1) begin_turn_def call_step_def results_fine_def given_fine_def)
  then have "results_fine ?C (trusted cfg s0 is) (foldl (advance_turn cfg) s0 is)"
    by (rule turn_run_fine) blast+
  with assms(2,3) accepted_results_bound show ?thesis
    by (auto simp: results_fine_def given_fine_def option_fine_def input_fine_def simp del: bound_by.simps)
qed

section \<open>Two turns\<close>

definition sample_turn_config :: turn_config where
  "sample_turn_config = \<lparr>turn_run = ''run'', task_mode = False, can_request_input = True\<rparr>"

definition sample_turn :: turn where
  "sample_turn = begin_turn sample_inbox empty_queue sample_cursor 7
     (Some \<lparr>step_control = None, step_delivery = Some sample_delivery, step_results = None\<rparr>)"

definition sample_result :: "step_action \<Rightarrow> step_result" where
  "sample_result a = \<lparr>result_action = a, result_context = (\<lambda>k. None), result_session = sample_session,
     task_context = None, task_session = None, background_tasks = []\<rparr>"

definition any_turn :: cancel_command where
  "any_turn = \<lparr>cancel_task_id = None, cancel_tasks = False, cancel_turn_id = None\<rparr>"

text \<open>The step reports it is done, but a cancel command came while it ran.\<close>

definition finished_too_late :: "turn_input list" where
  "finished_too_late = [StepReturned (sample_result (DoneAction \<lparr>done_output = None, done_is_error = None,
       done_usage = None, done_usage_delta = None\<rparr>)), ClaimsSettled, DescendantsCancelled]"

fun ended_with :: "turn_phase \<Rightarrow> turn_outcome option" where
  "ended_with (TurnEnded out) = Some out"
| "ended_with _ = None"

lemma ended_with_Some: "ended_with p = Some out \<longleftrightarrow> p = TurnEnded out"
  by (cases p) auto

lemma finished_too_late_ends:
  "turn_phase (foldl (advance_turn sample_turn_config) sample_turn
     (EngineCall (Pumped 0 (CancelPayload any_turn)) # finished_too_late)) = TurnEnded (ParkTurn None True None)"
  unfolding ended_with_Some [symmetric] by code_simp

lemma sample_turn_runs:
  "running (turn_phase sample_turn)" "cancels_turn (expected_turn sample_turn) (CancelPayload any_turn)"
  "the_source (turn_inbox sample_turn) 0 = Some \<lparr>source_number = 0, source_token = session_command_hook_token ''s'',
     source_pump = pump_phase.Reading, source_stopping = False\<rparr>"
  by code_simp+

theorem cancellation_is_never_lost_witness:
  "\<exists>attempts cancelled settled. ParkTurn None True None = ParkTurn attempts cancelled settled
     \<and> (cancelled \<or> settled \<noteq> None)"
  using cancellation_is_never_lost [of sample_turn sample_turn_config sample_inbox empty_queue sample_cursor 7
      "Some \<lparr>step_control = None, step_delivery = Some sample_delivery, step_results = None\<rparr>" "[]",
      OF _ sample_turn_runs _ finished_too_late_ends]
  by (simp add: sample_turn_def)

text \<open>A step waits for one call; the inbox brings a result no run owns, then the dispatched workflow answers.\<close>

definition waiting_turn :: "turn_input list" where
  "waiting_turn =
     [StepReturned (sample_result (ParkAction \<lparr>park_attempts = None, park_authorization = False,
        park_input_batch = False, park_calls = Some [''a''], park_settled = None\<rparr>)), ClaimsSettled,
      Dispatched [] no_transition, ClaimsSettled,
      EngineCall (Pumped 0 (ResultsPayload [ToolActionResult ''a'' ''tool'' JNull])), LookInbox,
      EngineCall (Pumped 0 (WorkflowPayload JNull)), LookInbox,
      MessageHandled sample_cursor (Some (ToolActionResult ''a'' ''tool'' (JBool True)))]"

lemma waiting_turn_given:
  "tl (turn_given (foldl (advance_turn sample_turn_config) sample_turn waiting_turn))
     = [Some \<lparr>step_control = None, step_delivery = None,
          step_results = Some \<lparr>accepted_at = [(''a'', Some 7)], input_results = [ToolActionResult ''a'' ''tool'' (JBool True)]\<rparr>\<rparr>]"
  by code_simp

theorem runtime_results_are_trusted_witness:
  "trusted sample_turn_config sample_turn waiting_turn (ToolActionResult ''a'' ''tool'' (JBool True))"
  using runtime_results_are_trusted [OF sample_turn_def, of _ sample_turn_config waiting_turn
      "\<lparr>accepted_at = [(''a'', Some 7)], input_results = [ToolActionResult ''a'' ''tool'' (JBool True)]\<rparr>"]
    waiting_turn_given
  by (simp add: sample_turn_def [symmetric])

end
