(* ===== verification/Session_Program.thy ===== *)
theory Session_Program
  imports Session_Turn
begin

text \<open>
  The program of a session owner (packages/eve/src/execution/session/): the loop that starts turns, parks
  between them and tells callers what became of their turns (\<open>runSessionLoop\<close> of program.ts), the end of
  a session (finalization.ts) and what surrounds both (\<open>runPreparedSession\<close> and \<open>reportResultToAnchor\<close>
  of program.ts). The loop is a step relation labelled with the steps that have returned: what a turn
  makes of itself is a value of Session_Turn, what the parked owner acts on a value of Session_Wait,
  and whether an awaited step throws is left open.
\<close>

section \<open>The owner and its loop\<close>

record boot =
  boot_anchors_itself :: bool
  boot_notifies :: bool
  boot_caller :: "turn_caller option"
  boot_initial :: "delivery option"
  boot_awaits_first :: bool
  boot_task_mode :: bool
  boot_has_deadline :: bool

datatype terminal_outcome =
    EndedDone done_result
  | EndedExpired
  | EndedFailed (failed_error: json) (failed_turn: "string option")

datatype loop_outcome = TerminalLoop terminal_outcome | TransferredLoop

datatype loop_phase =
    FirstWait
  | StartingTurn "step_payload option"
  | InTurn
  | InitialSettled "loop_outcome + turn_outcome"
  | AtTop turn_outcome
  | ParkedIn turn_outcome
  | LoopReturned loop_outcome
  | LoopThrew

record owner =
  owner_caller :: "turn_caller option"
  owner_turn :: "string option"
  turn_index :: nat
  in_initial :: bool
  loop_phase :: loop_phase

text \<open>The steps of the loop that others can observe, logged when they have returned.\<close>

datatype session_effect =
    TookDelivery delivery
  | TaskRemembered string
  | CallerBound turn_caller
  | TurnStarted string "step_payload option"
  | CancelledSettled
  | CancelledTold turn_caller
  | ParkTold turn_caller settled_turn
  | DescendantsStopped

definition delivery_payload :: "delivery \<Rightarrow> step_payload" where
  "delivery_payload d = \<lparr>step_control = None, step_delivery = Some d, step_results = None\<rparr>"

definition callback_delivery :: "deliver_payload list \<Rightarrow> delivery" where
  "callback_delivery ps =
     \<lparr>delivery_title = None, delivery_auth = None, delivery_caller = None, delivery_metadata = None,
      delivery_request_id = None, task_delivery_id = None, delivery_payloads = ps, delivery_policy = None\<rparr>"

definition start_owner :: "boot \<Rightarrow> owner" where
  "start_owner b =
     \<lparr>owner_caller = boot_caller b, owner_turn = None, turn_index = 0, in_initial = True,
      loop_phase = (if boot_awaits_first b then FirstWait
                    else StartingTurn (map_option delivery_payload (boot_initial b)))\<rparr>"

text \<open>The instructions that end the session: expiry, a reset, and the close of the inbox.\<close>

fun ends_session :: "next_instruction \<Rightarrow> bool" where
  "ends_session (ControlTurn c) = (c = Expired \<or> c = Reset)"
| "ends_session SessionClosed = True"
| "ends_session _ = False"

text \<open>A prewarmed owner has no context to clear and no turn to cancel or resume.\<close>

fun ignored_by_prewarmed :: "next_instruction \<Rightarrow> bool" where
  "ignored_by_prewarmed (ControlTurn c) = (c = Clear \<or> c = Compact)"
| "ignored_by_prewarmed CancelTurn = True"
| "ignored_by_prewarmed (AuthorizationResumed ps) = True"
| "ignored_by_prewarmed _ = False"

definition unsettled :: "turn_outcome \<Rightarrow> turn_outcome" where
  "unsettled out = (case out of ParkTurn a c st \<Rightarrow> ParkTurn a c None | DoneTurn d \<Rightarrow> DoneTurn d)"

definition remembered :: "turn_caller \<Rightarrow> session_effect list" where
  "remembered c = (case caller_task_id c of None \<Rightarrow> [] | Some t \<Rightarrow> [TaskRemembered t])"

definition begun :: "owner \<Rightarrow> owner" where
  "begun s = s\<lparr>owner_turn := Some (turn_name (turn_index s)), turn_index := Suc (turn_index s), loop_phase := InTurn\<rparr>"

text \<open>
  One rule per step of the loop and per place where it can throw. What the parked owner is told to do and
  what a turn returns are left open, as is whether a delivery moves with its session (Session_Handoff
  decides it): a delivery that does not move is taken.
\<close>

abbreviation at :: "owner \<Rightarrow> loop_phase \<Rightarrow> owner" where
  "at s p \<equiv> s\<lparr>loop_phase := p\<rparr>"

inductive loop_step :: "boot \<Rightarrow> owner \<Rightarrow> session_effect list \<Rightarrow> owner \<Rightarrow> bool" for b where
  starts_without_caller:
    "\<lbrakk>loop_phase s = StartingTurn p; owner_caller s = None\<rbrakk>
     \<Longrightarrow> loop_step b s [TurnStarted (turn_name (turn_index s)) p] (begun s)"
| starts_for_caller:
    "\<lbrakk>loop_phase s = StartingTurn p; owner_caller s = Some c\<rbrakk>
     \<Longrightarrow> loop_step b s (remembered c @ [CallerBound c, TurnStarted (turn_name (turn_index s)) p]) (begun s)"
| binding_throws:
    "\<lbrakk>loop_phase s = StartingTurn p; owner_caller s = Some c\<rbrakk>
     \<Longrightarrow> loop_step b s (remembered c) (at s LoopThrew)"
| turn_returns:
    "loop_phase s = InTurn
     \<Longrightarrow> loop_step b s [] (at s (if in_initial s then InitialSettled (Inr out) else AtTop out))"
| turn_throws: "loop_phase s = InTurn \<Longrightarrow> loop_step b s [] (at s LoopThrew)"
| timer_started:
    "loop_phase s = InitialSettled x
     \<Longrightarrow> loop_step b s []
          (s\<lparr>in_initial := False, loop_phase := (case x of Inl r \<Rightarrow> LoopReturned r | Inr out \<Rightarrow> AtTop out)\<rparr>)"
| timer_throws:
    "\<lbrakk>loop_phase s = InitialSettled x; boot_has_deadline b\<rbrakk> \<Longrightarrow> loop_step b s [] (at s LoopThrew)"
| turn_done:
    "loop_phase s = AtTop (DoneTurn d)
     \<Longrightarrow> loop_step b s [] (at s (LoopReturned (TerminalLoop (EndedDone d))))"
| cancelled:
    "loop_phase s = AtTop (ParkTurn a True st)
     \<Longrightarrow> loop_step b s (CancelledSettled # (case owner_caller s of None \<Rightarrow> [] | Some c \<Rightarrow> [CancelledTold c]))
          (s\<lparr>owner_caller := None, loop_phase := ParkedIn (ParkTurn a True st)\<rparr>)"
| settling_throws:
    "loop_phase s = AtTop (ParkTurn a True st) \<Longrightarrow> loop_step b s [] (at s LoopThrew)"
| telling_cancelled_throws:
    "\<lbrakk>loop_phase s = AtTop (ParkTurn a True st); owner_caller s = Some c\<rbrakk>
     \<Longrightarrow> loop_step b s [CancelledSettled] (s\<lparr>owner_caller := None, loop_phase := LoopThrew\<rparr>)"
| settled_for_caller:
    "\<lbrakk>loop_phase s = AtTop (ParkTurn a False (Some st)); owner_caller s = Some c\<rbrakk>
     \<Longrightarrow> loop_step b s [ParkTold c st]
          (s\<lparr>owner_caller := None, loop_phase := ParkedIn (ParkTurn a False (Some st))\<rparr>)"
| telling_throws:
    "\<lbrakk>loop_phase s = AtTop (ParkTurn a False (Some st)); owner_caller s = Some c\<rbrakk>
     \<Longrightarrow> loop_step b s [] (at s LoopThrew)"
| settled_for_nobody:
    "\<lbrakk>loop_phase s = AtTop (ParkTurn a False (Some st)); owner_caller s = None\<rbrakk>
     \<Longrightarrow> loop_step b s [] (at s (ParkedIn (ParkTurn a False (Some st))))"
| parked_unsettled:
    "loop_phase s = AtTop (ParkTurn a False None)
     \<Longrightarrow> loop_step b s [] (at s (ParkedIn (ParkTurn a False None)))"
| authorization_resumes:
    "loop_phase s = ParkedIn out
     \<Longrightarrow> loop_step b s [] (at s (StartingTurn (Some (delivery_payload (callback_delivery ps)))))"
| session_expires:
    "\<lbrakk>loop_phase s = ParkedIn out; ends_session i\<rbrakk>
     \<Longrightarrow> loop_step b s [] (at s (LoopReturned (TerminalLoop EndedExpired)))"
| control_turn:
    "\<lbrakk>loop_phase s = ParkedIn out; c = Clear \<or> c = Compact\<rbrakk>
     \<Longrightarrow> loop_step b s []
          (at s (StartingTurn (Some \<lparr>step_control = Some c, step_delivery = None, step_results = None\<rparr>)))"
| descendant_stopped:
    "loop_phase s = ParkedIn out
     \<Longrightarrow> loop_step b s [DescendantsStopped, CancelledSettled]
          (s\<lparr>owner_caller := None, loop_phase := AtTop (unsettled out)\<rparr>)"
| stopping_throws:
    "\<lbrakk>loop_phase s = ParkedIn out; es = [] \<or> es = [DescendantsStopped]\<rbrakk> \<Longrightarrow> loop_step b s es (at s LoopThrew)"
| delivery_taken:
    "loop_phase s = ParkedIn out \<or> loop_phase s = FirstWait
     \<Longrightarrow> loop_step b s [TookDelivery d]
          (s\<lparr>owner_caller := (case delivery_caller d of None \<Rightarrow> owner_caller s | Some c \<Rightarrow> Some c),
             loop_phase := StartingTurn (Some (delivery_payload d))\<rparr>)"
| session_moved: "loop_phase s = ParkedIn out \<Longrightarrow> loop_step b s [] (at s (LoopReturned TransferredLoop))"
| waiting_throws: "loop_phase s = ParkedIn out \<or> loop_phase s = FirstWait \<Longrightarrow> loop_step b s [] (at s LoopThrew)"
| prewarmed_ignores: "\<lbrakk>loop_phase s = FirstWait; ignored_by_prewarmed i\<rbrakk> \<Longrightarrow> loop_step b s [] s"
| prewarmed_ends:
    "\<lbrakk>loop_phase s = FirstWait; ends_session i\<rbrakk>
     \<Longrightarrow> loop_step b s [] (at s (InitialSettled (Inl (TerminalLoop EndedExpired))))"
| prewarmed_moved:
    "loop_phase s = FirstWait \<Longrightarrow> loop_step b s [] (at s (InitialSettled (Inl TransferredLoop)))"

text \<open>A run of the loop, with the log of the steps that returned.\<close>

inductive loop_run :: "boot \<Rightarrow> owner \<Rightarrow> session_effect list \<Rightarrow> owner \<Rightarrow> bool" for b s where
  refl: "loop_run b s [] s"
| step: "\<lbrakk>loop_run b s es t; loop_step b t fs u\<rbrakk> \<Longrightarrow> loop_run b s (es @ fs) u"

inductive_simps phase_steps: "loop_step b (at s p) es t"
inductive_cases loop_runE: "loop_run b s es t"

section \<open>The end of a session (finalization.ts)\<close>

record final_result =
  final_error :: bool
  final_output :: "json option"
  final_session_usage :: "json option"
  final_turn_usage :: "json option"

record entry_result =
  entry_is_error :: "bool option"
  entry_output :: "json option"
  entry_usage :: "json option"
  entry_usage_delta :: "json option"

datatype ending_effect =
    TimerCancelled
  | InboxDisposed
  | AnchorAwaited
  | ChildrenTerminated
  | CompletionEmitted
  | FailureEmitted json "string option"
  | CallbackFired final_result
  | ParentNotified final_result
  | CallerNotified turn_caller "bool option" "json option" "json option"
  | AnchorDisposed
  | AnchorNotified entry_result
  | AnchorSignalled entry_result

definition final_of :: "terminal_outcome \<Rightarrow> final_result" where
  "final_of out =
     (case out of
        EndedDone d \<Rightarrow> \<lparr>final_error = (done_is_error d = Some True), final_output = done_output d,
                        final_session_usage = done_usage d, final_turn_usage = done_usage_delta d\<rparr>
      | EndedExpired \<Rightarrow> \<lparr>final_error = False, final_output = Some (JStr ''''), final_session_usage = None,
                         final_turn_usage = None\<rparr>
      | EndedFailed e t \<Rightarrow> \<lparr>final_error = True, final_output = Some e, final_session_usage = None,
                            final_turn_usage = None\<rparr>)"

definition final_entry :: "terminal_outcome \<Rightarrow> entry_result" where
  "final_entry out =
     (case out of
        EndedDone d \<Rightarrow> \<lparr>entry_is_error = done_is_error d, entry_output = done_output d,
                        entry_usage = done_usage d, entry_usage_delta = done_usage_delta d\<rparr>
      | _ \<Rightarrow> \<lparr>entry_is_error = Some (final_error (final_of out)), entry_output = final_output (final_of out),
             entry_usage = None, entry_usage_delta = None\<rparr>)"

definition terminal_events :: "terminal_outcome \<Rightarrow> ending_effect list" where
  "terminal_events out =
     (case out of EndedDone d \<Rightarrow> [] | EndedExpired \<Rightarrow> [CompletionEmitted] | EndedFailed e t \<Rightarrow> [FailureEmitted e t])"

text \<open>The steps of \<open>finalizeSession\<close>, in order; a failed session's caller is told \<open>isError: true\<close>.\<close>

definition settlements :: "bool \<Rightarrow> turn_caller option \<Rightarrow> final_result \<Rightarrow> ending_effect list" where
  "settlements as_task caller r =
     (if as_task then [CallbackFired r, ParentNotified r]
      else case caller of
             None \<Rightarrow> []
           | Some c \<Rightarrow> [CallerNotified c (if final_error r then Some True else None) (final_output r) (final_turn_usage r)])"

definition finalize_session :: "bool \<Rightarrow> bool \<Rightarrow> turn_caller option \<Rightarrow> terminal_outcome \<Rightarrow> ending_effect list" where
  "finalize_session as_task has_state caller out =
     (if has_state then [ChildrenTerminated] else []) @ terminal_events out
     @ settlements as_task caller (final_of out)"

section \<open>Around the loop (runPreparedSession, reportResultToAnchor)\<close>

text \<open>
  Awaited steps run one after the other until one throws. Which of them throw is an input: a list of
  booleans, one for each step as it is attempted, and no further step throws once it is used up. The
  log holds the steps that returned.
\<close>

type_synonym tape = "bool list"

fun attempt :: "'e list \<Rightarrow> tape \<Rightarrow> 'e list \<times> bool \<times> tape" where
  "attempt [] ts = ([], False, ts)"
| "attempt (e # es) [] = (e # es, False, [])"
| "attempt (e # es) (True # ts) = ([], True, ts)"
| "attempt (e # es) (False # ts) = (let (done, threw, rest) = attempt es ts in (e # done, threw, rest))"

record ending =
  timer_active :: bool
  anchor_claimed :: bool
  anchored_result :: entry_result
  thrown :: json

definition pending_result :: entry_result where
  "pending_result = \<lparr>entry_is_error = Some True, entry_output = Some (JStr ''''), entry_usage = None,
     entry_usage_delta = None\<rparr>"

definition moved_result :: entry_result where
  "moved_result = pending_result\<lparr>entry_is_error := None\<rparr>"

definition over :: "owner \<Rightarrow> bool" where
  "over s = (case loop_phase s of LoopReturned r \<Rightarrow> True | LoopThrew \<Rightarrow> True | _ \<Rightarrow> False)"

text \<open>
  The try block once the timer and the inbox are disposed of: what is reported to the anchor with what
  the owner returns, or nothing when a step threw.
\<close>

definition try_ending :: "boot \<Rightarrow> owner \<Rightarrow> ending \<Rightarrow> tape
    \<Rightarrow> ending_effect list \<times> (entry_result \<times> entry_result) option \<times> tape" where
  "try_ending b s e ts =
     (case loop_phase s of
        LoopReturned TransferredLoop \<Rightarrow>
          if \<not> boot_anchors_itself b then ([], Some (pending_result, moved_result), ts)
          else if \<not> anchor_claimed e then ([], None, ts)
          else (case attempt [AnchorAwaited] ts of
                  (done, threw, rest) \<Rightarrow> (done, if threw then None else Some (anchored_result e, anchored_result e), rest))
      | LoopReturned (TerminalLoop out) \<Rightarrow>
          (case attempt (finalize_session (boot_task_mode b) True (owner_caller s) out) ts of
             (done, threw, rest) \<Rightarrow> (done, if threw then None else Some (final_entry out, final_entry out), rest))
      | _ \<Rightarrow> ([], None, ts))"

text \<open>The catch block: the session is failed, and what is reported stays the pending error.\<close>

definition fail_ending :: "boot \<Rightarrow> owner \<Rightarrow> ending \<Rightarrow> tape \<Rightarrow> ending_effect list \<times> tape" where
  "fail_ending b s e ts =
     (case attempt (finalize_session (boot_task_mode b) True (owner_caller s) (EndedFailed (thrown e) (owner_turn s))) ts of
        (done, threw, rest) \<Rightarrow> (done, rest))"

definition awaits_anchor :: "boot \<Rightarrow> owner \<Rightarrow> bool" where
  "awaits_anchor b s = (boot_anchors_itself b \<and> loop_phase s = LoopReturned TransferredLoop)"

definition report_to_anchor :: "boot \<Rightarrow> bool \<Rightarrow> entry_result \<Rightarrow> ending_effect list" where
  "report_to_anchor b claimed r =
     (if boot_anchors_itself b
      then (if claimed then [AnchorDisposed] else []) @ (if boot_notifies b then [AnchorNotified r] else [])
      else [AnchorSignalled r])"

definition dispose_owner :: "bool \<Rightarrow> tape \<Rightarrow> ending_effect list \<times> bool \<times> tape" where
  "dispose_owner timer ts =
     (case attempt (if timer then [TimerCancelled] else []) ts of
        (es, t, ts') \<Rightarrow> (case attempt [InboxDisposed] ts' of (fs, u, rest) \<Rightarrow> (es @ fs, t \<or> u, rest)))"

text \<open>\<open>None\<close> is the safe outer error the owner throws.\<close>

definition end_session :: "boot \<Rightarrow> owner \<Rightarrow> ending \<Rightarrow> tape \<Rightarrow> ending_effect list \<times> entry_result option" where
  "end_session b s e ts =
     (let (disposed, threw, ts1) = dispose_owner (timer_active e) ts;
          (tried, settled, ts2) = (if threw then ([], None, ts1) else try_ending b s e ts1);
          (failed, ts3) = (if settled = None then fail_ending b s e ts2 else ([], ts2));
          awaited = (awaits_anchor b s \<and> \<not> threw);
          (reported, lost, ts4) =
            attempt (report_to_anchor b (anchor_claimed e \<and> \<not> awaited)
                       (case settled of None \<Rightarrow> pending_result | Some (r, _) \<Rightarrow> r)) ts3
      in (disposed @ tried @ failed @ reported, if lost then None else map_option snd settled))"

text \<open>\<open>failSession\<close>: the boot failed before the loop, and the caller is known only if it resolves again.\<close>

definition fail_session :: "bool \<Rightarrow> bool \<Rightarrow> turn_caller option \<Rightarrow> json \<Rightarrow> ending_effect list" where
  "fail_session as_task has_state resolved error =
     finalize_session as_task has_state resolved (EndedFailed error None)"

section \<open>Who was told what\<close>

fun told :: "session_effect \<Rightarrow> turn_caller list" where
  "told (CancelledTold c) = [c]"
| "told (ParkTold c st) = [c]"
| "told _ = []"

fun taken_from :: "session_effect \<Rightarrow> turn_caller list" where
  "taken_from (TookDelivery d) = (case delivery_caller d of None \<Rightarrow> [] | Some c \<Rightarrow> [c])"
| "taken_from _ = []"

fun told_at_end :: "ending_effect \<Rightarrow> turn_caller list" where
  "told_at_end (CallerNotified c err out u) = [c]"
| "told_at_end _ = []"

fun is_terminal_event :: "ending_effect \<Rightarrow> bool" where
  "is_terminal_event CompletionEmitted = True"
| "is_terminal_event (FailureEmitted e t) = True"
| "is_terminal_event _ = False"

fun reports_result :: "ending_effect \<Rightarrow> bool" where
  "reports_result (AnchorNotified r) = True"
| "reports_result (AnchorSignalled r) = True"
| "reports_result _ = False"

definition pending :: "turn_caller option \<Rightarrow> turn_caller list" where
  "pending c = (case c of None \<Rightarrow> [] | Some c' \<Rightarrow> [c'])"

definition callers :: "boot \<Rightarrow> session_effect list \<Rightarrow> turn_caller list" where
  "callers b es = pending (boot_caller b) @ concat (map taken_from es)"

text \<open>The caller the latest turn was bound to, and that answers go to nobody else.\<close>

fun bound_to :: "turn_caller option \<Rightarrow> session_effect list \<Rightarrow> turn_caller option" where
  "bound_to c [] = c"
| "bound_to c (CallerBound d # es) = bound_to (Some d) es"
| "bound_to c (_ # es) = bound_to c es"

fun answers_bound :: "turn_caller option \<Rightarrow> session_effect list \<Rightarrow> bool" where
  "answers_bound c [] = True"
| "answers_bound c (CallerBound d # es) = answers_bound (Some d) es"
| "answers_bound c (CancelledTold d # es) = (c = Some d \<and> answers_bound c es)"
| "answers_bound c (ParkTold d st # es) = (c = Some d \<and> answers_bound c es)"
| "answers_bound c (_ # es) = answers_bound c es"

fun turns_of :: "session_effect list \<Rightarrow> string list" where
  "turns_of [] = []"
| "turns_of (TurnStarted t p # es) = t # turns_of es"
| "turns_of (_ # es) = turns_of es"

lemma bound_to_append [simp]: "bound_to c (es @ fs) = bound_to (bound_to c es) fs"
  by (induction es arbitrary: c rule: bound_to.induct) auto

lemma answers_bound_append [simp]:
  "answers_bound c (es @ fs) = (answers_bound c es \<and> answers_bound (bound_to c es) fs)"
  by (induction es arbitrary: c rule: answers_bound.induct) auto

lemma turns_of_append [simp]: "turns_of (es @ fs) = turns_of es @ turns_of fs"
  by (induction es rule: turns_of.induct) auto

lemma remembered_simps [simp]:
  "concat (map told (remembered c)) = []" "concat (map taken_from (remembered c)) = []"
  "bound_to d (remembered c) = d" "answers_bound d (remembered c)" "turns_of (remembered c) = []"
  by (cases "caller_task_id c"; simp add: remembered_def)+

lemma pending_simps [simp]: "pending None = []" "pending (Some c) = [c]"
  by (simp_all add: pending_def)

lemma subseq_pending [simp]: "subseq (pending c) (pending c @ xs)" "subseq [] xs"
  by auto

fun bound_phase :: "loop_phase \<Rightarrow> bool" where
  "bound_phase InTurn = True"
| "bound_phase (AtTop out) = True"
| "bound_phase (InitialSettled (Inr out)) = True"
| "bound_phase _ = False"

definition caller_bound :: "owner \<Rightarrow> turn_caller option \<Rightarrow> bool" where
  "caller_bound s c = (bound_phase (loop_phase s) \<longrightarrow> owner_caller s \<noteq> None \<longrightarrow> owner_caller s = c)"

definition owner_inv :: "boot \<Rightarrow> session_effect list \<Rightarrow> owner \<Rightarrow> bool" where
  "owner_inv b es s =
     (subseq (concat (map told es) @ pending (owner_caller s)) (callers b es)
      \<and> answers_bound None es \<and> caller_bound s (bound_to None es)
      \<and> turns_of es = map turn_name [0..<turn_index s])"

lemma step_tells_pending:
  assumes "loop_step b s fs t"
  shows "subseq (concat (map told fs) @ pending (owner_caller t)) (pending (owner_caller s) @ concat (map taken_from fs))"
  using assms by (cases rule: loop_step.cases) (auto simp: begun_def split: option.split sum.split)

lemma step_tells_bound:
  assumes "loop_step b s fs t" "caller_bound s c"
  shows "answers_bound c fs \<and> caller_bound t (bound_to c fs)"
  using assms
  by (cases rule: loop_step.cases) (auto simp: begun_def caller_bound_def split: option.splits sum.splits)

lemma step_numbers_turns:
  assumes "loop_step b s fs t"
  shows "map turn_name [0..<turn_index t] = map turn_name [0..<turn_index s] @ turns_of fs"
  using assms by (cases rule: loop_step.cases) (auto simp: begun_def split: option.split sum.split)

lemma subseq_chain:
  assumes "subseq (xs @ p) zs" "subseq (ys @ q) (p @ ts)"
  shows "subseq ((xs @ ys) @ q) (zs @ ts)"
proof -
  have "subseq (xs @ (ys @ q)) (xs @ (p @ ts))"
    using assms(2) by (simp add: subseq_append')
  moreover have "subseq ((xs @ p) @ ts) (zs @ ts)"
    using assms(1) by (rule list_emb_append_mono) simp
  ultimately show ?thesis
    using subseq_order.trans [of "xs @ (ys @ q)" "xs @ (p @ ts)" "zs @ ts"] by simp
qed

lemma owner_inv_step:
  assumes "loop_step b s fs t" "owner_inv b es s"
  shows "owner_inv b (es @ fs) t"
  using subseq_chain [of "concat (map told es)" "pending (owner_caller s)" "callers b es"] assms(2)
    step_tells_pending [OF assms(1)] step_tells_bound [OF assms(1)] step_numbers_turns [OF assms(1)]
  by (simp add: owner_inv_def callers_def)

lemma owner_inv_run:
  assumes "loop_run b (start_owner b) es s"
  shows "owner_inv b es s"
  using assms
proof (induction rule: loop_run.induct)
  case refl
  show ?case by (simp add: owner_inv_def start_owner_def callers_def caller_bound_def)
next
  case (step es t fs u)
  then show ?case by (blast intro: owner_inv_step)
qed

section \<open>What an ending does\<close>

lemma attempt_without_failure [simp]: "attempt es [] = (es, False, [])"
  by (cases es) simp_all

lemma attempt_prefix:
  assumes "attempt es ts = (done, threw, rest)"
  shows "prefix done es \<and> (\<not> threw \<longrightarrow> done = es)"
  using assms
  by (induction es ts arbitrary: "done" threw rest rule: attempt.induct) (auto split: prod.splits)

lemma filtered_prefix: "prefix xs ys \<Longrightarrow> prefix (filter P xs) (filter P ys)"
  by (auto elim!: prefixE)

lemma attempt_filter:
  assumes "attempt es ts = (done, threw, rest)"
  shows "prefix (filter P done) (filter P es) \<and> length (filter P done) \<le> length (filter P es)"
  using filtered_prefix [OF conjunct1 [OF attempt_prefix [OF assms]]] prefix_length_le by blast

lemma finalize_terminal: "filter is_terminal_event (finalize_session m h c out) = terminal_events out"
  by (simp add: finalize_session_def terminal_events_def settlements_def
      split: terminal_outcome.split option.split)

lemma finalize_tells:
  "concat (map told_at_end (finalize_session m h c out)) = (if m then [] else pending c)"
  by (simp add: finalize_session_def terminal_events_def settlements_def
      split: terminal_outcome.split option.split)

lemma finalize_reports: "filter reports_result (finalize_session m h c out) = []"
  by (simp add: finalize_session_def terminal_events_def settlements_def
      split: terminal_outcome.split option.split)

lemma terminal_events_one: "length (terminal_events out) \<le> 1"
  by (simp add: terminal_events_def split: terminal_outcome.split)

text \<open>The caller is the last to be told, so that whatever throws it is told once at most.\<close>

lemma finalize_tells_last:
  assumes "attempt (finalize_session m h c out) ts = (done, threw, rest)"
  shows "concat (map told_at_end done) = (if m \<or> threw then [] else pending c)"
proof -
  let ?before = "(if h then [ChildrenTerminated] else []) @ terminal_events out"
  have quiet: "concat (map told_at_end ?before) = []" "concat (map told_at_end (settlements True c r)) = []" for r
    by (auto simp: terminal_events_def settlements_def split: terminal_outcome.split)
  have split_attempt: "concat (map told_at_end done') = (if threw' then [] else concat (map told_at_end (xs @ ys)))"
    if "attempt (xs @ ys) us = (done', threw', rest')" "concat (map told_at_end xs) = []" "length ys \<le> 1"
    for xs ys :: "ending_effect list" and us done' threw' rest'
    using that
  proof (induction xs us arbitrary: done' threw' rest' rule: attempt.induct)
    case (1 us)
    then show ?case
      by (cases ys; cases us; cases "hd us") (auto split: prod.splits)
  qed (auto split: prod.splits)
  show ?thesis
  proof (cases m)
    case True
    have "prefix done (finalize_session m h c out)"
      using attempt_prefix [OF assms] by simp
    then have "set done \<subseteq> set (finalize_session m h c out)"
      by (rule set_mono_prefix)
    then show ?thesis
      using True finalize_tells [of m h c out] by auto
  next
    case False
    then show ?thesis
      using split_attempt [of ?before "settlements m c (final_of out)" ts "done" threw rest] assms quiet
        finalize_tells [of m h c out]
      by (simp add: finalize_session_def settlements_def split: option.splits)
  qed
qed

abbreviation tells :: "ending_effect list \<Rightarrow> turn_caller list" where
  "tells es \<equiv> concat (map told_at_end es)"

lemma bookkeeping_quiet:
  "set es \<subseteq> {TimerCancelled, InboxDisposed, AnchorAwaited}
   \<Longrightarrow> filter is_terminal_event es = [] \<and> filter reports_result es = [] \<and> tells es = []"
  by (induction es) auto

lemma dispose_owner_quiet:
  assumes "dispose_owner timer ts = (es, threw, rest)"
  shows "filter is_terminal_event es = [] \<and> filter reports_result es = [] \<and> tells es = []"
proof -
  have "set es \<subseteq> {TimerCancelled, InboxDisposed}"
    using assms set_mono_prefix
    by (fastforce simp: dispose_owner_def split: prod.splits if_splits dest!: attempt_prefix)
  then show ?thesis
    by (intro bookkeeping_quiet) blast
qed

lemma try_ending_quiet:
  assumes "try_ending b s e ts = (es, settled, rest)"
  shows "filter reports_result es = [] \<and> length (filter is_terminal_event es) \<le> 1
         \<and> (settled = None \<longrightarrow> tells es = []) \<and> subseq (tells es) (pending (owner_caller s))"
proof (cases "\<exists>out. loop_phase s = LoopReturned (TerminalLoop out)")
  case True
  then obtain out where phase: "loop_phase s = LoopReturned (TerminalLoop out)" ..
  obtain es' threw rest' where run: "attempt (finalize_session (boot_task_mode b) True (owner_caller s) out) ts = (es', threw, rest')"
    by (metis prod_cases3)
  have "es = es'" "settled = None \<longleftrightarrow> threw"
    using assms phase run by (auto simp: try_ending_def split: if_splits)
  moreover have "filter reports_result es' = []"
    using attempt_filter [OF run, of reports_result] by (simp add: finalize_reports)
  moreover have "length (filter is_terminal_event es') \<le> 1"
    using attempt_filter [OF run, of is_terminal_event] terminal_events_one [of out] by (simp add: finalize_terminal)
  ultimately show ?thesis
    using finalize_tells_last [OF run] by simp
next
  case False
  have "set es \<subseteq> {AnchorAwaited}"
    using assms False set_mono_prefix
    by (fastforce simp: try_ending_def split: loop_phase.splits loop_outcome.splits prod.splits if_splits
        dest!: attempt_prefix)
  then have "filter is_terminal_event es = [] \<and> filter reports_result es = [] \<and> tells es = []"
    by (intro bookkeeping_quiet) blast
  then show ?thesis by (simp del: concat_eq_Nil_conv)
qed

lemma fail_ending_quiet:
  assumes "fail_ending b s e ts = (es, rest)"
  shows "filter reports_result es = [] \<and> length (filter is_terminal_event es) \<le> 1
         \<and> subseq (tells es) (pending (owner_caller s))"
proof -
  let ?out = "EndedFailed (thrown e) (owner_turn s)"
  obtain threw where run: "attempt (finalize_session (boot_task_mode b) True (owner_caller s) ?out) ts = (es, threw, rest)"
    using assms by (auto simp: fail_ending_def split: prod.splits)
  have "filter reports_result es = []"
    using attempt_filter [OF run, of reports_result] by (simp add: finalize_reports)
  moreover have "length (filter is_terminal_event es) \<le> 1"
    using attempt_filter [OF run, of is_terminal_event] terminal_events_one [of ?out] by (simp add: finalize_terminal)
  ultimately show ?thesis
    using finalize_tells_last [OF run] by simp
qed

lemma report_quiet:
  assumes "attempt (report_to_anchor b claimed r) ts = (es, threw, rest)"
  shows "filter is_terminal_event es = [] \<and> tells es = [] \<and> filter reports_result (butlast es) = []"
  using assms
  by (auto simp: report_to_anchor_def split: if_splits prod.splits elim!: attempt.elims)

text \<open>The four parts of an ending.\<close>

lemma end_sessionE:
  assumes "end_session b s e ts = (es, r)"
  obtains disposed threw ts1 tried settled ts2 failed ts3 reported lost ts4 result where
    "es = disposed @ tried @ failed @ reported"
    "dispose_owner (timer_active e) ts = (disposed, threw, ts1)"
    "(if threw then ([], None, ts1) else try_ending b s e ts1) = (tried, settled, ts2)"
    "(if settled = None then fail_ending b s e ts2 else ([], ts2)) = (failed, ts3)"
    "attempt (report_to_anchor b (anchor_claimed e \<and> \<not> (awaits_anchor b s \<and> \<not> threw)) result) ts3
       = (reported, lost, ts4)"
    "result = (case settled of None \<Rightarrow> pending_result | Some (x, _) \<Rightarrow> x)"
    "r = (if lost then None else map_option snd settled)"
  using assms that by (auto simp: end_session_def Let_def split: prod.splits)

lemma ending_quiet:
  assumes "end_session b s e ts = (es, r)"
  shows "length (filter is_terminal_event es) \<le> 2 \<and> filter reports_result (butlast es) = []
         \<and> subseq (tells es) (pending (owner_caller s))"
proof -
  from assms obtain disposed threw ts1 tried settled ts2 failed ts3 reported lost ts4 result where
    es: "es = disposed @ tried @ failed @ reported"
    and disposing: "dispose_owner (timer_active e) ts = (disposed, threw, ts1)"
    and trying: "(if threw then ([], None, ts1) else try_ending b s e ts1) = (tried, settled, ts2)"
    and failing: "(if settled = None then fail_ending b s e ts2 else ([], ts2)) = (failed, ts3)"
    and reporting: "attempt (report_to_anchor b (anchor_claimed e \<and> \<not> (awaits_anchor b s \<and> \<not> threw)) result) ts3
       = (reported, lost, ts4)"
    by (rule end_sessionE)
  have d: "filter is_terminal_event disposed = []" "filter reports_result disposed = []" "tells disposed = []"
    using dispose_owner_quiet [OF disposing] by simp_all
  have t: "filter reports_result tried = []" "length (filter is_terminal_event tried) \<le> 1"
      "settled = None \<Longrightarrow> tells tried = []" "subseq (tells tried) (pending (owner_caller s))"
    using trying try_ending_quiet [of b s e ts1 tried settled ts2] by (auto split: if_splits)
  have f: "filter reports_result failed = []" "length (filter is_terminal_event failed) \<le> 1"
      "settled \<noteq> None \<Longrightarrow> tells failed = []" "subseq (tells failed) (pending (owner_caller s))"
    using failing fail_ending_quiet [of b s e ts2 failed ts3] by (auto split: if_splits)
  have r: "filter is_terminal_event reported = []" "tells reported = []" "filter reports_result (butlast reported) = []"
    using report_quiet [OF reporting] by simp_all
  have "length (filter is_terminal_event es) \<le> 2"
    using es d(1) t(2) f(2) r(1) by simp
  moreover have "filter reports_result (butlast es) = []"
    using es d(2) t(1) f(1) r(3) by (auto simp: butlast_append filter_empty_conv dest: in_set_butlastD)
  moreover have "subseq (tells es) (pending (owner_caller s))"
    using es d(3) t(3,4) f(3,4) r(2) by (cases "settled = None") (simp_all del: concat_eq_Nil_conv)
  ultimately show ?thesis by blast
qed

section \<open>Callers, events and the anchor\<close>

text \<open>C33: Callers hear of their turns exactly as they were taken on: over the whole life of an owner, the loop
  and its ending, each accepted caller is told at most once, in the order in which the callers were
  accepted, whatever throws; within the loop an answer goes only to the caller the latest turn was bound
  to; and the turns are numbered from 0 in the order in which they start.
\<close>

theorem callers_are_told_at_most_once:
  assumes "loop_run b (start_owner b) es s" "end_session b s e ts = (fs, r)"
  shows "subseq (concat (map told es) @ concat (map told_at_end fs)) (callers b es)
         \<and> answers_bound None es
         \<and> turns_of es = map turn_name [0..<turn_index s]"
proof -
  have inv: "owner_inv b es s"
    using assms(1) by (rule owner_inv_run)
  have "subseq (concat (map told es) @ tells fs) (concat (map told es) @ pending (owner_caller s))"
    using ending_quiet [OF assms(2)] by (simp add: subseq_append')
  then show ?thesis
    using inv by (auto simp: owner_inv_def intro: subseq_order.trans)
qed

lemma loop_then:
  assumes "loop_run b s es t" "loop_step b t fs u" "gs = es @ fs" "v = u"
  shows "loop_run b s gs v"
  using assms loop_run.step by blast

definition first_caller :: turn_caller where
  "first_caller = \<lparr>caller_call_id = ''call_1'', caller_task_id = Some ''task_1'', caller_subagent = ''helper'',
     caller_reply_to = JNull\<rparr>"

definition second_caller :: turn_caller where
  "second_caller = first_caller\<lparr>caller_call_id := ''call_2'', caller_task_id := None\<rparr>"

definition helper_boot :: boot where
  "helper_boot = \<lparr>boot_anchors_itself = True, boot_notifies = False, boot_caller = Some first_caller,
     boot_initial = None, boot_awaits_first = False, boot_task_mode = False, boot_has_deadline = True\<rparr>"

definition some_answer :: settled_turn where
  "some_answer = \<lparr>settled_output = JStr ''done'', settled_is_error = None, settled_usage = None\<rparr>"

definition second_delivery :: delivery where
  "second_delivery = (callback_delivery [])\<lparr>delivery_caller := Some second_caller\<rparr>"

definition some_ending :: ending where
  "some_ending = \<lparr>timer_active = True, anchor_claimed = False, anchored_result = moved_result, thrown = JStr ''lost''\<rparr>"

text \<open>A turn for the first caller, a park that tells it, a delivery of the second, and a turn that throws.\<close>

definition helper_log :: "session_effect list" where
  "helper_log = [TaskRemembered ''task_1'', CallerBound first_caller, TurnStarted ''turn_0'' None,
     ParkTold first_caller some_answer, TookDelivery second_delivery, CallerBound second_caller,
     TurnStarted ''turn_1'' (Some (delivery_payload second_delivery))]"

definition helper_owner :: owner where
  "helper_owner = \<lparr>owner_caller = Some second_caller, owner_turn = Some ''turn_1'', turn_index = 2,
     in_initial = False, loop_phase = LoopThrew\<rparr>"

definition helper_at :: "turn_caller option \<Rightarrow> nat \<Rightarrow> bool \<Rightarrow> loop_phase \<Rightarrow> owner" where
  "helper_at c n i p = \<lparr>owner_caller = c, owner_turn = (if n = 0 then None else Some (turn_name (n - 1))),
     turn_index = n, in_initial = i, loop_phase = p\<rparr>"

lemma small_turns: "turn_name 0 = ''turn_0''" "turn_name 1 = ''turn_1''" "turn_name (Suc 0) = ''turn_1''"
  by code_simp+

lemma helper_run: "loop_run helper_boot (start_owner helper_boot) helper_log helper_owner"
proof -
  let ?out = "ParkTurn None False (Some some_answer)"
  let ?p = "Some (delivery_payload second_delivery)"
  let ?run = "loop_run helper_boot (start_owner helper_boot)"
  let ?e1 = "remembered first_caller @ [CallerBound first_caller, TurnStarted (turn_name 0) None]"
  let ?e2 = "remembered second_caller @ [CallerBound second_caller, TurnStarted (turn_name 1) ?p]"
  have start: "start_owner helper_boot = helper_at (Some first_caller) 0 True (StartingTurn None)"
    by (simp add: start_owner_def helper_boot_def helper_at_def)
  have "?run ?e1 (helper_at (Some first_caller) 1 True InTurn)"
    using loop_run.step [OF loop_run.refl starts_for_caller [of "start_owner helper_boot" None first_caller]]
    unfolding start by (simp add: helper_at_def begun_def)
  then have "?run ?e1 (helper_at (Some first_caller) 1 True (InitialSettled (Inr ?out)))"
    by (rule loop_then [OF _ turn_returns [of "helper_at (Some first_caller) 1 True InTurn" helper_boot ?out]])
      (simp_all add: helper_at_def)
  then have "?run ?e1 (helper_at (Some first_caller) 1 False (AtTop ?out))"
    by (rule loop_then [OF _ timer_started [of "helper_at (Some first_caller) 1 True (InitialSettled (Inr ?out))" "Inr ?out"]])
      (simp_all add: helper_at_def)
  then have "?run (?e1 @ [ParkTold first_caller some_answer]) (helper_at None 1 False (ParkedIn ?out))"
    by (rule loop_then [OF _ settled_for_caller [of "helper_at (Some first_caller) 1 False (AtTop ?out)" None some_answer first_caller]])
      (simp_all add: helper_at_def)
  then have "?run (?e1 @ [ParkTold first_caller some_answer, TookDelivery second_delivery])
      (helper_at (Some second_caller) 1 False (StartingTurn ?p))"
    by (rule loop_then [OF _ delivery_taken [of "helper_at None 1 False (ParkedIn ?out)" ?out helper_boot second_delivery]])
      (simp_all add: helper_at_def second_delivery_def)
  then have "?run (?e1 @ [ParkTold first_caller some_answer, TookDelivery second_delivery] @ ?e2)
      (helper_at (Some second_caller) 2 False InTurn)"
    by (rule loop_then [OF _ starts_for_caller [of "helper_at (Some second_caller) 1 False (StartingTurn ?p)" ?p second_caller]])
      (simp_all add: helper_at_def begun_def)
  then have "?run (?e1 @ [ParkTold first_caller some_answer, TookDelivery second_delivery] @ ?e2)
      (helper_at (Some second_caller) 2 False LoopThrew)"
    by (rule loop_then [OF _ turn_throws [of "helper_at (Some second_caller) 2 False InTurn"]])
      (simp_all add: helper_at_def)
  moreover have "?e1 @ [ParkTold first_caller some_answer, TookDelivery second_delivery] @ ?e2 = helper_log"
    by (simp add: helper_log_def remembered_def first_caller_def second_caller_def small_turns)
  moreover have "helper_at (Some second_caller) 2 False LoopThrew = helper_owner"
    by (simp add: helper_at_def helper_owner_def small_turns)
  ultimately show ?thesis by simp
qed

text \<open>Nothing throws in the ending of that owner: its second caller hears that its session failed.\<close>

theorem callers_are_told_at_most_once_witness:
  "subseq (concat (map told helper_log)
       @ concat (map told_at_end (fst (end_session helper_boot helper_owner some_ending []))))
     (callers helper_boot helper_log)
   \<and> answers_bound None helper_log \<and> turns_of helper_log = map turn_name [0..<2]
   \<and> concat (map told_at_end (fst (end_session helper_boot helper_owner some_ending []))) = [second_caller]"
proof -
  have "concat (map told_at_end (fst (end_session helper_boot helper_owner some_ending []))) = [second_caller]"
    by code_simp
  then show ?thesis
    using callers_are_told_at_most_once [OF helper_run prod.collapse [symmetric], of some_ending "[]"]
    by (simp add: helper_owner_def)
qed

text \<open>What the session ended as: a moved session goes on with its successor.\<close>

definition ended_as :: "owner \<Rightarrow> ending \<Rightarrow> terminal_outcome option" where
  "ended_as s e =
     (case loop_phase s of
        LoopReturned (TerminalLoop out) \<Rightarrow> Some out
      | LoopReturned TransferredLoop \<Rightarrow> None
      | _ \<Rightarrow> Some (EndedFailed (thrown e) (owner_turn s)))"

fun settles_waiter :: "ending_effect \<Rightarrow> bool" where
  "settles_waiter (CallbackFired r) = True"
| "settles_waiter (ParentNotified r) = True"
| "settles_waiter (CallerNotified c err out u) = True"
| "settles_waiter _ = False"

lemma finalize_settles: "filter settles_waiter (finalize_session m h c out) = settlements m c (final_of out)"
  by (simp add: finalize_session_def terminal_events_def settlements_def
      split: terminal_outcome.split option.split)

lemma disposed_without_failure [simp]:
  "dispose_owner timer [] = ((if timer then [TimerCancelled] else []) @ [InboxDisposed], False, [])"
  by (simp add: dispose_owner_def)

lemma report_filters [simp]:
  "filter is_terminal_event (report_to_anchor b claimed x) = []"
  "filter settles_waiter (report_to_anchor b claimed x) = []"
  by (simp_all add: report_to_anchor_def)

lemma end_terminal:
  assumes "loop_phase s = LoopReturned (TerminalLoop out)"
  shows "end_session b s e [] =
           (((if timer_active e then [TimerCancelled] else []) @ [InboxDisposed])
            @ finalize_session (boot_task_mode b) True (owner_caller s) out
            @ report_to_anchor b (anchor_claimed e) (final_entry out), Some (final_entry out))"
  using assms by (simp add: end_session_def try_ending_def awaits_anchor_def)

lemma end_threw:
  assumes "loop_phase s = LoopThrew"
  shows "end_session b s e [] =
           (((if timer_active e then [TimerCancelled] else []) @ [InboxDisposed])
            @ finalize_session (boot_task_mode b) True (owner_caller s) (EndedFailed (thrown e) (owner_turn s))
            @ report_to_anchor b (anchor_claimed e) pending_result, None)"
  using assms by (simp add: end_session_def try_ending_def fail_ending_def awaits_anchor_def)

lemma end_moved:
  assumes "loop_phase s = LoopReturned TransferredLoop" "boot_anchors_itself b" "anchor_claimed e"
  shows "end_session b s e [] =
           (((if timer_active e then [TimerCancelled] else []) @ [InboxDisposed, AnchorAwaited])
            @ report_to_anchor b False (anchored_result e), Some (anchored_result e))"
  using assms by (simp add: end_session_def try_ending_def awaits_anchor_def)

lemma end_moved_on:
  assumes "loop_phase s = LoopReturned TransferredLoop" "\<not> boot_anchors_itself b"
  shows "end_session b s e [] =
           (((if timer_active e then [TimerCancelled] else []) @ [InboxDisposed])
            @ [AnchorSignalled pending_result], Some moved_result)"
  using assms by (simp add: end_session_def try_ending_def report_to_anchor_def)

lemma signalled_last:
  "\<not> boot_anchors_itself b \<Longrightarrow> report_to_anchor b claimed x = [AnchorSignalled x]"
  by (simp add: report_to_anchor_def)

lemma ending_steps:
  assumes "over s" "awaits_anchor b s \<longrightarrow> anchor_claimed e" "end_session b s e [] = (es, r)"
  shows "filter is_terminal_event es = (case ended_as s e of None \<Rightarrow> [] | Some out \<Rightarrow> terminal_events out)
         \<and> filter settles_waiter es
           = (case ended_as s e of None \<Rightarrow> [] | Some out \<Rightarrow> settlements (boot_task_mode b) (owner_caller s) (final_of out))
         \<and> InboxDisposed \<in> set es
         \<and> (boot_anchors_itself b \<or> filter reports_result es = [last es])
         \<and> (r = None) = (loop_phase s = LoopThrew)
         \<and> (\<forall>ts. length (filter is_terminal_event (fst (end_session b s e ts))) \<le> 2
                 \<and> filter reports_result (butlast (fst (end_session b s e ts))) = [])"
proof -
  have all: "\<forall>ts. length (filter is_terminal_event (fst (end_session b s e ts))) \<le> 2
      \<and> filter reports_result (butlast (fst (end_session b s e ts))) = []"
    using ending_quiet [OF prod.collapse [symmetric], of b s e] by blast
  have "filter is_terminal_event es = (case ended_as s e of None \<Rightarrow> [] | Some out \<Rightarrow> terminal_events out)
         \<and> filter settles_waiter es
           = (case ended_as s e of None \<Rightarrow> [] | Some out \<Rightarrow> settlements (boot_task_mode b) (owner_caller s) (final_of out))
         \<and> InboxDisposed \<in> set es
         \<and> (boot_anchors_itself b \<or> filter reports_result es = [last es])
         \<and> (r = None) = (loop_phase s = LoopThrew)"
  proof (cases "ended_as s e")
    case None
    then have moved: "loop_phase s = LoopReturned TransferredLoop"
      by (simp add: ended_as_def split: loop_phase.splits loop_outcome.splits)
    show ?thesis
    proof (cases "boot_anchors_itself b")
      case True
      then have "anchor_claimed e"
        using assms(2) moved by (simp add: awaits_anchor_def)
      then show ?thesis
        using assms(3) None moved True end_moved [OF moved True] by auto
    next
      case False
      then show ?thesis
        using assms(3) None moved end_moved_on [OF moved False] by auto
    qed
  next
    case (Some out)
    then consider
        (returned) "loop_phase s = LoopReturned (TerminalLoop out)"
      | (threw) "loop_phase s = LoopThrew" "out = EndedFailed (thrown e) (owner_turn s)"
      using assms(1) by (auto simp: ended_as_def over_def split: loop_phase.splits loop_outcome.splits)
    then show ?thesis
    proof cases
      case returned
      then show ?thesis
        using assms(3) Some end_terminal [OF returned]
        by (cases "boot_anchors_itself b")
           (auto simp: finalize_terminal finalize_settles finalize_reports signalled_last)
    next
      case threw
      then show ?thesis
        using assms(3) Some end_threw [OF threw(1)]
        by (cases "boot_anchors_itself b")
           (auto simp: finalize_terminal finalize_settles finalize_reports signalled_last)
    qed
  qed
  then show ?thesis
    using all by blast
qed

text \<open>
  Who is owed an answer at the end, and which: a task is waited for by its callback and its parent, any
  other session by the caller its last turn left unanswered, with the error flag set for errors only.
\<close>

definition owed :: "bool \<Rightarrow> turn_caller option \<Rightarrow> bool \<Rightarrow> json option \<Rightarrow> json option \<Rightarrow> json option \<Rightarrow> ending_effect list" where
  "owed task caller err out usage turn_usage =
     (let r = \<lparr>final_error = err, final_output = out, final_session_usage = usage, final_turn_usage = turn_usage\<rparr> in
      if task then [CallbackFired r, ParentNotified r]
      else if caller = None then []
      else [CallerNotified (the caller) (if err then Some True else None) out turn_usage])"

text \<open>C34: When no step of it throws, an ending settles whoever waits. A session whose turn finished emits no
  further terminal event and hands on the output, the error flag and the usage of that turn; an expired one
  emits session.completed once and hands on an empty output; a failed one, and one whose loop threw, emits
  session.failed once, of the error and the turn it is blamed on, and hands that error on. Each of them
  tells the task callback and the parent of a task, else the pending caller, exactly once. A moved session
  emits nothing and tells nobody. The inbox is disposed of, a successor ends by reporting to its
  anchor, and the run throws only when its loop threw. Whatever throws, a session never shows more than
  two terminal events, and nothing follows the report.\<close>

theorem endings_settle_every_waiter:
  assumes "over s" "awaits_anchor b s \<longrightarrow> anchor_claimed e" "end_session b s e [] = (es, r)"
  shows "(\<forall>d. loop_phase s = LoopReturned (TerminalLoop (EndedDone d)) \<longrightarrow>
            filter is_terminal_event es = []
            \<and> filter settles_waiter es = owed (boot_task_mode b) (owner_caller s) (done_is_error d = Some True)
                 (done_output d) (done_usage d) (done_usage_delta d))
         \<and> (loop_phase s = LoopReturned (TerminalLoop EndedExpired) \<longrightarrow>
            filter is_terminal_event es = [CompletionEmitted]
            \<and> filter settles_waiter es = owed (boot_task_mode b) (owner_caller s) False (Some (JStr '''')) None None)
         \<and> (\<forall>err t. loop_phase s = LoopReturned (TerminalLoop (EndedFailed err t))
                 \<or> loop_phase s = LoopThrew \<and> err = thrown e \<and> t = owner_turn s \<longrightarrow>
            filter is_terminal_event es = [FailureEmitted err t]
            \<and> filter settles_waiter es = owed (boot_task_mode b) (owner_caller s) True (Some err) None None)
         \<and> (loop_phase s = LoopReturned TransferredLoop \<longrightarrow>
            filter is_terminal_event es = [] \<and> filter settles_waiter es = [])
         \<and> InboxDisposed \<in> set es
         \<and> (boot_anchors_itself b \<or> filter reports_result es = [last es])
         \<and> (r = None) = (loop_phase s = LoopThrew)
         \<and> (\<forall>ts. length (filter is_terminal_event (fst (end_session b s e ts))) \<le> 2
                 \<and> filter reports_result (butlast (fst (end_session b s e ts))) = [])"
proof -
  have owed: "settlements m c (final_of out)
      = owed m c (final_error (final_of out)) (final_output (final_of out)) (final_session_usage (final_of out))
          (final_turn_usage (final_of out))" for m c out
    by (simp add: owed_def settlements_def Let_def split: option.split)
  show ?thesis
    using ending_steps [OF assms] unfolding owed
    by (auto simp: ended_as_def terminal_events_def final_of_def)
qed

theorem endings_settle_every_waiter_witness:
  "over helper_owner
   \<and> filter is_terminal_event (fst (end_session helper_boot helper_owner some_ending []))
     = [FailureEmitted (JStr ''lost'') (Some ''turn_1'')]
   \<and> filter settles_waiter (fst (end_session helper_boot helper_owner some_ending []))
     = [CallerNotified second_caller (Some True) (Some (JStr ''lost'')) None]"
proof -
  have over: "over helper_owner" "awaits_anchor helper_boot helper_owner \<longrightarrow> anchor_claimed some_ending"
    by (simp_all add: over_def awaits_anchor_def helper_owner_def)
  show ?thesis
    using endings_settle_every_waiter [OF over prod.collapse [symmetric]] over
    by (simp add: helper_owner_def some_ending_def owed_def helper_boot_def)
qed

text \<open>
  An owner that is itself a successor and moves its session on returns an empty output, but what it reports
  to the anchor is the pending error: the original run stops waiting for the final owner.
\<close>

lemma intermediate_owner_reports_an_error:
  assumes "loop_phase s = LoopReturned TransferredLoop" "\<not> boot_anchors_itself b"
  shows "end_session b s e [] =
           ((if timer_active e then [TimerCancelled] else []) @ [InboxDisposed, AnchorSignalled pending_result],
            Some moved_result)"
  using end_moved_on [OF assms] by simp

text \<open>A completed session whose caller cannot be told gets a second terminal event, \<open>session.failed\<close>.\<close>

lemma unreachable_caller_fails_a_completed_session:
  "filter is_terminal_event (fst (end_session helper_boot
       (helper_owner\<lparr>loop_phase := LoopReturned (TerminalLoop EndedExpired)\<rparr>) some_ending
       [False, False, False, False, True]))
   = [CompletionEmitted, FailureEmitted (JStr ''lost'') (Some ''turn_1'')]"
  by code_simp

text \<open>
  A park of a cancelled turn stays marked as cancelled when a later cancellation only stops descendants:
  the loop settles the cancelled turn once for the cancellation and once more at the top.
\<close>

lemma cancelled_park_settles_twice:
  assumes "loop_phase s = ParkedIn (ParkTurn a True st)"
  shows "\<exists>t u. loop_step b s [DescendantsStopped, CancelledSettled] t \<and> loop_step b t [CancelledSettled] u"
proof -
  let ?t = "s\<lparr>owner_caller := None, loop_phase := AtTop (ParkTurn a True None)\<rparr>"
  have "loop_step b s [DescendantsStopped, CancelledSettled] ?t"
    using descendant_stopped [OF assms, of b] by (simp add: unsettled_def)
  moreover have "loop_step b ?t [CancelledSettled] (?t\<lparr>owner_caller := None, loop_phase := ParkedIn (ParkTurn a True None)\<rparr>)"
    using cancelled [of ?t a None b] by simp
  ultimately show ?thesis by blast
qed

end
