(* ===== verification/Proxy_Requests.thy ===== *)
theory Proxy_Requests
  imports Session_Wait Usage_Limits "HOL-Library.AList" "HOL-Library.Multiset"
begin

text \<open>
  The answers a session passes down to its descendants: the routes of their open requests
  (packages/eve/src/harness/proxy-input-requests.ts), the split of one payload by these routes
  (subagents/hitl-proxy.ts, downward routing) and the step that forwards the parts of a whole delivery
  (execution/proxied-deliver-step.ts). A route is parsed from the JSON of the session state at every read. The URL
  test of the platform is the parameter \<open>url_ok\<close>; whether a child can be reached is an input. Keys of an
  object keep their insertion order, and the strings joined into a bucket key hold no NUL.
\<close>

section \<open>Routes\<close>

record proxy_batch =
  batch_approvals :: "string list"
  batch_requests :: "string list"

record proxy_route =
  route_child_token :: string
  route_kind :: input_request_kind
  route_answer_hook :: "string option"
  route_child_inbox :: "json option"
  route_batch :: "proxy_batch option"
  route_child_request :: "string option"
  route_response_url :: "string option"
  route_task :: "string option"

type_synonym proxy_map = "(string \<times> proxy_route) list"

definition PROXY_INPUT_REQUESTS_KEY :: string where
  "PROXY_INPUT_REQUESTS_KEY = ''eve.runtime.proxyInputRequests''"

definition create_task_input_request_id :: "string \<Rightarrow> string \<Rightarrow> string" where
  "create_task_input_request_id t r = t @ '':'' @ r"

fun kind_name :: "input_request_kind \<Rightarrow> string" where
  "kind_name Question = ''question''"
| "kind_name SessionLimit = ''session-limit''"
| "kind_name ToolApproval = ''tool-approval''"

definition is_input_request_kind :: "json option \<Rightarrow> input_request_kind option" where
  "is_input_request_kind v =
     (case v of
        Some (JStr s) \<Rightarrow> List.find (\<lambda>k. kind_name k = s) [Question, SessionLimit, ToolApproval]
      | _ \<Rightarrow> None)"

fun string_item :: "json \<Rightarrow> string option" where
  "string_item (JStr s) = Some s"
| "string_item _ = None"

fun is_string_array :: "json option \<Rightarrow> string list option" where
  "is_string_array (Some (JArr xs)) = those (map string_item xs)"
| "is_string_array _ = None"

fun parse_proxy_input_request_batch :: "json option \<Rightarrow> proxy_batch option" where
  "parse_proxy_input_request_batch (Some (JObj es)) = do {
     as \<leftarrow> is_string_array (map_of es ''approvalRequestIds'');
     rs \<leftarrow> is_string_array (map_of es ''requestIds'');
     if distinct rs \<and> set as \<subseteq> set rs then Some \<lparr>batch_approvals = as, batch_requests = rs\<rparr> else None }"
| "parse_proxy_input_request_batch _ = None"

fun parse_answer_hook_route :: "json \<Rightarrow> string option" where
  "parse_answer_hook_route (JObj es) = non_empty_string es ''runId''"
| "parse_answer_hook_route _ = None"

fun is_session_inbox_address :: "json \<Rightarrow> bool" where
  "is_session_inbox_address (JObj es) =
     (case non_empty_string es ''sessionId'' of None \<Rightarrow> False | Some s \<Rightarrow> CHR '':'' \<notin> set s)"
| "is_session_inbox_address _ = False"

text \<open>An optional property that must be accepted when it is there.\<close>

definition optional_checked :: "(json \<Rightarrow> 'a option) \<Rightarrow> json option \<Rightarrow> 'a option option" where
  "optional_checked f v = (case v of None \<Rightarrow> Some None | Some j \<Rightarrow> map_option Some (f j))"

definition response_url :: "(string \<Rightarrow> bool) \<Rightarrow> json \<Rightarrow> string option" where
  "response_url url_ok v = (case v of JStr s \<Rightarrow> if url_ok s then Some s else None | _ \<Rightarrow> None)"

definition inbox_address :: "json \<Rightarrow> json option" where
  "inbox_address v = (if is_session_inbox_address v then Some v else None)"

fun parse_proxy_input_request :: "(string \<Rightarrow> bool) \<Rightarrow> json \<Rightarrow> string \<Rightarrow> proxy_route option" where
  "parse_proxy_input_request url_ok (JObj es) i = do {
     token \<leftarrow> literal_field es ''childContinuationToken'';
     kind \<leftarrow> is_input_request_kind (map_of es ''kind'');
     task \<leftarrow> optional_non_empty es ''taskId'';
     child \<leftarrow> optional_non_empty es ''childRequestId'';
     url \<leftarrow> optional_checked (response_url url_ok) (map_of es ''childResponseUrl'');
     hook \<leftarrow> optional_checked parse_answer_hook_route (map_of es ''answerHook'');
     inbox \<leftarrow> optional_checked inbox_address (map_of es ''childSessionInbox'');
     if (task = None) \<noteq> (child = None) then None
     else Some \<lparr>route_child_token = token, route_kind = kind, route_answer_hook = hook,
       route_child_inbox = inbox,
       route_batch = (case parse_proxy_input_request_batch (map_of es ''batch'') of
                        None \<Rightarrow> None | Some b \<Rightarrow> if i \<in> set (batch_requests b) then Some b else None),
       route_child_request = child, route_response_url = url, route_task = task\<rparr> }"
| "parse_proxy_input_request url_ok _ i = None"

definition encode_batch :: "proxy_batch \<Rightarrow> json" where
  "encode_batch b = JObj [(''approvalRequestIds'', JArr (map JStr (batch_approvals b))),
     (''requestIds'', JArr (map JStr (batch_requests b)))]"

text \<open>The object of a route, in the order in which the parser writes its properties.\<close>

definition encode_route :: "proxy_route \<Rightarrow> json" where
  "encode_route r = JObj ([(''childContinuationToken'', JStr (route_child_token r)),
       (''kind'', JStr (kind_name (route_kind r)))]
     @ optional_json ''answerHook'' (map_option (\<lambda>h. JObj [(''runId'', JStr h)]) (route_answer_hook r))
     @ optional_json ''childSessionInbox'' (route_child_inbox r)
     @ optional_json ''batch'' (map_option encode_batch (route_batch r))
     @ optional_json ''childRequestId'' (map_option JStr (route_child_request r))
     @ optional_json ''childResponseUrl'' (map_option JStr (route_response_url r))
     @ optional_json ''taskId'' (map_option JStr (route_task r)))"

section \<open>The map of routes\<close>

definition read_entry :: "(string \<Rightarrow> bool) \<Rightarrow> string \<times> json \<Rightarrow> (string \<times> proxy_route) option" where
  "read_entry url_ok e = map_option (Pair (fst e)) (parse_proxy_input_request url_ok (snd e) (fst e))"

definition read_map :: "(string \<Rightarrow> bool) \<Rightarrow> session_state option \<Rightarrow> proxy_map" where
  "read_map url_ok st =
     (case state_get st PROXY_INPUT_REQUESTS_KEY of
        Some (JObj es) \<Rightarrow> List.map_filter (read_entry url_ok) es
      | _ \<Rightarrow> [])"

definition map_object :: "proxy_map \<Rightarrow> json" where
  "map_object m = JObj (map (\<lambda>(k, r). (k, encode_route r)) m)"

definition write_map :: "session_state option \<Rightarrow> proxy_map \<Rightarrow> session_state option" where
  "write_map st m =
     (if m = [] then none_if_empty (state_delete st PROXY_INPUT_REQUESTS_KEY)
      else Some (state_put st PROXY_INPUT_REQUESTS_KEY (map_object m)))"

definition has_proxy_input_requests :: "(string \<Rightarrow> bool) \<Rightarrow> session_state option \<Rightarrow> bool" where
  "has_proxy_input_requests url_ok st = (read_map url_ok st \<noteq> [])"

definition upsert_proxy_input_request_state ::
    "(string \<Rightarrow> bool) \<Rightarrow> proxy_map \<Rightarrow> string \<Rightarrow> session_state option \<Rightarrow> session_state option" where
  "upsert_proxy_input_request_state url_ok es token st =
     write_map st (foldl (\<lambda>m (k, r). AList.update k r m)
       (filter (\<lambda>(k, r). route_child_token r \<noteq> token) (read_map url_ok st)) es)"

definition clear_proxy_input_requests_where ::
    "(string \<Rightarrow> bool) \<Rightarrow> (proxy_route \<Rightarrow> bool) \<Rightarrow> session_state option \<Rightarrow> session_state option" where
  "clear_proxy_input_requests_where url_ok select st =
     (if list_ex (\<lambda>(k, r). select r) (read_map url_ok st)
      then write_map st (filter (\<lambda>(k, r). \<not> select r) (read_map url_ok st)) else st)"

definition clear_proxy_input_requests_for_child ::
    "(string \<Rightarrow> bool) \<Rightarrow> string \<Rightarrow> session_state option \<Rightarrow> session_state option" where
  "clear_proxy_input_requests_for_child url_ok token =
     clear_proxy_input_requests_where url_ok (\<lambda>r. route_child_token r = token)"

definition clear_proxy_input_requests_for_task ::
    "(string \<Rightarrow> bool) \<Rightarrow> string \<Rightarrow> session_state option \<Rightarrow> session_state option" where
  "clear_proxy_input_requests_for_task url_ok t =
     clear_proxy_input_requests_where url_ok (\<lambda>r. route_task r = Some t)"

definition clear_all_proxy_input_requests ::
    "(string \<Rightarrow> bool) \<Rightarrow> session_state option \<Rightarrow> session_state option" where
  "clear_all_proxy_input_requests url_ok st =
     (if has_proxy_input_requests url_ok st then write_map st [] else st)"

definition retire_proxy_input_requests ::
    "(string \<Rightarrow> bool) \<Rightarrow> string list \<Rightarrow> session_state option \<Rightarrow> session_state option" where
  "retire_proxy_input_requests url_ok ids st =
     (if list_ex (\<lambda>(k, r). k \<in> set ids) (read_map url_ok st)
      then write_map st (filter (\<lambda>(k, r). k \<notin> set ids) (read_map url_ok st)) else st)"

text \<open>The entries of a child's batch of requests, and of a request a background task raised.\<close>

definition to_proxy_input_request_entries ::
    "string \<Rightarrow> string \<Rightarrow> json option \<Rightarrow> (string \<times> input_request_kind) list \<Rightarrow> proxy_map" where
  "to_proxy_input_request_entries token session inbox rs =
     (let b = \<lparr>batch_approvals = map fst (filter (\<lambda>(i, k). k = ToolApproval) rs), batch_requests = map fst rs\<rparr>;
          address = (case inbox of
                       Some (JObj es) \<Rightarrow> if map_of es ''sessionId'' = Some (JStr session) then inbox else None
                     | _ \<Rightarrow> None)
      in map (\<lambda>(i, k). (i, \<lparr>route_child_token = token, route_kind = k, route_answer_hook = None,
           route_child_inbox = address, route_batch = Some b, route_child_request = None,
           route_response_url = None, route_task = None\<rparr>)) rs)"

definition task_input_request_entries ::
    "string \<Rightarrow> string \<Rightarrow> string option \<Rightarrow> (string \<times> input_request_kind) list \<Rightarrow> proxy_map" where
  "task_input_request_entries t reply_to url rs =
     map (\<lambda>(i, k). (create_task_input_request_id t i, \<lparr>route_child_token = reply_to, route_kind = k,
        route_answer_hook = None, route_child_inbox = None, route_batch = None, route_child_request = Some i,
        route_response_url = url, route_task = Some t\<rparr>)) rs"

section \<open>Splitting a payload (hitl-proxy.ts)\<close>

text \<open>An input response is an object with a string \<open>requestId\<close>; its other properties are carried along.\<close>

definition response_field :: "json \<Rightarrow> string \<Rightarrow> string option" where
  "response_field r k = (case r of JObj es \<Rightarrow> literal_field es k | _ \<Rightarrow> None)"

definition response_id :: "json \<Rightarrow> string" where
  "response_id r = (case response_field r ''requestId'' of None \<Rightarrow> [] | Some i \<Rightarrow> i)"

definition with_request_id :: "string \<Rightarrow> json \<Rightarrow> json" where
  "with_request_id i r = (case r of JObj es \<Rightarrow> JObj (AList.update ''requestId'' (JStr i) es) | _ \<Rightarrow> r)"

definition payload_responses :: "deliver_payload \<Rightarrow> json list" where
  "payload_responses p = (case map_of (payload_fields p) ''inputResponses'' of Some (JArr rs) \<Rightarrow> rs | _ \<Rightarrow> [])"

definition to_child_input_response :: "json \<Rightarrow> proxy_route \<Rightarrow> json" where
  "to_child_input_response r route =
     (case route_child_request route of None \<Rightarrow> r | Some i \<Rightarrow> with_request_id i r)"

definition inbox_session :: "proxy_route \<Rightarrow> string" where
  "inbox_session r = (case route_child_inbox r of None \<Rightarrow> []
     | Some a \<Rightarrow> (case response_field a ''sessionId'' of None \<Rightarrow> [] | Some s \<Rightarrow> s))"

definition bucket_key :: "string \<Rightarrow> proxy_route \<Rightarrow> string" where
  "bucket_key no_url r =
     intercalate [CHR 0x00] [route_child_token r, inbox_session r, given_or no_url (route_response_url r),
       given_or [] (route_task r)]"

text \<open>A bucket in progress; the first route of a bucket gives its address.\<close>

record response_bucket =
  bucket_route :: proxy_route
  parent_request_ids :: "string list"
  bucket_responses :: "json list"
  bucket_routes :: "proxy_route list"

definition add_response ::
    "json \<Rightarrow> proxy_route \<Rightarrow> (string \<times> response_bucket) list \<Rightarrow> (string \<times> response_bucket) list" where
  "add_response r route bs =
     (let key = bucket_key ''local'' route;
          old = (case map_of bs key of
                   None \<Rightarrow> \<lparr>bucket_route = route, parent_request_ids = [], bucket_responses = [], bucket_routes = []\<rparr>
                 | Some b \<Rightarrow> b)
      in AList.update key
           (old\<lparr>parent_request_ids := parent_request_ids old @ [response_id r],
                bucket_responses := bucket_responses old @ [to_child_input_response r route],
                bucket_routes := bucket_routes old @ [route]\<rparr>) bs)"

record response_split =
  split_buckets :: "(string \<times> response_bucket) list"
  unrouted :: "json list"
  split_cancels :: bool

definition find_route :: "(string \<Rightarrow> proxy_route \<Rightarrow> bool) \<Rightarrow> proxy_map \<Rightarrow> json \<Rightarrow> proxy_route option" where
  "find_route allow m r =
     (case map_of m (response_id r) of
        None \<Rightarrow> None | Some route \<Rightarrow> if allow (response_id r) route then Some route else None)"

definition stops_child :: "proxy_route \<Rightarrow> json \<Rightarrow> bool" where
  "stops_child route r =
     (route_kind route = SessionLimit \<and> response_field r ''optionId'' = Some SESSION_LIMIT_STOP_OPTION_ID)"

definition split_response ::
    "(string \<Rightarrow> proxy_route \<Rightarrow> bool) \<Rightarrow> proxy_map \<Rightarrow> response_split \<Rightarrow> json \<Rightarrow> response_split" where
  "split_response allow m s r =
     (case find_route allow m r of
        None \<Rightarrow> s\<lparr>unrouted := unrouted s @ [r]\<rparr>
      | Some route \<Rightarrow> s\<lparr>split_buckets := add_response r route (split_buckets s),
                       split_cancels := split_cancels s \<or> stops_child route r\<rparr>)"

definition split_responses ::
    "(string \<Rightarrow> proxy_route \<Rightarrow> bool) \<Rightarrow> proxy_map \<Rightarrow> json list \<Rightarrow> response_split" where
  "split_responses allow m rs =
     foldl (split_response allow m) \<lparr>split_buckets = [], unrouted = [], split_cancels = False\<rparr> rs"

definition same_batch :: "proxy_route \<Rightarrow> proxy_batch \<Rightarrow> string \<Rightarrow> bool" where
  "same_batch route b token =
     (route_child_token route = token
      \<and> map_option batch_requests (route_batch route) = Some (batch_requests b))"

definition batch_resolves :: "proxy_batch \<Rightarrow> string \<Rightarrow> proxy_map \<Rightarrow> string list \<Rightarrow> bool" where
  "batch_resolves b token m ids =
     list_all (\<lambda>i. case map_of m i of None \<Rightarrow> True
                   | Some route \<Rightarrow> \<not> same_batch route b token \<or> i \<in> set ids) (batch_approvals b)"

text \<open>A batch whose approvals are all answered retires its other requests too.\<close>

definition retired_ids :: "proxy_map \<Rightarrow> response_bucket \<Rightarrow> string list" where
  "retired_ids m b =
     remdups (parent_request_ids b
       @ concat (map (\<lambda>route. case route_batch route of
            None \<Rightarrow> []
          | Some batch \<Rightarrow>
              if batch_resolves batch (route_child_token (bucket_route b)) m (parent_request_ids b)
              then batch_requests batch else []) (bucket_routes b)))"

record child_part =
  part_route :: proxy_route
  part_responses :: "json list"
  part_retires :: "string list"

record routed_payload =
  for_children :: "child_part list"
  for_self :: "deliver_payload option"
  parent_cancels :: bool

definition self_payload :: "deliver_payload \<Rightarrow> json list \<Rightarrow> deliver_payload option" where
  "self_payload p rs =
     (let p' = p\<lparr>payload_fields := filter (\<lambda>(k, v). k \<noteq> ''inputResponses'') (payload_fields p)
                   @ (if rs = [] then [] else [(''inputResponses'', JArr rs)])\<rparr>
      in if payload_task p' = None \<and> payload_callback p' = None \<and> payload_fields p' = [] then None else Some p')"

definition route_deliver_payload ::
    "(string \<Rightarrow> proxy_route \<Rightarrow> bool) \<Rightarrow> proxy_map \<Rightarrow> deliver_payload \<Rightarrow> routed_payload" where
  "route_deliver_payload allow m p =
     (let s = split_responses allow m (payload_responses p) in
      \<lparr>for_children = map (\<lambda>(k, b). \<lparr>part_route = bucket_route b, part_responses = bucket_responses b,
                                 part_retires = retired_ids m b\<rparr>) (split_buckets s),
       for_self = self_payload p (unrouted s),
       parent_cancels = split_cancels s\<rparr>)"

section \<open>Forwarding a delivery (proxied-deliver-step.ts)\<close>

record child_bucket =
  child_route :: proxy_route
  child_metadata :: "metadata_entry list"
  child_payloads :: "json list list"
  child_retires :: "string list"
  child_sources :: "nat list"

definition metadata_of :: "delivery \<Rightarrow> nat \<Rightarrow> nat \<Rightarrow> metadata_entry list" where
  "metadata_of d i j =
     map (\<lambda>e. e\<lparr>payload_index := j\<rparr>) (filter (\<lambda>e. payload_index e = i) (metadata_list d))"

definition add_child ::
    "delivery \<Rightarrow> nat \<Rightarrow> bool \<Rightarrow> child_part \<Rightarrow> (string \<times> child_bucket) list \<Rightarrow> (string \<times> child_bucket) list" where
  "add_child d i with_metadata part cs =
     (let key = bucket_key [] (part_route part);
          old = (case map_of cs key of
                   None \<Rightarrow> \<lparr>child_route = part_route part, child_metadata = [], child_payloads = [],
                           child_retires = [], child_sources = []\<rparr>
                 | Some c \<Rightarrow> c)
      in AList.update key
           (old\<lparr>child_payloads := child_payloads old @ [part_responses part],
                child_retires := child_retires old @ part_retires part,
                child_sources := child_sources old @ [i],
                child_metadata := child_metadata old
                  @ (if with_metadata then metadata_of d i (length (child_payloads old)) else [])\<rparr>) cs)"

text \<open>Only the first child of a payload that leaves nothing to the parent inherits its metadata.\<close>

fun add_children ::
    "delivery \<Rightarrow> nat \<Rightarrow> bool \<Rightarrow> child_part list \<Rightarrow> (string \<times> child_bucket) list \<Rightarrow> (string \<times> child_bucket) list" where
  "add_children d i first [] cs = cs"
| "add_children d i first (p # ps) cs = add_children d i False ps (add_child d i first p cs)"

record delivery_split =
  parent_payloads :: "(nat \<times> deliver_payload) list"
  split_children :: "(string \<times> child_bucket) list"
  delivery_cancels :: bool

definition split_payload ::
    "(string \<Rightarrow> proxy_route \<Rightarrow> bool) \<Rightarrow> proxy_map \<Rightarrow> delivery \<Rightarrow> delivery_split \<Rightarrow> nat \<times> deliver_payload
     \<Rightarrow> delivery_split" where
  "split_payload allow m d s ip =
     (let r = route_deliver_payload allow m (snd ip) in
      \<lparr>parent_payloads = (case for_self r of
           None \<Rightarrow> parent_payloads s | Some p \<Rightarrow> AList.update (fst ip) p (parent_payloads s)),
       split_children = add_children d (fst ip) (for_self r = None) (for_children r) (split_children s),
       delivery_cancels = (delivery_cancels s \<or> parent_cancels r)\<rparr>)"

definition split_delivery ::
    "(string \<Rightarrow> proxy_route \<Rightarrow> bool) \<Rightarrow> proxy_map \<Rightarrow> delivery \<Rightarrow> delivery_split" where
  "split_delivery allow m d =
     foldl (split_payload allow m d) \<lparr>parent_payloads = [], split_children = [], delivery_cancels = False\<rparr>
       (enumerate 0 (delivery_payloads d))"

text \<open>The answers of a task that finished meanwhile go back to the parent under the parent's ids.\<close>

definition stranded :: "string \<Rightarrow> json list \<Rightarrow> json list" where
  "stranded t rs = map (\<lambda>r. with_request_id (create_task_input_request_id t (response_id r)) r) rs"

definition blank_payload :: deliver_payload where
  "blank_payload = \<lparr>payload_task = None, payload_callback = None, payload_fields = []\<rparr>"

definition merge_responses ::
    "string \<Rightarrow> (nat \<times> deliver_payload) list \<Rightarrow> nat \<times> json list \<Rightarrow> (nat \<times> deliver_payload) list" where
  "merge_responses t ps x =
     (let back = stranded t (snd x); old = given_or blank_payload (map_of ps (fst x)) in
      if back = [] then ps
      else AList.update (fst x)
             (old\<lparr>payload_fields := AList.update ''inputResponses'' (JArr (payload_responses old @ back))
                                     (payload_fields old)\<rparr>) ps)"

definition merge_stranded_responses ::
    "(nat \<times> deliver_payload) list \<Rightarrow> child_bucket \<Rightarrow> string \<Rightarrow> (nat \<times> deliver_payload) list" where
  "merge_stranded_responses ps c t = foldl (merge_responses t) ps (zip (child_sources c) (child_payloads c))"

text \<open>
  A part is sent to the controller of the task that asked, to the hook of a workflow run, or to the inbox
  of a child session. Only a task may turn out to be unreachable; any other failure throws.
\<close>

datatype send_outcome = SentOk | Unreachable | SendThrew

datatype destination =
    TaskController string
  | AnswerHook string
  | ChildInbox "json option" string

datatype proxy_error = RegistryThrew registry_error | SendFailed

fun forward_children ::
    "(string \<Rightarrow> bool) \<Rightarrow> (child_bucket \<Rightarrow> send_outcome) \<Rightarrow> child_bucket list
     \<Rightarrow> session_state option \<Rightarrow> (nat \<times> deliver_payload) list \<Rightarrow> (destination \<times> child_bucket) list
     \<Rightarrow> proxy_error + session_state option \<times> (nat \<times> deliver_payload) list \<times> (destination \<times> child_bucket) list" where
  "forward_children url_ok send [] st ps sent = Inr (st, ps, sent)"
| "forward_children url_ok send (c # cs) st ps sent =
     (let deliver_to = (\<lambda>dest. forward_children url_ok send cs
              (retire_proxy_input_requests url_ok (child_retires c) st) ps (sent @ [(dest, c)]))
      in case route_task (child_route c) of
           Some t \<Rightarrow>
             (case find_background_workflow_tool_run st t of
                Inl e \<Rightarrow> Inl (RegistryThrew e)
              | Inr None \<Rightarrow> forward_children url_ok send cs st (merge_stranded_responses ps c t) sent
              | Inr (Some run) \<Rightarrow>
                  (case send c of
                     SendThrew \<Rightarrow> Inl SendFailed
                   | Unreachable \<Rightarrow> forward_children url_ok send cs st (merge_stranded_responses ps c t) sent
                   | SentOk \<Rightarrow> deliver_to (TaskController (wr_hook run))))
         | None \<Rightarrow>
             if send c \<noteq> SentOk then Inl SendFailed
             else (case route_answer_hook (child_route c) of
                     Some h \<Rightarrow> deliver_to (AnswerHook (route_child_token (child_route c)))
                   | None \<Rightarrow> deliver_to (ChildInbox (route_child_inbox (child_route c))
                                                (route_child_token (child_route c)))))"

definition allow_route :: "session_state option \<Rightarrow> string \<Rightarrow> proxy_route \<Rightarrow> bool" where
  "allow_route st i route =
     (case route_task route of
        None \<Rightarrow> True
      | Some t \<Rightarrow> (case find_background_workflow_tool_run st t of Inr (Some run) \<Rightarrow> True | _ \<Rightarrow> False))"

text \<open>The look at the registry throws for the first answer to a task when the registry is unreadable.\<close>

definition route_error :: "session_state option \<Rightarrow> proxy_map \<Rightarrow> json \<Rightarrow> registry_error option" where
  "route_error st m r =
     (case map_of m (response_id r) of
        None \<Rightarrow> None
      | Some route \<Rightarrow>
          (case route_task route of
             None \<Rightarrow> None
           | Some t \<Rightarrow> (case find_background_workflow_tool_run st t of Inl e \<Rightarrow> Some e | Inr _ \<Rightarrow> None)))"

definition delivery_responses :: "delivery \<Rightarrow> json list" where
  "delivery_responses d = concat (map payload_responses (delivery_payloads d))"

definition parent_remainder :: "delivery \<Rightarrow> (nat \<times> deliver_payload) list \<Rightarrow> remainder option" where
  "parent_remainder d ps =
     (let ordered = sort_key fst ps;
          metadata = concat (map (\<lambda>(j, i, p). metadata_of d i j) (enumerate 0 ordered))
      in if ordered = [] then None
         else Some (map snd ordered, if metadata = [] then None else Some metadata))"

definition route_proxied_deliver_step ::
    "(string \<Rightarrow> bool) \<Rightarrow> (child_bucket \<Rightarrow> send_outcome) \<Rightarrow> delivery \<Rightarrow> session_state option
     \<Rightarrow> proxy_error + session_state option \<times> (destination \<times> child_bucket) list \<times> routed" where
  "route_proxied_deliver_step url_ok send d st =
     (let m = read_map url_ok st in
      case List.map_filter (route_error st m) (delivery_responses d) of
        e # _ \<Rightarrow> Inl (RegistryThrew e)
      | [] \<Rightarrow>
          (let s = split_delivery (allow_route st) m d in
           case forward_children url_ok send (map snd (split_children s)) st (parent_payloads s) [] of
             Inl e \<Rightarrow> Inl e
           | Inr (st', ps, sent) \<Rightarrow>
               Inr (st', sent, if delivery_cancels s then RoutedCancel else RoutedOn (parent_remainder d ps))))"

section \<open>Reading back what was written\<close>

lemma string_item_JStr [simp]: "string_item \<circ> JStr = Some"
  by auto

lemma those_map_Some [simp]: "those (map Some xs) = Some xs"
  by (induction xs) auto

lemma kind_name_inj [simp]: "(kind_name k = kind_name k') = (k = k')"
  by (cases k; cases k') auto

lemma kind_round_trip [simp]: "is_input_request_kind (Some (JStr (kind_name k))) = Some k"
  by (cases k) (simp_all add: is_input_request_kind_def)

lemma batch_round_trip:
  "parse_proxy_input_request_batch (Some (encode_batch b))
   = (if distinct (batch_requests b) \<and> set (batch_approvals b) \<subseteq> set (batch_requests b) then Some b else None)"
  by (simp add: encode_batch_def)

text \<open>What the parser asks of a route, said of the route itself.\<close>

definition route_valid :: "(string \<Rightarrow> bool) \<Rightarrow> string \<Rightarrow> proxy_route \<Rightarrow> bool" where
  "route_valid url_ok i r =
     ((route_task r = None) = (route_child_request r = None)
      \<and> route_task r \<noteq> Some [] \<and> route_child_request r \<noteq> Some []
      \<and> (case route_response_url r of None \<Rightarrow> True | Some u \<Rightarrow> url_ok u)
      \<and> route_answer_hook r \<noteq> Some []
      \<and> (case route_child_inbox r of None \<Rightarrow> True | Some a \<Rightarrow> is_session_inbox_address a)
      \<and> (case route_batch r of None \<Rightarrow> True
         | Some b \<Rightarrow> distinct (batch_requests b) \<and> set (batch_approvals b) \<subseteq> set (batch_requests b)
                    \<and> i \<in> set (batch_requests b)))"

lemma optional_json_simps [simp]:
  "optional_json k None = []" "optional_json k (Some v) = [(k, v)]"
  by (simp_all add: optional_json_def)

lemma parse_encode:
  assumes "route_valid url_ok i r"
  shows "parse_proxy_input_request url_ok (encode_route r) i = Some r"
proof (cases r)
  case (fields token kind hook inbox batch child url task)
  show ?thesis
    using assms unfolding fields
    by (cases hook; cases inbox; cases batch; cases child; cases url; cases task)
       (auto simp: route_valid_def encode_route_def literal_field_def optional_non_empty_def non_empty_string_def
         optional_checked_def response_url_def inbox_address_def batch_round_trip)
qed

lemma parsed_valid:
  assumes "parse_proxy_input_request url_ok v i = Some r"
  shows "route_valid url_ok i r"
proof -
  obtain es where v: "v = JObj es"
    using assms by (cases v) auto
  have batch: "distinct (batch_requests b) \<and> set (batch_approvals b) \<subseteq> set (batch_requests b)"
    if "parse_proxy_input_request_batch w = Some b" for w b
    using that by (cases w rule: parse_proxy_input_request_batch.cases)
      (auto simp: Option.bind_eq_Some_conv split: if_splits)
  have names: "optional_non_empty es k \<noteq> Some (Some [])" "non_empty_string es k \<noteq> Some []" for es k
    by (auto simp: optional_non_empty_def non_empty_string_def split: option.splits json.splits if_splits)
  have hooks: "parse_answer_hook_route j \<noteq> Some []" for j
    using names(2) by (cases j) auto
  have urls: "url_ok u" if "optional_checked (response_url url_ok) w = Some (Some u)" for w u
    using that by (auto simp: optional_checked_def response_url_def split: option.splits json.splits if_splits)
  have inboxes: "is_session_inbox_address a" if "optional_checked inbox_address w = Some (Some a)" for w a
    using that by (auto simp: optional_checked_def inbox_address_def split: option.splits if_splits)
  have hook: "optional_checked parse_answer_hook_route w \<noteq> Some (Some [])" for w
    using hooks by (auto simp: optional_checked_def split: option.splits)
  let ?batch = "parse_proxy_input_request_batch (map_of es ''batch'')"
  obtain token kind task child url hk inbox where
    r: "r = \<lparr>route_child_token = token, route_kind = kind, route_answer_hook = hk, route_child_inbox = inbox,
       route_batch = (case ?batch of None \<Rightarrow> None | Some b \<Rightarrow> if i \<in> set (batch_requests b) then Some b else None),
       route_child_request = child, route_response_url = url, route_task = task\<rparr>"
    and given: "optional_non_empty es ''taskId'' = Some task" "optional_non_empty es ''childRequestId'' = Some child"
      "optional_checked (response_url url_ok) (map_of es ''childResponseUrl'') = Some url"
      "optional_checked parse_answer_hook_route (map_of es ''answerHook'') = Some hk"
      "optional_checked inbox_address (map_of es ''childSessionInbox'') = Some inbox"
      "(task = None) = (child = None)"
    using assms unfolding v by (auto simp: Option.bind_eq_Some_conv split: if_splits)
  have "task \<noteq> Some []" "child \<noteq> Some []" "hk \<noteq> Some []"
    using given(1,2,4) names(1) hook by auto
  moreover have "case url of None \<Rightarrow> True | Some u \<Rightarrow> url_ok u" "case inbox of None \<Rightarrow> True | Some a \<Rightarrow> is_session_inbox_address a"
    using given(3,5) urls inboxes by (auto split: option.split)
  ultimately show ?thesis
    using given(6) batch [of "map_of es ''batch''"] by (auto simp: route_valid_def r split: option.split)
qed

definition map_valid :: "(string \<Rightarrow> bool) \<Rightarrow> proxy_map \<Rightarrow> bool" where
  "map_valid url_ok m = (\<forall>(i, r) \<in> set m. route_valid url_ok i r)"

lemma read_map_valid: "map_valid url_ok (read_map url_ok st)"
  by (auto simp: map_valid_def read_map_def read_entry_def set_map_filter dest: parsed_valid
      split: option.splits json.splits)

lemma read_encoded:
  "map_valid url_ok m \<Longrightarrow> List.map_filter (read_entry url_ok) (map (\<lambda>(k, r). (k, encode_route r)) m) = m"
  by (induction m) (auto simp: map_valid_def read_entry_def parse_encode)

text \<open>The map is read back as it was written, and no other key of the session state changes.\<close>

lemma write_map_read:
  assumes "map_valid url_ok m"
  shows "read_map url_ok (write_map st m) = m"
  using assms read_encoded [OF assms]
  by (simp add: read_map_def write_map_def map_object_def)

lemma write_map_other: "k \<noteq> PROXY_INPUT_REQUESTS_KEY \<Longrightarrow> state_get (write_map st m) k = state_get st k"
  by (simp add: write_map_def)

lemma map_valid_filter: "map_valid url_ok m \<Longrightarrow> map_valid url_ok (filter P m)"
  by (auto simp: map_valid_def)

lemma filter_all: "\<not> list_ex P xs \<Longrightarrow> filter (\<lambda>x. \<not> P x) xs = xs"
  by (induction xs) auto

lemma read_retired:
  "read_map url_ok (retire_proxy_input_requests url_ok ids st) = filter (\<lambda>(k, r). k \<notin> set ids) (read_map url_ok st)"
  using filter_all [of "\<lambda>(k, r). k \<in> set ids" "read_map url_ok st"]
    write_map_read [OF map_valid_filter [OF read_map_valid]]
  by (auto simp: retire_proxy_input_requests_def case_prod_unfold)

lemma retire_other:
  "k \<noteq> PROXY_INPUT_REQUESTS_KEY \<Longrightarrow> state_get (retire_proxy_input_requests url_ok ids st) k = state_get st k"
  by (simp add: retire_proxy_input_requests_def write_map_other)

lemma read_cleared:
  "read_map url_ok (clear_proxy_input_requests_where url_ok select st)
   = filter (\<lambda>(k, r). \<not> select r) (read_map url_ok st)"
  using filter_all [of "\<lambda>(k, r). select r" "read_map url_ok st"]
    write_map_read [OF map_valid_filter [OF read_map_valid]]
  by (auto simp: clear_proxy_input_requests_where_def case_prod_unfold)

lemma read_cleared_all: "read_map url_ok (clear_all_proxy_input_requests url_ok st) = []"
  using write_map_read [of url_ok "[]" st]
  by (simp add: clear_all_proxy_input_requests_def has_proxy_input_requests_def map_valid_def)

lemma map_valid_update: "map_valid url_ok m \<Longrightarrow> route_valid url_ok k r \<Longrightarrow> map_valid url_ok (AList.update k r m)"
  by (induction m) (auto simp: map_valid_def)

lemma map_valid_Cons: "map_valid url_ok (e # m) = (route_valid url_ok (fst e) (snd e) \<and> map_valid url_ok m)"
  by (auto simp: map_valid_def)

lemma map_valid_updates:
  "map_valid url_ok m \<Longrightarrow> map_valid url_ok es \<Longrightarrow> map_valid url_ok (foldl (\<lambda>m (k, r). AList.update k r m) m es)"
proof (induction es arbitrary: m)
  case (Cons e es)
  then show ?case
    by (simp add: map_valid_Cons case_prod_unfold map_valid_update)
qed simp

text \<open>
  A new batch of a child replaces that child's earlier routes and leaves every other child answerable, unless it
  reuses their request ids.
\<close>

lemma read_upserted:
  assumes "map_valid url_ok es"
  shows "read_map url_ok (upsert_proxy_input_request_state url_ok es token st)
         = foldl (\<lambda>m (k, r). AList.update k r m) (filter (\<lambda>(k, r). route_child_token r \<noteq> token) (read_map url_ok st)) es"
  unfolding upsert_proxy_input_request_state_def
  by (rule write_map_read [OF map_valid_updates [OF map_valid_filter [OF read_map_valid] assms]])

lemma task_entries_valid:
  assumes "t \<noteq> []" "\<forall>(i, k) \<in> set rs. i \<noteq> []" "case url of None \<Rightarrow> True | Some u \<Rightarrow> url_ok u"
  shows "map_valid url_ok (task_input_request_entries t reply_to url rs)"
  using assms by (auto simp: map_valid_def task_input_request_entries_def route_valid_def)

lemma child_entries_valid:
  assumes "distinct (map fst rs)" "case inbox of None \<Rightarrow> True | Some a \<Rightarrow> is_session_inbox_address a"
  shows "map_valid url_ok (to_proxy_input_request_entries token session inbox rs)"
  using assms
  by (force simp: map_valid_def to_proxy_input_request_entries_def route_valid_def Let_def
      split: option.splits json.splits if_splits)

section \<open>No answer is lost\<close>

text \<open>The answer as the parent's client gave it, recovered from what its child is sent.\<close>

definition parent_form :: "proxy_route \<Rightarrow> json \<Rightarrow> json" where
  "parent_form route r =
     (case route_task route of
        None \<Rightarrow> r
      | Some t \<Rightarrow> with_request_id (create_task_input_request_id t (response_id r)) r)"

text \<open>Task routes are kept under the id derived from the task, as \<open>task_input_request_entries\<close> writes them.\<close>

definition well_keyed :: "proxy_map \<Rightarrow> bool" where
  "well_keyed m =
     (\<forall>(i, r) \<in> set m. case (route_task r, route_child_request r) of
        (None, None) \<Rightarrow> True
      | (Some t, Some c) \<Rightarrow> i = create_task_input_request_id t c
      | _ \<Rightarrow> False)"

definition nul_free :: "string \<Rightarrow> bool" where
  "nul_free s = (CHR 0x00 \<notin> set s)"

definition joinable :: "proxy_route \<Rightarrow> bool" where
  "joinable r = (nul_free (route_child_token r) \<and> nul_free (inbox_session r)
     \<and> nul_free (given_or [] (route_response_url r)) \<and> nul_free (given_or [] (route_task r)) \<and> route_task r \<noteq> Some [])"

definition same_child :: "proxy_route \<Rightarrow> proxy_route \<Rightarrow> bool" where
  "same_child r r' = (route_child_token r = route_child_token r' \<and> inbox_session r = inbox_session r'
     \<and> route_task r = route_task r')"

lemma same_child_trans: "same_child a b \<Longrightarrow> same_child b c \<Longrightarrow> same_child a c"
  by (simp add: same_child_def)

lemma same_child_refl [simp]: "same_child a a"
  by (simp add: same_child_def)

lemma nul_split:
  "nul_free a \<Longrightarrow> nul_free c \<Longrightarrow> a @ CHR 0x00 # b = c @ CHR 0x00 # d \<Longrightarrow> a = c \<and> b = d"
proof (induction a arbitrary: c)
  case Nil
  then show ?case by (cases c) (auto simp: nul_free_def)
next
  case (Cons x a)
  then show ?case by (cases c) (auto simp: nul_free_def)
qed

lemma bucket_key_same:
  assumes "bucket_key u a = bucket_key u b" "joinable a" "joinable b" "nul_free u"
  shows "same_child a b"
proof -
  have free: "nul_free (given_or u (route_response_url r))" if "joinable r" for r
    using that assms(4) by (cases "route_response_url r") (auto simp: joinable_def given_or_def)
  have nul: "nul_free (route_child_token a)" "nul_free (route_child_token b)" "nul_free (inbox_session a)"
      "nul_free (inbox_session b)"
    using assms(2,3) by (simp_all add: joinable_def)
  have eq: "route_child_token a @ CHR 0x00 # inbox_session a @ CHR 0x00 # given_or u (route_response_url a)
        @ CHR 0x00 # given_or [] (route_task a)
      = route_child_token b @ CHR 0x00 # inbox_session b @ CHR 0x00 # given_or u (route_response_url b)
        @ CHR 0x00 # given_or [] (route_task b)"
    using assms(1) by (simp add: bucket_key_def)
  have token: "route_child_token a = route_child_token b"
    using nul_split [OF nul(1,2) eq] ..
  have inbox: "inbox_session a = inbox_session b"
    using nul_split [OF nul(3,4) conjunct2 [OF nul_split [OF nul(1,2) eq]]] ..
  have task: "given_or [] (route_task a) = given_or [] (route_task b)"
    using nul_split [OF free [OF assms(2)] free [OF assms(3)]
      conjunct2 [OF nul_split [OF nul(3,4) conjunct2 [OF nul_split [OF nul(1,2) eq]]]]] ..
  have "route_task a = route_task b"
    using task assms(2,3) by (cases "route_task a"; cases "route_task b") (simp_all add: given_or_def joinable_def)
  then show ?thesis
    using token inbox by (simp add: same_child_def)
qed

lemma with_request_id_twice:
  assumes "response_id r = i" "i \<noteq> []"
  shows "with_request_id i (with_request_id c r) = r \<and> response_id (with_request_id c r) = c"
proof -
  obtain es where r: "r = JObj es" and es: "map_of es ''requestId'' = Some (JStr i)"
    using assms by (auto simp: response_id_def response_field_def literal_field_def split: json.splits option.splits)
  show ?thesis
    using es by (simp add: r with_request_id_def response_id_def response_field_def literal_field_def
        AList.update_last AList.update_triv AList.update_conv')
qed

lemma task_id_nonempty: "create_task_input_request_id t c \<noteq> []"
  by (simp add: create_task_input_request_id_def)

lemma child_form_parent_form:
  assumes "well_keyed m" "map_of m (response_id r) = Some route" "route_task rt = route_task route"
  shows "parent_form rt (to_child_input_response r route) = r"
proof -
  have "(response_id r, route) \<in> set m"
    using assms(2) by (rule map_of_SomeD)
  then have keyed: "case (route_task route, route_child_request route) of
        (None, None) \<Rightarrow> True
      | (Some t, Some c) \<Rightarrow> response_id r = create_task_input_request_id t c
      | _ \<Rightarrow> False"
    using assms(1) by (fastforce simp: well_keyed_def)
  show ?thesis
  proof (cases "route_task route")
    case None
    then show ?thesis
      using keyed assms(3) by (simp add: parent_form_def to_child_input_response_def split: option.splits)
  next
    case (Some t)
    then obtain c where c: "route_child_request route = Some c" "response_id r = create_task_input_request_id t c"
      using keyed by (auto split: option.splits)
    then show ?thesis
      using with_request_id_twice [OF c(2) task_id_nonempty, of c] Some assms(3)
      by (simp add: parent_form_def to_child_input_response_def)
  qed
qed

text \<open>Replacing one entry of a keyed list changes its contents by that entry.\<close>

lemma update_conserves:
  fixes g :: "'v \<Rightarrow> 'b list"
  shows "mset (concat (map (g \<circ> snd) (AList.update k v xs)))
           + (case map_of xs k of None \<Rightarrow> {#} | Some x \<Rightarrow> mset (g x))
         = mset (concat (map (g \<circ> snd) xs)) + mset (g v)"
  by (induction xs) (auto split: option.splits simp: ac_simps)

lemma set_update: "x \<in> set (AList.update k v xs) \<Longrightarrow> x = (k, v) \<or> x \<in> set xs"
  by (induction xs) (auto split: if_splits)

subsection \<open>One payload\<close>

definition fits :: "proxy_map \<Rightarrow> bool" where
  "fits m = (well_keyed m \<and> (\<forall>(i, r) \<in> set m. joinable r))"

definition answers :: "(string \<Rightarrow> proxy_route \<Rightarrow> bool) \<Rightarrow> proxy_map \<Rightarrow> proxy_route \<Rightarrow> json \<Rightarrow> bool" where
  "answers allow m rt r' =
     (\<exists>route. find_route allow m (parent_form rt r') = Some route
            \<and> to_child_input_response (parent_form rt r') route = r' \<and> same_child route rt)"

lemma answers_same: "answers allow m a r \<Longrightarrow> same_child a b \<Longrightarrow> answers allow m b r"
  by (auto simp: answers_def parent_form_def same_child_def)

lemma parent_form_same: "same_child a b \<Longrightarrow> parent_form a = parent_form b"
  by (rule ext) (simp add: parent_form_def same_child_def)

lemma find_route_Some:
  "find_route allow m r = Some route \<longleftrightarrow> map_of m (response_id r) = Some route \<and> allow (response_id r) route"
  by (auto simp: find_route_def split: option.splits)

lemma routed_answers:
  assumes "fits m" "find_route allow m r = Some route" "same_child route rt"
  shows "parent_form rt (to_child_input_response r route) = r \<and> answers allow m rt (to_child_input_response r route)
         \<and> joinable route"
proof -
  have at: "map_of m (response_id r) = Some route"
    using assms(2) by (simp add: find_route_Some)
  then have "parent_form rt (to_child_input_response r route) = r"
    using child_form_parent_form [of m r route rt] assms(1,3) by (simp add: fits_def same_child_def)
  then show ?thesis
    using assms map_of_SomeD [OF at] by (fastforce simp: answers_def fits_def)
qed

definition originals :: "response_bucket \<Rightarrow> json list" where
  "originals b = map (parent_form (bucket_route b)) (bucket_responses b)"

text \<open>The route that addresses a bucket is the route of one of its answers.\<close>

definition leads :: "(string \<Rightarrow> proxy_route \<Rightarrow> bool) \<Rightarrow> proxy_map \<Rightarrow> json list \<Rightarrow> proxy_route \<Rightarrow> bool" where
  "leads allow m rs rt = (\<exists>r \<in> set rs. find_route allow m r = Some rt)"

definition bucket_ok :: "(string \<Rightarrow> proxy_route \<Rightarrow> bool) \<Rightarrow> proxy_map \<Rightarrow> string \<times> response_bucket \<Rightarrow> bool" where
  "bucket_ok allow m kb =
     (fst kb = bucket_key ''local'' (bucket_route (snd kb)) \<and> joinable (bucket_route (snd kb))
      \<and> (\<forall>r \<in> set (bucket_responses (snd kb)). answers allow m (bucket_route (snd kb)) r)
      \<and> parent_request_ids (snd kb) = map response_id (originals (snd kb))
      \<and> map Some (bucket_routes (snd kb)) = map (find_route allow m) (originals (snd kb)))"

definition split_ok :: "(string \<Rightarrow> proxy_route \<Rightarrow> bool) \<Rightarrow> proxy_map \<Rightarrow> response_split \<Rightarrow> json list \<Rightarrow> bool" where
  "split_ok allow m s rs =
     (list_all (bucket_ok allow m) (split_buckets s)
      \<and> (\<forall>(k, b) \<in> set (split_buckets s). leads allow m (originals b) (bucket_route b))
      \<and> split_cancels s = (\<exists>r \<in> set rs. \<exists>route. find_route allow m r = Some route \<and> stops_child route r)
      \<and> mset rs = mset (unrouted s) + mset (concat (map (originals \<circ> snd) (split_buckets s))))"

lemma nul_free_local [simp]: "nul_free ''local''" "nul_free []"
  by (simp_all add: nul_free_def)

lemma split_response_ok:
  assumes "fits m" "split_ok allow m s rs"
  shows "split_ok allow m (split_response allow m s r) (rs @ [r])"
proof (cases "find_route allow m r")
  case None
  then show ?thesis
    using assms(2) by (auto simp: split_response_def split_ok_def)
next
  case (Some route)
  let ?key = "bucket_key ''local'' route" and ?bs = "split_buckets s"
  let ?fresh = "\<lparr>bucket_route = route, parent_request_ids = [], bucket_responses = [], bucket_routes = []\<rparr>"
  define old where "old = (case map_of ?bs ?key of None \<Rightarrow> ?fresh | Some b \<Rightarrow> b)"
  define b where "b = old\<lparr>parent_request_ids := parent_request_ids old @ [response_id r],
      bucket_responses := bucket_responses old @ [to_child_input_response r route],
      bucket_routes := bucket_routes old @ [route]\<rparr>"
  have joins: "joinable route"
    using routed_answers [OF assms(1) Some same_child_refl] by simp
  have old: "bucket_ok allow m (?key, old) \<and> same_child route (bucket_route old)
      \<and> mset (originals old) = (case map_of ?bs ?key of None \<Rightarrow> {#} | Some x \<Rightarrow> mset (originals x))"
  proof (cases "map_of ?bs ?key")
    case None
    then show ?thesis by (simp add: old_def bucket_ok_def originals_def joins)
  next
    case (Some x)
    then have x: "bucket_ok allow m (?key, x)"
      using assms(2) map_of_SomeD [OF Some] by (auto simp: split_ok_def list_all_iff)
    then have "same_child route (bucket_route x)"
      using bucket_key_same [of "''local''" route "bucket_route x"] joins by (simp add: bucket_ok_def)
    then show ?thesis
      using Some x by (simp add: old_def)
  qed
  note new = routed_answers [OF assms(1) Some conjunct1 [OF conjunct2 [OF old]]]
  have fresh_b: "bucket_route b = bucket_route old" "originals b = originals old @ [r]"
    using new by (simp_all add: b_def originals_def)
  have leads: "leads allow m (originals b) (bucket_route b)"
  proof (cases "map_of ?bs ?key")
    case None
    with Some fresh_b show ?thesis by (simp add: leads_def old_def)
  next
    case (Some x)
    then have "leads allow m (originals x) (bucket_route x)"
      using assms(2) map_of_SomeD [OF Some] by (auto simp: split_ok_def)
    with Some fresh_b show ?thesis by (auto simp: leads_def old_def)
  qed
  have "bucket_ok allow m (?key, b)"
    using old new fresh_b Some by (auto simp: bucket_ok_def b_def)
  moreover have step: "split_response allow m s r = s\<lparr>split_buckets := AList.update ?key b ?bs,
      split_cancels := split_cancels s \<or> stops_child route r\<rparr>"
    using Some by (simp add: split_response_def add_response_def b_def old_def Let_def)
  ultimately have oks: "list_all (bucket_ok allow m) (AList.update ?key b ?bs)"
    using assms(2) by (auto simp: split_ok_def list_all_iff dest: set_update)
  have "mset (concat (map (originals \<circ> snd) (AList.update ?key b ?bs))) + mset (originals old)
      = mset (concat (map (originals \<circ> snd) ?bs)) + mset (originals b)"
    using update_conserves [of originals ?key b ?bs] old by simp
  then have "mset (concat (map (originals \<circ> snd) (AList.update ?key b ?bs)))
      = mset (concat (map (originals \<circ> snd) ?bs)) + {#r#}"
    by (simp add: fresh_b(2))
  moreover have "\<forall>(k, b) \<in> set (AList.update ?key b ?bs). leads allow m (originals b) (bucket_route b)"
    using leads assms(2) by (auto simp: split_ok_def dest: set_update)
  ultimately show ?thesis
    using oks assms(2) Some by (auto simp: step split_ok_def)
qed

lemma split_responses_ok:
  assumes "fits m"
  shows "split_ok allow m (split_responses allow m rs) rs"
proof (induction rs rule: rev_induct)
  case Nil
  then show ?case by (simp add: split_responses_def split_ok_def)
next
  case (snoc r rs)
  then show ?case
    using split_response_ok [OF assms, of allow _ rs r] by (simp add: split_responses_def)
qed

lemma map_of_replaced [simp]: "map_of (filter (\<lambda>(k, v). k \<noteq> key) es @ xs) key = map_of xs key"
  by (induction es) auto

lemma map_of_filtered [simp]: "map_of (filter (\<lambda>(k, v). k \<noteq> key) es) key = None"
  using map_of_replaced [of key es "[]"] by (simp del: map_of_replaced)

lemma self_payload_responses:
  "self_payload p rs = Some p' \<Longrightarrow> payload_responses p' = rs"
  "self_payload p rs = None \<Longrightarrow> rs = []"
  by (auto simp: self_payload_def payload_responses_def Let_def simp del: map_of_append split: if_splits)

subsection \<open>A delivery\<close>

text \<open>
  The requests that answers settle: those they answer, and every request of a batch one of them belongs to when
  they include all of its approvals that the child still waits for.
\<close>

definition approvals_answered :: "proxy_map \<Rightarrow> json list \<Rightarrow> string \<Rightarrow> proxy_batch \<Rightarrow> bool" where
  "approvals_answered m rs token b \<longleftrightarrow>
     (\<forall>i \<in> set (batch_approvals b). i \<in> response_id ` set rs
        \<or> (\<forall>route b'. map_of m i = Some route \<longrightarrow> route_child_token route = token \<longrightarrow>
              route_batch route = Some b' \<longrightarrow> batch_requests b' \<noteq> batch_requests b))"

definition settled_by :: "(string \<Rightarrow> proxy_route \<Rightarrow> bool) \<Rightarrow> proxy_map \<Rightarrow> json list \<Rightarrow> string set" where
  "settled_by allow m rs =
     response_id ` set rs
     \<union> {i. \<exists>r \<in> set rs. \<exists>route b. find_route allow m r = Some route \<and> route_batch route = Some b
            \<and> approvals_answered m rs (route_child_token route) b \<and> i \<in> set (batch_requests b)}"

lemma batch_resolves_iff: "batch_resolves b token m (map response_id rs) \<longleftrightarrow> approvals_answered m rs token b"
  by (auto simp: batch_resolves_def approvals_answered_def same_batch_def list_all_iff split: option.splits)

definition part_originals :: "child_part \<Rightarrow> json list" where
  "part_originals p = map (parent_form (part_route p)) (part_responses p)"

definition part_ok :: "(string \<Rightarrow> proxy_route \<Rightarrow> bool) \<Rightarrow> proxy_map \<Rightarrow> child_part \<Rightarrow> bool" where
  "part_ok allow m p =
     (joinable (part_route p) \<and> (\<forall>r \<in> set (part_responses p). answers allow m (part_route p) r)
      \<and> leads allow m (part_originals p) (part_route p)
      \<and> set (part_retires p) = settled_by allow m (part_originals p))"

lemma retired_ids_in:
  "i \<in> set (retired_ids m b) \<longleftrightarrow> i \<in> set (parent_request_ids b)
     \<or> (\<exists>route \<in> set (bucket_routes b). \<exists>bt. route_batch route = Some bt
          \<and> batch_resolves bt (route_child_token (bucket_route b)) m (parent_request_ids b) \<and> i \<in> set (batch_requests bt))"
proof -
  let ?F = "\<lambda>route. case route_batch route of None \<Rightarrow> [] | Some bt \<Rightarrow>
      if batch_resolves bt (route_child_token (bucket_route b)) m (parent_request_ids b) then batch_requests bt else []"
  have batch: "i \<in> set (?F route) \<longleftrightarrow> (\<exists>bt. route_batch route = Some bt
      \<and> batch_resolves bt (route_child_token (bucket_route b)) m (parent_request_ids b) \<and> i \<in> set (batch_requests bt))"
    for route by (cases "route_batch route") simp_all
  have "i \<in> set (retired_ids m b) \<longleftrightarrow> i \<in> set (parent_request_ids b)
      \<or> (\<exists>route \<in> set (bucket_routes b). i \<in> set (?F route))"
    unfolding retired_ids_def set_remdups set_append set_concat set_map Un_iff by blast
  then show ?thesis unfolding batch .
qed

lemma retired_ids_settled:
  assumes "bucket_ok allow m (k, b)"
  shows "set (retired_ids m b) = settled_by allow m (originals b)"
proof (rule set_eqI)
  fix i
  have ids: "parent_request_ids b = map response_id (originals b)"
    and routes: "map Some (bucket_routes b) = map (find_route allow m) (originals b)"
    using assms by (simp_all add: bucket_ok_def)
  have token: "route_child_token route = route_child_token (bucket_route b)"
    if "r \<in> set (originals b)" "find_route allow m r = Some route" for r route
    using that assms by (auto simp: bucket_ok_def originals_def answers_def same_child_def)
  have at: "route \<in> set (bucket_routes b) \<longleftrightarrow> (\<exists>r \<in> set (originals b). find_route allow m r = Some route)" for route
  proof -
    have "route \<in> set (bucket_routes b) \<longleftrightarrow> Some route \<in> set (map Some (bucket_routes b))" by auto
    then show ?thesis unfolding routes by (auto simp: image_iff) metis
  qed
  have "i \<in> set (retired_ids m b) \<longleftrightarrow> i \<in> response_id ` set (originals b)
      \<or> (\<exists>route \<in> set (bucket_routes b). \<exists>bt. route_batch route = Some bt
           \<and> approvals_answered m (originals b) (route_child_token (bucket_route b)) bt \<and> i \<in> set (batch_requests bt))"
    unfolding retired_ids_in ids batch_resolves_iff by simp
  also have "\<dots> \<longleftrightarrow> i \<in> response_id ` set (originals b)
      \<or> (\<exists>r \<in> set (originals b). \<exists>route bt. find_route allow m r = Some route \<and> route_batch route = Some bt
           \<and> approvals_answered m (originals b) (route_child_token (bucket_route b)) bt \<and> i \<in> set (batch_requests bt))"
    using at by blast
  also have "\<dots> \<longleftrightarrow> i \<in> response_id ` set (originals b)
      \<or> (\<exists>r \<in> set (originals b). \<exists>route bt. find_route allow m r = Some route \<and> route_batch route = Some bt
           \<and> approvals_answered m (originals b) (route_child_token route) bt \<and> i \<in> set (batch_requests bt))"
    using token by metis
  finally show "i \<in> set (retired_ids m b) \<longleftrightarrow> i \<in> settled_by allow m (originals b)"
    by (simp only: settled_by_def Un_iff mem_Collect_eq)
qed

lemma bucket_part_ok:
  assumes "bucket_ok allow m (k, b)" "leads allow m (originals b) (bucket_route b)"
  shows "part_ok allow m \<lparr>part_route = bucket_route b, part_responses = bucket_responses b,
           part_retires = retired_ids m b\<rparr>"
  using assms retired_ids_settled [OF assms(1)]
  by (simp add: part_ok_def bucket_ok_def part_originals_def originals_def)

lemma route_deliver_payload_ok:
  assumes "fits m" "r = route_deliver_payload allow m p"
  shows "list_all (part_ok allow m) (for_children r)
         \<and> mset (payload_responses p)
           = mset (case for_self r of None \<Rightarrow> [] | Some p' \<Rightarrow> payload_responses p')
             + mset (concat (map part_originals (for_children r)))
         \<and> parent_cancels r = (\<exists>a \<in> set (payload_responses p). \<exists>route. find_route allow m a = Some route \<and> stops_child route a)"
proof -
  let ?s = "split_responses allow m (payload_responses p)"
  have ok: "split_ok allow m ?s (payload_responses p)"
    by (rule split_responses_ok [OF assms(1)])
  have portions: "map part_originals (for_children r) = map (originals \<circ> snd) (split_buckets ?s)"
    by (auto simp: assms(2) route_deliver_payload_def Let_def part_originals_def originals_def)
  have "(case for_self r of None \<Rightarrow> [] | Some p' \<Rightarrow> payload_responses p') = unrouted ?s"
    using self_payload_responses [of p "unrouted ?s"]
    by (cases "self_payload p (unrouted ?s)") (simp_all add: assms(2) route_deliver_payload_def Let_def)
  moreover have "parent_cancels r = split_cancels ?s"
    by (simp add: assms(2) route_deliver_payload_def Let_def)
  moreover have "list_all (part_ok allow m) (for_children r)"
    using ok bucket_part_ok
    by (fastforce simp: assms(2) route_deliver_payload_def Let_def split_ok_def list_all_iff)
  ultimately show ?thesis
    using ok by (simp add: split_ok_def portions)
qed

definition child_originals :: "child_bucket \<Rightarrow> json list" where
  "child_originals c = map (parent_form (child_route c)) (concat (child_payloads c))"

definition child_ok :: "(string \<Rightarrow> proxy_route \<Rightarrow> bool) \<Rightarrow> proxy_map \<Rightarrow> nat \<Rightarrow> string \<times> child_bucket \<Rightarrow> bool" where
  "child_ok allow m n kc =
     (fst kc = bucket_key [] (child_route (snd kc)) \<and> joinable (child_route (snd kc))
      \<and> (\<forall>r \<in> set (concat (child_payloads (snd kc))). answers allow m (child_route (snd kc)) r)
      \<and> set (child_retires (snd kc))
          = (\<Union>rs \<in> set (child_payloads (snd kc)). settled_by allow m (map (parent_form (child_route (snd kc))) rs))
      \<and> length (child_sources (snd kc)) = length (child_payloads (snd kc))
      \<and> (\<forall>i \<in> set (child_sources (snd kc)). i < n))"

lemma add_child_ok:
  assumes "part_ok allow m part" "list_all (child_ok allow m n) cs" "i < n"
    and "\<forall>(k, c) \<in> set cs. leads allow m (child_originals c) (child_route c)"
  shows "list_all (child_ok allow m n) (add_child d i w part cs)
         \<and> (\<forall>(k, c) \<in> set (add_child d i w part cs). leads allow m (child_originals c) (child_route c))
         \<and> mset (concat (map (child_originals \<circ> snd) (add_child d i w part cs)))
           = mset (concat (map (child_originals \<circ> snd) cs)) + mset (part_originals part)"
proof -
  let ?key = "bucket_key [] (part_route part)"
  let ?fresh = "\<lparr>child_route = part_route part, child_metadata = [], child_payloads = [], child_retires = [],
    child_sources = []\<rparr>"
  define old where "old = (case map_of cs ?key of None \<Rightarrow> ?fresh | Some c \<Rightarrow> c)"
  define c where "c = old\<lparr>child_payloads := child_payloads old @ [part_responses part],
      child_retires := child_retires old @ part_retires part, child_sources := child_sources old @ [i],
      child_metadata := child_metadata old @ (if w then metadata_of d i (length (child_payloads old)) else [])\<rparr>"
  have joins: "joinable (part_route part)"
    using assms(1) by (simp add: part_ok_def)
  have old: "child_ok allow m n (?key, old) \<and> same_child (part_route part) (child_route old)
      \<and> mset (child_originals old) = (case map_of cs ?key of None \<Rightarrow> {#} | Some x \<Rightarrow> mset (child_originals x))"
  proof (cases "map_of cs ?key")
    case None
    then show ?thesis by (simp add: old_def child_ok_def child_originals_def joins)
  next
    case (Some x)
    then have x: "child_ok allow m n (?key, x)"
      using assms(2) map_of_SomeD [OF Some] by (auto simp: list_all_iff)
    then have "same_child (part_route part) (child_route x)"
      using bucket_key_same [of "[]" "part_route part" "child_route x"] joins by (simp add: child_ok_def)
    then show ?thesis
      using Some x by (simp add: old_def)
  qed
  have same: "same_child (part_route part) (child_route old)"
    using old by simp
  have c: "child_route c = child_route old" "child_originals c = child_originals old @ part_originals part"
    using parent_form_same [OF same] by (simp_all add: c_def child_originals_def part_originals_def)
  have "child_ok allow m n (?key, c)"
    using old assms(1,3) answers_same [OF _ same] c(1) parent_form_same [OF same]
    by (auto simp: child_ok_def part_ok_def c_def part_originals_def)
  moreover have step: "add_child d i w part cs = AList.update ?key c cs"
    by (simp add: add_child_def Let_def c_def old_def)
  ultimately have oks: "list_all (child_ok allow m n) (add_child d i w part cs)"
    using assms(2) by (auto simp: list_all_iff dest: set_update)
  have "leads allow m (child_originals c) (child_route c)"
  proof (cases "map_of cs ?key")
    case None
    with assms(1) c show ?thesis by (auto simp: part_ok_def leads_def old_def)
  next
    case (Some x)
    then have "leads allow m (child_originals x) (child_route x)"
      using assms(4) map_of_SomeD [OF Some] by auto
    with Some c show ?thesis by (auto simp: leads_def old_def)
  qed
  then have led: "\<forall>(k, c) \<in> set (add_child d i w part cs). leads allow m (child_originals c) (child_route c)"
    using assms(4) by (auto simp: step dest: set_update)
  have "mset (concat (map (child_originals \<circ> snd) (AList.update ?key c cs))) + mset (child_originals old)
      = mset (concat (map (child_originals \<circ> snd) cs)) + mset (child_originals c)"
    using update_conserves [of child_originals ?key c cs] old by simp
  then show ?thesis
    using oks led by (simp add: step c(2))
qed

lemma add_children_ok:
  assumes "list_all (part_ok allow m) portions" "list_all (child_ok allow m n) cs" "i < n"
    and "\<forall>(k, c) \<in> set cs. leads allow m (child_originals c) (child_route c)"
  shows "list_all (child_ok allow m n) (add_children d i w portions cs)
         \<and> (\<forall>(k, c) \<in> set (add_children d i w portions cs). leads allow m (child_originals c) (child_route c))
         \<and> mset (concat (map (child_originals \<circ> snd) (add_children d i w portions cs)))
           = mset (concat (map (child_originals \<circ> snd) cs)) + mset (concat (map part_originals portions))"
  using assms
proof (induction d i w portions cs rule: add_children.induct)
  case (2 d i first p ps cs)
  then show ?case
    using add_child_ok [of allow m p n cs i d first] by (simp add: comp_def)
qed simp

text \<open>A payload without its input responses.\<close>

definition rest_of :: "deliver_payload \<Rightarrow> deliver_payload" where
  "rest_of p = p\<lparr>payload_fields := filter (\<lambda>(k, v). k \<noteq> ''inputResponses'') (payload_fields p)\<rparr>"

lemma rest_of_blank [simp]: "rest_of blank_payload = blank_payload"
  by (simp add: rest_of_def blank_payload_def)

lemma rest_of_self:
  "self_payload p rs = Some p' \<Longrightarrow> rest_of p' = rest_of p"
  "self_payload p rs = None \<Longrightarrow> rest_of p = blank_payload"
  by (auto simp: self_payload_def rest_of_def blank_payload_def Let_def split: if_splits)

lemma filter_update: "filter (\<lambda>(k, v). k \<noteq> key) (AList.update key x es) = filter (\<lambda>(k, v). k \<noteq> key) es"
  by (induction es) auto

text \<open>What stays with the parent, by the index of the payload it came from.\<close>

definition parents_ok :: "deliver_payload list \<Rightarrow> (nat \<times> deliver_payload) list \<Rightarrow> bool" where
  "parents_ok ps pp =
     (distinct (map fst pp) \<and> (\<forall>i \<in> fst ` set pp. i < length ps)
      \<and> (\<forall>i < length ps. rest_of (given_or blank_payload (map_of pp i)) = rest_of (ps ! i)))"

abbreviation responses_in :: "(nat \<times> deliver_payload) list \<Rightarrow> json list" where
  "responses_in pp \<equiv> concat (map (payload_responses \<circ> snd) pp)"

abbreviation originals_in :: "child_bucket list \<Rightarrow> json list" where
  "originals_in cs \<equiv> concat (map child_originals cs)"

definition delivery_ok ::
    "(string \<Rightarrow> proxy_route \<Rightarrow> bool) \<Rightarrow> proxy_map \<Rightarrow> deliver_payload list \<Rightarrow> delivery_split \<Rightarrow> bool" where
  "delivery_ok allow m ps s =
     (list_all (child_ok allow m (length ps)) (split_children s) \<and> parents_ok ps (parent_payloads s)
      \<and> (\<forall>(k, c) \<in> set (split_children s). leads allow m (child_originals c) (child_route c))
      \<and> delivery_cancels s
        = (\<exists>a \<in> set (concat (map payload_responses ps)). \<exists>route. find_route allow m a = Some route \<and> stops_child route a)
      \<and> mset (concat (map payload_responses ps))
        = mset (responses_in (parent_payloads s)) + mset (originals_in (map snd (split_children s))))"

lemma child_ok_mono: "child_ok allow m n kc \<Longrightarrow> n \<le> n' \<Longrightarrow> child_ok allow m n' kc"
  by (auto simp: child_ok_def)

lemma given_or_simps [simp]: "given_or x None = x" "given_or x (Some y) = y"
  by (simp_all add: given_or_def)

lemma split_payload_ok:
  assumes "fits m" "delivery_ok allow m ps s"
  shows "delivery_ok allow m (ps @ [p]) (split_payload allow m d s (length ps, p))"
proof -
  let ?r = "route_deliver_payload allow m p" and ?n = "length ps"
  let ?s' = "split_payload allow m d s (?n, p)"
  have routed: "list_all (part_ok allow m) (for_children ?r)"
      "mset (payload_responses p) = mset (case for_self ?r of None \<Rightarrow> [] | Some p' \<Rightarrow> payload_responses p')
         + mset (concat (map part_originals (for_children ?r)))"
      "parent_cancels ?r = (\<exists>a \<in> set (payload_responses p). \<exists>route. find_route allow m a = Some route \<and> stops_child route a)"
    using route_deliver_payload_ok [OF assms(1) HOL.refl, of allow p] by blast+
  have old: "list_all (child_ok allow m (Suc ?n)) (split_children s)"
    using assms(2) child_ok_mono [of allow m ?n _ "Suc ?n"] by (auto simp: delivery_ok_def list_all_iff)
  have led: "\<forall>(k, c) \<in> set (split_children s). leads allow m (child_originals c) (child_route c)"
    using assms(2) by (simp add: delivery_ok_def)
  have kids: "list_all (child_ok allow m (Suc ?n)) (split_children ?s')"
      "\<forall>(k, c) \<in> set (split_children ?s'). leads allow m (child_originals c) (child_route c)"
      "mset (originals_in (map snd (split_children ?s')))
       = mset (originals_in (map snd (split_children s))) + mset (concat (map part_originals (for_children ?r)))"
    using add_children_ok [OF routed(1) old _ led, of ?n d "for_self ?r = None"]
    by (simp_all add: split_payload_def Let_def comp_def)
  have stops: "delivery_cancels ?s' = (delivery_cancels s \<or> parent_cancels ?r)"
    by (simp add: split_payload_def Let_def)
  have fresh: "map_of (parent_payloads s) ?n = None" "?n \<notin> fst ` set (parent_payloads s)"
    using assms(2) by (auto simp: delivery_ok_def parents_ok_def map_of_eq_None_iff)
  obtain rs where self: "for_self ?r = self_payload p rs"
    by (simp add: route_deliver_payload_def Let_def)
  have rest: "rest_of (given_or blank_payload (for_self ?r)) = rest_of p"
    using rest_of_self [of p rs] by (cases "self_payload p rs") (simp_all add: self)
  have pp: "map_of (parent_payloads ?s') = (map_of (parent_payloads s))(?n := for_self ?r)"
    using fresh(1) by (auto simp: split_payload_def Let_def AList.update_conv' split: option.split)
  have keys: "distinct (map fst (parent_payloads ?s'))" "\<forall>i \<in> fst ` set (parent_payloads ?s'). i < Suc ?n"
    using assms(2) less_SucI
    by (auto simp: split_payload_def Let_def delivery_ok_def parents_ok_def AList.distinct_update
        dest!: set_update split: option.split)
  have "parents_ok (ps @ [p]) (parent_payloads ?s')"
    using keys rest assms(2) by (auto simp: parents_ok_def pp delivery_ok_def nth_append less_Suc_eq)
  moreover have "mset (responses_in (parent_payloads ?s'))
      = mset (responses_in (parent_payloads s)) + mset (case for_self ?r of None \<Rightarrow> [] | Some p' \<Rightarrow> payload_responses p')"
    using update_conserves [of payload_responses ?n _ "parent_payloads s"] fresh(1)
    by (auto simp: split_payload_def Let_def split: option.split)
  moreover have "delivery_cancels ?s' = (\<exists>a \<in> set (concat (map payload_responses (ps @ [p]))).
      \<exists>route. find_route allow m a = Some route \<and> stops_child route a)"
    using assms(2) unfolding stops routed(3) delivery_ok_def by auto
  ultimately show ?thesis
    using kids routed(2) assms(2) by (simp add: delivery_ok_def)
qed

lemma split_delivery_ok:
  assumes "fits m"
  shows "delivery_ok allow m (delivery_payloads d) (split_delivery allow m d)"
proof -
  have "delivery_ok allow m ps (foldl (split_payload allow m d)
      \<lparr>parent_payloads = [], split_children = [], delivery_cancels = False\<rparr> (enumerate 0 ps))" for ps
  proof (induction ps rule: rev_induct)
    case Nil
    then show ?case by (simp add: delivery_ok_def parents_ok_def)
  next
    case (snoc p ps)
    then show ?case
      using split_payload_ok [OF assms] by (simp add: enumerate_append_eq)
  qed
  then show ?thesis by (simp add: split_delivery_def)
qed

subsection \<open>Forwarding\<close>

lemma stranded_parent_form: "route_task rt = Some t \<Longrightarrow> stranded t = map (parent_form rt)"
  by (rule ext) (simp add: stranded_def parent_form_def)

lemma merge_responses_ok:
  assumes "parents_ok ps pp" "fst x < length ps"
  shows "parents_ok ps (merge_responses t pp x)
         \<and> mset (responses_in (merge_responses t pp x)) = mset (responses_in pp) + mset (stranded t (snd x))"
proof (cases "stranded t (snd x) = []")
  case True
  then show ?thesis using assms(1) by (simp add: merge_responses_def Let_def)
next
  case False
  let ?old = "given_or blank_payload (map_of pp (fst x))"
  let ?new = "?old\<lparr>payload_fields := AList.update ''inputResponses''
      (JArr (payload_responses ?old @ stranded t (snd x))) (payload_fields ?old)\<rparr>"
  have step: "merge_responses t pp x = AList.update (fst x) ?new pp"
    using False by (simp add: merge_responses_def Let_def)
  have new: "payload_responses ?new = payload_responses ?old @ stranded t (snd x)" "rest_of ?new = rest_of ?old"
    by (simp_all add: payload_responses_def AList.update_conv' rest_of_def filter_update)
  have "payload_responses ?old = (case map_of pp (fst x) of None \<Rightarrow> [] | Some p \<Rightarrow> payload_responses p)"
    by (simp add: payload_responses_def blank_payload_def split: option.split)
  then have "mset (responses_in (merge_responses t pp x)) = mset (responses_in pp) + mset (stranded t (snd x))"
    using update_conserves [of payload_responses "fst x" ?new pp] new(1)
    by (auto simp: step split: option.splits)
  moreover have "parents_ok ps (merge_responses t pp x)"
    using assms new(2) by (auto simp: parents_ok_def step AList.distinct_update AList.update_conv' dest!: set_update)
  ultimately show ?thesis by blast
qed

lemma merge_stranded_ok:
  assumes "parents_ok ps pp" "child_ok allow m (length ps) kc" "route_task (child_route (snd kc)) = Some t"
  shows "parents_ok ps (merge_stranded_responses pp (snd kc) t)
         \<and> mset (responses_in (merge_stranded_responses pp (snd kc) t))
           = mset (responses_in pp) + mset (child_originals (snd kc))"
proof -
  have fold: "parents_ok ps (foldl (merge_responses t) pp xs)
      \<and> mset (responses_in (foldl (merge_responses t) pp xs))
        = mset (responses_in pp) + mset (concat (map (stranded t \<circ> snd) xs))"
    if "parents_ok ps pp" "\<forall>x \<in> set xs. fst x < length ps" for xs pp
    using that
  proof (induction xs arbitrary: pp)
    case (Cons x xs)
    then show ?case
      using merge_responses_ok [of ps pp x t] Cons.IH [of "merge_responses t pp x"] by (simp add: comp_def)
  qed simp
  let ?c = "snd kc"
  have len: "length (child_sources ?c) = length (child_payloads ?c)" "\<forall>i \<in> set (child_sources ?c). i < length ps"
    using assms(2) by (simp_all add: child_ok_def)
  have "map (stranded t \<circ> snd) (zip (child_sources ?c) (child_payloads ?c)) = map (stranded t) (child_payloads ?c)"
    using len(1) map_map [of "stranded t" snd "zip (child_sources ?c) (child_payloads ?c)"] by simp
  then have "concat (map (stranded t \<circ> snd) (zip (child_sources ?c) (child_payloads ?c))) = child_originals ?c"
    using stranded_parent_form [OF assms(3)] by (simp add: child_originals_def map_concat)
  moreover have "\<forall>x \<in> set (zip (child_sources ?c) (child_payloads ?c)). fst x < length ps"
    using len(2) by (metis prod.collapse set_zip_leftD)
  ultimately show ?thesis
    using fold [OF assms(1), of "zip (child_sources ?c) (child_payloads ?c)"]
    by (simp add: merge_stranded_responses_def)
qed

lemma find_same_registry:
  assumes "\<And>k. k \<noteq> PROXY_INPUT_REQUESTS_KEY \<Longrightarrow> state_get st' k = state_get st k"
  shows "find_background_workflow_tool_run st' t = find_background_workflow_tool_run st t"
  using assms by (simp add: find_background_workflow_tool_run_def get_background_workflow_tool_runs_def
      get_workflow_tool_runs_def read_registry_def PROXY_INPUT_REQUESTS_KEY_def WORKFLOW_TOOL_RUNS_STATE_KEY_def)

abbreviation retired_by :: "child_bucket list \<Rightarrow> string set" where
  "retired_by cs \<equiv> set (concat (map child_retires cs))"

text \<open>
  Where an answer to a request belongs: with the controller of the task that asked, the answer hook of a run, or
  the inbox of the child session.
\<close>

definition address_of :: "session_state option \<Rightarrow> proxy_route \<Rightarrow> destination option" where
  "address_of st route =
     (case route_task route of
        Some t \<Rightarrow> (case find_background_workflow_tool_run st t of
                    Inr (Some run) \<Rightarrow> Some (TaskController (wr_hook run)) | _ \<Rightarrow> None)
      | None \<Rightarrow> Some (if route_answer_hook route = None then ChildInbox (route_child_inbox route) (route_child_token route)
                     else AnswerHook (route_child_token route)))"

text \<open>
  Every part is sent to where its route points or goes back to the parent, and exactly the routes of the sent
  parts are retired.
\<close>

definition forwarded ::
    "(string \<Rightarrow> bool) \<Rightarrow> (child_bucket \<Rightarrow> send_outcome) \<Rightarrow> deliver_payload list \<Rightarrow> child_bucket list
     \<Rightarrow> session_state option \<Rightarrow> (nat \<times> deliver_payload) list \<Rightarrow> (destination \<times> child_bucket) list
     \<Rightarrow> session_state option \<Rightarrow> (nat \<times> deliver_payload) list \<Rightarrow> bool" where
  "forwarded url_ok send ps cs st pp new st' pp' =
     (snd ` set new \<subseteq> set cs \<and> parents_ok ps pp'
      \<and> mset (responses_in pp') + mset (originals_in (map snd new)) = mset (responses_in pp) + mset (originals_in cs)
      \<and> read_map url_ok st' = filter (\<lambda>(k, r). k \<notin> retired_by (map snd new)) (read_map url_ok st)
      \<and> (\<forall>k. k \<noteq> PROXY_INPUT_REQUESTS_KEY \<longrightarrow> state_get st' k = state_get st k)
      \<and> (\<forall>(dest, c) \<in> set new. send c = SentOk \<and> address_of st (child_route c) = Some dest))"

lemma forwarded_Nil: "parents_ok ps pp \<Longrightarrow> forwarded url_ok send ps [] st pp [] st pp"
  by (simp add: forwarded_def case_prod_unfold)

lemma address_same:
  "(\<And>k. k \<noteq> PROXY_INPUT_REQUESTS_KEY \<Longrightarrow> state_get st' k = state_get st k) \<Longrightarrow> address_of st' route = address_of st route"
  using find_same_registry [of st' st] by (cases "route_task route") (simp_all add: address_of_def)

lemma forwarded_sent:
  assumes "send c = SentOk" and "address_of st (child_route c) = Some dest"
    and "forwarded url_ok send ps cs (retire_proxy_input_requests url_ok (child_retires c) st) pp new st' pp'"
  shows "forwarded url_ok send ps (c # cs) st pp ((dest, c) # new) st' pp'"
proof -
  have "read_map url_ok st' = filter (\<lambda>(k, r). k \<notin> retired_by (map snd ((dest, c) # new))) (read_map url_ok st)"
    using assms(3) by (simp add: forwarded_def read_retired case_prod_unfold conj_commute)
  moreover have "mset (responses_in pp') + mset (originals_in (map snd ((dest, c) # new)))
      = mset (responses_in pp) + mset (originals_in (c # cs))"
    using assms(3) by (simp add: forwarded_def comp_def ac_simps)
  moreover have "address_of (retire_proxy_input_requests url_ok (child_retires c) st) = address_of st"
    using address_same retire_other by blast
  ultimately show ?thesis
    using assms retire_other unfolding forwarded_def by auto
qed

lemma forwarded_merged:
  assumes "child_ok allow m (length ps) (k, c)" "parents_ok ps pp" "route_task (child_route c) = Some t"
    and "forwarded url_ok send ps cs st (merge_stranded_responses pp c t) new st' pp'"
  shows "forwarded url_ok send ps (c # cs) st pp new st' pp'"
proof -
  have "mset (responses_in (merge_stranded_responses pp c t)) = mset (responses_in pp) + mset (child_originals c)"
    using merge_stranded_ok [OF assms(2,1), of t] assms(3) by simp
  then have "mset (responses_in pp') + mset (originals_in (map snd new)) = mset (responses_in pp) + mset (originals_in (c # cs))"
    using assms(4) unfolding forwarded_def by simp
  then show ?thesis
    using assms(4) unfolding forwarded_def by auto
qed

text \<open>A step of the loop that does not throw.\<close>

lemma forward_step:
  assumes "forward_children url_ok send (c # cs) st pp sent = Inr r"
  shows "(send c = SentOk \<and> (\<exists>dest. address_of st (child_route c) = Some dest \<and> forward_children url_ok send cs
            (retire_proxy_input_requests url_ok (child_retires c) st) pp (sent @ [(dest, c)]) = Inr r))
      \<or> (\<exists>t. route_task (child_route c) = Some t
            \<and> forward_children url_ok send cs st (merge_stranded_responses pp c t) sent = Inr r)"
  using assms by (auto simp: Let_def address_of_def split: option.splits sum.splits send_outcome.splits if_splits)

lemma forward_children_ok:
  assumes "forward_children url_ok send cs st pp sent = Inr (st', pp', sent')"
    and "\<forall>c \<in> set cs. \<exists>k. child_ok allow m (length ps) (k, c)" "parents_ok ps pp"
  shows "\<exists>new. sent' = sent @ new \<and> forwarded url_ok send ps cs st pp new st' pp'"
  using assms
proof (induction cs arbitrary: st pp sent)
  case Nil
  then show ?case using forwarded_Nil by auto
next
  case (Cons c cs)
  obtain k where c: "child_ok allow m (length ps) (k, c)"
    using Cons.prems(2) by auto
  have rest: "\<forall>c \<in> set cs. \<exists>k. child_ok allow m (length ps) (k, c)"
    using Cons.prems(2) by simp
  from forward_step [OF Cons.prems(1)] show ?case
  proof
    assume "send c = SentOk \<and> (\<exists>dest. address_of st (child_route c) = Some dest \<and> forward_children url_ok send cs
        (retire_proxy_input_requests url_ok (child_retires c) st) pp (sent @ [(dest, c)]) = Inr (st', pp', sent'))"
    then obtain dest new where "send c = SentOk" "address_of st (child_route c) = Some dest" "sent' = (sent @ [(dest, c)]) @ new"
        "forwarded url_ok send ps cs (retire_proxy_input_requests url_ok (child_retires c) st) pp new st' pp'"
      using Cons.IH rest Cons.prems(3) by blast
    then show ?thesis
      using forwarded_sent by fastforce
  next
    assume "\<exists>t. route_task (child_route c) = Some t
        \<and> forward_children url_ok send cs st (merge_stranded_responses pp c t) sent = Inr (st', pp', sent')"
    then obtain t new where "route_task (child_route c) = Some t" "sent' = sent @ new"
        "forwarded url_ok send ps cs st (merge_stranded_responses pp c t) new st' pp'"
      using Cons.IH [OF _ rest] merge_stranded_ok [OF Cons.prems(3) c] by fastforce
    then show ?thesis
      using forwarded_merged [OF c Cons.prems(3)] by blast
  qed
qed

subsection \<open>What stays with the parent\<close>

lemma sorted_entries:
  assumes "distinct (map fst pp)" "\<forall>i \<in> fst ` set pp. i < n"
  shows "sort_key fst pp = map (\<lambda>i. (i, the (map_of pp i))) (filter (\<lambda>i. map_of pp i \<noteq> None) [0..<n])"
proof -
  let ?S = "sort_key fst pp"
  have keys: "distinct (map fst ?S)" "sorted (map fst ?S)" "set ?S = set pp"
    using assms(1) by (simp_all add: distinct_map)
  have "set (map fst ?S) = set (filter (\<lambda>i. map_of pp i \<noteq> None) [0..<n])"
    using assms(2) by (auto simp: map_of_eq_None_iff domIff dom_map_of_conv_image_fst)
  then have "map fst ?S = filter (\<lambda>i. map_of pp i \<noteq> None) [0..<n]"
    using keys by (intro sorted_distinct_set_unique) (auto simp: sorted_filter [of id, simplified])
  moreover have "?S = map (\<lambda>i. (i, the (map_of pp i))) (map fst ?S)"
  proof -
    have "(fst x, the (map_of pp (fst x))) = x" if "x \<in> set ?S" for x
      using map_of_is_SomeI [OF assms(1), of "fst x" "snd x"] that keys(3) by simp
    then show ?thesis
      using map_idI [of ?S "\<lambda>x. (fst x, the (map_of pp (fst x)))"] by (simp add: comp_def)
  qed
  ultimately show ?thesis by simp
qed

lemma filter_blank:
  assumes "\<forall>i \<in> set is. (if Q i then f' i = f i else f' i = z)"
  shows "filter (\<lambda>p. p \<noteq> z) (map f (filter Q is)) = filter (\<lambda>p. p \<noteq> z) (map f' is)"
  using assms by (induction "is") auto

lemma sort_key_empty: "sort_key f xs = [] \<longleftrightarrow> xs = []"
  by (metis length_0_conv length_sort)

definition kept_payloads :: "remainder option \<Rightarrow> deliver_payload list" where
  "kept_payloads rem = (case rem of None \<Rightarrow> [] | Some r \<Rightarrow> fst r)"

lemma kept_of_remainder: "kept_payloads (parent_remainder d pp) = map snd (sort_key fst pp)"
  by (simp add: kept_payloads_def parent_remainder_def Let_def sort_key_empty)

lemma kept_responses: "mset (concat (map payload_responses (kept_payloads (parent_remainder d pp)))) = mset (responses_in pp)"
proof -
  have perm: "mset (concat (map f xs)) = (\<Sum>x \<in># mset xs. mset (f x))" for f :: "nat \<times> deliver_payload \<Rightarrow> json list" and xs
    by (induction xs) auto
  show ?thesis
    using perm [of "payload_responses \<circ> snd" "sort_key fst pp"] perm [of "payload_responses \<circ> snd" pp]
    by (simp add: kept_of_remainder)
qed

lemma kept_rest:
  assumes "parents_ok ps pp"
  shows "filter (\<lambda>p. p \<noteq> blank_payload) (map rest_of (kept_payloads (parent_remainder d pp)))
         = filter (\<lambda>p. p \<noteq> blank_payload) (map rest_of ps)"
proof -
  let ?n = "length ps"
  have keys: "distinct (map fst pp)" "\<forall>i \<in> fst ` set pp. i < ?n"
    using assms by (simp_all add: parents_ok_def)
  have rest: "\<forall>i \<in> set [0..<?n]. if map_of pp i \<noteq> None then rest_of (ps ! i) = rest_of (the (map_of pp i))
      else rest_of (ps ! i) = blank_payload"
  proof
    fix i
    assume "i \<in> set [0..<?n]"
    then have "rest_of (given_or blank_payload (map_of pp i)) = rest_of (ps ! i)"
      using assms by (simp add: parents_ok_def)
    then show "if map_of pp i \<noteq> None then rest_of (ps ! i) = rest_of (the (map_of pp i))
        else rest_of (ps ! i) = blank_payload"
      by (cases "map_of pp i") simp_all
  qed
  have "map rest_of (kept_payloads (parent_remainder d pp))
      = map (\<lambda>i. rest_of (the (map_of pp i))) (filter (\<lambda>i. map_of pp i \<noteq> None) [0..<?n])"
    by (simp add: kept_of_remainder sorted_entries [OF keys] comp_def)
  moreover have "map rest_of ps = map (\<lambda>i. rest_of (ps ! i)) [0..<?n]"
    using map_nth [of ps] by (metis map_map [unfolded comp_def])
  ultimately show ?thesis
    using filter_blank [OF rest] by simp
qed

lemma remainder_attributed: "parent_remainder d pp = Some r \<Longrightarrow> attributed_ok (rerouted d r)"
  by (auto simp: parent_remainder_def Let_def attributed_ok_def rerouted_def metadata_list_def metadata_of_def
      in_set_enumerate_eq split: if_splits)

section \<open>Properties of the step\<close>

lemma step_parts:
  assumes "fits (read_map url_ok st)" "route_proxied_deliver_step url_ok send d st = Inr (st', sent, out)"
  shows "\<exists>pp. forwarded url_ok send (delivery_payloads d)
           (map snd (split_children (split_delivery (allow_route st) (read_map url_ok st) d))) st
           (parent_payloads (split_delivery (allow_route st) (read_map url_ok st) d)) sent st' pp
         \<and> out = (if delivery_cancels (split_delivery (allow_route st) (read_map url_ok st) d) then RoutedCancel
                else RoutedOn (parent_remainder d pp))"
proof -
  let ?m = "read_map url_ok st"
  let ?s = "split_delivery (allow_route st) ?m d"
  have ok: "delivery_ok (allow_route st) ?m (delivery_payloads d) ?s"
    by (rule split_delivery_ok [OF assms(1)])
  obtain pp where run: "forward_children url_ok send (map snd (split_children ?s)) st (parent_payloads ?s) [] = Inr (st', pp, sent)"
    and out: "out = (if delivery_cancels ?s then RoutedCancel else RoutedOn (parent_remainder d pp))"
    using assms(2) by (auto simp: route_proxied_deliver_step_def Let_def split: list.splits sum.splits)
  have "\<forall>c \<in> set (map snd (split_children ?s)). \<exists>k. child_ok (allow_route st) ?m (length (delivery_payloads d)) (k, c)"
    using ok by (auto simp: delivery_ok_def list_all_iff)
  then have "\<exists>new. sent = [] @ new \<and> forwarded url_ok send (delivery_payloads d) (map snd (split_children ?s)) st
      (parent_payloads ?s) new st' pp"
    using forward_children_ok [OF run] ok unfolding delivery_ok_def by blast
  then show ?thesis
    using out by auto
qed

lemma sent_child_ok:
  assumes "fits (read_map url_ok st)" "forwarded url_ok send ps
      (map snd (split_children (split_delivery (allow_route st) (read_map url_ok st) d))) st pp sent st' pp'"
    and "(dest, c) \<in> set sent"
  shows "send c = SentOk \<and> address_of st (child_route c) = Some dest
    \<and> leads (allow_route st) (read_map url_ok st) (child_originals c) (child_route c)
    \<and> (\<exists>k. child_ok (allow_route st) (read_map url_ok st) (length (delivery_payloads d)) (k, c))"
proof -
  have "c \<in> snd ` set sent"
    using assms(3) by force
  then have "c \<in> set (map snd (split_children (split_delivery (allow_route st) (read_map url_ok st) d)))"
    using assms(2) unfolding forwarded_def by blast
  moreover have "send c = SentOk" "address_of st (child_route c) = Some dest"
    using assms(2,3) unfolding forwarded_def by auto
  ultimately show ?thesis
    using split_delivery_ok [OF assms(1), of "allow_route st" d] by (auto simp: delivery_ok_def list_all_iff)
qed

text \<open>C35: No answer is lost on its way down. When a delivery has been routed, each of its input responses
  either was sent to where the open request it answers came from, under the id that child knows, or is in
  what remains for the parent, each exactly once: what is sent goes to the controller of the task that asked, to the
  answer hook or to the inbox that the route of one of the answers sent records, and every answer sent along with it
  is to the same child. An answer to a task that can no longer be reached remains under the parent's id.
  Everything else of the payloads remains in order, and the metadata that remain describe payloads that remain. The
  remainder goes on to the parent, unless an answer stops the turn at a session limit: then, and only
  then, the turn is cancelled and the remainder is dropped.\<close>

theorem answers_are_conserved:
  assumes "fits (read_map url_ok st)" "route_proxied_deliver_step url_ok send d st = Inr (st', sent, out)"
  shows "\<exists>rem. mset (delivery_responses d)
           = mset (concat (map payload_responses (kept_payloads rem))) + mset (concat (map (child_originals \<circ> snd) sent))
         \<and> filter (\<lambda>p. p \<noteq> blank_payload) (map rest_of (kept_payloads rem))
           = filter (\<lambda>p. p \<noteq> blank_payload) (map rest_of (delivery_payloads d))
         \<and> (\<forall>(dest, c) \<in> set sent. send c = SentOk
              \<and> address_of st (child_route c) = Some dest
              \<and> (\<exists>a \<in> set (child_originals c). find_route (allow_route st) (read_map url_ok st) a = Some (child_route c))
              \<and> (\<forall>r \<in> set (concat (child_payloads c)). answers (allow_route st) (read_map url_ok st) (child_route c) r))
         \<and> (\<forall>r. rem = Some r \<longrightarrow> attributed_ok (rerouted d r))
         \<and> out = (if \<exists>a \<in> set (delivery_responses d). \<exists>route.
                       find_route (allow_route st) (read_map url_ok st) a = Some route \<and> route_kind route = SessionLimit
                       \<and> response_field a ''optionId'' = Some SESSION_LIMIT_STOP_OPTION_ID
                  then RoutedCancel else RoutedOn rem)"
proof -
  let ?s = "split_delivery (allow_route st) (read_map url_ok st) d"
  obtain pp where pp: "forwarded url_ok send (delivery_payloads d) (map snd (split_children ?s)) st
      (parent_payloads ?s) sent st' pp" and out: "out = (if delivery_cancels ?s then RoutedCancel else RoutedOn (parent_remainder d pp))"
    using step_parts [OF assms] by blast
  have ok: "delivery_ok (allow_route st) (read_map url_ok st) (delivery_payloads d) ?s"
    by (rule split_delivery_ok [OF assms(1)])
  have "mset (delivery_responses d) = mset (responses_in (parent_payloads ?s)) + mset (originals_in (map snd (split_children ?s)))"
    using ok by (simp add: delivery_ok_def delivery_responses_def)
  then have "mset (delivery_responses d) = mset (responses_in pp) + mset (originals_in (map snd sent))"
    using pp unfolding forwarded_def by simp
  moreover have "parents_ok (delivery_payloads d) pp"
    using pp unfolding forwarded_def by blast
  moreover have "send c = SentOk \<and> address_of st (child_route c) = Some dest
      \<and> (\<exists>a \<in> set (child_originals c). find_route (allow_route st) (read_map url_ok st) a = Some (child_route c))
      \<and> (\<forall>r \<in> set (concat (child_payloads c)). answers (allow_route st) (read_map url_ok st) (child_route c) r)"
    if "(dest, c) \<in> set sent" for dest c
    using sent_child_ok [OF assms(1) pp that] by (auto simp: child_ok_def leads_def)
  moreover have "delivery_cancels ?s \<longleftrightarrow> (\<exists>a \<in> set (delivery_responses d). \<exists>route.
      find_route (allow_route st) (read_map url_ok st) a = Some route \<and> route_kind route = SessionLimit
      \<and> response_field a ''optionId'' = Some SESSION_LIMIT_STOP_OPTION_ID)"
    using ok by (simp add: delivery_ok_def delivery_responses_def stops_child_def)
  ultimately show ?thesis
    using kept_responses [of d pp] kept_rest [of "delivery_payloads d" pp d] remainder_attributed [of d pp]
    by (intro exI [of _ "parent_remainder d pp"]) (auto simp: out)
qed

text \<open>C36: A route is retired exactly when its answer was delivered: after the step the routes are those before
  it without the ones the reached children account for, and a child accounts for exactly the requests its answers
  settle: those they answer and, payload by payload, every request of a batch one of them belongs to when they
  include all approvals of the batch that the child still waits for. An answer that reached nobody leaves its
  route in place, and nothing else of the session state changes.\<close>

theorem routes_retire_when_delivered:
  assumes "fits (read_map url_ok st)" "route_proxied_deliver_step url_ok send d st = Inr (st', sent, out)"
  shows "read_map url_ok st'
           = filter (\<lambda>(k, r). k \<notin> (\<Union>(dest, c) \<in> set sent. \<Union>rs \<in> set (child_payloads c).
               settled_by (allow_route st) (read_map url_ok st) (map (parent_form (child_route c)) rs)))
             (read_map url_ok st)
         \<and> (\<forall>(dest, c) \<in> set sent. send c = SentOk)
         \<and> (\<forall>k. k \<noteq> PROXY_INPUT_REQUESTS_KEY \<longrightarrow> state_get st' k = state_get st k)"
proof -
  let ?m = "read_map url_ok st"
  let ?s = "split_delivery (allow_route st) ?m d"
  obtain pp where pp: "forwarded url_ok send (delivery_payloads d) (map snd (split_children ?s)) st
      (parent_payloads ?s) sent st' pp"
    using step_parts [OF assms] by blast
  have child: "send c = SentOk \<and> set (child_retires c) = (\<Union>rs \<in> set (child_payloads c).
      settled_by (allow_route st) ?m (map (parent_form (child_route c)) rs))"
    if "(dest, c) \<in> set sent" for dest c
    using sent_child_ok [OF assms(1) pp that] by (auto simp: child_ok_def)
  have "retired_by (map snd sent) = (\<Union>(dest, c) \<in> set sent. set (child_retires c))"
    by auto
  also have "\<dots> = (\<Union>(dest, c) \<in> set sent. \<Union>rs \<in> set (child_payloads c).
      settled_by (allow_route st) ?m (map (parent_form (child_route c)) rs))"
    using child by (intro SUP_cong) auto
  finally show ?thesis
    using pp child unfolding forwarded_def by auto
qed

section \<open>An example\<close>

definition asked_by :: "string \<Rightarrow> proxy_batch option \<Rightarrow> proxy_route" where
  "asked_by token b = \<lparr>route_child_token = token, route_kind = ToolApproval, route_answer_hook = None,
     route_child_inbox = None, route_batch = b, route_child_request = None, route_response_url = None,
     route_task = None\<rparr>"

definition asked_batch :: proxy_batch where
  "asked_batch = \<lparr>batch_approvals = [''q1'', ''q2''], batch_requests = [''q1'', ''q2'', ''q4'']\<rparr>"

definition asked_map :: proxy_map where
  "asked_map = [(''q1'', asked_by ''child-a'' (Some asked_batch)), (''q2'', asked_by ''child-a'' (Some asked_batch)),
     (''q3'', asked_by ''child-b'' None), (''q4'', asked_by ''child-a'' (Some asked_batch)\<lparr>route_kind := Question\<rparr>)]"

definition asked_state :: "session_state option" where
  "asked_state = Some [PROXY_INPUT_REQUESTS_KEY \<mapsto> map_object asked_map]"

definition answer_to :: "string \<Rightarrow> json" where
  "answer_to i = JObj [(''requestId'', JStr i), (''optionId'', JStr ''approve'')]"

definition answering :: "string list \<Rightarrow> delivery" where
  "answering ids = plain_delivery\<lparr>delivery_payloads :=
     [\<lparr>payload_task = None, payload_callback = None,
       payload_fields = [(''message'', JStr ''go on''), (''inputResponses'', JArr (map answer_to ids))]\<rparr>]\<rparr>"

abbreviation answering_delivery :: delivery where
  "answering_delivery \<equiv> answering [''q1'', ''q9'']"

definition answered_step ::
    "proxy_error + session_state option \<times> (destination \<times> child_bucket) list \<times> routed" where
  "answered_step = route_proxied_deliver_step (\<lambda>u. True) (\<lambda>c. SentOk) answering_delivery asked_state"

lemma asked_fits: "fits (read_map (\<lambda>u. True) asked_state)"
  by code_simp

lemma asked_ids: "map fst (read_map (\<lambda>u. True) asked_state) = [''q1'', ''q2'', ''q3'', ''q4'']"
  by code_simp

lemma answered_step_value:
  "(case answered_step of
      Inr (st', sent, RoutedOn rem) \<Rightarrow>
        map fst sent = [ChildInbox None ''child-a''] \<and> concat (map (child_retires \<circ> snd) sent) = [''q1'']
        \<and> concat (map (child_originals \<circ> snd) sent) = [answer_to ''q1'']
        \<and> concat (map payload_responses (kept_payloads rem)) = [answer_to ''q9'']
    | _ \<Rightarrow> False)"
  by code_simp

lemma answered_stepE:
  obtains st' sent rem where "route_proxied_deliver_step (\<lambda>u. True) (\<lambda>c. SentOk) answering_delivery asked_state
      = Inr (st', sent, RoutedOn rem)"
    "concat (map (child_retires \<circ> snd) sent) = [''q1'']" "concat (map (child_originals \<circ> snd) sent) = [answer_to ''q1'']"
    "concat (map payload_responses (kept_payloads rem)) = [answer_to ''q9'']"
  using answered_step_value that
  by (auto simp: answered_step_def split: sum.splits prod.splits routed.splits)

theorem answers_are_conserved_witness:
  "\<exists>st' sent rem. route_proxied_deliver_step (\<lambda>u. True) (\<lambda>c. SentOk) answering_delivery asked_state
       = Inr (st', sent, RoutedOn rem)
     \<and> concat (map payload_responses (kept_payloads rem)) = [answer_to ''q9'']
     \<and> mset (delivery_responses answering_delivery) = {#answer_to ''q9'', answer_to ''q1''#}
     \<and> (\<forall>(dest, c) \<in> set sent. \<forall>r \<in> set (concat (child_payloads c)).
          answers (allow_route asked_state) (read_map (\<lambda>u. True) asked_state) (child_route c) r)"
proof -
  obtain st' sent rem where step: "route_proxied_deliver_step (\<lambda>u. True) (\<lambda>c. SentOk) answering_delivery asked_state
      = Inr (st', sent, RoutedOn rem)"
    and "concat (map (child_originals \<circ> snd) sent) = [answer_to ''q1'']"
      and kept: "concat (map payload_responses (kept_payloads rem)) = [answer_to ''q9'']"
    by (rule answered_stepE)
  moreover obtain rem' where "RoutedOn rem = RoutedCancel \<or> RoutedOn rem = RoutedOn rem'"
    and "mset (delivery_responses answering_delivery)
           = mset (concat (map payload_responses (kept_payloads rem'))) + mset (concat (map (child_originals \<circ> snd) sent))"
    and "\<forall>(dest, c) \<in> set sent. \<forall>r \<in> set (concat (child_payloads c)).
          answers (allow_route asked_state) (read_map (\<lambda>u. True) asked_state) (child_route c) r"
    using answers_are_conserved [OF asked_fits step] by (fastforce split: if_splits)
  ultimately show ?thesis by auto
qed

text \<open>The answers to both approvals of a batch retire its question as well.\<close>

lemma completing_step_value:
  "(case route_proxied_deliver_step (\<lambda>u. True) (\<lambda>c. SentOk) (answering [''q1'', ''q2'']) asked_state of
      Inr (st', sent, out) \<Rightarrow> map fst (read_map (\<lambda>u. True) st') = [''q3'']
    | _ \<Rightarrow> False)"
  by code_simp

theorem routes_retire_when_delivered_witness:
  "\<exists>st' sent out. route_proxied_deliver_step (\<lambda>u. True) (\<lambda>c. SentOk) (answering [''q1'', ''q2'']) asked_state
       = Inr (st', sent, out)
     \<and> map fst (read_map (\<lambda>u. True) st') = [''q3'']
     \<and> (\<forall>i \<in> {''q1'', ''q2'', ''q4''}. \<exists>(dest, c) \<in> set sent. \<exists>rs \<in> set (child_payloads c).
          i \<in> settled_by (allow_route asked_state) (read_map (\<lambda>u. True) asked_state) (map (parent_form (child_route c)) rs))"
proof -
  obtain st' sent out where step: "route_proxied_deliver_step (\<lambda>u. True) (\<lambda>c. SentOk) (answering [''q1'', ''q2'']) asked_state
      = Inr (st', sent, out)" and left: "map fst (read_map (\<lambda>u. True) st') = [''q3'']"
    using completing_step_value by (auto split: sum.splits)
  have "i \<in> (\<Union>(dest, c) \<in> set sent. \<Union>rs \<in> set (child_payloads c).
      settled_by (allow_route asked_state) (read_map (\<lambda>u. True) asked_state) (map (parent_form (child_route c)) rs))"
    if "i \<in> {''q1'', ''q2'', ''q4''}" for i
  proof (rule ccontr)
    assume out: "\<not> ?thesis"
    have "i \<in> set (map fst (read_map (\<lambda>u. True) asked_state))"
      unfolding asked_ids using that by auto
    then obtain r where "(i, r) \<in> set (read_map (\<lambda>u. True) asked_state)" by auto
    then have "(i, r) \<in> set (read_map (\<lambda>u. True) st')"
      using conjunct1 [OF routes_retire_when_delivered [OF asked_fits step]] out by simp
    then have "i \<in> set (map fst (read_map (\<lambda>u. True) st'))" by force
    with left that show False by auto
  qed
  with step left show ?thesis by (fastforce simp: split_beta)
qed

end
