(* ===== verification/Compaction.thy ===== *)
theory Compaction
  imports Complex_Main Handle_Views Step_Input Workflow_Runs "HOL-Library.AList" "HOL-Library.Sublist"
begin

text \<open>
  The compaction of a model history (packages/eve/src/harness/compaction.ts), the prompt of its
  summaries (harness/compaction-prompt.ts), the token estimate both use (harness/token-estimate.ts)
  and the configurations harness/tool-loop.ts derives around a compaction. A message is the record
  of Handle_Views with its kind and its remaining fields; its parts are JSON objects. Token counts
  are rational numbers, since the estimate is a quarter of a length. The fixed texts of the prompt
  hold characters beyond the 8 bit code units and are the argument \<open>texts\<close>; the replies of the summary
  model are the argument \<open>reply\<close>, one for each call, absent when the call throws.
\<close>

section \<open>Messages of the history\<close>

record chat_message = model_message +
  message_kind :: "string option"
  other_fields :: "(string \<times> json) list"

fun role_name :: "message_role \<Rightarrow> string" where
  "role_name UserRole = ''user''"
| "role_name AssistantRole = ''assistant''"
| "role_name SystemRole = ''system''"
| "role_name ToolRole = ''tool''"

fun content_json :: "message_content \<Rightarrow> json" where
  "content_json (TextContent s) = JStr s"
| "content_json (PartsContent ps) = JArr ps"

definition message_json :: "chat_message \<Rightarrow> json" where
  "message_json m =
     JObj ([(''content'', content_json (message_content m)), (''role'', JStr (role_name (message_role m)))]
       @ optional_json ''kind'' (map_option JStr (message_kind m)) @ other_fields m)"

definition plain_chat :: "message_role \<Rightarrow> string \<Rightarrow> chat_message" where
  "plain_chat r s = \<lparr>message_role = r, message_content = TextContent s, message_kind = None, other_fields = []\<rparr>"

definition framework_chat :: "string \<Rightarrow> string \<Rightarrow> chat_message" where
  "framework_chat k s = (plain_chat UserRole s)\<lparr>message_kind := Some k\<rparr>"

text \<open>\<open>isFrameworkUserMessage\<close>: a message without a recognised kind is not one.\<close>

definition is_framework_chat :: "chat_message \<Rightarrow> bool" where
  "is_framework_chat m =
     (message_role m = UserRole
      \<and> (case message_kind m of None \<Rightarrow> False | Some k \<Rightarrow> is_framework_message_kind k \<noteq> None))"

definition part_field :: "string \<Rightarrow> json \<Rightarrow> json option" where
  "part_field k p = (case p of JObj es \<Rightarrow> map_of es k | _ \<Rightarrow> None)"

definition part_string :: "string \<Rightarrow> json \<Rightarrow> string option" where
  "part_string k p = (case part_field k p of Some (JStr s) \<Rightarrow> Some s | _ \<Rightarrow> None)"

definition part_is :: "string \<Rightarrow> json \<Rightarrow> bool" where
  "part_is t p = (part_field ''type'' p = Some (JStr t))"

definition with_field :: "string \<Rightarrow> json \<Rightarrow> json \<Rightarrow> json" where
  "with_field k v p = (case p of JObj es \<Rightarrow> JObj (AList.update k v es) | _ \<Rightarrow> p)"

section \<open>Counting tokens (token-estimate.ts)\<close>

definition json_tokens :: "json \<Rightarrow> rat" where
  "json_tokens v = of_nat (length (json_stringify v)) / 4"

definition estimate_tokens :: "chat_message list \<Rightarrow> rat" where
  "estimate_tokens ms = json_tokens (JArr (map message_json ms))"

record compaction_config =
  last_known_input_tokens :: "rat option"
  last_known_prompt_message_count :: "rat option"
  recent_window_size :: int
  compaction_threshold :: rat

definition is_integer :: "rat \<Rightarrow> bool" where
  "is_integer x = (x = of_int \<lfloor>x\<rfloor>)"

definition get_input_token_count :: "chat_message list \<Rightarrow> compaction_config \<Rightarrow> rat \<Rightarrow> rat \<Rightarrow> rat" where
  "get_input_token_count ms c envelope previous =
     (case (last_known_input_tokens c, last_known_prompt_message_count c) of
        (Some prior, Some n) \<Rightarrow>
          if \<not> is_integer n \<or> n < 0 \<or> of_nat (length ms) < n then estimate_tokens ms + envelope
          else prior + estimate_tokens (drop (nat \<lfloor>n\<rfloor>) ms) + max 0 (envelope - previous)
      | _ \<Rightarrow> estimate_tokens ms + envelope)"

section \<open>The prompt of a summary (compaction-prompt.ts)\<close>

record prompt_texts =
  system_text :: string
  checkpoint_text :: string
  ellipsis :: string

definition COMPACTION_CHECKPOINT_MARKER :: string where
  "COMPACTION_CHECKPOINT_MARKER = ''Summary of our conversation so far:''"

definition COMPACTION_RESUMPTION_MESSAGE :: string where
  "COMPACTION_RESUMPTION_MESSAGE = ''Continue.''"

definition DEGRADED_TEXT_LIMIT :: nat where "DEGRADED_TEXT_LIMIT = 2000"
definition TRANSCRIPT_PAYLOAD_LIMIT :: nat where "TRANSCRIPT_PAYLOAD_LIMIT = 2000"
definition COMPACT_PAYLOAD_LIMIT :: nat where "COMPACT_PAYLOAD_LIMIT = 280"

definition newline :: string where "newline = [CHR 0x0A]"

text \<open>The cut avoids the first half of a surrogate pair, a code unit the 8 bit strings do not have.\<close>

definition slice_utf16_safe :: "string \<Rightarrow> nat \<Rightarrow> string" where
  "slice_utf16_safe s limit =
     (if limit = 0 then [] else if length s \<le> limit then s
      else take (if 0xD800 \<le> (of_char (s ! (limit - 1)) :: nat) then limit - 1 else limit) s)"

definition trim_end :: "string \<Rightarrow> string" where
  "trim_end s = rev (dropWhile is_space (rev s))"

definition cap_text :: "prompt_texts \<Rightarrow> string \<Rightarrow> nat \<Rightarrow> string" where
  "cap_text t s limit =
     (let normalized = trim (collapse_spaces s) in
      if length normalized \<le> limit then normalized
      else trim_end (slice_utf16_safe normalized limit) @ ellipsis t)"

definition render_payload :: "prompt_texts \<Rightarrow> json option \<Rightarrow> nat \<Rightarrow> string" where
  "render_payload t v limit = (case v of None \<Rightarrow> [] | Some j \<Rightarrow> cap_text t (json_stringify j) limit)"

definition render_attached_file_stub :: "string option \<Rightarrow> string \<Rightarrow> string" where
  "render_attached_file_stub name media =
     ''Attached file '' @ given_or ''attachment'' name @ '' ('' @ media @ '')''"

definition render_conversation_text :: "prompt_texts \<Rightarrow> nat option \<Rightarrow> string \<Rightarrow> string" where
  "render_conversation_text t limit s = (case limit of None \<Rightarrow> trim s | Some n \<Rightarrow> cap_text t s n)"

text \<open>The parts of a tool output of type \<open>content\<close>.\<close>

definition content_tool_output_parts :: "json option \<Rightarrow> json list option" where
  "content_tool_output_parts v =
     (case v of
        Some (JObj es) \<Rightarrow>
          if map_of es ''type'' = Some (JStr ''content'')
          then (case map_of es ''value'' of Some (JArr ps) \<Rightarrow> Some ps | _ \<Rightarrow> None)
          else None
      | _ \<Rightarrow> None)"

definition is_file_part :: "json \<Rightarrow> bool" where
  "is_file_part p = (part_is ''file'' p \<or> part_is ''media'' p)"

definition file_stub :: "json \<Rightarrow> string" where
  "file_stub p = render_attached_file_stub (part_string ''filename'' p)
     (given_or ''unknown'' (part_string ''mediaType'' p))"

definition stub_content_output_file_parts :: "json \<Rightarrow> json" where
  "stub_content_output_file_parts output =
     (case content_tool_output_parts (Some output) of
        None \<Rightarrow> output
      | Some ps \<Rightarrow>
          if list_ex is_file_part ps
          then JObj [(''type'', JStr ''content''),
                     (''value'', JArr (map (\<lambda>p. if is_file_part p
                        then JObj [(''text'', JStr (file_stub p)), (''type'', JStr ''text'')] else p) ps))]
          else output)"

definition render_content_tool_output_part :: "prompt_texts \<Rightarrow> nat \<Rightarrow> json \<Rightarrow> string" where
  "render_content_tool_output_part t limit p =
     (case (part_is ''text'' p, part_string ''text'' p) of
        (True, Some s) \<Rightarrow> s
      | _ \<Rightarrow> if is_file_part p then file_stub p else render_payload t (Some p) limit)"

definition render_tool_result_output :: "prompt_texts \<Rightarrow> json option \<Rightarrow> nat \<Rightarrow> string" where
  "render_tool_result_output t v limit =
     (case content_tool_output_parts v of
        None \<Rightarrow> render_payload t v limit
      | Some ps \<Rightarrow>
          cap_text t (intercalate '' '' (filter (\<lambda>s. s \<noteq> []) (map (render_content_tool_output_part t limit) ps)))
            limit)"

definition payload_limit :: "nat option \<Rightarrow> nat" where
  "payload_limit limit = (if limit = None then TRANSCRIPT_PAYLOAD_LIMIT else COMPACT_PAYLOAD_LIMIT)"

definition tool_name :: "json \<Rightarrow> string" where
  "tool_name p = given_or [] (part_string ''toolName'' p)"

definition render_tool_call :: "prompt_texts \<Rightarrow> nat \<Rightarrow> json \<Rightarrow> string" where
  "render_tool_call t limit p =
     (let input = render_payload t (part_field ''input'' p) limit in
      if input = [] then ''Called '' @ tool_name p else ''Called '' @ tool_name p @ '' with '' @ input)"

definition render_transcript_tool_result :: "prompt_texts \<Rightarrow> nat \<Rightarrow> json \<Rightarrow> string" where
  "render_transcript_tool_result t limit p =
     (let status = (if part_field ''isError'' p = Some (JBool True) then ''errored'' else ''returned'');
          output = render_tool_result_output t (part_field ''output'' p) limit
      in ''Tool '' @ tool_name p @ '' '' @ status @ (if output = [] then [] else '' '' @ output))"

definition render_compaction_content_part :: "prompt_texts \<Rightarrow> nat option \<Rightarrow> json \<Rightarrow> string" where
  "render_compaction_content_part t limit p =
     (if part_is ''text'' p then render_conversation_text t limit (given_or [] (part_string ''text'' p))
      else if part_is ''file'' p
      then render_attached_file_stub (part_string ''filename'' p) (given_or [] (part_string ''mediaType'' p))
      else if part_is ''tool-call'' p then render_tool_call t (payload_limit limit) p
      else if part_is ''tool-result'' p then render_transcript_tool_result t (payload_limit limit) p
      else [])"

definition render_compaction_message_content :: "prompt_texts \<Rightarrow> nat option \<Rightarrow> chat_message \<Rightarrow> string" where
  "render_compaction_message_content t limit m =
     (case message_content m of
        TextContent s \<Rightarrow> render_conversation_text t limit s
      | PartsContent ps \<Rightarrow>
          trim (intercalate newline (filter (\<lambda>s. s \<noteq> []) (map (render_compaction_content_part t limit) ps))))"

definition format_compaction_transcript :: "(message_role \<times> string) list \<Rightarrow> string" where
  "format_compaction_transcript entries =
     (let sections = map (\<lambda>(r, s). ''### '' @ role_name r @ newline @ trim s)
                       (filter (\<lambda>(r, s). trim s \<noteq> []) entries)
      in if sections = [] then ''(empty)'' else intercalate (newline @ newline) sections)"

definition format_compaction_prompt :: "prompt_texts \<Rightarrow> string \<Rightarrow> string \<Rightarrow> string" where
  "format_compaction_prompt t checkpoint transcript =
     ''<previous-checkpoint>'' @ newline @ checkpoint @ newline @ ''</previous-checkpoint>'' @ newline @ newline
     @ ''<conversation>'' @ newline @ ''Conversation transcript:'' @ newline @ transcript @ newline
     @ ''</conversation>'' @ newline @ newline @ checkpoint_text t"

text \<open>Entries are cut from the oldest on, until the excess is gone.\<close>

fun degrade_entries :: "prompt_texts \<Rightarrow> rat \<Rightarrow> chat_message list \<Rightarrow> (message_role \<times> string) list" where
  "degrade_entries t excess [] = []"
| "degrade_entries t excess (m # ms) =
     (let full = render_compaction_message_content t None m;
          degraded = render_compaction_message_content t (Some DEGRADED_TEXT_LIMIT) m
      in if excess \<le> 0 \<or> length full \<le> length degraded
         then (message_role m, full) # degrade_entries t excess ms
         else (message_role m, degraded)
                # degrade_entries t (excess - of_nat (length full - length degraded) / 4) ms)"

definition checkpoint_part :: "string option \<Rightarrow> string" where
  "checkpoint_part previous = (case previous of None \<Rightarrow> ''(none)'' | Some s \<Rightarrow> trim s)"

definition create_compaction_prompt :: "prompt_texts \<Rightarrow> chat_message list \<Rightarrow> string option \<Rightarrow> rat \<Rightarrow> string" where
  "create_compaction_prompt t ms previous budget =
     (let entries = map (\<lambda>m. (message_role m, render_compaction_message_content t None m)) ms;
          full = format_compaction_prompt t (checkpoint_part previous) (format_compaction_transcript entries);
          degraded = degrade_entries t (json_tokens (JStr full) - budget) ms
      in format_compaction_prompt t (checkpoint_part previous) (format_compaction_transcript degraded))"

section \<open>When to compact\<close>

definition COMPACTION_PROMPT_OVERHEAD_TOKENS :: "prompt_texts \<Rightarrow> rat" where
  "COMPACTION_PROMPT_OVERHEAD_TOKENS t =
     estimate_tokens [plain_chat SystemRole (system_text t),
                      framework_chat ''context.compaction'' (format_compaction_prompt t [] [])]"

definition should_compact ::
    "prompt_texts \<Rightarrow> chat_message list \<Rightarrow> compaction_config \<Rightarrow> rat \<Rightarrow> rat \<Rightarrow> bool" where
  "should_compact t ms c envelope previous =
     (ms \<noteq> [] \<and> compaction_threshold c
        < get_input_token_count ms c envelope previous + COMPACTION_PROMPT_OVERHEAD_TOKENS t)"

datatype ruler = Estimate | ShouldCompact

definition within_threshold :: "prompt_texts \<Rightarrow> chat_message list \<Rightarrow> compaction_config \<Rightarrow> ruler \<Rightarrow> rat \<Rightarrow> bool" where
  "within_threshold t ms c r adjustment =
     (estimate_tokens ms + (if r = ShouldCompact then COMPACTION_PROMPT_OVERHEAD_TOKENS t else 0) + adjustment
        \<le> compaction_threshold c)"

section \<open>Cutting a history\<close>

definition assistant_message_text :: "chat_message \<Rightarrow> string" where
  "assistant_message_text m =
     (case message_content m of
        TextContent s \<Rightarrow> trim s
      | PartsContent ps \<Rightarrow>
          trim (concat (map (\<lambda>p. given_or [] (part_string ''text'' p)) (filter (part_is ''text'') ps))))"

definition keep_non_tool_result :: "chat_message \<Rightarrow> chat_message list" where
  "keep_non_tool_result m =
     (if message_role m = ToolRole then []
      else if message_role m = AssistantRole
      then (let s = assistant_message_text m in if s = [] then [] else [plain_chat AssistantRole s])
      else [m])"

definition keep_non_tool_result_messages :: "chat_message list \<Rightarrow> chat_message list" where
  "keep_non_tool_result_messages ms = concat (map keep_non_tool_result ms)"

definition extract_previous_checkpoint :: "chat_message list \<Rightarrow> chat_message list \<times> string option" where
  "extract_previous_checkpoint ms =
     (case ms of
        marker # checkpoint # rest \<Rightarrow>
          if message_role marker \<noteq> UserRole
             \<or> message_content marker \<noteq> TextContent COMPACTION_CHECKPOINT_MARKER
             \<or> message_role checkpoint \<noteq> AssistantRole
          then (ms, None) else (rest, Some (assistant_message_text checkpoint))
      | _ \<Rightarrow> (ms, None))"

definition is_real_user_text :: "chat_message \<Rightarrow> bool" where
  "is_real_user_text m =
     (message_role m = UserRole \<and> (case message_content m of TextContent s \<Rightarrow> True | _ \<Rightarrow> False)
      \<and> \<not> is_framework_chat m)"

definition find_last_real_user_message :: "chat_message list \<Rightarrow> chat_message option" where
  "find_last_real_user_message ms = List.find is_real_user_text (rev ms)"

definition resolve_compaction_summary_reserve :: "compaction_config \<Rightarrow> rat" where
  "resolve_compaction_summary_reserve c = min 2048 (max 64 (of_int \<lfloor>compaction_threshold c / 4\<rfloor>))"

text \<open>The walk of \<open>selectRecentWindowSize\<close> from the newest message on.\<close>

fun grow_window :: "rat \<Rightarrow> int \<Rightarrow> nat \<Rightarrow> rat \<Rightarrow> chat_message list \<Rightarrow> nat" where
  "grow_window budget max_keep keep used [] = keep"
| "grow_window budget max_keep keep used (m # ms) =
     (if max_keep \<le> int keep \<or> budget < used + estimate_tokens [m] then keep
      else grow_window budget max_keep (Suc keep) (used + estimate_tokens [m]) ms)"

definition select_recent_window_size :: "chat_message list \<Rightarrow> compaction_config \<Rightarrow> nat" where
  "select_recent_window_size ms c =
     grow_window (compaction_threshold c - resolve_compaction_summary_reserve c)
       (min (recent_window_size c) (max (int (length ms) - 1) 0)) 0 0 (rev ms)"

text \<open>The tail must not open with tool results: they stay with their calls in the older region.\<close>

definition split_messages_for_compaction ::
    "chat_message list \<Rightarrow> nat \<Rightarrow> chat_message list \<times> chat_message list" where
  "split_messages_for_compaction ms keep =
     (if keep = 0 then (ms, [])
      else (let tail = drop (length ms - keep) ms;
                recent = dropWhile (\<lambda>m. message_role m = ToolRole) tail
            in (take (length ms - length recent) ms, recent)))"

text \<open>The last instruction of the user, unless the messages still hold it.\<close>

definition missing_replay :: "chat_message list \<Rightarrow> chat_message list \<Rightarrow> chat_message option" where
  "missing_replay ms conversation =
     (case find_last_real_user_message conversation of
        None \<Rightarrow> None
      | Some r \<Rightarrow>
          if list_ex (\<lambda>m. message_role m = UserRole \<and> message_content m = message_content r) ms
          then None else Some r)"

definition with_resumption_guard :: "chat_message list \<Rightarrow> chat_message list \<Rightarrow> rat \<Rightarrow> chat_message list" where
  "with_resumption_guard ms conversation limit =
     (if ms \<noteq> [] \<and> message_role (List.last ms) \<noteq> AssistantRole
      then (case missing_replay ms conversation of
              Some r \<Rightarrow> if message_role (List.last ms) = ToolRole \<and> estimate_tokens [r] \<le> limit
                        then ms @ [r] else ms
            | None \<Rightarrow> ms)
      else ms @ [case missing_replay ms conversation of
                   Some r \<Rightarrow> r
                 | None \<Rightarrow> framework_chat ''execution.continuation'' COMPACTION_RESUMPTION_MESSAGE])"

section \<open>Capping tool results\<close>

definition CAPPED_RESULT_ANNOTATION :: string where
  "CAPPED_RESULT_ANNOTATION = ''[Truncated by eve: tool result reduced during context compaction. ''
     @ ''Re-run the tool if you need the full output.]''"

definition cap_part :: "json \<Rightarrow> json" where
  "cap_part p =
     (case (part_is ''tool-result'' p, part_field ''output'' p) of
        (True, Some v) \<Rightarrow>
          (let output = stub_content_output_file_parts v;
               serialized = json_stringify output
           in if length serialized \<le> TRANSCRIPT_PAYLOAD_LIMIT
              then (if output = v then p else with_field ''output'' output p)
              else with_field ''output''
                     (JObj [(''type'', JStr ''text''),
                            (''value'', JStr (CAPPED_RESULT_ANNOTATION @ newline @ newline
                               @ slice_utf16_safe serialized TRANSCRIPT_PAYLOAD_LIMIT))]) p)
      | _ \<Rightarrow> p)"

definition cap_message :: "chat_message \<Rightarrow> chat_message" where
  "cap_message m =
     (case message_content m of
        TextContent s \<Rightarrow> m
      | PartsContent ps \<Rightarrow>
          if message_role m = ToolRole then m\<lparr>message_content := PartsContent (map cap_part ps)\<rparr> else m)"

definition cap_tool_results :: "chat_message list \<Rightarrow> chat_message list" where
  "cap_tool_results ms = map cap_message ms"

section \<open>Compacting\<close>

definition checkpoint_head :: "string \<Rightarrow> chat_message list" where
  "checkpoint_head s =
     [framework_chat ''context.compaction'' COMPACTION_CHECKPOINT_MARKER, plain_chat AssistantRole s]"

record heuristic_input =
  heuristic_config :: compaction_config
  whole_conversation :: "chat_message list"
  older_region :: "chat_message list"
  earlier_checkpoint :: "string option"
  recent_region :: "chat_message list"
  estimate_adjustment :: rat

definition tool_result_cap_heuristic :: "prompt_texts \<Rightarrow> heuristic_input \<Rightarrow> chat_message list option" where
  "tool_result_cap_heuristic t i =
     (let capped = with_resumption_guard
            ((case earlier_checkpoint i of None \<Rightarrow> [] | Some s \<Rightarrow> checkpoint_head s)
               @ cap_tool_results (older_region i) @ recent_region i)
            (whole_conversation i) (compaction_threshold (heuristic_config i))
      in if within_threshold t capped (heuristic_config i) ShouldCompact (estimate_adjustment i)
         then Some capped else None)"

definition COMPACTION_HEURISTICS :: "(prompt_texts \<Rightarrow> heuristic_input \<Rightarrow> chat_message list option) list" where
  "COMPACTION_HEURISTICS = [tool_result_cap_heuristic]"

fun try_heuristics ::
    "(prompt_texts \<Rightarrow> heuristic_input \<Rightarrow> chat_message list option) list \<Rightarrow> prompt_texts \<Rightarrow> heuristic_input
     \<Rightarrow> chat_message list option" where
  "try_heuristics [] t i = None"
| "try_heuristics (h # hs) t i = (case h t i of Some ms \<Rightarrow> Some ms | None \<Rightarrow> try_heuristics hs t i)"

datatype compaction_error = ModelCallFailed | EmptySummary

text \<open>
  The loop of \<open>compactMessages\<close>: \<open>keep\<close> falls by one for each further call. The second component is the
  list of the prompts sent to the model.
\<close>

fun summarize :: "prompt_texts \<Rightarrow> compaction_config \<Rightarrow> (nat \<Rightarrow> string \<Rightarrow> string option) \<Rightarrow> chat_message list
    \<Rightarrow> string option \<Rightarrow> nat \<Rightarrow> nat \<Rightarrow> (compaction_error + chat_message list) \<times> string list" where
  "summarize t c reply conversation previous n keep =
     (case split_messages_for_compaction conversation keep of
        (older, recent) \<Rightarrow>
          (let prompt = create_compaction_prompt t older previous (compaction_threshold c) in
           case reply n prompt of
             None \<Rightarrow> (Inl ModelCallFailed, [prompt])
           | Some summary \<Rightarrow>
               if is_blank summary then (Inl EmptySummary, [prompt])
               else
                 (let verbatim = with_resumption_guard (checkpoint_head summary @ recent) conversation
                                   (compaction_threshold c);
                      stripped = with_resumption_guard
                                   (checkpoint_head summary @ keep_non_tool_result_messages recent) conversation
                                   (compaction_threshold c)
                  in if within_threshold t verbatim c Estimate 0 then (Inr verbatim, [prompt])
                     else if within_threshold t stripped c Estimate 0 then (Inr stripped, [prompt])
                     else (case keep of
                             0 \<Rightarrow> (Inr stripped, [prompt])
                           | Suc k \<Rightarrow> map_prod id (Cons prompt) (summarize t c reply conversation previous (Suc n) k)))))"

declare summarize.simps [simp del]

definition compact_messages :: "prompt_texts \<Rightarrow> chat_message list \<Rightarrow> compaction_config
    \<Rightarrow> (nat \<Rightarrow> string \<Rightarrow> string option) \<Rightarrow> bool \<Rightarrow> rat option
    \<Rightarrow> (compaction_error + chat_message list) \<times> string list" where
  "compact_messages t ms c reply force_summary history_count =
     (case extract_previous_checkpoint ms of
        (conversation, previous) \<Rightarrow>
          (let recent_config = (if force_summary then c\<lparr>recent_window_size := 1\<rparr> else c);
               keep = select_recent_window_size conversation recent_config;
               summary = summarize t c reply conversation previous 0 keep
           in if force_summary then summary
              else (case split_messages_for_compaction conversation keep of
                      (older, recent) \<Rightarrow>
                        if older = [] \<and> previous = None then (Inr (keep_non_tool_result_messages recent), [])
                        else (case try_heuristics COMPACTION_HEURISTICS t
                                     \<lparr>heuristic_config = c, whole_conversation = conversation, older_region = older,
                                      earlier_checkpoint = previous, recent_region = recent,
                                      estimate_adjustment =
                                        max 0 (given_or (get_input_token_count ms c 0 0) history_count
                                               - estimate_tokens ms)\<rparr> of
                                Some result \<Rightarrow> (Inr result, [])
                              | None \<Rightarrow> summary))))"

section \<open>The configuration around a compaction (tool-loop.ts)\<close>

text \<open>\<open>replaceSessionHistory\<close> forgets the counts that the model reported for the old history.\<close>

definition forget_counts :: "compaction_config \<Rightarrow> compaction_config" where
  "forget_counts c = c\<lparr>last_known_input_tokens := None, last_known_prompt_message_count := None\<rparr>"

definition next_compaction_config :: "compaction_config \<Rightarrow> rat option \<Rightarrow> rat option \<Rightarrow> compaction_config" where
  "next_compaction_config c durable_count reported =
     (case (reported, durable_count) of
        (Some n, Some k) \<Rightarrow> c\<lparr>last_known_input_tokens := Some n, last_known_prompt_message_count := Some k\<rparr>
      | _ \<Rightarrow> forget_counts c)"

text \<open>The budget of the history is what the fixed envelope of a request leaves.\<close>

definition history_compaction :: "compaction_config \<Rightarrow> rat option \<Rightarrow> rat option \<Rightarrow> compaction_config" where
  "history_compaction c envelope previous =
     (let e = given_or 0 envelope in
      c\<lparr>compaction_threshold := max 1 (compaction_threshold c - e),
        last_known_input_tokens :=
          map_option (\<lambda>n. max 0 (n - min (given_or 0 previous) e)) (last_known_input_tokens c)\<rparr>)"

definition history_token_count ::
    "chat_message list \<Rightarrow> compaction_config \<Rightarrow> rat option \<Rightarrow> rat option \<Rightarrow> rat option" where
  "history_token_count prompt_messages c envelope previous =
     map_option (\<lambda>e. max 0 (get_input_token_count prompt_messages c e (given_or 0 previous) - e)) envelope"

section \<open>Calls and their results\<close>

text \<open>
  What a provider demands of a history: each tool result answers an open call, and no other message
  stands between a call and its results. A call answered inside its own message is not open.
\<close>

definition part_ids :: "string \<Rightarrow> message_content \<Rightarrow> string list" where
  "part_ids t c =
     (case c of TextContent s \<Rightarrow> []
      | PartsContent ps \<Rightarrow> map (\<lambda>p. given_or [] (part_string ''toolCallId'' p)) (filter (part_is t) ps))"

definition open_calls :: "chat_message \<Rightarrow> string list" where
  "open_calls m =
     (if message_role m = AssistantRole
      then filter (\<lambda>i. i \<notin> set (part_ids ''tool-result'' (message_content m))) (part_ids ''tool-call'' (message_content m))
      else [])"

definition answered :: "chat_message \<Rightarrow> string list" where
  "answered m = part_ids ''tool-result'' (message_content m)"

fun open_after :: "string list \<Rightarrow> chat_message list \<Rightarrow> string list option" where
  "open_after calls [] = Some calls"
| "open_after calls (m # ms) =
     (if message_role m = ToolRole
      then (if set (answered m) \<subseteq> set calls
            then open_after (filter (\<lambda>i. i \<notin> set (answered m)) calls) ms else None)
      else if calls = [] then open_after (open_calls m) ms else None)"

definition calls_answered :: "chat_message list \<Rightarrow> bool" where
  "calls_answered ms = (open_after [] ms = Some [])"

lemma open_after_append:
  "open_after calls (xs @ ys) = Option.bind (open_after calls xs) (\<lambda>c. open_after c ys)"
  by (induction xs arbitrary: calls) auto

lemma split_conversation:
  assumes "split_messages_for_compaction ms k = (older, recent)"
  shows "ms = older @ recent" "recent \<noteq> [] \<Longrightarrow> message_role (hd recent) \<noteq> ToolRole"
    "length recent \<le> k" "suffix recent ms"
proof -
  define tail where "tail = drop (length ms - k) ms"
  define r where "r = dropWhile (\<lambda>m. message_role m = ToolRole) tail"
  have tail: "ms = take (length ms - k) ms @ tail"
    by (simp add: tail_def)
  obtain ts where ts: "tail = ts @ r"
    unfolding r_def by (metis takeWhile_dropWhile_id)
  have eq: "older = (if k = 0 then ms else take (length ms - length r) ms)" "recent = (if k = 0 then [] else r)"
    using assms by (auto simp: split_messages_for_compaction_def Let_def tail_def r_def split: if_splits)
  have app: "ms = (take (length ms - k) ms @ ts) @ r"
    using tail ts by simp
  then have "ms = take (length ms - length r) ms @ r"
    by (metis append_eq_conv_conj length_append diff_add_inverse2)
  then show whole: "ms = older @ recent"
    using eq by simp
  show "message_role (hd recent) \<noteq> ToolRole" if "recent \<noteq> []"
    using that hd_dropWhile [of "\<lambda>m. message_role m = ToolRole" tail] by (simp add: eq(2) r_def split: if_splits)
  show "length recent \<le> k"
  proof -
    have "length r \<le> length tail"
      unfolding r_def by (rule length_dropWhile_le)
    also have "\<dots> \<le> k"
      by (simp add: tail_def)
    finally show ?thesis
      by (simp add: eq(2))
  qed
  show "suffix recent ms"
    using whole by (simp add: suffix_def)
qed

lemma calls_answered_split:
  assumes "calls_answered (older @ recent)" "recent \<noteq> [] \<Longrightarrow> message_role (hd recent) \<noteq> ToolRole"
  shows "calls_answered older" "calls_answered recent"
proof -
  obtain c where c: "open_after [] older = Some c" "open_after c recent = Some []"
    using assms(1) by (auto simp: calls_answered_def open_after_append bind_eq_Some_conv)
  have "c = []"
    using c(2) assms(2) by (cases recent) (auto split: if_splits)
  then show "calls_answered older" "calls_answered recent"
    using c by (simp_all add: calls_answered_def)
qed

lemma calls_answered_append:
  "calls_answered xs \<Longrightarrow> calls_answered ys \<Longrightarrow> calls_answered (xs @ ys)"
  by (simp add: calls_answered_def open_after_append)

lemma plain_chat_simps [simp]:
  "message_role (plain_chat r s) = r" "message_content (plain_chat r s) = TextContent s"
  "message_role (framework_chat k s) = UserRole" "message_content (framework_chat k s) = TextContent s"
  by (simp_all add: plain_chat_def framework_chat_def)

lemma open_calls_text [simp]: "message_content m = TextContent s \<Longrightarrow> open_calls m = []"
  by (simp add: open_calls_def part_ids_def)

lemma open_calls_other [simp]: "message_role m \<noteq> AssistantRole \<Longrightarrow> open_calls m = []"
  by (simp add: open_calls_def)

lemma calls_answered_head: "calls_answered (checkpoint_head s)"
  by (simp add: calls_answered_def checkpoint_head_def)

lemma calls_answered_kept: "calls_answered (keep_non_tool_result_messages ms)"
proof (induction ms)
  case (Cons m ms)
  have "calls_answered (keep_non_tool_result m)"
    by (auto simp: calls_answered_def keep_non_tool_result_def Let_def)
  with Cons show ?case
    by (simp add: keep_non_tool_result_messages_def calls_answered_append)
qed (simp add: calls_answered_def keep_non_tool_result_messages_def)

lemma part_field_with_field: "k \<noteq> k' \<Longrightarrow> part_field k (with_field k' v p) = part_field k p"
  by (auto simp: part_field_def with_field_def update_conv' split: json.splits)

lemma part_field_cap [simp]: "k \<noteq> ''output'' \<Longrightarrow> part_field k (cap_part p) = part_field k p"
  by (auto simp: cap_part_def Let_def part_field_with_field split: option.splits bool.splits)

lemma part_ids_cap [simp]: "part_ids t (PartsContent (map cap_part ps)) = part_ids t (PartsContent ps)"
proof -
  have "part_is t (cap_part p) = part_is t p" "part_string ''toolCallId'' (cap_part p) = part_string ''toolCallId'' p"
    for p by (simp_all add: part_is_def part_string_def)
  then show ?thesis
    by (simp add: part_ids_def filter_map comp_def)
qed

lemma cap_message_simps [simp]:
  "message_role (cap_message m) = message_role m" "answered (cap_message m) = answered m"
  "open_calls (cap_message m) = open_calls m"
  by (auto simp: cap_message_def answered_def open_calls_def split: message_content.splits)

lemma open_after_cap [simp]: "open_after calls (cap_tool_results ms) = open_after calls ms"
  by (induction ms arbitrary: calls) (simp_all add: cap_tool_results_def)

lemma calls_answered_cap: "calls_answered (cap_tool_results ms) = calls_answered ms"
  by (simp add: calls_answered_def)

section \<open>The resumption guard\<close>

lemma find_last_real_user_messageD:
  assumes "find_last_real_user_message ms = Some r"
  shows "r \<in> set ms" "is_real_user_text r"
proof -
  obtain i where "i < length (rev ms)" "is_real_user_text (rev ms ! i)" "r = rev ms ! i"
    using assms unfolding find_last_real_user_message_def find_Some_iff by blast
  then show "r \<in> set ms" "is_real_user_text r"
    by (metis nth_mem set_rev, simp)
qed

lemma missing_replay_role: "missing_replay ms conversation = Some r \<Longrightarrow> message_role r = UserRole"
  by (auto simp: missing_replay_def is_real_user_text_def dest!: find_last_real_user_messageD(2)
        split: option.splits if_splits)

lemma guard_cases:
  obtains "with_resumption_guard ms conversation limit = ms" "ms \<noteq> []"
      "message_role (List.last ms) \<noteq> AssistantRole"
  | m where "with_resumption_guard ms conversation limit = ms @ [m]" "message_role m = UserRole"
proof (cases "ms \<noteq> [] \<and> message_role (List.last ms) \<noteq> AssistantRole")
  case True
  then show ?thesis
    using that missing_replay_role [of ms conversation]
    by (cases "missing_replay ms conversation";
        cases "message_role (List.last ms) = ToolRole \<and> estimate_tokens [the (missing_replay ms conversation)] \<le> limit")
      (auto simp: with_resumption_guard_def)
next
  case False
  then show ?thesis
    using that(2) missing_replay_role [of ms conversation]
    by (cases "missing_replay ms conversation") (auto simp: with_resumption_guard_def)
qed

lemma guard_last:
  "with_resumption_guard ms conversation limit \<noteq> []"
  "message_role (List.last (with_resumption_guard ms conversation limit)) \<noteq> AssistantRole"
  by (cases rule: guard_cases [of ms conversation limit]; simp)+

lemma guard_calls_answered: "calls_answered ms \<Longrightarrow> calls_answered (with_resumption_guard ms conversation limit)"
  by (cases rule: guard_cases [of ms conversation limit]) (simp_all add: calls_answered_def open_after_append)

section \<open>What a compaction returns\<close>

lemma grow_window_le: "int (grow_window budget m keep used ms) \<le> max (int keep) m"
  by (induction budget m keep used ms rule: grow_window.induct) auto

lemma select_recent_window_size_le:
  "int (select_recent_window_size ms c) \<le> max 0 (min (recent_window_size c) (int (length ms) - 1))"
proof -
  have clip: "max 0 (min w (max a 0)) = max 0 (min w a)" for w a :: int
    by auto
  show ?thesis
    using grow_window_le [of "compaction_threshold c - resolve_compaction_summary_reserve c"
        "min (recent_window_size c) (max (int (length ms) - 1) 0)" 0 0 "rev ms"]
    unfolding select_recent_window_size_def by (simp add: clip)
qed

text \<open>A new checkpoint, a tail of the conversation that may have lost its tools, and the guard.\<close>

definition is_summary :: "chat_message list \<Rightarrow> rat \<Rightarrow> chat_message list \<Rightarrow> bool" where
  "is_summary conversation limit out =
     (\<exists>k older recent s. split_messages_for_compaction conversation k = (older, recent)
        \<and> (out = with_resumption_guard (checkpoint_head s @ recent) conversation limit
           \<or> out = with_resumption_guard (checkpoint_head s @ keep_non_tool_result_messages recent) conversation limit))"

lemma is_summaryI:
  assumes "split_messages_for_compaction conversation k = (older, recent)"
  shows "is_summary conversation limit (with_resumption_guard (checkpoint_head s @ recent) conversation limit)"
    "is_summary conversation limit
       (with_resumption_guard (checkpoint_head s @ keep_non_tool_result_messages recent) conversation limit)"
  using assms unfolding is_summary_def by blast+

lemma summarize_step:
  assumes "fst (summarize t c reply conversation previous n keep) = Inr out"
  shows "is_summary conversation (compaction_threshold c) out
    \<or> (\<exists>k. keep = Suc k \<and> fst (summarize t c reply conversation previous (Suc n) k) = Inr out)"
proof -
  obtain older recent where split: "split_messages_for_compaction conversation keep = (older, recent)"
    by fastforce
  let ?prompt = "create_compaction_prompt t older previous (compaction_threshold c)"
  obtain s where s: "reply n ?prompt = Some s" "\<not> is_blank s"
    using assms split by (auto simp: summarize.simps [of t c] Let_def split: option.splits if_splits)
  show ?thesis
    using assms is_summaryI [OF split, where s = s] split s
    by (cases keep) (auto simp: summarize.simps [of _ _ _ _ _ _ 0] summarize.simps [of _ _ _ _ _ _ "Suc k" for k]
        Let_def split: if_splits)
qed

lemma summarize_result:
  "fst (summarize t c reply conversation previous n keep) = Inr out
   \<Longrightarrow> is_summary conversation (compaction_threshold c) out"
  by (induction keep arbitrary: n) (blast dest: summarize_step)+

lemma summarize_calls: "length (snd (summarize t c reply conversation previous n keep)) \<le> Suc keep"
  by (induction keep arbitrary: n; subst summarize.simps)
    (auto simp: Let_def le_SucI split: prod.splits option.splits)

lemma summarize_returns:
  assumes "\<And>n p. \<exists>s. reply n p = Some s \<and> \<not> is_blank s"
  shows "\<exists>out. fst (summarize t c reply conversation previous n keep) = Inr out"
proof (induction keep arbitrary: n)
  case 0
  obtain older recent where split: "split_messages_for_compaction conversation 0 = (older, recent)"
    by fastforce
  obtain s where "reply n (create_compaction_prompt t older previous (compaction_threshold c)) = Some s" "\<not> is_blank s"
    using assms by blast
  then show ?case
    by (simp add: summarize.simps [of _ _ _ _ _ _ 0] Let_def split)
next
  case (Suc keep)
  obtain older recent where split: "split_messages_for_compaction conversation (Suc keep) = (older, recent)"
    by fastforce
  obtain s where "reply n (create_compaction_prompt t older previous (compaction_threshold c)) = Some s" "\<not> is_blank s"
    using assms by blast
  then show ?case
    using Suc.IH [of "Suc n"] by (simp add: summarize.simps [of _ _ _ _ _ _ "Suc keep"] Let_def split)
qed

lemma compact_messages_result:
  assumes "fst (compact_messages t ms c reply force_summary count) = Inr out"
    and "extract_previous_checkpoint ms = (conversation, previous)"
  obtains (nothing) "ms = []" "out = []"
  | (capped) k older recent head where "split_messages_for_compaction conversation k = (older, recent)"
      "head = [] \<or> (\<exists>s. head = checkpoint_head s)"
      "out = with_resumption_guard (head @ cap_tool_results older @ recent) conversation (compaction_threshold c)"
  | (summarized) "is_summary conversation (compaction_threshold c) out"
proof -
  define keep where "keep = select_recent_window_size conversation (if force_summary then c\<lparr>recent_window_size := 1\<rparr> else c)"
  let ?summary = "summarize t c reply conversation previous 0 keep"
  show thesis
  proof (cases "fst ?summary = Inr out")
    case True
    then show thesis
      using summarize_result summarized by blast
  next
    case False
    obtain older recent where split: "split_messages_for_compaction conversation keep = (older, recent)"
      by fastforce
    have force: "\<not> force_summary"
      using assms False by (auto simp: compact_messages_def Let_def keep_def)
    show thesis
    proof (cases "older = [] \<and> previous = None")
      case True
      have "length recent \<le> keep"
        using split_conversation(3) [OF split] .
      moreover have "int keep \<le> max 0 (int (length conversation) - 1)"
        using select_recent_window_size_le [of conversation c] force by (simp add: keep_def)
      moreover have "conversation = recent"
        using split_conversation(1) [OF split] True by simp
      ultimately have empty: "conversation = []"
        by (cases conversation) auto
      then have "ms = []"
        using assms(2) True by (auto simp: extract_previous_checkpoint_def split: list.splits if_splits)
      moreover have "out = []"
        using assms True force split empty \<open>conversation = recent\<close>
        by (auto simp: compact_messages_def Let_def keep_def keep_non_tool_result_messages_def)
      ultimately show thesis
        by (rule nothing)
    next
      case later: False
      then have "tool_result_cap_heuristic t
          \<lparr>heuristic_config = c, whole_conversation = conversation, older_region = older,
           earlier_checkpoint = previous, recent_region = recent,
           estimate_adjustment = max 0 (given_or (get_input_token_count ms c 0 0) count - estimate_tokens ms)\<rparr>
          = Some out"
        using assms False force split
        by (auto simp: compact_messages_def Let_def keep_def COMPACTION_HEURISTICS_def split: option.splits if_splits)
      then show thesis
        using capped [OF split, of "case previous of None \<Rightarrow> [] | Some s \<Rightarrow> checkpoint_head s"]
        by (auto simp: tool_result_cap_heuristic_def Let_def split: option.splits if_splits)
    qed
  qed
qed

lemma extract_previous_checkpoint_suffix:
  "extract_previous_checkpoint ms = (conversation, previous) \<Longrightarrow> suffix conversation ms"
  by (auto simp: extract_previous_checkpoint_def suffix_def split: list.splits if_splits)

lemma calls_answered_conversation:
  assumes "extract_previous_checkpoint ms = (conversation, previous)" "calls_answered ms"
    and "previous \<noteq> None \<Longrightarrow> open_calls (ms ! 1) = []"
  shows "calls_answered conversation"
  using assms by (auto simp: extract_previous_checkpoint_def calls_answered_def split: list.splits if_splits)

lemma calls_answered_summary:
  assumes "is_summary conversation limit out" "calls_answered conversation"
  shows "calls_answered out"
proof -
  obtain k older recent s where split: "split_messages_for_compaction conversation k = (older, recent)"
    and out: "out = with_resumption_guard (checkpoint_head s @ recent) conversation limit
      \<or> out = with_resumption_guard (checkpoint_head s @ keep_non_tool_result_messages recent) conversation limit"
    using assms(1) by (auto simp: is_summary_def)
  have "calls_answered recent"
    using calls_answered_split(2) assms(2) split_conversation(1,2) [OF split] by blast
  then show ?thesis
    using out by (auto intro!: guard_calls_answered calls_answered_append calls_answered_head calls_answered_kept)
qed

lemma accepted_without_calls:
  assumes "compact_messages t ms c reply False count = (Inr out, [])" "out \<noteq> []"
  shows "\<exists>adjustment \<ge> 0. within_threshold t out c ShouldCompact adjustment"
proof -
  obtain conversation previous where ex: "extract_previous_checkpoint ms = (conversation, previous)"
    by fastforce
  let ?keep = "select_recent_window_size conversation c"
  obtain older recent where split: "split_messages_for_compaction conversation ?keep = (older, recent)"
    by fastforce
  have asks: "snd (summarize t c reply conversation previous 0 ?keep) \<noteq> []"
    by (subst summarize.simps) (auto simp: Let_def split: prod.splits option.splits nat.splits)
  have empty: "keep_non_tool_result_messages recent = []" if "older = []" "previous = None"
  proof -
    have "conversation = recent" "length recent \<le> ?keep"
      using split_conversation(1,3) [OF split] that by simp_all
    then have "recent = []"
      using select_recent_window_size_le [of conversation c] by (cases recent) auto
    then show ?thesis
      by (simp add: keep_non_tool_result_messages_def)
  qed
  show ?thesis
    using assms asks empty
    by (auto simp: compact_messages_def ex Let_def split COMPACTION_HEURISTICS_def tool_result_cap_heuristic_def
        split: if_splits option.splits intro!: exI [of _ "max 0 _"])
qed

section \<open>The last instruction\<close>

definition holds_text_of :: "chat_message \<Rightarrow> chat_message list \<Rightarrow> bool" where
  "holds_text_of u ms = list_ex (\<lambda>m. message_role m = UserRole \<and> message_content m = message_content u) ms"

lemma holds_text_append [simp]: "holds_text_of u (xs @ ys) = (holds_text_of u xs \<or> holds_text_of u ys)"
  by (simp add: holds_text_of_def)

lemma holds_text_member: "u \<in> set ms \<Longrightarrow> is_real_user_text u \<Longrightarrow> holds_text_of u ms"
  by (auto simp: holds_text_of_def is_real_user_text_def list_ex_iff)

lemma cap_message_real: "is_real_user_text u \<Longrightarrow> cap_message u = u"
  by (auto simp: is_real_user_text_def cap_message_def split: message_content.splits)

lemma find_last_real_user_message_eq:
  assumes "is_real_user_text u" "\<not> list_ex is_real_user_text later"
  shows "find_last_real_user_message (earlier @ u # later) = Some u"
proof -
  have "List.find is_real_user_text (xs @ u # rest) = Some u" if "\<not> list_ex is_real_user_text xs" for xs rest
    using that assms(1) by (induction xs) auto
  then show ?thesis
    using assms(2) by (simp add: find_last_real_user_message_def list_ex_iff)
qed

text \<open>
  A message after the instruction that neither the assistant nor a tool wrote: of the framework, or of the user
  with attachments. The guard lets a history end in it.
\<close>

definition interjects :: "chat_message list \<Rightarrow> chat_message \<Rightarrow> bool" where
  "interjects later m = (m \<in> set later \<and> message_role m \<in> {UserRole, SystemRole})"

lemma role_or_interjects: "m \<in> set later \<Longrightarrow> message_role m \<in> {AssistantRole, ToolRole} \<or> interjects later m"
  by (cases "message_role m") (simp_all add: interjects_def)

lemma guard_keeps_instruction:
  assumes last: "find_last_real_user_message conversation = Some u"
    and body: "holds_text_of u ms \<or> ms = [] \<or> message_role (List.last ms) \<in> {AssistantRole, ToolRole}
      \<or> interjects later (List.last ms)"
    and out_def: "out = with_resumption_guard ms conversation limit"
  shows "holds_text_of u out \<or> (message_role (List.last out) = ToolRole \<and> limit < estimate_tokens [u])
    \<or> interjects later (List.last out)"
proof (cases "holds_text_of u ms")
  case True
  then show ?thesis
    unfolding out_def by (cases rule: guard_cases [of ms conversation limit]) simp_all
next
  case False
  then have missing: "missing_replay ms conversation = Some u"
    using last by (simp add: missing_replay_def holds_text_of_def)
  then have u: "holds_text_of u [u]"
    using missing_replay_role by (simp add: holds_text_of_def)
  show ?thesis
    using body False missing u
    by (cases "ms \<noteq> [] \<and> message_role (List.last ms) \<noteq> AssistantRole"; cases "estimate_tokens [u] \<le> limit")
      (auto simp: out_def with_resumption_guard_def)
qed

lemma suffix_with_instruction:
  assumes "suffix recent (earlier @ u # later)"
  shows "u \<in> set recent \<or> suffix recent later"
  using assms by (auto simp: suffix_append suffix_Cons)

lemma recent_keeps_instruction:
  assumes u: "is_real_user_text u"
    and "suffix recent (earlier @ u # later)" and "body = recent \<or> body = keep_non_tool_result_messages recent"
  shows "holds_text_of u body
    \<or> list_all (\<lambda>m. message_role m \<in> {AssistantRole, ToolRole} \<or> interjects later m) body"
proof (cases "u \<in> set recent")
  case True
  then have "u \<in> set body"
    using assms(3) u by (auto simp: keep_non_tool_result_messages_def keep_non_tool_result_def is_real_user_text_def)
  then show ?thesis
    using holds_text_member u by blast
next
  case False
  then have "set recent \<subseteq> set later"
    using suffix_with_instruction [OF assms(2)] set_mono_suffix by blast
  then have "list_all (\<lambda>m. message_role m \<in> {AssistantRole, ToolRole} \<or> interjects later m) recent"
    using role_or_interjects by (auto simp: list_all_iff)
  then show ?thesis
    using assms(3)
    by (auto simp: list_all_iff keep_non_tool_result_messages_def keep_non_tool_result_def Let_def split: if_splits)
qed

lemma checkpoint_head_last:
  "List.last (checkpoint_head s) = plain_chat AssistantRole s"
  "List.last (checkpoint_head s @ body) = (if body = [] then plain_chat AssistantRole s else List.last body)"
  by (simp_all add: checkpoint_head_def)

lemma summary_keeps_instruction:
  assumes "is_summary (earlier @ u # later) limit out" "is_real_user_text u"
    and "\<not> list_ex is_real_user_text later"
  shows "holds_text_of u out \<or> (message_role (List.last out) = ToolRole \<and> limit < estimate_tokens [u])
    \<or> interjects later (List.last out)"
proof -
  obtain k older recent s body where split: "split_messages_for_compaction (earlier @ u # later) k = (older, recent)"
    and body: "body = recent \<or> body = keep_non_tool_result_messages recent"
    and out: "out = with_resumption_guard (checkpoint_head s @ body) (earlier @ u # later) limit"
    using assms(1) unfolding is_summary_def by blast
  have "holds_text_of u body
      \<or> list_all (\<lambda>m. message_role m \<in> {AssistantRole, ToolRole} \<or> interjects later m) body"
    using recent_keeps_instruction [OF assms(2) split_conversation(4) [OF split] body] .
  then have "holds_text_of u (checkpoint_head s @ body)
      \<or> message_role (List.last (checkpoint_head s @ body)) \<in> {AssistantRole, ToolRole}
      \<or> interjects later (List.last (checkpoint_head s @ body))"
    by (cases "body = []") (auto simp: list_all_iff checkpoint_head_last)
  then show ?thesis
    unfolding out using guard_keeps_instruction [OF find_last_real_user_message_eq [OF assms(2,3)] _ refl] by blast
qed

section \<open>What goes wrong\<close>

text \<open>A cut result is over the limit again, so the next compaction cuts it once more.\<close>

lemma length_quote_string: "length s + 2 \<le> length (quote_string s)"
proof -
  have "length s \<le> length (concat (map escape_char s))"
  proof (induction s)
    case (Cons c s)
    then show ?case
      by (auto simp: escape_char_def Let_def)
  qed simp
  then show ?thesis
    by (simp add: quote_string_def)
qed

lemma capped_results_are_capped_again:
  assumes "part_is ''tool-result'' p" "part_field ''output'' p = Some v"
    and "TRANSCRIPT_PAYLOAD_LIMIT < length (json_stringify (stub_content_output_file_parts v))"
    and "0xD800 > (of_char (json_stringify (stub_content_output_file_parts v) ! (TRANSCRIPT_PAYLOAD_LIMIT - 1)) :: nat)"
  shows "\<exists>w. part_field ''output'' (cap_part p) = Some w \<and> TRANSCRIPT_PAYLOAD_LIMIT < length (json_stringify w)"
proof -
  let ?s = "CAPPED_RESULT_ANNOTATION @ newline @ newline
    @ slice_utf16_safe (json_stringify (stub_content_output_file_parts v)) TRANSCRIPT_PAYLOAD_LIMIT"
  have "length ?s \<ge> TRANSCRIPT_PAYLOAD_LIMIT"
    using assms(3,4) by (simp add: slice_utf16_safe_def TRANSCRIPT_PAYLOAD_LIMIT_def)
  then have "TRANSCRIPT_PAYLOAD_LIMIT < length (json_stringify (JObj [(''type'', JStr ''text''), (''value'', JStr ?s)]))"
    using length_quote_string [of ?s] by simp
  moreover obtain es where "p = JObj es"
    using assms(2) by (cases p) (auto simp: part_field_def)
  ultimately show ?thesis
    using assms(1-3) by (simp add: cap_part_def Let_def part_field_def with_field_def update_conv')
qed

text \<open>
  A first message of the user that reads like the marker is taken for a checkpoint, whatever its kind:
  the calls of the answer are dropped, and their results open the conversation.
\<close>

lemma marker_typed_by_the_user:
  defines "asks \<equiv> (plain_chat UserRole COMPACTION_CHECKPOINT_MARKER)\<lparr>message_kind := Some ''user''\<rparr>"
    and "call \<equiv> (plain_chat AssistantRole [])\<lparr>message_content := PartsContent
           [JObj [(''type'', JStr ''tool-call''), (''toolCallId'', JStr ''c'')]]\<rparr>"
    and "result \<equiv> (plain_chat ToolRole [])\<lparr>message_content := PartsContent
           [JObj [(''type'', JStr ''tool-result''), (''toolCallId'', JStr ''c'')]]\<rparr>"
  shows "calls_answered [asks, call, result]
    \<and> extract_previous_checkpoint [asks, call, result] = ([result], Some [])
    \<and> \<not> calls_answered [result]"
  unfolding asks_def call_def result_def by code_simp

text \<open>
  The replayed instruction follows an approval response at the end of the tail, where the next request
  looks for it.
\<close>

lemma replay_hides_an_approval:
  defines "call \<equiv> (plain_chat AssistantRole [])\<lparr>message_content := PartsContent
           [JObj [(''type'', JStr ''tool-call''), (''toolCallId'', JStr ''c'')]]\<rparr>"
    and "approval \<equiv> (plain_chat ToolRole [])\<lparr>message_content := PartsContent
           [JObj [(''type'', JStr ''tool-approval-response''), (''approvalId'', JStr ''a'')]]\<rparr>"
    and "asks \<equiv> plain_chat UserRole ''do it''"
  shows "split_messages_for_compaction [asks, call, approval] 2 = ([asks], [call, approval])"
    and "estimate_tokens [asks] \<le> limit \<Longrightarrow>
      with_resumption_guard (checkpoint_head s @ [call, approval]) [asks, call, approval] limit
        = checkpoint_head s @ [call, approval, asks]"
proof -
  show "split_messages_for_compaction [asks, call, approval] 2 = ([asks], [call, approval])"
    by (simp add: split_messages_for_compaction_def asks_def call_def approval_def plain_chat_def)
  have "missing_replay (checkpoint_head s @ [call, approval]) [asks, call, approval] = Some asks"
    by (simp add: missing_replay_def find_last_real_user_message_def asks_def call_def approval_def
        is_real_user_text_def is_framework_chat_def checkpoint_head_def plain_chat_def framework_chat_def
        COMPACTION_CHECKPOINT_MARKER_def)
  then show "with_resumption_guard (checkpoint_head s @ [call, approval]) [asks, call, approval] limit
        = checkpoint_head s @ [call, approval, asks]" if "estimate_tokens [asks] \<le> limit"
    using that by (simp add: with_resumption_guard_def approval_def)
qed

text \<open>A tail of tool results is never kept, so its shorter versions ask the model the same question.\<close>

lemma tool_tail_asks_again:
  assumes "list_all (\<lambda>m. message_role m = ToolRole) (drop (length ms - keep) ms)" "k \<le> keep"
  shows "split_messages_for_compaction ms k = (ms, [])"
proof -
  have "set (drop (length ms - k) ms) \<subseteq> set (drop (length ms - keep) ms)"
    using assms(2) by (simp add: set_drop_subset_set_drop)
  then have dropped: "dropWhile (\<lambda>m. message_role m = ToolRole) (drop (length ms - k) ms) = []"
    using assms(1) by (auto simp: dropWhile_eq_Nil_conv list_all_iff)
  show ?thesis
    unfolding split_messages_for_compaction_def Let_def dropped by simp
qed

section \<open>A small history\<close>

definition small_texts :: prompt_texts where
  "small_texts = \<lparr>system_text = ''s'', checkpoint_text = ''c'', ellipsis = ''.''\<rparr>"

definition small_config :: "rat \<Rightarrow> compaction_config" where
  "small_config n = \<lparr>last_known_input_tokens = None, last_known_prompt_message_count = None,
     recent_window_size = 2, compaction_threshold = n\<rparr>"

definition tool_message :: "message_role \<Rightarrow> string \<Rightarrow> chat_message" where
  "tool_message r k = (plain_chat r [])\<lparr>message_content := PartsContent
     [JObj [(''type'', JStr k), (''toolCallId'', JStr ''c''), (''toolName'', JStr ''t'')]]\<rparr>"

definition small_history :: "chat_message list" where
  "small_history = [plain_chat UserRole ''do it'', tool_message AssistantRole ''tool-call'',
     tool_message ToolRole ''tool-result'', plain_chat AssistantRole ''done'']"

lemma small_capped:
  "compact_messages small_texts small_history (small_config 5000) (\<lambda>n p. None) False None
     = (Inr (small_history @ [framework_chat ''execution.continuation'' ''Continue.'']), [])"
  by code_simp

lemma small_summarized:
  "fst (compact_messages small_texts small_history (small_config 100) (\<lambda>n p. Some ''sum'') False None)
     = Inr (checkpoint_head ''sum'' @ [plain_chat AssistantRole ''done'', plain_chat UserRole ''do it''])"
  by code_simp

lemma small_accepted:
  "compact_messages small_texts small_history (history_compaction (small_config 5000) (Some 10) None)
       (\<lambda>n p. None) False (history_token_count small_history (small_config 5000) (Some 10) None)
     = (Inr (small_history @ [framework_chat ''execution.continuation'' ''Continue.'']), [])"
  by code_simp

section \<open>Properties\<close>

text \<open>A compacted history can be sent: it is not empty and ends on a message a model may answer.\<close>

lemma compacted_history_resumes:
  assumes "fst (compact_messages t ms c reply force_summary count) = Inr out" "ms \<noteq> []"
  shows "out \<noteq> [] \<and> message_role (List.last out) \<noteq> AssistantRole"
proof -
  obtain conversation previous where ex: "extract_previous_checkpoint ms = (conversation, previous)"
    by fastforce
  show ?thesis
    using guard_last assms(2)
    by (cases rule: compact_messages_result [OF assms(1) ex]) (auto simp: is_summary_def)
qed

theorem compacted_history_resumes_witness:
  "\<exists>out. fst (compact_messages small_texts small_history (small_config 100) (\<lambda>n p. Some ''sum'') False None) = Inr out
     \<and> out \<noteq> [] \<and> message_role (List.last out) \<noteq> AssistantRole"
  using compacted_history_resumes [OF small_summarized] small_summarized by (simp add: small_history_def)

text \<open>C37: Each tool result of a compacted history still follows its call, and each call has its results.\<close>

theorem calls_keep_their_results:
  assumes "fst (compact_messages t ms c reply force_summary count) = Inr out" "calls_answered ms"
    and "snd (extract_previous_checkpoint ms) \<noteq> None \<Longrightarrow> open_calls (ms ! 1) = []"
  shows "calls_answered out"
proof -
  obtain conversation previous where ex: "extract_previous_checkpoint ms = (conversation, previous)"
    by fastforce
  then have whole: "calls_answered conversation"
    using calls_answered_conversation assms(2,3) by simp
  show ?thesis
  proof (cases rule: compact_messages_result [OF assms(1) ex, case_names nothing capped summarized])
    case nothing
    then show ?thesis by (simp add: calls_answered_def)
  next
    case (capped k older recent head)
    have "calls_answered head"
      using capped(2) calls_answered_head by (auto simp: calls_answered_def)
    moreover have "calls_answered older" "calls_answered recent"
      using calls_answered_split whole split_conversation(1,2) [OF capped(1)] by blast+
    ultimately show ?thesis
      unfolding capped(3) by (intro guard_calls_answered calls_answered_append) (simp_all add: calls_answered_cap)
  next
    case summarized
    then show ?thesis using calls_answered_summary whole by blast
  qed
qed

theorem calls_keep_their_results_witness:
  "\<exists>out. fst (compact_messages small_texts small_history (small_config 100) (\<lambda>n p. Some ''sum'') False None) = Inr out
     \<and> calls_answered out"
proof -
  have "calls_answered small_history" "snd (extract_previous_checkpoint small_history) = None"
    by code_simp+
  then show ?thesis
    using calls_keep_their_results [OF small_summarized] small_summarized by auto
qed

text \<open>C39: A history that was only capped, accepted without a model call, is under the threshold of the
  session with the same envelope: as it is, before anything is added to it, it does not trigger another compaction.
\<close>

theorem accepted_history_stays_accepted:
  assumes "compact_messages t ms (history_compaction c (Some envelope) previous) reply False
             (history_token_count prompt_messages c (Some envelope) previous) = (Inr out, [])"
    and "1 + envelope \<le> compaction_threshold c"
  shows "\<not> should_compact t out (forget_counts c) envelope later"
proof (cases "out = []")
  case True
  then show ?thesis by (simp add: should_compact_def)
next
  case False
  let ?c = "history_compaction c (Some envelope) previous"
  obtain adjustment where "0 \<le> adjustment" "within_threshold t out ?c ShouldCompact adjustment"
    using accepted_without_calls [OF assms(1) False] by blast
  moreover have "compaction_threshold ?c = compaction_threshold c - envelope"
    using assms(2) by (simp add: history_compaction_def given_or_def)
  ultimately show ?thesis
    by (simp add: should_compact_def within_threshold_def get_input_token_count_def forget_counts_def)
qed

theorem accepted_history_stays_accepted_witness:
  "\<not> should_compact small_texts
      (small_history @ [framework_chat ''execution.continuation'' ''Continue.'']) (forget_counts (small_config 5000)) 10 0"
  by (rule accepted_history_stays_accepted [OF small_accepted]) (simp add: small_config_def)

text \<open>C40: A compaction ends: it asks the model once for each size of the recent window at most, and returns
  a history when the model answers with text.
\<close>

theorem compaction_asks_boundedly:
  "int (length (snd (compact_messages t ms c reply force_summary count)))
     \<le> 1 + max 0 (min (if force_summary then 1 else recent_window_size c) (int (length ms) - 1))
   \<and> ((\<forall>n p. \<exists>s. reply n p = Some s \<and> \<not> is_blank s)
       \<longrightarrow> (\<exists>out. fst (compact_messages t ms c reply force_summary count) = Inr out))"
proof -
  obtain conversation previous where ex: "extract_previous_checkpoint ms = (conversation, previous)"
    by fastforce
  let ?c = "if force_summary then c\<lparr>recent_window_size := 1\<rparr> else c"
  let ?keep = "select_recent_window_size conversation ?c"
  let ?summary = "summarize t c reply conversation previous 0 ?keep"
  have cases: "compact_messages t ms c reply force_summary count = ?summary
      \<or> (\<exists>out. compact_messages t ms c reply force_summary count = (Inr out, []))"
    by (auto simp: compact_messages_def Let_def ex split: prod.splits option.splits)
  have "length conversation \<le> length ms"
    using extract_previous_checkpoint_suffix [OF ex] by (rule suffix_length_le)
  then have "int ?keep \<le> max 0 (min (if force_summary then 1 else recent_window_size c) (int (length ms) - 1))"
    using select_recent_window_size_le [of conversation ?c] by (auto split: if_splits)
  moreover have "length (snd ?summary) \<le> Suc ?keep"
    by (rule summarize_calls)
  moreover have "\<exists>out. fst ?summary = Inr out" if "\<forall>n p. \<exists>s. reply n p = Some s \<and> \<not> is_blank s"
    using that by (intro summarize_returns) blast
  ultimately show ?thesis
    using cases by fastforce
qed

theorem compaction_asks_boundedly_witness:
  "length (snd (compact_messages small_texts small_history (small_config 1) (\<lambda>n p. Some ''sum'') False None)) \<le> 3
   \<and> (\<exists>out. fst (compact_messages small_texts small_history (small_config 1) (\<lambda>n p. Some ''sum'') False None) = Inr out)"
proof -
  have "\<not> is_blank ''sum''" by code_simp
  then show ?thesis
    using compaction_asks_boundedly [of small_texts small_history "small_config 1" "\<lambda>n p. Some ''sum''" False None]
    by (simp add: small_config_def small_history_def)
qed

text \<open>C38: The last instruction of the user, the last user message in plain text that is not the
  framework's, is in every compacted history, with two exceptions, and they are the only ones: the history ends in
  tool results and the instruction alone is longer than the budget, or it ends in a message that came after the
  instruction and that neither the assistant nor a tool wrote (one of the framework, or one of the user with
  attachments). In particular it is never lost while only the assistant and its tools have spoken since, unless
  it is longer than the budget.\<close>

theorem instruction_survives:
  assumes "fst (compact_messages t ms c reply force_summary count) = Inr out"
    and "extract_previous_checkpoint ms = (earlier @ u # later, previous)"
    and "is_real_user_text u" "\<not> list_ex is_real_user_text later"
  shows "(holds_text_of u out
          \<or> (message_role (List.last out) = ToolRole \<and> compaction_threshold c < estimate_tokens [u])
          \<or> (List.last out \<in> set later \<and> message_role (List.last out) \<in> {UserRole, SystemRole}))
    \<and> (list_all (\<lambda>m. message_role m \<in> {AssistantRole, ToolRole}) later \<longrightarrow>
         holds_text_of u out
         \<or> (message_role (List.last out) = ToolRole \<and> compaction_threshold c < estimate_tokens [u]))"
proof -
  have "holds_text_of u out
      \<or> (message_role (List.last out) = ToolRole \<and> compaction_threshold c < estimate_tokens [u])
      \<or> interjects later (List.last out)"
  proof (cases rule: compact_messages_result [OF assms(1,2), case_names nothing capped summarized])
    case nothing
    then show ?thesis
      using extract_previous_checkpoint_suffix [OF assms(2)] by simp
  next
    case (capped k older recent head)
    have "u \<in> set (cap_tool_results older @ recent)"
      using split_conversation(1) [OF capped(1)] cap_message_real [OF assms(3)]
      by (metis cap_tool_results_def image_eqI in_set_conv_decomp set_append set_map Un_iff)
    then have "holds_text_of u (head @ cap_tool_results older @ recent)"
      using holds_text_member [OF _ assms(3)] by (metis holds_text_append)
    then show ?thesis
      unfolding capped(3)
      using guard_keeps_instruction [OF find_last_real_user_message_eq [OF assms(3,4)] _ refl] by blast
  next
    case summarized
    then show ?thesis
      using summary_keeps_instruction assms(3,4) by blast
  qed
  then show ?thesis
    by (auto simp: interjects_def list_all_iff)
qed

theorem instruction_survives_witness:
  "\<exists>out. fst (compact_messages small_texts small_history (small_config 100) (\<lambda>n p. Some ''sum'') False None) = Inr out
     \<and> holds_text_of (plain_chat UserRole ''do it'') out"
proof -
  let ?later = "tl small_history"
  have "extract_previous_checkpoint small_history = ([] @ plain_chat UserRole ''do it'' # ?later, None)"
    "is_real_user_text (plain_chat UserRole ''do it'')" "\<not> list_ex is_real_user_text ?later"
    "list_all (\<lambda>m. message_role m \<in> {AssistantRole, ToolRole}) ?later"
    by code_simp+
  then show ?thesis
    using instruction_survives [OF small_summarized] small_summarized by fastforce
qed

text \<open>
  The guard that replays the instruction does not run when the tail ends in a message of the framework: the
  compacted history of a task that the framework told to go on holds no instruction any more.
\<close>

lemma continuation_displaces_the_instruction:
  defines "told \<equiv> [plain_chat UserRole ''do it'', plain_chat AssistantRole ''done'',
                    framework_chat ''execution.continuation'' ''Continue.'']"
  shows "\<exists>out. fst (compact_messages small_texts told (small_config 85) (\<lambda>n p. Some ''sum'') False None) = Inr out
     \<and> \<not> holds_text_of (plain_chat UserRole ''do it'') out
     \<and> List.last out = framework_chat ''execution.continuation'' ''Continue.''"
proof -
  have "(case fst (compact_messages small_texts told (small_config 85) (\<lambda>n p. Some ''sum'') False None) of
      Inl e \<Rightarrow> False
    | Inr out \<Rightarrow> \<not> holds_text_of (plain_chat UserRole ''do it'') out
        \<and> List.last out = framework_chat ''execution.continuation'' ''Continue.'')"
    unfolding told_def by code_simp
  then show ?thesis by (auto split: sum.splits)
qed

end
