(* ===== verification/Spec2Isabelle.thy ===== *)
theory Spec2Isabelle
  imports Eve_Prelude Json_Value Session_State Handle_Store Handle_Transitions Handle_Views
    Workflow_Runs Stream_Projection Delivery Input_Queue Message_Parts Message_Reducer Usage_Limits Task_Lifecycle Step_Input Pending_Input
    Input_Resolution Turn_Emission Limit_Enforcement Stream_Wire Client_Store Session_Program Proxy_Requests Compaction
begin

text \<open>
  A verification library for the agent runtime of eve (packages/eve/src/).

  \<^bold>\<open>The program.\<close> A session is a durable conversation between a user, a model and tools. Deliveries,
  controls and callbacks reach the session through an inbox and wait in its input queue; a turn takes
  them out, and the harness runs steps that resolve pending input, enforce the limits of the session,
  call the model and run tools. What a session must remember between steps is a dictionary of JSON
  values under namespaced keys: the handles of child agents, the registry of workflow tool runs, the
  pending input batches, the token accounting, the emission state. The harness emits events; an
  emitter folds and orders them, the server writes them as newline-delimited JSON, and the client
  follows the stream over connections that break, and replays the events into messages for a user
  interface.

  \<^bold>\<open>Theories and the code they model.\<close> Paths are relative to packages/eve/src/.
  \<^item> Eve_Prelude: the array and string helpers of JavaScript, keyed lists read as maps, the sequencing
    of results, and the locale of machines that keep an invariant. It models no file.
  \<^item> Json_Value: shared/json.ts. A JavaScript value lives in a heap, since the code tests object
    identity to refuse cycles; a JSON value is a datatype.
  \<^item> Session_State: the dictionary of the session in harness/types.ts.
  \<^item> Handle_Store, Handle_Transitions, Handle_Views: subagents/handles/ (store.ts, state-key.ts,
    operation-id.ts; transitions.ts; query.ts and prompt.ts). The schemas are decoders from JSON.
  \<^item> Delivery and Input_Queue: channel/types.ts and \<open>coalesceDeliveries\<close> of harness/messages.ts;
    execution/session/input-queue.ts. The private fields of the class are the record \<open>input_queue\<close>.
  \<^item> Session_Inbox: execution/session-inbox/ (inbox.ts, protocol.ts). A pump is a phase of its source, and
    the promises of the code are the calls of a machine.
  \<^item> Session_Handoff: execution/session/ (state-cursor.ts, hook-tokens.ts, accepted-deployment.ts,
    handoff.ts, the idle check of handoff-steps.ts).
  \<^item> Session_Wait and Session_Turn: execution/session/ (admission.ts, next-input.ts,
    route-selected-delivery.ts; turn.ts, turn-step-types.ts) and runtime/actions/results.ts. Both are
    machines whose phases are the awaits of the code.
  \<^item> Session_Program: program.ts and finalization.ts of execution/session/; the loop is a labelled step
    relation, the ending a function of the steps that throw.
  \<^item> Proxy_Requests: harness/proxy-input-requests.ts, the routing of answers to descendants in
    subagents/hitl-proxy.ts, and execution/proxied-deliver-step.ts.
  \<^item> Task_Lifecycle: tasks/ (types.ts, transitions.ts, notification.ts, task-id.ts,
    delivery-policy.ts), and the failure output of execution/tools/workflow/owner-inbox.ts.
  \<^item> Workflow_Runs: harness/workflow-tool-runs.ts, tasks/session-task-cohorts.ts,
    tasks/delivery-context.ts and the parser of a work identity in protocol/activity.ts.
  \<^item> Usage_Limits: harness/turn-tag-state.ts, session-usage-limits.ts, session-limit-continuation.ts
    and shared/token-usage.ts.
  \<^item> Step_Input, Pending_Input, Input_Resolution: harness/messages.ts, input-request-class.ts and
    internal/client-context.ts; pending-input-batches.ts and stale-input-responses.ts;
    input-requests.ts, input-request-resolution.ts, hitl/ and channel/resolve-text.ts.
  \<^item> Compaction: harness/compaction.ts, compaction-prompt.ts and token-estimate.ts, with the
    configurations of harness/tool-loop.ts around a compaction.
  \<^item> Turn_Emission: harness/emission.ts, emission-state.ts, turn-client-context.ts, active-turn-id.ts,
    cancelled-turn-emission.ts.
  \<^item> Limit_Enforcement: harness/session-limit-enforcement.ts, over the joined state of Usage_Limits,
    Pending_Input and Turn_Emission.
  \<^item> Ordered_Emitter: harness/ordered-stream-emitter.ts, a machine whose steps are the calls, the
    completions of the sink and the continuations of resolved promises.
  \<^item> Message_Parts and Message_Reducer: the message projection of client/ (message-reducer-types.ts,
    message-reducer-primitives.ts, message-run-parts.ts, message-action-parts.ts,
    authorization-message-parts.ts; message-reducer.ts), with the values it reads of
    shared/action-types.ts, shared/input.ts and protocol/message.ts.
  \<^item> Stream_Projection: no file of its own; the emitter and the projection together.
  \<^item> Stream_Wire: protocol/message-version.ts, client/stream-version.ts, client/ndjson.ts,
    execution/ndjson-stream.ts and the serializer of eve-channel/request.ts.
  \<^item> Client_Stream, Client_Session, Client_Store: client/open-stream.ts with the error classes of
    client/ndjson.ts; session-utils.ts, output-schema.ts, the response stream of session.ts and
    protocol/event-dedupe.ts; eve-agent-projection.ts, optimistic-message-submissions.ts and the
    acceptance of events in eve-agent-store.ts.

  \<^bold>\<open>How the code is rendered.\<close> A function keeps its name in snake case. An object type is a record, a
  tagged union a datatype, an optional property an option. A raise is the left side of a sum, with one
  error datatype per component; \<open>and_then\<close> sequences results. A class and the operations on it are a
  state with a step function, and a history is \<open>foldl\<close> over the list of its steps, so the order and
  the interleaving of calls, callbacks and completions is the list. Asynchronous parties (the sink of
  the emitter, the server, the fetches, timers and aborts) are steps of such lists: a theorem over all
  lists is a theorem over all schedules.

  \<^bold>\<open>Parameters.\<close> What is not under the modelled files is an argument: \<open>url_ok\<close> (the URL test of the
  schema library), the SHA-256 digest, the number formatting of JavaScript, the pretty-printer of JSON
  and the lookup of historical requests (Pending_Input), the replies of the summary model and the
  fixed texts of its prompt (Compaction), \<open>stringify\<close> and \<open>parse\<close> (the JSON text
  functions, with the hypothesis that parsing undoes printing where a round trip needs it), the
  reducer of the frontend store, and in Client_Stream the server, a function of the request. What the
  workflow engine answers is an input of the session machines: what a hook accepts and when, whether a
  claim registers, the results of awaited steps, the clock, which steps throw, and which descendants
  can be reached. Costs are
  a type parameter: the definitions use only its zero, addition, subtraction and order. The theorem on
  reported usage speaks of tokens only and holds for any such type; that costs add up exactly needs a group,
  which the floating-point numbers of the code are not, and is a lemma that no property rests on.

  \<^bold>\<open>Interfaces.\<close> The locale \<open>invariant_machine\<close> (a step function and an invariant every step keeps)
  is interpreted on the handle store, the input queue, the task transition, the message reducer, the
  ordered emitter, the emission of turns, the accounting, the limits, the registry of workflow runs, the
  serializer of the stream, the session inbox, the parked owner (\<open>wait_machine\<close>) and the active turn
  (\<open>turn_cancellation\<close>); what holds after every history comes from it. The locale \<open>usage_axis\<close> (a projection of the totals
  that commutes with their addition) is interpreted on the five axes of the accounting.

  \<^bold>\<open>Bounds and fuel.\<close> The normalisation of JSON values takes the stack depth as fuel: a fuel above the
  rank of the value is enough when the heap is ranked (\<open>parse_json_value_reads\<close>), and the number of cells bounds the rank;
  on a cycle through arrays no fuel is enough. Attempt limits of the client are extended naturals, so
  an infinite policy is a value and not a big number. The loop of summaries recurs on the size of the
  recent window. All other recursion is structural or has a
  termination proof. Counters and cursors of the code are JavaScript numbers far below 2 to the power 53 and are
  naturals or integers; characters are the code units below 256.

  \<^bold>\<open>What is shown.\<close>
  \<^item> Session input: no selection throws, loses or duplicates an input; a task delivery is admitted at
    most once; a cohort becomes a turn whole (Input_Queue).
  \<^item> Session ownership: a handoff loses no accepted payload, unless the hooks it released cannot be
    claimed again, and starts at most one successor; a parked owner acts only on controls that were asked for,
    and moves its session only for a delivery that came alone; a cancellation of a running turn is never lost; the
    results a turn resumes with are those the stored session binds; each caller is told once at most, in order;
    an ending settles whoever waits.
  \<^item> Answers to descendants: each answer of a delivery is sent to where its request came from or remains
    for the parent, who drops the remainder only when an answer stops the turn; the routes dropped are exactly
    those of the delivered answers and of the batches they complete.
  \<^item> Child agents: every operation leaves a readable, valid store and moves a handle along an edge of
    its lifecycle; a lease excludes other owners; the schema reads back what was written.
  \<^item> Tasks and workflow runs: a settled task is final, an input request resumes when the last answer
    arrives whatever the grouping; running tasks share one open cohort; a registered task keeps its
    identity and outcome.
  \<^item> Pending input: every answer settles its batch or waits; approvals resolve alone; a stale answer
    becomes text; a batch leaves only when it is answered; resolution fails exactly on bad batches.
  \<^item> Limits: the tokens reported are the tokens spent; a limit is violated exactly when a quota is empty; an
    approval opens one full window and answers only its own prompt; parking, the typed answer and its
    effect compose.
  \<^item> Compaction: a compacted history keeps calls and results together, and the last instruction of the
    user but for two exceptions that the theorem names, ends where a model can answer, and does not trigger the next compaction when it was accepted
    without a model call; the model is asked at most once for each size of the window.
  \<^item> Events: the emitter sends a folding of what was emitted, with bounded buffer and without lost
    wake-ups; folding is invisible to the client; turns start and end once, cancelled and failed ones included; messages of the projection
    are never removed or reordered, and a result settles its call.
  \<^item> Wire and client: neither the cut into chunks nor heartbeats matter; serializer and reader are
    inverse; a follower sees the log without gap or repetition across reconnects, announces the tail
    exactly when it is reached, and ends after the idle limit exactly; a response shows exactly its turn; the
    frontend store shows the log and exactly its pending optimistic messages.

  \<^bold>\<open>Not modelled.\<close> The tool loop and the model adapters (harness/tool-loop.ts, ai/, models/) drive
  objects of the AI SDK; execution/ beyond the files above is glue to the workflow engine, an external
  service; of the session program entry.ts, turn-step.ts, event-sink.ts and the timeout workflow are left
  out, as are approvals and authorization, and of the compaction the memory records and its events. Built-in tools, sandboxes and channels call external systems. Discovery, the compiler
  and the bundler read the file system; the command line, the evaluation runner and the documentation
  are input and output. Of the client, the HTTP requests, prewarming, the resume protocol and the
  callbacks of the store are left out, and of eve-channel/request.ts the other parsers. Of the agent
  handle store, the parser of a wire command; of the emission, the reader of the model stream.
\<close>

end
